(* ===== verification/Prelude.thy ===== *)
theory Prelude
  imports Main "HOL-Library.Word"
begin

text \<open>
  Shared vocabulary of the development: C's integer types, the outcome of a piece of kernel
  code, sequencing, the two loop shapes the kernel uses, and the Hoare-style reasoning
  (\<open>returns\<close>, \<open>if_returns\<close>) that the component theories apply.

  A kernel function is a HOL function from its arguments and the current state to an
  \<open>outcome\<close>.  Apart from returning, kernel code can panic, can touch memory outside an
  array or through a null pointer (undefined behaviour in C, recorded as \<open>Fault\<close>), can wait
  for a spin lock that nobody on this CPU will ever release (\<open>Spin\<close>), and can hand the CPU
  to the scheduler with \<open>swtch\<close> (\<open>Switch\<close>, which carries the state at the switch; what
  the thread does when it is resumed is modelled by a definition of its own).
\<close>

unbundle bit_operations_syntax

named_theorems outcome_simps "evaluation of sequencing and loops"
named_theorems wp "weakest-precondition rules for returns"

section \<open>C integers\<close>

text \<open>
  \<^verbatim>\<open>uint64\<close>, \<^verbatim>\<open>uint\<close> and \<^verbatim>\<open>uchar\<close> are words (they wrap); a C \<^verbatim>\<open>int\<close> is
  a HOL integer, and every addition the code performs on one is followed by \<open>wrap32\<close>, the
  two's-complement reduction the target performs.
\<close>

type_synonym uint64 = "64 word"
type_synonym uint = "32 word"
type_synonym byte = "8 word"

definition wrap32 :: "int \<Rightarrow> int" where
  "wrap32 x = (x + 2147483648) mod 4294967296 - 2147483648"

definition int32 :: "int \<Rightarrow> bool" where
  "int32 x \<longleftrightarrow> -2147483648 \<le> x \<and> x < 2147483648"

lemma wrap32_id: "int32 x \<Longrightarrow> wrap32 x = x"
  by (simp add: wrap32_def int32_def)

lemma int32_wrap32 [simp]: "int32 (wrap32 x)"
  by (simp add: wrap32_def int32_def)

lemma wrap32_wraps: "wrap32 2147483648 = -2147483648"
  by (simp add: wrap32_def)

section \<open>Outcomes and sequencing\<close>

datatype ('s, 'a) outcome =
    Ret 'a 's
  | Panic string
  | Fault string
  | Spin
  | Switch 's

primrec bnd :: "('s, 'a) outcome \<Rightarrow> ('a \<Rightarrow> 's \<Rightarrow> ('s, 'b) outcome) \<Rightarrow> ('s, 'b) outcome"
where
  "bnd (Ret v s) f = f v s"
| "bnd (Panic m) f = Panic m"
| "bnd (Fault m) f = Fault m"
| "bnd Spin f = Spin"
| "bnd (Switch s) f = Switch s"

lemma bnd_assoc: "bnd (bnd m f) g = bnd m (\<lambda>v s. bnd (f v s) g)"
  by (cases m) simp_all

lemma bnd_eq_Ret:
  "bnd m f = Ret v s \<longleftrightarrow> (\<exists>u t. m = Ret u t \<and> f u t = Ret v s)"
  by (cases m) simp_all

lemma bnd_cong [fundef_cong]:
  "m = m' \<Longrightarrow> (\<And>v s. m' = Ret v s \<Longrightarrow> f v s = g v s) \<Longrightarrow> bnd m f = bnd m' g"
  by (cases m') simp_all

section \<open>Total and partial correctness\<close>

text \<open>
  \<open>returns m Q\<close>: the code returns (it neither panics, faults, spins nor gives up the CPU)
  and \<open>Q\<close> holds of the result.  \<open>if_returns m Q\<close> is the partial variant.
\<close>

definition returns :: "('s, 'a) outcome \<Rightarrow> ('a \<Rightarrow> 's \<Rightarrow> bool) \<Rightarrow> bool" where
  "returns m Q = (case m of Ret v s \<Rightarrow> Q v s | _ \<Rightarrow> False)"

definition if_returns :: "('s, 'a) outcome \<Rightarrow> ('a \<Rightarrow> 's \<Rightarrow> bool) \<Rightarrow> bool" where
  "if_returns m Q = (case m of Ret v s \<Rightarrow> Q v s | _ \<Rightarrow> True)"

lemma returns_simps [simp]:
  "returns (Ret v s) Q = Q v s"
  "\<not> returns (Panic m) Q"
  "\<not> returns (Fault m) Q"
  "\<not> returns Spin Q"
  "\<not> returns (Switch t) Q"
  by (simp_all add: returns_def)

lemma returns_bnd [wp]: "returns (bnd m f) Q = returns m (\<lambda>v s. returns (f v s) Q)"
  by (cases m) simp_all

lemma returns_iff: "returns m Q \<longleftrightarrow> (\<exists>v s. m = Ret v s \<and> Q v s)"
  by (cases m) simp_all

lemma returns_mono: "returns m P \<Longrightarrow> (\<And>v s. P v s \<Longrightarrow> Q v s) \<Longrightarrow> returns m Q"
  by (cases m) simp_all

lemma if_returns_simps [simp]:
  "if_returns (Ret v s) Q = Q v s"
  "if_returns (Panic m) Q"
  "if_returns (Fault m) Q"
  "if_returns Spin Q"
  "if_returns (Switch t) Q"
  by (simp_all add: if_returns_def)

lemma if_returns_bnd: "if_returns (bnd m f) Q = if_returns m (\<lambda>v s. if_returns (f v s) Q)"
  by (cases m) simp_all

lemma if_returns_mono: "if_returns m P \<Longrightarrow> (\<And>v s. P v s \<Longrightarrow> Q v s) \<Longrightarrow> if_returns m Q"
  by (cases m) simp_all

section \<open>Loops\<close>

text \<open>
  \<open>for_each\<close> is a C \<^verbatim>\<open>for\<close> loop over a known range; \<open>for_until\<close> is one whose body may
  leave the loop early with a value (a \<^verbatim>\<open>break\<close>, \<^verbatim>\<open>goto\<close> or \<^verbatim>\<open>return\<close> inside it).
\<close>

fun for_each :: "'i list \<Rightarrow> ('i \<Rightarrow> 's \<Rightarrow> ('s, unit) outcome) \<Rightarrow> 's \<Rightarrow> ('s, unit) outcome" where
  "for_each [] body s = Ret () s"
| "for_each (i # is) body s = bnd (body i s) (\<lambda>_ s'. for_each is body s')"

fun for_until ::
  "'i list \<Rightarrow> ('i \<Rightarrow> 's \<Rightarrow> ('s, 'r option) outcome) \<Rightarrow> 's \<Rightarrow> ('s, 'r option) outcome" where
  "for_until [] body s = Ret None s"
| "for_until (i # is) body s =
     bnd (body i s) (\<lambda>r s'. case r of Some v \<Rightarrow> Ret (Some v) s' | None \<Rightarrow> for_until is body s')"

text \<open>\<open>for_acc\<close> is a loop with local variables that the body updates.\<close>

fun for_acc ::
  "'i list \<Rightarrow> ('i \<Rightarrow> 'b \<Rightarrow> 's \<Rightarrow> ('s, 'b) outcome) \<Rightarrow> 'b \<Rightarrow> 's \<Rightarrow> ('s, 'b) outcome" where
  "for_acc [] body a s = Ret a s"
| "for_acc (i # is) body a s = bnd (body i a s) (\<lambda>a' s'. for_acc is body a' s')"

declare for_acc.simps [outcome_simps]
declare bnd.simps [outcome_simps] for_each.simps [outcome_simps] for_until.simps [outcome_simps]

lemma for_each_append:
  "for_each (xs @ ys) b s = bnd (for_each xs b s) (\<lambda>_ s'. for_each ys b s')"
  by (induction xs arbitrary: s) (auto simp: bnd_assoc intro!: bnd_cong)

lemma for_acc_append:
  "for_acc (xs @ ys) b a s = bnd (for_acc xs b a s) (\<lambda>a' s'. for_acc ys b a' s')"
  by (induction xs arbitrary: a s) (auto simp: bnd_assoc intro!: bnd_cong)

text \<open>A loop with local variables whose state and variables after each index are known.\<close>

lemma for_acc_upt:
  assumes "\<And>k. k < n \<Longrightarrow> body k (a k) (st k) = Ret (a (Suc k)) (st (Suc k))"
  shows "for_acc [0..<n] body (a 0) (st 0) = Ret (a n) (st n)"
  using assms by (induction n) (simp_all add: for_acc_append)

text \<open>A loop whose body is a known state transformer on the states it can meet is a fold.\<close>

lemma for_each_fold:
  assumes "\<And>i s. i \<in> set is \<Longrightarrow> I s \<Longrightarrow> body i s = Ret () (f i s) \<and> I (f i s)" and "I s"
  shows "for_each is body s = Ret () (fold f is s) \<and> I (fold f is s)"
  using assms by (induction "is" arbitrary: s) auto

text \<open>The invariant rule for a loop over an index range.\<close>

lemma for_each_upt:
  assumes step: "\<And>k s. lo \<le> k \<Longrightarrow> k < n \<Longrightarrow> I k s \<Longrightarrow> returns (body k s) (\<lambda>_ s'. I (Suc k) s')"
    and "I lo s" and "lo \<le> n"
  shows "returns (for_each [lo..<n] body s) (\<lambda>_ s'. I n s')"
  using \<open>lo \<le> n\<close> step
proof (induction n)
  case 0
  then show ?case using \<open>I lo s\<close> by simp
next
  case (Suc n)
  show ?case
  proof (cases "lo \<le> n")
    case True
    then have "returns (for_each [lo..<n] body s) (\<lambda>_ s'. I n s')"
      using Suc by simp
    then show ?thesis
      using True Suc.prems(2) [of n] by (auto simp: for_each_append wp elim!: returns_mono)
  next
    case False
    with Suc.prems(1) have "lo = Suc n" by simp
    with \<open>I lo s\<close> show ?thesis by simp
  qed
qed

lemma for_each_if_returns:
  assumes "\<And>i s. i \<in> set is \<Longrightarrow> I s \<Longrightarrow> if_returns (body i s) (\<lambda>_ s'. I s')" and "I s"
  shows "if_returns (for_each is body s) (\<lambda>_ s'. I s')"
  using assms
proof (induction "is" arbitrary: s)
  case Nil
  then show ?case by simp
next
  case (Cons i "is")
  then have "if_returns (body i s) (\<lambda>_ s'. I s')" by simp
  with Cons show ?case
    by (simp add: if_returns_bnd) (metis (no_types, lifting) if_returns_mono)
qed

text \<open>
  A search loop whose body leaves the state alone (up to \<open>f\<close>) until the first index that
  satisfies \<open>hit\<close>.
\<close>

lemma for_until_skip:
  assumes "\<And>i. i \<in> set is \<Longrightarrow> body i s = Ret None s"
  shows "for_until (is @ js) body s = for_until js body s"
  using assms by (induction "is") auto

section \<open>Lists\<close>

lemma upt_split: "k < n \<Longrightarrow> [0..<n] = [0..<k] @ k # [Suc k..<n]"
proof -
  assume "k < n"
  then have "[0..<n] = [0..<k] @ [k..<n]"
    by (metis le_eq_less_or_eq upt_add_eq_append le_iff_add zero_le)
  with \<open>k < n\<close> show ?thesis by (simp add: upt_conv_Cons)
qed

lemma find_upt_Some:
  "find P [0..<n] = Some k \<longleftrightarrow> k < n \<and> P k \<and> (\<forall>j<k. \<not> P j)"
  by (auto simp: find_Some_iff)

lemma find_upt_None: "find P [0..<n] = None \<longleftrightarrow> (\<forall>j<n. \<not> P j)"
  by (auto simp: find_None_iff)

end
