(* ===== verification/Spinlock.thy ===== *)
theory Spinlock
  imports Prelude
begin

text \<open>
  The hart-local machine state and \<^verbatim>\<open>kernel/spinlock.c\<close>: interrupt enabling, the nested
  \<open>push_off\<close>/\<open>pop_off\<close>, and the spin lock itself.  Every other record of kernel state extends
  \<open>machine\<close>, so the operations here are polymorphic in the record's extension and apply to
  every layer above.

  The sequential definitions describe one CPU running on its own; the last section gives the
  interleaving semantics of \<open>acquire\<close> and \<open>release\<close> on several CPUs, at the granularity of
  the atomic instructions the source names, and proves mutual exclusion there.
\<close>

section \<open>Parameters (param.h)\<close>

definition NPROC :: nat where "NPROC = 64"
definition NCPU :: nat where "NCPU = 8"

lemma NPROC_pos [simp]: "0 < NPROC"
  by (simp add: NPROC_def)

section \<open>Hart-local state\<close>

text \<open>The control and status registers the kernel reads and writes.\<close>

record csrs =
  sstatus :: uint64
  sepc :: uint64
  scause :: uint64
  stval :: uint64
  stvec :: uint64
  sip :: uint64
  satp :: uint64

definition SSTATUS_SPP :: uint64 where "SSTATUS_SPP = push_bit 8 1"
definition SSTATUS_SPIE :: uint64 where "SSTATUS_SPIE = push_bit 5 1"
definition SSTATUS_SIE :: uint64 where "SSTATUS_SIE = push_bit 1 1"

text \<open>\<^verbatim>\<open>struct context\<close>: the callee-saved registers of a kernel thread.\<close>

record kcontext =
  ctx_ra :: uint64
  ctx_sp :: uint64
  ctx_s0 :: uint64
  ctx_s1 :: uint64
  ctx_s2 :: uint64
  ctx_s3 :: uint64
  ctx_s4 :: uint64
  ctx_s5 :: uint64
  ctx_s6 :: uint64
  ctx_s7 :: uint64
  ctx_s8 :: uint64
  ctx_s9 :: uint64
  ctx_s10 :: uint64
  ctx_s11 :: uint64

text \<open>\<^verbatim>\<open>struct cpu\<close>; a process pointer is an index into \<^verbatim>\<open>proc[]\<close>, \<open>None\<close> is null.\<close>

record cpu =
  cpu_proc :: "nat option"
  cpu_context :: kcontext
  noff :: int
  intena :: bool

record spinlock =
  locked :: bool
  lname :: string
  lcpu :: "nat option"

text \<open>The spin locks of the kernel, by the variable that contains them.\<close>

datatype lockid =
    L_pid | L_wait | L_proc nat | L_ticks | L_kmem | L_bcache | L_buf nat | L_inode nat
  | L_log | L_itable | L_ftable | L_pipe uint64 | L_cons | L_uart | L_vdisk | L_pr

record machine =
  hart :: nat
  csr :: "nat \<Rightarrow> csrs"
  cpus :: "nat \<Rightarrow> cpu"
  locks :: "lockid \<Rightarrow> spinlock"

text \<open>\<open>cpuid\<close> reads \<^verbatim>\<open>tp\<close>; \<open>mycpu\<close> is the entry of \<^verbatim>\<open>cpus[]\<close> for this hart.\<close>

definition cpuid :: "'z machine_scheme \<Rightarrow> nat" where
  "cpuid s = hart s"

definition mycpu :: "'z machine_scheme \<Rightarrow> cpu" where
  "mycpu s = cpus s (cpuid s)"

definition upd_mycpu :: "(cpu \<Rightarrow> cpu) \<Rightarrow> 'z machine_scheme \<Rightarrow> 'z machine_scheme" where
  "upd_mycpu f s = s\<lparr>cpus := (cpus s)(cpuid s := f (mycpu s))\<rparr>"

definition upd_csr :: "(csrs \<Rightarrow> csrs) \<Rightarrow> 'z machine_scheme \<Rightarrow> 'z machine_scheme" where
  "upd_csr f s = s\<lparr>csr := (csr s)(hart s := f (csr s (hart s)))\<rparr>"

definition intr_on :: "'z machine_scheme \<Rightarrow> 'z machine_scheme" where
  "intr_on s = upd_csr (\<lambda>c. c\<lparr>sstatus := sstatus c OR SSTATUS_SIE\<rparr>) s"

definition intr_off :: "'z machine_scheme \<Rightarrow> 'z machine_scheme" where
  "intr_off s = upd_csr (\<lambda>c. c\<lparr>sstatus := sstatus c AND NOT SSTATUS_SIE\<rparr>) s"

definition intr_get :: "'z machine_scheme \<Rightarrow> bool" where
  "intr_get s \<longleftrightarrow> sstatus (csr s (hart s)) AND SSTATUS_SIE \<noteq> 0"

section \<open>Interrupt nesting\<close>

definition push_off :: "'z machine_scheme \<Rightarrow> ('z machine_scheme, unit) outcome" where
  "push_off s =
     (let old = intr_get s;
          s1 = intr_off s;
          s2 = (if noff (mycpu s1) = 0 then upd_mycpu (\<lambda>c. c\<lparr>intena := old\<rparr>) s1 else s1)
      in Ret () (upd_mycpu (\<lambda>c. c\<lparr>noff := wrap32 (noff c + 1)\<rparr>) s2))"

definition pop_off :: "'z machine_scheme \<Rightarrow> ('z machine_scheme, unit) outcome" where
  "pop_off s =
     (if intr_get s then Panic ''pop_off - interruptible''
      else if noff (mycpu s) < 1 then Panic ''pop_off''
      else let s1 = upd_mycpu (\<lambda>c. c\<lparr>noff := wrap32 (noff c - 1)\<rparr>) s
           in Ret () (if noff (mycpu s1) = 0 \<and> intena (mycpu s1) then intr_on s1 else s1))"

section \<open>The lock operations\<close>

definition upd_lock ::
  "lockid \<Rightarrow> (spinlock \<Rightarrow> spinlock) \<Rightarrow> 'z machine_scheme \<Rightarrow> 'z machine_scheme" where
  "upd_lock l f s = s\<lparr>locks := (locks s)(l := f (locks s l))\<rparr>"

definition initlock :: "lockid \<Rightarrow> string \<Rightarrow> 'z machine_scheme \<Rightarrow> 'z machine_scheme" where
  "initlock l nm s = upd_lock l (\<lambda>lk. lk\<lparr>lname := nm, locked := False, lcpu := None\<rparr>) s"

definition holding :: "lockid \<Rightarrow> 'z machine_scheme \<Rightarrow> bool" where
  "holding l s \<longleftrightarrow> locked (locks s l) \<and> lcpu (locks s l) = Some (cpuid s)"

text \<open>
  The four memory operations on the lock word: the atomic swap of \<open>acquire\<close>, recording the
  holder, clearing it, and the atomic store of \<open>release\<close>.
\<close>

definition test_and_set :: "lockid \<Rightarrow> 'z machine_scheme \<Rightarrow> 'z machine_scheme" where
  "test_and_set l s = upd_lock l (\<lambda>lk. lk\<lparr>locked := True\<rparr>) s"

definition set_holder :: "lockid \<Rightarrow> 'z machine_scheme \<Rightarrow> 'z machine_scheme" where
  "set_holder l s = upd_lock l (\<lambda>lk. lk\<lparr>lcpu := Some (cpuid s)\<rparr>) s"

definition clear_holder :: "lockid \<Rightarrow> 'z machine_scheme \<Rightarrow> 'z machine_scheme" where
  "clear_holder l s = upd_lock l (\<lambda>lk. lk\<lparr>lcpu := None\<rparr>) s"

definition sync_lock_release :: "lockid \<Rightarrow> 'z machine_scheme \<Rightarrow> 'z machine_scheme" where
  "sync_lock_release l s = upd_lock l (\<lambda>lk. lk\<lparr>locked := False\<rparr>) s"

definition acquire :: "lockid \<Rightarrow> 'z machine_scheme \<Rightarrow> ('z machine_scheme, unit) outcome" where
  "acquire l s =
     bnd (push_off s) (\<lambda>_ s1.
       if holding l s1 then Panic ''acquire''
       else if locked (locks s1 l) then Spin
       else Ret () (set_holder l (test_and_set l s1)))"

definition release :: "lockid \<Rightarrow> 'z machine_scheme \<Rightarrow> ('z machine_scheme, unit) outcome" where
  "release l s =
     (if \<not> holding l s then Panic ''release''
      else pop_off (sync_lock_release l (clear_holder l s)))"

lemmas machine_defs =
  cpuid_def mycpu_def upd_mycpu_def upd_csr_def intr_on_def intr_off_def intr_get_def
  upd_lock_def holding_def test_and_set_def set_holder_def clear_holder_def
  sync_lock_release_def

section \<open>Interrupt state\<close>

lemma SIE_off [simp]: "(x AND NOT SSTATUS_SIE) AND SSTATUS_SIE = (0 :: uint64)"
  by (rule bit_eqI) (auto simp: bit_simps)

lemma SIE_on [simp]: "(x OR SSTATUS_SIE) AND SSTATUS_SIE \<noteq> (0 :: uint64)"
proof
  assume "(x OR SSTATUS_SIE) AND SSTATUS_SIE = (0 :: uint64)"
  then have "bit ((x OR SSTATUS_SIE) AND SSTATUS_SIE) 1 = bit (0 :: uint64) 1" by simp
  then show False by (simp add: bit_simps SSTATUS_SIE_def)
qed

lemma SIE_bit: "x AND SSTATUS_SIE \<noteq> (0 :: uint64) \<longleftrightarrow> bit x 1"
proof -
  have "x AND SSTATUS_SIE = (if bit x 1 then SSTATUS_SIE else 0)"
    by (rule bit_eqI) (auto simp: bit_simps SSTATUS_SIE_def)
  moreover have "SSTATUS_SIE \<noteq> 0" by (simp add: SSTATUS_SIE_def)
  ultimately show ?thesis by simp
qed

lemma SIE_off_on: "x AND SSTATUS_SIE \<noteq> (0 :: uint64) \<Longrightarrow> (x AND NOT SSTATUS_SIE) OR SSTATUS_SIE = x"
  unfolding SIE_bit by (rule bit_eqI) (auto simp: bit_simps SSTATUS_SIE_def)

lemma SIE_off_id: "x AND SSTATUS_SIE = (0 :: uint64) \<Longrightarrow> x AND NOT SSTATUS_SIE = x"
proof -
  assume "x AND SSTATUS_SIE = (0 :: uint64)"
  then have "\<not> bit x 1" using SIE_bit by blast
  then show ?thesis by (intro bit_eqI) (auto simp: bit_simps SSTATUS_SIE_def)
qed

section \<open>Locks on one CPU\<close>

text \<open>
  \<open>cpu_ok\<close>: the nesting depth is within range, and interrupts are off whenever it is
  positive.  \<open>lock_free\<close> is the state of a lock nobody holds.  \<open>pushed\<close>, \<open>acq\<close> and
  \<open>rel\<close> are the states after a successful \<open>push_off\<close>, \<open>acquire\<close> and \<open>release\<close>;
  \<open>touch\<close> is the trace a matched pair leaves behind: only the stale copy of the interrupt
  flag in \<open>intena\<close>.
\<close>

definition cpu_ok :: "'z machine_scheme \<Rightarrow> bool" where
  "cpu_ok s \<longleftrightarrow> 0 \<le> noff (mycpu s) \<and> noff (mycpu s) < 1000000 \<and>
     (0 < noff (mycpu s) \<longrightarrow> \<not> intr_get s)"

definition lock_free :: "lockid \<Rightarrow> 'z machine_scheme \<Rightarrow> bool" where
  "lock_free l s \<longleftrightarrow> \<not> locked (locks s l) \<and> lcpu (locks s l) = None"

definition pushed :: "'z machine_scheme \<Rightarrow> 'z machine_scheme" where
  "pushed s = s\<lparr>
     csr := (csr s)(hart s := (csr s (hart s))\<lparr>sstatus := sstatus (csr s (hart s)) AND NOT SSTATUS_SIE\<rparr>),
     cpus := (cpus s)(hart s := (cpus s (hart s))\<lparr>
       intena := (if noff (cpus s (hart s)) = 0 then intr_get s else intena (cpus s (hart s))),
       noff := noff (cpus s (hart s)) + 1\<rparr>)\<rparr>"

definition acq :: "lockid \<Rightarrow> 'z machine_scheme \<Rightarrow> 'z machine_scheme" where
  "acq l s = (pushed s)\<lparr>locks :=
     (locks s)(l := (locks s l)\<lparr>locked := True, lcpu := Some (hart s)\<rparr>)\<rparr>"

definition popped :: "'z machine_scheme \<Rightarrow> 'z machine_scheme" where
  "popped s = s\<lparr>
     csr := (if noff (cpus s (hart s)) = 1 \<and> intena (cpus s (hart s))
             then (csr s)(hart s := (csr s (hart s))\<lparr>sstatus := sstatus (csr s (hart s)) OR SSTATUS_SIE\<rparr>)
             else csr s),
     cpus := (cpus s)(hart s := (cpus s (hart s))\<lparr>noff := noff (cpus s (hart s)) - 1\<rparr>)\<rparr>"

definition rel :: "lockid \<Rightarrow> 'z machine_scheme \<Rightarrow> 'z machine_scheme" where
  "rel l s = (popped s)\<lparr>locks := (locks s)(l := (locks s l)\<lparr>lcpu := None, locked := False\<rparr>)\<rparr>"

definition touch :: "'z machine_scheme \<Rightarrow> 'z machine_scheme" where
  "touch s = s\<lparr>cpus := (cpus s)(hart s := (cpus s (hart s))\<lparr>
     intena := (if noff (cpus s (hart s)) = 0 then intr_get s else intena (cpus s (hart s)))\<rparr>)\<rparr>"

lemma small_wrap32: "\<bar>x\<bar> \<le> 1000001 \<Longrightarrow> wrap32 x = x"
  by (rule wrap32_id) (auto simp: int32_def)

lemma push_off_eq: "cpu_ok s \<Longrightarrow> push_off s = Ret () (pushed s)"
  by (simp add: push_off_def pushed_def cpu_ok_def machine_defs small_wrap32 Let_def)

lemma pop_off_eq:
  assumes "\<not> intr_get s" and "1 \<le> noff (mycpu s)" and "noff (mycpu s) \<le> 1000000"
  shows "pop_off s = Ret () (popped s)"
  using assms by (simp add: pop_off_def popped_def machine_defs small_wrap32 Let_def)

lemma acquire_eq:
  assumes "cpu_ok s" and "lock_free l s"
  shows "acquire l s = Ret () (acq l s)"
proof -
  have "locks (pushed s) = locks s" "hart (pushed s) = hart s" by (simp_all add: pushed_def)
  with assms show ?thesis
    by (simp add: acquire_def push_off_eq acq_def lock_free_def machine_defs)
qed

lemma acquire_held_panics:
  assumes "cpu_ok s" and "holding l s"
  shows "acquire l s = Panic ''acquire''"
  using assms by (simp add: acquire_def push_off_eq) (simp add: pushed_def machine_defs)

lemma release_eq:
  assumes "holding l s" and "\<not> intr_get s" and "1 \<le> noff (mycpu s)" and "noff (mycpu s) \<le> 1000000"
  shows "release l s = Ret () (rel l s)"
proof -
  let ?t = "sync_lock_release l (clear_holder l s)"
  have t: "?t = s\<lparr>locks := (locks s)(l := (locks s l)\<lparr>lcpu := None, locked := False\<rparr>)\<rparr>"
    by (simp add: machine_defs)
  have "\<not> intr_get ?t" "1 \<le> noff (mycpu ?t)" "noff (mycpu ?t) \<le> 1000000"
    unfolding t using assms(2-4) by (simp_all add: machine_defs)
  then have "pop_off ?t = Ret () (popped ?t)" by (rule pop_off_eq)
  then show ?thesis using assms(1) by (simp add: release_def t) (simp add: popped_def rel_def)
qed

lemma release_not_held_panics: "\<not> holding l s \<Longrightarrow> release l s = Panic ''release''"
  by (simp add: release_def)

text \<open>What a held lock looks like from this CPU, and that nesting keeps it.\<close>

lemma hart_acq [simp]: "hart (acq l s) = hart s" and hart_rel [simp]: "hart (rel l s) = hart s"
  and hart_touch [simp]: "hart (touch s) = hart s"
  and hart_pushed [simp]: "hart (pushed s) = hart s" and hart_popped [simp]: "hart (popped s) = hart s"
  by (simp_all add: acq_def rel_def touch_def pushed_def popped_def)

lemma holding_acq [simp]: "holding l (acq l s)"
  by (simp add: acq_def pushed_def machine_defs)

lemma intr_get_acq [simp]: "\<not> intr_get (acq l s)"
  by (simp add: acq_def pushed_def machine_defs)

lemma noff_acq [simp]: "noff (mycpu (acq l s)) = noff (mycpu s) + 1"
  by (simp add: acq_def pushed_def machine_defs)

lemma lock_free_acq [simp]: "lock_free l (acq l' s) \<longleftrightarrow> l \<noteq> l' \<and> lock_free l s"
  by (auto simp: acq_def pushed_def lock_free_def)

lemma cpu_ok_acq: "cpu_ok s \<Longrightarrow> noff (mycpu s) < 999999 \<Longrightarrow> cpu_ok (acq l s)"
  by (simp add: cpu_ok_def)

lemma cpu_ok_touch [simp]: "cpu_ok (touch s) = cpu_ok s"
  by (simp add: cpu_ok_def touch_def machine_defs)

lemma lock_free_touch [simp]: "lock_free l (touch s) = lock_free l s"
  by (simp add: touch_def lock_free_def)

lemma locks_touch [simp]: "locks (touch s) = locks s" and csr_touch [simp]: "csr (touch s) = csr s"
  by (simp_all add: touch_def)

lemma noff_touch [simp]: "noff (mycpu (touch s)) = noff (mycpu s)"
  by (simp add: touch_def machine_defs)

lemma cpu_proc_touch [simp]: "cpu_proc (cpus (touch s) i) = cpu_proc (cpus s i)"
  by (simp add: touch_def)

lemma touch_touch [simp]: "touch (touch s) = touch s"
  by (simp add: touch_def machine_defs)

lemma acq_touch: "acq l (touch s) = acq l s"
  by (simp add: acq_def pushed_def touch_def machine_defs)

lemma touch_nested: "cpu_ok s \<Longrightarrow> 0 < noff (mycpu s) \<Longrightarrow> touch s = s"
  by (simp add: touch_def machine_defs)

lemma sstatus_restore:
  "(if x AND SSTATUS_SIE \<noteq> 0 then (x AND NOT SSTATUS_SIE) OR SSTATUS_SIE
    else x AND NOT SSTATUS_SIE) = (x :: uint64)"
  using SIE_off_on [of x] SIE_off_id [of x] by simp

text \<open>
  The bracket law: releasing a lock in a state that agrees with the one right after its
  acquisition on the machine fields gives those fields back as they were before.
\<close>

lemma release_acq:
  assumes "cpu_ok s" and "lock_free l s"
    and "hart t = hart s" "csr t = csr (acq l s)" "cpus t = cpus (acq l s)" "locks t = locks (acq l s)"
  shows "release l t = Ret () (t\<lparr>csr := csr s, cpus := cpus (touch s), locks := locks s\<rparr>)"
proof -
  have 1: "holding l t" "\<not> intr_get t"
    using holding_acq [of l s] intr_get_acq [of l s] assms(3-6) by (simp_all add: machine_defs)
  have 2: "mycpu t = mycpu (acq l s)" using assms(3,5) by (simp add: machine_defs)
  have 3: "release l t = Ret () (rel l t)"
    by (rule release_eq) (use 1 2 assms(1) in \<open>simp_all add: cpu_ok_def\<close>)
  have lk: "(locks t)(l := (locks t l)\<lparr>lcpu := None, locked := False\<rparr>) = locks s"
    using assms(2,6) by (auto simp: acq_def lock_free_def fun_eq_iff)
  have cp: "cpus (popped t) = cpus (touch s)"
    using assms(3,5) by (auto simp: popped_def touch_def acq_def pushed_def fun_eq_iff)
  have cs: "csr (popped t) = csr s"
  proof (cases "noff (mycpu s) = 0 \<and> intr_get s")
    case True
    then show ?thesis using assms(3-5) SIE_off_on
      by (auto simp: popped_def acq_def pushed_def fun_eq_iff machine_defs)
  next
    case False
    then have off: "\<not> intr_get s" using assms(1) by (auto simp: cpu_ok_def)
    then show ?thesis using assms(1,3-5) False
      by (auto simp: popped_def acq_def pushed_def fun_eq_iff machine_defs SIE_off_id)
  qed
  have "rel l t = (popped t)\<lparr>locks := locks s\<rparr>" by (simp add: rel_def lk)
  also have "\<dots> = t\<lparr>csr := csr s, cpus := cpus (touch s), locks := locks s\<rparr>"
    using cp cs by (simp add: popped_def)
  finally show ?thesis using 3 by simp
qed

text \<open>The machine part of a state: what the lock operations look at.\<close>

definition mach :: "'z machine_scheme \<Rightarrow> nat \<times> (nat \<Rightarrow> csrs) \<times> (nat \<Rightarrow> cpu) \<times> (lockid \<Rightarrow> spinlock)" where
  "mach s = (hart s, csr s, cpus s, locks s)"

lemma mach_cong:
  assumes "mach t = mach s"
  shows "cpu_ok t = cpu_ok s" "lock_free l t = lock_free l s" "mycpu t = mycpu s" "holding l t = holding l s" "locks t = locks s" "csr t = csr s"
  using assms by (simp_all add: mach_def cpu_ok_def lock_free_def machine_defs)

lemma release_mach:
  assumes "cpu_ok s" "lock_free l s" "mach t = mach (acq l s)"
  shows "release l t = Ret () (t\<lparr>csr := csr s, cpus := cpus (touch s), locks := locks s\<rparr>)"
  using release_acq [OF assms(1,2), of t] assms(3) by (simp add: mach_def)

section \<open>Several CPUs: interleavings of acquire and release\<close>

text \<open>
  Where a CPU is in its use of one lock: outside; in the swap loop of \<open>acquire\<close>; past the
  successful swap but before the holder is recorded; inside the critical section; past the
  clearing of the holder in \<open>release\<close>; past the atomic release, before \<open>pop_off\<close>.  A step of
  the system is one atomic action of one CPU; the order of the CPUs is arbitrary.
\<close>

datatype lkpc = Outside | Spinning | Swapped | Critical | Leaving | Popping

type_synonym spin_sys = "machine \<times> (nat \<Rightarrow> lkpc)"

inductive spin_step :: "lockid \<Rightarrow> spin_sys \<Rightarrow> spin_sys \<Rightarrow> bool" for l where
  enter: "pc i = Outside \<Longrightarrow> push_off (m\<lparr>hart := i\<rparr>) = Ret () m' \<Longrightarrow> \<not> holding l m' \<Longrightarrow>
    spin_step l (m, pc) (m', pc(i := Spinning))"
| swap_busy: "pc i = Spinning \<Longrightarrow> locked (locks m l) \<Longrightarrow>
    spin_step l (m, pc) (test_and_set l (m\<lparr>hart := i\<rparr>), pc)"
| swap_won: "pc i = Spinning \<Longrightarrow> \<not> locked (locks m l) \<Longrightarrow>
    spin_step l (m, pc) (test_and_set l (m\<lparr>hart := i\<rparr>), pc(i := Swapped))"
| record_holder: "pc i = Swapped \<Longrightarrow>
    spin_step l (m, pc) (set_holder l (m\<lparr>hart := i\<rparr>), pc(i := Critical))"
| leave: "pc i = Critical \<Longrightarrow> holding l (m\<lparr>hart := i\<rparr>) \<Longrightarrow>
    spin_step l (m, pc) (clear_holder l (m\<lparr>hart := i\<rparr>), pc(i := Leaving))"
| unlock: "pc i = Leaving \<Longrightarrow>
    spin_step l (m, pc) (sync_lock_release l (m\<lparr>hart := i\<rparr>), pc(i := Popping))"
| pop: "pc i = Popping \<Longrightarrow> pop_off (m\<lparr>hart := i\<rparr>) = Ret () m' \<Longrightarrow>
    spin_step l (m, pc) (m', pc(i := Outside))"

text \<open>The branches of the code that panic, at the point CPU \<open>i\<close> has reached.\<close>

definition spin_panics :: "lockid \<Rightarrow> spin_sys \<Rightarrow> nat \<Rightarrow> bool" where
  "spin_panics l x i \<longleftrightarrow> (case x of (m, pc) \<Rightarrow>
     (case pc i of
        Outside \<Rightarrow> holding l (m\<lparr>hart := i\<rparr>)
      | Critical \<Rightarrow> \<not> holding l (m\<lparr>hart := i\<rparr>)
      | Popping \<Rightarrow> (\<exists>msg. pop_off (m\<lparr>hart := i\<rparr>) = Panic msg)
      | _ \<Rightarrow> False))"

inductive spin_reachable :: "lockid \<Rightarrow> spin_sys \<Rightarrow> bool" for l where
  start: "lock_free l m \<Longrightarrow> (\<And>i. noff (cpus m i) = 0) \<Longrightarrow> spin_reachable l (m, \<lambda>_. Outside)"
| step: "spin_reachable l x \<Longrightarrow> spin_step l x y \<Longrightarrow> spin_reachable l y"

definition owns :: "lkpc \<Rightarrow> bool" where
  "owns p \<longleftrightarrow> p = Swapped \<or> p = Critical \<or> p = Leaving"

definition spin_inv :: "lockid \<Rightarrow> spin_sys \<Rightarrow> bool" where
  "spin_inv l x \<longleftrightarrow> (case x of (m, pc) \<Rightarrow>
     (\<forall>i j. owns (pc i) \<longrightarrow> owns (pc j) \<longrightarrow> i = j) \<and>
     (locked (locks m l) \<longleftrightarrow> (\<exists>i. owns (pc i))) \<and>
     (\<forall>i. lcpu (locks m l) = Some i \<longleftrightarrow> pc i = Critical) \<and>
     (\<forall>i. noff (cpus m i) = (if pc i = Outside then 0 else 1)) \<and>
     (\<forall>i. pc i \<noteq> Outside \<longrightarrow> \<not> intr_get (m\<lparr>hart := i\<rparr>)))"

lemma spin_invD:
  assumes "spin_inv l (m, pc)"
  shows "owns (pc i) \<Longrightarrow> owns (pc j) \<Longrightarrow> i = j"
    and "locked (locks m l) \<longleftrightarrow> (\<exists>i. owns (pc i))"
    and "lcpu (locks m l) = Some i \<longleftrightarrow> pc i = Critical"
    and "noff (cpus m i) = (if pc i = Outside then 0 else 1)"
    and "pc i \<noteq> Outside \<Longrightarrow> \<not> intr_get (m\<lparr>hart := i\<rparr>)"
  using assms by (auto simp: spin_inv_def)

lemma owns_simps [simp]:
  "owns Swapped" "owns Critical" "owns Leaving" "\<not> owns Outside" "\<not> owns Spinning" "\<not> owns Popping"
  by (simp_all add: owns_def)

lemma spin_inv_lockstep:
  assumes inv: "spin_inv l (m, pc)" and pc: "pc i \<noteq> Outside" "p \<noteq> Outside"
    and own: "owns p \<Longrightarrow> \<forall>j. owns (pc j) \<longrightarrow> j = i"
    and lk: "locked (f (locks m l)) \<longleftrightarrow> owns p \<or> (\<exists>j. j \<noteq> i \<and> owns (pc j))"
    and cp: "\<And>j. lcpu (f (locks m l)) = Some j \<longleftrightarrow> (if j = i then p = Critical else pc j = Critical)"
  shows "spin_inv l (upd_lock l f (m\<lparr>hart := i\<rparr>), pc(i := p))"
proof -
  have 1: "\<forall>a b. owns ((pc(i := p)) a) \<longrightarrow> owns ((pc(i := p)) b) \<longrightarrow> a = b"
    using spin_invD(1) [OF inv] own by (metis fun_upd_apply)
  have 2: "locked (f (locks m l)) \<longleftrightarrow> (\<exists>j. owns ((pc(i := p)) j))"
    using lk by auto
  have 3: "\<forall>j. lcpu (f (locks m l)) = Some j \<longleftrightarrow> (pc(i := p)) j = Critical"
    using cp by auto
  have 4: "\<forall>j. noff (cpus m j) = (if (pc(i := p)) j = Outside then 0 else 1)"
    using spin_invD(4) [OF inv] pc by auto
  have 5: "\<forall>j. (pc(i := p)) j \<noteq> Outside \<longrightarrow> \<not> intr_get (m\<lparr>hart := j\<rparr>)"
    using spin_invD(5) [OF inv] pc by auto
  show ?thesis unfolding spin_inv_def prod.case
    by (intro conjI) (use 1 in blast, use 2 3 4 5 in \<open>simp_all add: upd_lock_def intr_get_def\<close>)
qed

lemma spin_inv_cpustep:
  assumes inv: "spin_inv l (m, pc)" and own: "\<not> owns (pc i)" "\<not> owns p"
    and lk: "locks m' = locks m"
    and cp: "\<And>j. noff (cpus m' j) = (if (pc(i := p)) j = Outside then 0 else 1)"
    and cs: "\<And>j. (pc(i := p)) j \<noteq> Outside \<Longrightarrow> \<not> intr_get (m'\<lparr>hart := j\<rparr>)"
  shows "spin_inv l (m', pc(i := p))"
proof -
  have 1: "\<forall>a b. owns ((pc(i := p)) a) \<longrightarrow> owns ((pc(i := p)) b) \<longrightarrow> a = b"
    using spin_invD(1) [OF inv] own by (metis fun_upd_apply)
  have 2: "locked (locks m l) \<longleftrightarrow> (\<exists>j. owns ((pc(i := p)) j))"
    using spin_invD(2) [OF inv] own by (metis fun_upd_apply)
  have 3: "\<forall>j. lcpu (locks m l) = Some j \<longleftrightarrow> (pc(i := p)) j = Critical"
    using spin_invD(3) [OF inv] own by (metis fun_upd_apply owns_simps(2))
  show ?thesis unfolding spin_inv_def prod.case lk
    by (intro conjI) (use 1 in blast, use 2 3 cp cs in simp_all)
qed

lemma spin_step_inv: "spin_step l x y \<Longrightarrow> spin_inv l x \<Longrightarrow> spin_inv l y"
proof (induction rule: spin_step.induct)
  case (enter pc i m m')
  have ok: "cpu_ok (m\<lparr>hart := i\<rparr>)"
    using spin_invD(4) [OF enter(4), of i] enter(1) by (simp add: cpu_ok_def machine_defs)
  have m': "m' = pushed (m\<lparr>hart := i\<rparr>)" using enter(2) push_off_eq [OF ok] by simp
  have n: "noff (cpus m' j) = (if (pc(i := Spinning)) j = Outside then 0 else 1)" for j
    using spin_invD(4) [OF enter(4), of j] enter(1) unfolding m' pushed_def
    by (cases "j = i") simp_all
  have c: "\<not> intr_get (m'\<lparr>hart := j\<rparr>)" if "(pc(i := Spinning)) j \<noteq> Outside" for j
    using spin_invD(5) [OF enter(4), of j] that unfolding m' pushed_def intr_get_def
    by (cases "j = i") simp_all
  have l: "locks m' = locks m" unfolding m' pushed_def by simp
  show ?case
    by (rule spin_inv_cpustep [OF enter(4) _ _ l n c]) (use enter(1) in simp_all)
next
  case (swap_busy pc i m)
  have "spin_inv l (upd_lock l (\<lambda>lk. lk\<lparr>locked := True\<rparr>) (m\<lparr>hart := i\<rparr>), pc(i := Spinning))"
    by (rule spin_inv_lockstep [OF swap_busy(3)])
      (use swap_busy(1,2) spin_invD(2,3) [OF swap_busy(3)] owns_simps(5) in \<open>auto, metis\<close>)
  then show ?case using swap_busy(1) by (simp add: test_and_set_def fun_upd_idem)
next
  case (swap_won pc i m)
  have none: "\<not> owns (pc j)" for j using spin_invD(2) [OF swap_won(3)] swap_won(2) by blast
  have lcpu: "(lcpu (locks m l) = Some j) = (pc j = Critical)" for j
    using spin_invD(3) [OF swap_won(3)] by blast
  show ?case unfolding test_and_set_def
    by (rule spin_inv_lockstep [OF swap_won(3)]) (use swap_won(1) none lcpu in auto)
next
  case (record_holder pc i m)
  have own: "owns (pc j) \<longleftrightarrow> j = i" for j
    using spin_invD(1) [OF record_holder(2), of j i] record_holder(1) by auto
  have lcpu: "(lcpu (locks m l) = Some j) = (pc j = Critical)" "locked (locks m l)" for j
    using spin_invD(2,3) [OF record_holder(2)] own by blast+
  have crit: "pc j = Critical \<longleftrightarrow> False" for j using own [of j] record_holder(1) by auto
  have out: "pc i \<noteq> Outside" using record_holder(1) by simp
  show ?case unfolding set_holder_def
    by (rule spin_inv_lockstep [OF record_holder(2)])
      (use out own lcpu crit in \<open>auto simp: cpuid_def\<close>)
next
  case (leave pc i m)
  have own: "owns (pc j) \<longleftrightarrow> j = i" for j
    using spin_invD(1) [OF leave(3), of j i] leave(1) by auto
  have lcpu: "(lcpu (locks m l) = Some j) = (pc j = Critical)" "locked (locks m l)" for j
    using spin_invD(2,3) [OF leave(3)] own by blast+
  have crit: "pc j = Critical \<longleftrightarrow> j = i" for j using own [of j] leave(1) by auto
  have out: "pc i \<noteq> Outside" using leave(1) by simp
  show ?case unfolding clear_holder_def
    by (rule spin_inv_lockstep [OF leave(3)])
      (use out own lcpu crit in \<open>auto simp: cpuid_def\<close>)
next
  case (unlock pc i m)
  have own: "owns (pc j) \<longleftrightarrow> j = i" for j
    using spin_invD(1) [OF unlock(2), of j i] unlock(1) by auto
  have lcpu: "(lcpu (locks m l) = Some j) = (pc j = Critical)" "locked (locks m l)" for j
    using spin_invD(2,3) [OF unlock(2)] own by blast+
  have crit: "pc j = Critical \<longleftrightarrow> False" for j using own [of j] unlock(1) by auto
  have out: "pc i \<noteq> Outside" using unlock(1) by simp
  show ?case unfolding sync_lock_release_def
    by (rule spin_inv_lockstep [OF unlock(2)])
      (use out own lcpu crit in \<open>auto simp: cpuid_def\<close>)
next
  case (pop pc i m m')
  have off: "\<not> intr_get (m\<lparr>hart := i\<rparr>)" "noff (mycpu (m\<lparr>hart := i\<rparr>)) = 1"
    using spin_invD(4,5) [OF pop(3), of i] pop(1) by (simp_all add: machine_defs)
  have m': "m' = popped (m\<lparr>hart := i\<rparr>)"
    using pop(2) off pop_off_eq [of "m\<lparr>hart := i\<rparr>"] by simp
  have n: "noff (cpus m' j) = (if (pc(i := Outside)) j = Outside then 0 else 1)" for j
    using spin_invD(4) [OF pop(3), of j] pop(1) unfolding m' popped_def
    by (cases "j = i") simp_all
  have c: "\<not> intr_get (m'\<lparr>hart := j\<rparr>)" if "(pc(i := Outside)) j \<noteq> Outside" for j
    using spin_invD(5) [OF pop(3), of j] that unfolding m' popped_def intr_get_def
    by (cases "j = i") simp_all
  have l: "locks m' = locks m" unfolding m' popped_def by simp
  show ?case
    by (rule spin_inv_cpustep [OF pop(3) _ _ l n c]) (use pop(1) in simp_all)
qed

lemma spin_reachable_inv: "spin_reachable l x \<Longrightarrow> spin_inv l x"
proof (induction rule: spin_reachable.induct)
  case (start m)
  then show ?case by (simp add: spin_inv_def lock_free_def)
next
  case (step x y)
  then show ?case by (blast intro: spin_step_inv)
qed

lemma spin_inv_no_panic: "spin_inv l (m, pc) \<Longrightarrow> \<not> spin_panics l (m, pc) i"
proof -
  assume inv: "spin_inv l (m, pc)"
  have "pc i = Popping \<Longrightarrow> pop_off (m\<lparr>hart := i\<rparr>) = Ret () (popped (m\<lparr>hart := i\<rparr>))"
    using spin_invD(4,5) [OF inv, of i] by (intro pop_off_eq) (simp_all add: machine_defs)
  then show ?thesis
    using spin_invD(2,3) [OF inv] by (auto simp: spin_panics_def machine_defs owns_def split: lkpc.splits)
qed

text \<open>\<open>acquire\<close> and \<open>release\<close> are runs of the steps: what they return is reached by the steps of one CPU.\<close>

lemma machine_hart: "hart m = i \<Longrightarrow> m\<lparr>hart := i\<rparr> = m"
  by simp

lemma acquire_steps:
  assumes "spin_reachable l (m, pc)" "pc i = Outside" "acquire l (m\<lparr>hart := i\<rparr>) = Ret () t"
  shows "spin_reachable l (t, pc(i := Critical))"
proof -
  obtain m1 where m1: "push_off (m\<lparr>hart := i\<rparr>) = Ret () m1" by (simp add: push_off_def Let_def)
  then have t: "\<not> holding l m1" "\<not> locked (locks m1 l)" "t = set_holder l (test_and_set l m1)"
    using assms(3) by (simp_all add: acquire_def split: if_splits)
  have h: "hart m1 = i" "hart (test_and_set l m1) = i"
    using m1 by (auto simp: push_off_def Let_def machine_defs)
  have "spin_reachable l (m1, pc(i := Spinning))"
    using assms(1) spin_step.enter [of pc i m m1 l, OF assms(2) m1 t(1)] by (rule spin_reachable.step)
  moreover have "spin_step l (m1, pc(i := Spinning)) (test_and_set l m1, pc(i := Swapped))"
    using spin_step.swap_won [of "pc(i := Spinning)" i m1 l] t(2) machine_hart [OF h(1)] by simp
  ultimately have "spin_reachable l (test_and_set l m1, pc(i := Swapped))" by (rule spin_reachable.step)
  moreover have "spin_step l (test_and_set l m1, pc(i := Swapped)) (t, pc(i := Critical))"
    using spin_step.record_holder [of "pc(i := Swapped)" i l "test_and_set l m1"] machine_hart [OF h(2)] t(3) by simp
  ultimately show ?thesis by (rule spin_reachable.step)
qed

lemma release_steps:
  assumes "spin_reachable l (m, pc)" "pc i = Critical" "release l (m\<lparr>hart := i\<rparr>) = Ret () t"
  shows "spin_reachable l (t, pc(i := Outside))"
proof -
  let ?m1 = "clear_holder l (m\<lparr>hart := i\<rparr>)" let ?m2 = "sync_lock_release l ?m1"
  have r: "holding l (m\<lparr>hart := i\<rparr>)" "pop_off ?m2 = Ret () t"
    using assms(3) by (simp_all add: release_def split: if_splits)
  have h: "hart ?m1 = i" "hart ?m2 = i" by (simp_all add: machine_defs)
  have "spin_reachable l (?m1, pc(i := Leaving))"
    using assms(1) spin_step.leave [of pc i l m, OF assms(2) r(1)]
 by (rule spin_reachable.step)
  moreover have "spin_step l (?m1, pc(i := Leaving)) (?m2, pc(i := Popping))"
    using spin_step.unlock [of "pc(i := Leaving)" i l ?m1] machine_hart [OF h(1)] by simp
  ultimately have "spin_reachable l (?m2, pc(i := Popping))" by (rule spin_reachable.step)
  moreover have "spin_step l (?m2, pc(i := Popping)) (t, pc(i := Outside))"
    using spin_step.pop [of "pc(i := Popping)" i ?m2 t l] machine_hart [OF h(2)] r(2) by simp
  ultimately show ?thesis by (rule spin_reachable.step)
qed

text \<open>
  C23: Mutual exclusion of the spin lock.  Whatever the interleaving of the CPUs, at most one
  of them is between the successful atomic swap and the atomic release, and no CPU ever
  reaches the panics of \<open>acquire\<close>, \<open>release\<close> and \<open>pop_off\<close>.  The steps are those of the code: what
  \<open>acquire\<close> or \<open>release\<close> returns when a CPU runs it through is a reachable state with that CPU inside or
  outside the critical section, and \<open>acquire\<close> returns only while no CPU owns the lock.
\<close>

theorem spin_mutual_exclusion:
  assumes "spin_reachable l (m, pc)"
  shows "(owns (pc i) \<and> owns (pc j) \<longrightarrow> i = j) \<and> \<not> spin_panics l (m, pc) i \<and>
    (pc i = Outside \<and> acquire l (m\<lparr>hart := i\<rparr>) = Ret () t \<longrightarrow>
       spin_reachable l (t, pc(i := Critical)) \<and> \<not> owns (pc j)) \<and>
    (pc i = Critical \<and> release l (m\<lparr>hart := i\<rparr>) = Ret () t \<longrightarrow> spin_reachable l (t, pc(i := Outside)))"
proof -
  have "\<not> owns (pc j)" if a: "pc i = Outside" "acquire l (m\<lparr>hart := i\<rparr>) = Ret () t"
  proof
    assume "owns (pc j)"
    moreover from this a(1) have "j \<noteq> i" by auto
    moreover have "owns ((pc(i := Critical)) i)" by simp
    ultimately show False
      using spin_invD(1) [OF spin_reachable_inv [OF acquire_steps [OF assms a]], of i j] by simp
  qed
  then show ?thesis
    using spin_reachable_inv [OF assms] spin_invD(1) spin_inv_no_panic acquire_steps [OF assms] release_steps [OF assms] by blast
qed

text \<open>A machine with all locks free and all CPUs outside, as boot leaves it.\<close>

definition idle_machine :: machine where
  "idle_machine = \<lparr>hart = 0,
     csr = (\<lambda>_. \<lparr>sstatus = 0, sepc = 0, scause = 0, stval = 0, stvec = 0, sip = 0, satp = 0\<rparr>),
     cpus = (\<lambda>_. \<lparr>cpu_proc = None, cpu_context = \<lparr>ctx_ra = 0, ctx_sp = 0, ctx_s0 = 0, ctx_s1 = 0,
       ctx_s2 = 0, ctx_s3 = 0, ctx_s4 = 0, ctx_s5 = 0, ctx_s6 = 0, ctx_s7 = 0, ctx_s8 = 0, ctx_s9 = 0,
       ctx_s10 = 0, ctx_s11 = 0\<rparr>, noff = 0, intena = False\<rparr>),
     locks = (\<lambda>_. \<lparr>locked = False, lname = [], lcpu = None\<rparr>)\<rparr>"

lemma spin_reach_critical:
  "spin_reachable L_pid (set_holder L_pid (test_and_set L_pid (pushed idle_machine)),
     (\<lambda>_. Outside)(0 := Critical))"
proof -
  let ?m = "pushed idle_machine"
  have h: "?m\<lparr>hart := 0\<rparr> = ?m" "idle_machine\<lparr>hart := 0\<rparr> = idle_machine"
    "(test_and_set L_pid ?m)\<lparr>hart := 0\<rparr> = test_and_set L_pid ?m"
    by (simp_all add: pushed_def idle_machine_def test_and_set_def upd_lock_def)
  have 0: "spin_reachable L_pid (idle_machine, \<lambda>_. Outside)"
    by (rule spin_reachable.start) (simp_all add: idle_machine_def lock_free_def)
  have "spin_step L_pid (idle_machine, \<lambda>_. Outside) (?m, (\<lambda>_. Outside)(0 := Spinning))"
    by (rule spin_step.enter) (simp_all add: h push_off_eq idle_machine_def cpu_ok_def machine_defs pushed_def)
  then have 1: "spin_reachable L_pid (?m, (\<lambda>_. Outside)(0 := Spinning))"
    using 0 spin_reachable.step by blast
  have "spin_step L_pid (?m, (\<lambda>_. Outside)(0 := Spinning))
      (test_and_set L_pid (?m\<lparr>hart := 0\<rparr>), ((\<lambda>_. Outside)(0 := Spinning))(0 := Swapped))"
    by (rule spin_step.swap_won) (simp_all add: pushed_def idle_machine_def)
  then have 2: "spin_reachable L_pid (test_and_set L_pid ?m, (\<lambda>_. Outside)(0 := Swapped))"
    using 1 spin_reachable.step unfolding h by fastforce
  have "spin_step L_pid (test_and_set L_pid ?m, (\<lambda>_. Outside)(0 := Swapped))
      (set_holder L_pid ((test_and_set L_pid ?m)\<lparr>hart := 0\<rparr>), ((\<lambda>_. Outside)(0 := Swapped))(0 := Critical))"
    by (rule spin_step.record_holder) simp
  then show ?thesis using 2 spin_reachable.step unfolding h by fastforce
qed

theorem spin_mutual_exclusion_witness:
  "\<exists>m pc. spin_reachable L_pid (m, pc) \<and> pc 0 = Critical \<and> \<not> owns (pc 1) \<and> \<not> spin_panics L_pid (m, pc) 0"
proof -
  let ?m = "set_holder L_pid (test_and_set L_pid (pushed idle_machine))"
  let ?pc = "(\<lambda>_. Outside)(0::nat := Critical)"
  have "\<not> spin_panics L_pid (?m, ?pc) 0"
    using spin_mutual_exclusion [OF spin_reach_critical, of 0 1] by blast
  then show ?thesis using spin_reach_critical by (intro exI [of _ ?m] exI [of _ ?pc]) simp
qed

end
