(* ===== verification/Memlayout.thy ===== *)
theory Memlayout
  imports Prelude
begin

text \<open>
  The address-space constants and page macros of \<^verbatim>\<open>kernel/memlayout.h\<close> and
  \<^verbatim>\<open>kernel/riscv.h\<close>, on 64-bit words, with the facts about page rounding and about the
  fields of a page-table entry that the memory management theories use.
\<close>

definition PGSIZE :: uint64 where "PGSIZE = 4096"
definition KERNBASE :: uint64 where "KERNBASE = 0x80000000"
definition PHYSTOP :: uint64 where "PHYSTOP = KERNBASE + 128 * 1024 * 1024"
definition MAXVA :: uint64 where "MAXVA = push_bit (9 + 9 + 9 + 12 - 1) 1"
definition TRAMPOLINE :: uint64 where "TRAMPOLINE = MAXVA - PGSIZE"
definition TRAPFRAME :: uint64 where "TRAPFRAME = TRAMPOLINE - PGSIZE"

definition KSTACK :: "nat \<Rightarrow> uint64" where
  "KSTACK p = TRAMPOLINE - (of_nat p + 1) * 2 * PGSIZE"

definition PGROUNDUP :: "uint64 \<Rightarrow> uint64" where
  "PGROUNDUP sz = (sz + PGSIZE - 1) AND NOT (PGSIZE - 1)"

definition PGROUNDDOWN :: "uint64 \<Rightarrow> uint64" where
  "PGROUNDDOWN a = a AND NOT (PGSIZE - 1)"

definition PTE_V :: uint64 where "PTE_V = push_bit 0 1"
definition PTE_R :: uint64 where "PTE_R = push_bit 1 1"
definition PTE_W :: uint64 where "PTE_W = push_bit 2 1"
definition PTE_X :: uint64 where "PTE_X = push_bit 3 1"
definition PTE_U :: uint64 where "PTE_U = push_bit 4 1"

definition PA2PTE :: "uint64 \<Rightarrow> uint64" where
  "PA2PTE pa = push_bit 10 (drop_bit 12 pa)"

definition PTE2PA :: "uint64 \<Rightarrow> uint64" where
  "PTE2PA pte = push_bit 12 (drop_bit 10 pte)"

definition PTE_FLAGS :: "uint64 \<Rightarrow> uint64" where
  "PTE_FLAGS pte = pte AND 0x3FF"

definition PX :: "nat \<Rightarrow> uint64 \<Rightarrow> uint64" where
  "PX level va = drop_bit (12 + 9 * level) va AND 0x1FF"

definition MAKE_SATP :: "uint64 \<Rightarrow> uint64" where
  "MAKE_SATP pagetable = push_bit 60 8 OR drop_bit 12 pagetable"

section \<open>Page rounding\<close>

lemma unat64_less: "unat (a :: uint64) < 2 ^ 64"
  using unsigned_less [where 'a = nat and w = a] by simp

lemma PGSIZE_nat [simp]: "unat PGSIZE = 4096"
  by (simp add: PGSIZE_def)

lemma low_mask: "(PGSIZE - 1 :: uint64) = mask 12"
  by (simp add: PGSIZE_def mask_eq_exp_minus_1)

lemma PGROUNDDOWN_bits: "PGROUNDDOWN a = push_bit 12 (drop_bit 12 a)"
  unfolding PGROUNDDOWN_def low_mask
  by (rule bit_word_eqI) (auto simp: bit_simps)

lemma unat_PGROUNDDOWN: "unat (PGROUNDDOWN a) = unat a div 4096 * 4096"
proof -
  have "unat a div 4096 * 4096 < 2 ^ 64"
    using unat64_less [of a] by linarith
  then show ?thesis
    unfolding PGROUNDDOWN_bits
    by (subst unsigned_push_bit_eq, subst unsigned_drop_bit_eq)
      (simp add: take_bit_eq_mod push_bit_eq_mult drop_bit_eq_div)
qed

lemma unat_PGROUNDUP:
  assumes "unat a + 4095 < 2 ^ 64"
  shows "unat (PGROUNDUP a) = (unat a + 4095) div 4096 * 4096"
proof -
  have "unat (a + 4095) = unat a + 4095"
    using assms by (simp add: unat_word_ariths)
  moreover have "PGROUNDUP a = PGROUNDDOWN (a + 4095)"
    by (simp add: PGROUNDUP_def PGROUNDDOWN_def PGSIZE_def add.commute)
  ultimately show ?thesis using unat_PGROUNDDOWN [of "a + 4095"] by simp
qed

section \<open>Page-table entries\<close>

lemma PTE2PA_bit: "bit (PTE2PA x) n \<longleftrightarrow> n < 64 \<and> 12 \<le> n \<and> bit x (n - 2)"
  by (auto simp: PTE2PA_def bit_simps)

lemma PA2PTE_bit: "bit (PA2PTE x) n \<longleftrightarrow> n < 64 \<and> 10 \<le> n \<and> bit x (n + 2)"
  by (auto simp: PA2PTE_def bit_simps)

text \<open>A page-aligned physical address below 2 to the 56 survives the trip through a PTE, whatever the ten flag bits.\<close>

lemma PTE2PA_PA2PTE:
  assumes "pa AND 4095 = 0" and "flags AND NOT 0x3FF = 0"
  shows "PTE2PA (PA2PTE pa OR flags) = pa"
proof (rule bit_word_eqI)
  fix n assume "n < LENGTH(64)"
  have lo: "\<not> bit pa n" if "n < 12"
  proof -
    have "bit (pa AND mask 12) n = bit (0 :: uint64) n" using assms(1) by (simp add: mask_eq_exp_minus_1)
    then show ?thesis using that by (simp add: bit_simps)
  qed
  have fl: "\<not> bit flags k" if "10 \<le> k" for k
  proof -
    have "bit (flags AND NOT (mask 10)) k = bit (0 :: uint64) k" using assms(2) by (simp add: mask_eq_exp_minus_1)
    then show ?thesis using that by (auto simp: bit_simps dest: bit_imp_le_length)
  qed
  show "bit (PTE2PA (PA2PTE pa OR flags)) n = bit pa n"
  proof (cases "n < 12")
    case True
    then show ?thesis using lo by (simp add: PTE2PA_bit)
  next
    case False
    moreover have "n - 2 + 2 = n" "10 \<le> n - 2" using False by auto
    ultimately show ?thesis
      using fl [of "n - 2"] \<open>n < LENGTH(64)\<close> by (auto simp: PTE2PA_bit PA2PTE_bit bit_simps)
  qed
qed

lemma PTE_FLAGS_PA2PTE: "PTE_FLAGS (PA2PTE pa OR flags) = PTE_FLAGS flags"
proof (rule bit_word_eqI)
  fix n
  have m: "(0x3FF :: uint64) = mask 10" by (simp add: mask_eq_exp_minus_1)
  show "bit (PTE_FLAGS (PA2PTE pa OR flags)) n = bit (PTE_FLAGS flags) n"
    by (auto simp: PTE_FLAGS_def m bit_simps PA2PTE_bit)
qed

lemma PX_bound: "unat (PX level va) < 512"
proof -
  have "PX level va \<le> 0x1FF" by (simp add: PX_def word_and_le1)
  then show ?thesis by (simp add: word_le_nat_alt)
qed

end
