(* ===== verification/Proc.thy ===== *)
theory Proc
  imports Spinlock Memlayout
begin

text \<open>
  The process table and the process-state machine of \<^verbatim>\<open>kernel/proc.c\<close>: the parts that need
  nothing but locks.  \<open>sleep\<close>, \<open>yield\<close> and \<open>sched\<close> end in \<open>Switch\<close>, the state in which
  the CPU is handed to the scheduler; the code after the switch is in the \<open>_resume\<close>
  definitions.

  The scheduling policy is a compile-time choice of the source (\<^verbatim>\<open>#ifdef\<close>), here a
  parameter.
\<close>

section \<open>Process structures\<close>

datatype policy = DEFAULT | LBS | MLFQ

datatype procstate = UNUSED | USED | SLEEPING | RUNNABLE | RUNNING | ZOMBIE

text \<open>Sleep channels: the kernel addresses that are passed to \<open>sleep\<close> and \<open>wakeup\<close>.\<close>

datatype chan =
    C_ticks | C_proc nat | C_log | C_piperead uint64 | C_pipewrite uint64 | C_cons | C_uart
  | C_vdisk_free | C_bufdone nat | C_buflock nat | C_inodelock nat

record proc =
  p_state :: procstate
  p_chan :: "chan option"
  p_killed :: int
  p_xstate :: int
  p_pid :: int
  p_parent :: "nat option"
  p_kstack :: uint64
  p_sz :: uint64
  p_pagetable :: uint64
  p_trapframe :: uint64
  p_context :: kcontext
  p_ofile :: "nat \<Rightarrow> nat option"
  p_cwd :: "nat option"
  p_name :: "byte list"
  p_rtime :: uint
  p_ctime :: uint
  p_etime :: uint
  p_sysCounter :: "nat \<Rightarrow> uint64"
  p_handling_alarm :: uint64
  p_ticks_of_alarm :: int
  p_current_ticks :: int
  p_trapframe_alarm :: uint64
  p_alarm_status :: int
  p_priority_queue_number :: int
  p_start_time :: int
  p_wait_ticks :: int
  p_status_queue :: int
  p_number_process :: int
  p_tickets :: int
  p_start_time_lbs :: int

text \<open>\<^verbatim>\<open>struct MLFQ_queue\<close>; the array holds process pointers, \<open>None\<close> is null.\<close>

record mlfq_q =
  q_head :: int
  q_tail :: int
  q_length :: int
  q_priority_queue_ticks :: int
  q_mlfq_queue :: "nat option list"

record kproc = machine +
  procs :: "nat \<Rightarrow> proc"
  initproc :: "nat option"
  nextpid :: int
  ticks :: uint
  rnd_next :: uint64
  queue :: "nat \<Rightarrow> mlfq_q"

definition upd_proc :: "nat \<Rightarrow> (proc \<Rightarrow> proc) \<Rightarrow> 'z kproc_scheme \<Rightarrow> 'z kproc_scheme" where
  "upd_proc p f s = s\<lparr>procs := (procs s)(p := f (procs s p))\<rparr>"

text \<open>The zero-initialised globals of \<^verbatim>\<open>proc.c\<close>, as the kernel finds them at boot.\<close>

definition zero_context :: kcontext where
  "zero_context = \<lparr>ctx_ra = 0, ctx_sp = 0, ctx_s0 = 0, ctx_s1 = 0, ctx_s2 = 0, ctx_s3 = 0, ctx_s4 = 0,
     ctx_s5 = 0, ctx_s6 = 0, ctx_s7 = 0, ctx_s8 = 0, ctx_s9 = 0, ctx_s10 = 0, ctx_s11 = 0\<rparr>"

definition zero_proc :: proc where
  "zero_proc = \<lparr>p_state = UNUSED, p_chan = None, p_killed = 0, p_xstate = 0, p_pid = 0, p_parent = None,
     p_kstack = 0, p_sz = 0, p_pagetable = 0, p_trapframe = 0, p_context = zero_context,
     p_ofile = (\<lambda>_. None), p_cwd = None, p_name = replicate 16 0, p_rtime = 0, p_ctime = 0, p_etime = 0,
     p_sysCounter = (\<lambda>_. 0), p_handling_alarm = 0, p_ticks_of_alarm = 0, p_current_ticks = 0,
     p_trapframe_alarm = 0, p_alarm_status = 0, p_priority_queue_number = 0, p_start_time = 0,
     p_wait_ticks = 0, p_status_queue = 0, p_number_process = 0, p_tickets = 0, p_start_time_lbs = 0\<rparr>"

definition zero_queue :: mlfq_q where
  "zero_queue = \<lparr>q_head = 0, q_tail = 0, q_length = 0, q_priority_queue_ticks = 0,
     q_mlfq_queue = replicate NPROC None\<rparr>"

definition boot :: kproc where
  "boot = \<lparr>hart = 0,
     csr = (\<lambda>_. \<lparr>sstatus = 0, sepc = 0, scause = 0, stval = 0, stvec = 0, sip = 0, satp = 0\<rparr>),
     cpus = (\<lambda>_. \<lparr>cpu_proc = None, cpu_context = zero_context, noff = 0, intena = False\<rparr>),
     locks = (\<lambda>_. \<lparr>locked = False, lname = [], lcpu = None\<rparr>),
     procs = (\<lambda>_. zero_proc), initproc = None, nextpid = 1, ticks = 0, rnd_next = 1,
     queue = (\<lambda>_. zero_queue)\<rparr>"

section \<open>Current process, process ids\<close>

definition procinit :: "'z kproc_scheme \<Rightarrow> ('z kproc_scheme, unit) outcome" where
  "procinit s =
     for_each [0..<NPROC]
       (\<lambda>p s. Ret () (upd_proc p (\<lambda>x. x\<lparr>p_state := UNUSED, p_kstack := KSTACK p\<rparr>)
                        (initlock (L_proc p) ''proc'' s)))
       (initlock L_wait ''wait_lock'' (initlock L_pid ''nextpid'' s))"

definition myproc :: "'z kproc_scheme \<Rightarrow> ('z kproc_scheme, nat option) outcome" where
  "myproc s =
     bnd (push_off s) (\<lambda>_ s1.
       let p = cpu_proc (mycpu s1) in
       bnd (pop_off s1) (\<lambda>_ s2. Ret p s2))"

text \<open>The many uses \<^verbatim>\<open>p = myproc(); ... p->field ...\<close>: a null pointer is a fault.\<close>

definition with_myproc ::
  "(nat \<Rightarrow> 'z kproc_scheme \<Rightarrow> ('z kproc_scheme, 'a) outcome) \<Rightarrow>
   'z kproc_scheme \<Rightarrow> ('z kproc_scheme, 'a) outcome" where
  "with_myproc f s =
     bnd (myproc s) (\<lambda>p s1. case p of None \<Rightarrow> Fault ''myproc() is null'' | Some p \<Rightarrow> f p s1)"

definition allocpid :: "'z kproc_scheme \<Rightarrow> ('z kproc_scheme, int) outcome" where
  "allocpid s =
     bnd (acquire L_pid s) (\<lambda>_ s.
       let pid = nextpid s in
       let s = s\<lparr>nextpid := wrap32 (nextpid s + 1)\<rparr> in
       bnd (release L_pid s) (\<lambda>_ s. Ret pid s))"

section \<open>Giving up the CPU\<close>

definition sched :: "'z kproc_scheme \<Rightarrow> ('z kproc_scheme, unit) outcome" where
  "sched s =
     with_myproc (\<lambda>p s.
       if \<not> holding (L_proc p) s then Panic ''sched p->lock''
       else if noff (mycpu s) \<noteq> 1 then Panic ''sched locks''
       else if p_state (procs s p) = RUNNING then Panic ''sched running''
       else if intr_get s then Panic ''sched interruptible''
       else Switch s) s"

text \<open>After the switch back: the saved interrupt flag of this kernel thread is restored.\<close>

definition sched_resume :: "bool \<Rightarrow> 'z kproc_scheme \<Rightarrow> 'z kproc_scheme" where
  "sched_resume saved s = upd_mycpu (\<lambda>c. c\<lparr>intena := saved\<rparr>) s"

definition yield :: "policy \<Rightarrow> 'z kproc_scheme \<Rightarrow> ('z kproc_scheme, unit) outcome" where
  "yield pol s =
     with_myproc (\<lambda>p s.
       bnd (acquire (L_proc p) s) (\<lambda>_ s.
         sched (if pol = MLFQ \<and> p_state (procs s p) = SLEEPING then s
                else upd_proc p (\<lambda>x. x\<lparr>p_state := RUNNABLE\<rparr>) s))) s"

definition yield_resume ::
  "nat \<Rightarrow> bool \<Rightarrow> 'z kproc_scheme \<Rightarrow> ('z kproc_scheme, unit) outcome" where
  "yield_resume p saved s = release (L_proc p) (sched_resume saved s)"

definition sleep :: "chan \<Rightarrow> lockid \<Rightarrow> 'z kproc_scheme \<Rightarrow> ('z kproc_scheme, unit) outcome" where
  "sleep ch lk s =
     with_myproc (\<lambda>p s.
       bnd (acquire (L_proc p) s) (\<lambda>_ s.
       bnd (release lk s) (\<lambda>_ s.
         sched (upd_proc p (\<lambda>x. x\<lparr>p_chan := Some ch, p_state := SLEEPING\<rparr>) s)))) s"

definition sleep_resume ::
  "nat \<Rightarrow> bool \<Rightarrow> lockid \<Rightarrow> 'z kproc_scheme \<Rightarrow> ('z kproc_scheme, unit) outcome" where
  "sleep_resume p saved lk s =
     bnd (release (L_proc p) (upd_proc p (\<lambda>x. x\<lparr>p_chan := None\<rparr>) (sched_resume saved s)))
       (\<lambda>_ s. acquire lk s)"

definition wakeup :: "chan option \<Rightarrow> 'z kproc_scheme \<Rightarrow> ('z kproc_scheme, unit) outcome" where
  "wakeup ch s =
     for_each [0..<NPROC] (\<lambda>p s.
       bnd (myproc s) (\<lambda>me s.
         if Some p \<noteq> me then
           bnd (acquire (L_proc p) s) (\<lambda>_ s.
             release (L_proc p)
               (if p_state (procs s p) = SLEEPING \<and> p_chan (procs s p) = ch
                then upd_proc p (\<lambda>x. x\<lparr>p_state := RUNNABLE\<rparr>) s else s))
         else Ret () s)) s"

section \<open>Killing, reparenting, accounting\<close>

definition kill :: "int \<Rightarrow> 'z kproc_scheme \<Rightarrow> ('z kproc_scheme, int) outcome" where
  "kill pid s =
     bnd (for_until [0..<NPROC] (\<lambda>p s.
       bnd (acquire (L_proc p) s) (\<lambda>_ s.
         if p_pid (procs s p) = pid then
           let s = upd_proc p (\<lambda>x. x\<lparr>p_killed := 1\<rparr>) s in
           let s = (if p_state (procs s p) = SLEEPING
                    then upd_proc p (\<lambda>x. x\<lparr>p_state := RUNNABLE\<rparr>) s else s) in
           bnd (release (L_proc p) s) (\<lambda>_ s. Ret (Some 0) s)
         else bnd (release (L_proc p) s) (\<lambda>_ s. Ret None s))) s)
     (\<lambda>r s. Ret (case r of Some v \<Rightarrow> v | None \<Rightarrow> -1) s)"

definition setkilled :: "nat \<Rightarrow> 'z kproc_scheme \<Rightarrow> ('z kproc_scheme, unit) outcome" where
  "setkilled p s =
     bnd (acquire (L_proc p) s) (\<lambda>_ s.
       release (L_proc p) (upd_proc p (\<lambda>x. x\<lparr>p_killed := 1\<rparr>) s))"

definition killed :: "nat \<Rightarrow> 'z kproc_scheme \<Rightarrow> ('z kproc_scheme, int) outcome" where
  "killed p s =
     bnd (acquire (L_proc p) s) (\<lambda>_ s.
       let k = p_killed (procs s p) in
       bnd (release (L_proc p) s) (\<lambda>_ s. Ret k s))"

definition reparent :: "nat \<Rightarrow> 'z kproc_scheme \<Rightarrow> ('z kproc_scheme, unit) outcome" where
  "reparent p s =
     for_each [0..<NPROC] (\<lambda>pp s.
       if p_parent (procs s pp) = Some p then
         let s = upd_proc pp (\<lambda>x. x\<lparr>p_parent := initproc s\<rparr>) s in
         wakeup (map_option C_proc (initproc s)) s
       else Ret () s) s"

definition update_time :: "policy \<Rightarrow> 'z kproc_scheme \<Rightarrow> ('z kproc_scheme, unit) outcome" where
  "update_time pol s =
     for_each [0..<NPROC] (\<lambda>p s.
       bnd (acquire (L_proc p) s) (\<lambda>_ s.
         release (L_proc p)
           (if p_state (procs s p) = RUNNING then
              upd_proc p (\<lambda>x. if pol = MLFQ
                then x\<lparr>p_rtime := p_rtime x + 1, p_start_time := wrap32 (p_start_time x + 1)\<rparr>
                else x\<lparr>p_rtime := p_rtime x + 1\<rparr>) s
            else if p_state (procs s p) = RUNNING then
              upd_proc p (\<lambda>x. if pol = MLFQ
                then x\<lparr>p_wait_ticks := wrap32 (p_wait_ticks x + 1)\<rparr> else x) s
            else s))) s"

section \<open>Lottery tickets and random numbers\<close>

definition settickets :: "int \<Rightarrow> 'z kproc_scheme \<Rightarrow> ('z kproc_scheme, int) outcome" where
  "settickets number s =
     (if number < 0 then Ret (-1) s
      else with_myproc (\<lambda>p s. Ret number (upd_proc p (\<lambda>x. x\<lparr>p_tickets := number\<rparr>) s)) s)"

definition srand :: "uint \<Rightarrow> 'z kproc_scheme \<Rightarrow> 'z kproc_scheme" where
  "srand seed s = s\<lparr>rnd_next := 0xABCDEFd\<rparr>"

definition rand :: "'z kproc_scheme \<Rightarrow> ('z kproc_scheme, int) outcome" where
  "rand s =
     (let n = rnd_next s * 1103515245 + 12345
      in Ret (uint (ucast (n div 65536) mod 32768 :: uint)) (s\<lparr>rnd_next := n\<rparr>))"

section \<open>What the lock brackets do to the process state\<close>

lemma acq_fields [simp]:
  "procs (acq l s) = procs s" "initproc (acq l s) = initproc s" "nextpid (acq l s) = nextpid s"
  "ticks (acq l s) = ticks s" "rnd_next (acq l s) = rnd_next s" "queue (acq l s) = queue s"
  by (simp_all add: acq_def pushed_def)

lemma touch_fields [simp]:
  "procs (touch s) = procs s" "initproc (touch s) = initproc s" "nextpid (touch s) = nextpid s"
  "ticks (touch s) = ticks s" "rnd_next (touch s) = rnd_next s" "queue (touch s) = queue s"
  by (simp_all add: touch_def)

lemma upd_proc_fields [simp]:
  "hart (upd_proc p f s) = hart s" "csr (upd_proc p f s) = csr s" "cpus (upd_proc p f s) = cpus s"
  "locks (upd_proc p f s) = locks s" "initproc (upd_proc p f s) = initproc s"
  "nextpid (upd_proc p f s) = nextpid s" "ticks (upd_proc p f s) = ticks s"
  "rnd_next (upd_proc p f s) = rnd_next s" "queue (upd_proc p f s) = queue s"
  "procs (upd_proc p f s) = (procs s)(p := f (procs s p))"
  by (simp_all add: upd_proc_def)

lemma mycpu_upd_proc [simp]: "mycpu (upd_proc p f s) = mycpu s"
  by (simp add: mycpu_def cpuid_def)

lemma intr_get_upd_proc [simp]: "intr_get (upd_proc p f s) = intr_get s"
  by (simp add: intr_get_def)

lemma cpu_ok_upd_proc [simp]: "cpu_ok (upd_proc p f s) = cpu_ok s"
  by (simp add: cpu_ok_def)

lemma lock_free_upd_proc [simp]: "lock_free l (upd_proc p f s) = lock_free l s"
  by (simp add: lock_free_def)

lemma holding_upd_proc [simp]: "holding l (upd_proc p f s) = holding l s"
  by (simp add: holding_def cpuid_def)

lemma touch_upd_proc: "touch (upd_proc p f s) = upd_proc p f (touch s)"
  by (simp add: touch_def upd_proc_def intr_get_def)

lemma upd_proc_id [simp]: "upd_proc p (\<lambda>x. x) s = s"
  by (simp add: upd_proc_def)

lemma upd_proc_if: "(if c (procs s p) then upd_proc p f s else s) =
    upd_proc p (\<lambda>x. if c x then f x else x) s"
  by (auto simp: upd_proc_def)

lemma upd_proc_upd_proc: "upd_proc p f (upd_proc p g s) = upd_proc p (\<lambda>x. f (g x)) s"
  by (simp add: upd_proc_def)

lemma cpu_proc_mycpu_touch [simp]: "cpu_proc (mycpu (touch s)) = cpu_proc (mycpu s)"
  by (simp add: mycpu_def cpuid_def)

lemma cpu_proc_mycpu_acq [simp]: "cpu_proc (mycpu (acq l s)) = cpu_proc (mycpu s)"
  by (simp add: acq_def pushed_def mycpu_def cpuid_def)

lemma unlock_touch:
  assumes "cpu_ok s" and "lock_free l s"
  shows "release l (acq l s) = Ret () (touch s)"
proof -
  have "(acq l s)\<lparr>csr := csr s, cpus := cpus (touch s), locks := locks s\<rparr> = touch s"
    by (simp add: acq_def pushed_def touch_def)
  then show ?thesis using release_acq [OF assms, of "acq l s"] by simp
qed

lemma unlock_upd_proc:
  assumes "cpu_ok s" and "lock_free l s"
  shows "release l (upd_proc p f (acq l s)) = Ret () (upd_proc p f (touch s))"
proof -
  have "(upd_proc p f (acq l s))\<lparr>csr := csr s, cpus := cpus (touch s), locks := locks s\<rparr>
      = upd_proc p f (touch s)"
    by (simp add: acq_def pushed_def touch_def upd_proc_def)
  then show ?thesis using release_acq [OF assms, of "upd_proc p f (acq l s)"] by simp
qed

lemma cpu_ok_pushed: "cpu_ok s \<Longrightarrow> \<not> intr_get (pushed s) \<and> noff (mycpu (pushed s)) = noff (mycpu s) + 1"
  by (simp add: pushed_def machine_defs)

lemma popped_pushed: "cpu_ok s \<Longrightarrow> popped (pushed s) = touch s"
proof -
  assume ok: "cpu_ok s"
  have 1: "csr (popped (pushed s)) = csr s"
  proof (cases "noff (mycpu s) = 0 \<and> intr_get s")
    case True
    then show ?thesis using SIE_off_on by (auto simp: popped_def pushed_def fun_eq_iff machine_defs)
  next
    case False
    then have "\<not> intr_get s" using ok by (auto simp: cpu_ok_def)
    then show ?thesis using ok False
      by (auto simp: popped_def pushed_def fun_eq_iff machine_defs SIE_off_id)
  qed
  have 2: "cpus (popped (pushed s)) = cpus (touch s)"
    by (auto simp: popped_def touch_def pushed_def fun_eq_iff)
  have "popped (pushed s) = s\<lparr>csr := csr (popped (pushed s)), cpus := cpus (popped (pushed s))\<rparr>"
    by (simp add: popped_def pushed_def)
  then show ?thesis unfolding 1 2 by (simp add: touch_def)
qed

lemma myproc_eq: "cpu_ok s \<Longrightarrow> myproc s = Ret (cpu_proc (mycpu s)) (touch s)"
proof -
  assume ok: "cpu_ok s"
  have p: "cpu_proc (mycpu (pushed s)) = cpu_proc (mycpu s)" by (simp add: pushed_def machine_defs)
  have "pop_off (pushed s) = Ret () (popped (pushed s))"
    using cpu_ok_pushed [OF ok] ok by (intro pop_off_eq) (auto simp: cpu_ok_def)
  then show ?thesis using ok by (simp add: myproc_def push_off_eq p popped_pushed)
qed

lemma with_myproc_eq:
  "cpu_ok s \<Longrightarrow> cpu_proc (mycpu s) = Some p \<Longrightarrow> with_myproc f s = f p (touch s)"
  by (simp add: with_myproc_def myproc_eq)

lemma allocpid_eq:
  assumes "cpu_ok s" and "lock_free L_pid s"
  shows "allocpid s = Ret (nextpid s) ((touch s)\<lparr>nextpid := wrap32 (nextpid s + 1)\<rparr>)"
proof -
  let ?t = "(acq L_pid s)\<lparr>nextpid := wrap32 (nextpid s + 1)\<rparr>"
  have "?t\<lparr>csr := csr s, cpus := cpus (touch s), locks := locks s\<rparr>
     = (touch s)\<lparr>nextpid := wrap32 (nextpid s + 1)\<rparr>"
    by (simp add: acq_def pushed_def touch_def)
  then have "release L_pid ?t = Ret () ((touch s)\<lparr>nextpid := wrap32 (nextpid s + 1)\<rparr>)"
    using release_acq [OF assms, of ?t] by simp
  then show ?thesis using assms by (simp add: allocpid_def acquire_eq)
qed

section \<open>Loops over the process table\<close>

definition proc_locks_free :: "'z kproc_scheme \<Rightarrow> bool" where
  "proc_locks_free s \<longleftrightarrow> (\<forall>p < NPROC. lock_free (L_proc p) s)"

definition map_procs :: "nat \<Rightarrow> (nat \<Rightarrow> proc \<Rightarrow> proc) \<Rightarrow> 'z kproc_scheme \<Rightarrow> 'z kproc_scheme" where
  "map_procs n g s = s\<lparr>procs := \<lambda>p. if p < n then g p (procs s p) else procs s p\<rparr>"

lemma map_procs_fields [simp]:
  "hart (map_procs n g s) = hart s" "csr (map_procs n g s) = csr s" "cpus (map_procs n g s) = cpus s"
  "locks (map_procs n g s) = locks s" "initproc (map_procs n g s) = initproc s"
  "nextpid (map_procs n g s) = nextpid s" "ticks (map_procs n g s) = ticks s"
  "rnd_next (map_procs n g s) = rnd_next s" "queue (map_procs n g s) = queue s"
  "procs (map_procs n g s) p = (if p < n then g p (procs s p) else procs s p)"
  by (simp_all add: map_procs_def)

lemma map_procs_ok [simp]:
  "cpu_ok (map_procs n g s) = cpu_ok s" "lock_free l (map_procs n g s) = lock_free l s"
  "proc_locks_free (map_procs n g s) = proc_locks_free s" "mycpu (map_procs n g s) = mycpu s"
  by (simp_all add: cpu_ok_def lock_free_def proc_locks_free_def machine_defs)

lemma map_procs_0 [simp]: "map_procs 0 g s = s"
  by (simp add: map_procs_def)

lemma map_procs_Suc: "upd_proc n (g n) (map_procs n g s) = map_procs (Suc n) g s"
  by (auto simp: map_procs_def upd_proc_def less_Suc_eq fun_eq_iff intro!: arg_cong [where f = "\<lambda>x. procs_update x s"])

lemma touch_map_procs: "touch (map_procs n g s) = map_procs n g (touch s)"
  unfolding map_procs_def touch_fields by (rule kproc.equality) (simp_all add: touch_def intr_get_def)

lemma proc_locks_free_touch [simp]: "proc_locks_free (touch s) = proc_locks_free s"
  by (simp add: proc_locks_free_def)

lemma boot_ok: "cpu_ok boot" "proc_locks_free boot" "lock_free l boot" "noff (mycpu boot) = 0"
  by (simp_all add: boot_def cpu_ok_def proc_locks_free_def lock_free_def machine_defs)

text \<open>A loop that brackets an update of each process with that process's lock.\<close>

lemma for_each_procs:
  assumes body: "\<And>p s. p < n \<Longrightarrow> cpu_ok s \<Longrightarrow> proc_locks_free s \<Longrightarrow> cpu_proc (mycpu s) = me \<Longrightarrow>
      body p s = Ret () (upd_proc p (g p) (touch s))"
    and "cpu_ok s" "proc_locks_free s" "cpu_proc (mycpu s) = me" "0 < n"
  shows "for_each [0..<n] body s = Ret () (map_procs n g (touch s))"
proof -
  have "for_each [0..<k] body s = Ret () (if k = 0 then s else map_procs k g (touch s))"
    if "k \<le> n" for k
    using that
  proof (induction k)
    case 0
    then show ?case by simp
  next
    case (Suc k)
    let ?t = "if k = 0 then s else map_procs k g (touch s)"
    have "body k ?t = Ret () (upd_proc k (g k) (touch ?t))"
      using Suc.prems assms(2-4) by (intro body) auto
    also have "upd_proc k (g k) (touch ?t) = map_procs (Suc k) g (touch s)"
      using map_procs_Suc [of 0 g "touch s"] by (auto simp: touch_map_procs map_procs_Suc)
    finally show ?case using Suc by (simp add: for_each_append)
  qed
  from this [of n] show ?thesis using \<open>0 < n\<close> by simp
qed

text \<open>\<open>wakeup\<close> makes exactly the other processes that sleep on the channel runnable.\<close>

lemma wakeup_eq:
  assumes "cpu_ok s" "proc_locks_free s"
  shows "wakeup ch s = Ret () (map_procs NPROC (\<lambda>p x.
     if Some p \<noteq> cpu_proc (mycpu s) \<and> p_state x = SLEEPING \<and> p_chan x = ch
     then x\<lparr>p_state := RUNNABLE\<rparr> else x) (touch s))"
  unfolding wakeup_def
proof (rule for_each_procs [where me = "cpu_proc (mycpu s)"])
  fix p :: nat and t :: "'a kproc_scheme"
  assume p: "p < NPROC" and t: "cpu_ok t" "proc_locks_free t" "cpu_proc (mycpu t) = cpu_proc (mycpu s)"
  have free: "lock_free (L_proc p) (touch t)" using t(2) p by (simp add: proc_locks_free_def)
  have ok: "cpu_ok (touch t)" using t(1) by simp
  show "bnd (myproc t) (\<lambda>me s. if Some p \<noteq> me then
           bnd (acquire (L_proc p) s) (\<lambda>_ s. release (L_proc p)
               (if p_state (procs s p) = SLEEPING \<and> p_chan (procs s p) = ch
                then upd_proc p (\<lambda>x. x\<lparr>p_state := RUNNABLE\<rparr>) s else s))
         else Ret () s) =
    Ret () (upd_proc p (\<lambda>x. if Some p \<noteq> cpu_proc (mycpu s) \<and> p_state x = SLEEPING \<and> p_chan x = ch
      then x\<lparr>p_state := RUNNABLE\<rparr> else x) (touch t))"
    using t unlock_upd_proc [OF ok free, of p] acquire_eq [OF ok free]
    by (cases "Some p = cpu_proc (mycpu s)")
      (simp_all add: myproc_eq upd_proc_if [where c = "\<lambda>x. p_state x = SLEEPING \<and> p_chan x = ch"])
qed (use assms in \<open>simp_all add: NPROC_def\<close>)

lemma update_time_eq:
  assumes "cpu_ok s" "proc_locks_free s"
  shows "update_time pol s = Ret () (map_procs NPROC (\<lambda>p x.
     if p_state x = RUNNING
     then (if pol = MLFQ
           then x\<lparr>p_rtime := p_rtime x + 1, p_start_time := wrap32 (p_start_time x + 1)\<rparr>
           else x\<lparr>p_rtime := p_rtime x + 1\<rparr>)
     else x) (touch s))"
  unfolding update_time_def
proof (rule for_each_procs [where me = "cpu_proc (mycpu s)"])
  fix p :: nat and t :: "'a kproc_scheme"
  assume p: "p < NPROC" and t: "cpu_ok t" "proc_locks_free t" "cpu_proc (mycpu t) = cpu_proc (mycpu s)"
  have free: "lock_free (L_proc p) t" using t(2) p by (simp add: proc_locks_free_def)
  let ?f = "\<lambda>x. if pol = MLFQ
                then x\<lparr>p_rtime := p_rtime x + 1, p_start_time := wrap32 (p_start_time x + 1)\<rparr>
                else x\<lparr>p_rtime := p_rtime x + 1\<rparr>"
  have "(if p_state (procs s p) = RUNNING then upd_proc p ?f s
         else if p_state (procs s p) = RUNNING then
              upd_proc p (\<lambda>x. if pol = MLFQ
                then x\<lparr>p_wait_ticks := wrap32 (p_wait_ticks x + 1)\<rparr> else x) s
         else s) = upd_proc p (\<lambda>x. if p_state x = RUNNING then ?f x else x) s"
    for s :: "'a kproc_scheme"
    by (cases "p_state (procs s p) = RUNNING") (simp_all add: upd_proc_def)
  then show "bnd (acquire (L_proc p) t) (\<lambda>_ s. release (L_proc p)
           (if p_state (procs s p) = RUNNING then upd_proc p ?f s
            else if p_state (procs s p) = RUNNING then
              upd_proc p (\<lambda>x. if pol = MLFQ
                then x\<lparr>p_wait_ticks := wrap32 (p_wait_ticks x + 1)\<rparr> else x) s
            else s)) =
    Ret () (upd_proc p (\<lambda>x. if p_state x = RUNNING then ?f x else x) (touch t))"
    using unlock_upd_proc [OF t(1) free, of p] acquire_eq [OF t(1) free] by simp
qed (use assms in \<open>simp_all add: NPROC_def\<close>)

lemma for_until_procs:
  assumes body: "\<And>p s. p \<in> set xs \<Longrightarrow> cpu_ok s \<Longrightarrow> proc_locks_free s \<Longrightarrow>
      body p s = (if P (procs s p) then Ret (Some v) (upd_proc p f (touch s)) else Ret None (touch s))"
    and "cpu_ok s" "proc_locks_free s"
  shows "for_until xs body s = (case find (\<lambda>p. P (procs s p)) xs of
      None \<Rightarrow> Ret None (if xs = [] then s else touch s)
    | Some p \<Rightarrow> Ret (Some v) (upd_proc p f (touch s)))"
  using assms
proof (induction xs arbitrary: s)
  case Nil
  then show ?case by simp
next
  case (Cons p xs)
  have "for_until xs body (touch s) = (case find (\<lambda>p. P (procs (touch s) p)) xs of
      None \<Rightarrow> Ret None (if xs = [] then touch s else touch (touch s))
    | Some p \<Rightarrow> Ret (Some v) (upd_proc p f (touch (touch s))))"
    using Cons.prems by (intro Cons.IH) auto
  then show ?case using Cons.prems by (simp split: option.split)
qed

text \<open>\<open>kill\<close> marks the first process with the given pid, and wakes it if it sleeps.\<close>

lemma kill_eq:
  assumes "cpu_ok s" "proc_locks_free s"
  shows "kill pid s = (case find (\<lambda>p. p_pid (procs s p) = pid) [0..<NPROC] of
      None \<Rightarrow> Ret (-1) (touch s)
    | Some p \<Rightarrow> Ret 0 (upd_proc p (\<lambda>x. x\<lparr>p_killed := 1,
        p_state := (if p_state x = SLEEPING then RUNNABLE else p_state x)\<rparr>) (touch s)))"
proof -
  let ?f = "\<lambda>x. x\<lparr>p_killed := 1, p_state := (if p_state x = SLEEPING then RUNNABLE else p_state x)\<rparr>"
  let ?body = "\<lambda>p s. bnd (acquire (L_proc p) s) (\<lambda>_ s.
         if p_pid (procs s p) = pid then
           let s = upd_proc p (\<lambda>x. x\<lparr>p_killed := 1\<rparr>) s in
           let s = (if p_state (procs s p) = SLEEPING
                    then upd_proc p (\<lambda>x. x\<lparr>p_state := RUNNABLE\<rparr>) s else s) in
           bnd (release (L_proc p) s) (\<lambda>_ s. Ret (Some (0::int)) s)
         else bnd (release (L_proc p) s) (\<lambda>_ s. Ret None s))"
  have upd: "(if p_state (procs (upd_proc p (\<lambda>x. x\<lparr>p_killed := 1\<rparr>) s) p) = SLEEPING
              then upd_proc p (\<lambda>x. x\<lparr>p_state := RUNNABLE\<rparr>) (upd_proc p (\<lambda>x. x\<lparr>p_killed := 1\<rparr>) s)
              else upd_proc p (\<lambda>x. x\<lparr>p_killed := 1\<rparr>) s) = upd_proc p ?f s"
    for p and s :: "'a kproc_scheme"
    by (simp add: upd_proc_def)
  have body: "?body p s = (if p_pid (procs s p) = pid then Ret (Some 0) (upd_proc p ?f (touch s))
                     else Ret None (touch s))"
    if "p < NPROC" "cpu_ok s" "proc_locks_free s" for p and s :: "'a kproc_scheme"
  proof -
    have free: "lock_free (L_proc p) s" using that by (simp add: proc_locks_free_def)
    show ?thesis unfolding Let_def upd
      using acquire_eq [OF that(2) free] unlock_upd_proc [OF that(2) free, of p ?f]
        unlock_touch [OF that(2) free] by simp
  qed
  have "for_until [0..<NPROC] ?body s = (case find (\<lambda>p. p_pid (procs s p) = pid) [0..<NPROC] of
      None \<Rightarrow> Ret None (if [0..<NPROC] = [] then s else touch s)
    | Some p \<Rightarrow> Ret (Some 0) (upd_proc p ?f (touch s)))"
    by (rule for_until_procs [where P = "\<lambda>x. p_pid x = pid", OF _ assms]) (rule body, simp_all)
  then show ?thesis unfolding kill_def by (auto simp: NPROC_def split: option.splits)
qed

text \<open>\<open>rand\<close> is below 32768.\<close>

lemma rand_bound: "rand s = Ret r t \<Longrightarrow> 0 \<le> r \<and> r < 32768 \<and> t = s\<lparr>rnd_next := rnd_next s * 1103515245 + 12345\<rparr>"
  by (auto simp: rand_def Let_def uint_mod)

lemma rand_eq: "\<exists>r. rand s = Ret r (s\<lparr>rnd_next := rnd_next s * 1103515245 + 12345\<rparr>) \<and> 0 \<le> r \<and> r < 32768"
  using rand_bound [of s] by (auto simp: rand_def Let_def)

end
