(* ===== verification/Scheduler.thy ===== *)
theory Scheduler
  imports Proc
begin

text \<open>
  The round-robin and lottery schedulers of \<^verbatim>\<open>kernel/proc.c\<close>.

  A scheduler hands the CPU to a process with \<open>swtch\<close> and gets it back, at the same
  point, when that process (or an interrupt taken while it runs) calls \<open>sched\<close>.  What happens
  in between is the argument \<open>run\<close>: \<open>run p s\<close> is the state in which process \<open>p\<close>, dispatched
  in state \<open>s\<close>, switches back.  \<open>run_ok\<close> states what \<open>sched\<close> guarantees of that state:
  the process comes back on the same CPU with its own lock held, at nesting depth one, with
  interrupts off and no other process lock held.  The list that the loops return is a record of
  the processes that were dispatched.
\<close>

section \<open>Dispatching one process\<close>

definition dispatch ::
  "(nat \<Rightarrow> 'z kproc_scheme \<Rightarrow> 'z kproc_scheme) \<Rightarrow> nat \<Rightarrow> 'z kproc_scheme \<Rightarrow> ('z kproc_scheme, unit) outcome"
where
  "dispatch run p s =
     (let s = upd_proc p (\<lambda>x. x\<lparr>p_state := RUNNING\<rparr>) s;
          s = upd_mycpu (\<lambda>c. c\<lparr>cpu_proc := Some p\<rparr>) s;
          s = run p s;
          s = upd_mycpu (\<lambda>c. c\<lparr>cpu_proc := None\<rparr>) s
      in release (L_proc p) s)"

section \<open>Round robin\<close>

definition rr_visit ::
  "(nat \<Rightarrow> 'z kproc_scheme \<Rightarrow> 'z kproc_scheme) \<Rightarrow> nat \<Rightarrow> nat list \<Rightarrow> 'z kproc_scheme \<Rightarrow>
   ('z kproc_scheme, nat list) outcome" where
  "rr_visit run p tr s =
     bnd (acquire (L_proc p) s) (\<lambda>_ s.
       if p_state (procs s p) = RUNNABLE then
         bnd (dispatch run p s) (\<lambda>_ s. Ret (tr @ [p]) s)
       else bnd (release (L_proc p) s) (\<lambda>_ s. Ret tr s))"

definition scheduler_default ::
  "(nat \<Rightarrow> 'z kproc_scheme \<Rightarrow> 'z kproc_scheme) \<Rightarrow> 'z kproc_scheme \<Rightarrow> ('z kproc_scheme, nat list) outcome"
where
  "scheduler_default run s = for_acc [0..<NPROC] (rr_visit run) [] (intr_on s)"

section \<open>The lottery\<close>

definition lbs_total :: "'z kproc_scheme \<Rightarrow> ('z kproc_scheme, int) outcome" where
  "lbs_total s =
     for_acc [0..<NPROC] (\<lambda>p total s.
       bnd (acquire (L_proc p) s) (\<lambda>_ s.
         let total = (if p_state (procs s p) = RUNNABLE
                      then wrap32 (total + p_tickets (procs s p)) else total) in
         bnd (release (L_proc p) s) (\<lambda>_ s. Ret total s))) 0 s"

text \<open>
  The second scan.  Its local variables are \<^verbatim>\<open>chosen\<close> and \<^verbatim>\<open>current_tickets\<close>; the lock of
  the chosen process stays held across iterations, and is given up when a later process
  replaces it.
\<close>

definition lbs_visit ::
  "int \<Rightarrow> nat \<Rightarrow> nat option \<times> int \<Rightarrow> 'z kproc_scheme \<Rightarrow> ('z kproc_scheme, nat option \<times> int) outcome"
where
  "lbs_visit winner p v s =
     (case v of (chosen, current) \<Rightarrow>
       bnd (acquire (L_proc p) s) (\<lambda>_ s.
         if p_state (procs s p) = RUNNABLE then
           let current = wrap32 (current + p_tickets (procs s p)) in
           if current > winner \<and>
              (case chosen of None \<Rightarrow> True
               | Some c \<Rightarrow> p_tickets (procs s c) = p_tickets (procs s p) \<and>
                           p_start_time_lbs (procs s p) < p_start_time_lbs (procs s c))
           then (case chosen of
                   None \<Rightarrow> Ret (Some p, current) s
                 | Some c \<Rightarrow> bnd (release (L_proc c) s) (\<lambda>_ s. Ret (Some p, current) s))
           else bnd (release (L_proc p) s) (\<lambda>_ s. Ret (chosen, current) s)
         else bnd (release (L_proc p) s) (\<lambda>_ s. Ret (chosen, current) s)))"

definition lbs_choose :: "int \<Rightarrow> 'z kproc_scheme \<Rightarrow> ('z kproc_scheme, nat option \<times> int) outcome" where
  "lbs_choose winner s = for_acc [0..<NPROC] (lbs_visit winner) (None, 0) s"

text \<open>C's \<^verbatim>\<open>%\<close> truncates; both operands are non-negative here, where it agrees with \<open>mod\<close>.\<close>

definition scheduler_lbs ::
  "(nat \<Rightarrow> 'z kproc_scheme \<Rightarrow> 'z kproc_scheme) \<Rightarrow> 'z kproc_scheme \<Rightarrow> ('z kproc_scheme, nat list) outcome"
where
  "scheduler_lbs run s =
     bnd (lbs_total (intr_on s)) (\<lambda>total s.
       if total > 0 then
         bnd (rand s) (\<lambda>r s.
         bnd (lbs_choose (r mod total) s) (\<lambda>v s.
           case fst v of
             None \<Rightarrow> Ret [] s
           | Some c \<Rightarrow> bnd (dispatch run c s) (\<lambda>_ s. Ret [c] s)))
       else Ret [] s)"

section \<open>What the switch guarantees\<close>

text \<open>The state of a CPU that holds exactly the lock of process \<open>p\<close>, and of one between dispatches.\<close>

definition holds_only :: "nat \<Rightarrow> 'z kproc_scheme \<Rightarrow> bool" where
  "holds_only p s \<longleftrightarrow> holding (L_proc p) s \<and> noff (mycpu s) = 1 \<and> \<not> intr_get s \<and>
     (\<forall>q < NPROC. q \<noteq> p \<longrightarrow> lock_free (L_proc q) s)"

definition sched_ok :: "'z kproc_scheme \<Rightarrow> bool" where
  "sched_ok s \<longleftrightarrow> noff (mycpu s) = 0 \<and> proc_locks_free s"

definition run_ok :: "(nat \<Rightarrow> 'z kproc_scheme \<Rightarrow> 'z kproc_scheme) \<Rightarrow> bool" where
  "run_ok run \<longleftrightarrow> (\<forall>p s. p < NPROC \<longrightarrow> holds_only p s \<longrightarrow> p_state (procs s p) = RUNNING \<longrightarrow>
     cpu_proc (mycpu s) = Some p \<longrightarrow> holds_only p (run p s) \<and> hart (run p s) = hart s)"

lemma sched_ok_cpu: "sched_ok s \<Longrightarrow> cpu_ok s"
  by (simp add: sched_ok_def cpu_ok_def)

lemma sched_ok_lock: "sched_ok s \<Longrightarrow> p < NPROC \<Longrightarrow> lock_free (L_proc p) s"
  by (simp add: sched_ok_def proc_locks_free_def)

lemma sched_ok_touch [simp]: "sched_ok (touch s) = sched_ok s"
  by (simp add: sched_ok_def)

lemma sched_ok_intr_on [simp]: "sched_ok (intr_on s) = sched_ok s"
  by (simp add: sched_ok_def proc_locks_free_def lock_free_def machine_defs)

lemma sched_ok_rnd_next [simp]: "sched_ok (s\<lparr>rnd_next := n\<rparr>) = sched_ok s"
  by (simp add: sched_ok_def proc_locks_free_def lock_free_def mycpu_def cpuid_def)

lemma intr_on_fields [simp]: "procs (intr_on s) = procs s" "hart (intr_on s) = hart s"
  "rnd_next (intr_on s) = rnd_next s" "queue (intr_on s) = queue s"
  by (simp_all add: machine_defs)

lemma holds_only_acq: "sched_ok s \<Longrightarrow> p < NPROC \<Longrightarrow> holds_only p (acq (L_proc p) s)"
  by (simp add: holds_only_def sched_ok_def proc_locks_free_def)

lemma holds_only_upd_proc [simp]: "holds_only p (upd_proc q f s) = holds_only p s"
  by (simp add: holds_only_def)

lemma upd_mycpu_proc_fields [simp]:
  "hart (upd_mycpu f s) = hart s" "csr (upd_mycpu f s) = csr s" "locks (upd_mycpu f s) = locks s"
  "mycpu (upd_mycpu f s) = f (mycpu s)" "procs (upd_mycpu f s) = procs s"
  "queue (upd_mycpu f s) = queue s" "rnd_next (upd_mycpu f s) = rnd_next s"
  by (simp_all add: upd_mycpu_def mycpu_def cpuid_def)

lemma holds_only_upd_mycpu [simp]:
  "holds_only p (upd_mycpu (\<lambda>c. c\<lparr>cpu_proc := x\<rparr>) s) = holds_only p s"
  by (simp add: holds_only_def holding_def intr_get_def lock_free_def cpuid_def)

lemma release_holds_only:
  assumes "holds_only p s"
  shows "release (L_proc p) s = Ret () (rel (L_proc p) s)" and "sched_ok (rel (L_proc p) s)"
proof -
  show "release (L_proc p) s = Ret () (rel (L_proc p) s)"
    using assms by (intro release_eq) (simp_all add: holds_only_def)
  show "sched_ok (rel (L_proc p) s)"
    using assms by (auto simp: sched_ok_def holds_only_def proc_locks_free_def lock_free_def
        rel_def popped_def machine_defs)
qed

lemma rel_procs [simp]: "procs (rel l s) = procs s"
  by (simp add: rel_def popped_def)

text \<open>The state in which \<open>dispatch\<close> hands the CPU over, and the law of \<open>dispatch\<close>.\<close>

definition handed :: "nat \<Rightarrow> 'z kproc_scheme \<Rightarrow> 'z kproc_scheme" where
  "handed p s = upd_mycpu (\<lambda>c. c\<lparr>cpu_proc := Some p\<rparr>) (upd_proc p (\<lambda>x. x\<lparr>p_state := RUNNING\<rparr>) s)"

lemma procs_handed [simp]: "procs (handed p s) = (procs s)(p := (procs s p)\<lparr>p_state := RUNNING\<rparr>)"
  by (simp add: handed_def)

lemma dispatch_ok:
  assumes "run_ok run" "p < NPROC" "holds_only p s"
  obtains t where "dispatch run p s = Ret () t" "sched_ok t" "hart t = hart s"
    "procs t = procs (run p (handed p s))"
proof -
  let ?r = "run p (handed p s)"
  have h: "holds_only p (handed p s)" using assms(3) by (simp add: handed_def)
  have "holds_only p ?r \<and> hart ?r = hart (handed p s)"
    using assms(1,2) h unfolding run_ok_def by (simp add: handed_def)
  then have r: "holds_only p ?r" "hart ?r = hart s" by (simp_all add: handed_def)
  then have "holds_only p (upd_mycpu (\<lambda>c. c\<lparr>cpu_proc := None\<rparr>) ?r)" by simp
  note rel = release_holds_only [OF this]
  show thesis
    by (rule that [OF _ rel(2)]) (use rel(1) r in \<open>simp_all add: dispatch_def handed_def Let_def\<close>)
qed

section \<open>Round robin visits every runnable process once\<close>

lemma acquire_sched: "sched_ok s \<Longrightarrow> p < NPROC \<Longrightarrow> acquire (L_proc p) s = Ret () (acq (L_proc p) s)"
  by (rule acquire_eq [OF sched_ok_cpu sched_ok_lock])

lemma unlock_sched: "sched_ok s \<Longrightarrow> p < NPROC \<Longrightarrow> release (L_proc p) (acq (L_proc p) s) = Ret () (touch s)"
  by (rule unlock_touch [OF sched_ok_cpu sched_ok_lock])

lemma rr_visit_ok:
  assumes "run_ok run" "p < NPROC" "sched_ok s"
  obtains t where "rr_visit run p tr s = Ret (if p_state (procs s p) = RUNNABLE then tr @ [p] else tr) t"
    "sched_ok t" "hart t = hart s"
    "procs t = (if p_state (procs s p) = RUNNABLE then procs (run p (handed p (acq (L_proc p) s))) else procs s)"
proof (cases "p_state (procs s p) = RUNNABLE")
  case True
  obtain t where t: "dispatch run p (acq (L_proc p) s) = Ret () t" "sched_ok t"
      "hart t = hart (acq (L_proc p) s)" "procs t = procs (run p (handed p (acq (L_proc p) s)))"
    using dispatch_ok [OF assms(1,2) holds_only_acq [OF assms(3,2)]] by blast
  show thesis
    by (rule that [of t]) (use t True assms(2,3) in \<open>simp_all add: rr_visit_def acquire_sched\<close>)
next
  case False
  show thesis
    by (rule that [of "touch s"]) (use False assms(2,3) in
        \<open>simp_all add: rr_visit_def acquire_sched unlock_sched\<close>)
qed

text \<open>\<open>keeps_runnable\<close>: while a process runs, another runnable process stays runnable.\<close>

definition keeps_runnable :: "(nat \<Rightarrow> 'z kproc_scheme \<Rightarrow> 'z kproc_scheme) \<Rightarrow> bool" where
  "keeps_runnable run \<longleftrightarrow> (\<forall>p q s. p \<noteq> q \<longrightarrow> p_state (procs s q) = RUNNABLE \<longrightarrow>
     p_state (procs (run p s) q) = RUNNABLE)"

lemma rr_scan:
  assumes "run_ok run" "sched_ok s" "n \<le> NPROC"
  shows "\<exists>tr t. for_acc [0..<n] (rr_visit run) [] s = Ret tr t \<and> sched_ok t \<and> hart t = hart s \<and>
    sorted_wrt (<) tr \<and> set tr \<subseteq> {..<n} \<and>
    (keeps_runnable run \<longrightarrow> (\<forall>p. p_state (procs s p) = RUNNABLE \<longrightarrow>
       (if p < n then p \<in> set tr else p_state (procs t p) = RUNNABLE)))"
  using assms(3)
proof (induction n)
  case 0
  then show ?case using assms(2) by simp
next
  case (Suc n)
  then obtain tr t where 1: "for_acc [0..<n] (rr_visit run) [] s = Ret tr t" "sched_ok t" "hart t = hart s"
     "sorted_wrt (<) tr" "set tr \<subseteq> {..<n}"
     "keeps_runnable run \<Longrightarrow> \<forall>p. p_state (procs s p) = RUNNABLE \<longrightarrow>
       (if p < n then p \<in> set tr else p_state (procs t p) = RUNNABLE)" by auto
  let ?tr = "if p_state (procs t n) = RUNNABLE then tr @ [n] else tr"
  obtain u where 2: "rr_visit run n tr t = Ret ?tr u" "sched_ok u" "hart u = hart t"
    "procs u = (if p_state (procs t n) = RUNNABLE then procs (run n (handed n (acq (L_proc n) t))) else procs t)"
    using rr_visit_ok [OF assms(1) _ 1(2), of n tr] Suc.prems by (metis Suc_le_lessD)
  have "for_acc [0..<Suc n] (rr_visit run) [] s = Ret ?tr u"
    using 1(1) 2(1) by (simp add: for_acc_append)
  moreover have "sorted_wrt (<) ?tr" "set ?tr \<subseteq> {..<Suc n}"
    using 1(4,5) by (auto simp: sorted_wrt_append)
  moreover have "if p < Suc n then p \<in> set ?tr else p_state (procs u p) = RUNNABLE"
    if "keeps_runnable run" "p_state (procs s p) = RUNNABLE" for p
    using 1(6) [OF that(1)] that 2(4) unfolding keeps_runnable_def
    by (cases "p_state (procs t n) = RUNNABLE"; cases "p < n"; cases "p = n") auto
  ultimately show ?case using 2(2) 2(3) [unfolded 1(3)]
    by (intro exI [of _ ?tr] exI [of _ u]) blast
qed

section \<open>The lottery as a function of the process table\<close>

text \<open>
  \<open>cum ps n\<close>: the tickets of the runnable processes below index \<open>n\<close>.  \<open>lbs_pick\<close>: what the second
  scan has found after \<open>n\<close> processes.
\<close>

fun cum :: "(nat \<Rightarrow> proc) \<Rightarrow> nat \<Rightarrow> int" where
  "cum ps 0 = 0"
| "cum ps (Suc n) = cum ps n + (if p_state (ps n) = RUNNABLE then p_tickets (ps n) else 0)"

fun lbs_pick :: "(nat \<Rightarrow> proc) \<Rightarrow> int \<Rightarrow> nat \<Rightarrow> nat option \<times> int" where
  "lbs_pick ps w 0 = (None, 0)"
| "lbs_pick ps w (Suc n) =
     (case lbs_pick ps w n of (c, cur) \<Rightarrow>
        if p_state (ps n) = RUNNABLE then
          let cur = wrap32 (cur + p_tickets (ps n)) in
          (if cur > w \<and> (case c of None \<Rightarrow> True | Some c \<Rightarrow>
                p_tickets (ps c) = p_tickets (ps n) \<and> p_start_time_lbs (ps n) < p_start_time_lbs (ps c))
           then Some n else c, cur)
        else (c, cur))"

definition tickets_ok :: "(nat \<Rightarrow> proc) \<Rightarrow> bool" where
  "tickets_ok ps \<longleftrightarrow> (\<forall>p < NPROC. 0 \<le> p_tickets (ps p)) \<and> cum ps NPROC < 2147483648"

lemma cum_mono:
  assumes "tickets_ok ps" "m \<le> n" "n \<le> NPROC"
  shows "cum ps m \<le> cum ps n"
  using assms(2,3)
proof (induction n)
  case 0
  then show ?case by simp
next
  case (Suc n)
  then have "0 \<le> p_tickets (ps n)" using assms(1) by (simp add: tickets_ok_def)
  with Suc show ?case by (cases "m = Suc n") auto
qed

lemma cum_bounds: "tickets_ok ps \<Longrightarrow> n \<le> NPROC \<Longrightarrow> 0 \<le> cum ps n \<and> cum ps n < 2147483648"
  using cum_mono [of ps 0 n] cum_mono [of ps n NPROC] by (simp add: tickets_ok_def)

lemma cum_int32: "tickets_ok ps \<Longrightarrow> n \<le> NPROC \<Longrightarrow> int32 (cum ps n)"
  using cum_bounds [of ps n] by (simp add: int32_def)

lemma cum_wrap: "tickets_ok ps \<Longrightarrow> n \<le> NPROC \<Longrightarrow> wrap32 (cum ps n) = cum ps n"
  using cum_bounds [of ps n] by (simp add: wrap32_id int32_def)

text \<open>The two scans compute these functions and leave the machine as they should.\<close>

declare acq_touch [simp]

lemma release_swap:
  assumes "sched_ok s" "lock_free c s" "lock_free l s" "c \<noteq> l"
  shows "release c (acq l (acq c s)) = Ret () (acq l s)"
proof -
  have "release c (acq l (acq c s)) = Ret () (rel c (acq l (acq c s)))"
    using assms(1,4) by (intro release_eq)
      (auto simp: sched_ok_def acq_def pushed_def machine_defs)
  moreover have "rel c (acq l (acq c s)) = acq l s"
    using assms by (intro machine.equality)
      (auto simp: rel_def popped_def acq_def pushed_def machine_defs fun_eq_iff lock_free_def sched_ok_def)
  ultimately show ?thesis by simp
qed

lemma lbs_total_eq:
  assumes "sched_ok s" "\<And>k. k \<le> NPROC \<Longrightarrow> int32 (cum (procs s) k)"
  shows "lbs_total s = Ret (cum (procs s) NPROC) (touch s)"
proof -
  let ?st = "\<lambda>k::nat. if k = 0 then s else touch s"
  let ?body = "\<lambda>p total s. bnd (acquire (L_proc p) s) (\<lambda>_ s.
         let total = (if p_state (procs s p) = RUNNABLE
                      then wrap32 (total + p_tickets (procs s p)) else total) in
         bnd (release (L_proc p) s) (\<lambda>_ s. Ret total s))"
  have "for_acc [0..<NPROC] ?body (cum (procs s) 0) (?st 0) = Ret (cum (procs s) NPROC) (?st NPROC)"
  proof (rule for_acc_upt [where st = ?st and a = "cum (procs s)"])
    fix k assume k: "k < NPROC"
    have ok: "sched_ok (?st k)" using assms(1) by simp
    have t: "procs (?st k) = procs s" "touch (?st k) = touch s" by simp_all
    show "?body k (cum (procs s) k) (?st k) = Ret (cum (procs s) (Suc k)) (?st (Suc k))"
      using wrap32_id [OF assms(2), of "Suc k"] k
      by (simp add: acquire_sched [OF ok k] unlock_sched [OF ok k] t Let_def del: touch_fields split del: if_split)
        (cases "k = 0"; simp split: if_splits)
  qed
  then show ?thesis by (simp add: lbs_total_def NPROC_def)
qed

text \<open>The state in the second scan: the lock of the chosen process, and only that, is held.\<close>

definition lbs_state :: "'z kproc_scheme \<Rightarrow> nat \<Rightarrow> nat option \<Rightarrow> 'z kproc_scheme" where
  "lbs_state s k c = (case c of None \<Rightarrow> (if k = 0 then s else touch s) | Some c \<Rightarrow> acq (L_proc c) s)"

lemma lbs_pick_less: "fst (lbs_pick ps w n) = Some c \<Longrightarrow> c < n \<and> p_state (ps c) = RUNNABLE"
  by (induction n) (auto simp: Let_def split: prod.splits if_splits option.splits)

lemma procs_lbs_state [simp]: "procs (lbs_state s k c) = procs s"
  by (simp add: lbs_state_def split: option.split)

lemma lbs_visit_eq:
  assumes s: "sched_ok s" and k: "k < NPROC"
  shows "lbs_visit w k (lbs_pick (procs s) w k) (lbs_state s k (fst (lbs_pick (procs s) w k)))
    = Ret (lbs_pick (procs s) w (Suc k)) (lbs_state s (Suc k) (fst (lbs_pick (procs s) w (Suc k))))"
proof (cases "lbs_pick (procs s) w k")
  case (Pair c cur)
  show ?thesis
  proof (cases c)
    case None
    have ok: "sched_ok (lbs_state s k None)" and t: "touch (lbs_state s k None) = touch s"
      using s by (simp_all add: lbs_state_def)
    have a: "acq l (lbs_state s k None) = acq l s" for l by (simp add: lbs_state_def)
    have "acquire (L_proc k) (lbs_state s k None) = Ret () (acq (L_proc k) s)"
      using acquire_sched [OF ok k] a by simp
    moreover have "release (L_proc k) (acq (L_proc k) s) = Ret () (touch s)"
      using unlock_sched [OF s k] .
    ultimately show ?thesis using Pair None
      by (simp add: lbs_visit_def Let_def) (simp add: lbs_state_def)
  next
    case (Some d)
    then have d: "d < k" using lbs_pick_less [of "procs s" w k d] Pair by simp
    have ok: "cpu_ok (acq (L_proc d) s)" and lf: "lock_free (L_proc k) (acq (L_proc d) s)"
      using s d k sched_ok_lock [OF s k] by (auto simp: sched_ok_def cpu_ok_def)
    have "touch (acq (L_proc d) s) = acq (L_proc d) s"
      using ok s by (intro touch_nested) (simp_all add: sched_ok_def)
    then have "release (L_proc k) (acq (L_proc k) (acq (L_proc d) s)) = Ret () (acq (L_proc d) s)"
      using unlock_touch [OF ok lf] by simp
    moreover have "release (L_proc d) (acq (L_proc k) (acq (L_proc d) s)) = Ret () (acq (L_proc k) s)"
      using d k s by (intro release_swap) (auto intro: sched_ok_lock)
    ultimately show ?thesis using Pair Some acquire_eq [OF ok lf]
      by (simp add: lbs_visit_def lbs_state_def Let_def)
  qed
qed

lemma lbs_choose_eq:
  assumes "sched_ok s"
  shows "lbs_choose w s = Ret (lbs_pick (procs s) w NPROC) (lbs_state s NPROC (fst (lbs_pick (procs s) w NPROC)))"
  using for_acc_upt [of NPROC "lbs_visit w" "lbs_pick (procs s) w"
      "\<lambda>k. lbs_state s k (fst (lbs_pick (procs s) w k))", OF lbs_visit_eq [OF assms]]
  by (simp add: lbs_choose_def lbs_state_def)

text \<open>
  With tickets that do not overflow, the scan picks, among the runnable processes from the
  lottery winner on that have as many tickets as the winner, one that started first.
\<close>

definition best_from :: "(nat \<Rightarrow> proc) \<Rightarrow> nat \<Rightarrow> nat \<Rightarrow> nat \<Rightarrow> bool" where
  "best_from ps f n c \<longleftrightarrow> f \<le> c \<and> c < n \<and> p_state (ps c) = RUNNABLE \<and> p_tickets (ps c) = p_tickets (ps f) \<and>
     (\<forall>q. f \<le> q \<longrightarrow> q < n \<longrightarrow> p_state (ps q) = RUNNABLE \<longrightarrow> p_tickets (ps q) = p_tickets (ps f) \<longrightarrow>
        p_start_time_lbs (ps c) \<le> p_start_time_lbs (ps q))"

definition is_winner :: "(nat \<Rightarrow> proc) \<Rightarrow> int \<Rightarrow> nat \<Rightarrow> bool" where
  "is_winner ps w f \<longleftrightarrow> p_state (ps f) = RUNNABLE \<and> cum ps f \<le> w \<and> w < cum ps f + p_tickets (ps f)"

lemma lbs_pick_spec:
  assumes ok: "tickets_ok ps" and w: "0 \<le> w" and n: "n \<le> NPROC"
  shows "snd (lbs_pick ps w n) = cum ps n \<and>
    (case fst (lbs_pick ps w n) of
       None \<Rightarrow> cum ps n \<le> w
     | Some c \<Rightarrow> w < cum ps n \<and> (\<exists>f. is_winner ps w f \<and> best_from ps f n c))"
  using n
proof (induction n)
  case 0
  then show ?case using w by simp
next
  case (Suc n)
  obtain c cur where p: "lbs_pick ps w n = (c, cur)" by fastforce
  have cur: "cur = cum ps n" and le: "cum ps n \<le> cum ps (Suc n)"
    using Suc p cum_mono [OF ok, of n "Suc n"] by simp_all
  show ?case
  proof (cases "p_state (ps n) = RUNNABLE")
    case False
    have b: "best_from ps f (Suc n) d" if "best_from ps f n d" for f d
      using that False by (auto simp: best_from_def less_Suc_eq)
    show ?thesis using Suc p False b by (auto split: option.splits)
  next
    case True
    then have wr: "wrap32 (cur + p_tickets (ps n)) = cum ps (Suc n)"
      using cum_wrap [OF ok Suc.prems] cur by simp
    show ?thesis
    proof (cases c)
      case None
      then have "cum ps n \<le> w" using Suc p by simp
      then have "is_winner ps w n" "best_from ps n (Suc n) n" if "w < cum ps (Suc n)"
        using that True by (auto simp: is_winner_def best_from_def less_Suc_eq)
      then show ?thesis using p True None wr by (auto simp: Let_def simp del: cum.simps)
    next
      case (Some d)
      then obtain f where f: "w < cum ps n" "is_winner ps w f" "best_from ps f n d" using Suc p by auto
      let ?e = "if p_tickets (ps d) = p_tickets (ps n) \<and> p_start_time_lbs (ps n) < p_start_time_lbs (ps d)
                then n else d"
      have b: "best_from ps f (Suc n) ?e"
      proof -
        have "f \<le> ?e \<and> ?e < Suc n \<and> p_state (ps ?e) = RUNNABLE \<and> p_tickets (ps ?e) = p_tickets (ps f)"
          using f(3) True by (auto simp: best_from_def)
        moreover have "p_start_time_lbs (ps ?e) \<le> p_start_time_lbs (ps q)"
          if "f \<le> q" "q < Suc n" "p_state (ps q) = RUNNABLE" "p_tickets (ps q) = p_tickets (ps f)" for q
        proof (cases "q = n")
          case True
          then show ?thesis using that f(3) by (auto simp: best_from_def)
        next
          case False
          then have "p_start_time_lbs (ps d) \<le> p_start_time_lbs (ps q)"
            using that f(3) by (auto simp: best_from_def)
          then show ?thesis by auto
        qed
        ultimately show ?thesis by (auto simp: best_from_def)
      qed
      have "w < cum ps (Suc n)" using f(1) le by simp
      moreover have "fst (lbs_pick ps w (Suc n)) = Some ?e"
        using p True Some wr \<open>w < cum ps (Suc n)\<close> by (simp add: Let_def del: cum.simps)
      moreover have "snd (lbs_pick ps w (Suc n)) = cum ps (Suc n)"
        using p True wr by (simp add: Let_def del: cum.simps)
      ultimately show ?thesis using f(2) b by auto
    qed
  qed
qed

text \<open>One pass of the lottery scheduler dispatches the process that the scan picks for the draw.\<close>

lemma scheduler_lbs_picks:
  assumes "run_ok run" "sched_ok s" "tickets_ok (procs s)" "0 < cum (procs s) NPROC"
  obtains r u c t where "rand s = Ret r u" "fst (lbs_pick (procs s) (r mod cum (procs s) NPROC) NPROC) = Some c"
    "scheduler_lbs run s = Ret [c] t" "sched_ok t"
proof -
  let ?i = "touch (intr_on s)" and ?T = "cum (procs s) NPROC"
  obtain r where r: "rand ?i = Ret r (?i\<lparr>rnd_next := rnd_next ?i * 1103515245 + 12345\<rparr>)"
    using rand_eq [of ?i] by blast
  let ?d = "?i\<lparr>rnd_next := rnd_next ?i * 1103515245 + 12345\<rparr>" and ?w = "r mod ?T"
  obtain u where rs: "rand s = Ret r u" using r by (simp add: rand_def Let_def)
  have d: "sched_ok ?d" "procs ?d = procs s" using assms(2) by simp_all
  have w: "0 \<le> ?w" "?w < ?T" using assms(4) by simp_all
  obtain c where c: "fst (lbs_pick (procs s) ?w NPROC) = Some c"
    using lbs_pick_spec [OF assms(3) w(1) order_refl] w(2) by (cases "fst (lbs_pick (procs s) ?w NPROC)") auto
  then have cN: "c < NPROC" using lbs_pick_less by blast
  obtain t where t: "dispatch run c (acq (L_proc c) ?d) = Ret () t" "sched_ok t"
    using dispatch_ok [OF assms(1) cN holds_only_acq [OF d(1) cN]] by blast
  have "lbs_total (intr_on s) = Ret ?T ?i"
    using lbs_total_eq [of "intr_on s"] assms(2) cum_int32 [OF assms(3)] by simp
  then have "scheduler_lbs run s = Ret [c] t"
    using assms(4) r lbs_choose_eq [OF d(1), of ?w] d(2) c t(1)
    by (simp add: scheduler_lbs_def lbs_state_def)
  then show thesis using that rs c t(2) by blast
qed

lemma lbs_pick_best:
  assumes "tickets_ok ps" "0 \<le> w" "fst (lbs_pick ps w NPROC) = Some c"
  obtains f where "is_winner ps w f" "best_from ps f NPROC c"
  using lbs_pick_spec [OF assms(1,2) order_refl] assms(3) by auto

lemma is_winner_unique:
  assumes "tickets_ok ps" "is_winner ps w f" "is_winner ps w g" "f < NPROC" "g < NPROC"
  shows "f = g"
proof -
  have "\<not> i < j" if "is_winner ps w i" "is_winner ps w j" "i < NPROC" "j < NPROC" for i j
    using that cum_mono [OF assms(1), of "Suc i" j] by (auto simp: is_winner_def)
  then show ?thesis using assms(2-5) by (metis nat_neq_iff)
qed

lemma lbs_choose_runnable:
  assumes "sched_ok s" "lbs_choose w s = Ret (Some c, cur) u"
  shows "c < NPROC \<and> p_state (procs s c) = RUNNABLE"
  using lbs_pick_less [of "procs s" w NPROC c] assms(2) by (simp add: lbs_choose_eq [OF assms(1)])

text \<open>The draws for which the scan picks a process with \<open>n\<close> tickets are those in the interval of one.\<close>

lemma draws_of_class:
  assumes "sched_ok s" "tickets_ok (procs s)"
  shows "{w. 0 \<le> w \<and> w < cum (procs s) NPROC \<and> (\<exists>c cur u. lbs_choose w s = Ret (Some c, cur) u \<and> p_tickets (procs s c) = n)} =
    (\<Union>p\<in>{p. p < NPROC \<and> p_state (procs s p) = RUNNABLE \<and> p_tickets (procs s p) = n}. {w. is_winner (procs s) w p})"
    (is "?W = ?U")
proof (rule set_eqI)
  fix w
  let ?ps = "procs s"
  show "w \<in> ?W \<longleftrightarrow> w \<in> ?U"
  proof (cases "0 \<le> w \<and> w < cum ?ps NPROC")
    case True
    then obtain c where c: "fst (lbs_pick ?ps w NPROC) = Some c"
      using lbs_pick_spec [OF assms(2) _ order_refl, of w] by (cases "fst (lbs_pick ?ps w NPROC)") auto
    obtain f where f: "is_winner ?ps w f" "best_from ?ps f NPROC c" using lbs_pick_best [OF assms(2) _ c] True by blast
    have fN: "f < NPROC" "p_tickets (?ps c) = p_tickets (?ps f)" "p_state (?ps f) = RUNNABLE"
      using f by (auto simp: best_from_def is_winner_def)
    have "w \<in> ?W \<longleftrightarrow> p_tickets (?ps f) = n"
      using True c fN by (cases "lbs_pick ?ps w NPROC") (simp add: lbs_choose_eq [OF assms(1)])
    also have "\<dots> \<longleftrightarrow> w \<in> ?U" using f(1) fN is_winner_unique [OF assms(2) f(1)] by blast
    finally show ?thesis .
  next
    case False
    have "0 \<le> w \<and> w < cum ?ps NPROC" if "p < NPROC" "is_winner ?ps w p" for p
      using that cum_bounds [OF assms(2), of p] cum_mono [OF assms(2), of "Suc p" NPROC] by (auto simp: is_winner_def)
    then show ?thesis using False by blast
  qed
qed

lemma card_class:
  assumes "tickets_ok ps"
  shows "int (card (\<Union>p\<in>{p. p < NPROC \<and> p_state (ps p) = RUNNABLE \<and> p_tickets (ps p) = n}. {w. is_winner ps w p})) =
    n * int (card {p. p < NPROC \<and> p_state (ps p) = RUNNABLE \<and> p_tickets (ps p) = n})"
proof -
  let ?A = "{p. p < NPROC \<and> p_state (ps p) = RUNNABLE \<and> p_tickets (ps p) = n}"
  have e: "{w. is_winner ps w p} = {cum ps p..<cum ps p + n}" if "p \<in> ?A" for p using that by (auto simp: is_winner_def)
  have "card (\<Union>p\<in>?A. {w. is_winner ps w p}) = (\<Sum>p\<in>?A. card {w. is_winner ps w p})"
  proof (rule card_UN_disjoint)
    show "\<forall>p\<in>?A. finite {w. is_winner ps w p}" using e by simp
    show "\<forall>p\<in>?A. \<forall>q\<in>?A. p \<noteq> q \<longrightarrow> {w. is_winner ps w p} \<inter> {w. is_winner ps w q} = {}"
      using is_winner_unique [OF assms] by blast
  qed simp
  also have "\<dots> = (\<Sum>p\<in>?A. nat n)" by (rule sum.cong) (use e in simp_all)
  finally have "int (card (\<Union>p\<in>?A. {w. is_winner ps w p})) = int (card ?A) * int (nat n)" by simp
  moreover have "card ?A = 0 \<or> 0 \<le> n" using assms by (cases "?A = {}") (auto simp: tickets_ok_def)
  ultimately show ?thesis by (auto simp del: card_eq_0_iff)
qed

section \<open>Properties of the schedulers\<close>

text \<open>A process that gives the CPU back at once, for the concrete instances below.\<close>

definition run_yield :: "nat \<Rightarrow> 'z kproc_scheme \<Rightarrow> 'z kproc_scheme" where
  "run_yield p s = upd_proc p (\<lambda>x. x\<lparr>p_state := RUNNABLE\<rparr>) s"

lemma run_ok_yield: "run_ok run_yield" "keeps_runnable run_yield"
  by (simp_all add: run_ok_def keeps_runnable_def run_yield_def)

text \<open>A state with one runnable process, which has \<open>n\<close> tickets.\<close>

definition one_runnable :: "int \<Rightarrow> kproc" where
  "one_runnable n = upd_proc 0 (\<lambda>x. x\<lparr>p_state := RUNNABLE, p_tickets := n\<rparr>) boot"

lemma one_runnable_ok [simp]:
  "sched_ok (one_runnable n)"
  "p_state (procs (one_runnable n) p) = (if p = 0 then RUNNABLE else UNUSED)"
  "p_tickets (procs (one_runnable n) p) = (if p = 0 then n else 0)"
  using boot_ok(2,4) by (simp_all add: one_runnable_def sched_ok_def)
    (simp_all add: proc_locks_free_def boot_def zero_proc_def)

lemma cum_one_runnable [simp]: "cum (procs (one_runnable n)) (Suc k) = n"
  by (induction k) simp_all

lemma cum_one_runnable_NPROC [simp]: "cum (procs (one_runnable n)) NPROC = n"
  using cum_one_runnable [of n 63] by (simp add: NPROC_def)

text \<open>
  C24: Round robin is fair.  One pass of the default scheduler always returns, with every
  process lock free again; it dispatches processes in table order, none twice, and it
  dispatches every process that was runnable when the pass began, provided that running one
  process does not make another one stop being runnable.
\<close>

theorem round_robin_fair:
  assumes "run_ok run" "keeps_runnable run" "sched_ok s"
  shows "\<exists>tr t. scheduler_default run s = Ret tr t \<and> sched_ok t \<and> sorted_wrt (<) tr \<and>
    set tr \<subseteq> {..<NPROC} \<and> {p. p < NPROC \<and> p_state (procs s p) = RUNNABLE} \<subseteq> set tr"
proof -
  have "sched_ok (intr_on s)" using assms(3) by simp
  from rr_scan [OF assms(1) this order_refl] assms(2) show ?thesis
    unfolding scheduler_default_def by (auto split: if_splits)
qed

theorem round_robin_fair_witness:
  "\<exists>tr t. scheduler_default run_yield (one_runnable 1) = Ret tr t \<and> 0 \<in> set tr"
  using round_robin_fair [OF run_ok_yield one_runnable_ok(1) [of 1]]
  by fastforce

text \<open>
  C1: What the lottery scheduler runs.  If some runnable process holds a ticket and the
  tickets do not overflow an int, a pass of the scheduler returns, having dispatched exactly
  one process with only that process's lock held: with \<open>f\<close> the process whose interval of
  tickets contains the drawn number, it is one that started first among the runnable
  processes from \<open>f\<close> on that have as many tickets as \<open>f\<close>.  Processes in the slots below \<open>f\<close>
  take no part in the tie-break, even with as many tickets and an earlier start time; the
  documentation (\<^verbatim>\<open>README.md\<close>, \<^verbatim>\<open>SCHEDULER.md\<close>) promises the earliest arrival among all of
  them (see \<open>lottery_tie_passes_over_earlier\<close>).
\<close>

theorem lottery_dispatches_winner:
  assumes "run_ok run" "sched_ok s" "tickets_ok (procs s)" "0 < cum (procs s) NPROC"
  shows "\<exists>r u f c t. rand s = Ret r u \<and> is_winner (procs s) (r mod cum (procs s) NPROC) f \<and>
    best_from (procs s) f NPROC c \<and> scheduler_lbs run s = Ret [c] t \<and> sched_ok t"
proof -
  let ?T = "cum (procs s) NPROC"
  obtain r u c t where c: "rand s = Ret r u" "fst (lbs_pick (procs s) (r mod ?T) NPROC) = Some c"
    "scheduler_lbs run s = Ret [c] t" "sched_ok t"
    by (rule scheduler_lbs_picks [OF assms])
  have "0 \<le> r mod ?T" using assms(4) by simp
  then obtain f where "is_winner (procs s) (r mod ?T) f" "best_from (procs s) f NPROC c"
    by (rule lbs_pick_best [OF assms(3) _ c(2)])
  then show ?thesis using c by blast
qed

theorem lottery_dispatches_winner_witness:
  "\<exists>t. scheduler_lbs run_yield (one_runnable 5) = Ret [0] t \<and> sched_ok t"
proof -
  have "tickets_ok (procs (one_runnable 5))" by (simp add: tickets_ok_def)
  from lottery_dispatches_winner [OF run_ok_yield(1) one_runnable_ok(1) this] show ?thesis
    by (auto simp: best_from_def split: if_splits)
qed

text \<open>
  C25: The lottery is proportional between the classes of processes with equally many tickets.
  Of the numbers below the total of the first scan, the second scan \<open>lbs_choose\<close> picks a process
  with \<open>n\<close> tickets for exactly \<open>n\<close> times as many as there are runnable processes with \<open>n\<close> tickets.
  So a process that is alone with its number of tickets is picked by exactly as many draws as it
  has tickets; within a class the tie-break moves draws from one member to another.
\<close>

theorem lottery_proportional:
  assumes "sched_ok s" "tickets_ok (procs s)"
  shows "\<exists>total t. lbs_total s = Ret total t \<and>
    int (card {w. 0 \<le> w \<and> w < total \<and> (\<exists>c cur u. lbs_choose w s = Ret (Some c, cur) u \<and> p_tickets (procs s c) = n)}) =
      n * int (card {p. p < NPROC \<and> p_state (procs s p) = RUNNABLE \<and> p_tickets (procs s p) = n}) \<and>
    (\<forall>p. {q. q < NPROC \<and> p_state (procs s q) = RUNNABLE \<and> p_tickets (procs s q) = n} = {p} \<longrightarrow>
      int (card {w. 0 \<le> w \<and> w < total \<and> (\<exists>cur u. lbs_choose w s = Ret (Some p, cur) u)}) = n)"
proof -
  let ?ps = "procs s" and ?T = "cum (procs s) NPROC"
  let ?A = "{p. p < NPROC \<and> p_state (?ps p) = RUNNABLE \<and> p_tickets (?ps p) = n}"
  let ?W = "{w. 0 \<le> w \<and> w < ?T \<and> (\<exists>c cur u. lbs_choose w s = Ret (Some c, cur) u \<and> p_tickets (?ps c) = n)}"
  have W: "?W = (\<Union>p\<in>?A. {w. is_winner ?ps w p})" by (rule draws_of_class [OF assms])
  then have 1: "int (card ?W) = n * int (card ?A)" using card_class [OF assms(2)] by simp
  have 2: "int (card {w. 0 \<le> w \<and> w < ?T \<and> (\<exists>cur u. lbs_choose w s = Ret (Some p, cur) u)}) = n" if "?A = {p}" for p
  proof -
    have "p_tickets (?ps p) = n" using that by blast
    moreover have "c = p" if "lbs_choose w s = Ret (Some c, cur) u" "p_tickets (?ps c) = n" for c w cur u
      using lbs_choose_runnable [OF assms(1) that(1)] that(2) \<open>?A = {p}\<close> by blast
    ultimately have "{w. 0 \<le> w \<and> w < ?T \<and> (\<exists>cur u. lbs_choose w s = Ret (Some p, cur) u)} = ?W" by blast
    then show ?thesis using 1 that by simp
  qed
  have "lbs_total s = Ret ?T (touch s)" using lbs_total_eq [OF assms(1)] cum_int32 [OF assms(2)] by simp
  then show ?thesis using 1 2 by blast
qed

text \<open>Processes 0 and 1 runnable with \<open>m\<close> and \<open>n\<close> tickets, process 0 the older one.\<close>

definition two_runnable :: "64 word \<Rightarrow> int \<Rightarrow> int \<Rightarrow> kproc" where
  "two_runnable seed m n = (upd_proc 1 (\<lambda>x. x\<lparr>p_state := RUNNABLE, p_tickets := n, p_start_time_lbs := 2\<rparr>)
     (upd_proc 0 (\<lambda>x. x\<lparr>p_state := RUNNABLE, p_tickets := m, p_start_time_lbs := 1\<rparr>) boot))\<lparr>rnd_next := seed\<rparr>"

lemma two_runnable_ok [simp]:
  "sched_ok (two_runnable r m n)"
  "p_state (procs (two_runnable r m n) p) = (if p < 2 then RUNNABLE else UNUSED)"
  "p_tickets (procs (two_runnable r m n) p) = (if p = 0 then m else if p = 1 then n else 0)"
  "p_start_time_lbs (procs (two_runnable r m n) p) = (if p = 0 then 1 else if p = 1 then 2 else 0)"
proof -
  have "sched_ok (upd_proc 1 f (upd_proc 0 g boot))" for f g
    using boot_ok(2,4) by (simp add: sched_ok_def proc_locks_free_def)
  then show "sched_ok (two_runnable r m n)" by (simp add: two_runnable_def)
qed (auto simp: two_runnable_def boot_def zero_proc_def)

lemma cum_two_runnable: "cum (procs (two_runnable r m n)) (Suc (Suc k)) = m + n"
  by (induction k) simp_all

lemma cum_two_runnable_NPROC [simp]: "cum (procs (two_runnable r m n)) NPROC = m + n"
  using cum_two_runnable [of r m n 62] by (simp add: NPROC_def)

theorem lottery_proportional_witness:
  "\<exists>total t. lbs_total (two_runnable 1 3 7) = Ret total t \<and>
    int (card {w. 0 \<le> w \<and> w < total \<and> (\<exists>cur u. lbs_choose w (two_runnable 1 3 7) = Ret (Some 1, cur) u)}) = 7"
proof -
  have "tickets_ok (procs (two_runnable 1 3 7))" by (simp add: tickets_ok_def)
  moreover have "{q. q < NPROC \<and> p_state (procs (two_runnable 1 3 7) q) = RUNNABLE \<and> p_tickets (procs (two_runnable 1 3 7) q) = 7} = {1}"
    by (auto simp: NPROC_def split: if_splits)
  ultimately show ?thesis using lottery_proportional [OF two_runnable_ok(1), of 1 3 7 7] by blast
qed

text \<open>
  C34: The generator cannot reach every ticket.  \<open>rand\<close> yields 15 bits.  A process whose interval of
  tickets begins at 32768 or later is not dispatched, whatever the seed and however many tickets
  it holds, unless the tie-break hands it the draw of a process in an earlier slot with as many
  tickets that the generator can reach: every pass dispatches some other process.
\<close>

theorem lottery_unreachable_tickets:
  assumes "run_ok run" "sched_ok s" "tickets_ok (procs s)" "p < NPROC" "32768 \<le> cum (procs s) p"
    "\<And>q. q < p \<Longrightarrow> p_state (procs s q) = RUNNABLE \<Longrightarrow> p_tickets (procs s q) = p_tickets (procs s p) \<Longrightarrow> 32768 \<le> cum (procs s) q"
  shows "\<exists>c t. scheduler_lbs run s = Ret [c] t \<and> c \<noteq> p"
proof -
  let ?T = "cum (procs s) NPROC"
  have T: "0 < ?T" using assms(5) cum_mono [OF assms(3), of p NPROC] assms(4) by simp
  obtain r u c t where c: "rand s = Ret r u" "fst (lbs_pick (procs s) (r mod ?T) NPROC) = Some c" "scheduler_lbs run s = Ret [c] t"
    by (rule scheduler_lbs_picks [OF assms(1-3) T])
  have "0 \<le> r" "r < 32768" using rand_bound [OF c(1)] by simp_all
  then have r: "0 \<le> r mod ?T" "r mod ?T < 32768" using T zmod_le_nonneg_dividend [of r ?T] by simp_all
  obtain f where f: "is_winner (procs s) (r mod ?T) f" "best_from (procs s) f NPROC c"
    by (rule lbs_pick_best [OF assms(3) r(1) c(2)])
  have "c \<noteq> p"
  proof
    assume "c = p"
    then have "f \<le> p" "p_state (procs s f) = RUNNABLE" "p_tickets (procs s f) = p_tickets (procs s p)"
      using f by (simp_all add: best_from_def is_winner_def)
    then have "32768 \<le> cum (procs s) f" using assms(5,6) by (cases "f = p") auto
    then show False using f(1) r(2) by (simp add: is_winner_def)
  qed
  then show ?thesis using c(3) by blast
qed

theorem lottery_unreachable_tickets_witness:
  "\<exists>c t. p_state (procs (two_runnable 1 32768 20000) 1) = RUNNABLE \<and> p_tickets (procs (two_runnable 1 32768 20000) 1) = 20000 \<and>
     scheduler_lbs run_yield (two_runnable 1 32768 20000) = Ret [c] t \<and> c \<noteq> 1"
proof -
  let ?s = "two_runnable 1 32768 20000"
  have ok: "tickets_ok (procs ?s)" by (simp add: tickets_ok_def)
  have p: "1 < NPROC" "32768 \<le> cum (procs ?s) 1" by (simp_all add: NPROC_def)
  have q: "32768 \<le> cum (procs ?s) q" if "q < 1" "p_state (procs ?s q) = RUNNABLE" "p_tickets (procs ?s q) = p_tickets (procs ?s 1)" for q
    using that by simp
  show ?thesis using lottery_unreachable_tickets [OF run_ok_yield(1) two_runnable_ok(1) ok p q] by auto
qed

text \<open>
  The tie-break passes over an earlier arrival in a lower slot: of two processes with one ticket
  each, the draw of the second ticket dispatches the second process although the first started
  earlier.
\<close>

theorem lottery_tie_passes_over_earlier:
  "\<exists>t. p_tickets (procs (two_runnable 3 1 1) 0) = p_tickets (procs (two_runnable 3 1 1) 1) \<and>
     p_start_time_lbs (procs (two_runnable 3 1 1) 0) < p_start_time_lbs (procs (two_runnable 3 1 1) 1) \<and>
     scheduler_lbs run_yield (two_runnable 3 1 1) = Ret [1] t"
proof -
  let ?s = "two_runnable 3 1 1"
  have ok: "tickets_ok (procs ?s)" and T: "0 < cum (procs ?s) NPROC" by (simp_all add: tickets_ok_def)
  obtain r u c t where c: "rand ?s = Ret r u" "fst (lbs_pick (procs ?s) (r mod cum (procs ?s) NPROC) NPROC) = Some c"
    "scheduler_lbs run_yield ?s = Ret [c] t"
    by (rule scheduler_lbs_picks [OF run_ok_yield(1) two_runnable_ok(1) ok T])
  have "rnd_next ?s = 3" by (simp add: two_runnable_def)
  then have "r = 17747" using c(1) by (simp add: rand_def Let_def)
  then have r: "r mod cum (procs ?s) NPROC = 1" by simp
  obtain f where f: "is_winner (procs ?s) 1 f" "best_from (procs ?s) f NPROC c"
    by (rule lbs_pick_best [OF ok zero_le_one c(2) [unfolded r]])
  have "f = 1" using f(1) by (cases "f = 0") (auto simp: is_winner_def split: if_splits)
  then have "c = 1" using f(2) by (auto simp: best_from_def split: if_splits)
  then show ?thesis using c(3) by simp
qed

text \<open>
  Without tickets nothing runs.  \<open>settickets\<close> accepts 0; when every runnable process
  has 0 tickets, a pass of the lottery scheduler dispatches nothing and leaves the process table
  as it is, so the processes never run again.
\<close>

theorem lottery_zero_tickets_starve:
  assumes "sched_ok s" "\<And>p. p < NPROC \<Longrightarrow> p_state (procs s p) = RUNNABLE \<Longrightarrow> p_tickets (procs s p) = 0"
  shows "\<exists>t. scheduler_lbs run s = Ret [] t \<and> procs t = procs s \<and> sched_ok t"
proof -
  have c: "n \<le> NPROC \<Longrightarrow> cum (procs s) n = 0" for n using assms(2) by (induction n) auto
  then have "lbs_total (intr_on s) = Ret 0 (touch (intr_on s))"
    using lbs_total_eq [of "intr_on s"] assms(1) by (simp add: int32_def)
  then show ?thesis using assms(1) by (simp add: scheduler_lbs_def)
qed

theorem lottery_zero_tickets_starve_witness:
  "\<exists>t. scheduler_lbs run_yield (one_runnable 0) = Ret [] t \<and> p_state (procs t 0) = RUNNABLE"
  using lottery_zero_tickets_starve [of "one_runnable 0" run_yield] by fastforce

end
