(* ===== verification/Mlfq.thy ===== *)
theory Mlfq
  imports Scheduler
begin

text \<open>
  The multi-level feedback queue: the queue routines and the \<^verbatim>\<open>MLFQ\<close> part of \<open>scheduler\<close> in
  \<^verbatim>\<open>kernel/proc.c\<close>, and the \<^verbatim>\<open>MLFQ\<close> parts of \<open>usertrap\<close> in \<^verbatim>\<open>kernel/trap.c\<close>.

  The array operations are first defined on one queue, with \<open>None\<close> for an access outside
  \<^verbatim>\<open>mlfq_queue[NPROC]\<close>; the kernel routines update the queue and the process together.
  The queue operations are shown to implement a bounded double-ended list (locale \<open>deque\<close>),
  and the scheduler is verified against those lists.
\<close>

definition queue_size :: nat where "queue_size = 4"

section \<open>Operations on one queue\<close>

definition arr_put :: "'a list \<Rightarrow> int \<Rightarrow> 'a \<Rightarrow> 'a list option" where
  "arr_put xs i v = (if 0 \<le> i \<and> i < int (length xs) then Some (xs[nat i := v]) else None)"

text \<open>Store at the tail (the body shared by \<open>mlfq_push\<close> and the scheduler's first loop).\<close>

definition q_store :: "nat \<Rightarrow> mlfq_q \<Rightarrow> mlfq_q option" where
  "q_store p q = (case arr_put (q_mlfq_queue q) (q_tail q) (Some p) of
     None \<Rightarrow> None
   | Some a \<Rightarrow> Some (q\<lparr>q_mlfq_queue := a, q_tail := wrap32 (q_tail q + 1), q_length := wrap32 (q_length q + 1)\<rparr>))"

text \<open>\<^verbatim>\<open>for(i = n-1; i >= 0; i--) a[i+1] = a[i]\<close>\<close>

primrec shift_up :: "nat \<Rightarrow> 'a list \<Rightarrow> 'a list option" where
  "shift_up 0 a = Some a"
| "shift_up (Suc i) a = (if i + 1 < length a then shift_up i (a[i + 1 := a ! i]) else None)"

text \<open>Insert at the front (the body shared by \<open>mlfq_push_front\<close> and the scheduler).\<close>

definition q_unshift :: "nat \<Rightarrow> mlfq_q \<Rightarrow> mlfq_q option" where
  "q_unshift p q =
     (let q = q\<lparr>q_tail := wrap32 (q_tail q + 1), q_length := wrap32 (q_length q + 1)\<rparr> in
      case shift_up (nat (q_length q)) (q_mlfq_queue q) of
        None \<Rightarrow> None
      | Some a \<Rightarrow> (case arr_put a 0 (Some p) of
          None \<Rightarrow> None
        | Some a \<Rightarrow> Some (q\<lparr>q_mlfq_queue := a\<rparr>)))"

text \<open>\<^verbatim>\<open>for(i = 0; i < NPROC-1; i++) a[i] = a[i+1]\<close>\<close>

definition shift_down :: "'a list \<Rightarrow> 'a list" where
  "shift_down a = fold (\<lambda>i a. a[i := a ! (i + 1)]) [0..<NPROC - 1] a"

definition q_shift :: "mlfq_q \<Rightarrow> mlfq_q" where
  "q_shift q = q\<lparr>q_mlfq_queue := shift_down ((q_mlfq_queue q)[0 := None]),
     q_tail := wrap32 (q_tail q - 1), q_length := wrap32 (q_length q - 1)\<rparr>"

section \<open>The queue routines of the kernel\<close>

definition upd_queue :: "nat \<Rightarrow> mlfq_q \<Rightarrow> 'z kproc_scheme \<Rightarrow> 'z kproc_scheme" where
  "upd_queue n q s = s\<lparr>queue := (queue s)(n := q)\<rparr>"

definition initialisation_queue :: "'z kproc_scheme \<Rightarrow> 'z kproc_scheme" where
  "initialisation_queue s = fold (\<lambda>i s. upd_queue i ((queue s i)\<lparr>
       q_priority_queue_ticks := [1, 4, 8, 16] ! i, q_head := -1, q_tail := 0, q_length := 0,
       q_mlfq_queue := fold (\<lambda>j a. a[j := None]) [0..<64] (q_mlfq_queue (queue s i))\<rparr>) s) [0..<4] s"

text \<open>The initialisation that \<open>userinit\<close> performs.\<close>

definition userinit_queues :: "'z kproc_scheme \<Rightarrow> 'z kproc_scheme" where
  "userinit_queues s = fold (\<lambda>i s. upd_queue i ((queue s i)\<lparr>
       q_priority_queue_ticks := [1, 4, 8, 16] ! i, q_head := 0, q_tail := 0, q_length := 0,
       q_mlfq_queue := fold (\<lambda>k a. a[k := None]) [0..<48] (q_mlfq_queue (queue s i))\<rparr>) s)
     [0..<queue_size] s"

definition in_queues :: "int \<Rightarrow> bool" where
  "in_queues n \<longleftrightarrow> 0 \<le> n \<and> n < int queue_size"

definition mlfq_push :: "nat \<Rightarrow> int \<Rightarrow> 'z kproc_scheme \<Rightarrow> ('z kproc_scheme, unit) outcome" where
  "mlfq_push p n s =
     (if \<not> in_queues n then Fault ''queue[]''
      else if q_tail (queue s (nat n)) \<ge> int NPROC then Panic ''Invalid parameters passed''
      else case q_store p (queue s (nat n)) of
        None \<Rightarrow> Fault ''mlfq_queue[]''
      | Some q \<Rightarrow> Ret () (upd_proc p (\<lambda>x. x\<lparr>p_priority_queue_number := n, p_status_queue := 1,
            p_number_process := wrap32 (q_tail q - 1)\<rparr>) (upd_queue (nat n) q s)))"

definition mlfq_push_front :: "nat \<Rightarrow> int \<Rightarrow> 'z kproc_scheme \<Rightarrow> ('z kproc_scheme, unit) outcome" where
  "mlfq_push_front p n s =
     (if \<not> in_queues n then Fault ''queue[]''
      else case q_unshift p (queue s (nat n)) of
        None \<Rightarrow> Fault ''mlfq_queue[]''
      | Some q \<Rightarrow> Ret () (upd_proc p (\<lambda>x. x\<lparr>p_priority_queue_number := 1, p_status_queue := 1,
            p_number_process := 0\<rparr>) (upd_queue (nat n) q s)))"

definition pop :: "int \<Rightarrow> 'z kproc_scheme \<Rightarrow> ('z kproc_scheme, nat) outcome" where
  "pop n s =
     (if \<not> in_queues n then Fault ''queue[]''
      else if q_tail (queue s (nat n)) < 0 then Panic ''Queue is empty''
      else case q_mlfq_queue (queue s (nat n)) ! 0 of
        None \<Rightarrow> Fault ''mypro is null''
      | Some p \<Rightarrow> Ret p (upd_proc p (\<lambda>x. x\<lparr>p_status_queue := 0\<rparr>)
                   (upd_queue (nat n) (q_shift (queue s (nat n))) s)))"

section \<open>The scheduler\<close>

text \<open>First loop: append the runnable processes that are in no queue.\<close>

definition mlfq_admit :: "nat \<Rightarrow> 'z kproc_scheme \<Rightarrow> ('z kproc_scheme, unit) outcome" where
  "mlfq_admit p s =
     (if p_state (procs s p) = RUNNABLE \<and> p_status_queue (procs s p) = 0 then
        let n = p_priority_queue_number (procs s p) in
        if \<not> in_queues n then Fault ''queue[]''
        else if q_tail (queue s (nat n)) \<ge> 100 then Panic ''Invalid parameters passed''
        else case q_store p (queue s (nat n)) of
          None \<Rightarrow> Fault ''mlfq_queue[]''
        | Some q \<Rightarrow> Ret () (upd_proc p (\<lambda>x. x\<lparr>p_priority_queue_number := n, p_status_queue := 1,
              p_number_process := wrap32 (q_tail q - 1)\<rparr>) (upd_queue (nat n) q s))
      else Ret () s)"

text \<open>The process found runnable goes back to the front of its queue.\<close>

definition mlfq_refront :: "nat \<Rightarrow> 'z kproc_scheme \<Rightarrow> ('z kproc_scheme, unit) outcome" where
  "mlfq_refront c s =
     (let n = p_priority_queue_number (procs s c) in
      if \<not> in_queues n then Fault ''queue[]''
      else case q_unshift c (queue s (nat n)) of
        None \<Rightarrow> Fault ''mlfq_queue[]''
      | Some q \<Rightarrow> Ret () (upd_proc c (\<lambda>x. x\<lparr>p_status_queue := 1, p_number_process := 0\<rparr>)
                   (upd_queue (nat n) q s)))"

lemma wrap32_pred: "0 < x \<Longrightarrow> wrap32 (x - 1) < x"
proof -
  assume "0 < x"
  then have "(x - 1 + 2147483648) mod 4294967296 \<le> x - 1 + 2147483648"
    by (intro zmod_le_nonneg_dividend) simp
  then show ?thesis unfolding wrap32_def by linarith
qed

lemma pop_tail:
  "pop n s = Ret p s' \<Longrightarrow> q_tail (queue s' (nat n)) = wrap32 (q_tail (queue s (nat n)) - 1)"
  by (auto simp: pop_def upd_queue_def q_shift_def split: if_splits option.splits)

text \<open>The \<^verbatim>\<open>while\<close> loop over queue \<open>i\<close>, with the local variable \<^verbatim>\<open>current_process_track\<close>.\<close>

function mlfq_drain ::
  "nat \<Rightarrow> nat option \<Rightarrow> 'z kproc_scheme \<Rightarrow> ('z kproc_scheme, nat option) outcome" where
  "mlfq_drain i cur s =
     (if q_tail (queue s i) \<le> 0 then Ret cur s
      else bnd (pop (int i) s) (\<lambda>c s.
        let s = upd_proc c (\<lambda>x. x\<lparr>p_status_queue := 0\<rparr>) s in
        if p_state (procs s c) = RUNNABLE
        then bnd (mlfq_refront c s) (\<lambda>_ s. Ret (Some c) s)
        else mlfq_drain i (Some c) s))"
  by pat_completeness auto
termination
  by (relation "measure (\<lambda>(i, cur, s). nat (q_tail (queue s i)))")
    (auto dest!: pop_tail, metis nat_less_eq_zless not_le less_imp_le wrap32_pred zless_nat_conj)

definition mlfq_select :: "'z kproc_scheme \<Rightarrow> ('z kproc_scheme, nat option) outcome" where
  "mlfq_select s =
     bnd (for_each [0..<NPROC] mlfq_admit s) (\<lambda>_ s.
       for_acc [0..<queue_size] (\<lambda>i cur s. if cur \<noteq> None then Ret cur s else mlfq_drain i cur s) None s)"

definition scheduler_mlfq ::
  "(nat \<Rightarrow> 'z kproc_scheme \<Rightarrow> 'z kproc_scheme) \<Rightarrow> 'z kproc_scheme \<Rightarrow> ('z kproc_scheme, nat list) outcome"
where
  "scheduler_mlfq run s =
     bnd (mlfq_select (intr_on s)) (\<lambda>cur s.
       case cur of None \<Rightarrow> Ret [] s
       | Some c \<Rightarrow>
           if p_state (procs s c) = RUNNABLE then
             bnd (acquire (L_proc c) s) (\<lambda>_ s. bnd (dispatch run c s) (\<lambda>_ s. Ret [c] s))
           else Ret [] s)"

section \<open>The timer interrupt\<close>

text \<open>
  The ageing pass of \<open>usertrap\<close> for one process.  \<^verbatim>\<open>newproc\<close> walks over the process table
  itself, and the second loop copies whole process structures, locks included.
\<close>

definition copy_proc :: "nat \<Rightarrow> 'z kproc_scheme \<Rightarrow> 'z kproc_scheme" where
  "copy_proc k s = upd_lock (L_proc (k - 1)) (\<lambda>_. locks s (L_proc k)) (upd_proc (k - 1) (\<lambda>_. procs s k) s)"

definition mlfq_age :: "nat \<Rightarrow> 'z kproc_scheme \<Rightarrow> ('z kproc_scheme, unit) outcome" where
  "mlfq_age p s =
     (if p_status_queue (procs s p) = 1 \<and> p_state (procs s p) = RUNNABLE then
        if p_wait_ticks (procs s p) \<ge> 48 then
          let s = upd_proc p (\<lambda>x. x\<lparr>p_status_queue := 0\<rparr>) s; n = p_priority_queue_number (procs s p) in
          if \<not> in_queues n then Fault ''queue[]''
          else case q_mlfq_queue (queue s (nat n)) ! 0 of
            None \<Rightarrow> Fault ''newproc is null''
          | Some h \<Rightarrow>
              let newproc = max h p + 1;
                  stop = (case q_mlfq_queue (queue s (nat n)) ! (NPROC - 1) of None \<Rightarrow> 0 | Some e \<Rightarrow> e);
                  s = fold copy_proc [newproc..<stop] s;
                  n' = p_priority_queue_number (procs s p) in
              if \<not> in_queues n' then Fault ''queue[]''
              else
                let q = queue s (nat n');
                    s = upd_queue (nat n') (q\<lparr>q_mlfq_queue := (q_mlfq_queue q)[NPROC - 1 := None]\<rparr>) s;
                    s = (if p_priority_queue_number (procs s p) > 0
                         then upd_proc p (\<lambda>x. x\<lparr>p_priority_queue_number := wrap32 (p_priority_queue_number x - 1)\<rparr>) s
                         else s)
                in Ret () (upd_proc p (\<lambda>x. x\<lparr>p_wait_ticks := 0\<rparr>) s)
        else Ret () s
      else Ret () s)"

definition mlfq_ageing :: "'z kproc_scheme \<Rightarrow> ('z kproc_scheme, unit) outcome" where
  "mlfq_ageing s = for_each [0..<NPROC] mlfq_age s"

text \<open>The time-slice check before the \<open>yield\<close> of a timer interrupt.\<close>

definition mlfq_timer :: "nat \<Rightarrow> 'z kproc_scheme \<Rightarrow> ('z kproc_scheme, unit) outcome" where
  "mlfq_timer p s =
     (let n = p_priority_queue_number (procs s p) in
      if \<not> in_queues n then Fault ''queue[]''
      else if p_start_time (procs s p) \<ge> q_priority_queue_ticks (queue s (nat n)) then
        bnd (if q_tail (queue s (nat n)) > 0
             then bnd (pop n s) (\<lambda>_ s. Ret () (upd_proc p (\<lambda>x. x\<lparr>p_status_queue := 0\<rparr>) s))
             else Ret () s) (\<lambda>_ s.
        let s = (if p_priority_queue_number (procs s p) < int queue_size - 1
                 then upd_proc p (\<lambda>x. x\<lparr>p_priority_queue_number := wrap32 (p_priority_queue_number x + 1)\<rparr>) s
                 else s)
        in Ret () (upd_proc p (\<lambda>x. x\<lparr>p_start_time := 0, p_wait_ticks := 0\<rparr>) s))
      else Ret () s)"

section \<open>The queues as lists\<close>

text \<open>
  The contract of a bounded double-ended list; \<open>push_front\<close> needs one more free slot than
  \<open>push_back\<close>, because the shift moves one cell beyond the new contents.
\<close>

locale deque =
  fixes wf :: "'q \<Rightarrow> bool" and items :: "'q \<Rightarrow> 'a list" and elem :: "'a \<Rightarrow> bool" and cap :: nat
    and push_back :: "'a \<Rightarrow> 'q \<Rightarrow> 'q option" and push_front :: "'a \<Rightarrow> 'q \<Rightarrow> 'q option"
    and pop_front :: "'q \<Rightarrow> 'q"
  assumes push_back: "wf q \<Longrightarrow> elem x \<Longrightarrow> length (items q) < cap \<Longrightarrow>
      \<exists>q'. push_back x q = Some q' \<and> wf q' \<and> items q' = items q @ [x]"
    and push_front: "wf q \<Longrightarrow> elem x \<Longrightarrow> length (items q) + 1 < cap \<Longrightarrow>
      \<exists>q'. push_front x q = Some q' \<and> wf q' \<and> items q' = x # items q"
    and pop_front: "wf q \<Longrightarrow> items q = x # xs \<Longrightarrow> elem x \<and> wf (pop_front q) \<and> items (pop_front q) = xs"
begin

lemma requeue:
  assumes "wf q" "items q = x # xs" "length (items q) < cap"
  shows "\<exists>q'. push_front x (pop_front q) = Some q' \<and> wf q' \<and> items q' = items q"
  using push_front [of "pop_front q" x] pop_front [OF assms(1,2)] assms(2,3) by auto

end

definition q_wf :: "mlfq_q \<Rightarrow> bool" where
  "q_wf q \<longleftrightarrow> length (q_mlfq_queue q) = NPROC \<and> 0 \<le> q_tail q \<and> q_tail q \<le> int NPROC \<and>
     q_length q = q_tail q \<and>
     (\<forall>k < nat (q_tail q). \<exists>p < NPROC. q_mlfq_queue q ! k = Some p)"

definition qlist :: "mlfq_q \<Rightarrow> nat list" where
  "qlist q = map the (take (nat (q_tail q)) (q_mlfq_queue q))"

lemma small_int32: "\<bar>x\<bar> \<le> 1000 \<Longrightarrow> wrap32 x = x"
  by (rule wrap32_id) (auto simp: int32_def)

lemma q_wf_length: "q_wf q \<Longrightarrow> int (length (qlist q)) = q_tail q"
  by (auto simp: q_wf_def qlist_def)

lemma qlist_elems: "q_wf q \<Longrightarrow> p \<in> set (qlist q) \<Longrightarrow> p < NPROC"
  by (force simp: q_wf_def qlist_def in_set_conv_nth)

lemma q_store_ok:
  assumes "q_wf q" "p < NPROC" "length (qlist q) < NPROC"
  shows "\<exists>q'. q_store p q = Some q' \<and> q_wf q' \<and> qlist q' = qlist q @ [p] \<and>
    q_priority_queue_ticks q' = q_priority_queue_ticks q"
proof -
  obtain n where n: "q_tail q = int n" "n < NPROC" "length (q_mlfq_queue q) = NPROC"
    using assms q_wf_length [OF assms(1)] by (metis of_nat_less_iff q_wf_def)
  let ?a = "(q_mlfq_queue q)[n := Some p]"
  have w: "wrap32 (int n + 1) = int (Suc n)" using n(2) by (simp add: small_int32 NPROC_def)
  have "take (Suc n) ?a = take n (q_mlfq_queue q) @ [Some p]"
    using n by (simp add: take_Suc_conv_app_nth)
  then show ?thesis
    using assms n w
    by (auto simp: q_store_def arr_put_def q_wf_def qlist_def less_Suc_eq nth_list_update simp del: of_nat_Suc)
qed

lemma shift_up_Some:
  "n < length a \<Longrightarrow> \<exists>b. shift_up n a = Some b \<and> length b = length a \<and>
     (\<forall>k < length a. b ! k = (if 0 < k \<and> k \<le> n then a ! (k - 1) else a ! k))"
proof (induction n arbitrary: a)
  case 0
  then show ?case by simp
next
  case (Suc n)
  let ?a = "a[n + 1 := a ! n]"
  obtain b where b: "shift_up n ?a = Some b" "length b = length a"
    "\<forall>k < length a. b ! k = (if 0 < k \<and> k \<le> n then ?a ! (k - 1) else ?a ! k)"
    using Suc.IH [of ?a] Suc.prems by auto
  have "b ! k = (if 0 < k \<and> k \<le> Suc n then a ! (k - 1) else a ! k)" if "k < length a" for k
    using b(3) [rule_format, OF that] that
    by (cases "k = Suc n") (auto simp: nth_list_update)
  then show ?case using b(1,2) Suc.prems by simp
qed

lemma shift_up_None: "length a = n \<Longrightarrow> 0 < n \<Longrightarrow> shift_up n a = None"
  by (cases n) simp_all

lemma q_unshift_ok:
  assumes "q_wf q" "p < NPROC" "length (qlist q) + 1 < NPROC"
  shows "\<exists>q'. q_unshift p q = Some q' \<and> q_wf q' \<and> qlist q' = p # qlist q \<and>
    q_priority_queue_ticks q' = q_priority_queue_ticks q"
proof -
  obtain n where n: "q_tail q = int n" "n + 1 < NPROC" "length (q_mlfq_queue q) = NPROC" "q_length q = int n"
    using assms q_wf_length [OF assms(1)] by (metis of_nat_eq_iff q_wf_def)
  have w: "wrap32 (int n + 1) = int (Suc n)" using n(2) by (simp add: small_int32 NPROC_def)
  obtain b where b: "shift_up (Suc n) (q_mlfq_queue q) = Some b" "length b = NPROC"
    "\<forall>k < NPROC. b ! k = (if 0 < k \<and> k \<le> Suc n then q_mlfq_queue q ! (k - 1) else q_mlfq_queue q ! k)"
    using shift_up_Some [of "Suc n" "q_mlfq_queue q"] n by auto
  have t: "take (Suc n) (b[0 := Some p]) = Some p # take n (q_mlfq_queue q)"
    by (rule nth_equalityI) (use b n in \<open>auto simp: nth_Cons' nth_list_update\<close>)
  have e: "\<exists>r < NPROC. b[0 := Some p] ! k = Some r" if "k < Suc n" for k
  proof (cases k)
    case 0
    then show ?thesis using b(2) assms(2) n by simp
  next
    case (Suc j)
    then have "b[0 := Some p] ! k = q_mlfq_queue q ! j" using b that n by simp
    then show ?thesis using assms(1) n Suc that by (auto simp: q_wf_def)
  qed
  show ?thesis using n w b(1,2) t e
    by (auto simp: q_unshift_def arr_put_def q_wf_def qlist_def Let_def simp del: of_nat_Suc)
qed

lemma shift_down_nth:
  assumes "length a = NPROC" "k < NPROC"
  shows "shift_down a ! k = (if k < NPROC - 1 then a ! (k + 1) else a ! k)"
proof -
  have "length (fold (\<lambda>i a. a[i := a ! (i + 1)]) [0..<n] a) = NPROC \<and>
    (\<forall>k < NPROC. fold (\<lambda>i a. a[i := a ! (i + 1)]) [0..<n] a ! k = (if k < n then a ! (k + 1) else a ! k))"
    if "n < NPROC" for n
    using that
  proof (induction n)
    case 0
    then show ?case using assms(1) by simp
  next
    case (Suc n)
    then show ?case by (auto simp: nth_list_update less_Suc_eq)
  qed
  from this [of "NPROC - 1"] show ?thesis using assms(2) by (simp add: shift_down_def)
qed

lemma length_shift_down [simp]: "length (shift_down a) = length a"
proof -
  have "length (fold (\<lambda>i a. a[i := a ! (i + 1)]) is a) = length a" for "is" :: "nat list"
    by (induction "is" arbitrary: a) simp_all
  then show ?thesis by (simp add: shift_down_def)
qed

lemma q_shift_ok:
  assumes "q_wf q" "qlist q = p # ps"
  shows "p < NPROC" "q_mlfq_queue q ! 0 = Some p" "q_wf (q_shift q)" "qlist (q_shift q) = ps"
    "q_priority_queue_ticks (q_shift q) = q_priority_queue_ticks q"
proof -
  show p: "p < NPROC" using qlist_elems [OF assms(1)] assms(2) by simp
  obtain n where n: "q_tail q = int (Suc n)" "Suc n \<le> NPROC" "length (q_mlfq_queue q) = NPROC"
      "q_length q = int (Suc n)"
    using q_wf_length [OF assms(1)] assms by (intro that [of "length ps"]) (auto simp: q_wf_def)
  have w: "wrap32 (int (Suc n) - 1) = int n" using n(2) by (simp add: small_int32 NPROC_def)
  let ?a = "shift_down ((q_mlfq_queue q)[0 := None])"
  have nth: "?a ! k = q_mlfq_queue q ! Suc k" if "k < n" for k
  proof -
    have "k < NPROC - 1" "k < NPROC" using n(2) that by linarith+
    then show ?thesis using shift_down_nth [of "(q_mlfq_queue q)[0 := None]" k] n(3) by simp
  qed
  have tl: "take n ?a = tl (take (Suc n) (q_mlfq_queue q))"
    by (rule nth_equalityI) (use n nth in \<open>auto simp: nth_tl\<close>)
  have wf: "\<exists>r < NPROC. q_mlfq_queue q ! k = Some r" if "k < Suc n" for k
    using assms(1) n that by (simp add: q_wf_def)
  show "q_mlfq_queue q ! 0 = Some p"
    using assms(2) n wf [of 0] unfolding qlist_def
    by (cases "q_mlfq_queue q") (auto simp del: of_nat_Suc)
  show "q_wf (q_shift q)" unfolding q_wf_def q_shift_def using n w nth wf by (auto simp del: of_nat_Suc)
  show "qlist (q_shift q) = ps"
    using assms(2) n w tl by (simp add: qlist_def q_shift_def map_tl del: of_nat_Suc)
qed (simp add: q_shift_def)

interpretation mlfq: deque q_wf qlist "\<lambda>p. p < NPROC" NPROC q_store q_unshift q_shift
proof
  show "\<exists>q'. q_store x q = Some q' \<and> q_wf q' \<and> qlist q' = qlist q @ [x]"
    if "q_wf q" "x < NPROC" "length (qlist q) < NPROC" for q x
    using q_store_ok [OF that] by blast
  show "\<exists>q'. q_unshift x q = Some q' \<and> q_wf q' \<and> qlist q' = x # qlist q"
    if "q_wf q" "x < NPROC" "length (qlist q) + 1 < NPROC" for q x
    using q_unshift_ok [OF that] by blast
  show "x < NPROC \<and> q_wf (q_shift q) \<and> qlist (q_shift q) = xs"
    if "q_wf q" "qlist q = x # xs" for q x xs
    using q_shift_ok [OF that] by blast
qed

section \<open>The invariant of the queues\<close>

text \<open>
  Every queue is well formed and holds each of its processes once; a process is in the queue of
  its own priority exactly when its \<^verbatim>\<open>status_queue\<close> is 1.
\<close>

abbreviation ql :: "'z kproc_scheme \<Rightarrow> nat \<Rightarrow> nat list" where
  "ql s i \<equiv> qlist (queue s i)"

definition mlfq_inv :: "'z kproc_scheme \<Rightarrow> bool" where
  "mlfq_inv s \<longleftrightarrow>
     (\<forall>i < queue_size. q_wf (queue s i) \<and> distinct (ql s i) \<and>
        (\<forall>p \<in> set (ql s i). p_status_queue (procs s p) = 1 \<and> p_priority_queue_number (procs s p) = int i)) \<and>
     (\<forall>p < NPROC. in_queues (p_priority_queue_number (procs s p)) \<and>
        (p_status_queue (procs s p) = 0 \<or>
         p_status_queue (procs s p) = 1 \<and> p \<in> set (ql s (nat (p_priority_queue_number (procs s p))))))"

lemma mlfq_invD:
  assumes "mlfq_inv s"
  shows "i < queue_size \<Longrightarrow> q_wf (queue s i)" "i < queue_size \<Longrightarrow> distinct (ql s i)"
    "i < queue_size \<Longrightarrow> p \<in> set (ql s i) \<Longrightarrow>
       p < NPROC \<and> p_status_queue (procs s p) = 1 \<and> p_priority_queue_number (procs s p) = int i"
    "p < NPROC \<Longrightarrow> in_queues (p_priority_queue_number (procs s p))"
    "p < NPROC \<Longrightarrow> p_status_queue (procs s p) = 0 \<or>
       p_status_queue (procs s p) = 1 \<and> p \<in> set (ql s (nat (p_priority_queue_number (procs s p))))"
  using assms qlist_elems unfolding mlfq_inv_def by blast+

lemma missing_length:
  assumes "distinct xs" "\<And>x. x \<in> set xs \<Longrightarrow> x < n" "p < n" "p \<notin> set xs"
  shows "length xs < (n :: nat)"
proof -
  have "set xs \<subseteq> {..<n} - {p}" using assms by auto
  then have "card (set xs) \<le> card ({..<n} - {p})" by (intro card_mono) auto
  then show ?thesis using assms(1,3) by (simp add: distinct_card)
qed

lemma upd_queue_fields [simp]:
  "hart (upd_queue i q s) = hart s" "csr (upd_queue i q s) = csr s" "cpus (upd_queue i q s) = cpus s"
  "locks (upd_queue i q s) = locks s" "procs (upd_queue i q s) = procs s"
  "queue (upd_queue i q s) = (queue s)(i := q)"
  by (simp_all add: upd_queue_def)

text \<open>One queue and the bookkeeping of one process change together.\<close>

lemma mlfq_inv_upd:
  assumes inv: "mlfq_inv s" and i: "i < queue_size" and p: "p < NPROC" "p_priority_queue_number (procs s p) = int i"
    and q: "q_wf q" "distinct (qlist q)" "set (qlist q) - {p} = set (ql s i) - {p}"
    and f: "p_priority_queue_number (f (procs s p)) = int i"
      "p_status_queue (f (procs s p)) = (if p \<in> set (qlist q) then 1 else 0)"
  shows "mlfq_inv (upd_proc p f (upd_queue i q s))"
proof -
  let ?t = "upd_proc p f (upd_queue i q s)"
  have m: "r \<in> set (qlist q) \<longleftrightarrow> r \<in> set (ql s i)" if "r \<noteq> p" for r using q(3) that by blast
  have other: "p \<notin> set (ql s j)" if "j < queue_size" "j \<noteq> i" for j
    using mlfq_invD(3) [OF inv that(1)] p(2) that(2) by auto
  have 1: "q_wf (queue ?t j) \<and> distinct (ql ?t j) \<and>
      (\<forall>r \<in> set (ql ?t j). p_status_queue (procs ?t r) = 1 \<and> p_priority_queue_number (procs ?t r) = int j)"
    if j: "j < queue_size" for j
  proof (cases "j = i")
    case True
    then show ?thesis using q(1,2) f m mlfq_invD(3) [OF inv i] by auto
  next
    case False
    then show ?thesis using mlfq_invD(1-3) [OF inv j] other [OF j] by auto
  qed
  have 2: "in_queues (p_priority_queue_number (procs ?t r)) \<and>
        (p_status_queue (procs ?t r) = 0 \<or>
         p_status_queue (procs ?t r) = 1 \<and> r \<in> set (ql ?t (nat (p_priority_queue_number (procs ?t r)))))"
    if r: "r < NPROC" for r
  proof (cases "r = p")
    case True
    then show ?thesis using f i by (simp add: in_queues_def)
  next
    case False
    then show ?thesis using mlfq_invD(4,5) [OF inv r] m [OF False] by auto
  qed
  show ?thesis unfolding mlfq_inv_def using 1 2 by blast
qed

text \<open>What the selection code leaves unchanged.\<close>

definition mlfq_frame :: "'z kproc_scheme \<Rightarrow> 'z kproc_scheme \<Rightarrow> bool" where
  "mlfq_frame s t \<longleftrightarrow> hart t = hart s \<and> csr t = csr s \<and> cpus t = cpus s \<and> locks t = locks s \<and>
     (\<forall>q. \<exists>a b. procs t q = (procs s q)\<lparr>p_status_queue := a, p_number_process := b\<rparr>)"

lemma mlfq_frame_refl [simp]: "mlfq_frame s s"
proof -
  have "procs s q = (procs s q)\<lparr>p_status_queue := p_status_queue (procs s q),
      p_number_process := p_number_process (procs s q)\<rparr>" for q by simp
  then show ?thesis unfolding mlfq_frame_def by blast
qed

lemma mlfq_frame_trans:
  assumes "mlfq_frame s t" "mlfq_frame t u"
  shows "mlfq_frame s u"
proof -
  have "\<exists>a b. procs u q = (procs s q)\<lparr>p_status_queue := a, p_number_process := b\<rparr>" for q
  proof -
    obtain a b c d where "procs t q = (procs s q)\<lparr>p_status_queue := a, p_number_process := b\<rparr>"
      "procs u q = (procs t q)\<lparr>p_status_queue := c, p_number_process := d\<rparr>"
      using assms unfolding mlfq_frame_def by metis
    then show ?thesis by simp blast
  qed
  then show ?thesis using assms unfolding mlfq_frame_def by simp
qed

lemma mlfq_frameD:
  assumes "mlfq_frame s t"
  shows "p_state (procs t q) = p_state (procs s q)"
    "p_priority_queue_number (procs t q) = p_priority_queue_number (procs s q)"
    "p_start_time (procs t q) = p_start_time (procs s q)" "sched_ok t = sched_ok s" "hart t = hart s"
proof -
  obtain a b where "procs t q = (procs s q)\<lparr>p_status_queue := a, p_number_process := b\<rparr>"
    using assms unfolding mlfq_frame_def by blast
  then show "p_state (procs t q) = p_state (procs s q)"
    "p_priority_queue_number (procs t q) = p_priority_queue_number (procs s q)"
    "p_start_time (procs t q) = p_start_time (procs s q)" by simp_all
  show "sched_ok t = sched_ok s" "hart t = hart s" using assms
    by (simp_all add: mlfq_frame_def sched_ok_def proc_locks_free_def lock_free_def mycpu_def cpuid_def)
qed

lemma mlfq_frame_upd:
  assumes "f (procs s p) = (procs s p)\<lparr>p_status_queue := a, p_number_process := b\<rparr>"
  shows "mlfq_frame s (upd_proc p f (upd_queue i q s))"
proof -
  have "\<exists>a b. procs (upd_proc p f (upd_queue i q s)) r = (procs s r)\<lparr>p_status_queue := a, p_number_process := b\<rparr>" for r
    using assms mlfq_frame_refl [of s] unfolding mlfq_frame_def by (cases "r = p") auto
  then show ?thesis unfolding mlfq_frame_def by simp
qed

section \<open>Admission\<close>

definition admits :: "'z kproc_scheme \<Rightarrow> nat \<Rightarrow> bool" where
  "admits s p \<longleftrightarrow> p_state (procs s p) = RUNNABLE \<and> p_status_queue (procs s p) = 0"

lemma mlfq_admit_ok:
  assumes inv: "mlfq_inv s" and p: "p < NPROC"
  obtains t where "mlfq_admit p s = Ret () t" "mlfq_inv t" "mlfq_frame s t"
    "\<And>i. ql t i = ql s i @ (if admits s p \<and> p_priority_queue_number (procs s p) = int i then [p] else [])"
    "\<And>q. p_status_queue (procs t q) = (if q = p \<and> admits s p then 1 else p_status_queue (procs s q))"
proof (cases "admits s p")
  case False
  then show thesis using inv by (intro that [of s]) (auto simp: mlfq_admit_def admits_def)
next
  case True
  let ?n = "p_priority_queue_number (procs s p)"
  obtain i where i: "?n = int i" "i < queue_size"
    using mlfq_invD(4) [OF inv p] by (metis in_queues_def nonneg_int_cases of_nat_less_iff)
  have out: "p \<notin> set (ql s i)" using mlfq_invD(3) [OF inv i(2)] True by (auto simp: admits_def)
  have len: "length (ql s i) < NPROC"
    using missing_length [of "ql s i" NPROC p] mlfq_invD(2,3) [OF inv i(2)] p out by blast
  obtain q where q: "q_store p (queue s i) = Some q" "q_wf q" "qlist q = ql s i @ [p]"
    using q_store_ok [OF mlfq_invD(1) [OF inv i(2)] p len] by blast
  let ?f = "\<lambda>x. x\<lparr>p_priority_queue_number := int i, p_status_queue := 1, p_number_process := wrap32 (q_tail q - 1)\<rparr>"
  let ?t = "upd_proc p ?f (upd_queue i q s)"
  have "q_tail (queue s i) < 100"
    using q_wf_length [OF mlfq_invD(1) [OF inv i(2)]] len by (simp add: NPROC_def)
  then have 1: "mlfq_admit p s = Ret () ?t"
    using True i q(1) by (simp add: mlfq_admit_def admits_def in_queues_def Let_def)
  have 2: "mlfq_inv ?t"
    by (rule mlfq_inv_upd [OF inv i(2) p i(1) q(2)]) (use q(3) out mlfq_invD(2) [OF inv i(2)] in auto)
  have "?f (procs s p) = (procs s p)\<lparr>p_status_queue := 1, p_number_process := wrap32 (q_tail q - 1)\<rparr>"
    using i(1) [symmetric] by simp
  then have 3: "mlfq_frame s ?t" by (rule mlfq_frame_upd)
  show thesis by (rule that [OF 1 2 3]) (use True i q(3) in auto)
qed

text \<open>The processes the first loop appends to queue \<open>i\<close>, in table order.\<close>

definition admitted :: "'z kproc_scheme \<Rightarrow> nat \<Rightarrow> nat \<Rightarrow> nat list" where
  "admitted s n i = filter (\<lambda>p. admits s p \<and> p_priority_queue_number (procs s p) = int i) [0..<n]"

lemma mlfq_admission:
  assumes "mlfq_inv s" "n \<le> NPROC"
  shows "\<exists>t. for_each [0..<n] mlfq_admit s = Ret () t \<and> mlfq_inv t \<and> mlfq_frame s t \<and>
    (\<forall>i. ql t i = ql s i @ admitted s n i) \<and>
    (\<forall>q. p_status_queue (procs t q) = (if q < n \<and> admits s q then 1 else p_status_queue (procs s q)))"
  using assms(2)
proof (induction n)
  case 0
  then show ?case using assms(1) by (simp add: admitted_def)
next
  case (Suc n)
  then obtain t where t: "for_each [0..<n] mlfq_admit s = Ret () t" "mlfq_inv t" "mlfq_frame s t"
    "\<And>i. ql t i = ql s i @ admitted s n i"
    "\<And>q. p_status_queue (procs t q) = (if q < n \<and> admits s q then 1 else p_status_queue (procs s q))"
    by auto
  have n: "n < NPROC" using Suc.prems by simp
  have a: "admits t n = admits s n" using mlfq_frameD(1) [OF t(3), of n] t(5) [of n] by (simp add: admits_def)
  obtain u where u: "mlfq_admit n t = Ret () u" "mlfq_inv u" "mlfq_frame t u"
    "\<And>i. ql u i = ql t i @ (if admits t n \<and> p_priority_queue_number (procs t n) = int i then [n] else [])"
    "\<And>q. p_status_queue (procs u q) = (if q = n \<and> admits t n then 1 else p_status_queue (procs t q))"
    using mlfq_admit_ok [OF t(2) n] by blast
  have "ql u i = ql s i @ admitted s (Suc n) i" for i
    using u(4) [of i] t(4) [of i] a mlfq_frameD(2) [OF t(3), of n] by (simp add: admitted_def)
  moreover have "p_status_queue (procs u q) =
      (if q < Suc n \<and> admits s q then 1 else p_status_queue (procs s q))" for q
    using u(5) [of q] t(5) [of q] a by (auto simp: less_Suc_eq)
  ultimately show ?case
    using t(1) u(1,2) mlfq_frame_trans [OF t(3) u(3)] by (simp add: for_each_append)
qed

section \<open>Draining a queue\<close>

text \<open>The contents of a queue without its leading processes that cannot run.\<close>

definition runnable_suffix :: "'z kproc_scheme \<Rightarrow> nat list \<Rightarrow> nat list" where
  "runnable_suffix s xs = dropWhile (\<lambda>q. p_state (procs s q) \<noteq> RUNNABLE) xs"

definition drained :: "'z kproc_scheme \<Rightarrow> nat list \<Rightarrow> nat option \<Rightarrow> nat option" where
  "drained s xs cur = (case runnable_suffix s xs of c # _ \<Rightarrow> Some c
     | [] \<Rightarrow> if xs = [] then cur else Some (last xs))"

lemma pop_ok:
  assumes inv: "mlfq_inv s" and i: "i < queue_size" and xs: "ql s i = c # xs"
  defines "t \<equiv> upd_proc c (\<lambda>x. x\<lparr>p_status_queue := 0\<rparr>) (upd_queue i (q_shift (queue s i)) s)"
  shows "pop (int i) s = Ret c t" "mlfq_inv t" "mlfq_frame s t" "ql t i = xs" "\<And>j. j \<noteq> i \<Longrightarrow> ql t j = ql s j"
    "c < NPROC" "p_priority_queue_number (procs s c) = int i"
    "\<And>q. p_status_queue (procs t q) = (if q = c then 0 else p_status_queue (procs s q))"
proof -
  note wf = mlfq_invD(1) [OF inv i] and q = q_shift_ok [OF mlfq_invD(1) [OF inv i] xs]
  have c: "p_priority_queue_number (procs s c) = int i" "c \<notin> set xs"
    using mlfq_invD(2,3) [OF inv i] xs by auto
  show "c < NPROC" "p_priority_queue_number (procs s c) = int i" by (rule q(1), rule c(1))
  have "0 < q_tail (queue s i)" using q_wf_length [OF wf] xs by simp
  then show "pop (int i) s = Ret c t" using i q(2) by (simp add: pop_def in_queues_def t_def)
  show "mlfq_inv t" unfolding t_def
    by (rule mlfq_inv_upd [OF inv i q(1) c(1) q(3)]) (use q(4) xs c mlfq_invD(2) [OF inv i] in auto)
  have "(procs s c)\<lparr>p_status_queue := 0\<rparr> =
      (procs s c)\<lparr>p_status_queue := 0, p_number_process := p_number_process (procs s c)\<rparr>" by simp
  then show "mlfq_frame s t" unfolding t_def by (rule mlfq_frame_upd)
  show "ql t i = xs" "\<And>j. j \<noteq> i \<Longrightarrow> ql t j = ql s j"
    "\<And>q. p_status_queue (procs t q) = (if q = c then 0 else p_status_queue (procs s q))"
    using q(4) by (simp_all add: t_def)
qed

lemma mlfq_refront_ok:
  assumes inv: "mlfq_inv s" and i: "i < queue_size" and c: "c < NPROC" "p_priority_queue_number (procs s c) = int i"
    and out: "p_status_queue (procs s c) = 0" and len: "length (ql s i) + 1 < NPROC"
  obtains t where "mlfq_refront c s = Ret () t" "mlfq_inv t" "mlfq_frame s t" "ql t i = c # ql s i"
    "\<And>j. j \<noteq> i \<Longrightarrow> ql t j = ql s j"
    "\<And>q. p_status_queue (procs t q) = (if q = c then 1 else p_status_queue (procs s q))"
proof -
  have new: "c \<notin> set (ql s i)" using mlfq_invD(3) [OF inv i] out by auto
  obtain q where q: "q_unshift c (queue s i) = Some q" "q_wf q" "qlist q = c # ql s i"
    using q_unshift_ok [OF mlfq_invD(1) [OF inv i] c(1) len] by blast
  let ?t = "upd_proc c (\<lambda>x. x\<lparr>p_status_queue := 1, p_number_process := 0\<rparr>) (upd_queue i q s)"
  have 1: "mlfq_refront c s = Ret () ?t" using q(1) c i by (simp add: mlfq_refront_def in_queues_def)
  have 2: "mlfq_inv ?t"
    by (rule mlfq_inv_upd [OF inv i c q(2)]) (use q(3) new c mlfq_invD(2) [OF inv i] in auto)
  have 3: "mlfq_frame s ?t" by (rule mlfq_frame_upd) simp
  show thesis by (rule that [OF 1 2 3]) (use q(3) in simp_all)
qed

declare mlfq_drain.simps [simp del]

lemma mlfq_drain_ok:
  assumes "mlfq_inv s" "i < queue_size" "ql s i = xs" "length xs < NPROC"
  shows "\<exists>t. mlfq_drain i cur s = Ret (drained s xs cur) t \<and> mlfq_inv t \<and> mlfq_frame s t \<and>
    ql t i = runnable_suffix s xs \<and> (\<forall>j. j \<noteq> i \<longrightarrow> ql t j = ql s j) \<and>
    (\<forall>q. q \<notin> set xs \<or> p_state (procs s q) = RUNNABLE \<longrightarrow> p_status_queue (procs t q) = p_status_queue (procs s q))"
  using assms
proof (induction xs arbitrary: s cur)
  case Nil
  then have "q_tail (queue s i) \<le> 0" using q_wf_length [OF mlfq_invD(1) [OF Nil(1,2)]] by simp
  then have "mlfq_drain i cur s = Ret cur s" by (subst mlfq_drain.simps) simp
  then show ?case using Nil by (simp add: drained_def runnable_suffix_def)
next
  case (Cons c xs)
  let ?t = "upd_proc c (\<lambda>x. x\<lparr>p_status_queue := 0\<rparr>) (upd_queue i (q_shift (queue s i)) s)"
  note pop = pop_ok [OF Cons.prems(1-3)]
  have tail: "\<not> q_tail (queue s i) \<le> 0"
    using q_wf_length [OF mlfq_invD(1) [OF Cons.prems(1,2)]] Cons.prems(3) by simp
  have st: "p_state (procs ?t q) = p_state (procs s q)" for q by (rule mlfq_frameD(1) [OF pop(3)])
  have one: "mlfq_drain i cur s =
      (if p_state (procs s c) = RUNNABLE then bnd (mlfq_refront c ?t) (\<lambda>_ s. Ret (Some c) s)
       else mlfq_drain i (Some c) ?t)"
    using tail pop(1) by (subst mlfq_drain.simps) (simp add: upd_proc_upd_proc)
  have c1: "p_status_queue (procs s c) = 1" "c \<notin> set xs"
    using mlfq_invD(2,3) [OF Cons.prems(1,2)] Cons.prems(3) by auto
  show ?case
  proof (cases "p_state (procs s c) = RUNNABLE")
    case True
    have "p_priority_queue_number (procs ?t c) = int i" "p_status_queue (procs ?t c) = 0" "length (ql ?t i) + 1 < NPROC"
      using pop(4,7) Cons.prems(4) by simp_all
    from mlfq_refront_ok [OF pop(2) Cons.prems(2) pop(6) this]
    obtain u where u: "mlfq_refront c ?t = Ret () u" "mlfq_inv u" "mlfq_frame ?t u" "ql u i = c # ql ?t i"
      "\<And>j. j \<noteq> i \<Longrightarrow> ql u j = ql ?t j"
      "\<And>q. p_status_queue (procs u q) = (if q = c then 1 else p_status_queue (procs ?t q))" by blast
    have "runnable_suffix s (c # xs) = c # xs" using True by (simp add: runnable_suffix_def)
    then show ?thesis using one u True pop(4,5,8) mlfq_frame_trans [OF pop(3) u(3)] c1
      by (intro exI [of _ u]) (simp add: drained_def)
  next
    case False
    have "length xs < NPROC" using Cons.prems(4) by simp
    from Cons.IH [OF pop(2) Cons.prems(2) pop(4) this, of "Some c"]
    obtain u where u: "mlfq_drain i (Some c) ?t = Ret (drained ?t xs (Some c)) u" "mlfq_inv u" "mlfq_frame ?t u"
      "ql u i = runnable_suffix ?t xs" "\<And>j. j \<noteq> i \<Longrightarrow> ql u j = ql ?t j"
      "\<And>q. q \<notin> set xs \<or> p_state (procs ?t q) = RUNNABLE \<Longrightarrow> p_status_queue (procs u q) = p_status_queue (procs ?t q)"
      by blast
    have rs: "runnable_suffix ?t xs = runnable_suffix s xs" "runnable_suffix s (c # xs) = runnable_suffix s xs"
      using st False by (simp_all add: runnable_suffix_def)
    have dr: "drained ?t xs (Some c) = drained s (c # xs) cur"
      using rs by (auto simp: drained_def split: list.splits)
    have "p_status_queue (procs u q) = p_status_queue (procs s q)"
      if "q \<notin> set (c # xs) \<or> p_state (procs s q) = RUNNABLE" for q
      using u(6) [of q] st [of q] pop(8) [of q] that False by auto
    then show ?thesis using one u(1,2,4,5) False rs dr pop(5) mlfq_frame_trans [OF pop(3) u(3)]
      by (intro exI [of _ u]) auto
  qed
qed

section \<open>Selection\<close>

text \<open>Queue \<open>i\<close> as the second loop finds it.\<close>

definition lined_up :: "'z kproc_scheme \<Rightarrow> nat \<Rightarrow> nat list" where
  "lined_up s i = ql s i @ admitted s NPROC i"

definition pick_queue :: "nat \<Rightarrow> nat option \<Rightarrow> 'z kproc_scheme \<Rightarrow> ('z kproc_scheme, nat option) outcome" where
  "pick_queue i cur s = (if cur \<noteq> None then Ret cur s else mlfq_drain i cur s)"

lemma pick_queue_skip: "for_acc is pick_queue (Some c) s = Ret (Some c) s"
  by (induction "is") (simp_all add: pick_queue_def)

lemma pick_queue_empty:
  "mlfq_inv s \<Longrightarrow> i < queue_size \<Longrightarrow> ql s i = [] \<Longrightarrow> pick_queue i None s = Ret None s"
  using q_wf_length [OF mlfq_invD(1), of s i] by (simp add: pick_queue_def mlfq_drain.simps)

lemma pick_queues_empty:
  "mlfq_inv s \<Longrightarrow> k \<le> queue_size \<Longrightarrow> (\<And>i. i < k \<Longrightarrow> ql s i = []) \<Longrightarrow> for_acc [0..<k] pick_queue None s = Ret None s"
  by (induction k) (simp_all add: for_acc_append pick_queue_empty)

lemma pick_queues_first:
  assumes "mlfq_inv s" "j < queue_size" "\<And>i. i < j \<Longrightarrow> ql s i = []"
    and "mlfq_drain j None s = Ret (Some c) t"
  shows "for_acc [0..<queue_size] pick_queue None s = Ret (Some c) t"
proof -
  have "pick_queue j None s = Ret (Some c) t" using assms(4) by (simp add: pick_queue_def)
  then show ?thesis
    using pick_queues_empty [OF assms(1), of j] assms(2,3)
    by (simp add: upt_split [OF assms(2)] for_acc_append pick_queue_skip)
qed

lemma drained_Some: "xs \<noteq> [] \<Longrightarrow> \<exists>c. drained s xs None = Some c"
  by (auto simp: drained_def split: list.split)

lemma runnable_in_suffix: "q \<in> set xs \<Longrightarrow> p_state (procs s q) = RUNNABLE \<Longrightarrow> q \<in> set (runnable_suffix s xs)"
  by (induction xs) (auto simp: runnable_suffix_def)

text \<open>A slot that is in no queue and cannot enter one: it keeps the arrays from filling up.\<close>

definition idle_slot :: "'z kproc_scheme \<Rightarrow> nat \<Rightarrow> bool" where
  "idle_slot s p \<longleftrightarrow> p < NPROC \<and> p_state (procs s p) \<noteq> RUNNABLE \<and> p_status_queue (procs s p) = 0"

definition selected_from :: "'z kproc_scheme \<Rightarrow> nat option" where
  "selected_from s = find (\<lambda>i. lined_up s i \<noteq> []) [0..<queue_size]"

lemma mlfq_select_ok:
  assumes inv: "mlfq_inv s" and slot: "idle_slot s p"
  shows "\<exists>r t. mlfq_select s = Ret r t \<and> mlfq_inv t \<and> mlfq_frame s t \<and> idle_slot t p \<and>
    (\<forall>q < NPROC. p_state (procs s q) = RUNNABLE \<longrightarrow> p_status_queue (procs t q) = 1) \<and>
    (case selected_from s of
       None \<Rightarrow> r = None \<and> (\<forall>i < queue_size. ql t i = [])
     | Some j \<Rightarrow> r = drained s (lined_up s j) None \<and> ql t j = runnable_suffix s (lined_up s j) \<and>
         (\<forall>i. i \<noteq> j \<longrightarrow> ql t i = lined_up s i))"
proof -
  obtain u where u: "for_each [0..<NPROC] mlfq_admit s = Ret () u" "mlfq_inv u" "mlfq_frame s u"
    "\<And>i. ql u i = lined_up s i"
    "\<And>q. p_status_queue (procs u q) = (if q < NPROC \<and> admits s q then 1 else p_status_queue (procs s q))"
    using mlfq_admission [OF inv order_refl] unfolding lined_up_def by blast
  have run1: "p_status_queue (procs u q) = 1" if "q < NPROC" "p_state (procs s q) = RUNNABLE" for q
    using mlfq_invD(5) [OF inv that(1)] that u(5) [of q] by (auto simp: admits_def)
  have slot_u: "idle_slot u p"
    using slot u(5) [of p] mlfq_frameD(1) [OF u(3), of p] by (simp add: idle_slot_def admits_def)
  have sel: "mlfq_select s = for_acc [0..<queue_size] pick_queue None u"
    using u(1) by (simp add: mlfq_select_def pick_queue_def [abs_def])
  show ?thesis
  proof (cases "selected_from s")
    case None
    then have "ql u i = []" if "i < queue_size" for i
      using that u(4) by (simp add: selected_from_def find_upt_None)
    then show ?thesis using None sel pick_queues_empty [OF u(2) order_refl] u(2,3) slot_u run1 by simp
  next
    case (Some j)
    then have j: "j < queue_size" "lined_up s j \<noteq> []" "\<And>i. i < j \<Longrightarrow> ql u i = []"
      using u(4) by (auto simp: selected_from_def find_upt_Some)
    have "p \<notin> set (ql u j)" using mlfq_invD(3) [OF u(2) j(1), of p] slot_u by (auto simp: idle_slot_def)
    then have len: "length (lined_up s j) < NPROC"
      using missing_length [of "ql u j" NPROC p] mlfq_invD(2,3) [OF u(2) j(1)] slot_u u(4)
      by (auto simp: idle_slot_def)
    from mlfq_drain_ok [OF u(2) j(1) u(4) len, of None]
    obtain t where t: "mlfq_drain j None u = Ret (drained u (lined_up s j) None) t" "mlfq_inv t" "mlfq_frame u t"
      "ql t j = runnable_suffix u (lined_up s j)" "\<And>i. i \<noteq> j \<Longrightarrow> ql t i = ql u i"
      "\<And>q. q \<notin> set (lined_up s j) \<or> p_state (procs u q) = RUNNABLE \<Longrightarrow> p_status_queue (procs t q) = p_status_queue (procs u q)"
      by blast
    have rs: "runnable_suffix u xs = runnable_suffix s xs" "drained u xs c = drained s xs c" for xs c
      using mlfq_frameD(1) [OF u(3)] by (simp_all add: runnable_suffix_def drained_def)
    have "mlfq_select s = Ret (drained s (lined_up s j) None) t"
      using pick_queues_first [OF u(2) j(1,3)] t(1) drained_Some [OF j(2), of u] sel rs by auto
    moreover have "idle_slot t p"
      using slot_u t(6) [of p] \<open>p \<notin> set (ql u j)\<close> u(4) mlfq_frameD(1) [OF t(3), of p] by (simp add: idle_slot_def)
    ultimately show ?thesis
      using Some t(2,4,5,6) u(4) rs run1 mlfq_frame_trans [OF u(3) t(3)] mlfq_frameD(1) [OF u(3)]
      by (intro exI [of _ "drained s (lined_up s j) None"] exI [of _ t]) simp
  qed
qed

lemma runnable_lined_up:
  assumes "mlfq_inv s" "q < NPROC" "p_state (procs s q) = RUNNABLE"
  shows "nat (p_priority_queue_number (procs s q)) < queue_size"
    "q \<in> set (lined_up s (nat (p_priority_queue_number (procs s q))))"
  using mlfq_invD(4,5) [OF assms(1,2)] assms(2,3)
  by (auto simp: in_queues_def lined_up_def admitted_def admits_def)

lemma lined_up_prio:
  assumes "mlfq_inv s" "i < queue_size" "q \<in> set (lined_up s i)"
  shows "q < NPROC \<and> p_priority_queue_number (procs s q) = int i"
  using mlfq_invD(3) [OF assms(1,2)] assms(3) by (auto simp: lined_up_def admitted_def)

lemma drained_runnable:
  assumes "drained s xs None = Some c" "p_state (procs s c) = RUNNABLE"
  shows "find (\<lambda>q. p_state (procs s q) = RUNNABLE) xs = Some c"
proof (cases "runnable_suffix s xs")
  case Nil
  then have "c \<in> set xs" using assms(1) by (auto simp: drained_def split: if_splits)
  then show ?thesis using runnable_in_suffix [of c xs s] assms(2) Nil by simp
next
  case (Cons d ys)
  then have "d = c" using assms(1) by (simp add: drained_def)
  with Cons show ?thesis unfolding runnable_suffix_def
    by (induction xs) (auto split: if_splits)
qed

lemma find_in: "find P xs = Some c \<Longrightarrow> c \<in> set xs \<and> P c"
  by (auto simp: find_Some_iff)

lemma intr_on_mlfq [simp]:
  "mlfq_inv (intr_on s) = mlfq_inv s" "lined_up (intr_on s) = lined_up s" "idle_slot (intr_on s) = idle_slot s"
  "selected_from (intr_on s) = selected_from s" "drained (intr_on s) = drained s"
  "runnable_suffix (intr_on s) = runnable_suffix s"
  by (simp_all add: mlfq_inv_def lined_up_def admitted_def admits_def idle_slot_def selected_from_def
      drained_def runnable_suffix_def fun_eq_iff)

text \<open>One pass of the scheduler, in terms of the lists.\<close>

lemma scheduler_mlfq_ok:
  assumes inv: "mlfq_inv s" and slot: "idle_slot s p" and ok: "sched_ok s" "run_ok run"
  obtains (dispatched) c t j where "scheduler_mlfq run s = Ret [c] t" "sched_ok t" "selected_from s = Some j"
      "c < NPROC" "p_state (procs s c) = RUNNABLE"
      "find (\<lambda>q. p_state (procs s q) = RUNNABLE) (lined_up s j) = Some c"
      "p_priority_queue_number (procs s c) = int j"
  | (idle) t where "scheduler_mlfq run s = Ret [] t" "sched_ok t" "mlfq_inv t" "idle_slot t p"
      "\<And>q. p_state (procs t q) = p_state (procs s q)"
      "\<And>q. q < NPROC \<Longrightarrow> p_state (procs s q) = RUNNABLE \<Longrightarrow> p_status_queue (procs t q) = 1"
      "\<And>j. selected_from s = Some j \<Longrightarrow> ql t j = [] \<and> (\<forall>i. i \<noteq> j \<longrightarrow> ql t i = lined_up s i)"
      "selected_from s = None \<Longrightarrow> \<forall>i < queue_size. ql t i = []"
proof -
  let ?i = "intr_on s"
  obtain r t where sel: "mlfq_select ?i = Ret r t" "mlfq_inv t" "mlfq_frame ?i t" "idle_slot t p"
    and st1: "\<And>q. q < NPROC \<Longrightarrow> p_state (procs s q) = RUNNABLE \<Longrightarrow> p_status_queue (procs t q) = 1"
    and cs: "case selected_from s of None \<Rightarrow> r = None \<and> (\<forall>i < queue_size. ql t i = [])
      | Some j \<Rightarrow> r = drained s (lined_up s j) None \<and> ql t j = runnable_suffix s (lined_up s j) \<and>
          (\<forall>i. i \<noteq> j \<longrightarrow> ql t i = lined_up s i)"
    using mlfq_select_ok [of ?i p, unfolded intr_on_mlfq intr_on_fields, OF inv slot] by blast
  have st: "p_state (procs t q) = p_state (procs s q)" for q using mlfq_frameD(1) [OF sel(3)] by simp
  have okt: "sched_ok t" using mlfq_frameD(4) [OF sel(3)] ok(1) by simp
  show thesis
  proof (cases "\<exists>c. r = Some c \<and> p_state (procs s c) = RUNNABLE")
    case True
    then obtain c where c: "r = Some c" "p_state (procs s c) = RUNNABLE" by blast
    then obtain j where j: "selected_from s = Some j" using cs by (cases "selected_from s") auto
    have f: "find (\<lambda>q. p_state (procs s q) = RUNNABLE) (lined_up s j) = Some c"
      using drained_runnable [of s "lined_up s j" c] cs c j by simp
    have jq: "j < queue_size" using j by (simp add: selected_from_def find_upt_Some)
    have cp: "c < NPROC" "p_priority_queue_number (procs s c) = int j"
      using lined_up_prio [OF inv jq] find_in [OF f] by auto
    obtain u where u: "dispatch run c (acq (L_proc c) t) = Ret () u" "sched_ok u"
      using dispatch_ok [OF ok(2) cp(1) holds_only_acq [OF okt cp(1)]] by blast
    have "scheduler_mlfq run s = Ret [c] u"
      using sel(1) c st u(1) acquire_sched [OF okt cp(1)] by (simp add: scheduler_mlfq_def)
    then show thesis using u(2) j cp c(2) f by (intro dispatched)
  next
    case False
    then have 1: "scheduler_mlfq run s = Ret [] t"
      using sel(1) st by (auto simp: scheduler_mlfq_def split: option.splits)
    have 2: "ql t j = [] \<and> (\<forall>i. i \<noteq> j \<longrightarrow> ql t i = lined_up s i)" if "selected_from s = Some j" for j
    proof (cases "runnable_suffix s (lined_up s j)")
      case Nil
      then show ?thesis using cs that by simp
    next
      case (Cons d ds)
      then have "r = Some d" using cs that by (simp add: drained_def)
      moreover have "p_state (procs s d) = RUNNABLE"
        using Cons unfolding runnable_suffix_def by (metis (mono_tags, lifting) hd_dropWhile list.distinct(1) list.sel(1))
      ultimately show ?thesis using False by blast
    qed
    show thesis using 1 okt sel(2,4) st st1 2 cs by (intro idle) auto
  qed
qed

section \<open>Properties of the multi-level feedback queue\<close>

lemma mlfq_one_runnable: "mlfq_inv (one_runnable n)" "idle_slot (one_runnable n) 1"
  by (auto simp: mlfq_inv_def idle_slot_def one_runnable_def boot_def zero_proc_def zero_queue_def q_wf_def
      qlist_def in_queues_def queue_size_def NPROC_def)

text \<open>
  C2: The feedback queue schedules by strict priority, first come first served.  A pass of the
  scheduler returns and dispatches at most one process; the process it dispatches was
  runnable, no runnable process has a better priority, and it is the first runnable one of its
  queue in queue order (the queue as it was, followed by the newly runnable processes in table
  order).
\<close>

theorem mlfq_strict_priority:
  assumes "mlfq_inv s" "idle_slot s p" "sched_ok s" "run_ok run"
  shows "\<exists>tr t. scheduler_mlfq run s = Ret tr t \<and> sched_ok t \<and> length tr \<le> 1 \<and>
    (\<forall>c \<in> set tr. p_state (procs s c) = RUNNABLE \<and>
       (\<forall>q < NPROC. p_state (procs s q) = RUNNABLE \<longrightarrow>
          p_priority_queue_number (procs s c) \<le> p_priority_queue_number (procs s q)) \<and>
       find (\<lambda>q. p_state (procs s q) = RUNNABLE)
         (lined_up s (nat (p_priority_queue_number (procs s c)))) = Some c)"
  using assms
proof (cases rule: scheduler_mlfq_ok)
  case (dispatched c t j)
  have "p_priority_queue_number (procs s c) \<le> p_priority_queue_number (procs s q)"
    if q: "q < NPROC" "p_state (procs s q) = RUNNABLE" for q
  proof (rule ccontr)
    let ?i = "nat (p_priority_queue_number (procs s q))"
    assume "\<not> ?thesis"
    then have "?i < j" using dispatched(7) mlfq_invD(4) [OF assms(1) q(1)]
      unfolding in_queues_def by linarith
    then have "lined_up s ?i = []" using dispatched(3) by (simp add: selected_from_def find_upt_Some)
    then show False using runnable_lined_up(2) [OF assms(1) q] by simp
  qed
  then show ?thesis using dispatched by (intro exI [of _ "[c]"] exI [of _ t]) simp
next
  case (idle t)
  then show ?thesis by (intro exI [of _ "[]"] exI [of _ t]) simp
qed

theorem mlfq_strict_priority_witness:
  "\<exists>tr t. scheduler_mlfq run_yield (one_runnable 1) = Ret tr t \<and> length tr \<le> 1"
  using mlfq_strict_priority [OF mlfq_one_runnable one_runnable_ok(1) run_ok_yield(1)] by blast

text \<open>A number of passes in a row, with the processes they dispatch.\<close>

fun rounds :: "nat \<Rightarrow> ('s \<Rightarrow> ('s, nat list) outcome) \<Rightarrow> 's \<Rightarrow> ('s, nat list) outcome" where
  "rounds 0 f s = Ret [] s"
| "rounds (Suc n) f s = bnd (f s) (\<lambda>tr s. bnd (rounds n f s) (\<lambda>tr' s. Ret (tr @ tr') s))"

lemma mlfq_progress_from:
  assumes "k \<le> queue_size" "mlfq_inv s" "idle_slot s p" "sched_ok s" "run_ok run"
    and "q < NPROC" "p_state (procs s q) = RUNNABLE" "\<And>i. i < k \<Longrightarrow> lined_up s i = []"
  shows "\<exists>m < queue_size - k. \<exists>u c t. rounds m (scheduler_mlfq run) s = Ret [] u \<and> scheduler_mlfq run u = Ret [c] t"
  using assms
proof (induction "queue_size - k" arbitrary: k s)
  case 0
  then show ?case using runnable_lined_up [OF "0.prems"(2,6,7)] by (metis diff_is_0_eq empty_iff less_le_trans list.set(1))
next
  case (Suc n)
  note prems = Suc.prems
  have lt: "k < queue_size" using Suc.hyps(2) by simp
  from prems(2-5) show ?case
  proof (cases rule: scheduler_mlfq_ok)
    case (dispatched c t j)
    then show ?thesis using lt by (intro exI [of _ 0]) auto
  next
    case (idle t)
    obtain j where j: "selected_from s = Some j"
      using runnable_lined_up [OF prems(2,6,7)] by (cases "selected_from s") (auto simp: selected_from_def find_upt_None)
    then have jk: "j < queue_size" "lined_up s j \<noteq> []" "\<And>i. i < j \<Longrightarrow> lined_up s i = []"
      by (auto simp: selected_from_def find_upt_Some)
    have kj: "k \<le> j" using prems(8) jk(2) by (metis not_le)
    have no: "admitted t NPROC i = []" for i
      using idle(5,6) by (auto simp: admitted_def admits_def filter_empty_conv)
    have lu: "lined_up t i = []" if "i < Suc k" for i
      using idle(7) [OF j] no [of i] that kj jk(3) by (cases "i = j") (auto simp: lined_up_def)
    have q: "p_state (procs t q) = RUNNABLE" using idle(5) prems(7) by simp
    have n: "n = queue_size - Suc k" using Suc.hyps(2) by simp
    obtain m u c v where m: "m < queue_size - Suc k" "rounds m (scheduler_mlfq run) t = Ret [] u"
        "scheduler_mlfq run u = Ret [c] v"
      using Suc.hyps(1) [OF n _ idle(3,4,2) prems(5,6) q lu] lt by auto
    have "rounds (Suc m) (scheduler_mlfq run) s = Ret [] u" using idle(1) m(2) by simp
    then show ?thesis using m(1,3) by (intro exI [of _ "Suc m"]) auto
  qed
qed

text \<open>
  C26: The feedback queue does not stall.  A pass may dispatch nothing although a process is
  runnable, because a queue that holds only processes that cannot run ends the search.  But
  each such pass empties that queue, so as long as a process is runnable at most three passes
  in a row are wasted before one is dispatched.
\<close>

theorem mlfq_progress:
  assumes "mlfq_inv s" "idle_slot s p" "sched_ok s" "run_ok run"
    and "q < NPROC" "p_state (procs s q) = RUNNABLE"
  shows "\<exists>m < 4. \<exists>u c t. rounds m (scheduler_mlfq run) s = Ret [] u \<and> scheduler_mlfq run u = Ret [c] t"
  using mlfq_progress_from [of 0, OF _ assms] by (simp add: queue_size_def)

theorem mlfq_progress_witness:
  "\<exists>m u c t. m < 4 \<and> rounds m (scheduler_mlfq run_yield) (one_runnable 1) = Ret [] u \<and>
     scheduler_mlfq run_yield u = Ret [c] t"
  using mlfq_progress [OF mlfq_one_runnable one_runnable_ok(1) run_ok_yield(1), of 0] by auto

section \<open>Time slices\<close>

lemma mlfq_inv_unqueued:
  assumes inv: "mlfq_inv s" and p: "p_status_queue (procs s p) = 0"
    and f: "p_status_queue (f (procs s p)) = 0" "in_queues (p_priority_queue_number (f (procs s p)))"
  shows "mlfq_inv (upd_proc p f s)"
proof -
  have "p \<notin> set (ql s i)" if "i < queue_size" for i using mlfq_invD(3) [OF inv that] p by auto
  then have "\<forall>i < queue_size. q_wf (queue (upd_proc p f s) i) \<and> distinct (ql (upd_proc p f s) i) \<and>
      (\<forall>r \<in> set (ql (upd_proc p f s) i). p_status_queue (procs (upd_proc p f s) r) = 1 \<and>
         p_priority_queue_number (procs (upd_proc p f s) r) = int i)"
    using mlfq_invD(1-3) [OF inv] by auto
  moreover have "\<forall>r < NPROC. in_queues (p_priority_queue_number (procs (upd_proc p f s) r)) \<and>
        (p_status_queue (procs (upd_proc p f s) r) = 0 \<or> p_status_queue (procs (upd_proc p f s) r) = 1 \<and>
         r \<in> set (ql (upd_proc p f s) (nat (p_priority_queue_number (procs (upd_proc p f s) r)))))"
    using mlfq_invD(4,5) [OF inv] f by auto
  ultimately show ?thesis unfolding mlfq_inv_def by blast
qed

lemma mlfq_timer_expired:
  assumes inv: "mlfq_inv s" and head: "p_priority_queue_number (procs s p) = int i" "i < queue_size" "ql s i = p # xs"
    and due: "q_priority_queue_ticks (queue s i) \<le> p_start_time (procs s p)"
  shows "\<exists>t. mlfq_timer p s = Ret () t \<and> mlfq_inv t \<and> ql t i = xs \<and> (\<forall>j. j \<noteq> i \<longrightarrow> ql t j = ql s j) \<and>
    procs t = (procs s)(p := (procs s p)\<lparr>p_status_queue := 0,
      p_priority_queue_number := int (min (i + 1) (queue_size - 1)), p_start_time := 0, p_wait_ticks := 0\<rparr>)"
proof -
  let ?u = "upd_proc p (\<lambda>x. x\<lparr>p_status_queue := 0\<rparr>) (upd_queue i (q_shift (queue s i)) s)"
  note pop = pop_ok [OF inv head(2,3)]
  have tail: "0 < q_tail (queue s i)" using q_wf_length [OF mlfq_invD(1) [OF inv head(2)]] head(3) by simp
  let ?f = "\<lambda>x. x\<lparr>p_priority_queue_number := int (min (i + 1) (queue_size - 1)), p_start_time := 0, p_wait_ticks := 0\<rparr>"
  have up: "(if p_priority_queue_number (procs ?u p) < int queue_size - 1
        then upd_proc p (\<lambda>x. x\<lparr>p_priority_queue_number := wrap32 (p_priority_queue_number x + 1)\<rparr>) ?u
        else ?u) = upd_proc p (\<lambda>x. x\<lparr>p_priority_queue_number := int (min (i + 1) (queue_size - 1))\<rparr>) ?u"
    using head(1,2) by (auto simp: upd_proc_def queue_size_def small_int32 fun_upd_idem_iff intro!: arg_cong [where f = "\<lambda>g. procs_update (\<lambda>_. g) _"])
  have tm: "mlfq_timer p s = Ret () (upd_proc p ?f ?u)"
    using head(1,2) due tail pop(1) up unfolding mlfq_timer_def Let_def
    by (simp add: in_queues_def upd_proc_upd_proc)
  have "mlfq_inv (upd_proc p ?f ?u)"
    by (rule mlfq_inv_unqueued [OF pop(2)]) (auto simp: in_queues_def queue_size_def)
  then show ?thesis using tm pop(4,5) by (intro exI [of _ "upd_proc p ?f ?u"]) simp
qed

text \<open>
  C27: Demotion.  On a timer interrupt of the running process, which is at the head of its queue,
  nothing changes while it has used fewer ticks than its queue's slice; once it has used them
  up, it leaves its queue, its priority number becomes one larger (at most 3), its tick count
  restarts, all other processes and queues stay as they are, and the queues remain consistent.
\<close>

theorem mlfq_demotion:
  assumes "mlfq_inv s" "p_priority_queue_number (procs s p) = int i" "i < queue_size" "ql s i = p # xs"
  shows "if p_start_time (procs s p) < q_priority_queue_ticks (queue s i) then mlfq_timer p s = Ret () s
    else \<exists>t. mlfq_timer p s = Ret () t \<and> mlfq_inv t \<and> ql t i = xs \<and> (\<forall>j. j \<noteq> i \<longrightarrow> ql t j = ql s j) \<and>
      procs t = (procs s)(p := (procs s p)\<lparr>p_status_queue := 0,
        p_priority_queue_number := min (int i + 1) 3, p_start_time := 0, p_wait_ticks := 0\<rparr>)"
proof (cases "p_start_time (procs s p) < q_priority_queue_ticks (queue s i)")
  case True
  then show ?thesis using assms(2,3) by (simp add: mlfq_timer_def in_queues_def)
next
  case False
  have "int (min (i + 1) (queue_size - 1)) = min (int i + 1) 3" by (auto simp: queue_size_def)
  then show ?thesis using mlfq_timer_expired [OF assms] False by simp
qed

text \<open>A state in which process 0 runs, alone in queue 0.\<close>

definition one_queued :: kproc where
  "one_queued = upd_proc 0 (\<lambda>x. x\<lparr>p_state := RUNNING, p_status_queue := 1\<rparr>)
     (upd_queue 0 (zero_queue\<lparr>q_tail := 1, q_length := 1, q_mlfq_queue := Some 0 # replicate 63 None\<rparr>) boot)"

lemma mlfq_one_queued: "mlfq_inv one_queued" "ql one_queued 0 = [0]"
  "p_priority_queue_number (procs one_queued 0) = int 0" "p_start_time (procs one_queued 0) = 0"
  "q_priority_queue_ticks (queue one_queued 0) = 0"
  by (auto simp: mlfq_inv_def one_queued_def boot_def zero_proc_def zero_queue_def q_wf_def
      qlist_def in_queues_def queue_size_def NPROC_def)

theorem mlfq_demotion_witness:
  "\<exists>t. mlfq_timer 0 one_queued = Ret () t \<and> p_priority_queue_number (procs t 0) = 1"
proof -
  have "0 < queue_size" by (simp add: queue_size_def)
  from mlfq_demotion [OF mlfq_one_queued(1,3) this, of "[]"] mlfq_one_queued show ?thesis by auto
qed

section \<open>Ageing\<close>

lemma mlfq_ageing_none:
  assumes "\<And>p. p < NPROC \<Longrightarrow> p_wait_ticks (procs s p) < 48"
  shows "mlfq_ageing s = Ret () s"
proof -
  have "for_each xs mlfq_age s = Ret () s" if "set xs \<subseteq> {..<NPROC}" for xs
    using that assms by (induction xs) (auto simp: mlfq_age_def not_le [symmetric])
  then show ?thesis unfolding mlfq_ageing_def by (metis atLeast_upt order_refl)
qed

text \<open>
  C32: Ageing never happens.  The priority boost of \<open>usertrap\<close> applies to runnable processes
  that have waited at least 48 ticks, but the code that would count the waiting tests for
  \<^verbatim>\<open>RUNNING\<close> a second time.  From any state in which no counter has reached 48, the clock
  tick changes no counter, the time-slice check only resets counters, and the ageing
  pass does nothing at all.
\<close>

theorem mlfq_ageing_dead:
  assumes "\<And>p. p < NPROC \<Longrightarrow> p_wait_ticks (procs s p) < 48" "cpu_ok s" "proc_locks_free s"
  shows "mlfq_ageing s = Ret () s \<and>
    (\<exists>t. update_time MLFQ s = Ret () t \<and> (\<forall>p. p_wait_ticks (procs t p) = p_wait_ticks (procs s p))) \<and>
    (\<forall>r t p. mlfq_timer r s = Ret () t \<longrightarrow> p < NPROC \<longrightarrow> p_wait_ticks (procs t p) < 48)"
proof (intro conjI allI impI)
  show "mlfq_ageing s = Ret () s" by (rule mlfq_ageing_none) (rule assms(1))
  show "\<exists>t. update_time MLFQ s = Ret () t \<and> (\<forall>p. p_wait_ticks (procs t p) = p_wait_ticks (procs s p))"
    using update_time_eq [OF assms(2,3), of MLFQ] by auto
  show "p_wait_ticks (procs t p) < 48" if "mlfq_timer r s = Ret () t" "p < NPROC" for r t p
    using that assms(1) [of p]
    by (auto simp: mlfq_timer_def pop_def Let_def split: if_splits option.splits)
qed

theorem mlfq_ageing_dead_witness: "mlfq_ageing one_queued = Ret () one_queued"
proof -
  have 1: "p_wait_ticks (procs one_queued p) < 48" for p
    by (simp add: one_queued_def boot_def zero_proc_def)
  have "cpu_ok one_queued" "proc_locks_free one_queued"
    using boot_ok by (simp_all add: one_queued_def proc_locks_free_def lock_free_def cpu_ok_def machine_defs)
  from mlfq_ageing_dead [OF 1 this] show ?thesis by blast
qed

section \<open>A full queue\<close>

text \<open>
  C33: The front insertion overruns a full queue.  When all 64 processes are runnable with the
  same priority, taking the first one out and putting it back at the front writes one cell
  past the end of \<^verbatim>\<open>mlfq_queue[NPROC]\<close>.
\<close>

theorem mlfq_full_queue_overruns:
  assumes inv: "mlfq_inv s"
    and all: "\<And>p. p < NPROC \<Longrightarrow> p_state (procs s p) = RUNNABLE \<and> p_priority_queue_number (procs s p) = 0"
  shows "mlfq_select s = Fault ''mlfq_queue[]''"
proof -
  obtain u where u: "for_each [0..<NPROC] mlfq_admit s = Ret () u" "mlfq_inv u" "mlfq_frame s u"
    "\<And>i. ql u i = lined_up s i"
    using mlfq_admission [OF inv order_refl] unfolding lined_up_def by blast
  have q0: "0 < queue_size" by (simp add: queue_size_def)
  have "set (ql u 0) = {..<NPROC}"
    using runnable_lined_up(2) [OF inv] all u(4) mlfq_invD(3) [OF u(2) q0] by fastforce
  then have len: "length (ql u 0) = NPROC"
    using distinct_card [OF mlfq_invD(2) [OF u(2) q0]] by simp
  then obtain c xs where c: "ql u 0 = c # xs" by (cases "ql u 0") (auto simp: NPROC_def)
  note pop = pop_ok [OF u(2) q0 c]
  let ?t = "upd_proc c (\<lambda>x. x\<lparr>p_status_queue := 0\<rparr>) (upd_queue 0 (q_shift (queue u 0)) u)"
  have run: "p_state (procs ?t c) = RUNNABLE" "p_priority_queue_number (procs ?t c) = 0"
    using all [OF pop(6)] mlfq_frameD(1,2) [OF mlfq_frame_trans [OF u(3) pop(3)], of c] by simp_all
  have wf: "q_wf (queue ?t 0)" "length (ql ?t 0) = 63"
    using mlfq_invD(1) [OF pop(2) q0] pop(4) len c by (simp_all add: NPROC_def)
  have "q_length (queue ?t 0) = 63" "length (q_mlfq_queue (queue ?t 0)) = 64"
    using wf q_wf_length [OF wf(1)] by (simp_all add: q_wf_def NPROC_def)
  then have "shift_up (nat (wrap32 (q_length (queue ?t 0) + 1))) (q_mlfq_queue (queue ?t 0)) = None"
    by (simp add: small_int32 shift_up_None)
  then have "q_unshift c (queue ?t 0) = None" by (simp add: q_unshift_def Let_def)
  then have "mlfq_refront c ?t = Fault ''mlfq_queue[]''"
    unfolding mlfq_refront_def Let_def run(2) using q0 by (simp add: in_queues_def)
  moreover have "\<not> q_tail (queue u 0) \<le> 0" using q_wf_length [OF mlfq_invD(1) [OF u(2) q0]] c by simp
  ultimately have "mlfq_drain 0 None u = Fault ''mlfq_queue[]''"
    using pop(1) run(1) by (subst mlfq_drain.simps) (simp add: upd_proc_upd_proc)
  then show ?thesis using u(1) by (simp add: mlfq_select_def queue_size_def upt_rec)
qed

definition all_runnable :: kproc where
  "all_runnable = boot\<lparr>procs := \<lambda>_. zero_proc\<lparr>p_state := RUNNABLE\<rparr>\<rparr>"

theorem mlfq_full_queue_overruns_witness: "mlfq_select all_runnable = Fault ''mlfq_queue[]''"
proof (rule mlfq_full_queue_overruns)
  show "mlfq_inv all_runnable"
    by (auto simp: mlfq_inv_def all_runnable_def boot_def zero_proc_def zero_queue_def q_wf_def
      qlist_def in_queues_def queue_size_def NPROC_def)
qed (simp add: all_runnable_def zero_proc_def)

end
