(* ===== verification/Cstring.thy ===== *)
theory Cstring
  imports Prelude
begin

text \<open>
  Byte-addressed memory and \<^verbatim>\<open>kernel/string.c\<close>.  Memory is a function from 64-bit addresses to
  bytes; each routine is the loop of the source, and the lemmas give its effect as a single
  update of a range of addresses.  A range of \<open>n\<close> bytes at \<open>a\<close> is the set of the
  \<open>x\<close> with \<open>unat (x - a) < n\<close>, which stays right when addresses wrap.
\<close>

type_synonym mem = "uint64 \<Rightarrow> byte"

section \<open>The routines\<close>

definition memset :: "uint64 \<Rightarrow> byte \<Rightarrow> nat \<Rightarrow> mem \<Rightarrow> mem" where
  "memset dst c n m = fold (\<lambda>i m. m(dst + of_nat i := c)) [0..<n] m"

fun memcmp :: "uint64 \<Rightarrow> uint64 \<Rightarrow> nat \<Rightarrow> mem \<Rightarrow> int" where
  "memcmp s1 s2 0 m = 0"
| "memcmp s1 s2 (Suc n) m =
     (if m s1 \<noteq> m s2 then uint (m s1) - uint (m s2) else memcmp (s1 + 1) (s2 + 1) n m)"

text \<open>The two loops of \<open>memmove\<close>.\<close>

fun copy_up :: "uint64 \<Rightarrow> uint64 \<Rightarrow> nat \<Rightarrow> mem \<Rightarrow> mem" where
  "copy_up d s 0 m = m"
| "copy_up d s (Suc n) m = copy_up (d + 1) (s + 1) n (m(d := m s))"

fun copy_down :: "uint64 \<Rightarrow> uint64 \<Rightarrow> nat \<Rightarrow> mem \<Rightarrow> mem" where
  "copy_down d s 0 m = m"
| "copy_down d s (Suc n) m = copy_down (d - 1) (s - 1) n (m(d - 1 := m (s - 1)))"

definition memmove :: "uint64 \<Rightarrow> uint64 \<Rightarrow> nat \<Rightarrow> mem \<Rightarrow> mem" where
  "memmove dst src n m =
     (if n = 0 then m
      else if src < dst \<and> src + of_nat n > dst then copy_down (dst + of_nat n) (src + of_nat n) n m
      else copy_up dst src n m)"

definition memcpy :: "uint64 \<Rightarrow> uint64 \<Rightarrow> nat \<Rightarrow> mem \<Rightarrow> mem" where
  "memcpy dst src n m = memmove dst src n m"

fun strncmp :: "uint64 \<Rightarrow> uint64 \<Rightarrow> nat \<Rightarrow> mem \<Rightarrow> int" where
  "strncmp p q 0 m = 0"
| "strncmp p q (Suc n) m =
     (if m p \<noteq> 0 \<and> m p = m q then strncmp (p + 1) (q + 1) n m else uint (m p) - uint (m q))"

text \<open>The second loop of \<open>strncpy\<close> pads with zeros; a negative count copies nothing.\<close>

fun zero_fill :: "uint64 \<Rightarrow> nat \<Rightarrow> mem \<Rightarrow> mem" where
  "zero_fill s 0 m = m"
| "zero_fill s (Suc n) m = zero_fill (s + 1) n (m(s := 0))"

fun strncpy_loop :: "uint64 \<Rightarrow> uint64 \<Rightarrow> nat \<Rightarrow> mem \<Rightarrow> mem" where
  "strncpy_loop s t 0 m = m"
| "strncpy_loop s t (Suc n) m =
     (let c = m t; m = m(s := c) in
      if c \<noteq> 0 then strncpy_loop (s + 1) (t + 1) n m else zero_fill (s + 1) n m)"

definition strncpy :: "uint64 \<Rightarrow> uint64 \<Rightarrow> int \<Rightarrow> mem \<Rightarrow> mem" where
  "strncpy s t n m = strncpy_loop s t (nat n) m"

fun safestrcpy_loop :: "uint64 \<Rightarrow> uint64 \<Rightarrow> nat \<Rightarrow> mem \<Rightarrow> mem" where
  "safestrcpy_loop s t 0 m = m(s := 0)"
| "safestrcpy_loop s t (Suc n) m =
     (let c = m t; m = m(s := c) in
      if c \<noteq> 0 then safestrcpy_loop (s + 1) (t + 1) n m else m(s + 1 := 0))"

definition safestrcpy :: "uint64 \<Rightarrow> uint64 \<Rightarrow> int \<Rightarrow> mem \<Rightarrow> mem" where
  "safestrcpy s t n m = (if n \<le> 0 then m else safestrcpy_loop s t (nat (n - 1)) m)"

text \<open>\<open>strlen\<close> does not return when no zero byte follows.\<close>

partial_function (option) strlen_from :: "mem \<Rightarrow> uint64 \<Rightarrow> nat \<Rightarrow> nat option" where
  [code]: "strlen_from m s n = (if m (s + of_nat n) = 0 then Some n else strlen_from m s (n + 1))"

definition strlen :: "mem \<Rightarrow> uint64 \<Rightarrow> nat option" where
  "strlen m s = strlen_from m s 0"

section \<open>Little-endian loads and stores\<close>

fun load_le :: "nat \<Rightarrow> mem \<Rightarrow> uint64 \<Rightarrow> 'a::len word" where
  "load_le 0 m a = 0"
| "load_le (Suc k) m a = ucast (m a) OR push_bit 8 (load_le k m (a + 1))"

fun store_le :: "nat \<Rightarrow> uint64 \<Rightarrow> 'a::len word \<Rightarrow> mem \<Rightarrow> mem" where
  "store_le 0 a v m = m"
| "store_le (Suc k) a v m = store_le k (a + 1) (drop_bit 8 v) (m(a := ucast v))"

definition load64 :: "mem \<Rightarrow> uint64 \<Rightarrow> uint64" where
  "load64 m a = load_le 8 m a"

definition store64 :: "uint64 \<Rightarrow> uint64 \<Rightarrow> mem \<Rightarrow> mem" where
  "store64 a v m = store_le 8 a v m"

section \<open>Address ranges\<close>

definition in_range :: "uint64 \<Rightarrow> uint64 \<Rightarrow> nat \<Rightarrow> bool" where
  "in_range x a n \<longleftrightarrow> unat (x - a) < n"

lemma unat_lt [simp]: "unat (w :: uint64) < 18446744073709551616"
  using unsigned_less [where 'a = nat and w = w] by simp

lemma unat_of_nat_small: "i < 2 ^ 64 \<Longrightarrow> unat (of_nat i :: uint64) = i"
  by (simp add: unat_of_nat take_bit_nat_eq_self_iff)

lemma in_range_0 [simp]: "\<not> in_range x a 0"
  by (simp add: in_range_def)

lemma in_range_Suc: "in_range x a (Suc n) \<longleftrightarrow> in_range x a n \<or> n < 2 ^ 64 \<and> x = a + of_nat n"
proof -
  have "unat (x - a) = n \<longleftrightarrow> n < 2 ^ 64 \<and> x = a + of_nat n"
  proof
    assume n: "unat (x - a) = n"
    then have "n < 2 ^ 64" using unat_lt [of "x - a"] by simp
    moreover have "x - a = of_nat n" using n of_nat_unat [of "x - a", where 'a = "64 word"] by simp
    ultimately show "n < 2 ^ 64 \<and> x = a + of_nat n" by (simp add: algebra_simps)
  next
    assume "n < 2 ^ 64 \<and> x = a + of_nat n"
    then show "unat (x - a) = n" by (simp add: unat_of_nat take_bit_nat_eq_self_iff)
  qed
  then show ?thesis unfolding in_range_def by (metis less_Suc_eq)
qed

lemma in_range_shift: "in_range x (a + 1) n \<Longrightarrow> n < 2 ^ 64 \<Longrightarrow> in_range x a (Suc n)"
proof -
  assume "in_range x (a + 1) n" "n < 2 ^ 64"
  then have "unat (x - a - 1) < n" by (simp add: in_range_def algebra_simps)
  moreover have "unat (x - a) \<le> unat (x - a - 1) + 1"
    by (cases "x - a = 0") (simp_all add: unat_minus_one)
  ultimately show ?thesis by (simp add: in_range_def)
qed

lemma in_range_Suc_iff: "in_range x a (Suc n) \<longleftrightarrow> x = a \<or> n \<noteq> 0 \<and> in_range x (a + 1) n \<and> x \<noteq> a" if "n < 2 ^ 64"
proof (cases "x = a")
  case True
  then show ?thesis by (simp add: in_range_def)
next
  case False
  then have "unat (x - (a + 1)) = unat (x - a) - 1" "0 < unat (x - a)"
    using unat_minus_one [of "x - a"] by (simp_all add: algebra_simps unat_gt_0)
  then show ?thesis using False by (auto simp: in_range_def)
qed

lemma memset_eq: "memset a c n m = (\<lambda>x. if in_range x a n then c else m x)"
proof (induction n)
  case 0
  then show ?case by (simp add: memset_def)
next
  case (Suc n)
  have "memset a c (Suc n) m = (memset a c n m)(a + of_nat n := c)" by (simp add: memset_def)
  also have "\<dots> = (\<lambda>x. if in_range x a (Suc n) then c else m x)"
  proof
    fix x
    show "((memset a c n m)(a + of_nat n := c)) x = (if in_range x a (Suc n) then c else m x)"
    proof (cases "n < 2 ^ 64")
      case True
      then show ?thesis unfolding Suc by (auto simp: in_range_Suc)
    next
      case False
      moreover have "unat (x - a) < 2 ^ 64" by simp
      ultimately have "in_range x a n" "in_range x a (Suc n)" unfolding in_range_def by linarith+
      then show ?thesis unfolding Suc by simp
    qed
  qed
  finally show ?case .
qed

section \<open>memmove\<close>

lemma unat_add_small: "unat a + k < 2 ^ 64 \<Longrightarrow> unat (a + of_nat k :: uint64) = unat a + k"
  by (simp add: unat_word_ariths unat_of_nat take_bit_nat_eq_self_iff)

lemma copy_up_eq:
  assumes "unat d + n \<le> 2 ^ 64" "unat s + n \<le> 2 ^ 64" "unat d \<le> unat s \<or> unat s + n \<le> unat d"
  shows "copy_up d s n m x = (if in_range x d n then m (s + (x - d)) else m x)"
  using assms
proof (induction n arbitrary: d s m)
  case 0
  then show ?case by simp
next
  case (Suc n)
  show ?case
  proof (cases n)
    case 0
    then show ?thesis by (simp add: in_range_Suc_iff)
  next
    case (Suc k)
    have 1: "unat (d + 1) = unat d + 1" "unat (s + 1) = unat s + 1"
      using Suc.prems \<open>n = Suc k\<close> unat_add_small [of d 1] unat_add_small [of s 1] by simp_all
    have IH: "copy_up (d + 1) (s + 1) n (m(d := m s)) x =
        (if in_range x (d + 1) n then (m(d := m s)) (s + 1 + (x - (d + 1))) else (m(d := m s)) x)"
      by (rule Suc.IH) (use Suc.prems 1 in auto)
    have ne: "s + (x - d) \<noteq> d" if "in_range x (d + 1) n" "x \<noteq> d"
    proof -
      have "in_range x d (Suc n)" using that(1) Suc.prems(1) \<open>n = Suc k\<close> by (intro in_range_shift) simp_all
      then have k: "unat (x - d) \<le> n" by (simp add: in_range_def)
      then have "unat (s + (x - d)) = unat s + unat (x - d)"
        using unat_add_small [of s "unat (x - d)"] Suc.prems(2) by simp
      moreover have "0 < unat (x - d)" using that(2) by (simp add: unat_gt_0)
      ultimately have "unat (s + (x - d)) \<noteq> unat d" using Suc.prems(3) k by linarith
      then show ?thesis by metis
    qed
    have n: "n < 2 ^ 64" using Suc.prems(1) by simp
    show ?thesis using IH ne \<open>n = Suc k\<close> in_range_Suc_iff [OF n, of x d]
      by (auto simp: algebra_simps)
  qed
qed

lemma copy_down_eq:
  assumes "unat d + n \<le> 2 ^ 64" "unat s + n \<le> 2 ^ 64" "unat s \<le> unat d"
  shows "copy_down (d + of_nat n) (s + of_nat n) n m x = (if in_range x d n then m (s + (x - d)) else m x)"
  using assms
proof (induction n arbitrary: m)
  case 0
  then show ?case by simp
next
  case (Suc n)
  let ?m = "m(d + of_nat n := m (s + of_nat n))"
  have IH: "copy_down (d + of_nat n) (s + of_nat n) n ?m x = (if in_range x d n then ?m (s + (x - d)) else ?m x)"
    using Suc by simp
  have ne: "s + (x - d) \<noteq> d + of_nat n" if "in_range x d n"
  proof -
    have k: "unat (x - d) < n" using that by (simp add: in_range_def)
    then have "unat (s + (x - d)) = unat s + unat (x - d)"
      using unat_add_small [of s "unat (x - d)"] Suc.prems(2) by simp
    moreover have "unat (d + of_nat n) = unat d + n"
      using unat_add_small [of d n] Suc.prems(1) by simp
    ultimately have "unat (s + (x - d)) \<noteq> unat (d + of_nat n)" using k Suc.prems(3) by linarith
    then show ?thesis by metis
  qed
  have "n < 2 ^ 64" using Suc.prems(1) by simp
  then show ?case using IH ne by (auto simp: in_range_Suc algebra_simps)
qed

text \<open>\<open>memmove\<close> copies correctly whether or not the ranges overlap.\<close>

lemma memmove_eq:
  assumes "unat dst + n \<le> 2 ^ 64" "unat src + n \<le> 2 ^ 64"
  shows "memmove dst src n m = (\<lambda>x. if in_range x dst n then m (src + (x - dst)) else m x)"
proof
  fix x
  show "memmove dst src n m x = (if in_range x dst n then m (src + (x - dst)) else m x)"
  proof (cases "src < dst \<and> src + of_nat n > dst")
    case True
    then show ?thesis using copy_down_eq [OF assms, of m x] by (auto simp: memmove_def word_less_nat_alt)
  next
    case False
    have "unat dst \<le> unat src \<or> unat src + n \<le> unat dst"
    proof (cases "unat src + n < 2 ^ 64")
      case True
      then show ?thesis using False unat_add_small [of src n] by (auto simp: word_less_nat_alt)
    next
      case False
      then have "unat src + n = 2 ^ 64" using assms(2) by simp
      then show ?thesis
        using assms(1) by auto
    qed
    then show ?thesis using copy_up_eq [OF assms, of m x] False by (auto simp: memmove_def)
  qed
qed

section \<open>Loads and stores\<close>

lemma bit_load_le:
  "bit (load_le k m a :: 'a::len word) n \<longleftrightarrow> n < LENGTH('a) \<and> n < 8 * k \<and> bit (m (a + of_nat (n div 8))) (n mod 8)"
proof (induction k arbitrary: a n)
  case 0
  then show ?case by simp
next
  case (Suc k)
  show ?case
  proof (cases "n < 8")
    case True
    then show ?thesis by (auto simp: bit_simps)
  next
    case False
    then have "n div 8 = Suc ((n - 8) div 8)" "n mod 8 = (n - 8) mod 8"
      using le_div_geq [of 8 n] le_mod_geq [of 8 n] by simp_all
    then show ?thesis using False Suc [of "a + 1" "n - 8"]
      by (auto simp: bit_simps algebra_simps dest: bit_imp_le_length)
  qed
qed

lemma store_le_eq:
  "k \<le> 2 ^ 64 \<Longrightarrow> store_le k a v m x = (if in_range x a k then ucast (drop_bit (8 * unat (x - a)) v) else m x)"
proof (induction k arbitrary: a v m)
  case 0
  then show ?case by simp
next
  case (Suc k)
  then have k: "k < 2 ^ 64" by simp
  show ?case
  proof (cases "x = a")
    case True
    have "\<not> in_range a (a + 1) k"
    proof -
      have "a - (a + 1) = (- 1 :: uint64)" by simp
      moreover have "unat (- 1 :: uint64) = 2 ^ 64 - 1"
        by (simp add: unsigned_minus_1_eq_mask mask_eq_exp_minus_1)
      ultimately show ?thesis using k by (simp add: in_range_def)
    qed
    then show ?thesis using True Suc.IH [of "a + 1"] k by (simp add: in_range_Suc_iff)
  next
    case False
    then have "unat (x - a) = Suc (unat (x - (a + 1)))"
      using unat_minus_one [of "x - a"] unat_gt_0 [of "x - a"] by (simp add: algebra_simps)
    then show ?thesis using False Suc.IH [of "a + 1"] k
      by (auto simp: in_range_Suc_iff add.commute)
  qed
qed

lemma load_le_store_le:
  fixes v :: "'a::len word"
  assumes "LENGTH('a) = 8 * k" "k < 2 ^ 64"
  shows "load_le k (store_le k a v m) a = v"
proof (rule bit_word_eqI)
  fix n assume n: "n < LENGTH('a)"
  then have d: "n div 8 < k" using assms(1) by (simp add: less_mult_imp_div_less)
  then have u: "unat (of_nat (n div 8) :: uint64) = n div 8"
    using assms(2) by (intro unat_of_nat_small) simp
  then have "in_range (a + of_nat (n div 8)) a k" using d by (simp add: in_range_def)
  then show "bit (load_le k (store_le k a v m) a :: 'a word) n = bit v n"
    using n d u assms by (simp add: bit_load_le store_le_eq bit_simps)
qed

lemma load_le_cong:
  "(\<And>i. i < k \<Longrightarrow> m (a + of_nat i) = m' (a + of_nat i)) \<Longrightarrow> load_le k m a = load_le k m' a"
proof (induction k arbitrary: a)
  case 0
  then show ?case by simp
next
  case (Suc k)
  have "load_le k m (a + 1) = (load_le k m' (a + 1) :: 'a word)"
    using Suc.prems [of "Suc _"] by (intro Suc.IH) (simp add: algebra_simps)
  then show ?case using Suc.prems [of 0] by simp
qed

lemma load64_store64 [simp]: "load64 (store64 a v m) a = v"
  by (simp add: load64_def store64_def load_le_store_le)

text \<open>Two ranges without a common address.\<close>

definition disjoint_ranges :: "uint64 \<Rightarrow> nat \<Rightarrow> uint64 \<Rightarrow> nat \<Rightarrow> bool" where
  "disjoint_ranges a n b k \<longleftrightarrow> (\<forall>x. \<not> (in_range x a n \<and> in_range x b k))"

lemma in_range_offset: "i < n \<Longrightarrow> n \<le> 2 ^ 64 \<Longrightarrow> in_range (a + of_nat i) a n"
  using unat_of_nat_small [of i] by (simp add: in_range_def)

lemma store64_eq: "store64 a v m x = (if in_range x a 8 then ucast (drop_bit (8 * unat (x - a)) v) else m x)"
  by (simp add: store64_def store_le_eq)

lemma load64_cong: "(\<And>x. in_range x a 8 \<Longrightarrow> m x = m' x) \<Longrightarrow> load64 m a = load64 m' a"
  unfolding load64_def by (rule load_le_cong) (simp add: in_range_offset)

lemma load64_store64_other:
  "disjoint_ranges a 8 b 8 \<Longrightarrow> load64 (store64 a v m) b = load64 m b"
  by (rule load64_cong) (auto simp: store64_eq disjoint_ranges_def)

lemma load64_memset_other:
  "disjoint_ranges a n b 8 \<Longrightarrow> load64 (memset a c n m) b = load64 m b"
  by (rule load64_cong) (auto simp: memset_eq disjoint_ranges_def)

lemma disjoint_rangesI:
  assumes "unat a + n \<le> unat b \<or> unat b + k \<le> unat a" "unat a + n \<le> 2 ^ 64" "unat b + k \<le> 2 ^ 64"
  shows "disjoint_ranges a n b k"
  unfolding disjoint_ranges_def
proof (intro allI notI)
  fix x assume "in_range x a n \<and> in_range x b k"
  then have 1: "unat (x - a) < n" "unat (x - b) < k" by (simp_all add: in_range_def)
  have "unat x = unat a + unat (x - a)"
    using unat_add_small [of a "unat (x - a)"] 1(1) assms(2) by simp
  moreover have "unat x = unat b + unat (x - b)"
    using unat_add_small [of b "unat (x - b)"] 1(2) assms(3) by simp
  ultimately show False using 1 assms(1) by linarith
qed

section \<open>Strings\<close>

text \<open>The bytes of a range, and the string at an address: its bytes up to the first zero.\<close>

definition bytes :: "mem \<Rightarrow> uint64 \<Rightarrow> nat \<Rightarrow> byte list" where
  "bytes m a n = map (\<lambda>i. m (a + of_nat i)) [0..<n]"

lemma bytes_Suc: "bytes m a (Suc n) = m a # bytes m (a + 1) n"
  by (simp add: bytes_def upt_conv_Cons map_Suc_upt [symmetric] algebra_simps del: upt_Suc)

lemma bytes_0 [simp]: "bytes m a 0 = []"
  by (simp add: bytes_def)

lemma length_bytes [simp]: "length (bytes m a n) = n"
  by (simp add: bytes_def)

lemma bytes_cong: "(\<And>x. in_range x a n \<Longrightarrow> m x = m' x) \<Longrightarrow> n \<le> 2 ^ 64 \<Longrightarrow> bytes m a n = bytes m' a n"
  unfolding bytes_def by (intro map_cong) (simp_all add: in_range_offset)

text \<open>
  C31: \<open>memmove\<close> is a correct copy for every placement of the two ranges, overlapping or not:
  afterwards the destination holds the bytes the source held before, and no other byte has
  changed.
\<close>

theorem memmove_copies:
  assumes "unat dst + n \<le> 2 ^ 64" "unat src + n \<le> 2 ^ 64"
  shows "bytes (memmove dst src n m) dst n = bytes m src n \<and>
    (\<forall>x. \<not> in_range x dst n \<longrightarrow> memmove dst src n m x = m x)"
proof
  have n: "n \<le> 2 ^ 64" using assms(1) by simp
  have "memmove dst src n m (dst + of_nat i) = m (src + of_nat i)" if "i < n" for i
    using in_range_offset [OF that n, of dst] by (simp add: memmove_eq [OF assms])
  then show "bytes (memmove dst src n m) dst n = bytes m src n" by (simp add: bytes_def)
  show "\<forall>x. \<not> in_range x dst n \<longrightarrow> memmove dst src n m x = m x" by (simp add: memmove_eq [OF assms])
qed

theorem memmove_copies_witness:
  "bytes (memmove 101 100 3 (\<lambda>x. ucast x)) 101 3 = [100, 101, 102]"
  using memmove_copies [of 101 3 100 "\<lambda>x. ucast x"] by (simp add: bytes_def upt_rec)

lemma safestrcpy_loop_spec:
  assumes "unat s + n < 2 ^ 64" "unat t + n < 2 ^ 64" "disjoint_ranges s (Suc n) t (Suc n)"
  shows "bytes (safestrcpy_loop s t n m) s (Suc n) ! min n (length (takeWhile (\<lambda>c. c \<noteq> 0) (bytes m t n))) = 0
    \<and> take (length (takeWhile (\<lambda>c. c \<noteq> 0) (bytes m t n))) (bytes (safestrcpy_loop s t n m) s (Suc n))
        = takeWhile (\<lambda>c. c \<noteq> 0) (bytes m t n)
    \<and> (\<forall>x. \<not> in_range x s (Suc n) \<longrightarrow> safestrcpy_loop s t n m x = m x)"
  using assms
proof (induction n arbitrary: s t m)
  case 0
  then show ?case by (auto simp: bytes_def in_range_def)
next
  case (Suc n)
  have inr: "in_range x s (Suc (Suc n))" if "in_range x (s + 1) (Suc n)" for x
    using in_range_shift [OF that] Suc.prems(1) by simp
  have inr': "in_range x t (Suc (Suc n))" if "in_range x (t + 1) (Suc n)" for x
    using in_range_shift [OF that] Suc.prems(2) by simp
  have s: "in_range s s (Suc (Suc n))" by (simp add: in_range_def)
  let ?m = "m(s := m t)"
  have bt: "bytes ?m (t + 1) n = bytes m (t + 1) n"
  proof (rule bytes_cong)
    fix x assume x: "in_range x (t + 1) n"
    then have "in_range x (t + 1) (Suc n)" by (simp add: in_range_def)
    then have "in_range x t (Suc (Suc n))" by (rule inr')
    then show "?m x = m x" using Suc.prems(3) s by (auto simp: disjoint_ranges_def)
  qed (use Suc.prems in simp)
  have s1: "unat (s + 1) = unat s + 1" "unat (t + 1) = unat t + 1"
    using Suc.prems unat_add_small [of s 1] unat_add_small [of t 1] by simp_all
  have ns: "\<not> in_range s (s + 1) (Suc n)"
  proof -
    have "s - (s + 1) = (- 1 :: uint64)" by simp
    moreover have "unat (- 1 :: uint64) = 2 ^ 64 - 1"
      by (simp add: unsigned_minus_1_eq_mask mask_eq_exp_minus_1)
    ultimately show ?thesis using Suc.prems(1) by (simp add: in_range_def)
  qed
  show ?case
  proof (cases "m t = 0")
    case True
    have "safestrcpy_loop s t (Suc n) m = (m(s := 0))(s + 1 := 0)" using True by (simp add: Let_def)
    moreover have "\<not> in_range x s (Suc (Suc n)) \<Longrightarrow> x \<noteq> s \<and> x \<noteq> s + 1" for x
      using s in_range_offset [of 1 "Suc (Suc n)" s] Suc.prems(1) by auto
    ultimately show ?thesis using True by (simp add: bytes_Suc)
  next
    case False
    have "disjoint_ranges (s + 1) (Suc n) (t + 1) (Suc n)"
      using Suc.prems(3) inr inr' unfolding disjoint_ranges_def by blast
    moreover have "unat (s + 1) + n < 2 ^ 64" "unat (t + 1) + n < 2 ^ 64" using s1 Suc.prems(1,2) by simp_all
    ultimately have IH0: "bytes (safestrcpy_loop (s + 1) (t + 1) n ?m) (s + 1) (Suc n) !
          min n (length (takeWhile (\<lambda>c. c \<noteq> 0) (bytes ?m (t + 1) n))) = 0
      \<and> take (length (takeWhile (\<lambda>c. c \<noteq> 0) (bytes ?m (t + 1) n)))
          (bytes (safestrcpy_loop (s + 1) (t + 1) n ?m) (s + 1) (Suc n))
        = takeWhile (\<lambda>c. c \<noteq> 0) (bytes ?m (t + 1) n)
      \<and> (\<forall>x. \<not> in_range x (s + 1) (Suc n) \<longrightarrow> safestrcpy_loop (s + 1) (t + 1) n ?m x = ?m x)"
      by (intro Suc.IH)
    define l where "l = safestrcpy_loop (s + 1) (t + 1) n ?m"
    note IH = IH0 [unfolded bt, folded l_def]
    have loop: "safestrcpy_loop s t (Suc n) m = l" using False by (simp add: Let_def l_def)
    have hd: "l s = m t" using IH ns by auto
    have nx: "l x = m x" if "\<not> in_range x s (Suc (Suc n))" for x
    proof -
      have "\<not> in_range x (s + 1) (Suc n)" "x \<noteq> s" using that inr s by blast+
      then show ?thesis using IH by auto
    qed
    show ?thesis unfolding loop using IH False hd nx by (simp add: bytes_Suc [of _ s] bytes_Suc [of m t])
  qed
qed

text \<open>
  \<open>safestrcpy\<close> always terminates the copy.  For a positive size and separate buffers, the
  destination afterwards holds the longest prefix of the source string that fits in
  \<^verbatim>\<open>n - 1\<close> bytes, followed by a zero byte, and nothing outside the \<^verbatim>\<open>n\<close> bytes of the
  destination has changed.
\<close>

theorem safestrcpy_terminates_string:
  fixes m :: mem
  assumes "0 < n" "unat s + nat n \<le> 2 ^ 64" "unat t + nat n \<le> 2 ^ 64" "disjoint_ranges s (nat n) t (nat n)"
  defines "str \<equiv> takeWhile (\<lambda>c. c \<noteq> 0) (bytes m t (nat n - 1))"
  shows "takeWhile (\<lambda>c. c \<noteq> 0) (bytes (safestrcpy s t n m) s (nat n)) = str \<and>
    length str < nat n \<and> safestrcpy s t n m (s + of_nat (length str)) = 0 \<and>
    (\<forall>x. \<not> in_range x s (nat n) \<longrightarrow> safestrcpy s t n m x = m x)"
proof -
  obtain k where k: "nat n = Suc k" using assms(1) by (cases "nat n") auto
  then have k': "nat (n - 1) = k" by linarith
  let ?b = "bytes (safestrcpy s t n m) s (Suc k)"
  have eq: "safestrcpy s t n m = safestrcpy_loop s t k m" using assms(1) k' by (simp add: safestrcpy_def)
  have str: "str = takeWhile (\<lambda>c. c \<noteq> 0) (bytes m t k)" using k by (simp add: str_def)
  then have len: "length str \<le> k" by (metis length_bytes length_takeWhile_le)
  have sp: "?b ! length str = 0" "take (length str) ?b = str"
    "\<forall>x. \<not> in_range x s (Suc k) \<longrightarrow> safestrcpy_loop s t k m x = m x"
    using safestrcpy_loop_spec [of s k t m] assms(2-4) k len unfolding eq str by (simp_all add: min_absorb2)
  have "?b = str @ 0 # drop (Suc (length str)) ?b"
    using sp len id_take_nth_drop [of "length str" ?b] by simp
  moreover have "\<forall>c \<in> set str. c \<noteq> 0" using str by (auto dest: set_takeWhileD)
  ultimately have "takeWhile (\<lambda>c. c \<noteq> 0) ?b = str"
    by (metis (mono_tags, lifting) takeWhile.simps(2) takeWhile_append2 append.right_neutral)
  moreover have "safestrcpy s t n m (s + of_nat (length str)) = 0"
    using sp(1) len by (simp add: bytes_def del: upt_Suc)
  ultimately show ?thesis using len k sp(3) eq by simp
qed

theorem safestrcpy_terminates_string_witness:
  "takeWhile (\<lambda>c. c \<noteq> 0) (bytes (safestrcpy 0 100 4 (\<lambda>x. ucast x)) 0 4) = [100, 101, 102]"
proof -
  have "disjoint_ranges 0 (nat 4) 100 (nat 4)" by (rule disjoint_rangesI) simp_all
  from safestrcpy_terminates_string [OF _ _ _ this, of "\<lambda>x. ucast x"]
  have "takeWhile (\<lambda>c. c \<noteq> 0) (bytes (safestrcpy 0 100 4 (\<lambda>x. ucast x)) 0 4) =
      takeWhile (\<lambda>c. c \<noteq> 0) (bytes (\<lambda>x. ucast x) 100 3)" by simp
  also have "\<dots> = [100, 101, 102]" by (simp add: bytes_def upt_rec)
  finally show ?thesis .
qed

lemma strlen_from_ok:
  assumes "m (s + of_nat k) = 0" "\<And>i. i < k \<Longrightarrow> m (s + of_nat i) \<noteq> 0" "n \<le> k"
  shows "strlen_from m s n = Some k"
  using assms(3)
proof (induction "k - n" arbitrary: n)
  case 0
  then show ?case using assms(1) by (subst strlen_from.simps) simp
next
  case (Suc d)
  then have "strlen_from m s (n + 1) = Some k" by simp
  then show ?case using assms(2) [of n] Suc by (subst strlen_from.simps) simp
qed

lemma strlen_eq:
  "m (s + of_nat k) = 0 \<Longrightarrow> (\<And>i. i < k \<Longrightarrow> m (s + of_nat i) \<noteq> 0) \<Longrightarrow> strlen m s = Some k"
  by (simp add: strlen_def strlen_from_ok)

text \<open>\<open>strncmp\<close> finds two strings equal exactly when their first \<open>n\<close> bytes agree up to a zero.\<close>

lemma strncmp_0_iff:
  "strncmp p q n m = 0 \<longleftrightarrow>
     (\<forall>i < n. (\<forall>j < i. m (p + of_nat j) \<noteq> 0) \<longrightarrow> m (p + of_nat i) = m (q + of_nat i))"
proof (induction n arbitrary: p q)
  case 0
  then show ?case by simp
next
  case (Suc n)
  have shift: "(\<forall>i < Suc n. (\<forall>j < i. m (p + of_nat j) \<noteq> 0) \<longrightarrow> m (p + of_nat i) = m (q + of_nat i)) \<longleftrightarrow>
     m p = m q \<and> (m p \<noteq> 0 \<longrightarrow>
       (\<forall>i < n. (\<forall>j < i. m (p + 1 + of_nat j) \<noteq> 0) \<longrightarrow> m (p + 1 + of_nat i) = m (q + 1 + of_nat i)))"
    by (simp add: All_less_Suc2 algebra_simps) blast
  show ?case unfolding shift using Suc [of "p + 1" "q + 1"] by (auto simp: word_uint_eq_iff)
qed

end
