(* ===== verification/Kalloc.thy ===== *)
theory Kalloc
  imports Proc Cstring
begin

text \<open>
  Physical memory and the page allocator, \<^verbatim>\<open>kernel/kalloc.c\<close>.  The state gains the bytes of
  physical memory (which the kernel addresses directly), the head of the free list, the
  address \<open>kend\<close> at which the linker script puts the end of the kernel image, and the root of
  the kernel's page table.  The free list
  is the linked list the code builds inside the free pages themselves; \<open>kmem_inv\<close> relates it
  to a list of page addresses.
\<close>

record kstate = kproc +
  mem :: mem
  freelist :: uint64
  kend :: uint64
  kernel_pagetable :: uint64

section \<open>The allocator\<close>

definition kfree :: "uint64 \<Rightarrow> 'z kstate_scheme \<Rightarrow> ('z kstate_scheme, unit) outcome" where
  "kfree pa s =
     (if pa mod PGSIZE \<noteq> 0 \<or> pa < kend s \<or> pa \<ge> PHYSTOP then Panic ''kfree''
      else
        let s = s\<lparr>mem := memset pa 1 (unat PGSIZE) (mem s)\<rparr> in
        bnd (acquire L_kmem s) (\<lambda>_ s.
          let s = s\<lparr>mem := store64 pa (freelist s) (mem s), freelist := pa\<rparr> in
          release L_kmem s))"

definition kalloc :: "'z kstate_scheme \<Rightarrow> ('z kstate_scheme, uint64) outcome" where
  "kalloc s =
     bnd (acquire L_kmem s) (\<lambda>_ s.
       let r = freelist s;
           s = (if r \<noteq> 0 then s\<lparr>freelist := load64 (mem s) r\<rparr> else s) in
       bnd (release L_kmem s) (\<lambda>_ s.
         Ret r (if r \<noteq> 0 then s\<lparr>mem := memset r 5 (unat PGSIZE) (mem s)\<rparr> else s)))"

text \<open>The loop of \<open>freerange\<close>; pointer arithmetic that leaves the address space is undefined.\<close>

function freerange_loop :: "uint64 \<Rightarrow> uint64 \<Rightarrow> 'z kstate_scheme \<Rightarrow> ('z kstate_scheme, unit) outcome" where
  "freerange_loop p pa_end s =
     (if p + PGSIZE < p then Fault ''pointer overflow''
      else if p + PGSIZE \<le> pa_end then bnd (kfree p s) (\<lambda>_ s. freerange_loop (p + PGSIZE) pa_end s)
      else Ret () s)"
  by pat_completeness auto
termination
proof (relation "measure (\<lambda>(p, e, s). 18446744073709551616 - unat p)")
  fix p pa_end :: uint64 and s s' :: "'z kstate_scheme" and u :: unit
  assume "\<not> p + PGSIZE < p"
  moreover have "p + PGSIZE \<noteq> p" by (simp add: PGSIZE_def)
  ultimately have "p < p + PGSIZE" by (metis not_less_iff_gr_or_eq)
  then have "unat p < unat (p + PGSIZE)" by (simp only: word_less_nat_alt)
  then have "18446744073709551616 - unat (p + PGSIZE) < 18446744073709551616 - unat p"
    using unat_lt [of "p + PGSIZE"] unat_lt [of p] by linarith
  then show "((p + PGSIZE, pa_end, s'), (p, pa_end, s)) \<in> measure (\<lambda>(p, e, s). 18446744073709551616 - unat p)" by simp
qed simp

definition freerange :: "uint64 \<Rightarrow> uint64 \<Rightarrow> 'z kstate_scheme \<Rightarrow> ('z kstate_scheme, unit) outcome" where
  "freerange pa_start pa_end s = freerange_loop (PGROUNDUP pa_start) pa_end s"

definition kinit :: "'z kstate_scheme \<Rightarrow> ('z kstate_scheme, unit) outcome" where
  "kinit s = (let s = initlock L_kmem ''kmem'' s in freerange (kend s) PHYSTOP s)"

section \<open>The free list\<close>

fun chain :: "mem \<Rightarrow> uint64 \<Rightarrow> uint64 list \<Rightarrow> bool" where
  "chain m r [] \<longleftrightarrow> r = 0"
| "chain m r (p # ps) \<longleftrightarrow> r = p \<and> r \<noteq> 0 \<and> chain m (load64 m p) ps"

definition page_ok :: "uint64 \<Rightarrow> uint64 \<Rightarrow> bool" where
  "page_ok e p \<longleftrightarrow> p mod PGSIZE = 0 \<and> e \<le> p \<and> p < PHYSTOP \<and> p \<noteq> 0"

definition kmem_inv :: "'z kstate_scheme \<Rightarrow> uint64 list \<Rightarrow> bool" where
  "kmem_inv s ps \<longleftrightarrow> chain (mem s) (freelist s) ps \<and> distinct ps \<and> (\<forall>p \<in> set ps. page_ok (kend s) p)"

text \<open>The bytes of a page, and that different pages have no byte in common.\<close>

lemma PHYSTOP_nat: "unat PHYSTOP = 0x88000000"
  by (simp add: PHYSTOP_def KERNBASE_def)

lemma page_mod: "p mod PGSIZE = 0 \<longleftrightarrow> unat p mod 4096 = 0"
proof -
  have "unat (p mod PGSIZE) = unat p mod 4096" by (simp only: unat_mod PGSIZE_nat)
  then show ?thesis by (metis unat_eq_0)
qed

lemma page_nat: "p mod PGSIZE = 0 \<Longrightarrow> \<exists>k. unat p = 4096 * k"
  unfolding page_mod by (metis dvdE mod_0_imp_dvd)

lemma pages_disjoint:
  assumes "page_ok e p" "page_ok e q" "p \<noteq> q" "n \<le> 4096" "k \<le> 4096"
  shows "disjoint_ranges p n q k"
proof -
  obtain i j where ij: "unat p = 4096 * i" "unat q = 4096 * j"
    using page_nat assms(1,2) unfolding page_ok_def by metis
  have "i \<noteq> j" using assms(3) ij by (metis word_unat_eq_iff)
  then have "unat p + 4096 \<le> unat q \<or> unat q + 4096 \<le> unat p" unfolding ij by linarith
  moreover have "unat p < 0x88000000" "unat q < 0x88000000"
    using assms(1,2) PHYSTOP_nat by (simp_all add: page_ok_def word_less_nat_alt)
  ultimately show ?thesis using assms(4,5) by (intro disjoint_rangesI) auto
qed

lemma chain_cong:
  "(\<And>p. p \<in> set ps \<Longrightarrow> load64 m p = load64 m' p) \<Longrightarrow> chain m r ps = chain m' r ps"
  by (induction ps arbitrary: r) auto

lemma chain_zero: "chain m 0 ps \<longleftrightarrow> ps = []"
  by (cases ps) auto

lemma chain_unique: "chain m r ps \<Longrightarrow> chain m r qs \<Longrightarrow> ps = qs"
proof (induction ps arbitrary: r qs)
  case Nil
  then show ?case by (cases qs) auto
next
  case (Cons p ps)
  then show ?case by (cases qs) auto
qed

lemma unlock_freelist:
  assumes "cpu_ok s" "lock_free L_kmem s"
  shows "release L_kmem ((acq L_kmem s)\<lparr>freelist := r\<rparr>) = Ret () ((touch s)\<lparr>freelist := r\<rparr>)"
    "release L_kmem ((acq L_kmem s)\<lparr>mem := m, freelist := r\<rparr>) = Ret () ((touch s)\<lparr>mem := m, freelist := r\<rparr>)"
proof -
  have "((acq L_kmem s)\<lparr>freelist := r\<rparr>)\<lparr>csr := csr s, cpus := cpus (touch s), locks := locks s\<rparr> = (touch s)\<lparr>freelist := r\<rparr>"
    by (simp add: acq_def pushed_def touch_def)
  then show "release L_kmem ((acq L_kmem s)\<lparr>freelist := r\<rparr>) = Ret () ((touch s)\<lparr>freelist := r\<rparr>)"
    using release_acq [OF assms, of "(acq L_kmem s)\<lparr>freelist := r\<rparr>"] by simp
  have "((acq L_kmem s)\<lparr>mem := m, freelist := r\<rparr>)\<lparr>csr := csr s, cpus := cpus (touch s), locks := locks s\<rparr>
      = (touch s)\<lparr>mem := m, freelist := r\<rparr>"
    by (simp add: acq_def pushed_def touch_def)
  then show "release L_kmem ((acq L_kmem s)\<lparr>mem := m, freelist := r\<rparr>) = Ret () ((touch s)\<lparr>mem := m, freelist := r\<rparr>)"
    using release_acq [OF assms, of "(acq L_kmem s)\<lparr>mem := m, freelist := r\<rparr>"] by simp
qed

lemma acq_kmem [simp]: "mem (acq l s) = mem s" "freelist (acq l s) = freelist s" "kend (acq l s) = kend s"
  "mem (touch s) = mem s" "freelist (touch s) = freelist s" "kend (touch s) = kend s"
  by (simp_all add: acq_def pushed_def touch_def)

lemma kalloc_eq:
  assumes "cpu_ok s" "lock_free L_kmem s"
  shows "kalloc s = (if freelist s = 0 then Ret 0 (touch s)
    else Ret (freelist s) ((touch s)\<lparr>freelist := load64 (mem s) (freelist s),
           mem := memset (freelist s) 5 4096 (mem s)\<rparr>))"
  using acquire_eq [OF assms] unlock_touch [OF assms] unlock_freelist(1) [OF assms]
  by (simp add: kalloc_def Let_def)

lemma kfree_eq:
  assumes "cpu_ok s" "lock_free L_kmem s" "page_ok (kend s) pa"
  shows "kfree pa s = Ret () ((touch s)\<lparr>mem := store64 pa (freelist s) (memset pa 1 4096 (mem s)), freelist := pa\<rparr>)"
proof -
  let ?s = "s\<lparr>mem := memset pa 1 4096 (mem s)\<rparr>"
  have ok: "cpu_ok ?s" "lock_free L_kmem ?s"
    using assms(1,2) by (simp_all add: cpu_ok_def lock_free_def machine_defs)
  have t: "(touch ?s)\<lparr>mem := m, freelist := r\<rparr> = (touch s)\<lparr>mem := m, freelist := r\<rparr>" for m r
    by (simp add: touch_def intr_get_def)
  show ?thesis using assms(3) acquire_eq [OF ok] unlock_freelist(2) [OF ok]
    by (simp add: kfree_def Let_def page_ok_def not_less not_le t)
qed

section \<open>The allocator implements a pool of pages\<close>

text \<open>
  The contract the rest of the kernel relies on.  \<open>pool s A\<close>: the allocator is ready in state
  \<open>s\<close> and \<open>A\<close> is the set of its free pages.
\<close>

locale page_pool =
  fixes pool :: "'s \<Rightarrow> uint64 set \<Rightarrow> bool" and ram :: "'s \<Rightarrow> mem" and valid :: "'s \<Rightarrow> uint64 \<Rightarrow> bool"
    and alloc :: "'s \<Rightarrow> ('s, uint64) outcome" and free :: "uint64 \<Rightarrow> 's \<Rightarrow> ('s, unit) outcome"
  assumes pool_valid: "pool s A \<Longrightarrow> p \<in> A \<Longrightarrow> valid s p \<and> p \<noteq> 0"
    and alloc_none: "pool s {} \<Longrightarrow> \<exists>t. alloc s = Ret 0 t \<and> pool t {} \<and> ram t = ram s \<and> valid t = valid s"
    and alloc_some: "pool s A \<Longrightarrow> A \<noteq> {} \<Longrightarrow> \<exists>p t. alloc s = Ret p t \<and> p \<in> A \<and> pool t (A - {p}) \<and>
      (\<forall>x. ram t x = (if in_range x p 4096 then 5 else ram s x)) \<and> valid t = valid s"
    and free_page: "pool s A \<Longrightarrow> valid s p \<Longrightarrow> p \<notin> A \<Longrightarrow> \<exists>t. free p s = Ret () t \<and> pool t (insert p A) \<and>
      (\<forall>x. \<not> in_range x p 4096 \<longrightarrow> ram t x = ram s x) \<and> valid t = valid s"
begin

lemma alloc_cases:
  assumes "pool s A"
  obtains (none) t where "alloc s = Ret 0 t" "A = {}" "pool t A" "ram t = ram s" "valid t = valid s"
  | (some) p t where "alloc s = Ret p t" "p \<noteq> 0" "p \<in> A" "pool t (A - {p})"
      "\<And>x. ram t x = (if in_range x p 4096 then 5 else ram s x)" "valid s p" "valid t = valid s"
proof (cases "A = {}")
  case True
  then show thesis using alloc_none [of s] assms none by blast
next
  case False
  then obtain p t where "alloc s = Ret p t" "p \<in> A" "pool t (A - {p})"
    "\<And>x. ram t x = (if in_range x p 4096 then 5 else ram s x)" "valid t = valid s"
    using alloc_some [OF assms] by blast
  then show thesis using pool_valid [OF assms] some by blast
qed

text \<open>A page that is allocated and given back leaves the pool as it was.\<close>

lemma alloc_free:
  assumes "pool s A" "alloc s = Ret p t" "p \<noteq> 0"
  shows "\<exists>u. free p t = Ret () u \<and> pool u A \<and> (\<forall>x. \<not> in_range x p 4096 \<longrightarrow> ram u x = ram s x)"
  using assms(1)
proof (cases rule: alloc_cases)
  case (none t')
  then show ?thesis using assms(2,3) by simp
next
  case (some p' t')
  then have eq: "p' = p" "t' = t" using assms(2) by simp_all
  have "valid t p" "p \<notin> A - {p}" using some eq by simp_all
  then obtain u where "free p t = Ret () u" "pool u (insert p (A - {p}))" "\<forall>x. \<not> in_range x p 4096 \<longrightarrow> ram u x = ram t x"
    using free_page [of t "A - {p}" p] some eq by blast
  then show ?thesis using some eq by (auto simp: insert_absorb)
qed

end

text \<open>The code's state and free list as an instance.\<close>

definition kpool :: "'z kstate_scheme \<Rightarrow> uint64 set \<Rightarrow> bool" where
  "kpool s A \<longleftrightarrow> cpu_ok s \<and> lock_free L_kmem s \<and> (\<exists>ps. kmem_inv s ps \<and> set ps = A)"

definition kvalid :: "'z kstate_scheme \<Rightarrow> uint64 \<Rightarrow> bool" where
  "kvalid s p \<longleftrightarrow> page_ok (kend s) p"

lemma kmem_ready [simp]:
  "cpu_ok (s\<lparr>mem := m\<rparr>) = cpu_ok s" "cpu_ok (s\<lparr>freelist := r\<rparr>) = cpu_ok s"
  "lock_free l (s\<lparr>mem := m\<rparr>) = lock_free l s" "lock_free l (s\<lparr>freelist := r\<rparr>) = lock_free l s"
  by (simp_all add: cpu_ok_def lock_free_def machine_defs)

lemma kalloc_pool:
  assumes "cpu_ok s" "lock_free L_kmem s" "kmem_inv s (p # ps)"
  defines "t \<equiv> (touch s)\<lparr>freelist := load64 (mem s) p, mem := memset p 5 4096 (mem s)\<rparr>"
  shows "kalloc s = Ret p t" "kmem_inv t ps" "cpu_ok t" "lock_free L_kmem t"
proof -
  have p: "freelist s = p" "p \<noteq> 0" using assms(3) by (auto simp: kmem_inv_def)
  then show "kalloc s = Ret p t" using kalloc_eq [OF assms(1,2)] by (simp add: t_def)
  have "load64 (memset p 5 4096 (mem s)) q = load64 (mem s) q" if "q \<in> set ps" for q
    using that assms(3) by (intro load64_memset_other pages_disjoint [of "kend s"]) (auto simp: kmem_inv_def)
  then show "kmem_inv t ps" using assms(3) chain_cong [of ps "memset p 5 4096 (mem s)" "mem s"]
    by (auto simp: kmem_inv_def t_def)
  show "cpu_ok t" "lock_free L_kmem t" using assms(1,2) by (simp_all add: t_def)
qed

lemma kfree_pool:
  assumes "cpu_ok s" "lock_free L_kmem s" "kmem_inv s ps" "page_ok (kend s) p" "p \<notin> set ps"
  defines "t \<equiv> (touch s)\<lparr>mem := store64 p (freelist s) (memset p 1 4096 (mem s)), freelist := p\<rparr>"
  shows "kfree p s = Ret () t" "kmem_inv t (p # ps)" "cpu_ok t" "lock_free L_kmem t"
proof -
  show "kfree p s = Ret () t" using kfree_eq [OF assms(1,2,4)] by (simp add: t_def)
  let ?m = "store64 p (freelist s) (memset p 1 4096 (mem s))"
  have "load64 ?m q = load64 (mem s) q" if "q \<in> set ps" for q
  proof -
    have q: "page_ok (kend s) q" "p \<noteq> q" using that assms(3,5) by (auto simp: kmem_inv_def)
    show ?thesis using pages_disjoint [OF assms(4) q(1,2)]
      by (simp add: load64_store64_other load64_memset_other)
  qed
  then show "kmem_inv t (p # ps)" using assms(3-5) chain_cong [of ps ?m "mem s"]
    by (auto simp: kmem_inv_def t_def page_ok_def)
  show "cpu_ok t" "lock_free L_kmem t" using assms(1,2) by (simp_all add: t_def)
qed

interpretation kmem: page_pool kpool mem kvalid kalloc kfree
proof
  fix s :: "'a kstate_scheme" and A p
  show "kvalid s p \<and> p \<noteq> 0" if "kpool s A" "p \<in> A"
    using that by (auto simp: kpool_def kvalid_def kmem_inv_def page_ok_def)
  show "\<exists>t. kalloc s = Ret 0 t \<and> kpool t {} \<and> mem t = mem s \<and> kvalid t = kvalid s" if "kpool s {}"
    using that kalloc_eq [of s] by (auto simp: kpool_def kmem_inv_def kvalid_def fun_eq_iff)
  show "\<exists>p t. kalloc s = Ret p t \<and> p \<in> A \<and> kpool t (A - {p}) \<and>
      (\<forall>x. mem t x = (if in_range x p 4096 then 5 else mem s x)) \<and> kvalid t = kvalid s"
    if pool: "kpool s A" "A \<noteq> {}"
  proof -
    obtain ps where ps: "cpu_ok s" "lock_free L_kmem s" "kmem_inv s ps" "A = set ps"
      using pool(1) by (auto simp: kpool_def)
    then obtain q qs where "ps = q # qs" using pool(2) by (cases ps) auto
    note ready = ps [unfolded this]
    have "A - {q} = set qs" using ready(3,4) by (auto simp: kmem_inv_def)
    then show ?thesis using kalloc_pool [OF ready(1-3)] ready(4)
      by (auto simp: kpool_def kvalid_def fun_eq_iff memset_eq)
  qed
  show "\<exists>t. kfree p s = Ret () t \<and> kpool t (insert p A) \<and> (\<forall>x. \<not> in_range x p 4096 \<longrightarrow> mem t x = mem s x) \<and>
      kvalid t = kvalid s" if "kpool s A" "kvalid s p" "p \<notin> A"
  proof -
    obtain ps where ready: "cpu_ok s" "lock_free L_kmem s" "kmem_inv s ps" "A = set ps"
      using \<open>kpool s A\<close> by (auto simp: kpool_def)
    have sub: "in_range x p 8 \<Longrightarrow> in_range x p 4096" for x by (simp add: in_range_def)
    show ?thesis using kfree_pool [OF ready(1-3), of p] ready(4) that(2,3) sub
      by (fastforce simp: kpool_def kvalid_def fun_eq_iff memset_eq store64_eq)
  qed
qed

section \<open>Sequences of allocator calls\<close>

text \<open>
  Any sequence of calls by clients that free only pages they hold; the set is what they hold.
\<close>

datatype kop = Kalloc | Kfree uint64

fun run_kops :: "kop list \<Rightarrow> uint64 set \<Rightarrow> 'z kstate_scheme \<Rightarrow> ('z kstate_scheme, uint64 set) outcome" where
  "run_kops [] held s = Ret held s"
| "run_kops (Kalloc # ops) held s =
     bnd (kalloc s) (\<lambda>r s. run_kops ops (if r = 0 then held else insert r held) s)"
| "run_kops (Kfree p # ops) held s =
     (if p \<in> held then bnd (kfree p s) (\<lambda>_ s. run_kops ops (held - {p}) s) else run_kops ops held s)"

lemma run_kops_ok:
  assumes "kpool s A" "held \<inter> A = {}" "\<forall>p \<in> held. kvalid s p"
  shows "\<exists>held' t A'. run_kops ops held s = Ret held' t \<and> kpool t A' \<and> held' \<inter> A' = {} \<and> held' \<union> A' = held \<union> A"
  using assms
proof (induction ops held s arbitrary: A rule: run_kops.induct)
  case (1 held s)
  then show ?case by auto
next
  case (2 ops held s)
  from 2(2) show ?case
  proof (cases rule: kmem.alloc_cases)
    case (none t)
    then show ?thesis using "2.IH" [of 0 t A] "2.prems" by auto
  next
    case (some p t)
    have "\<exists>held' u A'. run_kops ops (insert p held) t = Ret held' u \<and> kpool u A' \<and> held' \<inter> A' = {} \<and>
        held' \<union> A' = insert p held \<union> (A - {p})"
      using "2.IH" [of p t "A - {p}"] "2.prems" some by auto
    moreover have "insert p held \<union> (A - {p}) = held \<union> A" using some by auto
    ultimately show ?thesis using some by simp
  qed
next
  case (3 p ops held s)
  show ?case
  proof (cases "p \<in> held")
    case True
    then have v: "kvalid s p" "p \<notin> A" using "3.prems" by auto
    obtain t where t: "kfree p s = Ret () t" "kpool t (insert p A)" "kvalid t = kvalid s"
      using kmem.free_page [OF "3.prems"(1) v] by blast
    have "\<exists>held' u A'. run_kops ops (held - {p}) t = Ret held' u \<and> kpool u A' \<and> held' \<inter> A' = {} \<and>
        held' \<union> A' = (held - {p}) \<union> insert p A"
      using "3.IH"(1) [OF True, of "()" t "insert p A"] "3.prems" t by auto
    moreover have "(held - {p}) \<union> insert p A = held \<union> A" using True by auto
    ultimately show ?thesis using True t by simp
  next
    case False
    then show ?thesis using "3.IH"(2) [OF False "3.prems"] by simp
  qed
qed

text \<open>
  C3: The page allocator never loses a page and never hands one out twice.  Whatever the
  sequence of allocations and of frees of pages that are held, no call panics, and the pages
  held by clients and the pages on the free list always partition the same set of pages.
\<close>

theorem allocator_partition:
  assumes "kpool s A" "held \<inter> A = {}" "\<forall>p \<in> held. kvalid s p"
  shows "\<exists>held' t A'. run_kops ops held s = Ret held' t \<and> kpool t A' \<and> held' \<inter> A' = {} \<and> held' \<union> A' = held \<union> A"
  using assms by (rule run_kops_ok)

text \<open>The zero-initialised state at boot, for a kernel image that ends at \<open>0x80021d60\<close>.\<close>

definition kboot :: kstate where
  "kboot = kproc.extend boot \<lparr>mem = (\<lambda>_. 0), freelist = 0, kend = 0x80021d60, kernel_pagetable = 0\<rparr>"

lemma kboot_ok: "cpu_ok kboot" "proc_locks_free kboot" "lock_free l kboot" "freelist kboot = 0" "kend kboot = 0x80021d60"
  by (simp_all add: kboot_def boot_def kproc.defs cpu_ok_def proc_locks_free_def lock_free_def machine_defs)

theorem allocator_partition_witness:
  "\<exists>held t A. run_kops [Kfree 0x80200000, Kalloc, Kalloc] {0x80200000} kboot = Ret held t \<and>
     held \<union> A = {0x80200000} \<and> held \<inter> A = {}"
proof -
  have pool: "kpool kboot {}" using kboot_ok by (simp add: kpool_def kmem_inv_def)
  have valid: "\<forall>p \<in> {0x80200000}. kvalid kboot p"
    by (simp add: kvalid_def page_ok_def kboot_ok PGSIZE_def PHYSTOP_def KERNBASE_def)
  show ?thesis
    using allocator_partition [OF pool _ valid, of "[Kfree 0x80200000, Kalloc, Kalloc]"] by auto
qed

section \<open>Boot\<close>

definition page_list :: "uint64 \<Rightarrow> nat \<Rightarrow> uint64 list" where
  "page_list p n = map (\<lambda>i. p + of_nat i * PGSIZE) [0..<n]"

lemma page_list_Suc: "page_list p (Suc n) = p # page_list (p + PGSIZE) n"
  by (simp add: page_list_def upt_conv_Cons map_Suc_upt [symmetric] algebra_simps del: upt_Suc)

lemma set_page_list:
  assumes "unat p = 4096 * k" "unat p + 4096 * n \<le> 0x88000000"
  shows "set (page_list p n) = {x. x mod PGSIZE = 0 \<and> p \<le> x \<and> unat x < unat p + 4096 * n}"
proof -
  have u: "unat (p + of_nat i * PGSIZE) = unat p + 4096 * i" if "i < n" for i
  proof -
    have "p + of_nat i * PGSIZE = p + of_nat (4096 * i)" by (simp add: PGSIZE_def mult.commute)
    then show ?thesis using unat_add_small [of p "4096 * i"] assms(2) that by simp
  qed
  have "x \<in> set (page_list p n)" if x: "x mod PGSIZE = 0" "p \<le> x" "unat x < unat p + 4096 * n" for x
  proof -
    obtain j where j: "unat x = 4096 * j" using page_nat [OF x(1)] by blast
    have "k \<le> j" "j < k + n" using x(2,3) assms(1) j by (simp_all add: word_le_nat_alt)
    then have "x = p + of_nat (j - k) * PGSIZE" "j - k < n"
      using u [of "j - k"] assms(1) j by (simp_all add: word_unat_eq_iff)
    then show ?thesis by (auto simp: page_list_def)
  qed
  moreover have "x mod PGSIZE = 0 \<and> p \<le> x \<and> unat x < unat p + 4096 * n" if x: "x \<in> set (page_list p n)" for x
  proof -
    obtain i where "i < n" "x = p + of_nat i * PGSIZE" using x by (auto simp: page_list_def)
    then show ?thesis using u [of i] assms(1) by (simp add: page_mod word_le_nat_alt)
  qed
  ultimately show ?thesis by (intro set_eqI iffI) (simp_all only: mem_Collect_eq)
qed

declare freerange_loop.simps [simp del]

lemma freerange_loop_ok:
  assumes "cpu_ok s" "lock_free L_kmem s" "kmem_inv s ps" "p mod PGSIZE = 0" "kend s \<le> p" "p \<noteq> 0"
    and "unat p + 4096 * n \<le> unat e" "unat e < unat p + 4096 * n + 4096" "e \<le> PHYSTOP" "\<forall>q \<in> set ps. q < p"
  shows "\<exists>t. freerange_loop p e s = Ret () t \<and> kmem_inv t (rev (page_list p n) @ ps) \<and> cpu_ok t \<and> lock_free L_kmem t"
  using assms
proof (induction n arbitrary: p s ps)
  case 0
  have e: "unat e \<le> 0x88000000" using "0.prems"(9) PHYSTOP_nat by (simp add: word_le_nat_alt)
  have u: "unat (p + PGSIZE) = unat p + 4096"
    using unat_add_small [of p 4096] "0.prems"(7) e by (simp add: PGSIZE_def)
  then have "freerange_loop p e s = Ret () s"
    using "0.prems"(8) by (subst freerange_loop.simps) (simp add: word_less_nat_alt word_le_nat_alt)
  then show ?case using "0.prems" by (simp add: page_list_def)
next
  case (Suc n)
  note prems = Suc.prems
  have e: "unat e \<le> 0x88000000" using prems(9) PHYSTOP_nat by (simp add: word_le_nat_alt)
  have u: "unat (p + PGSIZE) = unat p + 4096"
    using unat_add_small [of p 4096] prems(7) e by (simp add: PGSIZE_def)
  have pg: "page_ok (kend s) p"
    using prems(4-7) e PHYSTOP_nat by (simp add: page_ok_def word_less_nat_alt)
  have new: "p \<notin> set ps" using prems(10) by auto
  let ?t = "(touch s)\<lparr>mem := store64 p (freelist s) (memset p 1 4096 (mem s)), freelist := p\<rparr>"
  note kf = kfree_pool [OF prems(1-3) pg new]
  have a: "(p + PGSIZE) mod PGSIZE = 0" using prems(4) u unfolding page_mod by simp
  have b: "kend ?t \<le> p + PGSIZE" "p + PGSIZE \<noteq> 0" "\<forall>q \<in> set (p # ps). q < p + PGSIZE"
    using prems(5,10) u by (auto simp: word_le_nat_alt word_less_nat_alt simp flip: unat_eq_0)
  have c: "unat (p + PGSIZE) + 4096 * n \<le> unat e" "unat e < unat (p + PGSIZE) + 4096 * n + 4096"
    using prems(7,8) u by simp_all
  obtain t where t: "freerange_loop (p + PGSIZE) e ?t = Ret () t"
      "kmem_inv t (rev (page_list (p + PGSIZE) n) @ p # ps)" "cpu_ok t" "lock_free L_kmem t"
    using Suc.IH [OF kf(3,4,2) a b(1,2) c prems(9) b(3)] by blast
  have "freerange_loop p e s = Ret () t"
    using prems(7) u kf(1) t(1) by (subst freerange_loop.simps) (simp add: word_less_nat_alt word_le_nat_alt)
  then show ?case using t by (intro exI [of _ t]) (simp add: page_list_Suc)
qed

text \<open>
  C30: Boot puts all of physical memory on the free list.  With the kernel image ending inside
  RAM, \<open>kinit\<close> succeeds and afterwards the free list holds exactly the pages between the end of
  the image, rounded up to a page, and \<open>PHYSTOP\<close>, each once.
\<close>

theorem kinit_frees_all:
  assumes "cpu_ok s" "freelist s = 0" "KERNBASE \<le> kend s" "kend s < PHYSTOP"
  shows "\<exists>t. kinit s = Ret () t \<and> kpool t
    {p. p mod PGSIZE = 0 \<and> kend s \<le> p \<and> p < PHYSTOP}"
proof -
  let ?s = "initlock L_kmem ''kmem'' s" and ?p = "PGROUNDUP (kend s)"
  let ?n = "(unat PHYSTOP - unat ?p) div 4096"
  have s: "cpu_ok ?s" "lock_free L_kmem ?s" "kmem_inv ?s []" "kend ?s = kend s"
    using assms(1,2) by (simp_all add: initlock_def upd_lock_def cpu_ok_def lock_free_def kmem_inv_def machine_defs)
  have kb: "0x80000000 \<le> unat (kend s)" "unat (kend s) < 0x88000000"
    using assms(3,4) PHYSTOP_nat by (simp_all add: word_le_nat_alt word_less_nat_alt KERNBASE_def)
  have up: "unat ?p = (unat (kend s) + 4095) div 4096 * 4096"
    using kb by (intro unat_PGROUNDUP) simp
  obtain q r where qr: "unat (kend s) + 4095 = q * 4096 + r" "r < 4096" "unat ?p = q * 4096"
  proof (rule that)
    show "unat (kend s) + 4095 = (unat (kend s) + 4095) div 4096 * 4096 + (unat (kend s) + 4095) mod 4096"
      by (simp only: div_mult_mod_eq)
    show "(unat (kend s) + 4095) mod 4096 < 4096" by simp
  qed (rule up)
  have "q * 4096 < 557057 * 4096" using qr(1) kb by linarith
  then have "q \<le> 557056" by simp
  then have le: "unat (kend s) \<le> unat ?p" "unat ?p \<le> 0x88000000" "unat ?p mod 4096 = 0"
    using qr kb by simp_all
  obtain k where k: "unat ?p = 4096 * k" using le(3) by (metis mod_0_imp_dvd dvdE)
  have n: "unat ?p + 4096 * ?n = unat PHYSTOP"
    using le(2) unfolding k PHYSTOP_nat by (simp add: k)
  have a: "?p mod PGSIZE = 0" "kend ?s \<le> ?p" using le s(4) by (simp_all only: page_mod word_le_nat_alt)
  have b: "?p \<noteq> 0" using le(1) kb(1) by (metis le_zero_eq order_trans unat_0 zero_neq_numeral)
  have c: "unat ?p + 4096 * ?n \<le> unat PHYSTOP" "unat PHYSTOP < unat ?p + 4096 * ?n + 4096" using n by simp_all
  obtain t where t: "freerange_loop ?p PHYSTOP ?s = Ret () t" "kmem_inv t (rev (page_list ?p ?n) @ [])"
    "cpu_ok t" "lock_free L_kmem t"
    using freerange_loop_ok [OF s(1-3) a b c] by auto
  have iff: "?p \<le> x \<longleftrightarrow> kend s \<le> x" if "x mod PGSIZE = 0" for x
    unfolding word_le_nat_alt up using page_nat [OF that] by auto
  have set1: "set (page_list ?p ?n) = {x. x mod PGSIZE = 0 \<and> ?p \<le> x \<and> unat x < unat ?p + 4096 * ?n}"
    using k n PHYSTOP_nat by (intro set_page_list) auto
  have "set (page_list ?p ?n) = {p. p mod PGSIZE = 0 \<and> kend s \<le> p \<and> p < PHYSTOP}"
    unfolding set1 n word_less_nat_alt by (intro Collect_cong conj_cong refl iff)
  then show ?thesis using t s(4) by (intro exI [of _ t]) (simp add: kinit_def freerange_def kpool_def, metis append_Nil2 set_rev)
qed

theorem kinit_frees_all_witness:
  "\<exists>t A. kinit kboot = Ret () t \<and> kpool t A \<and> 0x80200000 \<in> A"
proof -
  have "KERNBASE \<le> kend kboot" "kend kboot < PHYSTOP"
    by (simp_all add: kboot_ok KERNBASE_def PHYSTOP_def)
  from kinit_frees_all [OF kboot_ok(1,4) this]
  obtain t where "kinit kboot = Ret () t" "kpool t {p. p mod PGSIZE = 0 \<and> kend kboot \<le> p \<and> p < PHYSTOP}" by blast
  moreover have "0x80200000 \<in> {p. p mod PGSIZE = 0 \<and> kend kboot \<le> p \<and> p < PHYSTOP}"
    by (simp add: kboot_ok PGSIZE_def PHYSTOP_def KERNBASE_def)
  ultimately show ?thesis by (intro exI conjI)
qed

end
