(* ===== verification/Vm.thy ===== *)
theory Vm
  imports Kalloc
begin

text \<open>
  Page tables, \<^verbatim>\<open>kernel/vm.c\<close>.  A page table is the physical address of its root page; the
  entries are the 64-bit words in physical memory, read and written as the code reads and
  writes them.  A pointer to an entry is its address, \<open>0\<close> is the null pointer.
\<close>

section \<open>Walking\<close>

text \<open>\<^verbatim>\<open>&pagetable[PX(level, va)]\<close>\<close>

definition pte_addr :: "nat \<Rightarrow> uint64 \<Rightarrow> uint64 \<Rightarrow> uint64" where
  "pte_addr level pagetable va = pagetable + 8 * PX level va"

text \<open>The loop of \<open>walk\<close>, from the given level down.\<close>

fun walk_level :: "nat \<Rightarrow> uint64 \<Rightarrow> uint64 \<Rightarrow> bool \<Rightarrow> 'z kstate_scheme \<Rightarrow> ('z kstate_scheme, uint64) outcome" where
  "walk_level 0 pagetable va alloc s = Ret (pte_addr 0 pagetable va) s"
| "walk_level (Suc l) pagetable va alloc s =
     (let pte = pte_addr (Suc l) pagetable va; e = load64 (mem s) pte in
      if e AND PTE_V \<noteq> 0 then walk_level l (PTE2PA e) va alloc s
      else if \<not> alloc then Ret 0 s
      else bnd (kalloc s) (\<lambda>pg s.
        if pg = 0 then Ret 0 s
        else walk_level l pg va alloc
          (s\<lparr>mem := store64 pte (PA2PTE pg OR PTE_V) (memset pg 0 (unat PGSIZE) (mem s))\<rparr>)))"

definition walk :: "uint64 \<Rightarrow> uint64 \<Rightarrow> bool \<Rightarrow> 'z kstate_scheme \<Rightarrow> ('z kstate_scheme, uint64) outcome" where
  "walk pagetable va alloc s =
     (if va \<ge> MAXVA then Panic ''walk'' else walk_level 2 pagetable va alloc s)"

definition walkaddr :: "uint64 \<Rightarrow> uint64 \<Rightarrow> 'z kstate_scheme \<Rightarrow> ('z kstate_scheme, uint64) outcome" where
  "walkaddr pagetable va s =
     (if va \<ge> MAXVA then Ret 0 s
      else bnd (walk pagetable va False s) (\<lambda>pte s.
        if pte = 0 then Ret 0 s
        else if load64 (mem s) pte AND PTE_V = 0 then Ret 0 s
        else if load64 (mem s) pte AND PTE_U = 0 then Ret 0 s
        else Ret (PTE2PA (load64 (mem s) pte)) s))"

lemma walk_Ret_MAXVA: "walk pagetable va alloc s = Ret pte t \<Longrightarrow> va < MAXVA"
  by (simp add: walk_def not_le split: if_splits)

text \<open>An address below \<open>MAXVA\<close> can be advanced by a page without wrapping.\<close>

lemma page_step_less:
  assumes "a < MAXVA"
  shows "18446744073709551616 - unat (a + PGSIZE) < 18446744073709551616 - unat a"
proof -
  have "unat a < 274877906944" using assms by (simp add: MAXVA_def word_less_nat_alt)
  then have "unat (a + PGSIZE) = unat a + 4096"
    using unat_add_small [of a 4096] by (simp add: PGSIZE_def)
  then show ?thesis using unat_lt [of "a + PGSIZE"] by linarith
qed

section \<open>Mapping and unmapping\<close>

function mappages_loop ::
  "uint64 \<Rightarrow> uint64 \<Rightarrow> uint64 \<Rightarrow> uint64 \<Rightarrow> uint64 \<Rightarrow> 'z kstate_scheme \<Rightarrow> ('z kstate_scheme, int) outcome" where
  "mappages_loop pagetable a lst pa perm s =
     bnd (walk pagetable a True s) (\<lambda>pte s.
       if pte = 0 then Ret (-1) s
       else if load64 (mem s) pte AND PTE_V \<noteq> 0 then Panic ''mappages: remap''
       else
         let s = s\<lparr>mem := store64 pte (PA2PTE pa OR perm OR PTE_V) (mem s)\<rparr> in
         if a = lst then Ret 0 s
         else mappages_loop pagetable (a + PGSIZE) lst (pa + PGSIZE) perm s)"
  by pat_completeness auto
termination
  by (relation "measure (\<lambda>(pt, a, _). 18446744073709551616 - unat a)")
    (auto dest!: walk_Ret_MAXVA intro: page_step_less)

declare mappages_loop.simps [simp del]

definition mappages ::
  "uint64 \<Rightarrow> uint64 \<Rightarrow> uint64 \<Rightarrow> uint64 \<Rightarrow> uint64 \<Rightarrow> 'z kstate_scheme \<Rightarrow> ('z kstate_scheme, int) outcome" where
  "mappages pagetable va sz pa perm s =
     (if sz = 0 then Panic ''mappages: size''
      else mappages_loop pagetable (PGROUNDDOWN va) (PGROUNDDOWN (va + sz - 1)) pa perm s)"

definition kvmmap ::
  "uint64 \<Rightarrow> uint64 \<Rightarrow> uint64 \<Rightarrow> uint64 \<Rightarrow> uint64 \<Rightarrow> 'z kstate_scheme \<Rightarrow> ('z kstate_scheme, unit) outcome" where
  "kvmmap kpgtbl va pa sz perm s =
     bnd (mappages kpgtbl va sz pa perm s) (\<lambda>r s. if r \<noteq> 0 then Panic ''kvmmap'' else Ret () s)"

function uvmunmap_loop ::
  "uint64 \<Rightarrow> uint64 \<Rightarrow> uint64 \<Rightarrow> bool \<Rightarrow> 'z kstate_scheme \<Rightarrow> ('z kstate_scheme, unit) outcome" where
  "uvmunmap_loop pagetable a stop do_free s =
     (if a < stop then
        bnd (walk pagetable a False s) (\<lambda>pte s.
          if pte = 0 then Panic ''uvmunmap: walk''
          else if load64 (mem s) pte AND PTE_V = 0 then Panic ''uvmunmap: not mapped''
          else if PTE_FLAGS (load64 (mem s) pte) = PTE_V then Panic ''uvmunmap: not a leaf''
          else
            bnd (if do_free then kfree (PTE2PA (load64 (mem s) pte)) s else Ret () s) (\<lambda>_ s.
              uvmunmap_loop pagetable (a + PGSIZE) stop do_free (s\<lparr>mem := store64 pte 0 (mem s)\<rparr>)))
      else Ret () s)"
  by pat_completeness auto
termination
  by (relation "measure (\<lambda>(pt, a, _). 18446744073709551616 - unat a)")
    (auto dest!: walk_Ret_MAXVA intro: page_step_less)

declare uvmunmap_loop.simps [simp del]

definition uvmunmap :: "uint64 \<Rightarrow> uint64 \<Rightarrow> uint64 \<Rightarrow> bool \<Rightarrow> 'z kstate_scheme \<Rightarrow> ('z kstate_scheme, unit) outcome" where
  "uvmunmap pagetable va npages do_free s =
     (if va mod PGSIZE \<noteq> 0 then Panic ''uvmunmap: not aligned''
      else uvmunmap_loop pagetable va (va + npages * PGSIZE) do_free s)"

definition uvmcreate :: "'z kstate_scheme \<Rightarrow> ('z kstate_scheme, uint64) outcome" where
  "uvmcreate s =
     bnd (kalloc s) (\<lambda>pagetable s.
       if pagetable = 0 then Ret 0 s
       else Ret pagetable (s\<lparr>mem := memset pagetable 0 (unat PGSIZE) (mem s)\<rparr>))"

text \<open>
  \<open>uvmfirst\<close> copies from the kernel's data segment, whose address is an argument; the results
  of \<open>kalloc\<close> and \<open>mappages\<close> are not checked.
\<close>

definition uvmfirst :: "uint64 \<Rightarrow> uint64 \<Rightarrow> uint64 \<Rightarrow> 'z kstate_scheme \<Rightarrow> ('z kstate_scheme, unit) outcome" where
  "uvmfirst pagetable src sz s =
     (if sz \<ge> PGSIZE then Panic ''uvmfirst: more than a page''
      else bnd (kalloc s) (\<lambda>m s.
        let s = s\<lparr>mem := memset m 0 (unat PGSIZE) (mem s)\<rparr> in
        bnd (mappages pagetable 0 PGSIZE m (PTE_W OR PTE_R OR PTE_X OR PTE_U) s) (\<lambda>_ s.
          Ret () (s\<lparr>mem := memmove m src (unat sz) (mem s)\<rparr>))))"

section \<open>Growing and shrinking\<close>

text \<open>The page count is stored in an \<^verbatim>\<open>int\<close> and converted back to 64 bits by the call.\<close>

definition uvmdealloc :: "uint64 \<Rightarrow> uint64 \<Rightarrow> uint64 \<Rightarrow> 'z kstate_scheme \<Rightarrow> ('z kstate_scheme, uint64) outcome" where
  "uvmdealloc pagetable oldsz newsz s =
     (if newsz \<ge> oldsz then Ret oldsz s
      else bnd
        (if PGROUNDUP newsz < PGROUNDUP oldsz then
           let npages = wrap32 (uint ((PGROUNDUP oldsz - PGROUNDUP newsz) div PGSIZE)) in
           uvmunmap pagetable (PGROUNDUP newsz) (of_int npages) True s
         else Ret () s) (\<lambda>_ s. Ret newsz s))"

lemma mappages_loop_Ret_MAXVA: "mappages_loop pagetable a lst pa perm s = Ret r t \<Longrightarrow> a < MAXVA"
  by (subst (asm) mappages_loop.simps) (auto simp: bnd_eq_Ret dest: walk_Ret_MAXVA)

lemma mappages_step_less:
  assumes "mappages pagetable a sz pa perm s = Ret r t"
  shows "18446744073709551616 - unat (a + PGSIZE) < 18446744073709551616 - unat a"
proof -
  have "PGROUNDDOWN a < MAXVA" using assms by (auto simp: mappages_def dest: mappages_loop_Ret_MAXVA split: if_splits)
  then have "unat a div 4096 * 4096 < 274877906944"
    by (simp add: MAXVA_def word_less_nat_alt unat_PGROUNDDOWN)
  moreover have "unat a div 4096 * 4096 + unat a mod 4096 = unat a" "unat a mod 4096 < 4096"
    by (simp_all only: div_mult_mod_eq mod_less_divisor zero_less_numeral)
  ultimately have "unat a < 274877911040" by linarith
  then have "unat (a + PGSIZE) = unat a + 4096"
    using unat_add_small [of a 4096] by (simp add: PGSIZE_def)
  then show ?thesis using unat_lt [of "a + PGSIZE"] by linarith
qed

function uvmalloc_loop ::
  "uint64 \<Rightarrow> uint64 \<Rightarrow> uint64 \<Rightarrow> uint64 \<Rightarrow> uint64 \<Rightarrow> 'z kstate_scheme \<Rightarrow> ('z kstate_scheme, uint64) outcome" where
  "uvmalloc_loop pagetable a oldsz newsz xperm s =
     (if a < newsz then
        bnd (kalloc s) (\<lambda>m s.
          if m = 0 then bnd (uvmdealloc pagetable a oldsz s) (\<lambda>_ s. Ret 0 s)
          else
            let s = s\<lparr>mem := memset m 0 (unat PGSIZE) (mem s)\<rparr> in
            bnd (mappages pagetable a PGSIZE m (PTE_R OR PTE_U OR xperm) s) (\<lambda>r s.
              if r \<noteq> 0 then
                bnd (kfree m s) (\<lambda>_ s. bnd (uvmdealloc pagetable a oldsz s) (\<lambda>_ s. Ret 0 s))
              else uvmalloc_loop pagetable (a + PGSIZE) oldsz newsz xperm s))
      else Ret newsz s)"
  by pat_completeness auto
termination
  by (relation "measure (\<lambda>(pt, a, _). 18446744073709551616 - unat a)")
    (auto dest: mappages_step_less)

declare uvmalloc_loop.simps [simp del]

definition uvmalloc ::
  "uint64 \<Rightarrow> uint64 \<Rightarrow> uint64 \<Rightarrow> uint64 \<Rightarrow> 'z kstate_scheme \<Rightarrow> ('z kstate_scheme, uint64) outcome" where
  "uvmalloc pagetable oldsz newsz xperm s =
     (if newsz < oldsz then Ret oldsz s
      else uvmalloc_loop pagetable (PGROUNDUP oldsz) (PGROUNDUP oldsz) newsz xperm s)"

section \<open>Freeing page tables\<close>

text \<open>
  \<open>freewalk\<close> recurses into page-table pages; the first argument bounds the depth of the
  recursion (three levels for a page table this kernel builds).
\<close>

fun freewalk :: "nat \<Rightarrow> uint64 \<Rightarrow> 'z kstate_scheme \<Rightarrow> ('z kstate_scheme, unit) outcome" where
  "freewalk 0 pagetable s = Fault ''freewalk: too deep''"
| "freewalk (Suc depth) pagetable s =
     bnd (for_each [0..<512] (\<lambda>i s.
       let a = pagetable + 8 * of_nat i; pte = load64 (mem s) a in
       if pte AND PTE_V \<noteq> 0 \<and> pte AND (PTE_R OR PTE_W OR PTE_X) = 0 then
         bnd (freewalk depth (PTE2PA pte) s) (\<lambda>_ s. Ret () (s\<lparr>mem := store64 a 0 (mem s)\<rparr>))
       else if pte AND PTE_V \<noteq> 0 then Panic ''freewalk: leaf''
       else Ret () s) s)
     (\<lambda>_ s. kfree pagetable s)"

definition uvmfree :: "uint64 \<Rightarrow> uint64 \<Rightarrow> 'z kstate_scheme \<Rightarrow> ('z kstate_scheme, unit) outcome" where
  "uvmfree pagetable sz s =
     bnd (if sz > 0 then uvmunmap pagetable 0 (PGROUNDUP sz div PGSIZE) True s else Ret () s)
       (\<lambda>_ s. freewalk 3 pagetable s)"

section \<open>Copying an address space\<close>

function uvmcopy_loop ::
  "uint64 \<Rightarrow> uint64 \<Rightarrow> uint64 \<Rightarrow> uint64 \<Rightarrow> 'z kstate_scheme \<Rightarrow> ('z kstate_scheme, int) outcome" where
  "uvmcopy_loop old new i sz s =
     (if i < sz then
        bnd (walk old i False s) (\<lambda>pte s.
          if pte = 0 then Panic ''uvmcopy: pte should exist''
          else if load64 (mem s) pte AND PTE_V = 0 then Panic ''uvmcopy: page not present''
          else
            let pa = PTE2PA (load64 (mem s) pte); flags = PTE_FLAGS (load64 (mem s) pte) in
            bnd (kalloc s) (\<lambda>m s.
              if m = 0 then bnd (uvmunmap new 0 (i div PGSIZE) True s) (\<lambda>_ s. Ret (-1) s)
              else
                let s = s\<lparr>mem := memmove m pa (unat PGSIZE) (mem s)\<rparr> in
                bnd (mappages new i PGSIZE m flags s) (\<lambda>r s.
                  if r \<noteq> 0 then
                    bnd (kfree m s) (\<lambda>_ s. bnd (uvmunmap new 0 (i div PGSIZE) True s) (\<lambda>_ s. Ret (-1) s))
                  else uvmcopy_loop old new (i + PGSIZE) sz s)))
      else Ret 0 s)"
  by pat_completeness auto
termination
  by (relation "measure (\<lambda>(old, new, i, _). 18446744073709551616 - unat i)")
    (auto dest!: walk_Ret_MAXVA intro: page_step_less)

declare uvmcopy_loop.simps [simp del]

definition uvmcopy :: "uint64 \<Rightarrow> uint64 \<Rightarrow> uint64 \<Rightarrow> 'z kstate_scheme \<Rightarrow> ('z kstate_scheme, int) outcome" where
  "uvmcopy old new sz s = uvmcopy_loop old new 0 sz s"

definition uvmclear :: "uint64 \<Rightarrow> uint64 \<Rightarrow> 'z kstate_scheme \<Rightarrow> ('z kstate_scheme, unit) outcome" where
  "uvmclear pagetable va s =
     bnd (walk pagetable va False s) (\<lambda>pte s.
       if pte = 0 then Panic ''uvmclear''
       else Ret () (s\<lparr>mem := store64 pte (load64 (mem s) pte AND NOT PTE_U) (mem s)\<rparr>))"

section \<open>The kernel's page table\<close>

definition UART0 :: uint64 where "UART0 = 0x10000000"
definition VIRTIO0 :: uint64 where "VIRTIO0 = 0x10001000"
definition PLIC :: uint64 where "PLIC = 0x0c000000"

definition proc_mapstacks :: "uint64 \<Rightarrow> 'z kstate_scheme \<Rightarrow> ('z kstate_scheme, unit) outcome" where
  "proc_mapstacks kpgtbl s =
     for_each [0..<NPROC] (\<lambda>p s.
       bnd (kalloc s) (\<lambda>pa s.
         if pa = 0 then Panic ''kalloc''
         else kvmmap kpgtbl (KSTACK p) pa PGSIZE (PTE_R OR PTE_W) s)) s"

text \<open>The linker symbols \<^verbatim>\<open>etext\<close> and \<^verbatim>\<open>trampoline\<close> are arguments.\<close>

definition kvmmake :: "uint64 \<Rightarrow> uint64 \<Rightarrow> 'z kstate_scheme \<Rightarrow> ('z kstate_scheme, uint64) outcome" where
  "kvmmake etext trampoline s =
     bnd (kalloc s) (\<lambda>kpgtbl s.
     let s = s\<lparr>mem := memset kpgtbl 0 (unat PGSIZE) (mem s)\<rparr> in
     bnd (kvmmap kpgtbl UART0 UART0 PGSIZE (PTE_R OR PTE_W) s) (\<lambda>_ s.
     bnd (kvmmap kpgtbl VIRTIO0 VIRTIO0 PGSIZE (PTE_R OR PTE_W) s) (\<lambda>_ s.
     bnd (kvmmap kpgtbl PLIC PLIC 0x400000 (PTE_R OR PTE_W) s) (\<lambda>_ s.
     bnd (kvmmap kpgtbl KERNBASE KERNBASE (etext - KERNBASE) (PTE_R OR PTE_X) s) (\<lambda>_ s.
     bnd (kvmmap kpgtbl etext etext (PHYSTOP - etext) (PTE_R OR PTE_W) s) (\<lambda>_ s.
     bnd (kvmmap kpgtbl TRAMPOLINE trampoline PGSIZE (PTE_R OR PTE_X) s) (\<lambda>_ s.
     bnd (proc_mapstacks kpgtbl s) (\<lambda>_ s. Ret kpgtbl s))))))))"

definition kvminit :: "uint64 \<Rightarrow> uint64 \<Rightarrow> 'z kstate_scheme \<Rightarrow> ('z kstate_scheme, unit) outcome" where
  "kvminit etext trampoline s =
     bnd (kvmmake etext trampoline s) (\<lambda>kpgtbl s. Ret () (s\<lparr>kernel_pagetable := kpgtbl\<rparr>))"

definition kvminithart :: "'z kstate_scheme \<Rightarrow> 'z kstate_scheme" where
  "kvminithart s = upd_csr (\<lambda>c. c\<lparr>satp := MAKE_SATP (kernel_pagetable s)\<rparr>) s"

section \<open>Copying between user and kernel memory\<close>

text \<open>The number of bytes up to the end of the page, at most \<open>len\<close>; it is never zero.\<close>

definition chunk :: "uint64 \<Rightarrow> uint64 \<Rightarrow> uint64" where
  "chunk va len = (let n = PGSIZE - (va - PGROUNDDOWN va) in if n > len then len else n)"

lemma page_offset: "unat (va - PGROUNDDOWN va) = unat va mod 4096"
proof -
  have "PGROUNDDOWN va \<le> va"
    by (simp add: word_le_nat_alt unat_PGROUNDDOWN)
  then have "unat (va - PGROUNDDOWN va) = unat va - unat (PGROUNDDOWN va)" by (rule unat_sub)
  then show ?thesis by (simp add: unat_PGROUNDDOWN minus_div_mult_eq_mod)
qed

lemma unat_chunk: "unat (chunk va len) = min (unat len) (4096 - unat va mod 4096)"
proof -
  have "va - PGROUNDDOWN va \<le> PGSIZE"
    unfolding word_le_nat_alt page_offset by simp
  then have n: "unat (PGSIZE - (va - PGROUNDDOWN va)) = 4096 - unat va mod 4096"
    by (subst unat_sub) (simp_all add: page_offset)
  show ?thesis by (simp add: chunk_def Let_def word_less_nat_alt n min_def)
qed

lemma chunk_le: "unat (chunk va len) \<le> unat len" and chunk_pos: "0 < len \<Longrightarrow> 0 < unat (chunk va len)"
  unfolding unat_chunk by (simp_all add: word_less_nat_alt)

lemma chunk_step: "0 < len \<Longrightarrow> unat (len - chunk va len) < unat len"
proof -
  assume "0 < len"
  moreover have "unat (len - chunk va len) = unat len - unat (chunk va len)"
    using chunk_le [of va len] by (intro unat_sub) (simp add: word_le_nat_alt)
  ultimately show ?thesis using chunk_pos [of len va] chunk_le [of va len] by linarith
qed

function copyout :: "uint64 \<Rightarrow> uint64 \<Rightarrow> uint64 \<Rightarrow> uint64 \<Rightarrow> 'z kstate_scheme \<Rightarrow> ('z kstate_scheme, int) outcome" where
  "copyout pagetable dstva src len s =
     (if len > 0 then
        let va0 = PGROUNDDOWN dstva in
        bnd (walkaddr pagetable va0 s) (\<lambda>pa0 s.
          if pa0 = 0 then Ret (-1) s
          else
            let n = chunk dstva len;
                s = s\<lparr>mem := memmove (pa0 + (dstva - va0)) src (unat n) (mem s)\<rparr> in
            copyout pagetable (va0 + PGSIZE) (src + n) (len - n) s)
      else Ret 0 s)"
  by pat_completeness auto
termination
  by (relation "measure (\<lambda>(pt, va, src, len, _). unat len)") (auto intro: chunk_step)

declare copyout.simps [simp del]

function copyin :: "uint64 \<Rightarrow> uint64 \<Rightarrow> uint64 \<Rightarrow> uint64 \<Rightarrow> 'z kstate_scheme \<Rightarrow> ('z kstate_scheme, int) outcome" where
  "copyin pagetable dst srcva len s =
     (if len > 0 then
        let va0 = PGROUNDDOWN srcva in
        bnd (walkaddr pagetable va0 s) (\<lambda>pa0 s.
          if pa0 = 0 then Ret (-1) s
          else
            let n = chunk srcva len;
                s = s\<lparr>mem := memmove dst (pa0 + (srcva - va0)) (unat n) (mem s)\<rparr> in
            copyin pagetable (dst + n) (va0 + PGSIZE) (len - n) s)
      else Ret 0 s)"
  by pat_completeness auto
termination
  by (relation "measure (\<lambda>(pt, dst, va, len, _). unat len)") (auto intro: chunk_step)

declare copyin.simps [simp del]

text \<open>The inner loop of \<open>copyinstr\<close>: whether a zero was copied, and the updated memory.\<close>

fun copystr_chunk :: "nat \<Rightarrow> uint64 \<Rightarrow> uint64 \<Rightarrow> mem \<Rightarrow> bool \<times> mem" where
  "copystr_chunk 0 p dst m = (False, m)"
| "copystr_chunk (Suc n) p dst m =
     (if m p = 0 then (True, m(dst := 0)) else copystr_chunk n (p + 1) (dst + 1) (m(dst := m p)))"

function copyinstr :: "uint64 \<Rightarrow> uint64 \<Rightarrow> uint64 \<Rightarrow> uint64 \<Rightarrow> 'z kstate_scheme \<Rightarrow> ('z kstate_scheme, int) outcome" where
  "copyinstr pagetable dst srcva mx s =
     (if mx > 0 then
        let va0 = PGROUNDDOWN srcva in
        bnd (walkaddr pagetable va0 s) (\<lambda>pa0 s.
          if pa0 = 0 then Ret (-1) s
          else
            let n = chunk srcva mx;
                (got_null, m) = copystr_chunk (unat n) (pa0 + (srcva - va0)) dst (mem s);
                s = s\<lparr>mem := m\<rparr> in
            if got_null then Ret 0 s
            else copyinstr pagetable (dst + n) (va0 + PGSIZE) (mx - n) s)
      else Ret (-1) s)"
  by pat_completeness auto
termination
  by (relation "measure (\<lambda>(pt, dst, va, len, _). unat len)") (auto intro: chunk_step)

declare copyinstr.simps [simp del]

end
