(* ===== verification/Pagetable.thy ===== *)
theory Pagetable
  imports Vm
begin

text \<open>
  What the page-table code guarantees.  A page table is seen as a tree of pages in physical
  memory (\<open>ptree\<close>, \<open>wf_pt\<close>) and as a map from virtual addresses to leaf entries (\<open>vmap\<close>).
  The code's loads and stores are shown to implement updates of that map, with all pages
  accounted for: a page is on the free list, or in the tree, or neither, and the operations
  move pages between the two without losing one.
\<close>

section \<open>Entries and bytes\<close>

definition valid :: "uint64 \<Rightarrow> bool" where
  "valid e \<longleftrightarrow> e AND PTE_V \<noteq> 0"

text \<open>An entry without access bits points to the next level.\<close>

definition pointer :: "uint64 \<Rightarrow> bool" where
  "pointer e \<longleftrightarrow> e AND (PTE_R OR PTE_W OR PTE_X) = 0"

definition entry :: "mem \<Rightarrow> uint64 \<Rightarrow> nat \<Rightarrow> uint64" where
  "entry m pt i = load64 m (pt + 8 * of_nat i)"

text \<open>Memory that agrees on the bytes of a page.\<close>

definition same_page_bytes :: "mem \<Rightarrow> mem \<Rightarrow> uint64 \<Rightarrow> bool" where
  "same_page_bytes m m' p \<longleftrightarrow> (\<forall>x. in_range x p 4096 \<longrightarrow> m x = m' x)"

lemma same_page_sym: "same_page_bytes m m' p \<Longrightarrow> same_page_bytes m' m p"
  by (simp add: same_page_bytes_def)

lemma in_page_entry:
  assumes "i < 512" "in_range x (p + 8 * of_nat i) 8"
  shows "in_range x p 4096"
proof -
  have "x - p = (x - (p + 8 * of_nat i)) + of_nat (8 * i)" by simp
  moreover have "unat (x - (p + 8 * of_nat i)) < 8" using assms(2) by (simp add: in_range_def)
  ultimately have "unat (x - p) = unat (x - (p + 8 * of_nat i)) + 8 * i"
    using unat_add_small [of "x - (p + 8 * of_nat i)" "8 * i"] assms(1) by simp
  then show ?thesis using assms \<open>unat (x - (p + 8 * of_nat i)) < 8\<close> by (simp add: in_range_def)
qed

lemma entry_cong: "i < 512 \<Longrightarrow> same_page_bytes m m' p \<Longrightarrow> entry m p i = entry m' p i"
  unfolding entry_def same_page_bytes_def by (rule load64_cong) (blast intro: in_page_entry)

lemma entries_disjoint:
  assumes "i < 512" "j < 512" "i \<noteq> j"
  shows "disjoint_ranges (p + 8 * of_nat i) 8 (p + 8 * of_nat j) 8"
  unfolding disjoint_ranges_def
proof (intro allI notI)
  fix x assume x: "in_range x (p + 8 * of_nat i) 8 \<and> in_range x (p + 8 * of_nat j) 8"
  have *: "unat (x - p) = unat (x - (p + 8 * of_nat k)) + 8 * k \<and> unat (x - (p + 8 * of_nat k)) < 8"
    if "k < 512" "in_range x (p + 8 * of_nat k) 8" for k
  proof -
    have "x - p = (x - (p + 8 * of_nat k)) + of_nat (8 * k)" by simp
    moreover have "unat (x - (p + 8 * of_nat k)) < 8" using that(2) by (simp add: in_range_def)
    ultimately show ?thesis
      using unat_add_small [of "x - (p + 8 * of_nat k)" "8 * k"] that(1) by simp
  qed
  from * [OF assms(1)] * [OF assms(2)] x assms(3) show False by (simp; linarith)
qed

lemma entry_store: "i < 512 \<Longrightarrow> j < 512 \<Longrightarrow>
    entry (store64 (p + 8 * of_nat i) v m) p j = (if j = i then v else entry m p j)"
  by (auto simp: entry_def load64_store64_other entries_disjoint)

lemma same_page_store:
  "page_ok e p \<Longrightarrow> page_ok e q \<Longrightarrow> p \<noteq> q \<Longrightarrow> i < 512 \<Longrightarrow> same_page_bytes (store64 (p + 8 * of_nat i) v m) m q"
  using pages_disjoint [of e p q 4096 4096]
  by (auto simp: same_page_bytes_def store64_eq disjoint_ranges_def dest: in_page_entry)

lemma page_and_mask: "p mod PGSIZE = 0 \<longleftrightarrow> p AND 4095 = 0"
proof -
  have "p AND 4095 = take_bit 12 p" by (simp add: take_bit_eq_mask mask_eq_exp_minus_1)
  also have "\<dots> = p mod PGSIZE" by (simp add: take_bit_eq_mod PGSIZE_def)
  finally show ?thesis by simp
qed

lemma flags_V: "PTE_V AND NOT 0x3FF = 0" "valid (PA2PTE p OR PTE_V)" "valid (e OR PTE_V)" "\<not> valid 0"
proof -
  show "PTE_V AND NOT 0x3FF = 0" by (simp add: PTE_V_def)
  have "bit ((e OR PTE_V) AND PTE_V) 0" for e by (simp add: PTE_V_def bit_simps)
  then have "(e OR PTE_V) AND PTE_V \<noteq> 0" for e by (metis bit_0_eq bot_apply bot_bool_def)
  then show "valid (PA2PTE p OR PTE_V)" "valid (e OR PTE_V)" by (simp_all add: valid_def)
qed (simp add: valid_def)

lemma pointer_V: "pointer (PA2PTE p OR PTE_V)"
proof -
  have "bit (PTE_R OR PTE_W OR PTE_X) n \<Longrightarrow> n \<in> {1, 2, 3}" for n
    unfolding PTE_R_def PTE_W_def PTE_X_def bit_or_iff bit_push_bit_iff bit_1_iff by auto
  then show ?thesis unfolding pointer_def
    by (intro bit_word_eqI) (fastforce simp: bit_and_iff bit_or_iff PA2PTE_bit PTE_V_def bit_simps)
qed

lemma PTE2PA_V: "page_ok e p \<Longrightarrow> PTE2PA (PA2PTE p OR PTE_V) = p"
  using PTE2PA_PA2PTE [OF _ flags_V(1), of p] by (simp add: page_ok_def page_and_mask)

section \<open>Page tables as trees\<close>

fun ptree :: "nat \<Rightarrow> mem \<Rightarrow> uint64 \<Rightarrow> uint64 set" where
  "ptree 0 m pt = {pt}"
| "ptree (Suc l) m pt =
     insert pt (\<Union>i \<in> {i. i < 512 \<and> valid (entry m pt i)}. ptree l m (PTE2PA (entry m pt i)))"

fun wf_pt :: "nat \<Rightarrow> uint64 \<Rightarrow> mem \<Rightarrow> uint64 \<Rightarrow> bool" where
  "wf_pt 0 e m pt \<longleftrightarrow> page_ok e pt"
| "wf_pt (Suc l) e m pt \<longleftrightarrow> page_ok e pt \<and>
     (\<forall>i < 512. valid (entry m pt i) \<longrightarrow>
        pointer (entry m pt i) \<and>
        wf_pt l e m (PTE2PA (entry m pt i)) \<and> pt \<notin> ptree l m (PTE2PA (entry m pt i)) \<and>
        (\<forall>j < 512. j \<noteq> i \<longrightarrow> valid (entry m pt j) \<longrightarrow>
           ptree l m (PTE2PA (entry m pt i)) \<inter> ptree l m (PTE2PA (entry m pt j)) = {}))"

text \<open>The address of the leaf entry for \<open>va\<close>, if the interior of the tree reaches it.\<close>

fun lookup :: "nat \<Rightarrow> mem \<Rightarrow> uint64 \<Rightarrow> uint64 \<Rightarrow> uint64 option" where
  "lookup 0 m pt va = Some (pte_addr 0 pt va)"
| "lookup (Suc l) m pt va =
     (let e = entry m pt (unat (PX (Suc l) va)) in
      if valid e then lookup l m (PTE2PA e) va else None)"

lemma pte_addr_entry: "pte_addr l pt va = pt + 8 * of_nat (unat (PX l va))"
  by (simp add: pte_addr_def)

lemma ptree_self [simp]: "pt \<in> ptree l m pt"
  by (cases l) simp_all

lemma wf_pt_pages: "wf_pt l e m pt \<Longrightarrow> p \<in> ptree l m pt \<Longrightarrow> page_ok e p"
  by (induction l arbitrary: pt) auto

text \<open>Only the bytes of its own pages matter to a tree.\<close>

lemma ptree_cong:
  assumes "\<And>p. p \<in> ptree l m pt \<Longrightarrow> same_page_bytes m m' p"
  shows "ptree l m' pt = ptree l m pt" "wf_pt l e m' pt = wf_pt l e m pt" "lookup l m' pt va = lookup l m pt va"
proof -
  have "ptree l m' pt = ptree l m pt \<and> wf_pt l e m' pt = wf_pt l e m pt \<and> lookup l m' pt va = lookup l m pt va"
    using assms
  proof (induction l arbitrary: pt)
    case 0
    then show ?case by simp
  next
    case (Suc l)
    have e: "entry m' pt i = entry m pt i" if "i < 512" for i
      using entry_cong [OF that, of m m' pt] Suc.prems [of pt] by simp
    have IH: "ptree l m' c = ptree l m c" "wf_pt l e m' c = wf_pt l e m c" "lookup l m' c va = lookup l m c va"
      if "i < 512" "valid (entry m pt i)" "c = PTE2PA (entry m pt i)" for i c
      using Suc.IH [of c] Suc.prems that by auto
    have 1: "ptree (Suc l) m' pt = ptree (Suc l) m pt" using e IH(1) by auto
    have 2: "wf_pt (Suc l) e m' pt = wf_pt (Suc l) e m pt" using e IH(1,2) by auto
    have px: "unat (PX (Suc l) va) < 512" by (rule PX_bound)
    have 3: "lookup (Suc l) m' pt va = lookup (Suc l) m pt va"
      using e [OF px] IH(3) [OF px] by (simp add: Let_def)
    show ?case using 1 2 3 by blast
  qed
  then show "ptree l m' pt = ptree l m pt" "wf_pt l e m' pt = wf_pt l e m pt" "lookup l m' pt va = lookup l m pt va"
    by blast+
qed

lemma lookup_in_tree:
  assumes "lookup l m pt va = Some a"
  obtains p i where "p \<in> ptree l m pt" "i < 512" "a = p + 8 * of_nat i" "i = unat (PX 0 va)"
proof -
  have "\<exists>p \<in> ptree l m pt. a = p + 8 * of_nat (unat (PX 0 va))"
    using assms
  proof (induction l arbitrary: pt)
    case 0
    then show ?case by (simp add: pte_addr_entry)
  next
    case (Suc l)
    let ?i = "unat (PX (Suc l) va)"
    have "valid (entry m pt ?i)" "lookup l m (PTE2PA (entry m pt ?i)) va = Some a"
      using Suc.prems by (auto simp: Let_def split: if_splits)
    then show ?case using Suc.IH PX_bound [of "Suc l" va] by auto
  qed
  then show thesis using that PX_bound [of 0 va] by blast
qed

section \<open>Growing a tree\<close>

text \<open>
  \<open>extends\<close>: the leaf entries that existed are where they were and unchanged, and the new ones
  are zero.
\<close>

definition extends :: "nat \<Rightarrow> mem \<Rightarrow> mem \<Rightarrow> uint64 \<Rightarrow> bool" where
  "extends l m m' pt \<longleftrightarrow> (\<forall>va a.
     (lookup l m pt va = Some a \<longrightarrow> lookup l m' pt va = Some a \<and> load64 m' a = load64 m a) \<and>
     (lookup l m pt va = None \<longrightarrow> lookup l m' pt va = Some a \<longrightarrow> load64 m' a = 0))"

lemma extends_refl [simp]: "extends l m m pt"
  by (simp add: extends_def)

lemma extends_trans:
  assumes "extends l m m' pt" "extends l m' m'' pt"
  shows "extends l m m'' pt"
  unfolding extends_def
proof (intro allI conjI impI)
  fix va a
  show "lookup l m'' pt va = Some a" "load64 m'' a = load64 m a" if "lookup l m pt va = Some a"
    using assms that unfolding extends_def by metis+
  show "load64 m'' a = 0" if "lookup l m pt va = None" "lookup l m'' pt va = Some a"
  proof (cases "lookup l m' pt va")
    case None
    then show ?thesis using assms(2) that(2) unfolding extends_def by blast
  next
    case (Some b)
    then have "load64 m' b = 0" "lookup l m'' pt va = Some b" "load64 m'' b = load64 m' b"
      using assms that(1) unfolding extends_def by metis+
    then show ?thesis using that(2) by simp
  qed
qed

lemma load64_same_page:
  "i < 512 \<Longrightarrow> same_page_bytes m m' p \<Longrightarrow> load64 m' (p + 8 * of_nat i) = load64 m (p + 8 * of_nat i)"
  using entry_cong [of i m m' p] by (simp add: entry_def)

text \<open>A change confined to the subtree of one entry.\<close>

lemma grow_child:
  assumes wf: "wf_pt (Suc l) e m pt" and i: "i < 512" "valid (entry m pt i)" "c = PTE2PA (entry m pt i)"
    and wf': "wf_pt l e m' c" and sub: "ptree l m c \<subseteq> ptree l m' c" and ext: "extends l m m' c"
    and fresh: "(ptree l m' c - ptree l m c) \<inter> ptree (Suc l) m pt = {}"
    and same: "\<And>p. page_ok e p \<Longrightarrow> p \<notin> ptree l m' c \<Longrightarrow> same_page_bytes m m' p"
  shows "wf_pt (Suc l) e m' pt" "ptree (Suc l) m' pt = ptree (Suc l) m pt \<union> ptree l m' c"
    "extends (Suc l) m m' pt"
proof -
  let ?c = "\<lambda>j. PTE2PA (entry m pt j)"
  have pg: "page_ok e p" if "p \<in> ptree (Suc l) m pt" for p by (rule wf_pt_pages [OF wf that])
  have out: "pt \<notin> ptree l m' c" using wf i fresh by auto
  have dis: "ptree l m (?c j) \<inter> ptree l m' c = {}" if "j < 512" "valid (entry m pt j)" "j \<noteq> i" for j
  proof -
    have "ptree l m (?c j) \<inter> ptree l m c = {}" using wf i that by auto
    moreover have "ptree l m (?c j) \<subseteq> ptree (Suc l) m pt" using that by auto
    ultimately show ?thesis using fresh by blast
  qed
  have e: "entry m' pt j = entry m pt j" if "j < 512" for j
    using entry_cong [OF that same [OF _ out]] pg [of pt] by simp
  have keep: "same_page_bytes m m' p" if "j < 512" "valid (entry m pt j)" "j \<noteq> i" "p \<in> ptree l m (?c j)" for j p
  proof (rule same)
    show "page_ok e p" using pg that by auto
    show "p \<notin> ptree l m' c" using dis [OF that(1-3)] that(4) by blast
  qed
  have other: "ptree l m' (?c j) = ptree l m (?c j)" "wf_pt l e m' (?c j) = wf_pt l e m (?c j)"
    "lookup l m' (?c j) va = lookup l m (?c j) va" if "j < 512" "valid (entry m pt j)" "j \<noteq> i" for j va
    using ptree_cong [of l m "?c j" m'] keep [OF that] by blast+
  have tr: "ptree l m' (?c j) = (if j = i then ptree l m' c else ptree l m (?c j))"
    if "j < 512" "valid (entry m pt j)" for j
    using other(1) [OF that] i(3) by (cases "j = i") simp_all
  have "(\<Union>j \<in> {j. j < 512 \<and> valid (entry m' pt j)}. ptree l m' (PTE2PA (entry m' pt j))) =
      (\<Union>j \<in> {j. j < 512 \<and> valid (entry m pt j)}. if j = i then ptree l m' c else ptree l m (?c j))"
    using e tr by (intro SUP_cong) auto
  also have "\<dots> = (\<Union>j \<in> {j. j < 512 \<and> valid (entry m pt j)}. ptree l m (?c j)) \<union> ptree l m' c"
    using i sub by (auto split: if_splits)
  finally show "ptree (Suc l) m' pt = ptree (Suc l) m pt \<union> ptree l m' c" by simp
  have w: "wf_pt l e m' (?c j)" if "j < 512" "valid (entry m pt j)" for j
  proof (cases "j = i")
    case True
    then show ?thesis using wf' i(3) by simp
  next
    case False
    then show ?thesis using other(2) [OF that] wf that by auto
  qed
  have n: "pt \<notin> ptree l m' (?c j)" if "j < 512" "valid (entry m pt j)" for j
    using tr [OF that] out wf that by auto
  have d: "ptree l m' (?c j) \<inter> ptree l m' (?c k) = {}"
    if "j < 512" "valid (entry m pt j)" "k < 512" "valid (entry m pt k)" "k \<noteq> j" for j k
  proof -
    have "ptree l m (?c j) \<inter> ptree l m (?c k) = {}" using wf that by auto
    then show ?thesis using tr [OF that(1,2)] tr [OF that(3,4)] dis [OF that(1,2)] dis [OF that(3,4)] that(5)
      by (auto split: if_splits)
  qed
  have q: "pointer (entry m pt j)" if "j < 512" "valid (entry m pt j)" for j using wf that by auto
  show "wf_pt (Suc l) e m' pt" using pg [of pt] e w n d q by auto
  have lk: "lookup (Suc l) m' pt va = (if unat (PX (Suc l) va) = i then lookup l m' c va else lookup (Suc l) m pt va)"
    for va
    using e [OF PX_bound] other(3) [OF PX_bound] i by (auto simp: Let_def)
  have lk0: "lookup (Suc l) m pt va = lookup l m c va" if "unat (PX (Suc l) va) = i" for va
    using that i by (simp add: Let_def)
  show "extends (Suc l) m m' pt"
    unfolding extends_def
  proof (intro allI conjI impI)
    fix va a
    assume a: "lookup (Suc l) m pt va = Some a"
    have "lookup (Suc l) m' pt va = Some a \<and> load64 m' a = load64 m a"
    proof (cases "unat (PX (Suc l) va) = i")
      case True
      have "lookup l m c va = Some a" using a unfolding lk0 [OF True] .
      then have "lookup l m' c va = Some a \<and> load64 m' a = load64 m a" using ext unfolding extends_def by blast
      then show ?thesis unfolding lk if_P [OF True] .
    next
      case False
      let ?j = "unat (PX (Suc l) va)"
      have v: "valid (entry m pt ?j)" "lookup l m (?c ?j) va = Some a"
        using a by (auto simp: Let_def split: if_splits)
      obtain p k where pk: "p \<in> ptree l m (?c ?j)" "k < 512" "a = p + 8 * of_nat k"
        using lookup_in_tree [OF v(2)] by blast
      have "load64 m' a = load64 m a"
        unfolding pk(3) by (rule load64_same_page [OF pk(2) keep [OF PX_bound v(1) False pk(1)]])
      then show ?thesis using a unfolding lk if_not_P [OF False] by blast
    qed
    then show "lookup (Suc l) m' pt va = Some a" "load64 m' a = load64 m a" by blast+
  next
    fix va a
    assume a: "lookup (Suc l) m pt va = None" "lookup (Suc l) m' pt va = Some a"
    then have i: "unat (PX (Suc l) va) = i" using lk [of va] by (metis option.distinct(1))
    have "lookup l m c va = None" using a(1) unfolding lk0 [OF i] .
    moreover have "lookup l m' c va = Some a" using a(2) unfolding lk if_P [OF i] .
    ultimately show "load64 m' a = 0" using ext unfolding extends_def by blast
  qed
qed

text \<open>A page of zeros is an empty table at every level.\<close>

lemma zero_table:
  assumes "page_ok e pg" "\<And>x. in_range x pg 4096 \<Longrightarrow> m x = 0"
  shows "ptree l m pg = {pg}" "wf_pt l e m pg" "i < 512 \<Longrightarrow> entry m pg i = 0"
proof -
  have z: "load_le k m a = (0 :: uint64)" if "\<And>i. i < k \<Longrightarrow> m (a + of_nat i) = 0" for k a
    using that
  proof (induction k arbitrary: a)
    case (Suc k)
    have "load_le k m (a + 1) = (0 :: uint64)"
      using Suc.prems [of "Suc _"] by (intro Suc.IH) (simp add: algebra_simps)
    then show ?case using Suc.prems [of 0] by simp
  qed simp
  have e: "entry m pg i = 0" if "i < 512" for i
    unfolding entry_def load64_def
    by (rule z) (use assms(2) in_page_entry [OF that] in_range_offset [of _ 8] in auto)
  then show "i < 512 \<Longrightarrow> entry m pg i = 0" for i by blast
  show "ptree l m pg = {pg}" using e flags_V(4) by (cases l) auto
  show "wf_pt l e m pg" using e flags_V(4) assms(1) by (cases l) auto
qed

text \<open>A fresh, empty table hung into a free entry.\<close>

lemma grow_new:
  assumes wf: "wf_pt (Suc l) e m pt" and i: "i < 512" "\<not> valid (entry m pt i)"
    and pg: "page_ok e pg" "pg \<notin> ptree (Suc l) m pt"
    and zero: "\<And>x. in_range x pg 4096 \<Longrightarrow> m' x = 0"
    and new: "\<And>j. j < 512 \<Longrightarrow> entry m' pt j = (if j = i then PA2PTE pg OR PTE_V else entry m pt j)"
    and same: "\<And>p. page_ok e p \<Longrightarrow> p \<noteq> pg \<Longrightarrow> p \<noteq> pt \<Longrightarrow> same_page_bytes m m' p"
  shows "wf_pt (Suc l) e m' pt" "ptree (Suc l) m' pt = insert pg (ptree (Suc l) m pt)" "extends (Suc l) m m' pt"
    "valid (entry m' pt i)" "PTE2PA (entry m' pt i) = pg" "wf_pt l e m' pg" "ptree l m' pg = {pg}"
proof -
  let ?c = "\<lambda>j. PTE2PA (entry m pt j)"
  have z: "ptree l m' pg = {pg}" "wf_pt l e m' pg" "\<And>i. i < 512 \<Longrightarrow> entry m' pg i = 0"
    using zero_table [of e pg m'] pg(1) zero by blast+
  show v: "valid (entry m' pt i)" "PTE2PA (entry m' pt i) = pg" "wf_pt l e m' pg" "ptree l m' pg = {pg}"
    using new [OF i(1)] flags_V(2) PTE2PA_V [OF pg(1)] z by simp_all
  have pages: "page_ok e p" if "p \<in> ptree (Suc l) m pt" for p by (rule wf_pt_pages [OF wf that])
  have keep: "same_page_bytes m m' p" if "j < 512" "valid (entry m pt j)" "p \<in> ptree l m (?c j)" for j p
  proof (rule same)
    show "page_ok e p" "p \<noteq> pg" using pages pg(2) that by auto
    show "p \<noteq> pt" using wf that by auto
  qed
  have other: "ptree l m' (?c j) = ptree l m (?c j)" "wf_pt l e m' (?c j) = wf_pt l e m (?c j)"
    "lookup l m' (?c j) va = lookup l m (?c j) va" if "j < 512" "valid (entry m pt j)" for j va
    using ptree_cong [of l m "?c j" m'] keep [OF that] by blast+
  have ent: "valid (entry m' pt j) \<longleftrightarrow> j = i \<or> valid (entry m pt j)" if "j < 512" for j
    using new [OF that] flags_V(2) by simp
  have tr: "ptree l m' (PTE2PA (entry m' pt j)) = (if j = i then {pg} else ptree l m (?c j))"
    if "j < 512" "valid (entry m' pt j)" for j
    using v new [OF that(1)] other(1) [OF that(1)] ent [OF that(1)] that(2) by (auto split: if_splits)
  have "(\<Union>j \<in> {j. j < 512 \<and> valid (entry m' pt j)}. ptree l m' (PTE2PA (entry m' pt j))) =
      insert pg (\<Union>j \<in> {j. j < 512 \<and> valid (entry m pt j)}. ptree l m (?c j))"
    using tr ent i by (auto split: if_splits)
  then show "ptree (Suc l) m' pt = insert pg (ptree (Suc l) m pt)" by auto
  have w: "wf_pt l e m' (PTE2PA (entry m' pt j))" if "j < 512" "valid (entry m' pt j)" for j
    using v new [OF that(1)] other(2) [OF that(1)] ent [OF that(1)] that wf by (auto split: if_splits)
  have n: "pt \<notin> ptree l m' (PTE2PA (entry m' pt j))" if "j < 512" "valid (entry m' pt j)" for j
    using tr [OF that] pg(2) ent [OF that(1)] that wf by (auto split: if_splits)
  have d: "ptree l m' (PTE2PA (entry m' pt j)) \<inter> ptree l m' (PTE2PA (entry m' pt k)) = {}"
    if "j < 512" "valid (entry m' pt j)" "k < 512" "valid (entry m' pt k)" "k \<noteq> j" for j k
    using tr [OF that(1,2)] tr [OF that(3,4)] pg(2) ent [OF that(1)] ent [OF that(3)] that wf
    by (auto split: if_splits)
  have q: "pointer (entry m' pt j)" if "j < 512" "valid (entry m' pt j)" for j
    using new [OF that(1)] ent [OF that(1)] that wf pointer_V [of pg] by (auto split: if_splits)
  show "wf_pt (Suc l) e m' pt" using pages [of pt] w n d q by auto
  show "extends (Suc l) m m' pt"
    unfolding extends_def
  proof (intro allI conjI impI)
    fix va a
    let ?j = "unat (PX (Suc l) va)"
    assume a: "lookup (Suc l) m pt va = Some a"
    then have j: "valid (entry m pt ?j)" "lookup l m (?c ?j) va = Some a" "?j \<noteq> i"
      using i by (auto simp: Let_def split: if_splits)
    obtain p k where pk: "p \<in> ptree l m (?c ?j)" "k < 512" "a = p + 8 * of_nat k"
      using lookup_in_tree [OF j(2)] by blast
    show "load64 m' a = load64 m a"
      unfolding pk(3) by (rule load64_same_page [OF pk(2) keep [OF PX_bound j(1) pk(1)]])
    show "lookup (Suc l) m' pt va = Some a"
      using j other(3) [OF PX_bound j(1)] new [OF PX_bound] by (simp add: Let_def)
  next
    fix va a
    let ?j = "unat (PX (Suc l) va)"
    assume a: "lookup (Suc l) m pt va = None" "lookup (Suc l) m' pt va = Some a"
    then have "?j = i" using new [OF PX_bound, of "Suc l" va] other(3) [OF PX_bound]
      by (auto simp: Let_def split: if_splits)
    then have "lookup l m' pg va = Some a" using a(2) v by (simp add: Let_def)
    then have "l = 0" "a = pg + 8 * of_nat (unat (PX 0 va))"
      using z(3) [OF PX_bound] flags_V(4) by (cases l; simp add: Let_def pte_addr_entry)+
    then show "load64 m' a = 0" using z(3) [OF PX_bound, of 0 va] by (simp add: entry_def)
  qed
qed

section \<open>The walk\<close>

lemma walk_level_lookup:
  "walk_level l pt va False s = Ret (case lookup l (mem s) pt va of None \<Rightarrow> 0 | Some a \<Rightarrow> a) s"
proof (induction l arbitrary: pt)
  case 0
  then show ?case by simp
next
  case (Suc l)
  have "load64 (mem s) (pte_addr (Suc l) pt va) = entry (mem s) pt (unat (PX (Suc l) va))"
    by (simp add: entry_def pte_addr_entry)
  then show ?case using Suc by (simp add: Let_def valid_def)
qed

text \<open>
  The effect of a walk that may allocate, on a tree whose pages are not on the free list:
  the pages taken from the free list are exactly the ones that joined the tree.
\<close>

definition walked ::
  "nat \<Rightarrow> uint64 \<Rightarrow> uint64 \<Rightarrow> 'z kstate_scheme \<Rightarrow> uint64 set \<Rightarrow> uint64 \<Rightarrow> 'z kstate_scheme \<Rightarrow> uint64 set \<Rightarrow> bool"
where
  "walked l pt va s A r t A' \<longleftrightarrow> kpool t A' \<and> kend t = kend s \<and> A' \<subseteq> A \<and> wf_pt l (kend s) (mem t) pt \<and>
     ptree l (mem t) pt = ptree l (mem s) pt \<union> (A - A') \<and> extends l (mem s) (mem t) pt \<and>
     (\<forall>p. page_ok (kend s) p \<longrightarrow> p \<notin> ptree l (mem t) pt \<longrightarrow> same_page_bytes (mem s) (mem t) p) \<and>
     (if r = 0 then A' = {} else lookup l (mem t) pt va = Some r)"

lemma walkedD:
  assumes "walked l pt va s A r t A'"
  shows "kpool t A'" "kend t = kend s" "A' \<subseteq> A" "wf_pt l (kend s) (mem t) pt"
    "ptree l (mem t) pt = ptree l (mem s) pt \<union> (A - A')" "extends l (mem s) (mem t) pt"
    "\<And>p. page_ok (kend s) p \<Longrightarrow> p \<notin> ptree l (mem t) pt \<Longrightarrow> same_page_bytes (mem s) (mem t) p"
    "if r = 0 then A' = {} else lookup l (mem t) pt va = Some r"
  using assms unfolding walked_def by blast+

lemma kvalid_kend: "kvalid t = kvalid s \<Longrightarrow> page_ok (kend t) = page_ok (kend s)"
  by (simp add: kvalid_def [abs_def] fun_eq_iff)

lemma kalloc_kend: "cpu_ok s \<Longrightarrow> lock_free L_kmem s \<Longrightarrow> kalloc s = Ret r t \<Longrightarrow> kend t = kend s"
  by (auto simp: kalloc_eq split: if_splits)

lemma kpool_ready: "kpool s A \<Longrightarrow> cpu_ok s \<and> lock_free L_kmem s"
  by (simp add: kpool_def)

text \<open>Writing to pages that are not free does not disturb the allocator.\<close>

lemma kpool_mem:
  assumes "kpool s A" "\<And>p. p \<in> A \<Longrightarrow> same_page_bytes (mem s) m p"
  shows "kpool (s\<lparr>mem := m\<rparr>) A"
proof -
  obtain ps where ps: "kmem_inv s ps" "set ps = A" "cpu_ok s" "lock_free L_kmem s"
    using assms(1) by (auto simp: kpool_def)
  have "load64 (mem s) p = load64 m p" if "p \<in> set ps" for p
    using entry_cong [of 0 "mem s" m p] assms(2) [of p] that ps(2) by (simp add: entry_def)
  then have "kmem_inv (s\<lparr>mem := m\<rparr>) ps" using ps(1) chain_cong [of ps "mem s" m] by (simp add: kmem_inv_def)
  then show ?thesis using ps(2-4) by (auto simp: kpool_def)
qed

lemma page_ok_nonzero: "page_ok e p \<Longrightarrow> i < 512 \<Longrightarrow> p + 8 * of_nat i \<noteq> 0"
proof
  assume p: "page_ok e p" "i < 512" and z: "p + 8 * of_nat i = 0"
  have "unat p < 0x88000000" using p(1) PHYSTOP_nat by (simp add: page_ok_def word_less_nat_alt)
  then have "unat (p + of_nat (8 * i)) = unat p + 8 * i" using p(2) by (intro unat_add_small) simp
  then have "unat p = 0" using z by (simp add: mult.commute)
  then show False using p(1) by (simp add: page_ok_def unat_eq_0)
qed

lemma walk_level_ok:
  assumes "kpool s A" "wf_pt l (kend s) (mem s) pt" "ptree l (mem s) pt \<inter> A = {}"
  shows "\<exists>r t A'. walk_level l pt va True s = Ret r t \<and> walked l pt va s A r t A'"
  using assms
proof (induction l arbitrary: pt s A)
  case 0
  have "pte_addr 0 pt va \<noteq> 0" using "0.prems"(2) page_ok_nonzero [OF _ PX_bound, of "kend s" pt 0 va]
    by (simp add: pte_addr_entry)
  then have "walked 0 pt va s A (pte_addr 0 pt va) s A" using 0 by (simp add: walked_def same_page_bytes_def)
  then show ?case by auto
next
  case (Suc l)
  let ?e = "kend s" and ?i = "unat (PX (Suc l) va)" and ?m = "mem s"
  let ?c = "PTE2PA (entry ?m pt ?i)"
  have i: "?i < 512" by (rule PX_bound)
  have ent: "load64 ?m (pte_addr (Suc l) pt va) = entry ?m pt ?i" by (simp add: entry_def pte_addr_entry)
  show ?case
  proof (cases "valid (entry ?m pt ?i)")
    case True
    have c: "wf_pt l ?e ?m ?c" "ptree l ?m ?c \<subseteq> ptree (Suc l) ?m pt" using Suc.prems(2) i True by auto
    then obtain r t A' where w: "walk_level l ?c va True s = Ret r t" "walked l ?c va s A r t A'"
      using Suc.IH [OF Suc.prems(1) c(1)] Suc.prems(3) by blast
    note d = walkedD [OF w(2)]
    have sub: "ptree l ?m ?c \<subseteq> ptree l (mem t) ?c" unfolding d(5) by blast
    have fr: "(ptree l (mem t) ?c - ptree l ?m ?c) \<inter> ptree (Suc l) ?m pt = {}"
      unfolding d(5) using Suc.prems(3) by blast
    have g: "wf_pt (Suc l) ?e (mem t) pt"
      "ptree (Suc l) (mem t) pt = ptree (Suc l) ?m pt \<union> ptree l (mem t) ?c" "extends (Suc l) ?m (mem t) pt"
      using grow_child [OF Suc.prems(2) i True refl d(4) sub d(6) fr] d(7) by blast+
    have tr: "ptree (Suc l) (mem t) pt = ptree (Suc l) ?m pt \<union> (A - A')"
      unfolding g(2) d(5) using c(2) by blast
    have same: "same_page_bytes ?m (mem t) p" if "page_ok ?e p" "p \<notin> ptree (Suc l) (mem t) pt" for p
      using that(2) unfolding g(2) by (intro d(7) that(1)) blast
    have lk: "lookup (Suc l) (mem t) pt va = lookup l (mem t) ?c va"
    proof -
      have "pt \<notin> ptree l ?m ?c" "pt \<notin> A" "page_ok ?e pt" using Suc.prems(2,3) i True by auto
      then have "same_page_bytes ?m (mem t) pt" unfolding d(5) by (intro d(7)) (auto simp: d(5))
      then have "entry (mem t) pt ?i = entry ?m pt ?i" using entry_cong [OF i] by metis
      then show ?thesis using True by (simp add: Let_def)
    qed
    have "walked (Suc l) pt va s A r t A'"
      using d(1-3,8) g(1,3) tr same lk unfolding walked_def by simp
    moreover have "walk_level (Suc l) pt va True s = Ret r t"
      using w(1) True ent by (simp add: Let_def valid_def)
    ultimately show ?thesis by blast
  next
    case False
    have step: "walk_level (Suc l) pt va True s = bnd (kalloc s) (\<lambda>pg s.
        if pg = 0 then Ret 0 s
        else walk_level l pg va True
          (s\<lparr>mem := store64 (pte_addr (Suc l) pt va) (PA2PTE pg OR PTE_V) (memset pg 0 4096 (mem s))\<rparr>))"
      using False ent by (simp add: Let_def valid_def cong: if_cong)
    from Suc.prems(1) show ?thesis
    proof (cases rule: kmem.alloc_cases)
      case (none t)
      have "walked (Suc l) pt va s A 0 t A"
        using none Suc.prems kpool_ready [OF Suc.prems(1)] kalloc_kend [OF _ _ none(1)]
        by (simp add: walked_def same_page_bytes_def)
      then show ?thesis using step none(1) by auto
    next
      case (some pg t)
      let ?u = "t\<lparr>mem := store64 (pte_addr (Suc l) pt va) (PA2PTE pg OR PTE_V) (memset pg 0 4096 (mem t))\<rparr>"
      have ke: "kend t = ?e" using kpool_ready [OF Suc.prems(1)] kalloc_kend [OF _ _ some(1)] by blast
      have pg: "page_ok ?e pg" "pg \<notin> ptree (Suc l) ?m pt" using some Suc.prems(3) by (auto simp: kvalid_def)
      have pt: "page_ok ?e pt" "pt \<noteq> pg" using wf_pt_pages [OF Suc.prems(2)] pg(2) by auto
      have dj: "disjoint_ranges p 4096 q 4096" if "page_ok ?e p" "page_ok ?e q" "p \<noteq> q" for p q
        using pages_disjoint [OF that] by simp
      have zero: "mem ?u x = 0" if "in_range x pg 4096" for x
        using that dj [OF pt(1) pg(1) pt(2)] in_page_entry [OF i, of x pt]
        by (auto simp: store64_eq memset_eq pte_addr_entry disjoint_ranges_def)
      have other: "same_page_bytes ?m (mem ?u) p" if "page_ok ?e p" "p \<noteq> pg" "p \<noteq> pt" for p
        using dj [OF that(1) pt(1) that(3)] dj [OF that(1) pg(1) that(2)] in_page_entry [OF i, of _ pt] some(5)
        by (auto simp: same_page_bytes_def store64_eq memset_eq pte_addr_entry disjoint_ranges_def)
      have ptm: "same_page_bytes ?m (memset pg 0 4096 (mem t)) pt"
        using dj [OF pt(1) pg(1) pt(2)] some(5) by (auto simp: same_page_bytes_def memset_eq disjoint_ranges_def)
      have new: "entry (mem ?u) pt j = (if j = ?i then PA2PTE pg OR PTE_V else entry ?m pt j)" if "j < 512" for j
        using entry_store [OF i that] entry_cong [OF that ptm] by (simp add: pte_addr_entry)
      have g: "wf_pt (Suc l) ?e (mem ?u) pt" "ptree (Suc l) (mem ?u) pt = insert pg (ptree (Suc l) ?m pt)"
        "extends (Suc l) ?m (mem ?u) pt" "valid (entry (mem ?u) pt ?i)" "PTE2PA (entry (mem ?u) pt ?i) = pg"
        "wf_pt l ?e (mem ?u) pg" "ptree l (mem ?u) pg = {pg}"
        by (rule grow_new [OF Suc.prems(2) i False pg]; (rule zero new other; assumption))+
      have keep: "same_page_bytes (mem t) (mem ?u) p" if "p \<in> A - {pg}" for p
      proof -
        have p: "page_ok ?e p" "p \<noteq> pg" "p \<noteq> pt"
          using that kmem.pool_valid [OF Suc.prems(1), of p] Suc.prems(3) ptree_self [of pt "Suc l" ?m]
          by (auto simp: kvalid_def simp del: ptree_self)
        then have "same_page_bytes ?m (mem t) p"
          using dj [OF p(1) pg(1) p(2)] some(5) by (auto simp: same_page_bytes_def disjoint_ranges_def)
        then show ?thesis using other [OF p] by (simp add: same_page_bytes_def)
      qed
      have pool: "kpool ?u (A - {pg})" using kpool_mem [OF some(4), of "mem ?u"] keep by simp
      have "ptree l (mem ?u) pg \<inter> (A - {pg}) = {}" using g(7) by simp
      then obtain r v A' where w: "walk_level l pg va True ?u = Ret r v" "walked l pg va ?u (A - {pg}) r v A'"
        using Suc.IH [OF pool, of pg] g(6) ke by auto
      note d = walkedD [OF w(2)]
      have pv: "ptree l (mem v) pg = insert pg (A - {pg} - A')" using d(5) g(7) by simp
      have A': "A' \<subseteq> A - {pg}" "pg \<in> A" using d(3) some(3) by blast+
      have fr: "(ptree l (mem v) pg - ptree l (mem ?u) pg) \<inter> ptree (Suc l) (mem ?u) pt = {}"
        unfolding pv g(2,7) using Suc.prems(3) by auto
      have ku: "kend ?u = ?e" using ke by simp
      have sub: "ptree l (mem ?u) pg \<subseteq> ptree l (mem v) pg" unfolding d(5) by blast
      have h: "wf_pt (Suc l) ?e (mem v) pt" "ptree (Suc l) (mem v) pt = ptree (Suc l) (mem ?u) pt \<union> ptree l (mem v) pg"
        "extends (Suc l) (mem ?u) (mem v) pt"
        using grow_child [OF g(1) i g(4) g(5) [symmetric] d(4) [unfolded ku] sub d(6) fr] d(7) [unfolded ku] by blast+
      have tr: "ptree (Suc l) (mem v) pt = ptree (Suc l) ?m pt \<union> (A - A')"
        unfolding h(2) g(2) pv using A' by auto
      have same: "same_page_bytes ?m (mem v) p" if p: "page_ok ?e p" "p \<notin> ptree (Suc l) (mem v) pt" for p
      proof -
        have "p \<noteq> pg" "p \<noteq> pt" using p(2) h(2) pv by auto
        then have "same_page_bytes ?m (mem ?u) p" using other p(1) by blast
        moreover have "same_page_bytes (mem ?u) (mem v) p"
          by (rule d(7) [unfolded ku, OF p(1)]) (use p(2) in \<open>unfold h(2), blast\<close>)
        ultimately show ?thesis by (simp add: same_page_bytes_def)
      qed
      have lk: "lookup (Suc l) (mem v) pt va = lookup l (mem v) pg va"
      proof -
        have "pt \<notin> ptree l (mem v) pg" unfolding pv using pt(2) Suc.prems(3) by auto
        then have "same_page_bytes (mem ?u) (mem v) pt" by (rule d(7) [unfolded ku, OF pt(1)])
        then have "entry (mem v) pt ?i = entry (mem ?u) pt ?i" using entry_cong [OF i] by metis
        then show ?thesis using g(4,5) by (simp add: Let_def)
      qed
      have "walked (Suc l) pt va s A r v A'"
        unfolding walked_def
        using d(1,2,8) ku h(1) extends_trans [OF g(3) h(3)] tr same lk A' by auto
      moreover have "walk_level (Suc l) pt va True s = Ret r v" using step some(1,2) w(1) by simp
      ultimately show ?thesis by blast
    qed
  qed
qed

section \<open>Page tables as maps\<close>

text \<open>The leaf entry of a virtual address; zero when the tree does not reach it.\<close>

definition vmap :: "mem \<Rightarrow> uint64 \<Rightarrow> uint64 \<Rightarrow> uint64" where
  "vmap m pt va = (case lookup 2 m pt va of None \<Rightarrow> 0 | Some a \<Rightarrow> load64 m a)"

lemma extends_vmap: "extends 2 m m' pt \<Longrightarrow> vmap m' pt va = vmap m pt va"
  unfolding extends_def vmap_def by (cases "lookup 2 m pt va"; cases "lookup 2 m' pt va") auto

definition same_vpage :: "nat \<Rightarrow> uint64 \<Rightarrow> uint64 \<Rightarrow> bool" where
  "same_vpage l va va' \<longleftrightarrow> (\<forall>k \<le> l. PX k va = PX k va')"

lemma entry_addr_inj:
  fixes p :: uint64
  assumes "i < 512" "j < 512" "p + 8 * of_nat i = p + 8 * of_nat j"
  shows "i = j"
proof (rule ccontr)
  assume "i \<noteq> j"
  moreover have "in_range (p + 8 * of_nat i) (p + 8 * of_nat i) 8" by (simp add: in_range_def)
  ultimately show False using entries_disjoint [OF assms(1,2), of p] assms(3) by (auto simp: disjoint_ranges_def)
qed

lemma store_leaf:
  fixes v :: uint64
  assumes "wf_pt l e m pt" "lookup l m pt va = Some a"
  defines "m' \<equiv> store64 a v m"
  shows "ptree l m' pt = ptree l m pt \<and> wf_pt l e m' pt \<and> (\<forall>va'. lookup l m' pt va' = lookup l m pt va') \<and>
    (\<forall>va' b. lookup l m pt va' = Some b \<longrightarrow> (b = a \<longleftrightarrow> same_vpage l va' va))"
  using assms(1,2)
proof (induction l arbitrary: pt)
  case 0
  have "pte_addr 0 pt va' = pte_addr 0 pt va \<longleftrightarrow> PX 0 va' = PX 0 va" for va'
    unfolding pte_addr_entry using entry_addr_inj [OF PX_bound PX_bound, of pt 0 va' 0 va] by (metis word_unat_eq_iff)
  then show ?case using 0 by (auto simp: same_vpage_def)
next
  case (Suc l)
  let ?i = "unat (PX (Suc l) va)" and ?c = "\<lambda>j. PTE2PA (entry m pt j)"
  have i: "?i < 512" by (rule PX_bound)
  have v: "valid (entry m pt ?i)" "lookup l m (?c ?i) va = Some a"
    using Suc.prems(2) by (auto simp: Let_def split: if_splits)
  have wfc: "wf_pt l e m (?c ?i)" using Suc.prems(1) i v(1) by auto
  note IH = Suc.IH [OF wfc v(2)]
  obtain p k where pk: "p \<in> ptree l m (?c ?i)" "k < 512" "a = p + 8 * of_nat k" using lookup_in_tree [OF v(2)] by blast
  have pok: "page_ok e p" by (rule wf_pt_pages [OF wfc pk(1)])
  have same: "same_page_bytes m m' q" if "page_ok e q" "q \<noteq> p" for q
    using same_page_store [OF pok that(1) _ pk(2), of v m] that(2) by (auto simp: same_page_bytes_def m'_def pk(3))
  have pt: "page_ok e pt" "pt \<noteq> p" using Suc.prems(1) i v(1) pk(1) by auto
  have ent: "entry m' pt j = entry m pt j" if "j < 512" for j
    using entry_cong [OF that same [OF pt]] by simp
  have sub: "q \<noteq> p \<and> page_ok e q" if "j < 512" "valid (entry m pt j)" "j \<noteq> ?i" "q \<in> ptree l m (?c j)" for j q
  proof -
    have "ptree l m (?c j) \<inter> ptree l m (?c ?i) = {}" using Suc.prems(1) i v(1) that by auto
    then show ?thesis using that pk(1) wf_pt_pages [OF Suc.prems(1), of q] by auto
  qed
  have other: "ptree l m' (?c j) = ptree l m (?c j)" "wf_pt l e m' (?c j) = wf_pt l e m (?c j)"
    "lookup l m' (?c j) va' = lookup l m (?c j) va'" if "j < 512" "valid (entry m pt j)" for j va'
  proof -
    have "(ptree l m' (?c j) = ptree l m (?c j)) \<and> (wf_pt l e m' (?c j) = wf_pt l e m (?c j)) \<and>
      (lookup l m' (?c j) va' = lookup l m (?c j) va')"
    proof (cases "j = ?i")
      case True
      then show ?thesis using IH wfc by simp
    next
      case False
      then show ?thesis using ptree_cong [of l m "?c j" m'] sub [OF that False] same by blast
    qed
    then show "ptree l m' (?c j) = ptree l m (?c j)" "wf_pt l e m' (?c j) = wf_pt l e m (?c j)"
      "lookup l m' (?c j) va' = lookup l m (?c j) va'" by blast+
  qed
  have 1: "ptree (Suc l) m' pt = ptree (Suc l) m pt" using ent other(1) by auto
  have 2: "wf_pt (Suc l) e m' pt" using Suc.prems(1) ent other(1,2) by auto
  have 3: "lookup (Suc l) m' pt va' = lookup (Suc l) m pt va'" for va'
    using ent [OF PX_bound] other(3) [OF PX_bound] by (simp add: Let_def)
  have 4: "b = a \<longleftrightarrow> same_vpage (Suc l) va' va" if b: "lookup (Suc l) m pt va' = Some b" for va' b
  proof (cases "unat (PX (Suc l) va') = ?i")
    case True
    then have "lookup l m (?c ?i) va' = Some b" "PX (Suc l) va' = PX (Suc l) va"
      using b v(1) by (simp_all add: Let_def word_unat_eq_iff)
    then show ?thesis using IH unfolding same_vpage_def by (auto simp: le_Suc_eq)
  next
    case False
    have j: "valid (entry m pt (unat (PX (Suc l) va')))" "lookup l m (?c (unat (PX (Suc l) va'))) va' = Some b"
      using b by (auto simp: Let_def split: if_splits)
    obtain q k' where q: "q \<in> ptree l m (?c (unat (PX (Suc l) va')))" "k' < 512" "b = q + 8 * of_nat k'"
      using lookup_in_tree [OF j(2)] by blast
    have "q \<noteq> p" "page_ok e q" using sub [OF PX_bound j(1) False q(1)] by auto
    then have "disjoint_ranges p 4096 q 4096" using pages_disjoint [OF pok] by auto
    moreover have "in_range a p 4096" "in_range b q 4096"
      unfolding pk(3) q(3) by (rule in_page_entry [OF pk(2)], simp add: in_range_def) (rule in_page_entry [OF q(2)], simp add: in_range_def)
    ultimately have "b \<noteq> a" by (auto simp: disjoint_ranges_def)
    moreover have "\<not> same_vpage (Suc l) va' va" using False by (auto simp: same_vpage_def)
    ultimately show ?thesis by blast
  qed
  show ?case using 1 2 3 4 by blast
qed

lemma store_leaf_vmap:
  assumes wf: "wf_pt 2 e m pt" and a: "lookup 2 m pt va = Some a"
  shows "ptree 2 (store64 a v m) pt = ptree 2 m pt" "wf_pt 2 e (store64 a v m) pt"
    "vmap (store64 a v m) pt va' = (if same_vpage 2 va' va then v else vmap m pt va')"
    "\<And>p. page_ok e p \<Longrightarrow> p \<notin> ptree 2 m pt \<Longrightarrow> same_page_bytes m (store64 a v m) p"
proof -
  note s = store_leaf [OF wf a, of v]
  show "ptree 2 (store64 a v m) pt = ptree 2 m pt" "wf_pt 2 e (store64 a v m) pt" using s by blast+
  obtain p k where pk: "p \<in> ptree 2 m pt" "k < 512" "a = p + 8 * of_nat k" using lookup_in_tree [OF a] by blast
  have pok: "page_ok e p" by (rule wf_pt_pages [OF wf pk(1)])
  show "same_page_bytes m (store64 a v m) q" if "page_ok e q" "q \<notin> ptree 2 m pt" for q
  proof -
    have "p \<noteq> q" using that(2) pk(1) by blast
    then show ?thesis
      unfolding pk(3) using same_page_store [OF pok that(1) _ pk(2), of v m] by (blast intro: same_page_sym)
  qed
  have lk: "lookup 2 (store64 a v m) pt va' = lookup 2 m pt va'" using s by blast
  show "vmap (store64 a v m) pt va' = (if same_vpage 2 va' va then v else vmap m pt va')"
  proof (cases "lookup 2 m pt va'")
    case None
    have "\<not> same_vpage 2 va' va"
    proof
      assume "same_vpage 2 va' va"
      then have "lookup 2 m pt va' = lookup 2 m pt va"
        by (simp add: same_vpage_def numeral_2_eq_2 Let_def pte_addr_def)
      then show False using None a by simp
    qed
    then show ?thesis using None lk by (simp add: vmap_def)
  next
    case (Some b)
    have eq: "b = a \<longleftrightarrow> same_vpage 2 va' va" using s Some by blast
    obtain q j where qj: "q \<in> ptree 2 m pt" "j < 512" "b = q + 8 * of_nat j" using lookup_in_tree [OF Some] by blast
    have "load64 (store64 a v m) b = load64 m b" if "b \<noteq> a"
    proof (cases "q = p")
      case True
      then show ?thesis using entry_store [OF pk(2) qj(2), of p v m] that pk(3) qj(3) by (auto simp: entry_def)
    next
      case False
      have "same_page_bytes (store64 a v m) m q"
        using same_page_store [OF pok wf_pt_pages [OF wf qj(1)] _ pk(2), of v m] False pk(3) by auto
      then show ?thesis using load64_same_page [OF qj(2)] qj(3) by metis
    qed
    then show ?thesis using Some lk eq by (auto simp: vmap_def)
  qed
qed

text \<open>Below \<open>MAXVA\<close>, the three indices identify the page.\<close>

lemma bit_PX: "bit (PX k va) n \<longleftrightarrow> n < 9 \<and> bit va (12 + 9 * k + n)"
proof -
  have "PX k va = drop_bit (12 + 9 * k) va AND mask 9" by (simp add: PX_def mask_eq_exp_minus_1)
  then show ?thesis by (auto simp: bit_and_iff bit_drop_bit_eq bit_mask_iff add.commute)
qed

lemma same_vpage_iff:
  assumes "va < MAXVA" "va' < MAXVA"
  shows "same_vpage 2 va va' \<longleftrightarrow> PGROUNDDOWN va = PGROUNDDOWN va'"
proof -
  have hi: "\<not> bit w n" if "w < MAXVA" "38 \<le> n" for w :: uint64 and n
  proof -
    have "unat w < 2 ^ 38" using that(1) by (simp add: MAXVA_def word_less_nat_alt)
    then have "take_bit 38 w = w" by (simp add: word_unat_eq_iff unsigned_take_bit_eq take_bit_nat_eq_self_iff)
    then show ?thesis using that(2) by (metis bit_take_bit_iff not_less)
  qed
  have bitD: "bit (PGROUNDDOWN w) n \<longleftrightarrow> 12 \<le> n \<and> bit w n" for w n
    unfolding PGROUNDDOWN_bits by (auto simp: bit_simps dest: bit_imp_le_length)
  show ?thesis
  proof
    assume same: "same_vpage 2 va va'"
    show "PGROUNDDOWN va = PGROUNDDOWN va'"
    proof (rule bit_word_eqI)
      fix n
      have "bit va n = bit va' n" if n: "12 \<le> n" "n < 39"
      proof -
        have k: "(n - 12) div 9 \<le> 2" using n by (simp add: div_le_mono [of _ 26 9, simplified])
        have "bit (PX ((n - 12) div 9) va) ((n - 12) mod 9) = bit (PX ((n - 12) div 9) va') ((n - 12) mod 9)"
          using same k by (simp add: same_vpage_def)
        moreover have "12 + 9 * ((n - 12) div 9) + (n - 12) mod 9 = n" using n(1) by simp
        ultimately show ?thesis by (simp add: bit_PX)
      qed
      then show "bit (PGROUNDDOWN va) n = bit (PGROUNDDOWN va') n"
        using hi [OF assms(1), of n] hi [OF assms(2), of n] unfolding bitD by (cases "n < 39") auto
    qed
  next
    assume eq: "PGROUNDDOWN va = PGROUNDDOWN va'"
    have "bit va n = bit va' n" if "12 \<le> n" for n using eq bitD that by metis
    then show "same_vpage 2 va va'" unfolding same_vpage_def by (auto intro!: bit_word_eqI simp: bit_PX)
  qed
qed

end
