(* ===== verification/Vmspec.thy ===== *)
theory Vmspec
  imports Pagetable
begin

text \<open>
  The operations of \<^verbatim>\<open>kernel/vm.c\<close> in terms of the map \<open>vmap\<close>: mapping, unmapping,
  translating, and copying between user and kernel memory.
\<close>

section \<open>Ready page tables\<close>

definition pt_ready :: "'z kstate_scheme \<Rightarrow> uint64 \<Rightarrow> uint64 set \<Rightarrow> bool" where
  "pt_ready s pt A \<longleftrightarrow> kpool s A \<and> wf_pt 2 (kend s) (mem s) pt \<and> ptree 2 (mem s) pt \<inter> A = {}"

text \<open>
  A step that may move pages from the free list into the tree, and touches the bytes of no
  other page.
\<close>

definition pt_step :: "uint64 \<Rightarrow> 'z kstate_scheme \<Rightarrow> uint64 set \<Rightarrow> 'z kstate_scheme \<Rightarrow> uint64 set \<Rightarrow> bool" where
  "pt_step pt s A t A' \<longleftrightarrow> pt_ready t pt A' \<and> kend t = kend s \<and> A' \<subseteq> A \<and>
     ptree 2 (mem t) pt = ptree 2 (mem s) pt \<union> (A - A') \<and>
     (\<forall>p. page_ok (kend s) p \<longrightarrow> p \<notin> ptree 2 (mem t) pt \<longrightarrow> same_page_bytes (mem s) (mem t) p)"

lemma pt_step_refl: "pt_ready s pt A \<Longrightarrow> pt_step pt s A s A"
  by (simp add: pt_step_def same_page_bytes_def)

lemma pt_step_trans:
  assumes "pt_step pt s A t A'" "pt_step pt t A' u A''"
  shows "pt_step pt s A u A''"
proof -
  have "same_page_bytes (mem s) (mem u) p" if "page_ok (kend s) p" "p \<notin> ptree 2 (mem u) pt" for p
  proof -
    have "same_page_bytes (mem s) (mem t) p" "same_page_bytes (mem t) (mem u) p"
      using assms that unfolding pt_step_def by auto
    then show ?thesis by (simp add: same_page_bytes_def)
  qed
  moreover have "ptree 2 (mem u) pt = ptree 2 (mem s) pt \<union> (A - A'')"
    using assms unfolding pt_step_def by blast
  ultimately show ?thesis using assms unfolding pt_step_def by auto
qed

lemma walk_alloc:
  assumes "pt_ready s pt A" "va < MAXVA"
  obtains r t A' where "walk pt va True s = Ret r t" "pt_step pt s A t A'"
    "\<And>va'. vmap (mem t) pt va' = vmap (mem s) pt va'"
    "r = 0 \<Longrightarrow> A' = {}" "r \<noteq> 0 \<Longrightarrow> lookup 2 (mem t) pt va = Some r"
proof -
  obtain r t A' where w: "walk_level 2 pt va True s = Ret r t" "walked 2 pt va s A r t A'"
    using walk_level_ok [of s A 2 pt va] assms(1) unfolding pt_ready_def by blast
  note d = walkedD [OF w(2)]
  have "ptree 2 (mem t) pt \<inter> A' = {}" unfolding d(5) using assms(1) d(3) by (auto simp: pt_ready_def)
  then have "pt_step pt s A t A'" using d by (simp add: pt_step_def pt_ready_def)
  moreover have "walk pt va True s = Ret r t" using w(1) assms(2) by (simp add: walk_def)
  ultimately show thesis using that extends_vmap [OF d(6)] d(8) by (auto split: if_splits)
qed

lemma walk_lookup:
  "va < MAXVA \<Longrightarrow> walk pt va False s = Ret (case lookup 2 (mem s) pt va of None \<Rightarrow> 0 | Some a \<Rightarrow> a) s"
  by (simp add: walk_def walk_level_lookup)

lemma lookup_nonzero: "wf_pt l e m pt \<Longrightarrow> lookup l m pt va = Some a \<Longrightarrow> a \<noteq> 0"
  by (metis lookup_in_tree page_ok_nonzero wf_pt_pages)

lemma store_leaf_step:
  fixes v :: uint64
  assumes "pt_ready s pt A" "lookup 2 (mem s) pt va = Some a"
  defines "t \<equiv> s\<lparr>mem := store64 a v (mem s)\<rparr>"
  shows "pt_step pt s A t A" "vmap (mem t) pt va' = (if same_vpage 2 va' va then v else vmap (mem s) pt va')"
proof -
  have wf: "wf_pt 2 (kend s) (mem s) pt" using assms(1) by (simp add: pt_ready_def)
  note st = store_leaf_vmap [OF wf assms(2), where v = v]
  show "vmap (mem t) pt va' = (if same_vpage 2 va' va then v else vmap (mem s) pt va')" using st(3) by (simp add: t_def)
  have "kpool t A" unfolding t_def
  proof (rule kpool_mem)
    show "kpool s A" using assms(1) by (simp add: pt_ready_def)
    fix p assume "p \<in> A"
    then have "page_ok (kend s) p" "p \<notin> ptree 2 (mem s) pt"
      using assms(1) kmem.pool_valid [OF \<open>kpool s A\<close>, of p] by (auto simp: pt_ready_def kvalid_def)
    then show "same_page_bytes (mem s) (store64 a v (mem s)) p" by (rule st(4))
  qed
  then show "pt_step pt s A t A"
    using assms(1) st(1,2,4) by (simp add: pt_step_def pt_ready_def t_def)
qed

section \<open>Mapping\<close>

text \<open>The page \<open>k\<close> pages after \<open>a\<close>.\<close>

definition nth_page :: "uint64 \<Rightarrow> nat \<Rightarrow> uint64" where
  "nth_page a k = a + of_nat k * PGSIZE"

lemma nth_page_Suc: "nth_page (a + PGSIZE) k = nth_page a (Suc k)"
  by (simp add: nth_page_def algebra_simps)

lemma nth_page_0 [simp]: "nth_page a 0 = a"
  by (simp add: nth_page_def)

lemma unat_nth_page: "unat a + 4096 * k < 2 ^ 64 \<Longrightarrow> unat (nth_page a k) = unat a + 4096 * k"
  using unat_add_small [of a "4096 * k"] by (simp add: nth_page_def PGSIZE_def mult.commute)

text \<open>The leaf entries after mapping the first \<open>k\<close> pages.\<close>

definition mapped :: "(uint64 \<Rightarrow> uint64) \<Rightarrow> uint64 \<Rightarrow> uint64 \<Rightarrow> uint64 \<Rightarrow> nat \<Rightarrow> uint64 \<Rightarrow> uint64" where
  "mapped f a pa perm k va =
     (case find (\<lambda>j. same_vpage 2 va (nth_page a j)) [0..<k] of
        Some j \<Rightarrow> PA2PTE (nth_page pa j) OR perm OR PTE_V
      | None \<Rightarrow> f va)"

lemma mapped_0 [simp]: "mapped f a pa perm 0 va = f va"
  by (simp add: mapped_def)

lemma find_map_Suc: "find P [Suc 0..<Suc k] = map_option Suc (find (\<lambda>j. P (Suc j)) [0..<k])"
proof -
  have "find P (map Suc xs) = map_option Suc (find (\<lambda>j. P (Suc j)) xs)" for xs by (induction xs) auto
  then show ?thesis by (metis map_Suc_upt)
qed

lemma mapped_Suc:
  "mapped f a pa perm (Suc k) va =
     (if same_vpage 2 va a then PA2PTE pa OR perm OR PTE_V
      else mapped f (a + PGSIZE) (pa + PGSIZE) perm k va)"
proof -
  have "[0..<Suc k] = 0 # [Suc 0..<Suc k]" by (simp add: upt_conv_Cons del: upt_Suc)
  then show ?thesis
    by (simp add: mapped_def find_map_Suc nth_page_Suc del: upt_Suc split: option.split)
qed

lemma PGROUNDDOWN_page: "a mod PGSIZE = 0 \<Longrightarrow> PGROUNDDOWN a = a"
  unfolding page_mod by (auto simp: word_unat_eq_iff unat_PGROUNDDOWN)

lemma same_vpage_trans: "same_vpage l va a \<Longrightarrow> same_vpage l va b \<Longrightarrow> same_vpage l a b"
  by (simp add: same_vpage_def)

lemma nth_page_distinct:
  assumes "a mod PGSIZE = 0" "unat a + 4096 * Suc n \<le> unat MAXVA" "j \<le> n" "0 < j"
  shows "\<not> same_vpage 2 (nth_page a j) a"
proof -
  have mx: "unat MAXVA = 274877906944" by (simp add: MAXVA_def)
  have u: "unat (nth_page a j) = unat a + 4096 * j" using assms mx by (intro unat_nth_page) simp
  have lt: "nth_page a j < MAXVA" "a < MAXVA" using u assms(2,3) by (simp_all add: word_less_nat_alt)
  have "nth_page a j mod PGSIZE = 0" using assms(1) unfolding page_mod u by presburger
  then show ?thesis using same_vpage_iff [OF lt] assms(1,4) u PGROUNDDOWN_page by auto
qed

lemma mapped_upd:
  assumes "a mod PGSIZE = 0" "unat a + 4096 * Suc n \<le> unat MAXVA" "k \<le> n"
  shows "mapped (\<lambda>va. if same_vpage 2 va a then x else f va) (a + PGSIZE) pa perm k va =
    (if same_vpage 2 va a then x else mapped f (a + PGSIZE) pa perm k va)"
proof (cases "same_vpage 2 va a")
  case True
  have "\<not> same_vpage 2 va (nth_page (a + PGSIZE) j)" if "j < k" for j
    using nth_page_distinct [OF assms(1,2), of "Suc j"] that assms(3) same_vpage_trans [OF _ True] unfolding nth_page_Suc by auto
  then have "find (\<lambda>j. same_vpage 2 va (nth_page (a + PGSIZE) j)) [0..<k] = None" unfolding find_None_iff by fastforce
  then show ?thesis using True by (simp add: mapped_def)
next
  case False
  then show ?thesis by (simp add: mapped_def)
qed

lemma map_one:
  fixes x :: uint64
  assumes "pt_ready s pt A" "a < MAXVA" "\<not> valid (vmap (mem s) pt a)"
  obtains (fail) t where "walk pt a True s = Ret 0 t" "pt_step pt s A t {}"
      "\<And>va. vmap (mem t) pt va = vmap (mem s) pt va"
  | (ok) r t A' where "walk pt a True s = Ret r t" "r \<noteq> 0" "\<not> valid (load64 (mem t) r)"
      "pt_step pt s A (t\<lparr>mem := store64 r x (mem t)\<rparr>) A'"
      "\<And>va. vmap (store64 r x (mem t)) pt va = (if same_vpage 2 va a then x else vmap (mem s) pt va)"
proof -
  obtain r t A' where w: "walk pt a True s = Ret r t" "pt_step pt s A t A'"
    "\<And>va'. vmap (mem t) pt va' = vmap (mem s) pt va'"
    "r = 0 \<Longrightarrow> A' = {}" "r \<noteq> 0 \<Longrightarrow> lookup 2 (mem t) pt a = Some r"
    using walk_alloc [OF assms(1,2)] by blast
  show thesis
  proof (cases "r = 0")
    case True
    then show thesis using w fail by metis
  next
    case False
    note lk = w(5) [OF False]
    have "load64 (mem t) r = vmap (mem t) pt a" using lk by (simp add: vmap_def)
    then have nv: "\<not> valid (load64 (mem t) r)" using w(3) [of a] assms(3) by simp
    have rt: "pt_ready t pt A'" using w(2) by (simp add: pt_step_def)
    note st = store_leaf_step [OF rt lk, of x]
    have "vmap (store64 r x (mem t)) pt va = (if same_vpage 2 va a then x else vmap (mem s) pt va)" for va
      using st(2) [of va] w(3) [of va] by simp
    then show thesis using ok [OF w(1) False nv pt_step_trans [OF w(2) st(1)]] by blast
  qed
qed

lemma mappages_loop_ok:
  assumes "pt_ready s pt A" "a mod PGSIZE = 0" "unat a + 4096 * Suc n \<le> unat MAXVA"
    and "\<And>k. k \<le> n \<Longrightarrow> \<not> valid (vmap (mem s) pt (nth_page a k))"
  shows "\<exists>r t A' k. mappages_loop pt a (nth_page a n) pa perm s = Ret r t \<and> pt_step pt s A t A' \<and>
    (\<forall>va. vmap (mem t) pt va = mapped (vmap (mem s) pt) a pa perm k va) \<and>
    (r = 0 \<and> k = Suc n \<or> r = -1 \<and> k \<le> n \<and> A' = {})"
  using assms
proof (induction n arbitrary: a pa s A)
  case 0
  have a: "a < MAXVA" using "0.prems"(3) by (simp add: word_less_nat_alt)
  have nv: "\<not> valid (vmap (mem s) pt a)" using "0.prems"(4) [of 0] by simp
  let ?x = "PA2PTE pa OR perm OR PTE_V"
  from "0.prems"(1) a nv show ?case
  proof (cases rule: map_one [where x = ?x])
    case (fail t)
    then show ?thesis by (subst mappages_loop.simps) (auto intro!: exI [of _ "0::nat"])
  next
    case (ok r t A')
    have "mappages_loop pt a (nth_page a 0) pa perm s = Ret 0 (t\<lparr>mem := store64 r ?x (mem t)\<rparr>)"
      using ok(1-3) by (subst mappages_loop.simps) (simp add: valid_def Let_def)
    then show ?thesis using ok(4,5) by (intro exI [of _ 0] exI [of _ "t\<lparr>mem := store64 r ?x (mem t)\<rparr>"] exI [of _ A'] exI [of _ 1])
        (simp add: mapped_Suc)
  qed
next
  case (Suc n)
  have mx: "unat MAXVA = 274877906944" by (simp add: MAXVA_def)
  have a: "a < MAXVA" using Suc.prems(3) by (simp add: word_less_nat_alt)
  have nv: "\<not> valid (vmap (mem s) pt a)" using Suc.prems(4) [of 0] by simp
  have up: "unat (a + PGSIZE) = unat a + 4096" using unat_nth_page [of a 1] Suc.prems(3) mx by (simp add: nth_page_def)
  let ?x = "PA2PTE pa OR perm OR PTE_V"
  from Suc.prems(1) a nv show ?case
  proof (cases rule: map_one [where x = ?x])
    case (fail t)
    then show ?thesis by (subst mappages_loop.simps) (auto intro!: exI [of _ "0::nat"])
  next
    case (ok r t A')
    let ?u = "t\<lparr>mem := store64 r ?x (mem t)\<rparr>"
    have rdy: "pt_ready ?u pt A'" using ok(4) by (simp add: pt_step_def)
    have al: "(a + PGSIZE) mod PGSIZE = 0" using Suc.prems(2) up unfolding page_mod by simp
    have bd: "unat (a + PGSIZE) + 4096 * Suc n \<le> unat MAXVA" using Suc.prems(3) up by simp
    have free: "\<not> valid (vmap (mem ?u) pt (nth_page (a + PGSIZE) k))" if "k \<le> n" for k
    proof -
      show ?thesis using ok(5) [of "nth_page a (Suc k)"] nth_page_distinct [OF Suc.prems(2,3), of "Suc k"] Suc.prems(4) [of "Suc k"] that
        by (simp add: nth_page_Suc)
    qed
    obtain r' v A'' k where IH: "mappages_loop pt (a + PGSIZE) (nth_page (a + PGSIZE) n) (pa + PGSIZE) perm ?u = Ret r' v"
      "pt_step pt ?u A' v A''"
      "\<forall>va. vmap (mem v) pt va = mapped (vmap (mem ?u) pt) (a + PGSIZE) (pa + PGSIZE) perm k va"
      "r' = 0 \<and> k = Suc n \<or> r' = -1 \<and> k \<le> n \<and> A'' = {}"
      using Suc.IH [OF rdy al bd free, of "pa + PGSIZE"] by blast
    have "nth_page a (Suc n) \<noteq> a"
    proof -
      have "unat (nth_page a (Suc n)) = unat a + 4096 * Suc n" using Suc.prems(3) mx by (intro unat_nth_page) simp
      then show ?thesis by auto
    qed
    then have 1: "mappages_loop pt a (nth_page a (Suc n)) pa perm s = Ret r' v"
      using ok(1-3) IH(1) by (subst mappages_loop.simps) (simp add: valid_def Let_def nth_page_Suc)
    have "vmap (mem ?u) pt = (\<lambda>va. if same_vpage 2 va a then ?x else vmap (mem s) pt va)" using ok(5) by auto
    then have "vmap (mem v) pt va = mapped (vmap (mem s) pt) a pa perm (Suc k) va" for va
      using IH(3) mapped_upd [OF Suc.prems(2,3), of k] IH(4) unfolding mapped_Suc by auto
    then show ?thesis using 1 IH(4) pt_step_trans [OF ok(4) IH(2)]
      by (intro exI [of _ r'] exI [of _ v] exI [of _ A''] exI [of _ "Suc k"]) auto
  qed
qed

lemma mappages_ok:
  assumes "pt_ready s pt A" "va mod PGSIZE = 0" "unat va + 4096 * Suc n \<le> unat MAXVA"
    and "\<And>k. k \<le> n \<Longrightarrow> \<not> valid (vmap (mem s) pt (nth_page va k))"
  shows "\<exists>r t A' k. mappages pt va (of_nat (Suc n) * PGSIZE) pa perm s = Ret r t \<and> pt_step pt s A t A' \<and>
    (\<forall>va'. vmap (mem t) pt va' = mapped (vmap (mem s) pt) va pa perm k va') \<and>
    (r = 0 \<and> k = Suc n \<or> r = -1 \<and> k \<le> n \<and> A' = {})"
proof -
  have mx: "unat MAXVA = 274877906944" by (simp add: MAXVA_def)
  have sz: "unat (of_nat (Suc n) * PGSIZE) = 4096 * Suc n"
    using unat_nth_page [of 0 "Suc n"] assms(3) mx by (simp add: nth_page_def)
  then have "of_nat (Suc n) * PGSIZE \<noteq> 0" by (metis mult_is_0 nat.distinct(1) unat_0 zero_neq_numeral)
  moreover have "PGROUNDDOWN (va + of_nat (Suc n) * PGSIZE - 1) = nth_page va n"
  proof -
    have eq: "va + of_nat (Suc n) * PGSIZE - 1 = nth_page va n + of_nat 4095"
      by (simp add: nth_page_def PGSIZE_def algebra_simps)
    have u: "unat (nth_page va n) = unat va + 4096 * n" using assms(3) mx by (intro unat_nth_page) simp
    then have "unat (va + of_nat (Suc n) * PGSIZE - 1) = unat va + 4096 * n + 4095"
      unfolding eq using assms(3) mx by (subst unat_add_small) simp_all
    moreover obtain q where "unat va = 4096 * q" using assms(2) unfolding page_mod by (metis dvdE mod_0_imp_dvd)
    moreover have "(4096 * q + 4096 * n + 4095) div 4096 = q + n" for q :: nat by linarith
    ultimately show ?thesis using u by (simp add: word_unat_eq_iff unat_PGROUNDDOWN)
  qed
  ultimately have "mappages pt va (of_nat (Suc n) * PGSIZE) pa perm s = mappages_loop pt va (nth_page va n) pa perm s"
    using PGROUNDDOWN_page [OF assms(2)] by (simp add: mappages_def)
  then show ?thesis using mappages_loop_ok [OF assms] by metis
qed

text \<open>
  C4: \<open>mappages\<close> installs exactly the requested mapping.  On a well-formed page table none of
  whose requested pages is mapped yet, it returns 0 with every page of the range mapped to the
  corresponding physical page with the requested permissions, or \<open>-1\<close> with the free list
  exhausted and only an initial part of the range mapped; no other address changes its entry,
  the table stays well formed, every page taken from the free list is now a page of the
  table, and no byte of any other page has changed.
\<close>

theorem mappages_correct:
  assumes "pt_ready s pt A" "va mod PGSIZE = 0" "unat va + 4096 * Suc n \<le> unat MAXVA"
    and "\<And>k. k \<le> n \<Longrightarrow> \<not> valid (vmap (mem s) pt (nth_page va k))"
  shows "\<exists>r t A' k. mappages pt va (of_nat (Suc n) * PGSIZE) pa perm s = Ret r t \<and> pt_step pt s A t A' \<and>
    (\<forall>va'. vmap (mem t) pt va' = mapped (vmap (mem s) pt) va pa perm k va') \<and>
    (r = 0 \<and> k = Suc n \<or> r = -1 \<and> k \<le> n \<and> A' = {})"
  by (rule mappages_ok [OF assms])

text \<open>An all-zero root page: an empty address space.\<close>

lemma empty_table:
  assumes "page_ok (kend s) pt" "\<And>x. mem s x = 0" "kpool s A" "pt \<notin> A"
  shows "pt_ready s pt A" "\<not> valid (vmap (mem s) pt va)"
proof -
  note z = zero_table [OF assms(1), of "mem s"]
  show "pt_ready s pt A" using z(1,2) [of 2] assms by (simp add: pt_ready_def)
  have "entry (mem s) pt (unat (PX 2 va)) = 0" using z(3) [OF _ PX_bound] assms(2) by blast
  then show "\<not> valid (vmap (mem s) pt va)" by (simp add: vmap_def numeral_2_eq_2 valid_def)
qed

theorem mappages_correct_witness:
  "\<exists>r t A' k. mappages 0x80200000 0 (of_nat (Suc 1) * PGSIZE) 0x80300000 PTE_W kboot = Ret r t \<and>
     pt_step 0x80200000 kboot {} t A' \<and>
     (\<forall>va'. vmap (mem t) 0x80200000 va' =
        mapped (vmap (mem kboot) 0x80200000) 0 0x80300000 PTE_W k va') \<and>
     (r = 0 \<and> k = Suc 1 \<or> r = -1 \<and> k \<le> 1 \<and> A' = {})"
proof -
  have pg: "page_ok (kend kboot) 0x80200000"
    by (simp add: page_ok_def kboot_ok PGSIZE_def PHYSTOP_def KERNBASE_def)
  have pool: "kpool kboot {}" using kboot_ok by (simp add: kpool_def kmem_inv_def)
  have zero: "mem kboot x = 0" for x by (simp add: kboot_def kproc.defs)
  note e = empty_table [OF pg zero pool]
  show ?thesis
    using e(1) by (intro mappages_correct) (simp_all add: e(2) MAXVA_def PGSIZE_def)
qed

section \<open>What memory operations leave alone\<close>

text \<open>
  \<open>kframe s t\<close>: apart from memory and the free list, \<open>t\<close> is \<open>s\<close> up to the stale interrupt
  flag of the CPU.  Every operation of the allocator and of the page-table code, however it
  ends, stays within it.
\<close>

named_theorems kframes "operations that touch only memory and the free list"

definition no_mem :: "'z kstate_scheme \<Rightarrow> 'z kstate_scheme" where
  "no_mem s = (touch s)\<lparr>mem := \<lambda>_. 0, freelist := 0\<rparr>"

definition kframe :: "'z kstate_scheme \<Rightarrow> 'z kstate_scheme \<Rightarrow> bool" where
  "kframe s t \<longleftrightarrow> (cpu_ok s \<longrightarrow> lock_free L_kmem s \<longrightarrow> no_mem t = no_mem s \<and> cpu_ok t \<and> lock_free L_kmem t)"

lemma kframe_refl [simp]: "kframe s s"
  by (simp add: kframe_def)

lemma touch_kmem: "touch (s\<lparr>mem := m\<rparr>) = (touch s)\<lparr>mem := m\<rparr>" "touch (s\<lparr>freelist := f\<rparr>) = (touch s)\<lparr>freelist := f\<rparr>"
  by (simp_all add: touch_def intr_get_def)

lemma kframe_trans: "kframe s t \<Longrightarrow> kframe t u \<Longrightarrow> kframe s u"
  by (simp add: kframe_def)

lemma kframe_mem [simp]: "kframe s (t\<lparr>mem := m\<rparr>) = kframe s t"
  by (auto simp: kframe_def touch_kmem no_mem_def)

lemma kframe_kalloc [kframes]: "if_returns (kalloc s) (\<lambda>_ t. kframe s t)"
  by (cases "cpu_ok s \<and> lock_free L_kmem s")
    (auto simp: kalloc_eq kframe_def no_mem_def touch_kmem if_returns_def split: outcome.split if_splits)

lemma kframe_kfree [kframes]: "if_returns (kfree pa s) (\<lambda>_ t. kframe s t)"
proof (cases "cpu_ok s \<and> lock_free L_kmem s")
  case True
  let ?s = "s\<lparr>mem := memset pa 1 4096 (mem s)\<rparr>"
  have ok: "cpu_ok ?s" "lock_free L_kmem ?s" using True by simp_all
  show ?thesis using True acquire_eq [OF ok] unlock_freelist(2) [OF ok]
    by (simp add: kfree_def kframe_def no_mem_def touch_kmem)
next
  case False
  then show ?thesis by (auto simp: kframe_def if_returns_def split: outcome.split)
qed

lemma kframe_bnd:
  assumes "if_returns m (\<lambda>_ t. kframe s t)"
    "\<And>v t. m = Ret v t \<Longrightarrow> if_returns (f v t) (\<lambda>_ u. kframe t u)"
  shows "if_returns (bnd m f) (\<lambda>_ t. kframe s t)"
proof (cases m)
  case (Ret v t)
  then have "kframe s t" using assms(1) by simp
  then show ?thesis using Ret if_returns_mono [OF assms(2) [OF Ret] kframe_trans] by simp
qed simp_all

lemma kframe_if_returns_mem [simp]:
  "if_returns m (\<lambda>_ u. kframe (t\<lparr>mem := x\<rparr>) u) = if_returns m (\<lambda>_ u. kframe t u)"
proof -
  have "kframe (t\<lparr>mem := x\<rparr>) u = kframe t u" for u by (simp add: kframe_def no_mem_def touch_kmem)

  then show ?thesis by simp
qed

lemma kframe_via_mem: "if_returns m (\<lambda>_ u. kframe (t\<lparr>mem := x\<rparr>) u) \<Longrightarrow> if_returns m (\<lambda>_ u. kframe t u)"
  by simp

lemma kframe_walk_level [kframes]: "if_returns (walk_level l pt va alloc s) (\<lambda>_ t. kframe s t)"
proof (induction l arbitrary: pt s alloc)
  case (Suc l)
  show ?case
    by (auto simp: Let_def Suc kframe_kalloc intro!: kframe_bnd kframe_via_mem [OF Suc])
qed simp

lemma kframe_walk [kframes]: "if_returns (walk pt va alloc s) (\<lambda>_ t. kframe s t)"
  by (simp add: walk_def kframe_walk_level)

lemma kframe_mappages_loop [kframes]: "if_returns (mappages_loop pt a lst pa perm s) (\<lambda>_ t. kframe s t)"
proof (induction pt a lst pa perm s rule: mappages_loop.induct)
  case (1 pt a lst pa perm s)
  show ?case
    by (subst mappages_loop.simps)
      (auto simp: Let_def kframe_walk intro!: kframe_bnd kframe_via_mem [OF 1])
qed

lemma kframe_mappages [kframes]: "if_returns (mappages pt va sz pa perm s) (\<lambda>_ t. kframe s t)"
  by (simp add: mappages_def kframe_mappages_loop)

lemma kframe_uvmunmap_loop [kframes]: "if_returns (uvmunmap_loop pt a stop df s) (\<lambda>_ t. kframe s t)"
proof (induction pt a stop df s rule: uvmunmap_loop.induct)
  case (1 pt a stop df s)
  have IH: "if_returns (uvmunmap_loop pt (a + PGSIZE) stop b (u\<lparr>mem := m\<rparr>)) (\<lambda>_ t. kframe u t)"
    if "b = df" "a < stop" "walk pt a False s = Ret pte t" "pte \<noteq> 0" "load64 (mem t) pte AND PTE_V \<noteq> 0"
      "PTE_FLAGS (load64 (mem t) pte) \<noteq> PTE_V" "(if b then kfree (PTE2PA (load64 (mem t) pte)) t else Ret () t) = Ret () u"
      "m = store64 pte 0 (mem u)" for b pte t u m
    using kframe_via_mem [OF 1 [OF that(2-6), of "()" u]] that(1,7,8) by simp
  show ?case
    by (subst uvmunmap_loop.simps)
      (auto simp: Let_def kframe_walk kframe_kfree intro!: kframe_bnd IH)
qed

lemma kframe_uvmunmap [kframes]: "if_returns (uvmunmap pt va n df s) (\<lambda>_ t. kframe s t)"
  by (simp add: uvmunmap_def kframe_uvmunmap_loop)

lemma kframe_uvmdealloc [kframes]: "if_returns (uvmdealloc pt old new s) (\<lambda>_ t. kframe s t)"
  by (auto simp: uvmdealloc_def Let_def kframe_uvmunmap intro!: kframe_bnd)

lemma kframe_uvmcreate [kframes]: "if_returns (uvmcreate s) (\<lambda>_ t. kframe s t)"
  by (auto simp: uvmcreate_def kframe_kalloc intro!: kframe_bnd)

lemma kframe_uvmalloc_loop [kframes]: "if_returns (uvmalloc_loop pt a old new x s) (\<lambda>_ t. kframe s t)"
proof (induction pt a old new x s rule: uvmalloc_loop.induct)
  case (1 pt a old new x s)
  have IH: "if_returns (uvmalloc_loop pt (a + PGSIZE) old new x u) (\<lambda>_ t. kframe u t)"
    if "a < new" "kalloc s = Ret m t" "m \<noteq> 0"
      "mappages pt a PGSIZE m (PTE_R OR PTE_U OR x) (t\<lparr>mem := memset m 0 4096 (mem t)\<rparr>) = Ret 0 u" for m t u
    using 1 [OF that(1-3) refl, of 0 u] that(4) by simp
  show ?case
    by (subst uvmalloc_loop.simps)
      (auto simp: Let_def kframes IH intro!: kframe_bnd kframe_via_mem [OF kframe_mappages])
qed

lemma kframe_for_each:
  "(\<And>i s. if_returns (body i s) (\<lambda>_ t. kframe s t)) \<Longrightarrow> if_returns (for_each is body s) (\<lambda>_ t. kframe s t)"
  by (induction "is" arbitrary: s) (auto intro!: kframe_bnd)

lemma kframe_freewalk [kframes]: "if_returns (freewalk d pt s) (\<lambda>_ t. kframe s t)"
  by (induction d arbitrary: pt s) (auto simp: Let_def kframe_kfree intro!: kframe_bnd kframe_for_each)

lemma kframe_uvmfree [kframes]: "if_returns (uvmfree pt sz s) (\<lambda>_ t. kframe s t)"
  by (auto simp: uvmfree_def kframe_uvmunmap kframe_freewalk intro!: kframe_bnd)

end
