(* ===== verification/Vmunmap.thy ===== *)
theory Vmunmap
  imports Vmspec
begin

text \<open>
  Taking address spaces apart, \<^verbatim>\<open>uvmunmap\<close>, \<^verbatim>\<open>freewalk\<close>, \<^verbatim>\<open>uvmfree\<close> of
  \<^verbatim>\<open>kernel/vm.c\<close>: the pages of the address space and of its page table go back to the
  free list, each exactly once.
\<close>

section \<open>Unmapping\<close>

text \<open>A leaf entry as \<open>uvmunmap\<close> demands it.\<close>

definition leaf :: "uint64 \<Rightarrow> bool" where
  "leaf e \<longleftrightarrow> valid e \<and> PTE_FLAGS e \<noteq> PTE_V"

text \<open>The physical page behind the \<open>k\<close>-th page of a range.\<close>

definition frame :: "mem \<Rightarrow> uint64 \<Rightarrow> uint64 \<Rightarrow> nat \<Rightarrow> uint64" where
  "frame m pt a k = PTE2PA (vmap m pt (nth_page a k))"

text \<open>A page outside the tree and the pool may be overwritten without harm to either.\<close>

lemma pt_ready_scribble:
  assumes "pt_ready s pt A" "kpool t A'" "kend t = kend s" "ptree 2 (mem s) pt \<inter> A' = {}"
    and same: "\<And>q. page_ok (kend s) q \<Longrightarrow> q \<noteq> p \<Longrightarrow> same_page_bytes (mem s) (mem t) q"
    and p: "p \<notin> ptree 2 (mem s) pt"
  shows "pt_ready t pt A'" "ptree 2 (mem t) pt = ptree 2 (mem s) pt"
    "lookup 2 (mem t) pt va = lookup 2 (mem s) pt va" "vmap (mem t) pt va = vmap (mem s) pt va"
proof -
  have wf: "wf_pt 2 (kend s) (mem s) pt" using assms(1) by (simp add: pt_ready_def)
  have keep: "same_page_bytes (mem s) (mem t) q" if "q \<in> ptree 2 (mem s) pt" for q
    using same wf_pt_pages [OF wf that] that p by blast
  note c = ptree_cong [of 2 "mem s" pt "mem t", OF keep]
  show "ptree 2 (mem t) pt = ptree 2 (mem s) pt" and lk: "lookup 2 (mem t) pt va = lookup 2 (mem s) pt va"
    using c by blast+
  show "pt_ready t pt A'" using assms(2-4) wf c by (simp add: pt_ready_def)
  show "vmap (mem t) pt va = vmap (mem s) pt va"
  proof (cases "lookup 2 (mem s) pt va")
    case (Some a)
    then obtain q i where q: "q \<in> ptree 2 (mem s) pt" "i < 512" "a = q + 8 * of_nat i" by (rule lookup_in_tree)
    then have "load64 (mem t) a = load64 (mem s) a" using load64_same_page keep by metis
    then show ?thesis using Some lk by (simp add: vmap_def)
  qed (simp add: vmap_def lk)
qed

lemma kfree_pages:
  assumes "kpool s A" "page_ok (kend s) p" "p \<notin> A"
  obtains t where "kfree p s = Ret () t" "kpool t (insert p A)" "kend t = kend s"
    "\<And>q. page_ok (kend s) q \<Longrightarrow> q \<noteq> p \<Longrightarrow> same_page_bytes (mem s) (mem t) q"
proof -
  have r: "cpu_ok s" "lock_free L_kmem s" using assms(1) by (simp_all add: kpool_def)
  obtain t where t: "kfree p s = Ret () t" "kpool t (insert p A)" "\<And>x. \<not> in_range x p 4096 \<Longrightarrow> mem t x = mem s x"
    using kmem.free_page [OF assms(1) _ assms(3)] assms(2) by (auto simp: kvalid_def)
  have "kend t = kend s" using t(1) kfree_eq [OF r assms(2)] by auto
  moreover have "same_page_bytes (mem s) (mem t) q" if "page_ok (kend s) q" "q \<noteq> p" for q
  proof -
    have "disjoint_ranges q 4096 p 4096" using pages_disjoint [OF that(1) assms(2) that(2)] by simp
    then show ?thesis using t(3) by (auto simp: same_page_bytes_def disjoint_ranges_def)
  qed
  ultimately show thesis using that t by blast
qed

lemma unmap_one:
  assumes rdy: "pt_ready s pt A" and a: "a < MAXVA" "leaf (vmap (mem s) pt a)"
    and fr: "df \<Longrightarrow> page_ok (kend s) p \<and> p \<notin> ptree 2 (mem s) pt \<and> p \<notin> A" and p: "p = PTE2PA (vmap (mem s) pt a)"
  obtains pte u where "walk pt a False s = Ret pte s" "pte \<noteq> 0" "load64 (mem s) pte = vmap (mem s) pt a"
    "(if df then kfree p s else Ret () s) = Ret () u"
    "pt_ready (u\<lparr>mem := store64 pte 0 (mem u)\<rparr>) pt (if df then insert p A else A)" "kend u = kend s"
    "ptree 2 (store64 pte 0 (mem u)) pt = ptree 2 (mem s) pt"
    "\<And>va. vmap (store64 pte 0 (mem u)) pt va = (if same_vpage 2 va a then 0 else vmap (mem s) pt va)"
    "\<And>q. page_ok (kend s) q \<Longrightarrow> q \<notin> ptree 2 (mem s) pt \<Longrightarrow> (df \<Longrightarrow> q \<noteq> p) \<Longrightarrow> same_page_bytes (mem s) (store64 pte 0 (mem u)) q"
proof -
  have wf: "wf_pt 2 (kend s) (mem s) pt" using rdy by (simp add: pt_ready_def)
  have "lookup 2 (mem s) pt a \<noteq> None" using a(2) by (cases "lookup 2 (mem s) pt a") (auto simp: vmap_def leaf_def valid_def)
  then obtain pte where lk: "lookup 2 (mem s) pt a = Some pte" by blast
  let ?A = "if df then insert p A else A"
  obtain u where u: "(if df then kfree p s else Ret () s) = Ret () u" "kpool u ?A" "kend u = kend s"
    "\<And>q. page_ok (kend s) q \<Longrightarrow> (df \<Longrightarrow> q \<noteq> p) \<Longrightarrow> same_page_bytes (mem s) (mem u) q"
  proof (cases df)
    case True
    have kp: "kpool s A" using rdy by (simp add: pt_ready_def)
    show thesis by (rule kfree_pages [OF kp, of p]) (use fr [OF True] that True in simp_all)
  next
    case False
    then show thesis using that [of s] rdy by (simp add: pt_ready_def same_page_bytes_def)
  qed
  have dis: "ptree 2 (mem s) pt \<inter> ?A = {}" using rdy fr by (auto simp: pt_ready_def)
  obtain x where x: "x \<notin> ptree 2 (mem s) pt" "df \<Longrightarrow> x = p" 
    "\<And>q. page_ok (kend s) q \<Longrightarrow> q \<noteq> x \<Longrightarrow> same_page_bytes (mem s) (mem u) q"
  proof (cases df)
    case True then show thesis using that [of p] fr u(4) by blast
  next
    case False
    have "0 \<notin> ptree 2 (mem s) pt" using wf_pt_pages [OF wf, of 0] by (auto simp: page_ok_def)
    then show thesis using that [of 0] u(4) False by blast
  qed
  note sc = pt_ready_scribble [OF rdy u(2,3) dis x(3,1)]
  have lku: "lookup 2 (mem u) pt a = Some pte" using sc(3) lk by simp
  note st = store_leaf_step [OF sc(1) lku, of 0]
  have w: "walk pt a False s = Ret pte s" by (simp add: walk_lookup [OF a(1)] lk)
  show thesis
  proof (rule that [OF w lookup_nonzero [OF wf lk] _ u(1) _ u(3)])
    show "load64 (mem s) pte = vmap (mem s) pt a" by (simp add: vmap_def lk)
    show "pt_ready (u\<lparr>mem := store64 pte 0 (mem u)\<rparr>) pt ?A" using st(1) by (simp add: pt_step_def)
    show "ptree 2 (store64 pte 0 (mem u)) pt = ptree 2 (mem s) pt" using st(1) sc(2) by (simp add: pt_step_def)
    show "vmap (store64 pte 0 (mem u)) pt va = (if same_vpage 2 va a then 0 else vmap (mem s) pt va)" for va
      using st(2) [of va] sc(4) [of va] by simp
    show "same_page_bytes (mem s) (store64 pte 0 (mem u)) q"
      if "page_ok (kend s) q" "q \<notin> ptree 2 (mem s) pt" "df \<Longrightarrow> q \<noteq> p" for q
    proof -
      have "same_page_bytes (mem u) (store64 pte 0 (mem u)) q"
        using st(1) sc(2) that(1,2) u(3) by (simp add: pt_step_def)
      then show ?thesis using u(4) [OF that(1,3)] by (simp add: same_page_bytes_def)
    qed
  qed
qed

text \<open>The range can be unmapped: leaf entries, and when the frames are to be freed, frames that
  are pages of memory, pairwise different, and neither free already nor pages of the table.\<close>

definition unmappable :: "'z kstate_scheme \<Rightarrow> uint64 \<Rightarrow> uint64 set \<Rightarrow> uint64 \<Rightarrow> nat \<Rightarrow> bool \<Rightarrow> bool" where
  "unmappable s pt A a n df \<longleftrightarrow> (\<forall>k<n. leaf (vmap (mem s) pt (nth_page a k))) \<and>
     (df \<longrightarrow> inj_on (frame (mem s) pt a) {..<n} \<and>
       (\<forall>k<n. page_ok (kend s) (frame (mem s) pt a k) \<and> frame (mem s) pt a k \<notin> ptree 2 (mem s) pt \<and>
          frame (mem s) pt a k \<notin> A))"

definition freed :: "'z kstate_scheme \<Rightarrow> uint64 \<Rightarrow> uint64 \<Rightarrow> nat \<Rightarrow> bool \<Rightarrow> uint64 set" where
  "freed s pt a n df = (if df then frame (mem s) pt a ` {..<n} else {})"

text \<open>The state after unmapping \<open>n\<close> pages.\<close>

definition unmapped :: "'z kstate_scheme \<Rightarrow> uint64 \<Rightarrow> uint64 set \<Rightarrow> uint64 \<Rightarrow> nat \<Rightarrow> bool \<Rightarrow> 'z kstate_scheme \<Rightarrow> bool" where
  "unmapped s pt A a n df t \<longleftrightarrow> pt_ready t pt (A \<union> freed s pt a n df) \<and> kend t = kend s \<and>
     ptree 2 (mem t) pt = ptree 2 (mem s) pt \<and>
     (\<forall>va. vmap (mem t) pt va = (if \<exists>k<n. same_vpage 2 va (nth_page a k) then 0 else vmap (mem s) pt va)) \<and>
     (\<forall>q. page_ok (kend s) q \<longrightarrow> q \<notin> ptree 2 (mem s) pt \<longrightarrow> q \<notin> freed s pt a n df \<longrightarrow> same_page_bytes (mem s) (mem t) q)"

lemma nth_page_facts:
  assumes "a mod PGSIZE = 0" "unat a + 4096 * n \<le> unat MAXVA" "k < n"
  shows "unat (nth_page a k) = unat a + 4096 * k" "nth_page a k < MAXVA" "PGROUNDDOWN (nth_page a k) = nth_page a k"
proof -
  have mx: "unat MAXVA = 274877906944" by (simp add: MAXVA_def)
  show u: "unat (nth_page a k) = unat a + 4096 * k" using assms mx by (intro unat_nth_page) simp
  then show "nth_page a k < MAXVA" using assms by (simp add: word_less_nat_alt)
  have "nth_page a k mod PGSIZE = 0" using assms(1) unfolding page_mod u by presburger
  then show "PGROUNDDOWN (nth_page a k) = nth_page a k" by (rule PGROUNDDOWN_page)
qed

lemma less_Suc_ex: "(\<exists>k<Suc n. P k) \<longleftrightarrow> P 0 \<or> (\<exists>k<n. P (Suc k))"
  using less_Suc_eq_0_disj by auto

lemma uvmunmap_loop_ok:
  assumes "pt_ready s pt A" "a mod PGSIZE = 0" "unat a + 4096 * n \<le> unat MAXVA" "unmappable s pt A a n df"
  shows "\<exists>t. uvmunmap_loop pt a (nth_page a n) df s = Ret () t \<and> unmapped s pt A a n df t"
  using assms
proof (induction n arbitrary: a s A)
  case 0
  then show ?case by (subst uvmunmap_loop.simps) (simp add: unmapped_def freed_def same_page_bytes_def)
next
  case (Suc n)
  have mx: "unat MAXVA = 274877906944" by (simp add: MAXVA_def)
  note pg = nth_page_facts [OF Suc.prems(2,3)]
  have a: "a < MAXVA" "PGROUNDDOWN a = a" using pg(2,3) [of 0] by simp_all
  have up: "unat (a + PGSIZE) = unat a + 4096" using unat_nth_page [of a 1] Suc.prems(3) mx by (simp add: nth_page_def)
  have lf: "leaf (vmap (mem s) pt a)" using Suc.prems(4) by (auto simp: unmappable_def)
  define p where "p = PTE2PA (vmap (mem s) pt a)"
  have p0: "frame (mem s) pt a 0 = p" by (simp add: frame_def p_def)
  have fr: "page_ok (kend s) p \<and> p \<notin> ptree 2 (mem s) pt \<and> p \<notin> A" if df
    using Suc.prems(4) that p0 unfolding unmappable_def by auto
  obtain pte u where u: "walk pt a False s = Ret pte s" "pte \<noteq> 0" "load64 (mem s) pte = vmap (mem s) pt a"
    "(if df then kfree p s else Ret () s) = Ret () u"
    "pt_ready (u\<lparr>mem := store64 pte 0 (mem u)\<rparr>) pt (if df then insert p A else A)" "kend u = kend s"
    "ptree 2 (store64 pte 0 (mem u)) pt = ptree 2 (mem s) pt"
    "\<And>va. vmap (store64 pte 0 (mem u)) pt va = (if same_vpage 2 va a then 0 else vmap (mem s) pt va)"
    "\<And>q. page_ok (kend s) q \<Longrightarrow> q \<notin> ptree 2 (mem s) pt \<Longrightarrow> (df \<Longrightarrow> q \<noteq> p) \<Longrightarrow> same_page_bytes (mem s) (store64 pte 0 (mem u)) q"
    using unmap_one [OF Suc.prems(1) a(1) lf fr p_def] by blast
  let ?u = "u\<lparr>mem := store64 pte 0 (mem u)\<rparr>" and ?A = "if df then insert p A else A" and ?a = "a + PGSIZE"
  have nxt: "vmap (mem ?u) pt (nth_page ?a k) = vmap (mem s) pt (nth_page a (Suc k))" if "k < n" for k
  proof -
    have "nth_page a (Suc k) \<noteq> a" using pg(1) [of "Suc k"] that by auto
    then have "\<not> same_vpage 2 (nth_page a (Suc k)) a"
      using same_vpage_iff [OF pg(2) [of "Suc k"] a(1)] pg(3) [of "Suc k"] a(2) that by simp
    then show ?thesis using u(8) [of "nth_page a (Suc k)"] by (simp add: nth_page_Suc)
  qed
  then have fn: "frame (mem ?u) pt ?a k = frame (mem s) pt a (Suc k)" if "k < n" for k using that by (simp add: frame_def)
  have fr': "frame (mem s) pt a (Suc k) \<noteq> p" if "k < n" df for k
  proof
    assume "frame (mem s) pt a (Suc k) = p"
    then have "frame (mem s) pt a (Suc k) = frame (mem s) pt a 0" using p0 by simp
    moreover have "inj_on (frame (mem s) pt a) {..<Suc n}" using Suc.prems(4) that(2) by (simp add: unmappable_def)
    ultimately show False using inj_onD [of _ _ "Suc k" 0] that(1) by fastforce
  qed
  have "inj_on (frame (mem ?u) pt ?a) {..<n}" if df
  proof -
    have "inj_on (frame (mem s) pt a) {..<Suc n}" using Suc.prems(4) that by (simp add: unmappable_def)
    then have inj: "i = j" if "frame (mem s) pt a (Suc i) = frame (mem s) pt a (Suc j)" "i < n" "j < n" for i j
      using inj_onD [of "frame (mem s) pt a" _ "Suc i" "Suc j"] that by fastforce
    show ?thesis by (rule inj_onI) (use fn inj in auto)
  qed
  then have un: "unmappable ?u pt ?A ?a n df"
    using Suc.prems(4) nxt fn fr' u(6,7) by (auto simp: unmappable_def)
  have al: "?a mod PGSIZE = 0" using Suc.prems(2) up unfolding page_mod by simp
  have bd: "unat ?a + 4096 * n \<le> unat MAXVA" using Suc.prems(3) up by simp
  obtain t where t: "uvmunmap_loop pt ?a (nth_page ?a n) df ?u = Ret () t" "unmapped ?u pt ?A ?a n df t"
    using Suc.IH [OF u(5) al bd un] by blast
  have lt: "a < nth_page a (Suc n)"
    using unat_nth_page [of a "Suc n"] Suc.prems(3) mx by (simp add: word_less_nat_alt)
  have 1: "uvmunmap_loop pt a (nth_page a (Suc n)) df s = Ret () t"
    using lt lf u(1-4) t(1) by (subst uvmunmap_loop.simps) (simp add: leaf_def valid_def p_def nth_page_Suc cong: if_cong)
  have fs: "freed s pt a (Suc n) df = (if df then insert p (freed ?u pt ?a n df) else {})"
    using p0 fn by (auto simp: freed_def lessThan_Suc_eq_insert_0 image_iff) 
  have As: "?A \<union> freed ?u pt ?a n df = A \<union> freed s pt a (Suc n) df" unfolding fs by (auto simp: freed_def)
  have vm: "vmap (mem t) pt va = (if \<exists>k<Suc n. same_vpage 2 va (nth_page a k) then 0 else vmap (mem s) pt va)" for va
  proof -
    have "vmap (mem t) pt va = (if \<exists>k<n. same_vpage 2 va (nth_page ?a k) then 0 else vmap (mem ?u) pt va)"
      using t(2) unfolding unmapped_def by blast
    then show ?thesis using u(8) [of va] unfolding less_Suc_ex nth_page_Suc by auto
  qed
  have kp: "same_page_bytes (mem s) (mem t) q"
    if "page_ok (kend s) q" "q \<notin> ptree 2 (mem s) pt" "q \<notin> freed s pt a (Suc n) df" for q
  proof -
    have "df \<Longrightarrow> q \<noteq> p" using that(3) unfolding fs by auto
    then have "same_page_bytes (mem s) (mem ?u) q" using u(9) [OF that(1,2)] by simp
    moreover have "same_page_bytes (mem ?u) (mem t) q"
    proof -
      have "q \<notin> freed ?u pt ?a n df" using that(3) unfolding fs by (auto simp: freed_def split: if_splits)
      then show ?thesis using t(2) that(1,2) u(6,7) unfolding unmapped_def by simp
    qed
    ultimately show ?thesis by (simp add: same_page_bytes_def)
  qed
  have "unmapped s pt A a (Suc n) df t"
  proof -
    have "pt_ready t pt (A \<union> freed s pt a (Suc n) df)" "kend t = kend s" "ptree 2 (mem t) pt = ptree 2 (mem s) pt"
      using t(2) u(6,7) unfolding unmapped_def As by simp_all
    then show ?thesis using vm kp unfolding unmapped_def by blast
  qed

  then show ?case using 1 by blast
qed

section \<open>Freeing the page table\<close>

text \<open>
  A table whose leaf entries are all gone, the situation in which \<open>freewalk\<close> is called.
\<close>

fun empty_pt :: "nat \<Rightarrow> mem \<Rightarrow> uint64 \<Rightarrow> bool" where
  "empty_pt 0 m pt \<longleftrightarrow> (\<forall>i<512. \<not> valid (entry m pt i))"
| "empty_pt (Suc l) m pt \<longleftrightarrow>
     (\<forall>i<512. valid (entry m pt i) \<longrightarrow> empty_pt l m (PTE2PA (entry m pt i)))"

lemma empty_pt_cong:
  assumes "\<And>p. p \<in> ptree l m pt \<Longrightarrow> same_page_bytes m m' p"
  shows "empty_pt l m' pt = empty_pt l m pt"
  using assms
proof (induction l arbitrary: pt)
  case 0
  then show ?case using entry_cong [of _ m m' pt] by simp
next
  case (Suc l)
  have e: "entry m' pt i = entry m pt i" if "i < 512" for i using Suc.prems entry_cong [OF that, of m m' pt] by simp
  have "empty_pt l m' (PTE2PA (entry m pt i)) = empty_pt l m (PTE2PA (entry m pt i))"
    if "i < 512" "valid (entry m pt i)" for i
    using that by (intro Suc.IH Suc.prems) auto
  then show ?case using e by auto
qed

lemma for_each_id: "(\<And>i. i \<in> set is \<Longrightarrow> body i s = Ret () s) \<Longrightarrow> for_each is body s = Ret () s"
  by (induction "is") auto

text \<open>The loop invariant: the subtrees of the first \<open>k\<close> entries have gone to the pool.\<close>

definition swept :: "nat \<Rightarrow> 'z kstate_scheme \<Rightarrow> uint64 \<Rightarrow> uint64 set \<Rightarrow> nat \<Rightarrow> 'z kstate_scheme \<Rightarrow> bool" where
  "swept l s pt A k t \<longleftrightarrow>
     (let C = (\<Union>i \<in> {i. i < k \<and> valid (entry (mem s) pt i)}. ptree l (mem s) (PTE2PA (entry (mem s) pt i))) in
      kpool t (A \<union> C) \<and> kend t = kend s \<and>
      (\<forall>j. k \<le> j \<longrightarrow> j < 512 \<longrightarrow> entry (mem t) pt j = entry (mem s) pt j) \<and>
      (\<forall>q. page_ok (kend s) q \<longrightarrow> q \<noteq> pt \<longrightarrow> q \<notin> C \<longrightarrow> same_page_bytes (mem s) (mem t) q))"

lemma freewalk_ok:
  assumes "kpool s A" "wf_pt l (kend s) (mem s) pt" "ptree l (mem s) pt \<inter> A = {}" "empty_pt l (mem s) pt"
  shows "\<exists>t. freewalk (Suc l) pt s = Ret () t \<and> kpool t (A \<union> ptree l (mem s) pt) \<and> kend t = kend s \<and>
    (\<forall>q. page_ok (kend s) q \<longrightarrow> q \<notin> ptree l (mem s) pt \<longrightarrow> same_page_bytes (mem s) (mem t) q)"
  using assms
proof (induction l arbitrary: s A pt)
  case 0
  have "\<not> valid (load64 (mem s) (pt + 8 * of_nat i))" if "i < 512" for i
    using "0.prems"(4) that by (simp add: entry_def)
  then have "freewalk (Suc 0) pt s = kfree pt s"
    unfolding freewalk.simps(2) by (subst for_each_id) (simp_all add: Let_def valid_def del: freewalk.simps)
  then show ?case using kfree_pages [OF "0.prems"(1), of pt] "0.prems"(2,3) by (auto simp: insert_commute)
next
  case (Suc l)
  let ?e = "entry (mem s) pt" and ?m = "mem s"
  let ?T = "\<lambda>i. ptree l ?m (PTE2PA (?e i))"
  let ?C = "\<lambda>k. \<Union>i \<in> {i. i < k \<and> valid (?e i)}. ?T i"
  have ptok: "page_ok (kend s) pt" using Suc.prems(2) by simp
  have kid: "wf_pt l (kend s) ?m (PTE2PA (?e i))" "pt \<notin> ?T i" "pointer (?e i)" "empty_pt l ?m (PTE2PA (?e i))" "?T i \<inter> A = {}"
    if "i < 512" "valid (?e i)" for i
    using Suc.prems that by auto
  have ptA: "pt \<notin> A \<union> ?C k" if "k \<le> 512" for k using Suc.prems(3) kid(2) that by fastforce
  have dis: "?T i \<inter> ?T j = {}" if "i < 512" "j < 512" "i \<noteq> j" "valid (?e i)" "valid (?e j)" for i j
    using Suc.prems(2) that by auto
  let ?body = "\<lambda>i s. let a = pt + 8 * of_nat i; pte = load64 (mem s) a in
       if pte AND PTE_V \<noteq> 0 \<and> pte AND (PTE_R OR PTE_W OR PTE_X) = 0 then
         bnd (freewalk (Suc l) (PTE2PA pte) s) (\<lambda>_ s. Ret () (s\<lparr>mem := store64 a 0 (mem s)\<rparr>))
       else if pte AND PTE_V \<noteq> 0 then Panic ''freewalk: leaf''
       else Ret () s"
  have step: "returns (?body k t) (\<lambda>_ t'. swept l s pt A (Suc k) t')" if k: "k < 512" and sw: "swept l s pt A k t" for k t
  proof (cases "valid (?e k)")
    case False
    then have "{i. i < Suc k \<and> valid (?e i)} = {i. i < k \<and> valid (?e i)}" using less_Suc_eq by auto
    moreover have "\<not> valid (load64 (mem t) (pt + 8 * of_nat k))"
      using sw False k by (simp add: swept_def Let_def entry_def)
    ultimately show ?thesis using sw by (simp add: swept_def Let_def valid_def)
  next
    case True
    let ?c = "PTE2PA (?e k)" and ?a = "pt + 8 * of_nat k :: uint64"
    note kk = kid [OF k True]
    have C': "?C (Suc k) = ?C k \<union> ?T k" using True less_Suc_eq by auto
    have "?T k \<inter> ?T i = {}" if "i < k" "valid (?e i)" for i using dis [of k i] k True that by simp
    then have apart: "?T k \<inter> ?C k = {}" by blast
    have same: "same_page_bytes ?m (mem t) q" if "q \<in> ?T k" for q
      using sw wf_pt_pages [OF kk(1) that] kk(2) that apart unfolding swept_def Let_def by blast
    have cg: "ptree l (mem t) ?c = ?T k" "wf_pt l (kend s) (mem t) ?c = wf_pt l (kend s) ?m ?c"
      "empty_pt l (mem t) ?c = empty_pt l ?m ?c"
      by (rule ptree_cong empty_pt_cong, rule same, assumption)+
    have kend: "kend t = kend s" using sw by (simp add: swept_def Let_def)
    have pre: "kpool t (A \<union> ?C k)" "wf_pt l (kend t) (mem t) ?c" "ptree l (mem t) ?c \<inter> (A \<union> ?C k) = {}" "empty_pt l (mem t) ?c"
      using sw kk(1,4,5) cg apart kend by (auto simp: swept_def Let_def)
    obtain u where u: "freewalk (Suc l) ?c t = Ret () u" "kpool u (A \<union> ?C k \<union> ?T k)" "kend u = kend s"
      "\<And>q. page_ok (kend s) q \<Longrightarrow> q \<notin> ?T k \<Longrightarrow> same_page_bytes (mem t) (mem u) q"
      using Suc.IH [OF pre] unfolding cg kend by blast
    have ek: "load64 (mem t) ?a = ?e k" using sw k by (simp add: swept_def Let_def entry_def)
    have body: "?body k t = Ret () (u\<lparr>mem := store64 ?a 0 (mem u)\<rparr>)"
      using True kk(3) u(1) unfolding Let_def ek by (simp add: valid_def pointer_def)
    have Apages: "page_ok (kend s) q" if "q \<in> A \<union> ?C k \<union> ?T k" for q
      using kmem.pool_valid [OF u(2) that] u(3) by (simp add: kvalid_def)
    have ptn: "pt \<notin> A \<union> ?C k \<union> ?T k" using ptA [of k] k kk(2) by auto
    have st: "same_page_bytes (mem u) (store64 ?a 0 (mem u)) q" if "page_ok (kend s) q" "q \<noteq> pt" for q
      using same_page_sym [OF same_page_store [OF ptok that(1) that(2)[symmetric] k]] .
    have "kpool (u\<lparr>mem := store64 ?a 0 (mem u)\<rparr>) (A \<union> ?C (Suc k))"
      unfolding C' Un_assoc [symmetric]
      by (rule kpool_mem [OF u(2)]) (use st Apages ptn in blast)
    moreover have "entry (store64 ?a 0 (mem u)) pt j = ?e j" if "Suc k \<le> j" "j < 512" for j
    proof -
      have "entry (mem u) pt j = entry (mem t) pt j" using entry_cong [OF that(2) u(4) [OF ptok kk(2)]] by simp
      then show ?thesis using sw that entry_store [OF k that(2), of pt 0 "mem u"] by (simp add: swept_def Let_def)
    qed
    moreover have "same_page_bytes ?m (store64 ?a 0 (mem u)) q" if "page_ok (kend s) q" "q \<noteq> pt" "q \<notin> ?C (Suc k)" for q
    proof -
      have "same_page_bytes ?m (mem t) q" "same_page_bytes (mem t) (mem u) q"
        using sw u(4) that unfolding C' swept_def Let_def by blast+
      then show ?thesis using st [OF that(1,2)] by (simp add: same_page_bytes_def)
    qed
    ultimately show ?thesis unfolding body using u(3) by (simp add: swept_def Let_def)
  qed
  have init: "swept l s pt A 0 s" using Suc.prems(1) by (simp add: swept_def Let_def same_page_bytes_def)
  have "returns (for_each [0..<512] ?body s) (\<lambda>_ t. swept l s pt A 512 t)"
    by (rule for_each_upt [where I = "swept l s pt A"]) (use step init in auto)
  then obtain t where t: "for_each [0..<512] ?body s = Ret () t" "swept l s pt A 512 t"
    by (auto simp: returns_iff)
  have kp: "kpool t (A \<union> ?C 512)" "kend t = kend s" using t(2) by (simp_all add: swept_def Let_def)
  obtain v where v: "kfree pt t = Ret () v" "kpool v (insert pt (A \<union> ?C 512))" "kend v = kend s"
    "\<And>q. page_ok (kend s) q \<Longrightarrow> q \<noteq> pt \<Longrightarrow> same_page_bytes (mem t) (mem v) q"
    using kfree_pages [OF kp(1), of pt] ptok ptA [of 512] kp(2) by auto
  have T: "ptree (Suc l) ?m pt = insert pt (?C 512)" by simp
  have "same_page_bytes ?m (mem v) q" if "page_ok (kend s) q" "q \<notin> ptree (Suc l) ?m pt" for q
  proof -
    have "same_page_bytes ?m (mem t) q" using t(2) that unfolding T swept_def Let_def by blast
    then show ?thesis using v(4) [OF that(1)] that unfolding T by (auto simp: same_page_bytes_def)
  qed
  moreover have "freewalk (Suc (Suc l)) pt s = Ret () v" using t(1) v(1) by simp
  ultimately show ?case using v(2,3) unfolding T by auto
qed

lemma lookup_same_vpage: "same_vpage l va va' \<Longrightarrow> lookup l m pt va = lookup l m pt va'"
  by (induction l arbitrary: pt) (auto simp: same_vpage_def pte_addr_def Let_def)

lemma index_bits:
  assumes "i < 512" "9 \<le> k"
  shows "\<not> bit (of_nat i :: uint64) k"
proof -
  have "i < 2 ^ k" using assms(1) power_increasing [OF assms(2), of "2::nat"] by simp
  then have "\<not> bit (unat (of_nat i :: uint64)) k" using assms(1) by (simp add: bit_iff_odd unat_of_nat_small)
  then show ?thesis by (auto simp: bit_unsigned_iff dest: bit_imp_le_length)
qed

lemma set_PX:
  assumes "i < 512" "Suc l \<le> 2"
  obtains va' where "unat (PX (Suc l) va') = i" "same_vpage l va' va"
proof
  let ?n = "12 + 9 * Suc l" and ?i = "of_nat i :: uint64"
  let ?va = "(va AND mask ?n) OR push_bit ?n ?i"
  have ui: "unat ?i = i" using assms(1) by (simp add: unat_of_nat_small)
  note hi = index_bits [OF assms(1)]
  have "PX (Suc l) ?va = ?i"
  proof (rule bit_word_eqI)
    fix k assume "k < LENGTH(64)"
    then show "bit (PX (Suc l) ?va) k = bit ?i k"
      using hi [of k] assms(2)
      by (cases "9 \<le> k") (auto simp: bit_PX bit_or_iff bit_and_iff bit_mask_iff bit_push_bit_iff)
  qed
  then show "unat (PX (Suc l) ?va) = i" using ui by simp
  show "same_vpage l ?va va" unfolding same_vpage_def
  proof (intro allI impI bit_word_eqI)
    fix k n assume "k \<le> l" "n < LENGTH(64)"
    have "12 + 9 * k + n < ?n" if "n < 9" using \<open>k \<le> l\<close> that by simp
    then show "bit (PX k ?va) n = bit (PX k va) n"
      by (auto simp: bit_PX bit_or_iff bit_and_iff bit_mask_iff bit_push_bit_iff dest: bit_imp_le_length)
  qed
qed

text \<open>A tree none of whose leaf entries is valid.\<close>

lemma empty_ptI:
  assumes "\<And>va a. lookup l m pt va = Some a \<Longrightarrow> \<not> valid (load64 m a)" "l \<le> 2"
  shows "empty_pt l m pt"
  using assms
proof (induction l arbitrary: pt)
  case 0
  have "\<not> valid (entry m pt i)" if "i < 512" for i
  proof -
    have u: "unat (of_nat i :: uint64) = i" using that by (simp add: unat_of_nat_small)
    have "(of_nat i :: uint64) AND 0x1FF = of_nat i"
    proof -
      have m: "(0x1FF :: uint64) = mask 9" by (simp add: mask_eq_exp_minus_1)
      show ?thesis unfolding m by (rule less_mask_eq) (use that u in \<open>simp add: word_less_nat_alt\<close>)
    qed
    moreover have "drop_bit 12 (push_bit 12 (of_nat i :: uint64)) = of_nat i"
    proof (rule bit_word_eqI)
      fix k assume "k < LENGTH(64)"
      then show "bit (drop_bit 12 (push_bit 12 (of_nat i :: uint64))) k = bit (of_nat i :: uint64) k"
        using index_bits [OF that, of k] by (cases "9 \<le> k") (auto simp: bit_drop_bit_eq bit_push_bit_iff)
    qed

    ultimately have "PX 0 (push_bit 12 (of_nat i)) = of_nat i" by (simp add: PX_def)
    then have "lookup 0 m pt (push_bit 12 (of_nat i)) = Some (pt + 8 * of_nat i)" by (simp add: pte_addr_def)
    then show ?thesis unfolding entry_def by (rule "0.prems"(1))
  qed
  then show ?case by simp
next
  case (Suc l)
  have "empty_pt l m (PTE2PA (entry m pt i))" if i: "i < 512" "valid (entry m pt i)" for i
  proof (rule Suc.IH)
    fix va a assume a: "lookup l m (PTE2PA (entry m pt i)) va = Some a"
    obtain va' where va': "unat (PX (Suc l) va') = i" "same_vpage l va' va"
      using set_PX [OF i(1) Suc.prems(2)] by blast
    have "lookup (Suc l) m pt va' = Some a"
      using va' i a lookup_same_vpage [OF va'(2)] by (simp add: Let_def)
    then show "\<not> valid (load64 m a)" by (rule Suc.prems(1))
  qed (use Suc.prems(2) in simp)
  then show ?case by simp
qed

lemma uvmfree_ok:
  assumes "pt_ready s pt A" "unmappable s pt A 0 n True" "sz = 0 \<longrightarrow> n = 0" "PGROUNDUP sz = of_nat n * PGSIZE" "4096 * n \<le> unat MAXVA"
    and only: "\<And>va. valid (vmap (mem s) pt va) \<Longrightarrow> \<exists>k<n. same_vpage 2 va (nth_page 0 k)"
  shows "\<exists>t. uvmfree pt sz s = Ret () t \<and> kframe s t \<and> kend t = kend s \<and>
    kpool t (A \<union> ptree 2 (mem s) pt \<union> frame (mem s) pt 0 ` {..<n}) \<and>
    (\<forall>q. page_ok (kend s) q \<longrightarrow> q \<notin> ptree 2 (mem s) pt \<longrightarrow> q \<notin> frame (mem s) pt 0 ` {..<n} \<longrightarrow> same_page_bytes (mem s) (mem t) q)"
proof -
  have three: "(3 :: nat) = Suc 2" by simp
  have mx: "unat MAXVA = 274877906944" by (simp add: MAXVA_def)
  have un: "unat (of_nat n * PGSIZE)
 = 4096 * n" using unat_nth_page [of 0 n] assms(5) mx by (simp add: nth_page_def)
  have np: "PGROUNDUP sz div PGSIZE = of_nat n"
  proof -
    have "unat (PGROUNDUP sz div PGSIZE) = n" unfolding assms(4) by (simp add: unat_div un)
    moreover have "unat (of_nat n :: uint64) = n" using assms(5) mx by (simp add: unat_of_nat_small)
    ultimately show ?thesis by (metis word_unat_eq_iff)
  qed
  have "0 + of_nat n * PGSIZE = nth_page 0 n" by (simp add: nth_page_def)
  moreover obtain t where t: "uvmunmap_loop pt 0 (nth_page 0 n) True s = Ret () t" "unmapped s pt A 0 n True t"
    using uvmunmap_loop_ok [OF assms(1) _ _ assms(2)] assms(5) by auto
  ultimately have u: "(if sz > 0 then uvmunmap pt 0 (PGROUNDUP sz div PGSIZE) True s else Ret () s) = Ret () t"
    using assms(3) by (cases "sz = 0") (auto simp: word_neq_0_conv uvmunmap_def np uvmunmap_loop.simps [of pt 0 0])
  have F: "freed s pt 0 n True = frame (mem s) pt 0 ` {..<n}" by (simp add: freed_def)
  have tt: "kpool t (A \<union> freed s pt 0 n True)" "wf_pt 2 (kend t) (mem t) pt" "ptree 2 (mem t) pt = ptree 2 (mem s) pt"
    "ptree 2 (mem t) pt \<inter> (A \<union> freed s pt 0 n True) = {}" "kend t = kend s"
    using t(2) by (auto simp: unmapped_def pt_ready_def)
  have "empty_pt 2 (mem t) pt"
  proof (rule empty_ptI)
    fix va a assume "lookup 2 (mem t) pt va = Some a"
    then have "load64 (mem t) a = vmap (mem t) pt va" by (simp add: vmap_def)
    also have "\<dots> = (if \<exists>k<n. same_vpage 2 va (nth_page 0 k) then 0 else vmap (mem s) pt va)"
      using t(2) unfolding unmapped_def by blast
    finally show "\<not> valid (load64 (mem t) a)" using only [of va] flags_V(4) by (auto split: if_splits)
  qed simp
  then obtain v where v: "freewalk 3 pt t = Ret () v" "kpool v (A \<union> freed s pt 0 n True \<union> ptree 2 (mem t) pt)" "kend v = kend t"
    "\<forall>q. page_ok (kend t) q \<longrightarrow> q \<notin> ptree 2 (mem t) pt \<longrightarrow> same_page_bytes (mem t) (mem v) q"
    using freewalk_ok [OF tt(1,2,4)] unfolding three by blast
  have r: "uvmfree pt sz s = Ret () v" using u v(1) by (simp add: uvmfree_def)
  have "same_page_bytes (mem s) (mem v) q"
    if "page_ok (kend s) q" "q \<notin> ptree 2 (mem s) pt" "q \<notin> frame (mem s) pt 0 ` {..<n}" for q
  proof -
    have "same_page_bytes (mem s) (mem t) q" using t(2) that unfolding unmapped_def F by blast
    moreover have "same_page_bytes (mem t) (mem v) q" using v(4) that tt(3,5) by simp
    ultimately show ?thesis by (simp add: same_page_bytes_def)
  qed
  moreover have "kframe s v" using kframe_uvmfree [of pt sz s] r by simp
  moreover have "A \<union> freed s pt 0 n True \<union> ptree 2 (mem t) pt = A \<union> ptree 2 (mem s) pt \<union> frame (mem s) pt 0 ` {..<n}"
    unfolding F tt(3) by blast
  ultimately show ?thesis using r v(2,3) tt(5) by auto
qed

text \<open>
  C10: freeing an address space returns every page exactly once.  Let the first \<open>n\<close> pages be the
  only mapped ones, with frames that are pairwise different pages outside the page table and
  the free list.  Then \<open>uvmfree\<close> returns (it does not panic), and afterwards the free list
  consists of what it held before, the frames of all \<open>n\<close> pages, and every page of the page
  table: nothing leaks, and the bytes of no other page have changed.
\<close>

theorem uvmfree_returns_all:
  assumes "pt_ready s pt A" "unmappable s pt A 0 n True" "sz > 0" "PGROUNDUP sz = of_nat n * PGSIZE" "4096 * n \<le> unat MAXVA"
    and only: "\<And>va. valid (vmap (mem s) pt va) \<Longrightarrow> \<exists>k<n. same_vpage 2 va (nth_page 0 k)"
  shows "\<exists>t. uvmfree pt sz s = Ret () t \<and> kframe s t \<and> kend t = kend s \<and>
    kpool t (A \<union> ptree 2 (mem s) pt \<union> frame (mem s) pt 0 ` {..<n}) \<and>
    (\<forall>q. page_ok (kend s) q \<longrightarrow> q \<notin> ptree 2 (mem s) pt \<longrightarrow> q \<notin> frame (mem s) pt 0 ` {..<n} \<longrightarrow> same_page_bytes (mem s) (mem t) q)"
  by (rule uvmfree_ok) (use assms in auto)

section \<open>A concrete address space\<close>

text \<open>
  Three page-table pages and one user page, mapped at address 0 with the given flags.  The
  witnesses evaluate the specifications on it.
\<close>

definition one_page_mem :: mem where
  "one_page_mem =
     store64 0x80203000 (PA2PTE 0x80204000 OR (PTE_R OR PTE_W OR PTE_U) OR PTE_V)
       (store64 0x80202000 (PA2PTE 0x80203000 OR PTE_V)
         (store64 0x80201000 (PA2PTE 0x80202000 OR PTE_V) (\<lambda>_. 0)))"

definition one_page :: kstate where
  "one_page = kboot\<lparr>mem := one_page_mem\<rparr>"

lemma one_page_simps [simp]: "mem one_page = one_page_mem" "kend one_page = 0x80021d60"
  "cpu_ok one_page" "lock_free l one_page" "freelist one_page = 0"
  by (simp_all add: one_page_def kboot_ok)

lemma one_page_pages:
  "p \<in> {0x80201000, 0x80202000, 0x80203000, 0x80204000} \<Longrightarrow> page_ok 0x80021d60 p"
  by (auto simp: page_ok_def PGSIZE_def PHYSTOP_def KERNBASE_def)

lemma load64_zero: "load64 (\<lambda>_. 0) a = 0"
  using zero_table(3) [of 0 KERNBASE "\<lambda>_. 0" 0]
  by (simp add: load64_def eval_nat_numeral)

lemma one_page_entries:
  assumes "i < 512"
  shows "entry one_page_mem 0x80201000 i = (if i = 0 then PA2PTE 0x80202000 OR PTE_V else 0)"
    "entry one_page_mem 0x80202000 i = (if i = 0 then PA2PTE 0x80203000 OR PTE_V else 0)"
    "entry one_page_mem 0x80203000 i = (if i = 0 then PA2PTE 0x80204000 OR (PTE_R OR PTE_W OR PTE_U) OR PTE_V else 0)"
proof -
  have st: "entry (store64 p v m) q i = (if p = q then if i = 0 then v else entry m q i else entry m q i)"
    if "p \<in> {0x80201000, 0x80202000, 0x80203000}" "q \<in> {0x80201000, 0x80202000, 0x80203000}" for p q v m
  proof (cases "p = q")
    case True
    then show ?thesis using entry_store [of 0 i p v m] assms by auto
  next
    case False
    have "page_ok 0x80021d60 p" "page_ok 0x80021d60 q" using that by (auto intro!: one_page_pages)
    then have "same_page_bytes (store64 (p + 8 * of_nat 0) v m) m q"
      using False by (intro same_page_store) auto
    then show ?thesis using entry_cong [OF assms, of "store64 p v m" m q] False by simp
  qed
  have z: "entry (\<lambda>_. 0) q i = 0" for q by (simp add: entry_def load64_zero)
  show "entry one_page_mem 0x80201000 i = (if i = 0 then PA2PTE 0x80202000 OR PTE_V else 0)"
    "entry one_page_mem 0x80202000 i = (if i = 0 then PA2PTE 0x80203000 OR PTE_V else 0)"
    "entry one_page_mem 0x80203000 i = (if i = 0 then PA2PTE 0x80204000 OR (PTE_R OR PTE_W OR PTE_U) OR PTE_V else 0)"
    by (simp_all add: one_page_mem_def st z)
qed

lemma wf_single:
  assumes "page_ok e pt" "\<And>i. 0 < i \<Longrightarrow> i < 512 \<Longrightarrow> \<not> valid (entry m pt i)" "pointer (entry m pt 0)"
    "wf_pt l e m (PTE2PA (entry m pt 0))" "pt \<notin> ptree l m (PTE2PA (entry m pt 0))"
  shows "wf_pt (Suc l) e m pt"
proof -
  have z: "i = 0" if "i < 512" "valid (entry m pt i)" for i using assms(2) that by (cases "i = 0") auto
  show ?thesis unfolding wf_pt.simps using assms(1,3-5) by (blast dest: z)
qed

lemma one_page_tree:
  "ptree 2 one_page_mem 0x80201000 = {0x80201000, 0x80202000, 0x80203000}"
  "wf_pt 2 0x80021d60 one_page_mem 0x80201000"
  "lookup 2 one_page_mem 0x80201000 va =
     (if PX 2 va = 0 \<and> PX 1 va = 0 then Some (0x80203000 + 8 * PX 0 va) else None)"
proof -
  have pa: "PTE2PA (PA2PTE 0x80202000 OR PTE_V) = 0x80202000" "PTE2PA (PA2PTE 0x80203000 OR PTE_V) = 0x80203000"
    by (rule PTE2PA_V [of "0x80021d60"], rule one_page_pages, simp)+
  note e = one_page_entries
  have iv: "{i. i < 512 \<and> valid (entry one_page_mem p i)} = {0}"
    if "p = 0x80201000 \<or> p = 0x80202000" for p
    using that e(1,2) flags_V(2,4) by (auto split: if_splits)
  have t1: "ptree 1 one_page_mem 0x80202000 = {0x80202000, 0x80203000}"
    using iv [of "0x80202000"] e(2) [of 0] pa by simp
  then show tr: "ptree 2 one_page_mem 0x80201000 = {0x80201000, 0x80202000, 0x80203000}"
    using iv [of "0x80201000"] e(1) [of 0] pa by (simp add: numeral_2_eq_2)
  have only: "\<not> valid (entry one_page_mem p i)" if "0 < i" "i < 512" "p = 0x80201000 \<or> p = 0x80202000" for i p
    using that e(1,2) flags_V(4) by auto
  have pages: "page_ok 0x80021d60 p" if "p \<in> {0x80201000, 0x80202000, 0x80203000}" for p
    using that one_page_pages by blast
  have w1: "wf_pt 1 0x80021d60 one_page_mem 0x80202000" unfolding One_nat_def
    by (rule wf_single) (use e(2) [of 0] pa(2) pages pointer_V [of "0x80203000"] only in simp_all)
  show "wf_pt 2 0x80021d60 one_page_mem 0x80201000" unfolding numeral_2_eq_2
    by (rule wf_single) (use e(1) [of 0] pa(1) pages pointer_V [of "0x80202000"] only w1 t1 in simp_all)

  have e': "entry one_page_mem 0x80201000 (unat (PX (Suc (Suc 0)) va)) = (if PX (Suc (Suc 0)) va = 0 then PA2PTE 0x80202000 OR PTE_V else 0)"
    "entry one_page_mem 0x80202000 (unat (PX (Suc 0) va)) = (if PX (Suc 0) va = 0 then PA2PTE 0x80203000 OR PTE_V else 0)"
    using e(1,2) [OF PX_bound] by (simp_all add: unat_eq_0)
  show "lookup 2 one_page_mem 0x80201000 va =
     (if PX 2 va = 0 \<and> PX 1 va = 0 then Some (0x80203000 + 8 * PX 0 va) else None)"
    unfolding numeral_2_eq_2 One_nat_def lookup.simps Let_def e' using flags_V(2,4) pa e'(2) e(2) [of 0]
    by (simp add: pte_addr_def)
qed

lemma one_page_vmap: "vmap one_page_mem 0x80201000 va =
    (if same_vpage 2 va 0 then PA2PTE 0x80204000 OR (PTE_R OR PTE_W OR PTE_U) OR PTE_V else 0)"
proof (cases "PX 2 va = 0 \<and> PX 1 va = 0")
  case True
  have "load64 one_page_mem (0x80203000 + 8 * PX 0 va) = entry one_page_mem 0x80203000 (unat (PX 0 va))"
    by (simp add: entry_def)
  moreover have "same_vpage 2 va 0 \<longleftrightarrow> PX 0 va = 0"
  proof -
    have "(\<forall>k\<le>2. P k) \<longleftrightarrow> P 0 \<and> P 1 \<and> P (2 :: nat)" for P by (auto simp: numeral_2_eq_2 le_Suc_eq)
    moreover have "PX k 0 = 0" for k by (simp add: PX_def)
    ultimately show ?thesis using True unfolding same_vpage_def by auto
  qed
  ultimately show ?thesis
    using one_page_entries(3) [OF PX_bound, of 0 va] one_page_entries(3) [of 0] True
    by (auto simp: vmap_def one_page_tree(3) entry_def unat_eq_0)
next
  case False
  moreover have "PX k 0 = 0" for k by (simp add: PX_def)
  ultimately have "\<not> same_vpage 2 va 0"
    unfolding same_vpage_def by (metis le_refl one_le_numeral)
  then show ?thesis using False by (auto simp: vmap_def one_page_tree(3))
qed

lemma one_page_ready: "pt_ready one_page 0x80201000 {}"
  using one_page_tree by (simp add: pt_ready_def kpool_def kmem_inv_def)

theorem uvmfree_returns_all_witness:
  "\<exists>t. uvmfree 0x80201000 1 one_page = Ret () t \<and> kframe one_page t \<and> kend t = kend one_page \<and>
    kpool t ({} \<union> ptree 2 (mem one_page) 0x80201000 \<union> frame (mem one_page) 0x80201000 0 ` {..<1}) \<and>
    (\<forall>q. page_ok (kend one_page) q \<longrightarrow> q \<notin> ptree 2 (mem one_page) 0x80201000 \<longrightarrow>
      q \<notin> frame (mem one_page) 0x80201000 0 ` {..<1} \<longrightarrow> same_page_bytes (mem one_page) (mem t) q)"
proof (rule uvmfree_returns_all)
  show "pt_ready one_page 0x80201000 {}" by (rule one_page_ready)
  have v0: "vmap one_page_mem 0x80201000 0 = PA2PTE 0x80204000 OR (PTE_R OR PTE_W OR PTE_U) OR PTE_V"
    by (simp add: one_page_vmap same_vpage_def)
  have "leaf (vmap one_page_mem 0x80201000 0)"
    unfolding v0 by (simp add: leaf_def valid_def PTE_FLAGS_def PA2PTE_def PTE_V_def PTE_R_def PTE_W_def PTE_U_def)
  moreover have "PTE2PA (vmap one_page_mem 0x80201000 0) = 0x80204000"
    unfolding v0 by (simp add: PTE2PA_def PA2PTE_def PTE_V_def PTE_R_def PTE_W_def PTE_U_def)
  ultimately show "unmappable one_page 0x80201000 {} 0 1 True"
    by (simp add: unmappable_def frame_def one_page_tree one_page_pages lessThan_Suc)
  show "\<exists>k<1. same_vpage 2 va (nth_page 0 k)" if "valid (vmap (mem one_page) 0x80201000 va)" for va
    using that flags_V(4) by (auto simp: one_page_vmap split: if_splits)
qed (simp_all add: PGROUNDUP_def PGSIZE_def MAXVA_def)

end
