(* ===== verification/Vmcopy.thy ===== *)
theory Vmcopy
  imports Vmunmap
begin

text \<open>
  Copying between user and kernel memory, \<^verbatim>\<open>copyin\<close> and \<^verbatim>\<open>copyout\<close> of
  \<^verbatim>\<open>kernel/vm.c\<close>.  The kernel also copies to and from its own objects (buffers, process
  fields, local variables), which this development keeps as typed values; \<open>copyout_obj\<close> and
  \<open>copyin_obj\<close> are the same loops with the kernel side given as a list of bytes.
\<close>

section \<open>The same loops for kernel objects\<close>

definition write_bytes :: "uint64 \<Rightarrow> byte list \<Rightarrow> mem \<Rightarrow> mem" where
  "write_bytes a bs m = (\<lambda>x. if in_range x a (length bs) then bs ! unat (x - a) else m x)"

text \<open>The length of the piece up to the end of the page.\<close>

definition piece :: "uint64 \<Rightarrow> nat \<Rightarrow> nat" where
  "piece va n = min (4096 - unat (va - PGROUNDDOWN va)) n"

lemma piece_pos: "0 < n \<Longrightarrow> 0 < piece va n"
  unfolding piece_def page_offset by simp

function copyout_obj :: "uint64 \<Rightarrow> uint64 \<Rightarrow> byte list \<Rightarrow> 'z kstate_scheme \<Rightarrow> ('z kstate_scheme, int) outcome" where
  "copyout_obj pagetable dstva bs s =
     (if bs = [] then Ret 0 s
      else
        let va0 = PGROUNDDOWN dstva in
        bnd (walkaddr pagetable va0 s) (\<lambda>pa0 s.
          if pa0 = 0 then Ret (-1) s
          else
            let n = piece dstva (length bs);
                s = s\<lparr>mem := write_bytes (pa0 + (dstva - va0)) (take n bs) (mem s)\<rparr> in
            copyout_obj pagetable (va0 + PGSIZE) (drop n bs) s))"
  by pat_completeness auto
termination
  by (relation "measure (\<lambda>(pt, va, bs, _). length bs)") (auto intro!: diff_less piece_pos)

declare copyout_obj.simps [simp del]

text \<open>The result code and the bytes that arrived (a prefix, if the copy failed).\<close>

function copyin_obj :: "uint64 \<Rightarrow> uint64 \<Rightarrow> nat \<Rightarrow> 'z kstate_scheme \<Rightarrow> ('z kstate_scheme, int \<times> byte list) outcome" where
  "copyin_obj pagetable srcva len s =
     (if len = 0 then Ret (0, []) s
      else
        let va0 = PGROUNDDOWN srcva in
        bnd (walkaddr pagetable va0 s) (\<lambda>pa0 s.
          if pa0 = 0 then Ret (-1, []) s
          else
            let n = piece srcva len; bs = bytes (mem s) (pa0 + (srcva - va0)) n in
            bnd (copyin_obj pagetable (va0 + PGSIZE) (len - n) s) (\<lambda>(r, rest) s. Ret (r, bs @ rest) s)))"
  by pat_completeness auto
termination
  by (relation "measure (\<lambda>(pt, va, n, _). n)") (auto intro!: diff_less piece_pos)

declare copyin_obj.simps [simp del]

section \<open>User addresses\<close>

text \<open>The frame behind a user-accessible page, 0 if there is none.\<close>

definition uaddr :: "mem \<Rightarrow> uint64 \<Rightarrow> uint64 \<Rightarrow> uint64" where
  "uaddr m pt va = (if va \<ge> MAXVA then 0 else
     let e = vmap m pt va in if valid e \<and> e AND PTE_U \<noteq> 0 then PTE2PA e else 0)"

text \<open>The byte a user program sees at a virtual address.\<close>

definition ubyte :: "mem \<Rightarrow> uint64 \<Rightarrow> uint64 \<Rightarrow> byte" where
  "ubyte m pt va = m (uaddr m pt (PGROUNDDOWN va) + (va - PGROUNDDOWN va))"

lemma walkaddr_eq:
  assumes "wf_pt 2 e (mem s) pt"
  shows "walkaddr pt va s = Ret (uaddr (mem s) pt va) s"
proof (cases "va < MAXVA")
  case True
  show ?thesis
  proof (cases "lookup 2 (mem s) pt va")
    case None
    then show ?thesis using True flags_V(4) by (simp add: walkaddr_def walk_lookup uaddr_def vmap_def not_le)
  next
    case (Some a)
    then have "a \<noteq> 0" using lookup_nonzero [OF assms] by blast
    then show ?thesis using True Some
      by (auto simp: walkaddr_def walk_lookup uaddr_def vmap_def valid_def Let_def not_le)
  qed
qed (simp add: walkaddr_def uaddr_def not_less)

text \<open>
  An address space as \<open>fork\<close>, \<open>exec\<close> and \<open>sbrk\<close> build it: user pages are pages of memory
  outside the page table, and no page is mapped twice.
\<close>

definition uspace :: "uint64 \<Rightarrow> mem \<Rightarrow> uint64 \<Rightarrow> bool" where
  "uspace e m pt \<longleftrightarrow> wf_pt 2 e m pt \<and>
     (\<forall>va. uaddr m pt va \<noteq> 0 \<longrightarrow> page_ok e (uaddr m pt va) \<and> uaddr m pt va \<notin> ptree 2 m pt) \<and>
     (\<forall>va va'. uaddr m pt va \<noteq> 0 \<longrightarrow> uaddr m pt va' = uaddr m pt va \<longrightarrow> PGROUNDDOWN va = PGROUNDDOWN va')"

lemma offset_less: "unat (va - PGROUNDDOWN va) < 4096"
  unfolding page_offset by simp

lemma PGROUNDDOWN_idem [simp]: "PGROUNDDOWN (PGROUNDDOWN va) = PGROUNDDOWN va"
  by (rule PGROUNDDOWN_page) (simp add: page_mod unat_PGROUNDDOWN)

text \<open>Writing inside a user page changes the bytes seen there, and nothing else.\<close>

lemma write_user_page:
  assumes us: "uspace e m pt" and p: "p = uaddr m pt (PGROUNDDOWN va)" "p \<noteq> 0"
    and off: "unat (va - PGROUNDDOWN va) + length bs \<le> 4096"
  defines "m' \<equiv> write_bytes (p + (va - PGROUNDDOWN va)) bs m"
  shows "uspace e m' pt" "\<And>x. uaddr m' pt x = uaddr m pt x"
    "\<And>x. uaddr m pt (PGROUNDDOWN x) \<noteq> 0 \<Longrightarrow> ubyte m' pt x = (if PGROUNDDOWN x = PGROUNDDOWN va \<and> in_range x va (length bs) then bs ! unat (x - va) else ubyte m pt x)"
    "\<And>x. \<not> in_range x p 4096 \<Longrightarrow> m' x = m x"
proof -
  let ?o = "va - PGROUNDDOWN va"
  have pg: "page_ok e p" "p \<notin> ptree 2 m pt" using us p unfolding uspace_def by blast+
  have wf: "wf_pt 2 e m pt" using us by (simp add: uspace_def)
  have inp: "in_range x p 4096" if "in_range x (p + ?o) (length bs)" for x
  proof -
    have "unat (x - p - ?o) < length bs" using that by (simp add: in_range_def algebra_simps)
    moreover have "unat (x - p) \<le> unat (x - p - ?o) + unat ?o"
      using unat_plus_simple [of "x - p - ?o" ?o] by (metis diff_add_cancel unat_word_ariths(1) mod_less_eq_dividend)
    ultimately show ?thesis using off by (simp add: in_range_def)
  qed
  show out: "m' x = m x" if "\<not> in_range x p 4096" for x
    using inp that by (auto simp: m'_def write_bytes_def)
  have same: "same_page_bytes m m' q" if "page_ok e q" "q \<noteq> p" for q
  proof -
    have "disjoint_ranges q 4096 p 4096" using pages_disjoint [OF that(1) pg(1) that(2)] by simp
    then show ?thesis using out by (auto simp: same_page_bytes_def disjoint_ranges_def)
  qed
  have keep: "same_page_bytes m m' q" if "q \<in> ptree 2 m pt" for q
    using same wf_pt_pages [OF wf that] that pg(2) by blast
  have tr: "ptree 2 m' pt = ptree 2 m pt" "wf_pt 2 e m' pt = wf_pt 2 e m pt" "\<And>x. lookup 2 m' pt x = lookup 2 m pt x"
    using ptree_cong [of 2 m pt m'] keep by blast+
  have vm: "vmap m' pt x = vmap m pt x" for x
  proof (cases "lookup 2 m pt x")
    case (Some a)
    then obtain q i where q: "q \<in> ptree 2 m pt" "i < 512" "a = q + 8 * of_nat i" by (rule lookup_in_tree)
    then have "load64 m' a = load64 m a" using load64_same_page keep by metis
    then show ?thesis using Some tr(3) by (simp add: vmap_def)
  qed (simp add: vmap_def tr(3))
  then show ua: "uaddr m' pt x = uaddr m pt x" for x by (simp add: uaddr_def)
  show "uspace e m' pt" using us unfolding uspace_def ua tr .
  show "ubyte m' pt x = (if PGROUNDDOWN x = PGROUNDDOWN va \<and> in_range x va (length bs) then bs ! unat (x - va) else ubyte m pt x)"
    if nz: "uaddr m pt (PGROUNDDOWN x) \<noteq> 0" for x
  proof (cases "PGROUNDDOWN x = PGROUNDDOWN va")
    case True
    have "uaddr m pt (PGROUNDDOWN va) + (x - PGROUNDDOWN va) - (p + ?o) = x - va" using p(1) by simp
    then have "in_range (uaddr m pt (PGROUNDDOWN va) + (x - PGROUNDDOWN va)) (p + ?o) (length bs) \<longleftrightarrow> in_range x va (length bs)"
      by (simp add: in_range_def)
    moreover have "ubyte m' pt x = m' (p + (x - PGROUNDDOWN va))" using True p(1) by (simp add: ubyte_def ua)
    ultimately show ?thesis using True p(1) by (simp add: ubyte_def m'_def write_bytes_def)
  next
    case False
    let ?q = "uaddr m pt (PGROUNDDOWN x)"
    have "page_ok e ?q" using us nz unfolding uspace_def by blast
    moreover have "?q \<noteq> p" using us nz False p unfolding uspace_def by (metis PGROUNDDOWN_idem)
    ultimately have "disjoint_ranges ?q 4096 p 4096" using pages_disjoint [OF _ pg(1)] by simp
    moreover have "in_range (?q + (x - PGROUNDDOWN x)) ?q 4096" using offset_less by (simp add: in_range_def)
    ultimately have "\<not> in_range (?q + (x - PGROUNDDOWN x)) p 4096" by (auto simp: disjoint_ranges_def)
    then show ?thesis using False out by (simp add: ubyte_def ua)
  qed
qed

section \<open>What the copies do\<close>

lemma same_page:
  assumes "unat (va - PGROUNDDOWN va) + k < 4096"
  shows "PGROUNDDOWN (va + of_nat k) = PGROUNDDOWN va"
proof -
  obtain q r where va: "unat va = 4096 * q + r" "r < 4096"
    by (metis mod_less_divisor mult_div_mod_eq zero_less_numeral)
  have r: "r + k < 4096" using assms va unfolding page_offset by simp
  have "4096 * q + r < 18446744073709551616" using va(1) unat_lt [of va] by simp
  then have "q < 4503599627370496" by linarith
  then have "4096 * q + r + k < 18446744073709551616" using r by linarith
  then have "unat (va + of_nat k) = 4096 * q + (r + k)" using va(1) unat_add_small [of va k] by simp
  moreover have "(4096 * q + (r + k)) div 4096 = q" "(4096 * q + r) div 4096 = q" using r va(2) by simp_all
  ultimately show ?thesis using va(1) by (simp add: word_unat_eq_iff unat_PGROUNDDOWN)
qed

lemma next_page:
  assumes "piece va n < n"
  shows "PGROUNDDOWN va + PGSIZE = va + of_nat (piece va n)"
proof -
  have p: "piece va n = 4096 - unat (va - PGROUNDDOWN va)" using assms by (simp add: piece_def min_def split: if_splits)
  have "of_nat (4096 - unat (va - PGROUNDDOWN va)) = 4096 - (va - PGROUNDDOWN va)"
    using offset_less [of va] by (subst of_nat_diff) simp_all
  then show ?thesis unfolding p by (simp add: PGSIZE_def)
qed

definition uaccess :: "mem \<Rightarrow> uint64 \<Rightarrow> uint64 \<Rightarrow> nat \<Rightarrow> bool" where
  "uaccess m pt va n \<longleftrightarrow> (\<forall>k<n. uaddr m pt (PGROUNDDOWN (va + of_nat k)) \<noteq> 0)"

text \<open>The bytes of a stretch of user memory.\<close>

definition ubytes :: "mem \<Rightarrow> uint64 \<Rightarrow> uint64 \<Rightarrow> nat \<Rightarrow> byte list" where
  "ubytes m pt va n = map (\<lambda>k. ubyte m pt (va + of_nat k)) [0..<n]"

lemma piece_facts:
  assumes "0 < n"
  shows "0 < piece va n" "piece va n \<le> n" "unat (va - PGROUNDDOWN va) + piece va n \<le> 4096"
    "k < piece va n \<Longrightarrow> PGROUNDDOWN (va + of_nat k) = PGROUNDDOWN va"
proof -
  show "0 < piece va n" using piece_pos [OF assms] .
  show "piece va n \<le> n" "unat (va - PGROUNDDOWN va) + piece va n \<le> 4096" using offset_less [of va] by (simp_all add: piece_def)
  then show "k < piece va n \<Longrightarrow> PGROUNDDOWN (va + of_nat k) = PGROUNDDOWN va" by (intro same_page) simp
qed

lemma uaccess_split:
  assumes "0 < n"
  shows "uaccess m pt va n \<longleftrightarrow> uaddr m pt (PGROUNDDOWN va) \<noteq> 0 \<and>
    uaccess m pt (PGROUNDDOWN va + PGSIZE) (n - piece va n)"
proof -
  note f = piece_facts [OF assms, where va = va]
  have nx: "va + of_nat (piece va n + k) = PGROUNDDOWN va + PGSIZE + of_nat k" if "k < n - piece va n" for k
    using next_page [of va n] that by (simp add: algebra_simps)
  have sp: "(\<forall>k<n. P k) \<longleftrightarrow> (\<forall>k<piece va n. P k) \<and> (\<forall>k<n - piece va n. P (piece va n + k))" for P
  proof (intro iffI conjI allI impI)
    fix k assume a: "(\<forall>k<piece va n. P k) \<and> (\<forall>k<n - piece va n. P (piece va n + k))" and k: "k < n"
    show "P k"
    proof (cases "k < piece va n")
      case False
      then have "k - piece va n < n - piece va n" "piece va n + (k - piece va n) = k" using k by linarith+
      then show ?thesis using a by metis
    qed (use a in simp)
  qed (use f(2) in auto)
  show ?thesis unfolding uaccess_def sp using f nx by (auto simp del: of_nat_add)
qed

lemma ubytes_split:
  assumes "0 < n"
  shows "ubytes m pt va n = bytes m (uaddr m pt (PGROUNDDOWN va) + (va - PGROUNDDOWN va)) (piece va n) @
    ubytes m pt (PGROUNDDOWN va + PGSIZE) (n - piece va n)"
proof (rule nth_equalityI)
  note f = piece_facts [OF assms, where va = va]
  show "length (ubytes m pt va n) = length (bytes m (uaddr m pt (PGROUNDDOWN va) + (va - PGROUNDDOWN va)) (piece va n) @
    ubytes m pt (PGROUNDDOWN va + PGSIZE) (n - piece va n))" using f(2) by (simp add: ubytes_def)
  fix i assume i: "i < length (ubytes m pt va n)"
  show "ubytes m pt va n ! i = (bytes m (uaddr m pt (PGROUNDDOWN va) + (va - PGROUNDDOWN va)) (piece va n) @
    ubytes m pt (PGROUNDDOWN va + PGSIZE) (n - piece va n)) ! i"
  proof (cases "i < piece va n")
    case True
    then have "PGROUNDDOWN (va + of_nat i) = PGROUNDDOWN va" by (rule f(4))
    then show ?thesis using True i by (simp add: nth_append ubytes_def bytes_def ubyte_def algebra_simps)
  next
    case False
    then have e: "va + of_nat i = PGROUNDDOWN va + PGSIZE + of_nat (i - piece va n)"
      using next_page [of va n] i by (simp add: ubytes_def of_nat_diff)
    have "i - piece va n < n - piece va n" "i < n" using False i by (simp_all add: ubytes_def)
    then have "ubytes m pt va n ! i = ubyte m pt (va + of_nat i)"
      "ubytes m pt (PGROUNDDOWN va + PGSIZE) (n - piece va n) ! (i - piece va n) = ubyte m pt (PGROUNDDOWN va + PGSIZE + of_nat (i - piece va n))"
      by (simp_all add: ubytes_def)
    then show ?thesis using False unfolding e by (simp add: nth_append)
  qed
qed

lemma copyin_obj_ok:
  assumes "wf_pt 2 e (mem s) pt"
  shows "if uaccess (mem s) pt va n then copyin_obj pt va n s = Ret (0, ubytes (mem s) pt va n) s
    else \<exists>bs. copyin_obj pt va n s = Ret (-1, bs) s"
proof (induction n arbitrary: va rule: less_induct)
  case (less n)
  show ?case
  proof (cases "n = 0")
    case True
    then show ?thesis by (simp add: copyin_obj.simps uaccess_def ubytes_def)
  next
    case False
    then have n: "0 < n" by simp
    let ?p = "uaddr (mem s) pt (PGROUNDDOWN va)"
    show ?thesis
    proof (cases "?p = 0")
      case True
      then show ?thesis using n uaccess_split [OF n, of "mem s" pt va]
        by (subst (1 2) copyin_obj.simps) (simp add: walkaddr_eq [OF assms])
    next
      case p: False
      have "n - piece va n < n" using piece_pos [OF n, of va] n by simp
      note IH = less.IH [OF this, of "PGROUNDDOWN va + PGSIZE"]
      have eq: "copyin_obj pt va n s = bnd (copyin_obj pt (PGROUNDDOWN va + PGSIZE) (n - piece va n) s)
          (\<lambda>(r, rest) s. Ret (r, bytes (mem s) (?p + (va - PGROUNDDOWN va)) (piece va n) @ rest) s)"
        if "snd (case copyin_obj pt (PGROUNDDOWN va + PGSIZE) (n - piece va n) s of Ret _ t \<Rightarrow> (0, t) | _ \<Rightarrow> (0::nat, s)) = s"
        using n p that by (subst copyin_obj.simps)
          (auto simp: walkaddr_eq [OF assms] Let_def split: outcome.splits)
      show ?thesis using IH eq uaccess_split [OF n, of "mem s" pt va] ubytes_split [OF n, of "mem s" pt va] p
        by (auto split: if_splits)
    qed
  qed
qed

lemma in_range_split:
  assumes "n \<le> len" "len < 2 ^ 64"
  shows "in_range x va len \<longleftrightarrow> in_range x va n \<or> in_range x (va + of_nat n) (len - n)"
    "in_range x (va + of_nat n) (len - n) \<Longrightarrow> \<not> in_range x va n \<and> unat (x - va) = n + unat (x - (va + of_nat n))"
proof -
  let ?y = "x - va"
  have n: "unat (of_nat n :: uint64) = n" using assms by (simp add: unat_of_nat_small)
  have e: "x - (va + of_nat n) = ?y - of_nat n" by (simp add: algebra_simps)
  have d: "unat (?y - of_nat n) = (if n \<le> unat ?y then unat ?y - n else unat ?y + 2 ^ 64 - n)"
    using unat_sub_if' [of ?y "of_nat n"] n by (simp add: word_le_nat_alt)
  have lt: "unat ?y < 2 ^ 64" using unat_lt [of ?y] by simp
  show "in_range x va len \<longleftrightarrow> in_range x va n \<or> in_range x (va + of_nat n) (len - n)"
    using d lt assms unfolding in_range_def e by auto
  show "in_range x (va + of_nat n) (len - n) \<Longrightarrow> \<not> in_range x va n \<and> unat (x - va) = n + unat (x - (va + of_nat n))"
    using d lt assms unfolding in_range_def e by (auto split: if_splits)
qed

lemma in_range_same_page:
  assumes "in_range x va n" "unat (va - PGROUNDDOWN va) + n \<le> 4096"
  shows "PGROUNDDOWN x = PGROUNDDOWN va"
proof -
  have "x = va + of_nat (unat (x - va))" by simp
  moreover have "PGROUNDDOWN (va + of_nat (unat (x - va))) = PGROUNDDOWN va"
    using assms by (intro same_page) (simp add: in_range_def)
  ultimately show ?thesis by metis
qed

definition copied :: "uint64 \<Rightarrow> mem \<Rightarrow> uint64 \<Rightarrow> uint64 \<Rightarrow> byte list \<Rightarrow> int \<Rightarrow> mem \<Rightarrow> bool" where
  "copied e m pt va bs r m' \<longleftrightarrow> uspace e m' pt \<and> (\<forall>x. uaddr m' pt x = uaddr m pt x) \<and>
     r = (if uaccess m pt va (length bs) then 0 else -1) \<and>
     (r = 0 \<longrightarrow> (\<forall>x. uaddr m pt (PGROUNDDOWN x) \<noteq> 0 \<longrightarrow>
        ubyte m' pt x = (if in_range x va (length bs) then bs ! unat (x - va) else ubyte m pt x))) \<and>
     (\<forall>x. (\<forall>va. uaddr m pt va \<noteq> 0 \<longrightarrow> \<not> in_range x (uaddr m pt va) 4096) \<longrightarrow> m' x = m x)"

lemma copyout_obj_ok:
  assumes "uspace e (mem s) pt" "length bs < 2 ^ 64"
  shows "\<exists>r m'. copyout_obj pt va bs s = Ret r (s\<lparr>mem := m'\<rparr>) \<and> copied e (mem s) pt va bs r m'"
  using assms
proof (induction "length bs" arbitrary: va bs s rule: less_induct)
  case less
  show ?case
  proof (cases "bs = []")
    case True
    then show ?thesis using less.prems
      by (intro exI [of _ 0] exI [of _ "mem s"]) (simp add: copyout_obj.simps copied_def uaccess_def)
  next
    case False
    then have n: "0 < length bs" by simp
    have wf: "wf_pt 2 e (mem s) pt" using less.prems(1) by (simp add: uspace_def)
    let ?p = "uaddr (mem s) pt (PGROUNDDOWN va)" and ?n = "piece va (length bs)"
    let ?m = "write_bytes (?p + (va - PGROUNDDOWN va)) (take ?n bs) (mem s)"
    note f = piece_facts [OF n, where va = va]
    show ?thesis
    proof (cases "?p = 0")
      case True
      then show ?thesis using False less.prems uaccess_split [OF n, of "mem s" pt va]
        by (intro exI [of _ "-1"] exI [of _ "mem s"], subst copyout_obj.simps)
          (simp add: walkaddr_eq [OF wf] copied_def)
    next
      case p: False
      have tk: "length (take ?n bs) = ?n" using f(2) by simp
      note w = write_user_page [OF less.prems(1) refl p, of "take ?n bs", unfolded tk, OF f(3)]
      have lt: "length (drop ?n bs) < length bs" "length (drop ?n bs) < 2 ^ 64" using f(1) n less.prems(2) by auto
      have us: "uspace e (mem (s\<lparr>mem := ?m\<rparr>)) pt" using w(1) by simp
      obtain r m' where IH: "copyout_obj pt (PGROUNDDOWN va + PGSIZE) (drop ?n bs) (s\<lparr>mem := ?m\<rparr>) = Ret r (s\<lparr>mem := m'\<rparr>)"
        "copied e ?m pt (PGROUNDDOWN va + PGSIZE) (drop ?n bs) r m'"
        using less.hyps [OF lt(1) us lt(2), of "PGROUNDDOWN va + PGSIZE"] by auto
      have eq: "copyout_obj pt va bs s = Ret r (s\<lparr>mem := m'\<rparr>)"
        using False p IH(1) by (subst copyout_obj.simps) (simp add: walkaddr_eq [OF wf] Let_def)
      have acc: "uaccess ?m pt x k = uaccess (mem s) pt x k" for x k by (simp add: uaccess_def w(2))
      have "ubyte m' pt x = (if in_range x va (length bs) then bs ! unat (x - va) else ubyte (mem s) pt x)"
        if "r = 0" and nz: "uaddr (mem s) pt (PGROUNDDOWN x) \<noteq> 0" for x
      proof -
        have b: "ubyte m' pt x = (if in_range x (PGROUNDDOWN va + PGSIZE) (length bs - ?n)
            then drop ?n bs ! unat (x - (PGROUNDDOWN va + PGSIZE)) else ubyte ?m pt x)"
          using IH(2) that w(2) unfolding copied_def by simp
        show ?thesis
        proof (cases "?n < length bs")
          case True
          note sp = in_range_split [OF f(2) less.prems(2), of x va]
          show ?thesis using b w(3) [OF nz] sp in_range_same_page [of x va, OF _ f(3)] True
            unfolding next_page [OF True] by (auto simp: in_range_def)
        next
          case False
          then have "?n = length bs" using f(2) by simp
          then show ?thesis using b w(3) [OF nz] in_range_same_page [of x va, OF _ f(3)] by (auto simp: in_range_def)
        qed
      qed
      moreover have "m' x = mem s x" if "\<forall>va. uaddr (mem s) pt va \<noteq> 0 \<longrightarrow> \<not> in_range x (uaddr (mem s) pt va) 4096" for x
      proof -
        have "m' x = ?m x" using IH(2) that w(2) unfolding copied_def by simp
        also have "\<dots> = mem s x" using w(4) that p by blast
        finally show ?thesis .
      qed
      moreover have "r = (if uaccess (mem s) pt va (length bs) then 0 else -1)"
        using IH(2) uaccess_split [OF n, of "mem s" pt va] p acc by (simp add: copied_def)
      ultimately have "copied e (mem s) pt va bs r m'"
        using IH(2) w(2) unfolding copied_def by simp
      then show ?thesis using eq by blast
    qed
  qed
qed

section \<open>Copies from and to kernel addresses\<close>

text \<open>A kernel buffer: no overlap with the page table or with a user page.\<close>

definition kbuf :: "mem \<Rightarrow> uint64 \<Rightarrow> uint64 \<Rightarrow> nat \<Rightarrow> bool" where
  "kbuf m pt a n \<longleftrightarrow> unat a + n \<le> 2 ^ 64 \<and> (\<forall>p \<in> ptree 2 m pt. disjoint_ranges a n p 4096) \<and>
     (\<forall>va. uaddr m pt va \<noteq> 0 \<longrightarrow> disjoint_ranges a n (uaddr m pt va) 4096)"

lemma disjoint_tail:
  assumes "disjoint_ranges a n b k" "i \<le> n" "unat a + n \<le> 2 ^ 64"
  shows "disjoint_ranges (a + of_nat i) (n - i) b k"
proof -
  have "in_range x a n" if "in_range x (a + of_nat i) (n - i)" for x
  proof (cases "n < 2 ^ 64")
    case True
    then show ?thesis using in_range_split(1) [OF assms(2) True] that by blast
  next
    case False
    then have "18446744073709551616 \<le> n" by simp
    then show ?thesis unfolding in_range_def using unat_lt [of "x - a"] by linarith
  qed
  then show ?thesis using assms(1) by (auto simp: disjoint_ranges_def)
qed

lemma kbuf_tail:
  assumes "kbuf m pt a n" "i < n"
  shows "kbuf m pt (a + of_nat i) (n - i)"
proof -
  have "unat (a + of_nat i) = unat a + i" using assms by (intro unat_add_small) (simp add: kbuf_def)
  then show ?thesis using assms disjoint_tail [of a n _ _ i] by (auto simp: kbuf_def)
qed

lemma bytes_split: "i \<le> n \<Longrightarrow> bytes m a n = bytes m a i @ bytes m (a + of_nat i) (n - i)"
  by (rule nth_equalityI) (auto simp: bytes_def nth_append of_nat_diff not_less)

lemma bytes_nth: "unat (x - a) < n \<Longrightarrow> bytes m a n ! unat (x - a) = m x"
  by (simp add: bytes_def)

lemma memmove_write_bytes:
  "unat dst + n \<le> 2 ^ 64 \<Longrightarrow> unat src + n \<le> 2 ^ 64 \<Longrightarrow> memmove dst src n m = write_bytes dst (bytes m src n) m"
  by (auto simp: memmove_eq write_bytes_def in_range_def bytes_def fun_eq_iff)

lemma chunk_piece: "chunk va len = of_nat (piece va (unat len))"
proof -
  have "unat (chunk va len) = piece va (unat len)" by (simp add: unat_chunk piece_def page_offset min.commute)
  then have "of_nat (unat (chunk va len)) = (of_nat (piece va (unat len)) :: uint64)" by simp
  then show ?thesis by simp
qed

lemma page_bound: "page_ok e p \<Longrightarrow> unat (o' :: uint64) + n \<le> 4096 \<Longrightarrow> unat (p + o') + n \<le> 2 ^ 64"
proof -
  assume p: "page_ok e p" and o: "unat o' + n \<le> 4096"
  have "unat p < 0x88000000" using p PHYSTOP_nat by (simp add: page_ok_def word_less_nat_alt)
  moreover have "unat (p + o') \<le> unat p + unat o'" by (simp add: unat_word_ariths)
  ultimately show ?thesis using o by simp
qed

lemma copyout_eq:
  assumes "uspace e (mem s) pt" "kbuf (mem s) pt src (unat len)"
  shows "copyout pt va src len s = copyout_obj pt va (bytes (mem s) src (unat len)) s"
  using assms
proof (induction "unat len" arbitrary: va src len s rule: less_induct)
  case less
  show ?case
  proof (cases "len = 0")
    case True
    then show ?thesis by (subst copyout.simps, subst copyout_obj.simps) simp
  next
    case False
    then have pos: "0 < len" and n: "0 < unat len" by (simp_all add: unat_gt_0 word_neq_0_conv)
    have ne: "bytes (mem s) src (unat len) \<noteq> []" using n by (metis length_0_conv length_bytes less_irrefl)
    have wf: "wf_pt 2 e (mem s) pt" using less.prems(1) by (simp add: uspace_def)
    let ?p = "uaddr (mem s) pt (PGROUNDDOWN va)" and ?n = "piece va (unat len)" and ?o = "va - PGROUNDDOWN va"
    note f = piece_facts [OF n, where va = va]
    have un: "unat (of_nat ?n :: uint64) = ?n" using le_less_trans [OF f(2) unat_lt] by (intro unat_of_nat_small) simp
    have ul: "unat (len - of_nat ?n) = unat len - ?n"
      using f(2) un by (subst unat_sub) (simp_all add: word_le_nat_alt)
    show ?thesis
    proof (cases "?p = 0")
      case True
      then show ?thesis using False ne by (subst copyout.simps, subst copyout_obj.simps) (simp add: walkaddr_eq [OF wf] word_neq_0_conv)
    next
      case p: False
      let ?bs = "bytes (mem s) src (unat len)" and ?m = "memmove (?p + ?o) src ?n (mem s)"
      have pg: "page_ok e ?p" using less.prems(1) p unfolding uspace_def by blast
      have src: "unat src + ?n \<le> 2 ^ 64" using less.prems(2) f(2) by (simp add: kbuf_def)
      have sp: "?bs = bytes (mem s) src ?n @ bytes (mem s) (src + of_nat ?n) (unat len - ?n)" by (rule bytes_split [OF f(2)])
      have m: "?m = write_bytes (?p + ?o) (take ?n ?bs) (mem s)"
        unfolding sp using memmove_write_bytes [OF page_bound [OF pg f(3)] src] by simp
      have tk: "length (take ?n ?bs) = ?n" using f(2) by simp
      note w = write_user_page [OF less.prems(1) refl p, of "take ?n ?bs", unfolded tk, OF f(3), folded m]
      have rest: "copyout pt (PGROUNDDOWN va + PGSIZE) (src + of_nat ?n) (len - of_nat ?n) (s\<lparr>mem := ?m\<rparr>) =
          copyout_obj pt (PGROUNDDOWN va + PGSIZE) (drop ?n ?bs) (s\<lparr>mem := ?m\<rparr>)"
      proof (cases "?n = unat len")
        case True
        have "len - of_nat ?n = 0" using ul True by (simp add: unat_eq_0 [symmetric])
        then show ?thesis using True by (subst copyout.simps, subst copyout_obj.simps) simp
      next
        case less': False
        then have lt: "?n < unat len" using f(2) by simp
        have us: "uspace e (mem (s\<lparr>mem := ?m\<rparr>)) pt" using w(1) by simp
        have tree: "ptree 2 ?m pt = ptree 2 (mem s) pt"
        proof (rule ptree_cong(1))
          fix q assume q: "q \<in> ptree 2 (mem s) pt"
          have "?p \<notin> ptree 2 (mem s) pt" using less.prems(1) p unfolding uspace_def by blast
          then have "disjoint_ranges q 4096 ?p 4096" using pages_disjoint [OF wf_pt_pages [OF wf q] pg] q by auto
          then show "same_page_bytes (mem s) ?m q" using w(4) by (auto simp: same_page_bytes_def disjoint_ranges_def)
        qed
        have kb: "kbuf (mem (s\<lparr>mem := ?m\<rparr>)) pt (src + of_nat ?n) (unat (len - of_nat ?n))"
          using kbuf_tail [OF less.prems(2) lt] w(2) tree unfolding ul by (simp add: kbuf_def)
        have "disjoint_ranges src (unat len) ?p 4096" using less.prems(2) p by (simp add: kbuf_def)
        then have dj: "disjoint_ranges (src + of_nat ?n) (unat len - ?n) ?p 4096"
          using disjoint_tail f(2) less.prems(2) unfolding kbuf_def by blast
        have "bytes ?m (src + of_nat ?n) (unat len - ?n) = bytes (mem s) (src + of_nat ?n) (unat len - ?n)"
          using dj w(4) less_imp_le [OF unat_lt, of len] by (intro bytes_cong) (auto simp: disjoint_ranges_def)
        then have "bytes (mem (s\<lparr>mem := ?m\<rparr>)) (src + of_nat ?n) (unat (len - of_nat ?n)) = drop ?n ?bs"
          unfolding ul sp by simp
        then show ?thesis using less.hyps [OF _ us kb, of "PGROUNDDOWN va + PGSIZE"] ul f(1) n by simp
      qed
      show ?thesis using ne p rest pos
        by (subst copyout.simps, subst copyout_obj.simps)
          (simp add: walkaddr_eq [OF wf] Let_def chunk_piece un m)
    qed
  qed
qed

lemma write_bytes_Nil [simp]: "write_bytes a [] m = m"
  by (simp add: write_bytes_def)

lemma write_bytes_append:
  assumes "length bs + length cs < 2 ^ 64"
  shows "write_bytes (a + of_nat (length bs)) cs (write_bytes a bs m) = write_bytes a (bs @ cs) m"
proof
  fix x
  have "in_range x a (length bs + length cs) \<longleftrightarrow> in_range x a (length bs) \<or> in_range x (a + of_nat (length bs)) (length cs)"
    "in_range x (a + of_nat (length bs)) (length cs) \<Longrightarrow> \<not> in_range x a (length bs) \<and> unat (x - a) = length bs + unat (x - (a + of_nat (length bs)))"
    using in_range_split [of "length bs" "length bs + length cs" x a] assms by simp_all
  then show "write_bytes (a + of_nat (length bs)) cs (write_bytes a bs m) x = write_bytes a (bs @ cs) m x"
    by (auto simp: write_bytes_def nth_append in_range_def)
qed

text \<open>Writes outside the page table and the user pages do not show in the address space.\<close>

lemma outside_write:
  assumes us: "uspace e m pt" and kb: "kbuf m pt a n" and k: "\<And>x. \<not> in_range x a n \<Longrightarrow> m' x = m x"
  shows "uspace e m' pt" "\<And>x. uaddr m' pt x = uaddr m pt x" "kbuf m' pt b k = kbuf m pt b k"
    "uaddr m pt (PGROUNDDOWN va) \<noteq> 0 \<Longrightarrow> ubyte m' pt va = ubyte m pt va"
proof -
  have wf: "wf_pt 2 e m pt" using us by (simp add: uspace_def)
  have keep: "same_page_bytes m m' q" if "q \<in> ptree 2 m pt" for q
  proof -
    have "disjoint_ranges a n q 4096" using kb that unfolding kbuf_def by blast
    then have "m' x = m x" if "in_range x q 4096" for x using k that unfolding disjoint_ranges_def by blast
    then show ?thesis by (simp add: same_page_bytes_def)
  qed
  have tr: "ptree 2 m' pt = ptree 2 m pt" "wf_pt 2 e m' pt = wf_pt 2 e m pt" "\<And>x. lookup 2 m' pt x = lookup 2 m pt x"
    using ptree_cong [of 2 m pt m'] keep by blast+
  have "vmap m' pt x = vmap m pt x" for x
  proof (cases "lookup 2 m pt x")
    case (Some a)
    then obtain q i where q: "q \<in> ptree 2 m pt" "i < 512" "a = q + 8 * of_nat i" by (rule lookup_in_tree)
    then have "load64 m' a = load64 m a" using load64_same_page keep by metis
    then show ?thesis using Some tr(3) by (simp add: vmap_def)
  qed (simp add: vmap_def tr(3))
  then show ua: "uaddr m' pt x = uaddr m pt x" for x by (simp add: uaddr_def)
  show "uspace e m' pt" using us unfolding uspace_def ua tr .
  show "kbuf m' pt b k = kbuf m pt b k" unfolding kbuf_def ua tr ..
  assume nz: "uaddr m pt (PGROUNDDOWN va) \<noteq> 0"
  let ?q = "uaddr m pt (PGROUNDDOWN va)"
  have "in_range (?q + (va - PGROUNDDOWN va)) ?q 4096" using offset_less by (simp add: in_range_def)
  moreover have "disjoint_ranges a n ?q 4096" using kb nz unfolding kbuf_def by blast
  ultimately show "ubyte m' pt va = ubyte m pt va" unfolding ubyte_def ua by (intro k) (auto simp: disjoint_ranges_def)
qed

lemma copyin_ok:
  assumes "uspace e (mem s) pt" "kbuf (mem s) pt dst (unat len)"
  shows "if uaccess (mem s) pt va (unat len)
    then copyin pt dst va len s = Ret 0 (s\<lparr>mem := write_bytes dst (ubytes (mem s) pt va (unat len)) (mem s)\<rparr>)
    else \<exists>m'. copyin pt dst va len s = Ret (-1) (s\<lparr>mem := m'\<rparr>) \<and> (\<forall>x. \<not> in_range x dst (unat len) \<longrightarrow> m' x = mem s x)"
  using assms
proof (induction "unat len" arbitrary: va dst len s rule: less_induct)
  case less
  show ?case
  proof (cases "len = 0")
    case True
    then show ?thesis by (subst (1 2) copyin.simps) (simp add: uaccess_def ubytes_def)
  next
    case False
    then have pos: "0 < len" and n: "0 < unat len" by (simp_all add: unat_gt_0 word_neq_0_conv)
    have wf: "wf_pt 2 e (mem s) pt" using less.prems(1) by (simp add: uspace_def)
    let ?p = "uaddr (mem s) pt (PGROUNDDOWN va)" and ?n = "piece va (unat len)" and ?o = "va - PGROUNDDOWN va"
    let ?va = "PGROUNDDOWN va + PGSIZE" and ?dst = "dst + of_nat ?n" and ?len = "len - of_nat ?n"
    note f = piece_facts [OF n, where va = va]
    have un: "unat (of_nat ?n :: uint64) = ?n" using le_less_trans [OF f(2) unat_lt] by (intro unat_of_nat_small) simp
    have ul: "unat ?len = unat len - ?n"
      using f(2) un by (subst unat_sub) (simp_all add: word_le_nat_alt)
    show ?thesis
    proof (cases "?p = 0")
      case True
      then have "\<not> uaccess (mem s) pt va (unat len)" using uaccess_split [OF n, of "mem s" pt va] by simp
      then show ?thesis using True pos
        by (simp, intro exI [of _ "mem s"], subst copyin.simps) (simp add: walkaddr_eq [OF wf])
    next
      case p: False
      let ?m = "memmove dst (?p + ?o) ?n (mem s)" and ?bs = "bytes (mem s) (?p + ?o) ?n"
      have pg: "page_ok e ?p" using less.prems(1) p unfolding uspace_def by blast
      have dst: "unat dst + ?n \<le> 2 ^ 64" using less.prems(2) f(2) by (simp add: kbuf_def)
      have m: "?m = write_bytes dst ?bs (mem s)" using memmove_write_bytes [OF dst page_bound [OF pg f(3)]] .
      have le: "unat len < 2 ^ 64" using unat_lt [of len] by simp
      have out: "?m x = mem s x" if "\<not> in_range x dst (unat len)" for x
        unfolding m using that in_range_split(1) [OF f(2) le, of x dst] by (simp add: write_bytes_def)
      note w = outside_write [OF less.prems(1,2) out]
      have step: "copyin pt dst va len s = copyin pt ?dst ?va ?len (s\<lparr>mem := ?m\<rparr>)"
        using pos p by (subst copyin.simps) (simp add: walkaddr_eq [OF wf] Let_def chunk_piece un)
      have acc: "uaccess ?m pt x k = uaccess (mem s) pt x k" for x k by (simp add: uaccess_def w(2))
      have ub: "ubytes ?m pt ?va (unat ?len) = ubytes (mem s) pt ?va (unat ?len)" if "uaccess (mem s) pt ?va (unat ?len)"
        using that w(4) by (auto simp: ubytes_def uaccess_def)
      have IH: "if uaccess (mem s) pt ?va (unat ?len)
        then copyin pt ?dst ?va ?len (s\<lparr>mem := ?m\<rparr>) = Ret 0 (s\<lparr>mem := write_bytes ?dst (ubytes (mem s) pt ?va (unat ?len)) ?m\<rparr>)
        else \<exists>m'. copyin pt ?dst ?va ?len (s\<lparr>mem := ?m\<rparr>) = Ret (-1) (s\<lparr>mem := m'\<rparr>) \<and> (\<forall>x. \<not> in_range x ?dst (unat ?len) \<longrightarrow> m' x = ?m x)"
      proof (cases "?n = unat len")
        case True
        have "?len = 0" using ul True by (simp add: unat_eq_0 [symmetric])
        then show ?thesis by (subst (1 2) copyin.simps) (simp add: uaccess_def ubytes_def)
      next
        case False
        then have lt: "?n < unat len" using f(2) by simp
        have us: "uspace e (mem (s\<lparr>mem := ?m\<rparr>)) pt" using w(1) by simp
        have kb: "kbuf (mem (s\<lparr>mem := ?m\<rparr>)) pt ?dst (unat ?len)"
          using kbuf_tail [OF less.prems(2) lt] w(3) unfolding ul by simp
        show ?thesis using less.hyps [OF _ us kb, of ?va] ul f(1) n ub acc by (simp split: if_splits)
      qed
      show ?thesis
      proof (cases "uaccess (mem s) pt va (unat len)")
        case True
        then have "uaccess (mem s) pt ?va (unat ?len)" using uaccess_split [OF n, of "mem s" pt va] ul by simp
        then have "copyin pt dst va len s = Ret 0 (s\<lparr>mem := write_bytes ?dst (ubytes (mem s) pt ?va (unat ?len)) ?m\<rparr>)"
          using IH step by simp
        moreover have "write_bytes ?dst (ubytes (mem s) pt ?va (unat ?len)) ?m = write_bytes dst (ubytes (mem s) pt va (unat len)) (mem s)"
          unfolding m ubytes_split [OF n, of "mem s" pt va] ul
          using write_bytes_append [of ?bs "ubytes (mem s) pt ?va (unat len - ?n)" dst "mem s"] f(2) le by (simp add: ubytes_def)
        ultimately show ?thesis using True by simp
      next
        case False
        then have "\<not> uaccess (mem s) pt ?va (unat ?len)" using uaccess_split [OF n, of "mem s" pt va] p ul by simp
        then obtain m' where m': "copyin pt dst va len s = Ret (-1) (s\<lparr>mem := m'\<rparr>)" "\<And>x. \<not> in_range x ?dst (unat ?len) \<Longrightarrow> m' x = ?m x"
          using IH step by auto
        have "m' x = mem s x" if "\<not> in_range x dst (unat len)" for x
          using m'(2) [of x] out [OF that] in_range_split(1) [OF f(2) le, of x dst] that unfolding ul by simp
        then show ?thesis using False m'(1) by auto
      qed
    qed
  qed
qed

text \<open>
  C11: \<open>copyout\<close> is correct on every address space the kernel builds.  It returns 0 exactly when
  every page of the destination range is mapped for user access, and then the user program
  sees the kernel's bytes in the range and every other byte unchanged; otherwise it returns
  \<open>-1\<close>.  In both cases it changes memory only inside user pages.
\<close>

theorem copyout_correct:
  assumes "uspace e (mem s) pt" "kbuf (mem s) pt src (unat len)"
  shows "\<exists>r m'. copyout pt va src len s = Ret r (s\<lparr>mem := m'\<rparr>) \<and>
    r = (if uaccess (mem s) pt va (unat len) then 0 else -1) \<and>
    (r = 0 \<longrightarrow> (\<forall>x. uaddr (mem s) pt (PGROUNDDOWN x) \<noteq> 0 \<longrightarrow>
       ubyte m' pt x = (if in_range x va (unat len) then mem s (src + (x - va)) else ubyte (mem s) pt x))) \<and>
    (\<forall>x. (\<forall>va. uaddr (mem s) pt va \<noteq> 0 \<longrightarrow> \<not> in_range x (uaddr (mem s) pt va) 4096) \<longrightarrow> m' x = mem s x)"
proof -
  have "length (bytes (mem s) src (unat len)) < 2 ^ 64" by simp
  then obtain r m' where c: "copyout_obj pt va (bytes (mem s) src (unat len)) s = Ret r (s\<lparr>mem := m'\<rparr>)"
    "copied e (mem s) pt va (bytes (mem s) src (unat len)) r m'"
    using copyout_obj_ok [OF assms(1)] by blast
  have b: "bytes (mem s) src (unat len) ! unat (x - va) = mem s (src + (x - va))" if "in_range x va (unat len)" for x
    using that by (simp add: in_range_def bytes_def)
  show ?thesis using c b unfolding copyout_eq [OF assms] copied_def
    by (intro exI [of _ r] exI [of _ m']) simp
qed

text \<open>
  C12: what \<open>copyout\<close> stores, \<open>copyin\<close> reads back: copying a kernel buffer to an accessible
  range of user memory and back into another kernel buffer reproduces the bytes.
\<close>

theorem copyout_copyin:
  assumes "uspace e (mem s) pt" "kbuf (mem s) pt src (unat len)" "kbuf (mem s) pt dst (unat len)"
    "uaccess (mem s) pt va (unat len)"
  shows "\<exists>t u. copyout pt va src len s = Ret 0 t \<and> copyin pt dst va len t = Ret 0 u \<and>
    bytes (mem u) dst (unat len) = bytes (mem s) src (unat len)"
proof -
  let ?bs = "bytes (mem s) src (unat len)"
  have "length ?bs < 2 ^ 64" by simp
  then obtain r m' where c: "copyout_obj pt va ?bs s = Ret r (s\<lparr>mem := m'\<rparr>)" "copied e (mem s) pt va ?bs r m'"
    using copyout_obj_ok [OF assms(1)] by blast
  then have r: "r = 0" using assms(4) by (simp add: copied_def)
  let ?t = "s\<lparr>mem := m'\<rparr>"
  have us: "uspace e (mem ?t) pt" and ua: "\<And>x. uaddr m' pt x = uaddr (mem s) pt x" using c(2) by (simp_all add: copied_def)
  have acc: "uaccess (mem ?t) pt va (unat len)" using assms(4) ua by (simp add: uaccess_def)
  have wf: "wf_pt 2 e (mem s) pt" using assms(1) by (simp add: uspace_def)
  have keep: "same_page_bytes (mem s) m' q" if "q \<in> ptree 2 (mem s) pt" for q
  proof -
    have "\<not> in_range x (uaddr (mem s) pt v) 4096" if "in_range x q 4096" "uaddr (mem s) pt v \<noteq> 0" for x v
    proof -
      have "page_ok e (uaddr (mem s) pt v)" "uaddr (mem s) pt v \<noteq> q"
        using assms(1) that(2) \<open>q \<in> _\<close> unfolding uspace_def by blast+
      then have "disjoint_ranges q 4096 (uaddr (mem s) pt v) 4096"
        using pages_disjoint [OF wf_pt_pages [OF wf \<open>q \<in> _\<close>]] by auto
      then show ?thesis using that(1) by (auto simp: disjoint_ranges_def)
    qed
    then show ?thesis using c(2) unfolding copied_def same_page_bytes_def by metis
  qed
  have "ptree 2 m' pt = ptree 2 (mem s) pt" by (rule ptree_cong(1), rule keep, assumption)
  then have kb: "kbuf (mem ?t) pt dst (unat len)" using assms(3) ua by (simp add: kbuf_def)
  have 2: "copyin pt dst va len ?t = Ret 0 (?t\<lparr>mem := write_bytes dst (ubytes m' pt va (unat len)) m'\<rparr>)"
    using copyin_ok [OF us kb, of va] acc by simp
  have "ubytes m' pt va (unat len) = ?bs"
  proof (rule nth_equalityI)
    fix i assume "i < length (ubytes m' pt va (unat len))"
    then have i: "i < unat len" by (simp add: ubytes_def)
    then have ui: "unat (of_nat i :: uint64) = i" using less_trans [OF i unat_lt] by (intro unat_of_nat_small) simp
    have "ubyte m' pt (va + of_nat i) = ?bs ! i"
      using c(2) r assms(4) i ui unfolding copied_def uaccess_def by (simp add: in_range_def)
    then show "ubytes m' pt va (unat len) ! i = ?bs ! i" using i by (simp add: ubytes_def)
  qed (simp add: ubytes_def)
  then have "bytes (write_bytes dst (ubytes m' pt va (unat len)) m') dst (unat len) = ?bs"
    by (intro nth_equalityI) (auto simp: bytes_def write_bytes_def in_range_def unat_of_nat_small less_trans [OF _ unat_lt])
  then show ?thesis using c(1) 2 r unfolding copyout_eq [OF assms(1,2)] by simp
qed

lemma one_page_uspace:
  "uaddr one_page_mem 0x80201000 va = (if va < MAXVA \<and> PGROUNDDOWN va = 0 then 0x80204000 else 0)"
  "uspace 0x80021d60 one_page_mem 0x80201000"
proof -
  let ?e = "PA2PTE 0x80204000 OR (PTE_R OR PTE_W OR PTE_U) OR PTE_V"
  have e: "valid ?e" "?e AND PTE_U \<noteq> 0" "PTE2PA ?e = 0x80204000"
    by (simp_all add: valid_def PTE2PA_def PA2PTE_def PTE_V_def PTE_R_def PTE_W_def PTE_U_def)
  have sv: "same_vpage 2 va 0 \<longleftrightarrow> PGROUNDDOWN va = 0" if "va < MAXVA" for va
    using same_vpage_iff [OF that, of 0] by (simp add: MAXVA_def PGROUNDDOWN_def)
  show u: "uaddr one_page_mem 0x80201000 va = (if va < MAXVA \<and> PGROUNDDOWN va = 0 then 0x80204000 else 0)" for va
    using e sv [of va] flags_V(4) by (auto simp: uaddr_def one_page_vmap Let_def not_le)
  show "uspace 0x80021d60 one_page_mem 0x80201000"
    unfolding uspace_def u using one_page_tree one_page_pages by auto
qed

lemma one_page_kbuf: "a \<in> {0x1000, 0x2000} \<Longrightarrow> kbuf one_page_mem 0x80201000 a 3"
  unfolding kbuf_def one_page_uspace(1) one_page_tree(1)
  by (auto intro!: disjoint_rangesI)

theorem copyout_correct_witness:
  "\<exists>r m'. copyout 0x80201000 4094 0x1000 3 one_page = Ret r (one_page\<lparr>mem := m'\<rparr>) \<and>
    r = (if uaccess (mem one_page) 0x80201000 4094 (unat (3 :: uint64)) then 0 else -1) \<and>
    (r = 0 \<longrightarrow> (\<forall>x. uaddr (mem one_page) 0x80201000 (PGROUNDDOWN x) \<noteq> 0 \<longrightarrow>
       ubyte m' 0x80201000 x = (if in_range x 4094 (unat (3 :: uint64)) then mem one_page (0x1000 + (x - 4094)) else ubyte (mem one_page) 0x80201000 x))) \<and>
    (\<forall>x. (\<forall>va. uaddr (mem one_page) 0x80201000 va \<noteq> 0 \<longrightarrow> \<not> in_range x (uaddr (mem one_page) 0x80201000 va) 4096) \<longrightarrow> m' x = mem one_page x)"
  by (rule copyout_correct [of "0x80021d60"]) (simp_all add: one_page_uspace(2) one_page_kbuf)

theorem copyout_copyin_witness:
  "\<exists>t u. copyout 0x80201000 16 0x1000 3 one_page = Ret 0 t \<and> copyin 0x80201000 0x2000 16 3 t = Ret 0 u \<and>
    bytes (mem u) 0x2000 (unat (3 :: uint64)) = bytes (mem one_page) 0x1000 (unat (3 :: uint64))"
proof (rule copyout_copyin [of "0x80021d60"])
  have three: "unat (3 :: uint64) = 3" by simp
  have "(\<forall>k<unat (3 :: uint64). P k) \<longleftrightarrow> P 0 \<and> P 1 \<and> P 2" for P
    unfolding three by (auto simp: numeral_3_eq_3 numeral_2_eq_2 less_Suc_eq)
  then show "uaccess (mem one_page) 0x80201000 16 (unat (3 :: uint64))"
    by (simp add: uaccess_def one_page_uspace(1) PGROUNDDOWN_def PGSIZE_def MAXVA_def)
qed (simp_all add: one_page_uspace(2) one_page_kbuf)

end
