(* ===== verification/Procs.thy ===== *)
theory Procs
  imports Vmcopy
begin

text \<open>
  Creating, growing, reaping and freeing processes, the part of \<^verbatim>\<open>kernel/proc.c\<close> that needs
  memory but not the file system.  \<^verbatim>\<open>fork\<close>, \<^verbatim>\<open>exit\<close> and \<^verbatim>\<open>userinit\<close>, which also need
  files, are in the theory \<^verbatim>\<open>Life\<close>.

  A trap frame is the page at \<open>p_trapframe\<close>; \<open>tf_get\<close> and \<open>tf_set\<close> access its 64-bit fields
  by the offsets \<^verbatim>\<open>proc.h\<close> documents.
\<close>

section \<open>Trap frames\<close>

datatype tf_field =
    TF_kernel_satp | TF_kernel_sp | TF_kernel_trap | TF_epc | TF_kernel_hartid | TF_ra | TF_sp | TF_gp | TF_tp
  | TF_t0 | TF_t1 | TF_t2 | TF_s0 | TF_s1 | TF_a0 | TF_a1 | TF_a2 | TF_a3 | TF_a4 | TF_a5 | TF_a6 | TF_a7
  | TF_s2 | TF_s3 | TF_s4 | TF_s5 | TF_s6 | TF_s7 | TF_s8 | TF_s9 | TF_s10 | TF_s11 | TF_t3 | TF_t4 | TF_t5 | TF_t6

fun tf_off :: "tf_field \<Rightarrow> uint64" where
  "tf_off TF_kernel_satp = 0" | "tf_off TF_kernel_sp = 8" | "tf_off TF_kernel_trap = 16" | "tf_off TF_epc = 24"
| "tf_off TF_kernel_hartid = 32" | "tf_off TF_ra = 40" | "tf_off TF_sp = 48" | "tf_off TF_gp = 56" | "tf_off TF_tp = 64"
| "tf_off TF_t0 = 72" | "tf_off TF_t1 = 80" | "tf_off TF_t2 = 88" | "tf_off TF_s0 = 96" | "tf_off TF_s1 = 104"
| "tf_off TF_a0 = 112" | "tf_off TF_a1 = 120" | "tf_off TF_a2 = 128" | "tf_off TF_a3 = 136" | "tf_off TF_a4 = 144"
| "tf_off TF_a5 = 152" | "tf_off TF_a6 = 160" | "tf_off TF_a7 = 168" | "tf_off TF_s2 = 176" | "tf_off TF_s3 = 184"
| "tf_off TF_s4 = 192" | "tf_off TF_s5 = 200" | "tf_off TF_s6 = 208" | "tf_off TF_s7 = 216" | "tf_off TF_s8 = 224"
| "tf_off TF_s9 = 232" | "tf_off TF_s10 = 240" | "tf_off TF_s11 = 248" | "tf_off TF_t3 = 256" | "tf_off TF_t4 = 264"
| "tf_off TF_t5 = 272" | "tf_off TF_t6 = 280"

definition TF_SIZE :: nat where "TF_SIZE = 288"

definition tf_get :: "tf_field \<Rightarrow> nat \<Rightarrow> 'z kstate_scheme \<Rightarrow> uint64" where
  "tf_get f p s = load64 (mem s) (p_trapframe (procs s p) + tf_off f)"

definition tf_set :: "tf_field \<Rightarrow> uint64 \<Rightarrow> nat \<Rightarrow> 'z kstate_scheme \<Rightarrow> 'z kstate_scheme" where
  "tf_set f v p s = s\<lparr>mem := store64 (p_trapframe (procs s p) + tf_off f) v (mem s)\<rparr>"

text \<open>The linker's addresses of assembly labels and functions.\<close>

record link =
  sym_trampoline :: uint64
  sym_forkret :: uint64
  sym_usertrap :: uint64
  sym_uservec :: uint64
  sym_userret :: uint64
  sym_kernelvec :: uint64

section \<open>Page tables of processes\<close>

definition proc_pagetable :: "link \<Rightarrow> nat \<Rightarrow> 'z kstate_scheme \<Rightarrow> ('z kstate_scheme, uint64) outcome" where
  "proc_pagetable lk p s =
     bnd (uvmcreate s) (\<lambda>pagetable s.
     if pagetable = 0 then Ret 0 s
     else bnd (mappages pagetable TRAMPOLINE PGSIZE (sym_trampoline lk) (PTE_R OR PTE_X) s) (\<lambda>r s.
       if r < 0 then bnd (uvmfree pagetable 0 s) (\<lambda>_ s. Ret 0 s)
       else bnd (mappages pagetable TRAPFRAME PGSIZE (p_trapframe (procs s p)) (PTE_R OR PTE_W) s) (\<lambda>r s.
         if r < 0 then
           bnd (uvmunmap pagetable TRAMPOLINE 1 False s) (\<lambda>_ s.
           bnd (uvmfree pagetable 0 s) (\<lambda>_ s. Ret 0 s))
         else Ret pagetable s)))"

definition proc_freepagetable :: "uint64 \<Rightarrow> uint64 \<Rightarrow> 'z kstate_scheme \<Rightarrow> ('z kstate_scheme, unit) outcome" where
  "proc_freepagetable pagetable sz s =
     bnd (uvmunmap pagetable TRAMPOLINE 1 False s) (\<lambda>_ s.
     bnd (uvmunmap pagetable TRAPFRAME 1 False s) (\<lambda>_ s.
     uvmfree pagetable sz s))"

section \<open>Allocating and freeing process slots\<close>

definition freeproc :: "policy \<Rightarrow> nat \<Rightarrow> 'z kstate_scheme \<Rightarrow> ('z kstate_scheme, unit) outcome" where
  "freeproc pol p s =
     bnd (if p_trapframe (procs s p) \<noteq> 0 then kfree (p_trapframe (procs s p)) s else Ret () s) (\<lambda>_ s.
     let s = upd_proc p (\<lambda>x. x\<lparr>p_trapframe := 0\<rparr>) s in
     bnd (if p_pagetable (procs s p) \<noteq> 0
          then proc_freepagetable (p_pagetable (procs s p)) (p_sz (procs s p)) s else Ret () s) (\<lambda>_ s.
     Ret () (upd_proc p (\<lambda>x. x\<lparr>p_pagetable := 0, p_sz := 0, p_pid := 0, p_parent := None,
       p_name := (p_name x)[0 := 0], p_chan := None,
       p_status_queue := (if pol = MLFQ then 0 else p_status_queue x),
       p_killed := 0, p_xstate := 0, p_state := UNUSED\<rparr>) s)))"

definition allocproc :: "policy \<Rightarrow> link \<Rightarrow> 'z kstate_scheme \<Rightarrow> ('z kstate_scheme, nat option) outcome" where
  "allocproc pol lk s =
     bnd (for_until [0..<NPROC] (\<lambda>p s.
       bnd (acquire (L_proc p) s) (\<lambda>_ s.
         if p_state (procs s p) = UNUSED then Ret (Some p) s
         else bnd (release (L_proc p) s) (\<lambda>_ s. Ret None s))) s) (\<lambda>found s.
     case found of None \<Rightarrow> Ret None s
     | Some p \<Rightarrow>
       bnd (allocpid s) (\<lambda>pid s.
       let s = upd_proc p (\<lambda>x. x\<lparr>p_pid := pid, p_state := USED,
                 p_sysCounter := (\<lambda>i. if i < 32 then 0 else p_sysCounter x i), p_alarm_status := 0,
                 p_handling_alarm := 0, p_current_ticks := 0, p_trapframe_alarm := 0, p_ticks_of_alarm := 0\<rparr>) s in
       bnd (kalloc s) (\<lambda>tf s.
       let s = upd_proc p (\<lambda>x. x\<lparr>p_trapframe := tf\<rparr>) s in
       if tf = 0 then
         bnd (freeproc pol p s) (\<lambda>_ s. bnd (release (L_proc p) s) (\<lambda>_ s. Ret None s))
       else bnd (proc_pagetable lk p s) (\<lambda>pagetable s.
         let s = upd_proc p (\<lambda>x. x\<lparr>p_pagetable := pagetable\<rparr>) s in
         if pagetable = 0 then
           bnd (freeproc pol p s) (\<lambda>_ s. bnd (release (L_proc p) s) (\<lambda>_ s. Ret None s))
         else
           let s = upd_proc p (\<lambda>x. x\<lparr>
             p_context := zero_context\<lparr>ctx_ra := sym_forkret lk, ctx_sp := p_kstack x + PGSIZE\<rparr>,
             p_rtime := 0, p_etime := 0\<rparr>) s;
               s = (if pol = MLFQ then
                 upd_proc p (\<lambda>x. x\<lparr>p_wait_ticks := 0, p_status_queue := 0, p_priority_queue_number := 0\<rparr>) s else s);
               s = (if pol = LBS then
                 upd_proc p (\<lambda>x. x\<lparr>p_tickets := 1, p_start_time_lbs := sint (ticks s)\<rparr>) s else s)
           in Ret (Some p) (upd_proc p (\<lambda>x. x\<lparr>p_ctime := ticks s\<rparr>) s)))))"

definition growproc :: "int \<Rightarrow> 'z kstate_scheme \<Rightarrow> ('z kstate_scheme, int) outcome" where
  "growproc n s =
     with_myproc (\<lambda>p s.
       let sz = p_sz (procs s p); pt = p_pagetable (procs s p) in
       if n > 0 then
         bnd (uvmalloc pt sz (sz + of_int n) PTE_W s) (\<lambda>sz s.
           if sz = 0 then Ret (-1) s
           else Ret 0 (upd_proc p (\<lambda>x. x\<lparr>p_sz := sz\<rparr>) s))
       else if n < 0 then
         bnd (uvmdealloc pt sz (sz + of_int n) s) (\<lambda>sz s.
           Ret 0 (upd_proc p (\<lambda>x. x\<lparr>p_sz := sz\<rparr>) s))
       else Ret 0 (upd_proc p (\<lambda>x. x\<lparr>p_sz := sz\<rparr>) s)) s"

section \<open>Waiting for children\<close>

text \<open>The bytes of a C \<^verbatim>\<open>int\<close>, as \<open>copyout\<close> reads them.\<close>

definition int_bytes :: "int \<Rightarrow> byte list" where
  "int_bytes x = (let w = of_int x :: uint in map (\<lambda>i. ucast (drop_bit (8 * i) w)) [0..<4])"

text \<open>
  One pass of the loop over the table: the result of a reaped child, if any, and whether there
  are children.  \<open>account\<close> is what \<^verbatim>\<open>wait\<close> and \<^verbatim>\<open>waitx\<close> do with the zombie before the copy.
\<close>

fun wait_scan ::
  "policy \<Rightarrow> (nat \<Rightarrow> 'z kstate_scheme \<Rightarrow> 'z kstate_scheme) \<Rightarrow> nat \<Rightarrow> uint64 \<Rightarrow> nat list \<Rightarrow> bool \<Rightarrow>
   'z kstate_scheme \<Rightarrow> ('z kstate_scheme, (nat \<times> int) option \<times> bool) outcome" where
  "wait_scan pol account p addr [] havekids s = Ret (None, havekids) s"
| "wait_scan pol account p addr (pp # pps) havekids s =
     (if p_parent (procs s pp) = Some p then
        bnd (acquire (L_proc pp) s) (\<lambda>_ s.
          if p_state (procs s pp) = ZOMBIE then
            let s = account pp s; pid = p_pid (procs s pp) in
            bnd (if addr \<noteq> 0 then copyout_obj (p_pagetable (procs s p)) addr (int_bytes (p_xstate (procs s pp))) s
                 else Ret 0 s) (\<lambda>r s.
              if r < 0 then
                bnd (release (L_proc pp) s) (\<lambda>_ s. bnd (release L_wait s) (\<lambda>_ s. Ret (Some (pp, -1), True) s))
              else
                bnd (freeproc pol pp s) (\<lambda>_ s.
                bnd (release (L_proc pp) s) (\<lambda>_ s. bnd (release L_wait s) (\<lambda>_ s. Ret (Some (pp, pid), True) s))))
          else bnd (release (L_proc pp) s) (\<lambda>_ s. wait_scan pol account p addr pps True s))
      else wait_scan pol account p addr pps havekids s)"

text \<open>\<^verbatim>\<open>wait\<close> adds the child's system-call counters to the parent's.\<close>

definition wait_account :: "nat \<Rightarrow> nat \<Rightarrow> 'z kstate_scheme \<Rightarrow> 'z kstate_scheme" where
  "wait_account p pp s =
     upd_proc p (\<lambda>x. x\<lparr>p_sysCounter := \<lambda>i. if i < 32 then p_sysCounter x i + p_sysCounter (procs s pp) i
       else p_sysCounter x i\<rparr>) s"

definition wait_loop :: "policy \<Rightarrow> nat \<Rightarrow> uint64 \<Rightarrow> 'z kstate_scheme \<Rightarrow> ('z kstate_scheme, int) outcome" where
  "wait_loop pol p addr s =
     bnd (wait_scan pol (wait_account p) p addr [0..<NPROC] False s) (\<lambda>(r, havekids) s.
       case r of Some (_, pid) \<Rightarrow> Ret pid s
       | None \<Rightarrow>
         if \<not> havekids then bnd (release L_wait s) (\<lambda>_ s. Ret (-1) s)
         else bnd (killed p s) (\<lambda>k s.
           if k \<noteq> 0 then bnd (release L_wait s) (\<lambda>_ s. Ret (-1) s)
           else bnd (sleep (C_proc p) L_wait s) (\<lambda>_ s. Ret (-1) s)))"

definition wait :: "policy \<Rightarrow> uint64 \<Rightarrow> 'z kstate_scheme \<Rightarrow> ('z kstate_scheme, int) outcome" where
  "wait pol addr s =
     with_myproc (\<lambda>p s. bnd (acquire L_wait s) (\<lambda>_ s. wait_loop pol p addr s)) s"

text \<open>After the sleep the loop starts over.\<close>

definition wait_resume ::
  "policy \<Rightarrow> nat \<Rightarrow> bool \<Rightarrow> uint64 \<Rightarrow> 'z kstate_scheme \<Rightarrow> ('z kstate_scheme, int) outcome" where
  "wait_resume pol p saved addr s =
     bnd (sleep_resume p saved L_wait s) (\<lambda>_ s. wait_loop pol p addr s)"

text \<open>\<^verbatim>\<open>waitx\<close> also returns the waiting and running time of the child (\<^verbatim>\<open>*wtime\<close>, \<^verbatim>\<open>*rtime\<close>).\<close>

definition waitx_times :: "nat \<Rightarrow> 'z kproc_scheme \<Rightarrow> uint \<times> uint" where
  "waitx_times pp s =
     (let x = procs s pp in (p_etime x - p_ctime x - p_rtime x, p_rtime x))"

definition waitx_loop ::
  "policy \<Rightarrow> nat \<Rightarrow> uint64 \<Rightarrow> 'z kstate_scheme \<Rightarrow> ('z kstate_scheme, int \<times> (uint \<times> uint) option) outcome" where
  "waitx_loop pol p addr s =
     bnd (wait_scan pol (\<lambda>pp s. s) p addr [0..<NPROC] False s) (\<lambda>(r, havekids) s'.
       case r of Some (pp, pid) \<Rightarrow> Ret (pid, Some (waitx_times pp s)) s'
       | None \<Rightarrow>
         if \<not> havekids \<or> p_killed (procs s' p) \<noteq> 0
         then bnd (release L_wait s') (\<lambda>_ s. Ret (-1, None) s)
         else bnd (sleep (C_proc p) L_wait s') (\<lambda>_ s. Ret (-1, None) s))"

definition waitx ::
  "policy \<Rightarrow> uint64 \<Rightarrow> 'z kstate_scheme \<Rightarrow> ('z kstate_scheme, int \<times> (uint \<times> uint) option) outcome" where
  "waitx pol addr s =
     with_myproc (\<lambda>p s. bnd (acquire L_wait s) (\<lambda>_ s. waitx_loop pol p addr s)) s"

definition waitx_resume ::
  "policy \<Rightarrow> nat \<Rightarrow> bool \<Rightarrow> uint64 \<Rightarrow> 'z kstate_scheme \<Rightarrow> ('z kstate_scheme, int \<times> (uint \<times> uint) option) outcome" where
  "waitx_resume pol p saved addr s =
     bnd (sleep_resume p saved L_wait s) (\<lambda>_ s. waitx_loop pol p addr s)"

section \<open>Copying to and from a process or the kernel\<close>

text \<open>
  The destination of \<^verbatim>\<open>either_copyout\<close>: a user address, an address in kernel memory, or a
  variable of the caller, which receives the bytes as the result of the caller's own
  definition.  Likewise the source of \<^verbatim>\<open>either_copyin\<close>.
\<close>

datatype cdest = User_dst uint64 | Kernel_dst uint64 | Local_dst

datatype csrc = User_src uint64 | Kernel_src uint64 | Local_src "byte list"

fun either_copyout :: "cdest \<Rightarrow> byte list \<Rightarrow> 'z kstate_scheme \<Rightarrow> ('z kstate_scheme, int) outcome" where
  "either_copyout (User_dst dst) bs s =
     with_myproc (\<lambda>p s. copyout_obj (p_pagetable (procs s p)) dst bs s) s"
| "either_copyout (Kernel_dst dst) bs s =
     bnd (myproc s) (\<lambda>_ s. Ret 0 (s\<lparr>mem := write_bytes dst bs (mem s)\<rparr>))"
| "either_copyout Local_dst bs s = bnd (myproc s) (\<lambda>_ s. Ret 0 s)"

fun either_copyin :: "csrc \<Rightarrow> nat \<Rightarrow> 'z kstate_scheme \<Rightarrow> ('z kstate_scheme, int \<times> byte list) outcome" where
  "either_copyin (User_src src) n s =
     with_myproc (\<lambda>p s. copyin_obj (p_pagetable (procs s p)) src n s) s"
| "either_copyin (Kernel_src src) n s = bnd (myproc s) (\<lambda>_ s. Ret (0, bytes (mem s) src n) s)"
| "either_copyin (Local_src bs) n s = bnd (myproc s) (\<lambda>_ s. Ret (0, take n bs) s)"

text \<open>The place \<open>k\<close> bytes further.\<close>

fun dst_add :: "cdest \<Rightarrow> nat \<Rightarrow> cdest" where
  "dst_add (User_dst a) k = User_dst (a + of_nat k)"
| "dst_add (Kernel_dst a) k = Kernel_dst (a + of_nat k)"
| "dst_add Local_dst k = Local_dst"

fun src_add :: "csrc \<Rightarrow> nat \<Rightarrow> csrc" where
  "src_add (User_src a) k = User_src (a + of_nat k)"
| "src_add (Kernel_src a) k = Kernel_src (a + of_nat k)"
| "src_add (Local_src bs) k = Local_src (drop k bs)"

end
