(* ===== verification/Sleeplock.thy ===== *)
theory Sleeplock
  imports Procs
begin

text \<open>
  Sleep locks, \<^verbatim>\<open>kernel/sleeplock.c\<close>.  The inner spin lock of a sleep lock is a lock of the
  machine (\<open>L_buf\<close>, \<open>L_inode\<close>); the rest of \<^verbatim>\<open>struct sleeplock\<close> is in the field
  \<open>sleeplocks\<close>.  An \<open>acquiresleep\<close> that has to wait ends in \<open>Switch\<close>; the loop goes on in
  \<open>acquiresleep_resume\<close>.
\<close>

datatype slid = SL_buf nat | SL_inode nat

record sleeplock =
  sl_locked :: bool
  sl_name :: string
  sl_pid :: int

record sstate = kstate +
  sleeplocks :: "slid \<Rightarrow> sleeplock"

primrec sl_lk :: "slid \<Rightarrow> lockid" where
  "sl_lk (SL_buf i) = L_buf i"
| "sl_lk (SL_inode i) = L_inode i"

primrec sl_chan :: "slid \<Rightarrow> chan" where
  "sl_chan (SL_buf i) = C_buflock i"
| "sl_chan (SL_inode i) = C_inodelock i"

definition upd_sl :: "slid \<Rightarrow> (sleeplock \<Rightarrow> sleeplock) \<Rightarrow> 'z sstate_scheme \<Rightarrow> 'z sstate_scheme" where
  "upd_sl l f s = s\<lparr>sleeplocks := (sleeplocks s)(l := f (sleeplocks s l))\<rparr>"

definition initsleeplock :: "slid \<Rightarrow> string \<Rightarrow> 'z sstate_scheme \<Rightarrow> 'z sstate_scheme" where
  "initsleeplock l nm s =
     upd_sl l (\<lambda>x. x\<lparr>sl_name := nm, sl_locked := False, sl_pid := 0\<rparr>) (initlock (sl_lk l) ''sleep lock'' s)"

text \<open>The loop of \<open>acquiresleep\<close> and what follows it, with the inner lock held.\<close>

definition acquiresleep_loop :: "slid \<Rightarrow> 'z sstate_scheme \<Rightarrow> ('z sstate_scheme, unit) outcome" where
  "acquiresleep_loop l s =
     (if sl_locked (sleeplocks s l) then sleep (sl_chan l) (sl_lk l) s
      else
        let s = upd_sl l (\<lambda>x. x\<lparr>sl_locked := True\<rparr>) s in
        with_myproc (\<lambda>p s.
          release (sl_lk l) (upd_sl l (\<lambda>x. x\<lparr>sl_pid := p_pid (procs s p)\<rparr>) s)) s)"

definition acquiresleep :: "slid \<Rightarrow> 'z sstate_scheme \<Rightarrow> ('z sstate_scheme, unit) outcome" where
  "acquiresleep l s = bnd (acquire (sl_lk l) s) (\<lambda>_ s. acquiresleep_loop l s)"

definition acquiresleep_resume ::
  "nat \<Rightarrow> bool \<Rightarrow> slid \<Rightarrow> 'z sstate_scheme \<Rightarrow> ('z sstate_scheme, unit) outcome" where
  "acquiresleep_resume p saved l s =
     bnd (sleep_resume p saved (sl_lk l) s) (\<lambda>_ s. acquiresleep_loop l s)"

definition releasesleep :: "slid \<Rightarrow> 'z sstate_scheme \<Rightarrow> ('z sstate_scheme, unit) outcome" where
  "releasesleep l s =
     bnd (acquire (sl_lk l) s) (\<lambda>_ s.
     bnd (wakeup (Some (sl_chan l)) (upd_sl l (\<lambda>x. x\<lparr>sl_locked := False, sl_pid := 0\<rparr>) s)) (\<lambda>_ s.
     release (sl_lk l) s))"

definition holdingsleep :: "slid \<Rightarrow> 'z sstate_scheme \<Rightarrow> ('z sstate_scheme, bool) outcome" where
  "holdingsleep l s =
     bnd (acquire (sl_lk l) s) (\<lambda>_ s.
     bnd (if sl_locked (sleeplocks s l)
          then with_myproc (\<lambda>p s. Ret (sl_pid (sleeplocks s l) = p_pid (procs s p)) s) s
          else Ret False s) (\<lambda>r s.
     bnd (release (sl_lk l) s) (\<lambda>_ s. Ret r s)))"

section \<open>One thread at a time\<close>

text \<open>
  The situation of a process inside a system call that holds no spin lock: it is the current
  process of its CPU, every spin lock is free, and the saved interrupt flag is up to date (it is
  as soon as one \<open>push_off\<close>/\<open>pop_off\<close> pair has run since interrupts were last switched).
  In such a state matched pairs of \<open>acquire\<close> and \<open>release\<close> leave no trace at all.
\<close>

definition calm :: "nat \<Rightarrow> 'z kproc_scheme \<Rightarrow> bool" where
  "calm p s \<longleftrightarrow> noff (mycpu s) = 0 \<and> intena (mycpu s) = intr_get s \<and> cpu_proc (mycpu s) = Some p \<and>
     p < NPROC \<and> (\<forall>l. lock_free l s)"

lemma calmD:
  assumes "calm p s"
  shows "cpu_ok s" "noff (mycpu s) = 0" "cpu_proc (mycpu s) = Some p" "p < NPROC" "lock_free l s"
    "touch s = s" "proc_locks_free s"
proof -
  show "cpu_ok s" "noff (mycpu s) = 0" "cpu_proc (mycpu s) = Some p" "p < NPROC" "lock_free l s" "proc_locks_free s"
    using assms by (simp_all add: calm_def cpu_ok_def proc_locks_free_def)
  have i: "intr_get s = intena (cpus s (hart s))" using assms by (simp add: calm_def mycpu_def cpuid_def)
  have e: "(cpus s (hart s))\<lparr>intena := intr_get s\<rparr> = cpus s (hart s)" unfolding i by simp
  have n: "noff (cpus s (hart s)) = 0" using assms by (simp add: calm_def mycpu_def cpuid_def)
  show "touch s = s" by (simp add: touch_def n e)
qed

lemma calm_cong: "mach t = mach s \<Longrightarrow> calm p t = calm p s"
  by (simp add: mach_def calm_def machine_defs lock_free_def)

text \<open>Waking the sleepers of a channel, seen from process \<open>p\<close>.\<close>

definition woken :: "chan \<Rightarrow> nat \<Rightarrow> 'z kproc_scheme \<Rightarrow> 'z kproc_scheme" where
  "woken ch p s = map_procs NPROC (\<lambda>q x.
     if q \<noteq> p \<and> p_state x = SLEEPING \<and> p_chan x = Some ch then x\<lparr>p_state := RUNNABLE\<rparr> else x) s"

lemma woken_mach [simp]: "mach (woken ch p s) = mach s"
  by (simp add: woken_def map_procs_def mach_def)

text \<open>The bracket law in a calm state.\<close>

lemma calm_acquire: "calm p s \<Longrightarrow> acquire l s = Ret () (acq l s)"
  by (simp add: acquire_eq calmD)

lemma calm_release:
  assumes "calm p s" "mach t = mach (acq l s)"
  shows "release l t = Ret () (t\<lparr>csr := csr s, cpus := cpus s, locks := locks s\<rparr>)"
  using release_acq [OF calmD(1,5) [OF assms(1)], of t l] assms calmD(6) [OF assms(1)]
  by (simp add: mach_def)

lemma calm_inside:
  assumes "calm p s" "mach t = mach (acq l s)"
  shows "cpu_ok t" "touch t = t" "cpu_proc (mycpu t) = Some p" "l' \<noteq> l \<Longrightarrow> lock_free l' t" "noff (mycpu t) = 1"
proof -
  note c = mach_cong [OF assms(2)]
  show 1: "cpu_ok t" "cpu_proc (mycpu t) = Some p" "l' \<noteq> l \<Longrightarrow> lock_free l' t" "noff (mycpu t) = 1"
    using calmD(1-5) [OF assms(1)] by (simp_all add: c cpu_ok_acq)
  show "touch t = t" using 1 by (intro touch_nested) simp_all
qed

lemma calm_wakeup:
  assumes "calm p s" "mach t = mach (acq l s)" "\<And>q. l \<noteq> L_proc q"
  shows "wakeup (Some ch) t = Ret () (woken ch p t)"
proof -
  note i = calm_inside [OF assms(1,2)]
  have "proc_locks_free t" unfolding proc_locks_free_def using i(4) assms(3) by metis
  then show ?thesis using wakeup_eq [OF i(1)] i(2,3) by (simp add: woken_def eq_commute)
qed

lemma acq_undo: "(acq l s)\<lparr>csr := csr s, cpus := cpus s, locks := locks s\<rparr> = s"
  by (simp add: acq_def pushed_def)

lemma calm_release_same: "calm p s \<Longrightarrow> release l (acq l s) = Ret () s"
  by (simp add: calm_release acq_undo)

lemma map_procs_kfields [simp]:
  fixes s :: "'z kstate_scheme"
  shows "mem (map_procs n g s) = mem s" "freelist (map_procs n g s) = freelist s"
    "kend (map_procs n g s) = kend s" "kernel_pagetable (map_procs n g s) = kernel_pagetable s"
  by (simp_all add: map_procs_def)

lemma procs_woken_self [simp]: "procs (woken ch p s) p = procs s p"
  by (simp add: woken_def map_procs_def)

text \<open>
  What may change of the kernel state between two calm points of a process: sleepers may have
  been woken up, nothing else of the process table, the memory or the machine.
\<close>

definition others :: "nat \<Rightarrow> 'z kstate_scheme \<Rightarrow> 'z kstate_scheme \<Rightarrow> bool" where
  "others p s t \<longleftrightarrow> kstate.truncate t = kstate.truncate (s\<lparr>procs := procs t\<rparr>) \<and> procs t p = procs s p \<and>
     (\<forall>q. procs t q = procs s q \<or>
        p_state (procs s q) = SLEEPING \<and> procs t q = (procs s q)\<lparr>p_state := RUNNABLE\<rparr>)"

lemma others_refl [simp]: "others p s s"
  by (simp add: others_def)

lemma others_trans: "others p s t \<Longrightarrow> others p t u \<Longrightarrow> others p s u"
proof -
  assume a: "others p s t" "others p t u"
  have "procs u q = procs s q \<or> p_state (procs s q) = SLEEPING \<and> procs u q = (procs s q)\<lparr>p_state := RUNNABLE\<rparr>" for q
  proof -
    have "procs t q = procs s q \<or> p_state (procs s q) = SLEEPING \<and> procs t q = (procs s q)\<lparr>p_state := RUNNABLE\<rparr>"
      "procs u q = procs t q \<or> p_state (procs t q) = SLEEPING \<and> procs u q = (procs t q)\<lparr>p_state := RUNNABLE\<rparr>"
      using a by (simp_all add: others_def)
    then show ?thesis by auto
  qed
  then show ?thesis using a by (simp add: others_def kstate.defs)
qed

lemma others_fields:
  assumes "others p s t"
  shows "mach t = mach s" "procs t p = procs s p" "mem t = mem s" "freelist t = freelist s" "kend t = kend s"
    "kernel_pagetable t = kernel_pagetable s" "initproc t = initproc s" "nextpid t = nextpid s" "ticks t = ticks s"
  using assms by (simp_all add: others_def kstate.defs mach_def)

lemma others_calm: "others p s t \<Longrightarrow> calm p t = calm p s"
  by (rule calm_cong) (simp add: others_fields)

lemma others_woken [simp]: "others p s (woken ch p s)"
  unfolding others_def kstate.defs by (auto simp: woken_def map_procs_def)

section \<open>The operations without contention\<close>

definition mypid :: "nat \<Rightarrow> 'z kproc_scheme \<Rightarrow> int" where
  "mypid p s = p_pid (procs s p)"

definition set_sl :: "slid \<Rightarrow> bool \<Rightarrow> int \<Rightarrow> 'z sstate_scheme \<Rightarrow> 'z sstate_scheme" where
  "set_sl l b i s = upd_sl l (\<lambda>x. x\<lparr>sl_locked := b, sl_pid := i\<rparr>) s"

lemma upd_sl_mach [simp]: "mach (upd_sl l f s) = mach s" "mach (set_sl l b i s) = mach s"
  by (simp_all add: upd_sl_def set_sl_def mach_def)

lemma others_set_sl [simp]: "others p s (set_sl l b i s)"
  by (simp add: others_def set_sl_def upd_sl_def kstate.defs)

lemma sleeplocks_acq [simp]: "sleeplocks (acq l s) = sleeplocks s"
  by (simp add: acq_def pushed_def)

lemma holdingsleep_eq:
  assumes "calm p s"
  shows "holdingsleep l s = Ret (sl_locked (sleeplocks s l) \<and> sl_pid (sleeplocks s l) = mypid p s) s"
  using calm_inside [OF assms refl, of "sl_lk l"] calm_release_same [OF assms]
  by (simp add: holdingsleep_def calm_acquire [OF assms] with_myproc_eq mypid_def)

lemma acquiresleep_eq:
  assumes "calm p s" "\<not> sl_locked (sleeplocks s l)"
  shows "acquiresleep l s = Ret () (set_sl l True (mypid p s) s)"
proof -
  let ?a = "acq (sl_lk l) s" and ?f = "\<lambda>x. x\<lparr>sl_locked := True\<rparr>"
  let ?u = "upd_sl l ?f ?a"
  have "mach ?u = mach ?a" by simp
  note i = calm_inside [OF assms(1) this]
  have "mach (upd_sl l (\<lambda>x. x\<lparr>sl_pid := p_pid (procs ?u p)\<rparr>) ?u) = mach ?a" by simp
  note rel = calm_release [OF assms(1) this]
  have "acquiresleep l s = release (sl_lk l) (upd_sl l (\<lambda>x. x\<lparr>sl_pid := p_pid (procs ?u p)\<rparr>) ?u)"
    using assms(2) i by (simp add: acquiresleep_def acquiresleep_loop_def calm_acquire [OF assms(1)] with_myproc_eq Let_def)
  also have "\<dots> = Ret () (set_sl l True (mypid p s) s)"
    unfolding rel by (simp add: set_sl_def upd_sl_def acq_def pushed_def mypid_def)
  finally show ?thesis .
qed

lemma releasesleep_eq:
  assumes "calm p s"
  shows "releasesleep l s = Ret () (woken (sl_chan l) p (set_sl l False 0 s))"
proof -
  let ?a = "acq (sl_lk l) s"
  let ?u = "upd_sl l (\<lambda>x. x\<lparr>sl_locked := False, sl_pid := 0\<rparr>) ?a"
  have "mach ?u = mach ?a" "\<And>q. sl_lk l \<noteq> L_proc q" by (simp_all, cases l, simp_all)
  note w = calm_wakeup [OF assms this]
  have "mach (woken (sl_chan l) p ?u) = mach ?a" by simp
  note rel = calm_release [OF assms this]
  have "releasesleep l s = release (sl_lk l) (woken (sl_chan l) p ?u)"
    by (simp add: releasesleep_def calm_acquire [OF assms] w)
  also have "\<dots> = Ret () (woken (sl_chan l) p (set_sl l False 0 s))"
    unfolding rel by (simp add: set_sl_def upd_sl_def acq_def pushed_def woken_def map_procs_def cong: if_cong)
  finally show ?thesis .
qed

lemmas sleeplock_eqs = holdingsleep_eq acquiresleep_eq releasesleep_eq

end
