(* ===== verification/Bio.thy ===== *)
theory Bio
  imports Sleeplock
begin

text \<open>
  The block device as the file system sees it and the buffer cache, \<^verbatim>\<open>kernel/bio.c\<close>.

  A block is a function on the 1024 offsets of a block.  The disk is a map from block numbers to
  blocks together with the sequence of writes it has received, so that a crash can be placed
  between any two of them.  \<open>disk_transfer\<close> is what one complete \<open>virtio_disk_rw\<close> does for its
  caller; the driver itself is in theory \<open>Virtio\<close>.

  The buffers are indexed \<open>0..29\<close>, the sentinel \<^verbatim>\<open>bcache.head\<close> is index 30, and the
  \<^verbatim>\<open>prev\<close>/\<^verbatim>\<open>next\<close> pointers are indices.
\<close>

section \<open>Blocks\<close>

type_synonym block = "10 word \<Rightarrow> byte"

definition BSIZE :: nat where "BSIZE = 1024"

definition as_mem :: "block \<Rightarrow> mem" where
  "as_mem b = (\<lambda>a. b (ucast a))"

definition of_mem :: "mem \<Rightarrow> block" where
  "of_mem m = (\<lambda>i. m (ucast i))"

text \<open>Little-endian fields of a block, at a byte offset.\<close>

definition get_le :: "nat \<Rightarrow> block \<Rightarrow> nat \<Rightarrow> 'a::len word" where
  "get_le k b off = load_le k (as_mem b) (of_nat off)"

definition put_le :: "nat \<Rightarrow> nat \<Rightarrow> 'a::len word \<Rightarrow> block \<Rightarrow> block" where
  "put_le k off v b = of_mem (store_le k (of_nat off) v (as_mem b))"

text \<open>A run of bytes inside a block.\<close>

definition get_bytes :: "block \<Rightarrow> nat \<Rightarrow> nat \<Rightarrow> byte list" where
  "get_bytes b off n = map (\<lambda>i. b (of_nat (off + i))) [0..<n]"

definition put_bytes :: "nat \<Rightarrow> byte list \<Rightarrow> block \<Rightarrow> block" where
  "put_bytes off bs b = (\<lambda>i. if off \<le> unat i \<and> unat i < off + length bs then bs ! (unat i - off) else b i)"

lemma ucast_10_64 [simp]: "ucast (ucast (x :: 10 word) :: uint64) = x"
  by (rule bit_word_eqI) (simp add: bit_simps)

lemma ucast_64_10 [simp]: "(ucast (of_nat n :: uint64) :: 10 word) = of_nat n"
  by (rule bit_word_eqI) (simp add: bit_simps)

lemma ucast_add_64_10 [simp]: "(ucast (of_nat m + of_nat n :: uint64) :: 10 word) = of_nat m + of_nat n"
  using ucast_64_10 [of "m + n"] by simp

lemma of_as_mem [simp]: "of_mem (as_mem b) = b"
  by (simp add: of_mem_def as_mem_def fun_eq_iff)

lemma unat10_less: "unat (j :: 10 word) < 1024"
  using unsigned_less [where 'a = nat and w = j] by simp

lemma unat10_of_nat: "n < 1024 \<Longrightarrow> unat (of_nat n :: 10 word) = n"
  by (simp add: unat_of_nat take_bit_nat_eq_self)

lemma unat_ucast_10_64: "unat (ucast (j :: 10 word) :: uint64) = unat j"
  using unat10_less [of j] by (simp add: unsigned_ucast_eq take_bit_nat_eq_self)

lemma ucast_10_of_nat: "n < 1024 \<Longrightarrow> (ucast (of_nat n :: 10 word) :: uint64) = of_nat n"
  using unat_ucast_10_64 [of "of_nat n"] unat10_of_nat [of n] unat_of_nat_small [of n] by (simp add: word_unat_eq_iff)

lemma as_mem_nth: "n < 1024 \<Longrightarrow> as_mem b (of_nat n) = b (of_nat n)"
  by (simp add: as_mem_def)

lemma get_le_load: "off + k \<le> 1024 \<Longrightarrow> (\<And>i. i < k \<Longrightarrow> m (of_nat (off + i)) = b (of_nat (off + i))) \<Longrightarrow>
    get_le k b off = load_le k m (of_nat off)"
  unfolding get_le_def by (rule load_le_cong) (simp add: as_mem_def)

lemma get_le_cong:
  assumes "\<And>i. i < k \<Longrightarrow> b (of_nat (off + i)) = b' (of_nat (off + i))"
  shows "get_le k b off = get_le k b' off"
  unfolding get_le_def by (rule load_le_cong) (use assms in \<open>simp add: as_mem_def\<close>)

lemma put_le_nth:
  assumes "off + k \<le> 1024"
  shows "put_le k off v b j = (if off \<le> unat j \<and> unat j < off + k then ucast (drop_bit (8 * (unat j - off)) v) else b j)"
proof -
  have k: "k \<le> 2 ^ 64" using assms by simp
  have u: "unat (ucast j :: uint64) = unat j" by (rule unat_ucast_10_64)
  have o: "unat (of_nat off :: uint64) = off" using assms by (intro unat_of_nat_small) simp
  have "in_range (ucast j) (of_nat off) k \<longleftrightarrow> off \<le> unat j \<and> unat j < off + k"
  proof (cases "off \<le> unat j")
    case True
    then have "(of_nat off :: uint64) \<le> ucast j" by (simp add: word_le_nat_alt u o)
    then have "unat (ucast j - of_nat off :: uint64) = unat j - off" by (simp add: unat_sub u o)
    with True show ?thesis by (auto simp: in_range_def)
  next
    case False
    then have "unat (ucast j - of_nat off :: uint64) = 2 ^ 64 + unat j - off"
      using u o assms by (simp add: unat_sub_if_size word_size)
    with False assms show ?thesis by (simp add: in_range_def)
  qed
  moreover have "unat (ucast j - of_nat off :: uint64) = unat j - off" if "off \<le> unat j"
    using that by (simp add: unat_sub u o word_le_nat_alt)
  ultimately show ?thesis by (simp add: put_le_def of_mem_def store_le_eq [OF k] as_mem_def)
qed

lemma get_put_le:
  assumes "off + k \<le> 1024" "LENGTH('a::len) = 8 * k"
  shows "get_le k (put_le k off v b) off = (v :: 'a word)"
proof -
  have "get_le k (put_le k off v b) off = (load_le k (store_le k (of_nat off) v (as_mem b)) (of_nat off) :: 'a word)"
  proof (rule get_le_load [OF assms(1)])
    fix i assume "i < k"
    then have "(ucast (of_nat (off + i) :: 10 word) :: uint64) = of_nat (off + i)"
      using assms by (intro ucast_10_of_nat) simp
    then show "store_le k (of_nat off) v (as_mem b) (of_nat (off + i)) = put_le k off v b (of_nat (off + i))"
      by (simp add: put_le_def of_mem_def del: of_nat_add)
  qed
  then show ?thesis using load_le_store_le [where k = k and v = v and a = "of_nat off" and m = "as_mem b"] assms by simp
qed

lemma get_put_le_other:
  assumes "off + k \<le> 1024" "off' + k' \<le> 1024" "off + k \<le> off' \<or> off' + k' \<le> off"
  shows "get_le k' (put_le k off v b) off' = get_le k' b off'"
proof (rule get_le_cong)
  fix i assume "i < k'"
  then have "unat (of_nat (off' + i) :: 10 word) = off' + i" using assms by (intro unat10_of_nat) simp
  then show "put_le k off v b (of_nat (off' + i)) = b (of_nat (off' + i))"
    using assms \<open>i < k'\<close> by (auto simp: put_le_nth)
qed

section \<open>State\<close>

definition MAXOPBLOCKS :: nat where "MAXOPBLOCKS = 10"
definition LOGSIZE :: nat where "LOGSIZE = MAXOPBLOCKS * 3"
definition NBUF :: nat where "NBUF = MAXOPBLOCKS * 3"

record buf =
  b_valid :: bool
  b_disk :: bool
  b_dev :: uint
  b_blockno :: uint
  b_refcnt :: uint
  b_prev :: nat
  b_next :: nat
  b_data :: block

record bstate = sstate +
  bufs :: "nat \<Rightarrow> buf"
  disk :: "nat \<Rightarrow> block"
  dtrace :: "(nat \<times> block) list"

definition upd_buf :: "nat \<Rightarrow> (buf \<Rightarrow> buf) \<Rightarrow> 'z bstate_scheme \<Rightarrow> 'z bstate_scheme" where
  "upd_buf i f s = s\<lparr>bufs := (bufs s)(i := f (bufs s i))\<rparr>"

definition set_data :: "nat \<Rightarrow> block \<Rightarrow> 'z bstate_scheme \<Rightarrow> 'z bstate_scheme" where
  "set_data i d s = upd_buf i (\<lambda>b. b\<lparr>b_data := d\<rparr>) s"

text \<open>One transfer between a buffer and the disk.\<close>

definition disk_transfer :: "nat \<Rightarrow> bool \<Rightarrow> 'z bstate_scheme \<Rightarrow> 'z bstate_scheme" where
  "disk_transfer i write s =
     (let b = bufs s i; n = unat (b_blockno b) in
      if write then s\<lparr>disk := (disk s)(n := b_data b), dtrace := dtrace s @ [(n, b_data b)]\<rparr>
      else upd_buf i (\<lambda>b. b\<lparr>b_data := disk s n\<rparr>) s)"

section \<open>The buffer list\<close>

text \<open>Linking a buffer in behind the sentinel, and taking one out, as the code does it.\<close>

definition link_front :: "nat \<Rightarrow> (nat \<Rightarrow> buf) \<Rightarrow> nat \<Rightarrow> buf" where
  "link_front b bs =
     (let bs = bs(b := (bs b)\<lparr>b_next := b_next (bs NBUF)\<rparr>);
          bs = bs(b := (bs b)\<lparr>b_prev := NBUF\<rparr>);
          n = b_next (bs NBUF);
          bs = bs(n := (bs n)\<lparr>b_prev := b\<rparr>)
      in bs(NBUF := (bs NBUF)\<lparr>b_next := b\<rparr>))"

definition unlink :: "nat \<Rightarrow> (nat \<Rightarrow> buf) \<Rightarrow> nat \<Rightarrow> buf" where
  "unlink b bs =
     (let n = b_next (bs b);
          bs = bs(n := (bs n)\<lparr>b_prev := b_prev (bs b)\<rparr>);
          p = b_prev (bs b)
      in bs(p := (bs p)\<lparr>b_next := b_next (bs b)\<rparr>))"

definition binit :: "'z bstate_scheme \<Rightarrow> ('z bstate_scheme, unit) outcome" where
  "binit s =
     (let s = initlock L_bcache ''bcache'' s;
          s = upd_buf NBUF (\<lambda>b. b\<lparr>b_prev := NBUF\<rparr>) s;
          s = upd_buf NBUF (\<lambda>b. b\<lparr>b_next := NBUF\<rparr>) s
      in for_each [0..<NBUF] (\<lambda>b s.
           Ret () (initsleeplock (SL_buf b) ''buffer'' (s\<lparr>bufs := link_front b (bufs s)\<rparr>))) s)"

text \<open>
  The two list walks of \<open>bget\<close>, along \<^verbatim>\<open>next\<close> and along \<^verbatim>\<open>prev\<close>.  The fuel bounds the
  number of steps; \<open>None\<close> means that the walk has not come back to the sentinel by then.
\<close>

fun scan :: "nat \<Rightarrow> (buf \<Rightarrow> nat) \<Rightarrow> (buf \<Rightarrow> bool) \<Rightarrow> (nat \<Rightarrow> buf) \<Rightarrow> nat \<Rightarrow> nat option option" where
  "scan fuel lnk P bs i =
     (if i = NBUF then Some None
      else if P (bs i) then Some (Some i)
      else case fuel of 0 \<Rightarrow> None | Suc k \<Rightarrow> scan k lnk P bs (lnk (bs i)))"

definition bget :: "uint \<Rightarrow> uint \<Rightarrow> 'z bstate_scheme \<Rightarrow> ('z bstate_scheme, nat) outcome" where
  "bget dev blockno s =
     bnd (acquire L_bcache s) (\<lambda>_ s.
     case scan NBUF b_next (\<lambda>b. b_dev b = dev \<and> b_blockno b = blockno) (bufs s) (b_next (bufs s NBUF)) of
       None \<Rightarrow> Spin
     | Some (Some b) \<Rightarrow>
         bnd (release L_bcache (upd_buf b (\<lambda>x. x\<lparr>b_refcnt := b_refcnt x + 1\<rparr>) s)) (\<lambda>_ s.
         bnd (acquiresleep (SL_buf b) s) (\<lambda>_ s. Ret b s))
     | Some None \<Rightarrow>
         (case scan NBUF b_prev (\<lambda>b. b_refcnt b = 0) (bufs s) (b_prev (bufs s NBUF)) of
            None \<Rightarrow> Spin
          | Some None \<Rightarrow> Panic ''bget: no buffers''
          | Some (Some b) \<Rightarrow>
              bnd (release L_bcache
                (upd_buf b (\<lambda>x. x\<lparr>b_dev := dev, b_blockno := blockno, b_valid := False, b_refcnt := 1\<rparr>) s)) (\<lambda>_ s.
              bnd (acquiresleep (SL_buf b) s) (\<lambda>_ s. Ret b s))))"

definition bread :: "uint \<Rightarrow> uint \<Rightarrow> 'z bstate_scheme \<Rightarrow> ('z bstate_scheme, nat) outcome" where
  "bread dev blockno s =
     bnd (bget dev blockno s) (\<lambda>b s.
       if \<not> b_valid (bufs s b)
       then Ret b (upd_buf b (\<lambda>x. x\<lparr>b_valid := True\<rparr>) (disk_transfer b False s))
       else Ret b s)"

definition bwrite :: "nat \<Rightarrow> 'z bstate_scheme \<Rightarrow> ('z bstate_scheme, unit) outcome" where
  "bwrite b s =
     bnd (holdingsleep (SL_buf b) s) (\<lambda>h s.
       if \<not> h then Panic ''bwrite'' else Ret () (disk_transfer b True s))"

definition brelse :: "nat \<Rightarrow> 'z bstate_scheme \<Rightarrow> ('z bstate_scheme, unit) outcome" where
  "brelse b s =
     bnd (holdingsleep (SL_buf b) s) (\<lambda>h s.
       if \<not> h then Panic ''brelse''
       else
         bnd (releasesleep (SL_buf b) s) (\<lambda>_ s.
         bnd (acquire L_bcache s) (\<lambda>_ s.
           let s = upd_buf b (\<lambda>x. x\<lparr>b_refcnt := b_refcnt x - 1\<rparr>) s in
           release L_bcache
             (if b_refcnt (bufs s b) = 0 then s\<lparr>bufs := link_front b (unlink b (bufs s))\<rparr> else s))))"

definition bpin :: "nat \<Rightarrow> 'z bstate_scheme \<Rightarrow> ('z bstate_scheme, unit) outcome" where
  "bpin b s =
     bnd (acquire L_bcache s) (\<lambda>_ s.
     release L_bcache (upd_buf b (\<lambda>x. x\<lparr>b_refcnt := b_refcnt x + 1\<rparr>) s))"

definition bunpin :: "nat \<Rightarrow> 'z bstate_scheme \<Rightarrow> ('z bstate_scheme, unit) outcome" where
  "bunpin b s =
     bnd (acquire L_bcache s) (\<lambda>_ s.
     release L_bcache (upd_buf b (\<lambda>x. x\<lparr>b_refcnt := b_refcnt x - 1\<rparr>) s))"

section \<open>Doubly linked segments\<close>

text \<open>
  \<open>dseg bs a xs z\<close>: following \<^verbatim>\<open>next\<close> from \<open>a\<close> one meets exactly \<open>xs\<close> and then \<open>z\<close>, and
  the \<^verbatim>\<open>prev\<close> pointers lead back the same way.
\<close>

fun dseg :: "(nat \<Rightarrow> buf) \<Rightarrow> nat \<Rightarrow> nat list \<Rightarrow> nat \<Rightarrow> bool" where
  "dseg bs a [] z \<longleftrightarrow> b_next (bs a) = z \<and> b_prev (bs z) = a"
| "dseg bs a (x # xs) z \<longleftrightarrow> b_next (bs a) = x \<and> b_prev (bs x) = a \<and> dseg bs x xs z"

lemma dseg_append: "dseg bs a (xs @ y # ys) z \<longleftrightarrow> dseg bs a xs y \<and> dseg bs y ys z"
  by (induction xs arbitrary: a) auto

lemma dseg_cong:
  assumes "\<And>x. x \<in> set (a # xs) \<Longrightarrow> b_next (bs x) = b_next (bs' x)"
    and "\<And>x. x \<in> set (xs @ [z]) \<Longrightarrow> b_prev (bs x) = b_prev (bs' x)"
  shows "dseg bs a xs z = dseg bs' a xs z"
  using assms by (induction xs arbitrary: a) auto

text \<open>Redirecting the end of a segment to another node.\<close>

definition relink :: "nat \<Rightarrow> nat \<Rightarrow> (nat \<Rightarrow> buf) \<Rightarrow> nat \<Rightarrow> buf" where
  "relink p n bs = (let bs = bs(n := (bs n)\<lparr>b_prev := p\<rparr>) in bs(p := (bs p)\<lparr>b_next := n\<rparr>))"

lemma relink_fields [simp]:
  "b_next (relink p n bs x) = (if x = p then n else b_next (bs x))"
  "b_prev (relink p n bs x) = (if x = n then p else b_prev (bs x))"
  by (simp_all add: relink_def Let_def)

lemma dseg_relink:
  assumes "dseg bs a ys b" "distinct (a # ys)" "n \<notin> set ys"
  shows "dseg (relink (last (a # ys)) n bs) a ys n"
  using assms by (induction ys arbitrary: a) auto

lemma dseg_ends:
  "dseg bs a xs z \<Longrightarrow> b_next (bs a) = hd (xs @ [z]) \<and> b_prev (bs z) = last (a # xs)"
  by (induction xs arbitrary: a) auto

lemma dseg_unlink:
  assumes "dseg bs h (ys @ b # zs) h" "distinct (h # ys @ b # zs)"
  shows "dseg (unlink b bs) h (ys @ zs) h"
proof -
  let ?p = "last (h # ys)" and ?n = "hd (zs @ [h])"
  have seg: "dseg bs h ys b" "dseg bs b zs h" using assms(1) by (simp_all add: dseg_append)
  have ends: "b_next (bs b) = ?n" "b_prev (bs b) = ?p" using dseg_ends [OF seg(1)] dseg_ends [OF seg(2)] by simp_all
  have "?n \<noteq> b" using assms(2) by (cases zs) auto
  then have u: "unlink b bs = relink ?p ?n bs" by (simp add: unlink_def relink_def ends Let_def)
  have "?n \<notin> set ys" using assms(2) by (cases zs) auto
  then have 1: "dseg (relink ?p ?n bs) h ys ?n" using dseg_relink [OF seg(1)] assms(2) by simp
  show ?thesis
  proof (cases zs)
    case Nil
    with 1 u show ?thesis by simp
  next
    case (Cons n zs')
    have "?p \<in> set (h # ys)" by (rule last_in_set) simp
    then have "dseg (relink ?p ?n bs) n zs' h = dseg bs n zs' h"
      using assms(2) Cons by (intro dseg_cong) auto
    moreover have "dseg bs n zs' h" using seg(2) Cons by simp
    ultimately show ?thesis using 1 u Cons by (simp add: dseg_append)
  qed
qed

lemma link_front_fields:
  assumes "b \<noteq> NBUF"
  shows "b_next (link_front b bs x) = (if x = NBUF then b else if x = b then b_next (bs NBUF) else b_next (bs x))"
    "b_next (bs NBUF) \<noteq> b \<Longrightarrow>
     b_prev (link_front b bs x) = (if x = b_next (bs NBUF) then b else if x = b then NBUF else b_prev (bs x))"
  using assms by (auto simp: link_front_def Let_def)

lemma dseg_link_front:
  assumes "dseg bs NBUF xs NBUF" "b \<notin> set (NBUF # xs)" "distinct xs" "NBUF \<notin> set xs"
  shows "dseg (link_front b bs) NBUF (b # xs) NBUF"
proof -
  note e = dseg_ends [OF assms(1)]
  have b: "b \<noteq> NBUF" "b_next (bs NBUF) \<noteq> b" using assms(2) e by (cases xs; auto)+
  show ?thesis
  proof (cases xs)
    case Nil
    then show ?thesis using e b by (simp add: link_front_fields)
  next
    case (Cons x xs')
    have "dseg (link_front b bs) x xs' NBUF = dseg bs x xs' NBUF"
      using assms Cons b e by (intro dseg_cong) (auto simp: link_front_fields)
    then show ?thesis using assms Cons b e by (simp add: link_front_fields)
  qed
qed

text \<open>The list of the cache: all the buffers, each once, most recently used first.\<close>

definition lru :: "(nat \<Rightarrow> buf) \<Rightarrow> nat list \<Rightarrow> bool" where
  "lru bs xs \<longleftrightarrow> dseg bs NBUF xs NBUF \<and> distinct xs \<and> set xs = {..<NBUF}"

lemma lru_cong: "(\<And>x. b_next (bs' x) = b_next (bs x) \<and> b_prev (bs' x) = b_prev (bs x)) \<Longrightarrow> lru bs' xs = lru bs xs"
  unfolding lru_def using dseg_cong [of NBUF xs bs' bs NBUF] by simp

lemma lru_touch:
  assumes "lru bs xs" "b < NBUF"
  shows "lru (link_front b (unlink b bs)) (b # remove1 b xs)"
proof -
  obtain ys zs where s: "xs = ys @ b # zs" "b \<notin> set ys"
    using assms by (metis lru_def lessThan_iff split_list_first)
  have d: "distinct (NBUF # ys @ b # zs)" using assms s by (auto simp: lru_def)
  have "dseg (unlink b bs) NBUF (ys @ zs) NBUF" using dseg_unlink d assms(1) s by (simp add: lru_def)
  then have "dseg (link_front b (unlink b bs)) NBUF (b # ys @ zs) NBUF"
    using d by (intro dseg_link_front) auto
  moreover have "remove1 b xs = ys @ zs" using s by (simp add: remove1_append)
  ultimately show ?thesis using assms(1) d s by (auto simp: lru_def)
qed

lemma scan_next:
  assumes "dseg bs a xs NBUF" "NBUF \<notin> set xs" "length xs \<le> fuel"
  shows "scan fuel b_next P bs (b_next (bs a)) = Some (find (\<lambda>i. P (bs i)) xs)"
  using assms
proof (induction xs arbitrary: a fuel)
  case Nil
  then show ?case by simp
next
  case (Cons x xs)
  then obtain k where "fuel = Suc k" by (cases fuel) auto
  with Cons show ?case by simp
qed

lemma scan_prev:
  assumes "dseg bs NBUF xs z" "NBUF \<notin> set xs" "length xs \<le> fuel"
  shows "scan fuel b_prev P bs (b_prev (bs z)) = Some (find (\<lambda>i. P (bs i)) (rev xs))"
  using assms
proof (induction xs arbitrary: z fuel rule: rev_induct)
  case Nil
  then show ?case by simp
next
  case (snoc x xs)
  then obtain k where "fuel = Suc k" by (cases fuel) auto
  with snoc show ?case by (simp add: dseg_append)
qed

end
