(* ===== verification/Biospec.thy ===== *)
theory Biospec
  imports Bio
begin

text \<open>
  The contract of the buffer cache.  \<open>bc p dev s H P V\<close> describes the cache as the process
  \<open>p\<close> sees it: \<open>H\<close> maps the blocks it has locked to their buffers, \<open>P\<close> counts the pins of
  each block, and \<open>V\<close> is the content of every block as a reader would get it.  Each operation
  is shown to return and to change \<open>H\<close>, \<open>P\<close>, \<open>V\<close> and the disk in the way its contract says;
  the contract is the interface the log is built on.
\<close>

declare scan.simps [simp del]

definition isbuf :: "uint \<Rightarrow> 'z bstate_scheme \<Rightarrow> nat \<Rightarrow> uint \<Rightarrow> bool" where
  "isbuf dev s i blk \<longleftrightarrow> i < NBUF \<and> b_dev (bufs s i) = dev \<and> b_blockno (bufs s i) = blk"

definition bc ::
  "nat \<Rightarrow> uint \<Rightarrow> 'z bstate_scheme \<Rightarrow> (uint \<rightharpoonup> nat) \<Rightarrow> (uint \<Rightarrow> nat) \<Rightarrow> (uint \<Rightarrow> block) \<Rightarrow> bool" where
  "bc p dev s H P V \<longleftrightarrow> calm p s \<and> (\<exists>xs. lru (bufs s) xs) \<and>
     (\<forall>i j blk. isbuf dev s i blk \<longrightarrow> isbuf dev s j blk \<longrightarrow> i = j) \<and>
     (\<forall>blk i. H blk = Some i \<longrightarrow> isbuf dev s i blk) \<and>
     (\<forall>blk. P blk < 1000 \<and> (0 < P blk \<longrightarrow> (\<exists>i. isbuf dev s i blk))) \<and>
     (\<forall>i blk. isbuf dev s i blk \<longrightarrow>
        unat (b_refcnt (bufs s i)) = (if H blk = None then 0 else 1) + P blk \<and>
        sl_locked (sleeplocks s (SL_buf i)) = (H blk \<noteq> None) \<and>
        (H blk \<noteq> None \<longrightarrow> sl_pid (sleeplocks s (SL_buf i)) = mypid p s) \<and>
        (if b_valid (bufs s i) then b_data (bufs s i) = V blk else V blk = disk s (unat blk)) \<and>
        (b_refcnt (bufs s i) = 0 \<longrightarrow> V blk = disk s (unat blk)) \<and>
        (b_refcnt (bufs s i) \<noteq> 0 \<longrightarrow> b_valid (bufs s i))) \<and>
     (\<forall>i<NBUF. b_dev (bufs s i) \<noteq> dev \<longrightarrow> b_refcnt (bufs s i) = 0 \<and> \<not> sl_locked (sleeplocks s (SL_buf i))) \<and>
     (\<forall>blk. (\<nexists>i. isbuf dev s i blk) \<longrightarrow> V blk = disk s (unat blk))"

text \<open>What the operations of the cache leave alone.\<close>

definition bframe :: "nat \<Rightarrow> 'z bstate_scheme \<Rightarrow> 'z bstate_scheme \<Rightarrow> bool" where
  "bframe p s t \<longleftrightarrow> others p s t \<and> (\<forall>i. sleeplocks t (SL_inode i) = sleeplocks s (SL_inode i)) \<and>
     bstate.more t = bstate.more s"

lemma bframe_refl [simp]: "bframe p s s"
  by (simp add: bframe_def)

lemma bframe_trans: "bframe p s t \<Longrightarrow> bframe p t u \<Longrightarrow> bframe p s u"
  unfolding bframe_def using others_trans by fastforce

text \<open>The blocks that occupy a buffer.\<close>

definition used :: "(uint \<rightharpoonup> nat) \<Rightarrow> (uint \<Rightarrow> nat) \<Rightarrow> uint set" where
  "used H P = {blk. H blk \<noteq> None \<or> 0 < P blk}"

lemma bcD:
  assumes "bc p dev s H P V"
  shows "calm p s" "\<exists>xs. lru (bufs s) xs"
    "isbuf dev s i blk \<Longrightarrow> isbuf dev s j blk \<Longrightarrow> i = j"
    "H blk = Some i \<Longrightarrow> isbuf dev s i blk"
    "P blk < 1000" "0 < P blk \<Longrightarrow> \<exists>i. isbuf dev s i blk"
    "isbuf dev s i blk \<Longrightarrow> unat (b_refcnt (bufs s i)) = (if H blk = None then 0 else 1) + P blk"
    "isbuf dev s i blk \<Longrightarrow> sl_locked (sleeplocks s (SL_buf i)) = (H blk \<noteq> None)"
    "isbuf dev s i blk \<Longrightarrow> H blk \<noteq> None \<Longrightarrow> sl_pid (sleeplocks s (SL_buf i)) = mypid p s"
    "isbuf dev s i blk \<Longrightarrow> if b_valid (bufs s i) then b_data (bufs s i) = V blk else V blk = disk s (unat blk)"
    "isbuf dev s i blk \<Longrightarrow> b_refcnt (bufs s i) = 0 \<Longrightarrow> V blk = disk s (unat blk)"
    "isbuf dev s i blk \<Longrightarrow> b_refcnt (bufs s i) \<noteq> 0 \<Longrightarrow> b_valid (bufs s i)"
    "i < NBUF \<Longrightarrow> b_dev (bufs s i) \<noteq> dev \<Longrightarrow> b_refcnt (bufs s i) = 0 \<and> \<not> sl_locked (sleeplocks s (SL_buf i))"
    "(\<nexists>i. isbuf dev s i blk) \<Longrightarrow> V blk = disk s (unat blk)"
  using assms unfolding bc_def by blast+

lemma used_busy:
  assumes "bc p dev s H P V"
  shows "used H P = (\<lambda>i. b_blockno (bufs s i)) ` {i. i < NBUF \<and> b_refcnt (bufs s i) \<noteq> 0}"
proof (intro equalityI subsetI)
  fix blk assume u: "blk \<in> used H P"
  then consider j where "H blk = Some j" | "0 < P blk" by (auto simp: used_def)
  then obtain i where i: "isbuf dev s i blk" using bcD(4,6) [OF assms] by cases blast+
  have "unat (b_refcnt (bufs s i)) \<noteq> 0" using bcD(7) [OF assms i] u by (auto simp: used_def split: if_splits)
  then show "blk \<in> (\<lambda>i. b_blockno (bufs s i)) ` {i. i < NBUF \<and> b_refcnt (bufs s i) \<noteq> 0}"
    using i by (auto simp: isbuf_def)
next
  fix blk assume "blk \<in> (\<lambda>i. b_blockno (bufs s i)) ` {i. i < NBUF \<and> b_refcnt (bufs s i) \<noteq> 0}"
  then obtain i where i: "i < NBUF" "b_refcnt (bufs s i) \<noteq> 0" "blk = b_blockno (bufs s i)" by auto
  have b: "isbuf dev s i blk" using bcD(13) [OF assms i(1)] i by (auto simp: isbuf_def)
  have "unat (b_refcnt (bufs s i)) \<noteq> 0" using i(2) by (simp add: unat_eq_zero)
  then show "blk \<in> used H P" using bcD(7) [OF assms b] by (auto simp: used_def split: if_splits)
qed

lemma used_finite: "bc p dev s H P V \<Longrightarrow> finite (used H P)"
  by (simp add: used_busy)

lemma bc_room:
  assumes "bc p dev s H P V" "card (used H P) < NBUF"
  shows "\<exists>i<NBUF. b_refcnt (bufs s i) = 0"
proof (rule ccontr)
  assume no: "\<not> (\<exists>i<NBUF. b_refcnt (bufs s i) = 0)"
  then have "used H P = (\<lambda>i. b_blockno (bufs s i)) ` {..<NBUF}"
    using used_busy [OF assms(1)] by auto
  moreover have "inj_on (\<lambda>i. b_blockno (bufs s i)) {..<NBUF}"
  proof (rule inj_onI)
    fix i j assume "i \<in> {..<NBUF}" "j \<in> {..<NBUF}" "b_blockno (bufs s i) = b_blockno (bufs s j)"
    moreover have "b_dev (bufs s i) = dev" "b_dev (bufs s j) = dev"
      using calculation no bcD(13) [OF assms(1)] by auto
    ultimately show "i = j" using bcD(3) [OF assms(1), of i _ j] by (simp add: isbuf_def)
  qed
  ultimately have "card (used H P) = NBUF" by (simp add: card_image)
  with assms(2) show False by simp
qed

text \<open>
  The preservation lemma all operations share: they change one buffer (and the links), which
  afterwards holds block \<open>blk\<close>.
\<close>

definition nolinks :: "buf \<Rightarrow> buf" where
  "nolinks b = b\<lparr>b_prev := 0, b_next := 0\<rparr>"

lemma nolinks_fields:
  "nolinks a = nolinks b \<Longrightarrow> b_dev a = b_dev b \<and> b_blockno a = b_blockno b \<and> b_refcnt a = b_refcnt b \<and>
     b_valid a = b_valid b \<and> b_data a = b_data b"
  by (cases a; cases b) (simp add: nolinks_def)

definition bufok :: "nat \<Rightarrow> 'z bstate_scheme \<Rightarrow> (uint \<rightharpoonup> nat) \<Rightarrow> (uint \<Rightarrow> nat) \<Rightarrow> (uint \<Rightarrow> block) \<Rightarrow> nat \<Rightarrow> uint \<Rightarrow> bool" where
  "bufok p s H P V i blk \<longleftrightarrow>
        unat (b_refcnt (bufs s i)) = (if H blk = None then 0 else 1) + P blk \<and>
        sl_locked (sleeplocks s (SL_buf i)) = (H blk \<noteq> None) \<and>
        (H blk \<noteq> None \<longrightarrow> sl_pid (sleeplocks s (SL_buf i)) = mypid p s) \<and>
        (if b_valid (bufs s i) then b_data (bufs s i) = V blk else V blk = disk s (unat blk)) \<and>
        (b_refcnt (bufs s i) = 0 \<longrightarrow> V blk = disk s (unat blk)) \<and>
        (b_refcnt (bufs s i) \<noteq> 0 \<longrightarrow> b_valid (bufs s i))"

lemma bc_iff:
  "bc p dev s H P V \<longleftrightarrow> calm p s \<and> (\<exists>xs. lru (bufs s) xs) \<and>
     (\<forall>i j blk. isbuf dev s i blk \<longrightarrow> isbuf dev s j blk \<longrightarrow> i = j) \<and>
     (\<forall>blk i. H blk = Some i \<longrightarrow> isbuf dev s i blk) \<and>
     (\<forall>blk. P blk < 1000 \<and> (0 < P blk \<longrightarrow> (\<exists>i. isbuf dev s i blk))) \<and>
     (\<forall>i blk. isbuf dev s i blk \<longrightarrow> bufok p s H P V i blk) \<and>
     (\<forall>i<NBUF. b_dev (bufs s i) \<noteq> dev \<longrightarrow> b_refcnt (bufs s i) = 0 \<and> \<not> sl_locked (sleeplocks s (SL_buf i))) \<and>
     (\<forall>blk. (\<nexists>i. isbuf dev s i blk) \<longrightarrow> V blk = disk s (unat blk))"
  by (simp add: bc_def bufok_def)

lemma bc_step:
  assumes bc: "bc p dev s H P V" and new: "isbuf dev t i blk" "bufok p t H' P' V' i blk"
    and rest: "calm p t" "lru (bufs t) ys" "mypid p t = mypid p s"
      "\<And>j. j < NBUF \<Longrightarrow> j \<noteq> i \<Longrightarrow> nolinks (bufs t j) = nolinks (bufs s j) \<and> sleeplocks t (SL_buf j) = sleeplocks s (SL_buf j)"
    and old: "\<And>j. isbuf dev s j blk \<Longrightarrow> j = i" "isbuf dev s i blk \<or> b_refcnt (bufs s i) = 0"
    and upd: "\<And>b. b \<noteq> blk \<Longrightarrow> H' b = H b \<and> P' b = P b \<and> V' b = V b \<and> disk t (unat b) = disk s (unat b)"
      "H' blk = None \<or> H' blk = Some i" "P' blk < 1000"
  shows "bc p dev t H' P' V'"
proof -
  have other: "isbuf dev t j b \<longleftrightarrow> isbuf dev s j b" if "j \<noteq> i" for j b
    using rest(4) [of j] that nolinks_fields [of "bufs t j" "bufs s j"] by (auto simp: isbuf_def)
  have this1: "isbuf dev t i b \<longleftrightarrow> b = blk" for b using new(1) by (auto simp: isbuf_def)
  have ne: "b \<noteq> blk" if "isbuf dev s j b" "j \<noteq> i" for j b using old(1) that by auto
  have gone: "H b = None" "P b = 0" "V b = disk s (unat b)" if "isbuf dev s i b" "b \<noteq> blk" for b
  proof -
    have r: "b_refcnt (bufs s i) = 0" using old(2) that by (auto simp: isbuf_def)
    then show "H b = None" "P b = 0" "V b = disk s (unat b)"
      using bcD(7,11) [OF bc that(1)] by (auto split: if_splits)
  qed
  have ok: "bufok p t H' P' V' j b" if "isbuf dev t j b" "j \<noteq> i" for j b
  proof -
    have j: "isbuf dev s j b" "b \<noteq> blk" "j < NBUF" using that other ne by (auto simp: isbuf_def)
    have "bufok p s H P V j b" using bc j(1) by (simp add: bc_iff)
    then show ?thesis
      using nolinks_fields [of "bufs t j" "bufs s j"] rest(3) rest(4) [OF j(3) that(2)] upd(1) [OF j(2)]
      unfolding bufok_def by simp
  qed
  show ?thesis unfolding bc_iff
  proof (intro conjI)
    show "calm p t" "\<exists>xs. lru (bufs t) xs" using rest by blast+
    show "\<forall>j k b. isbuf dev t j b \<longrightarrow> isbuf dev t k b \<longrightarrow> j = k"
      using other this1 ne bcD(3) [OF bc] by metis
    show "\<forall>b j. H' b = Some j \<longrightarrow> isbuf dev t j b"
    proof (intro allI impI)
      fix b j assume h: "H' b = Some j"
      show "isbuf dev t j b"
      proof (cases "b = blk")
        case True
        then show ?thesis using h upd(2) new(1) by auto
      next
        case False
        then have s: "H b = Some j" using h upd(1) by simp
        then have "isbuf dev s j b" by (rule bcD(4) [OF bc])
        moreover have "j \<noteq> i" using gone(1) [of b] s False calculation by auto
        ultimately show ?thesis using other by blast
      qed
    qed
    have "\<exists>j. isbuf dev t j b" if "0 < P' b" for b
    proof (cases "b = blk")
      case True
      then show ?thesis using new(1) by auto
    next
      case False
      then have s: "0 < P b" using that upd(1) by simp
      then obtain j where j: "isbuf dev s j b" using bcD(6) [OF bc] by blast
      have "j \<noteq> i" using gone(2) [of b] s False j by auto
      then show ?thesis using other j by blast
    qed
    moreover have "P' b < 1000" for b using bcD(5) [OF bc, of b] upd(1) [of b] upd(3) by (cases "b = blk") auto
    ultimately show "\<forall>b. P' b < 1000 \<and> (0 < P' b \<longrightarrow> (\<exists>j. isbuf dev t j b))" by blast
    show "\<forall>j b. isbuf dev t j b \<longrightarrow> bufok p t H' P' V' j b"
      using ok new(2) this1 by metis
    show "\<forall>j<NBUF. b_dev (bufs t j) \<noteq> dev \<longrightarrow> b_refcnt (bufs t j) = 0 \<and> \<not> sl_locked (sleeplocks t (SL_buf j))"
    proof (intro allI impI)
      fix j assume j: "j < NBUF" "b_dev (bufs t j) \<noteq> dev"
      then have "j \<noteq> i" using new(1) by (auto simp: isbuf_def)
      then show "b_refcnt (bufs t j) = 0 \<and> \<not> sl_locked (sleeplocks t (SL_buf j))"
        using rest(4) [OF j(1)] nolinks_fields [of "bufs t j" "bufs s j"] bcD(13) [OF bc j(1)] j(2) by auto
    qed
    show "\<forall>b. (\<nexists>j. isbuf dev t j b) \<longrightarrow> V' b = disk t (unat b)"
    proof (intro allI impI)
      fix b assume no: "\<nexists>j. isbuf dev t j b"
      then have b: "b \<noteq> blk" using new(1) by auto
      have "V b = disk s (unat b)"
      proof (cases "isbuf dev s i b")
        case True
        then show ?thesis using gone(3) b by blast
      next
        case False
        then have "\<nexists>j. isbuf dev s j b" using no other by metis
        then show ?thesis by (rule bcD(14) [OF bc])
      qed
      then show "V' b = disk t (unat b)" using upd(1) [OF b] by simp
    qed
  qed
qed

section \<open>The operations on a calm state\<close>

lemma upd_buf_fields [simp]:
  "mach (upd_buf i f s) = mach s" "procs (upd_buf i f s) = procs s" "sleeplocks (upd_buf i f s) = sleeplocks s"
  "disk (upd_buf i f s) = disk s" "dtrace (upd_buf i f s) = dtrace s" "bstate.more (upd_buf i f s) = bstate.more s"
  "bufs (upd_buf i f s) = (bufs s)(i := f (bufs s i))"
  by (simp_all add: upd_buf_def mach_def)

lemma set_sl_bfields [simp]:
  "procs (set_sl l b k s) = procs s" "bufs (set_sl l b k s) = bufs s" "disk (set_sl l b k s) = disk s"
  "dtrace (set_sl l b k s) = dtrace s" "bstate.more (set_sl l b k s) = bstate.more s"
  "sleeplocks (set_sl l b k s) = (sleeplocks s)(l := (sleeplocks s l)\<lparr>sl_locked := b, sl_pid := k\<rparr>)"
  by (simp_all add: set_sl_def upd_sl_def)

lemma woken_bfields [simp]:
  fixes s :: "'z bstate_scheme"
  shows "bufs (woken ch p s) = bufs s" "disk (woken ch p s) = disk s"
  "dtrace (woken ch p s) = dtrace s" "bstate.more (woken ch p s) = bstate.more s" "sleeplocks (woken ch p s) = sleeplocks s"
  "mypid p (woken ch p s) = mypid p s"
  by (simp_all add: woken_def map_procs_def mypid_def)

lemma acq_bfields [simp]: "bufs (acq l s) = bufs s"
  by (simp add: acq_def pushed_def)

lemma calm_upd_buf [simp]: "calm p (upd_buf i f s) = calm p s"
  by (rule calm_cong) simp

lemma calm_bufs [simp]: "calm p (s\<lparr>bufs := bs\<rparr>) = calm p s"
  by (rule calm_cong) (simp add: mach_def)

lemma calm_set_sl [simp]: "calm p (set_sl l b k s) = calm p s"
  by (rule calm_cong) simp

lemma calm_woken [simp]: "calm p (woken ch p s) = calm p s"
  by (rule calm_cong) simp

lemma mypid_bio [simp]: "mypid p (upd_buf i f s) = mypid p s" "mypid p (set_sl l b k s) = mypid p s" "mypid p (s\<lparr>bufs := bs\<rparr>) = mypid p s"
  by (simp_all add: mypid_def)

lemma release_upd_buf: "calm p s \<Longrightarrow> release l (upd_buf i f (acq l s)) = Ret () (upd_buf i f s)"
  by (simp add: calm_release) (simp add: upd_buf_def acq_def pushed_def)

lemma release_bufs: "calm p s \<Longrightarrow> release l ((acq l s)\<lparr>bufs := bs\<rparr>) = Ret () (s\<lparr>bufs := bs\<rparr>)"
  by (subst calm_release) (simp_all add: mach_def, simp add: acq_def pushed_def)

lemma others_bio [simp]:
  "others p s (upd_buf i f t) = others p s t" "others p s (t\<lparr>bufs := bs\<rparr>) = others p s t"
  "others p s (set_sl l b k t) = others p s t" "others p s (t\<lparr>disk := d\<rparr>) = others p s t" "others p s (t\<lparr>dtrace := tr\<rparr>) = others p s t"
  by (simp_all add: others_def upd_buf_def set_sl_def upd_sl_def kstate.defs)

lemma others_woken_trans [simp]: "others p s t \<Longrightarrow> others p s (woken ch p t)"
  using others_trans others_woken by blast

lemma lru_scan:
  assumes "lru bs xs"
  shows "scan NBUF b_next Q bs (b_next (bs NBUF)) = Some (find (\<lambda>i. Q (bs i)) xs)"
    "scan NBUF b_prev Q bs (b_prev (bs NBUF)) = Some (find (\<lambda>i. Q (bs i)) (rev xs))"
proof -
  have l: "dseg bs NBUF xs NBUF" "NBUF \<notin> set xs" "length xs \<le> NBUF"
    using assms distinct_card [of xs] by (auto simp: lru_def)
  show "scan NBUF b_next Q bs (b_next (bs NBUF)) = Some (find (\<lambda>i. Q (bs i)) xs)"
    "scan NBUF b_prev Q bs (b_prev (bs NBUF)) = Some (find (\<lambda>i. Q (bs i)) (rev xs))"
    by (rule scan_next [OF l], rule scan_prev [OF l])
qed

lemma find_SomeD: "find Q xs = Some x \<Longrightarrow> x \<in> set xs \<and> Q x"
  by (induction xs) (auto split: if_splits)

lemma find_unique:

  assumes "x \<in> set xs" "Q x" "\<And>y. y \<in> set xs \<Longrightarrow> Q y \<Longrightarrow> y = x"
  shows "find Q xs = Some x"
proof (cases "find Q xs")
  case None
  then show ?thesis using assms(1,2) by (auto simp: find_None_iff)
next
  case (Some y)
  then have "y \<in> set xs" "Q y" by (auto simp: find_Some_iff)
  then have "y = x" by (rule assms(3))
  with Some show ?thesis by simp
qed

lemma bget_hit:
  assumes "calm p s" "lru (bufs s) xs" "isbuf dev s i blk" "\<And>j. isbuf dev s j blk \<Longrightarrow> j = i"
    "\<not> sl_locked (sleeplocks s (SL_buf i))"
  shows "bget dev blk s = Ret i (set_sl (SL_buf i) True (mypid p s) (upd_buf i (\<lambda>x. x\<lparr>b_refcnt := b_refcnt x + 1\<rparr>) s))"
proof -
  have "find (\<lambda>i. b_dev (bufs s i) = dev \<and> b_blockno (bufs s i) = blk) xs = Some i"
  proof (rule find_unique)
    show "i \<in> set xs" "b_dev (bufs s i) = dev \<and> b_blockno (bufs s i) = blk"
      using assms(2,3) by (auto simp: lru_def isbuf_def)
    show "j = i" if "j \<in> set xs" "b_dev (bufs s j) = dev \<and> b_blockno (bufs s j) = blk" for j
      by (rule assms(4)) (use that assms(2) in \<open>simp add: isbuf_def lru_def\<close>)
  qed

  then show ?thesis
    using assms(1,5) by (simp add: bget_def calm_acquire lru_scan [OF assms(2)] release_upd_buf acquiresleep_eq)
qed

lemma bget_miss:
  assumes "calm p s" "lru (bufs s) xs" "\<nexists>j. isbuf dev s j blk"
    "find (\<lambda>i. b_refcnt (bufs s i) = 0) (rev xs) = Some i" "\<not> sl_locked (sleeplocks s (SL_buf i))"
  shows "bget dev blk s = Ret i (set_sl (SL_buf i) True (mypid p s)
     (upd_buf i (\<lambda>x. x\<lparr>b_dev := dev, b_blockno := blk, b_valid := False, b_refcnt := 1\<rparr>) s))"
proof -
  have "find (\<lambda>i. b_dev (bufs s i) = dev \<and> b_blockno (bufs s i) = blk) xs = None"
    using assms(2,3) by (auto simp: lru_def isbuf_def find_None_iff)
  then show ?thesis
    using assms(1,4,5) by (simp add: bget_def calm_acquire lru_scan [OF assms(2)] release_upd_buf acquiresleep_eq)
qed

section \<open>The contract\<close>

lemma bread_eq:
  "bget dev blk s = Ret b t \<Longrightarrow> bread dev blk s = Ret b
     (if b_valid (bufs t b) then t
      else upd_buf b (\<lambda>x. x\<lparr>b_data := disk t (unat (b_blockno x)), b_valid := True\<rparr>) t)"
  by (simp add: bread_def disk_transfer_def Let_def) (simp add: upd_buf_def)

lemma bframe_simps [simp]:
  "bframe p s (upd_buf i f t) = bframe p s t" "bframe p s (set_sl (SL_buf i) b k t) = bframe p s t"
  "bframe p s (t\<lparr>bufs := bs\<rparr>) = bframe p s t" "bframe p s (t\<lparr>disk := d\<rparr>) = bframe p s t" "bframe p s (t\<lparr>dtrace := tr\<rparr>) = bframe p s t"
  "bframe p s t \<Longrightarrow> bframe p s (woken ch p t)"
  by (simp_all add: bframe_def)

lemma lru_upd_buf:
  "lru (bufs s) xs \<Longrightarrow> (\<And>x. b_next (f x) = b_next x \<and> b_prev (f x) = b_prev x) \<Longrightarrow> lru (bufs (upd_buf i f s)) xs"
  using lru_cong [of "bufs (upd_buf i f s)" "bufs s" xs] by simp

lemma unat_Suc32: "unat (r :: uint) = n \<Longrightarrow> n < 2000 \<Longrightarrow> unat (r + 1) = Suc n"
  by (simp add: unat_word_ariths)

lemma unat_pred32: "unat (r :: uint) = Suc n \<Longrightarrow> unat (r - 1) = n"
proof -
  assume a: "unat r = Suc n"
  then have "1 \<le> r" by (simp add: word_le_nat_alt)
  then show ?thesis using a by (simp add: unat_sub)
qed

lemma bread_hit:
  assumes bc: "bc p dev s H P V" and "H blk = None" "isbuf dev s i blk"
  shows "\<exists>t. bread dev blk s = Ret i t \<and> bc p dev t (H(blk \<mapsto> i)) P V \<and> b_data (bufs t i) = V blk \<and>
     disk t = disk s \<and> dtrace t = dtrace s \<and> bframe p s t"
proof -
  obtain xs where xs: "lru (bufs s) xs" using bcD(2) [OF bc] by blast
  have only: "j = i" if "isbuf dev s j blk" for j using bcD(3) [OF bc that assms(3)] .
  have unl: "\<not> sl_locked (sleeplocks s (SL_buf i))" using bcD(8) [OF bc assms(3)] assms(2) by simp
  let ?u = "set_sl (SL_buf i) True (mypid p s) (upd_buf i (\<lambda>x. x\<lparr>b_refcnt := b_refcnt x + 1\<rparr>) s)"
  let ?t = "if b_valid (bufs ?u i) then ?u else upd_buf i (\<lambda>x. x\<lparr>b_data := disk ?u (unat (b_blockno x)), b_valid := True\<rparr>) ?u"
  have r: "bread dev blk s = Ret i ?t"
    by (rule bread_eq, rule bget_hit [OF bcD(1) [OF bc] xs assms(3) _ unl], rule only)
  have blk: "b_blockno (bufs s i) = blk" using assms(3) by (simp add: isbuf_def)
  have cnt: "unat (b_refcnt (bufs s i)) = P blk" "P blk < 1000" using bcD(5,7) [OF bc] assms by auto
  then have cnt1: "unat (b_refcnt (bufs s i) + 1) = Suc (P blk)" using unat_Suc32 by simp
  then have nz: "b_refcnt (bufs s i) + 1 \<noteq> 0" by auto
  have V: "if b_valid (bufs s i) then b_data (bufs s i) = V blk else V blk = disk s (unat blk)"
    by (rule bcD(10) [OF bc assms(3)])
  have d: "b_data (bufs ?t i) = V blk" "b_valid (bufs ?t i)" "b_refcnt (bufs ?t i) = b_refcnt (bufs s i) + 1"
    "isbuf dev ?t i blk" "disk ?t = disk s" "dtrace ?t = dtrace s" "bframe p s ?t"
    "sleeplocks ?t = (sleeplocks s)(SL_buf i := (sleeplocks s (SL_buf i))\<lparr>sl_locked := True, sl_pid := mypid p s\<rparr>)"
    "mypid p ?t = mypid p s" "calm p ?t"
    using V blk assms(3) bcD(1) [OF bc] by (auto simp: isbuf_def)
  have l: "lru (bufs ?t) xs"
    using xs lru_cong [of "bufs ?t" "bufs s" xs] by simp
  have "bc p dev ?t (H(blk \<mapsto> i)) P V"
  proof (rule bc_step [OF bc d(4)])
    show "bufok p ?t (H(blk \<mapsto> i)) P V i blk" using cnt1 nz d by (simp add: bufok_def)
    show "nolinks (bufs ?t j) = nolinks (bufs s j) \<and> sleeplocks ?t (SL_buf j) = sleeplocks s (SL_buf j)" if "j \<noteq> i" for j
      using that by simp
    show "j = i" if "isbuf dev s j blk" for j by (rule only [OF that])
  qed (use d l assms(3) cnt in auto)
  then show ?thesis using r d by blast
qed

lemma bread_miss:
  assumes bc: "bc p dev s H P V" and "H blk = None" "\<nexists>i. isbuf dev s i blk" "card (used H P) < NBUF"
  shows "\<exists>i t. bread dev blk s = Ret i t \<and> bc p dev t (H(blk \<mapsto> i)) P V \<and> b_data (bufs t i) = V blk \<and>
     disk t = disk s \<and> dtrace t = dtrace s \<and> bframe p s t"
proof -
  obtain xs where xs: "lru (bufs s) xs" using bcD(2) [OF bc] by blast
  obtain i where i: "find (\<lambda>i. b_refcnt (bufs s i) = 0) (rev xs) = Some i"
    using bc_room [OF bc assms(4)] xs by (cases "find (\<lambda>i. b_refcnt (bufs s i) = 0) (rev xs)") (auto simp: find_None_iff lru_def)
  then have "i \<in> set (rev xs)" "b_refcnt (bufs s i) = 0" using find_SomeD by fast+
  then have free: "i < NBUF" "b_refcnt (bufs s i) = 0" using xs by (auto simp: lru_def)
  have unl: "\<not> sl_locked (sleeplocks s (SL_buf i))"
  proof (cases "b_dev (bufs s i) = dev")
    case True
    then have "isbuf dev s i (b_blockno (bufs s i))" using free by (simp add: isbuf_def)
    then show ?thesis using bcD(7,8) [OF bc] free(2) by (fastforce split: if_splits)
  next
    case False
    then show ?thesis using bcD(13) [OF bc free(1)] by simp
  qed
  let ?u = "set_sl (SL_buf i) True (mypid p s)
     (upd_buf i (\<lambda>x. x\<lparr>b_dev := dev, b_blockno := blk, b_valid := False, b_refcnt := 1\<rparr>) s)"
  let ?t = "upd_buf i (\<lambda>x. x\<lparr>b_data := disk ?u (unat (b_blockno x)), b_valid := True\<rparr>) ?u"
  have r: "bread dev blk s = Ret i ?t"
    using bread_eq [OF bget_miss [OF bcD(1) [OF bc] xs assms(3) i unl]] by simp
  have P: "P blk = 0" using bcD(6) [OF bc, of blk] assms(3) by auto
  have V: "V blk = disk s (unat blk)" by (rule bcD(14) [OF bc assms(3)])
  have d: "b_data (bufs ?t i) = V blk" "isbuf dev ?t i blk" "disk ?t = disk s" "dtrace ?t = dtrace s" "bframe p s ?t"
    "calm p ?t" "mypid p ?t = mypid p s"
    using V bcD(1) [OF bc] free by (simp_all add: isbuf_def)
  have l: "lru (bufs ?t) xs" using xs lru_cong [of "bufs ?t" "bufs s" xs] by simp
  have "bc p dev ?t (H(blk \<mapsto> i)) P V"
  proof (rule bc_step [OF bc d(2) _ d(6) l d(7)])
    show "bufok p ?t (H(blk \<mapsto> i)) P V i blk" using P V by (simp add: bufok_def)
    show "j = i" if "isbuf dev s j blk" for j using assms(3) that by blast
  qed (use P free in auto)
  then show ?thesis using r d by blast
qed

lemma bread_ok:
  assumes "bc p dev s H P V" "H blk = None" "card (used H P) < NBUF \<or> 0 < P blk"
  obtains i t where "bread dev blk s = Ret i t" "bc p dev t (H(blk \<mapsto> i)) P V" "b_data (bufs t i) = V blk"
    "disk t = disk s" "dtrace t = dtrace s" "bframe p s t"
proof (cases "\<exists>i. isbuf dev s i blk")
  case True
  then show ?thesis using bread_hit [OF assms(1,2)] that by blast
next
  case False
  then have "card (used H P) < NBUF" using assms(3) bcD(6) [OF assms(1)] by blast
  then show ?thesis using bread_miss [OF assms(1,2) False] that by blast
qed

text \<open>Facts about a locked buffer.\<close>

lemma bc_held:
  assumes "bc p dev s H P V" "H blk = Some i"
  shows "isbuf dev s i blk" "i < NBUF" "b_dev (bufs s i) = dev" "b_blockno (bufs s i) = blk"
    "unat (b_refcnt (bufs s i)) = Suc (P blk)" "b_valid (bufs s i)" "b_data (bufs s i) = V blk"
    "sl_locked (sleeplocks s (SL_buf i))" "sl_pid (sleeplocks s (SL_buf i)) = mypid p s"
    "b_refcnt (bufs s i) \<noteq> 0" "\<And>j. isbuf dev s j blk \<Longrightarrow> j = i"
proof -
  show b: "isbuf dev s i blk" by (rule bcD(4) [OF assms])
  then show "i < NBUF" "b_dev (bufs s i) = dev" "b_blockno (bufs s i) = blk" by (simp_all add: isbuf_def)
  show n: "unat (b_refcnt (bufs s i)) = Suc (P blk)" using bcD(7) [OF assms(1) b] assms(2) by simp
  then show nz: "b_refcnt (bufs s i) \<noteq> 0" by auto
  show v: "b_valid (bufs s i)" by (rule bcD(12) [OF assms(1) b nz])
  show "b_data (bufs s i) = V blk" using bcD(10) [OF assms(1) b] v by simp
  show "sl_locked (sleeplocks s (SL_buf i))" "sl_pid (sleeplocks s (SL_buf i)) = mypid p s"
    using bcD(8,9) [OF assms(1) b] assms(2) by auto
  show "\<And>j. isbuf dev s j blk \<Longrightarrow> j = i" using bcD(3) [OF assms(1) _ b] .
qed

lemma set_data_ok:
  assumes "bc p dev s H P V" "H blk = Some i"
  shows "bc p dev (set_data i d s) H P (V(blk := d))"
proof -
  note h = bc_held [OF assms]
  obtain xs where xs: "lru (bufs s) xs" using bcD(2) [OF assms(1)] by blast
  show ?thesis unfolding set_data_def
  proof (rule bc_step [OF assms(1)])
    show "isbuf dev (upd_buf i (\<lambda>b. b\<lparr>b_data := d\<rparr>) s) i blk" using h(1-4) by (simp add: isbuf_def)
    show "bufok p (upd_buf i (\<lambda>b. b\<lparr>b_data := d\<rparr>) s) H P (V(blk := d)) i blk" using h(1-10) assms(2) by (simp add: bufok_def)
    show "lru (bufs (upd_buf i (\<lambda>b. b\<lparr>b_data := d\<rparr>) s)) xs" using xs by (rule lru_upd_buf) simp
    show "j = i" if "isbuf dev s j blk" for j by (rule h(11) [OF that])
  qed (use h(1-10) assms bcD(1,5) [OF assms(1)] in auto)
qed

lemma bwrite_ok:
  assumes "bc p dev s H P V" "H blk = Some i"
  obtains t where "bwrite i s = Ret () t" "bc p dev t H P V" "disk t = (disk s)(unat blk := V blk)"
    "dtrace t = dtrace s @ [(unat blk, V blk)]" "bframe p s t"
proof -
  note h = bc_held [OF assms]
  obtain xs where xs: "lru (bufs s) xs" using bcD(2) [OF assms(1)] by blast
  let ?t = "s\<lparr>disk := (disk s)(unat blk := V blk), dtrace := dtrace s @ [(unat blk, V blk)]\<rparr>"
  have r: "bwrite i s = Ret () ?t"
    using h(1-10) by (simp add: bwrite_def holdingsleep_eq [OF bcD(1) [OF assms(1)]] disk_transfer_def Let_def)
  have c: "calm p ?t" using bcD(1) [OF assms(1)] calm_cong [of ?t s] by (simp add: mach_def)
  have "bc p dev ?t H P V"
  proof (rule bc_step [OF assms(1) _ _ c])
    show "isbuf dev ?t i blk" using h(1-4) by (simp add: isbuf_def)
    show "bufok p ?t H P V i blk" using h(1-10) assms(2) by (simp add: bufok_def mypid_def)
    show "lru (bufs ?t) xs" using xs by simp
    show "j = i" if "isbuf dev s j blk" for j by (rule h(11) [OF that])
  qed (use h(1-10) assms bcD(1,5) [OF assms(1)] in \<open>auto simp: mypid_def dest: unsigned_word_eqI\<close>)
  then show ?thesis using r that by simp
qed

lemma bpin_ok:
  assumes "bc p dev s H P V" "H blk = Some i" "P blk < 900"
  obtains t where "bpin i s = Ret () t" "bc p dev t H (P(blk := Suc (P blk))) V" "disk t = disk s"
    "dtrace t = dtrace s" "bframe p s t"
proof -
  note h = bc_held [OF assms(1,2)]
  obtain xs where xs: "lru (bufs s) xs" using bcD(2) [OF assms(1)] by blast
  let ?t = "upd_buf i (\<lambda>x. x\<lparr>b_refcnt := b_refcnt x + 1\<rparr>) s"
  have r: "bpin i s = Ret () ?t"
    using bcD(1) [OF assms(1)] by (simp add: bpin_def calm_acquire release_upd_buf)
  have n: "unat (b_refcnt (bufs s i) + 1) = Suc (Suc (P blk))" using unat_Suc32 [OF h(5)] assms(3) by simp
  then have nz: "b_refcnt (bufs s i) + 1 \<noteq> 0" by auto
  have "bc p dev ?t H (P(blk := Suc (P blk))) V"
  proof (rule bc_step [OF assms(1)])
    show "isbuf dev ?t i blk" using h(1-4) by (simp add: isbuf_def)
    show "bufok p ?t H (P(blk := Suc (P blk))) V i blk" using h(1-10) assms(2) n nz by (simp add: bufok_def)
    show "lru (bufs ?t) xs" using xs by (rule lru_upd_buf) simp
    show "j = i" if "isbuf dev s j blk" for j by (rule h(11) [OF that])
  qed (use h(1-10) assms bcD(1) [OF assms(1)] in auto)
  then show ?thesis using r that by simp
qed

lemma bunpin_ok:
  assumes "bc p dev s H P V" "H blk = Some i" "P blk = Suc n"
  obtains t where "bunpin i s = Ret () t" "bc p dev t H (P(blk := n)) V" "disk t = disk s"
    "dtrace t = dtrace s" "bframe p s t"
proof -
  note h = bc_held [OF assms(1,2)]
  obtain xs where xs: "lru (bufs s) xs" using bcD(2) [OF assms(1)] by blast
  let ?t = "upd_buf i (\<lambda>x. x\<lparr>b_refcnt := b_refcnt x - 1\<rparr>) s"
  have r: "bunpin i s = Ret () ?t"
    using bcD(1) [OF assms(1)] by (simp add: bunpin_def calm_acquire release_upd_buf)
  have n: "unat (b_refcnt (bufs s i) - 1) = Suc n" using unat_pred32 [OF h(5)] assms(3) by simp
  then have nz: "b_refcnt (bufs s i) - 1 \<noteq> 0" by (metis Zero_not_Suc unat_0)
  have "bc p dev ?t H (P(blk := n)) V"
  proof (rule bc_step [OF assms(1)])
    show "isbuf dev ?t i blk" using h(1-4) by (simp add: isbuf_def)
    show "bufok p ?t H (P(blk := n)) V i blk" using h(1-10) assms(2) n nz by (simp add: bufok_def)
    show "lru (bufs ?t) xs" using xs by (rule lru_upd_buf) simp
    show "j = i" if "isbuf dev s j blk" for j by (rule h(11) [OF that])
    show "(P(blk := n)) blk < 1000" using bcD(5) [OF assms(1), of blk] assms(3) by simp
  qed (use h(1-10) assms bcD(1) [OF assms(1)] in auto)
  then show ?thesis using r that by simp
qed

lemma nolinks_moved [simp]:
  "nolinks (link_front b bs j) = nolinks (bs j)" "nolinks (unlink b bs j) = nolinks (bs j)"
  by (simp_all add: nolinks_def link_front_def unlink_def Let_def)

lemma brelse_eq:
  assumes "calm p s" "sl_locked (sleeplocks s (SL_buf i))" "sl_pid (sleeplocks s (SL_buf i)) = mypid p s"
  shows "brelse i s = (let t = upd_buf i (\<lambda>x. x\<lparr>b_refcnt := b_refcnt x - 1\<rparr>) (woken (C_buflock i) p (set_sl (SL_buf i) False 0 s)) in
     Ret () (if b_refcnt (bufs t i) = 0 then t\<lparr>bufs := link_front i (unlink i (bufs t))\<rparr> else t))"
proof -
  let ?s = "woken (C_buflock i) p (set_sl (SL_buf i) False 0 s)"
  have c: "calm p ?s" using assms(1) by simp
  have u: "(upd_buf i f (acq l ?s))\<lparr>bufs := bs\<rparr> = (acq l ?s)\<lparr>bufs := bs\<rparr>" for f l bs by (simp add: upd_buf_def)
  have u': "(upd_buf i f ?s)\<lparr>bufs := bs\<rparr> = ?s\<lparr>bufs := bs\<rparr>" for f bs by (simp add: upd_buf_def)
  show ?thesis
    using assms by (simp add: brelse_def holdingsleep_eq releasesleep_eq calm_acquire [OF c] Let_def u u' release_upd_buf [OF c] release_bufs [OF c])
qed

lemma brelse_ok:
  assumes "bc p dev s H P V" "H blk = Some i" "0 < P blk \<or> V blk = disk s (unat blk)"
  obtains t where "brelse i s = Ret () t" "bc p dev t (H(blk := None)) P V" "disk t = disk s"
    "dtrace t = dtrace s" "bframe p s t"
proof -
  note h = bc_held [OF assms(1,2)]
  obtain xs where xs: "lru (bufs s) xs" using bcD(2) [OF assms(1)] by blast
  define u where "u = upd_buf i (\<lambda>x. x\<lparr>b_refcnt := b_refcnt x - 1\<rparr>) (woken (C_buflock i) p (set_sl (SL_buf i) False 0 s))"
  let ?t = "if b_refcnt (bufs u i) = 0 then u\<lparr>bufs := link_front i (unlink i (bufs u))\<rparr> else u"
  have r: "brelse i s = Ret () ?t"
    using brelse_eq [OF bcD(1) [OF assms(1)] h(8,9)] by (simp add: Let_def u_def)
  have uu: "bufs u = (bufs s)(i := (bufs s i)\<lparr>b_refcnt := b_refcnt (bufs s i) - 1\<rparr>)" by (simp add: u_def)
  have n: "unat (b_refcnt (bufs s i) - 1) = P blk" using unat_pred32 [OF h(5)] by simp
  have lu: "lru (bufs u) xs" using xs lru_cong [of "bufs u" "bufs s" xs] by (simp add: uu)
  then have l: "lru (bufs ?t) (if b_refcnt (bufs u i) = 0 then i # remove1 i xs else xs)"
    using lru_touch [OF lu h(2)] by simp
  have nl: "nolinks (bufs ?t j) = nolinks (bufs u j)" for j by simp
  note fi = nolinks_fields [OF nl, of i]
  have o: "sleeplocks ?t = (sleeplocks s)(SL_buf i := (sleeplocks s (SL_buf i))\<lparr>sl_locked := False, sl_pid := 0\<rparr>)"
    "disk ?t = disk s" "dtrace ?t = dtrace s" "bframe p s ?t" "calm p ?t" "mypid p ?t = mypid p s"
    using bcD(1) [OF assms(1)] by (simp_all add: u_def mypid_def)
  have z: "b_refcnt (bufs s i) - 1 = 0 \<Longrightarrow> P blk = 0" using n by auto
  have "bc p dev ?t (H(blk := None)) P V"
  proof (rule bc_step [OF assms(1) _ _ o(5) l o(6)])
    show "isbuf dev ?t i blk" using h(1-4) fi uu by (simp add: isbuf_def)
    show "bufok p ?t (H(blk := None)) P V i blk" using h(5-7) assms(3) n z fi o uu by (auto simp: bufok_def)
    show "j = i" if "isbuf dev s j blk" for j by (rule h(11) [OF that])
    show "nolinks (bufs ?t j) = nolinks (bufs s j) \<and> sleeplocks ?t (SL_buf j) = sleeplocks s (SL_buf j)" if "j \<noteq> i" for j
      using that o nl [of j] uu by simp
    show "isbuf dev s i blk \<or> b_refcnt (bufs s i) = 0" using h(1) by simp
    show "P blk < 1000" by (rule bcD(5) [OF assms(1)])
  qed (use o in auto)
  then show ?thesis using r o that by metis
qed

section \<open>The interface\<close>

text \<open>
  The buffer cache as its clients see it.  The locale lists the operations and their contract;
  its lemmas are the usage patterns of the clients.
\<close>

locale block_cache =
  fixes bread :: "uint \<Rightarrow> 's \<Rightarrow> ('s, nat) outcome"
    and bwrite brelse bpin bunpin :: "nat \<Rightarrow> 's \<Rightarrow> ('s, unit) outcome"
    and data :: "'s \<Rightarrow> nat \<Rightarrow> block" and set_data :: "nat \<Rightarrow> block \<Rightarrow> 's \<Rightarrow> 's"
    and disk :: "'s \<Rightarrow> nat \<Rightarrow> block" and trace :: "'s \<Rightarrow> (nat \<times> block) list"
    and frame :: "'s \<Rightarrow> 's \<Rightarrow> bool" and nbuf :: nat
    and cache :: "'s \<Rightarrow> (uint \<rightharpoonup> nat) \<Rightarrow> (uint \<Rightarrow> nat) \<Rightarrow> (uint \<Rightarrow> block) \<Rightarrow> bool"
  assumes bread: "cache s H P V \<Longrightarrow> H blk = None \<Longrightarrow> card (used H P) < nbuf \<or> 0 < P blk \<Longrightarrow>
      (\<And>i t. bread blk s = Ret i t \<Longrightarrow> cache t (H(blk \<mapsto> i)) P V \<Longrightarrow> data t i = V blk \<Longrightarrow> disk t = disk s \<Longrightarrow>
        trace t = trace s \<Longrightarrow> frame s t \<Longrightarrow> thesis) \<Longrightarrow> thesis"
    and bwrite: "cache s H P V \<Longrightarrow> H blk = Some i \<Longrightarrow>
      (\<And>t. bwrite i s = Ret () t \<Longrightarrow> cache t H P V \<Longrightarrow> disk t = (disk s)(unat blk := V blk) \<Longrightarrow>
        trace t = trace s @ [(unat blk, V blk)] \<Longrightarrow> frame s t \<Longrightarrow> thesis) \<Longrightarrow> thesis"
    and brelse: "cache s H P V \<Longrightarrow> H blk = Some i \<Longrightarrow> 0 < P blk \<or> V blk = disk s (unat blk) \<Longrightarrow>
      (\<And>t. brelse i s = Ret () t \<Longrightarrow> cache t (H(blk := None)) P V \<Longrightarrow> disk t = disk s \<Longrightarrow>
        trace t = trace s \<Longrightarrow> frame s t \<Longrightarrow> thesis) \<Longrightarrow> thesis"
    and bpin: "cache s H P V \<Longrightarrow> H blk = Some i \<Longrightarrow> P blk < 900 \<Longrightarrow>
      (\<And>t. bpin i s = Ret () t \<Longrightarrow> cache t H (P(blk := Suc (P blk))) V \<Longrightarrow> disk t = disk s \<Longrightarrow>
        trace t = trace s \<Longrightarrow> frame s t \<Longrightarrow> thesis) \<Longrightarrow> thesis"
    and bunpin: "cache s H P V \<Longrightarrow> H blk = Some i \<Longrightarrow> P blk = Suc n \<Longrightarrow>
      (\<And>t. bunpin i s = Ret () t \<Longrightarrow> cache t H (P(blk := n)) V \<Longrightarrow> disk t = disk s \<Longrightarrow>
        trace t = trace s \<Longrightarrow> frame s t \<Longrightarrow> thesis) \<Longrightarrow> thesis"
    and set_data: "cache s H P V \<Longrightarrow> H blk = Some i \<Longrightarrow> cache (set_data i d s) H P (V(blk := d))"
      "disk (set_data i d s) = disk s" "trace (set_data i d s) = trace s" "frame s (set_data i d s)"
    and held: "cache s H P V \<Longrightarrow> H blk = Some i \<Longrightarrow> data s i = V blk"
    and frame_refl: "frame s s" and frame_trans: "frame s t \<Longrightarrow> frame t u \<Longrightarrow> frame s u"
    and finite_used: "cache s H P V \<Longrightarrow> finite (used H P)"
begin

lemma used_upd: "used (H(blk \<mapsto> i)) P = insert blk (used H P)" "H blk = None \<Longrightarrow> H(blk := None) = H"
  by (auto simp: used_def)

text \<open>Read a block and give it back.\<close>

lemma read_block:
  assumes "cache s H P V" "H blk = None" "card (used H P) < nbuf \<or> 0 < P blk" "0 < P blk \<or> V blk = disk s (unat blk)"
  obtains t i u where "bread blk s = Ret i t" "data t i = V blk" "brelse i t = Ret () u"
    "cache u H P V" "disk u = disk s" "trace u = trace s" "frame s t" "frame s u"
proof -
  obtain i t where t: "bread blk s = Ret i t" "cache t (H(blk \<mapsto> i)) P V" "data t i = V blk" "disk t = disk s"
    "trace t = trace s" "frame s t"
    by (rule bread [OF assms(1-3)])
  have c: "0 < P blk \<or> V blk = disk t (unat blk)" using assms(4) t(4) by simp
  have h: "(H(blk \<mapsto> i)) blk = Some i" by simp
  obtain u where u: "brelse i t = Ret () u" "cache u (H(blk \<mapsto> i, blk := None)) P V" "disk u = disk t"
    "trace u = trace t" "frame t u"
    by (rule brelse [OF t(2) h c])
  have "cache u H P V" using u(2) used_upd(2) [of H blk, OF assms(2)] by simp
  moreover have "disk u = disk s" "trace u = trace s" using t u by simp_all
  moreover have "frame s u" by (rule frame_trans [OF t(6) u(5)])
  ultimately show ?thesis using that [OF t(1,3) u(1)] t(6) by blast
qed

text \<open>Read a block, change it, write it through and give it back.\<close>

lemma write_block:
  assumes "cache s H P V" "H blk = None" "card (used H P) < nbuf \<or> 0 < P blk"
  obtains i t u v where "bread blk s = Ret i t" "data t i = V blk" "bwrite i (set_data i d t) = Ret () u" "brelse i u = Ret () v"
    "cache v H P (V(blk := d))" "disk v = (disk s)(unat blk := d)" "trace v = trace s @ [(unat blk, d)]" "frame s t" "frame s v"
proof -
  obtain i t where t: "bread blk s = Ret i t" "cache t (H(blk \<mapsto> i)) P V" "data t i = V blk" "disk t = disk s"
    "trace t = trace s" "frame s t"
    by (rule bread [OF assms])
  have h: "(H(blk \<mapsto> i)) blk = Some i" by simp
  obtain u where u: "bwrite i (set_data i d t) = Ret () u" "cache u (H(blk \<mapsto> i)) P (V(blk := d))"
    "disk u = (disk (set_data i d t))(unat blk := (V(blk := d)) blk)"
    "trace u = trace (set_data i d t) @ [(unat blk, (V(blk := d)) blk)]" "frame (set_data i d t) u"
    by (rule bwrite [OF set_data(1) [OF t(2) h] h])
  have c: "0 < P blk \<or> (V(blk := d)) blk = disk u (unat blk)" using u(3) by simp
  obtain v where v: "brelse i u = Ret () v" "cache v (H(blk \<mapsto> i, blk := None)) P (V(blk := d))" "disk v = disk u"
    "trace v = trace u" "frame u v"
    by (rule brelse [OF u(2) h c])

  have "cache v H P (V(blk := d))" using v(2) used_upd(2) [of H blk, OF assms(2)] by simp
  moreover have "disk v = (disk s)(unat blk := d)" "trace v = trace s @ [(unat blk, d)]"
    using t v u set_data(2,3) by simp_all
  moreover have "frame s v" using frame_trans [OF frame_trans [OF t(6) set_data(4)] frame_trans [OF u(5) v(5)]] .
  ultimately show ?thesis using that [OF t(1,3) u(1) v(1)] t(6) by blast

qed

end

interpretation bio: block_cache "bread dev" bwrite brelse bpin bunpin "\<lambda>s i. b_data (bufs s i)" set_data disk dtrace
  "bframe p" NBUF "bc p dev" for p dev
proof unfold_locales
  fix s H P V blk i d
  show "bc p dev s H P V \<Longrightarrow> H blk = Some i \<Longrightarrow> bc p dev (set_data i d s) H P (V(blk := d))"
    by (rule set_data_ok)
  show "disk (set_data i d s) = disk s" "dtrace (set_data i d s) = dtrace s" "bframe p s (set_data i d s)"
    by (simp_all add: set_data_def)
  show "bc p dev s H P V \<Longrightarrow> H blk = Some i \<Longrightarrow> b_data (bufs s i) = V blk" by (rule bc_held)
qed (fact bread_ok bwrite_ok brelse_ok bpin_ok bunpin_ok bframe_refl bframe_trans used_finite)+

end
