(* ===== verification/Bcache.thy ===== *)
theory Bcache
  imports Biospec
begin

text \<open>
  The buffer cache as a whole: \<open>binit\<close> builds the buffer list, and the cache implements a plain
  map from block numbers to contents with explicit locks and pins, for every sequence of calls
  the callers are allowed to make.
\<close>

section \<open>Initialisation\<close>

definition idle_buf :: "'z bstate_scheme \<Rightarrow> nat \<Rightarrow> bool" where
  "idle_buf s i \<longleftrightarrow> b_dev (bufs s i) = 0 \<and> b_refcnt (bufs s i) = 0 \<and> \<not> b_valid (bufs s i)"

lemma lock_free_bufs [simp]: "lock_free l (s\<lparr>bufs := bs\<rparr>) = lock_free l s"
  by (simp add: lock_free_def)

lemma initsleeplock_fields [simp]:

  "bufs (initsleeplock l nm s) = bufs s" "disk (initsleeplock l nm s) = disk s"
  "dtrace (initsleeplock l nm s) = dtrace s"
  "sl_locked (sleeplocks (initsleeplock l nm s) l') = (l' \<noteq> l \<and> sl_locked (sleeplocks s l'))"
  "lock_free l'' (initsleeplock l nm s) = (l'' = sl_lk l \<or> lock_free l'' s)"
  by (auto simp: initsleeplock_def upd_sl_def initlock_def upd_lock_def lock_free_def)

definition binit_upto :: "'z bstate_scheme \<Rightarrow> nat \<Rightarrow> 'z bstate_scheme \<Rightarrow> bool" where
  "binit_upto s k t \<longleftrightarrow> dseg (bufs t) NBUF (rev [0..<k]) NBUF \<and> (\<forall>j. nolinks (bufs t j) = nolinks (bufs s j)) \<and>
     (\<forall>j<k. \<not> sl_locked (sleeplocks t (SL_buf j)) \<and> lock_free (L_buf j) t) \<and> lock_free L_bcache t \<and>
     disk t = disk s \<and> dtrace t = dtrace s"

lemma binit_step:
  assumes "k < NBUF" "binit_upto s k t"
  shows "binit_upto s (Suc k) (initsleeplock (SL_buf k) ''buffer'' (t\<lparr>bufs := link_front k (bufs t)\<rparr>))"
proof -
  have "dseg (link_front k (bufs t)) NBUF (k # rev [0..<k]) NBUF"
    using assms by (intro dseg_link_front) (auto simp: binit_upto_def)
  then show ?thesis using assms by (auto simp: binit_upto_def less_Suc_eq)
qed

text \<open>\<open>binit\<close> returns with every buffer on the list exactly once, the last buffer of the
  array in front, the links consistent in both directions, all buffer locks free, and the
  contents of the buffers and the disk untouched.\<close>

theorem binit_list:
  "\<exists>t. binit s = Ret () t \<and> lru (bufs t) (rev [0..<NBUF]) \<and> (\<forall>j. nolinks (bufs t j) = nolinks (bufs s j)) \<and>
     (\<forall>j<NBUF. \<not> sl_locked (sleeplocks t (SL_buf j)) \<and> lock_free (L_buf j) t) \<and> lock_free L_bcache t \<and> disk t = disk s"
proof -
  let ?s = "upd_buf NBUF (\<lambda>b. b\<lparr>b_next := NBUF\<rparr>) (upd_buf NBUF (\<lambda>b. b\<lparr>b_prev := NBUF\<rparr>) (initlock L_bcache ''bcache'' s))"
  have "binit_upto s 0 ?s"
    by (auto simp: binit_upto_def initlock_def upd_lock_def upd_buf_def lock_free_def nolinks_def)
  then have "returns (for_each [0..<NBUF] (\<lambda>b s.
      Ret () (initsleeplock (SL_buf b) ''buffer'' (s\<lparr>bufs := link_front b (bufs s)\<rparr>))) ?s) (\<lambda>_ t. binit_upto s NBUF t)"
    by (intro for_each_upt) (simp_all add: binit_step)
  then show ?thesis
    by (auto simp: returns_iff binit_def Let_def binit_upto_def lru_def atLeast0LessThan)
qed

text \<open>A cache that has just been initialised describes the disk.\<close>

lemma fresh_cache:
  assumes "calm p s" "lru (bufs s) xs" "dev \<noteq> 0" "\<And>i. i < NBUF \<Longrightarrow> idle_buf s i \<and> \<not> sl_locked (sleeplocks s (SL_buf i))"
  shows "bc p dev s (\<lambda>_. None) (\<lambda>_. 0) (\<lambda>b. disk s (unat b))"
proof -
  have "\<not> isbuf dev s i b" for i b using assms(3,4) by (auto simp: isbuf_def idle_buf_def)
  then show ?thesis using assms by (auto simp: bc_def idle_buf_def)
qed

section \<open>A concrete initialised cache\<close>

text \<open>
  The state after \<open>binit\<close>, with process 0 current on hart 0, interrupts off and disk content
  \<open>d\<close>; \<open>z\<close> is whatever the layers above add.
\<close>

definition boot_bufs :: "nat \<Rightarrow> buf" where
  "boot_bufs i = \<lparr>b_valid = False, b_disk = False, b_dev = 0, b_blockno = 0, b_refcnt = 0,
     b_prev = (if i = NBUF then 0 else Suc i), b_next = (if i = 0 then NBUF else i - 1), b_data = (\<lambda>_. 0)\<rparr>"

definition bio_boot :: "(nat \<Rightarrow> block) \<Rightarrow> 'z \<Rightarrow> 'z bstate_scheme" where
  "bio_boot d z = kstate.extend
     (kboot\<lparr>cpus := \<lambda>_. \<lparr>cpu_proc = Some 0, cpu_context = zero_context, noff = 0, intena = False\<rparr>\<rparr>)
     \<lparr>sleeplocks = (\<lambda>_. \<lparr>sl_locked = False, sl_name = [], sl_pid = 0\<rparr>), bufs = boot_bufs,
      disk = d, dtrace = [], \<dots> = z\<rparr>"

lemma bio_boot_simps [simp]:
  "bufs (bio_boot d z) = boot_bufs" "disk (bio_boot d z) = d" "dtrace (bio_boot d z) = []" "bstate.more (bio_boot d z) = z"
  "sl_locked (sleeplocks (bio_boot d z) l) = False" "procs (bio_boot d z) = (\<lambda>_. zero_proc)"
  by (simp_all add: bio_boot_def kstate.defs kboot_def kproc.defs boot_def)

lemma bio_boot_calm: "calm 0 (bio_boot d z)"
  by (simp add: bio_boot_def kstate.defs kboot_def kproc.defs boot_def calm_def machine_defs lock_free_def)

lemma boot_bufs_lru: "lru boot_bufs (rev [0..<NBUF])"
proof -
  have "k \<le> NBUF \<Longrightarrow> dseg boot_bufs k (rev [0..<k]) NBUF" for k
    by (induction k) (auto simp: boot_bufs_def)
  then show ?thesis by (auto simp: lru_def)
qed

lemma bio_boot_idle: "idle_buf (bio_boot d z) i"
  by (simp add: idle_buf_def boot_bufs_def)

lemma bio_boot_bc: "dev \<noteq> 0 \<Longrightarrow> bc 0 dev (bio_boot d z) (\<lambda>_. None) (\<lambda>_. 0) (\<lambda>b. d (unat b))"
  using fresh_cache [OF bio_boot_calm [of d z], of "rev [0..<NBUF]" dev] boot_bufs_lru by (simp add: bio_boot_idle)

section \<open>Any sequence of calls\<close>

text \<open>
  The calls of one process: a buffer is named by its block.  The specification keeps the locked
  blocks, the pin counts, the contents and the disk; \<open>None\<close> is a call the process must not make
  (reading a block it has locked already would wait for itself, giving back a modified block that
  is neither written nor pinned would lose the change, and so on).
\<close>

datatype bop = Read uint | Modify uint block | Flush uint | Release uint | Pin uint | Unpin uint

record bspec =
  sp_held :: "uint set"
  sp_pins :: "uint \<Rightarrow> nat"
  sp_view :: "uint \<Rightarrow> block"
  sp_disk :: "uint \<Rightarrow> block"

fun spec_step :: "bop \<Rightarrow> bspec \<Rightarrow> (block option \<times> bspec) option" where
  "spec_step (Read b) a =
     (if b \<notin> sp_held a \<and> (card (sp_held a \<union> {b. 0 < sp_pins a b}) < NBUF \<or> 0 < sp_pins a b)
      then Some (Some (sp_view a b), a\<lparr>sp_held := insert b (sp_held a)\<rparr>) else None)"
| "spec_step (Modify b d) a =
     (if b \<in> sp_held a then Some (None, a\<lparr>sp_view := (sp_view a)(b := d)\<rparr>) else None)"
| "spec_step (Flush b) a =
     (if b \<in> sp_held a then Some (None, a\<lparr>sp_disk := (sp_disk a)(b := sp_view a b)\<rparr>) else None)"
| "spec_step (Release b) a =
     (if b \<in> sp_held a \<and> (0 < sp_pins a b \<or> sp_view a b = sp_disk a b)
      then Some (None, a\<lparr>sp_held := sp_held a - {b}\<rparr>) else None)"
| "spec_step (Pin b) a =
     (if b \<in> sp_held a \<and> sp_pins a b < 900 then Some (None, a\<lparr>sp_pins := (sp_pins a)(b := Suc (sp_pins a b))\<rparr>) else None)"
| "spec_step (Unpin b) a =
     (if b \<in> sp_held a \<and> 0 < sp_pins a b then Some (None, a\<lparr>sp_pins := (sp_pins a)(b := sp_pins a b - 1)\<rparr>) else None)"

fun spec_run :: "bop list \<Rightarrow> bspec \<Rightarrow> (block option list \<times> bspec) option" where
  "spec_run [] a = Some ([], a)"
| "spec_run (op # ops) a =
     (case spec_step op a of None \<Rightarrow> None
      | Some (r, a) \<Rightarrow> (case spec_run ops a of None \<Rightarrow> None | Some (rs, a) \<Rightarrow> Some (r # rs, a)))"

text \<open>The same calls on the code; the process keeps the buffer pointers it was given.\<close>

definition code_step ::
  "uint \<Rightarrow> bop \<Rightarrow> (uint \<rightharpoonup> nat) \<Rightarrow> 'z bstate_scheme \<Rightarrow> ('z bstate_scheme, block option \<times> (uint \<rightharpoonup> nat)) outcome" where
  "code_step dev op h s = (case op of
       Read b \<Rightarrow> bnd (bread dev b s) (\<lambda>i s. Ret (Some (b_data (bufs s i)), h(b \<mapsto> i)) s)
     | Modify b d \<Rightarrow> Ret (None, h) (set_data (the (h b)) d s)
     | Flush b \<Rightarrow> bnd (bwrite (the (h b)) s) (\<lambda>_ s. Ret (None, h) s)
     | Release b \<Rightarrow> bnd (brelse (the (h b)) s) (\<lambda>_ s. Ret (None, h(b := None)) s)
     | Pin b \<Rightarrow> bnd (bpin (the (h b)) s) (\<lambda>_ s. Ret (None, h) s)
     | Unpin b \<Rightarrow> bnd (bunpin (the (h b)) s) (\<lambda>_ s. Ret (None, h) s))"

fun code_run ::
  "uint \<Rightarrow> bop list \<Rightarrow> (uint \<rightharpoonup> nat) \<Rightarrow> 'z bstate_scheme \<Rightarrow> ('z bstate_scheme, block option list \<times> (uint \<rightharpoonup> nat)) outcome" where
  "code_run dev [] h s = Ret ([], h) s"
| "code_run dev (op # ops) h s =
     bnd (code_step dev op h s) (\<lambda>(r, h) s. bnd (code_run dev ops h s) (\<lambda>(rs, h) s. Ret (r # rs, h) s))"

definition simulates :: "nat \<Rightarrow> uint \<Rightarrow> bspec \<Rightarrow> (uint \<rightharpoonup> nat) \<Rightarrow> 'z bstate_scheme \<Rightarrow> bool" where
  "simulates p dev a h s \<longleftrightarrow> bc p dev s h (sp_pins a) (sp_view a) \<and> dom h = sp_held a \<and> (\<forall>b. sp_disk a b = disk s (unat b))"

lemma simulates_step:
  assumes "simulates p dev a h s" "spec_step op a = Some (r, a')"
  shows "\<exists>h' t. code_step dev op h s = Ret (r, h') t \<and> simulates p dev a' h' t"
proof -
  have bc: "bc p dev s h (sp_pins a) (sp_view a)" and dom: "dom h = sp_held a" and dsk: "\<And>b. sp_disk a b = disk s (unat b)"
    using assms(1) by (auto simp: simulates_def)
  have u: "sp_held a \<union> {b. 0 < sp_pins a b} = used h (sp_pins a)" using dom by (auto simp: used_def)
  have inj: "((disk s)(unat b := d)) (unat b') = (if b' = b then d else disk s (unat b'))" for b b' :: uint and d
    by (auto dest: unsigned_word_eqI)
  have held: "\<exists>i. h b = Some i" if "b \<in> sp_held a" for b using that dom by auto
  show ?thesis
  proof (cases op)
    case (Read b)
    then have c: "h b = None" "card (used h (sp_pins a)) < NBUF \<or> 0 < sp_pins a b"
      and r: "r = Some (sp_view a b)" "a' = a\<lparr>sp_held := insert b (sp_held a)\<rparr>"
      using assms(2) dom u by (auto split: if_splits)
    obtain i t where "bread dev b s = Ret i t" "bc p dev t (h(b \<mapsto> i)) (sp_pins a) (sp_view a)" "b_data (bufs t i) = sp_view a b" "disk t = disk s"
      by (rule bio.bread [OF bc c])
    then show ?thesis using Read r dom dsk by (simp add: code_step_def simulates_def)
  next
    case (Modify b d)
    then have b: "b \<in> sp_held a" and r: "r = None" "a' = a\<lparr>sp_view := (sp_view a)(b := d)\<rparr>" using assms(2) by (auto split: if_splits)
    from held [OF b] obtain i where i: "h b = Some i" by blast
    show ?thesis using bio.set_data(1) [OF bc i, of d] Modify r dom dsk i
      by (simp add: code_step_def simulates_def bio.set_data(2))
  next
    case (Flush b)
    then have b: "b \<in> sp_held a" and r: "r = None" "a' = a\<lparr>sp_disk := (sp_disk a)(b := sp_view a b)\<rparr>" using assms(2) by (auto split: if_splits)
    from held [OF b] obtain i where i: "h b = Some i" by blast
    obtain t where "bwrite i s = Ret () t" "bc p dev t h (sp_pins a) (sp_view a)" "disk t = (disk s)(unat b := sp_view a b)"
      by (rule bio.bwrite [OF bc i])
    then show ?thesis using Flush r dom dsk i inj by (simp add: code_step_def simulates_def)
  next
    case (Release b)
    then have b: "b \<in> sp_held a" "0 < sp_pins a b \<or> sp_view a b = disk s (unat b)"
      and r: "r = None" "a' = a\<lparr>sp_held := sp_held a - {b}\<rparr>" using assms(2) dsk by (auto split: if_splits)
    from held [OF b(1)] obtain i where i: "h b = Some i" by blast
    obtain t where "brelse i s = Ret () t" "bc p dev t (h(b := None)) (sp_pins a) (sp_view a)" "disk t = disk s"
      by (rule bio.brelse [OF bc i b(2)])
    then show ?thesis using Release r dom dsk i by (simp add: code_step_def simulates_def)
  next
    case (Pin b)
    then have b: "b \<in> sp_held a" "sp_pins a b < 900"
      and r: "r = None" "a' = a\<lparr>sp_pins := (sp_pins a)(b := Suc (sp_pins a b))\<rparr>" using assms(2) by (auto split: if_splits)
    from held [OF b(1)] obtain i where i: "h b = Some i" by blast
    obtain t where "bpin i s = Ret () t" "bc p dev t h ((sp_pins a)(b := Suc (sp_pins a b))) (sp_view a)" "disk t = disk s"
      by (rule bio.bpin [OF bc i b(2)])
    then show ?thesis using Pin r dom dsk i by (simp add: code_step_def simulates_def)
  next
    case (Unpin b)
    then have b: "b \<in> sp_held a" "sp_pins a b = Suc (sp_pins a b - 1)"
      and r: "r = None" "a' = a\<lparr>sp_pins := (sp_pins a)(b := sp_pins a b - 1)\<rparr>" using assms(2) by (auto split: if_splits)
    from held [OF b(1)] obtain i where i: "h b = Some i" by blast
    obtain t where "bunpin i s = Ret () t" "bc p dev t h ((sp_pins a)(b := sp_pins a b - 1)) (sp_view a)" "disk t = disk s"
      by (rule bio.bunpin [OF bc i b(2)])
    then show ?thesis using Unpin r dom dsk i by (simp add: code_step_def simulates_def)
  qed
qed

lemma simulates_run:
  "simulates p dev a h s \<Longrightarrow> spec_run ops a = Some (rs, a') \<Longrightarrow>
     \<exists>h' t. code_run dev ops h s = Ret (rs, h') t \<and> simulates p dev a' h' t"
proof (induction ops arbitrary: a h s rs)
  case Nil
  then show ?case by simp
next
  case (Cons op ops)
  from Cons.prems(2) obtain r a1 rs1 where r: "spec_step op a = Some (r, a1)" "spec_run ops a1 = Some (rs1, a')" "rs = r # rs1"
    by (auto split: option.splits prod.splits)
  obtain h1 t1 where 1: "code_step dev op h s = Ret (r, h1) t1" "simulates p dev a1 h1 t1"
    using simulates_step [OF Cons.prems(1) r(1)] by blast
  obtain h2 t2 where "code_run dev ops h1 t1 = Ret (rs1, h2) t2" "simulates p dev a' h2 t2"
    using Cons.IH [OF 1(2) r(2)] by blast
  then show ?case using 1 r(3) by simp
qed

text \<open>C6: the buffer cache refines a map from block numbers to contents.  Starting from a
  freshly initialised cache, every sequence of reads, modifications, write-throughs, releases,
  pins and unpins that is allowed by the specification runs to completion (no panic, no waiting),
  every read gives the contents the specification gives, and the disk ends up as specified, in
  spite of the recycling of the 30 buffers.\<close>

theorem bcache_refines:
  assumes "calm p s" "lru (bufs s) xs" "dev \<noteq> 0" "\<And>i. i < NBUF \<Longrightarrow> idle_buf s i \<and> \<not> sl_locked (sleeplocks s (SL_buf i))"
    and "spec_run ops \<lparr>sp_held = {}, sp_pins = (\<lambda>_. 0), sp_view = (\<lambda>b. disk s (unat b)), sp_disk = (\<lambda>b. disk s (unat b))\<rparr> = Some (rs, a)"
  shows "\<exists>h t. code_run dev ops (\<lambda>_. None) s = Ret (rs, h) t \<and> dom h = sp_held a \<and> (\<forall>b. disk t (unat b) = sp_disk a b)"
proof -
  have "simulates p dev \<lparr>sp_held = {}, sp_pins = (\<lambda>_. 0), sp_view = (\<lambda>b. disk s (unat b)), sp_disk = (\<lambda>b. disk s (unat b))\<rparr> (\<lambda>_. None) s"
    using fresh_cache [OF assms(1-4)] by (simp add: simulates_def)
  from simulates_run [OF this assms(5)] show ?thesis by (auto simp: simulates_def)
qed

theorem bcache_refines_witness:
  "\<exists>h t. code_run 1 [Read 5, Modify 5 (\<lambda>_. 7), Flush 5, Release 5, Read 5] (\<lambda>_. None) (bio_boot (\<lambda>_ _. 0) ()) =
       Ret ([Some (\<lambda>_. 0), None, None, None, Some (\<lambda>_. 7)], h) t \<and> dom h = {5} \<and> (\<forall>b :: uint. disk t (unat b) = (if b = 5 then (\<lambda>_. 7) else (\<lambda>_. 0)))"
proof -
  let ?s = "bio_boot (\<lambda>_ _. 0) ()"
  have sp: "spec_run [Read 5, Modify 5 (\<lambda>_. 7), Flush 5, Release 5, Read 5]
      \<lparr>sp_held = {}, sp_pins = (\<lambda>_. 0), sp_view = (\<lambda>b. disk ?s (unat b)), sp_disk = (\<lambda>b. disk ?s (unat b))\<rparr> =
    Some ([Some (\<lambda>_. 0), None, None, None, Some (\<lambda>_. 7)],
      \<lparr>sp_held = {5}, sp_pins = (\<lambda>_. 0), sp_view = (\<lambda>b _. 0)(5 := (\<lambda>_. 7)), sp_disk = (\<lambda>b _. 0)(5 := (\<lambda>_. 7))\<rparr>)"
    by (simp add: NBUF_def MAXOPBLOCKS_def)
  have l: "lru (bufs ?s) (rev [0..<NBUF])" by (simp add: boot_bufs_lru)
  have i: "\<And>i. i < NBUF \<Longrightarrow> idle_buf ?s i \<and> \<not> sl_locked (sleeplocks ?s (SL_buf i))" by (simp add: bio_boot_idle)
  have one: "(1 :: uint) \<noteq> 0" by simp
  have "\<exists>h t. code_run 1 [Read 5, Modify 5 (\<lambda>_. 7), Flush 5, Release 5, Read 5] (\<lambda>_. None) ?s =
       Ret ([Some (\<lambda>_. 0), None, None, None, Some (\<lambda>_. 7)], h) t \<and>
       dom h = sp_held \<lparr>sp_held = {5}, sp_pins = (\<lambda>_. 0), sp_view = (\<lambda>b _. 0)(5 := (\<lambda>_. 7)), sp_disk = (\<lambda>b _. 0)(5 := (\<lambda>_. 7))\<rparr> \<and>
       (\<forall>b. disk t (unat b) = sp_disk \<lparr>sp_held = {5}, sp_pins = (\<lambda>_. 0), sp_view = (\<lambda>b _. 0)(5 := (\<lambda>_. 7)), sp_disk = (\<lambda>b _. 0)(5 := (\<lambda>_. 7))\<rparr> b)"
    by (rule bcache_refines [OF bio_boot_calm l one i sp]) assumption
  then show ?thesis by (simp only: bspec.simps fun_upd_def if_distrib [of "\<lambda>f. f _"])
qed

theorem binit_list_witness:
  "\<exists>t. binit (bio_boot (\<lambda>_ _. 0) ()) = Ret () t \<and> lru (bufs t) (rev [0..<NBUF]) \<and> \<not> sl_locked (sleeplocks t (SL_buf 3))"
  using binit_list [of "bio_boot (\<lambda>_ _. 0) ()"] by (auto simp: NBUF_def MAXOPBLOCKS_def)

end
