(* ===== verification/Log.thy ===== *)
theory Log
  imports Bcache
begin

text \<open>
  The write-ahead log, \<^verbatim>\<open>kernel/log.c\<close>.  \<open>begin_op\<close> ends in \<open>Switch\<close> when it has to wait;
  \<open>begin_op_resume\<close> is the rest of its loop.  The entries of \<^verbatim>\<open>log.lh.block[]\<close> are block
  numbers, only ever copied, compared with a \<^verbatim>\<open>uint\<close> and passed to \<open>bread\<close>, and are kept as
  32-bit words; indexing beyond the array is a \<open>Fault\<close>.
\<close>

record superblock =
  sb_magic :: uint
  sb_size :: uint
  sb_nblocks :: uint
  sb_ninodes :: uint
  sb_nlog :: uint
  sb_logstart :: uint
  sb_inodestart :: uint
  sb_bmapstart :: uint

record logheader =
  lh_n :: int
  lh_block :: "uint list"

record klog =
  lg_start :: int
  lg_size :: int
  lg_outstanding :: int
  lg_committing :: bool
  lg_dev :: uint
  lg_lh :: logheader

record lstate = bstate +
  klog :: klog

definition upd_log :: "(klog \<Rightarrow> klog) \<Rightarrow> 'z lstate_scheme \<Rightarrow> 'z lstate_scheme" where
  "upd_log f s = s\<lparr>klog := f (klog s)\<rparr>"

definition upd_lh :: "(logheader \<Rightarrow> logheader) \<Rightarrow> 'z lstate_scheme \<Rightarrow> 'z lstate_scheme" where
  "upd_lh f s = upd_log (\<lambda>l. l\<lparr>lg_lh := f (lg_lh l)\<rparr>) s"

abbreviation (input) log_n :: "'z lstate_scheme \<Rightarrow> int" where
  "log_n s \<equiv> lh_n (lg_lh (klog s))"

text \<open>Reading entry \<open>i\<close> of the in-memory header.\<close>

definition log_entry :: "nat \<Rightarrow> ('z lstate_scheme \<Rightarrow> uint \<Rightarrow> ('z lstate_scheme, 'r) outcome) \<Rightarrow> 'z lstate_scheme \<Rightarrow> ('z lstate_scheme, 'r) outcome" where
  "log_entry i k s = (if i < LOGSIZE then k s (lh_block (lg_lh (klog s)) ! i) else Fault ''log.lh.block'')"

definition log_block :: "nat \<Rightarrow> 'z lstate_scheme \<Rightarrow> uint" where
  "log_block tail s = of_int (lg_start (klog s) + int tail + 1)"

definition install_trans :: "int \<Rightarrow> 'z lstate_scheme \<Rightarrow> ('z lstate_scheme, unit) outcome" where
  "install_trans recovering s =
     for_each [0..<nat (log_n s)] (\<lambda>tail s.
       bnd (bread (lg_dev (klog s)) (log_block tail s) s) (\<lambda>lbuf s.
       log_entry tail (\<lambda>s blk.
       bnd (bread (lg_dev (klog s)) blk s) (\<lambda>dbuf s.
       bnd (bwrite dbuf (set_data dbuf (b_data (bufs s lbuf)) s)) (\<lambda>_ s.
       bnd (if recovering = 0 then bunpin dbuf s else Ret () s) (\<lambda>_ s.
       bnd (brelse lbuf s) (\<lambda>_ s.
       brelse dbuf s))))) s)) s"

definition read_head :: "'z lstate_scheme \<Rightarrow> ('z lstate_scheme, unit) outcome" where
  "read_head s =
     bnd (bread (lg_dev (klog s)) (of_int (lg_start (klog s))) s) (\<lambda>buf s.
       let lh = b_data (bufs s buf);
           s = upd_lh (\<lambda>h. h\<lparr>lh_n := sint (get_le 4 lh 0 :: uint)\<rparr>) s
       in bnd (for_each [0..<nat (log_n s)] (\<lambda>i s.
            if i < LOGSIZE
            then Ret () (upd_lh (\<lambda>h. h\<lparr>lh_block := (lh_block h)[i := get_le 4 lh (4 + 4 * i)]\<rparr>) s)
            else Fault ''log.lh.block'') s) (\<lambda>_ s.
          brelse buf s))"

definition write_head :: "'z lstate_scheme \<Rightarrow> ('z lstate_scheme, unit) outcome" where
  "write_head s =
     bnd (bread (lg_dev (klog s)) (of_int (lg_start (klog s))) s) (\<lambda>buf s.
       let s = set_data buf (put_le 4 0 (of_int (log_n s) :: uint) (b_data (bufs s buf))) s
       in bnd (for_each [0..<nat (log_n s)] (\<lambda>i s.
            log_entry i (\<lambda>s blk. Ret () (set_data buf (put_le 4 (4 + 4 * i) blk (b_data (bufs s buf))) s)) s) s) (\<lambda>_ s.
          bnd (bwrite buf s) (\<lambda>_ s.
          brelse buf s)))"

definition recover_from_log :: "'z lstate_scheme \<Rightarrow> ('z lstate_scheme, unit) outcome" where
  "recover_from_log s =
     bnd (read_head s) (\<lambda>_ s.
     bnd (install_trans 1 s) (\<lambda>_ s.
     write_head (upd_lh (\<lambda>h. h\<lparr>lh_n := 0\<rparr>) s)))"

definition initlog :: "int \<Rightarrow> superblock \<Rightarrow> 'z lstate_scheme \<Rightarrow> ('z lstate_scheme, unit) outcome" where
  "initlog dev sb s =
     (if 4 + 4 * LOGSIZE \<ge> BSIZE then Panic ''initlog: too big logheader''
      else recover_from_log (upd_log (\<lambda>l. l\<lparr>lg_start := sint (sb_logstart sb), lg_size := sint (sb_nlog sb), lg_dev := of_int dev\<rparr>)
             (initlock L_log ''log'' s)))"

text \<open>The body of the loop of \<open>begin_op\<close>, with the log lock held.\<close>

definition begin_op_loop :: "'z lstate_scheme \<Rightarrow> ('z lstate_scheme, unit) outcome" where
  "begin_op_loop s =
     (if lg_committing (klog s) then sleep C_log L_log s
      else if log_n s + (lg_outstanding (klog s) + 1) * int MAXOPBLOCKS > int LOGSIZE then sleep C_log L_log s
      else release L_log (upd_log (\<lambda>l. l\<lparr>lg_outstanding := wrap32 (lg_outstanding l + 1)\<rparr>) s))"

definition begin_op :: "'z lstate_scheme \<Rightarrow> ('z lstate_scheme, unit) outcome" where
  "begin_op s = bnd (acquire L_log s) (\<lambda>_ s. begin_op_loop s)"

definition begin_op_resume :: "nat \<Rightarrow> bool \<Rightarrow> 'z lstate_scheme \<Rightarrow> ('z lstate_scheme, unit) outcome" where
  "begin_op_resume p saved s = bnd (sleep_resume p saved L_log s) (\<lambda>_ s. begin_op_loop s)"

definition write_log :: "'z lstate_scheme \<Rightarrow> ('z lstate_scheme, unit) outcome" where
  "write_log s =
     for_each [0..<nat (log_n s)] (\<lambda>tail s.
       bnd (bread (lg_dev (klog s)) (log_block tail s) s) (\<lambda>to s.
       log_entry tail (\<lambda>s blk.
       bnd (bread (lg_dev (klog s)) blk s) (\<lambda>from s.
       bnd (bwrite to (set_data to (b_data (bufs s from)) s)) (\<lambda>_ s.
       bnd (brelse from s) (\<lambda>_ s.
       brelse to s)))) s)) s"

definition commit :: "'z lstate_scheme \<Rightarrow> ('z lstate_scheme, unit) outcome" where
  "commit s =
     (if log_n s > 0 then
        bnd (write_log s) (\<lambda>_ s.
        bnd (write_head s) (\<lambda>_ s.
        bnd (install_trans 0 s) (\<lambda>_ s.
        write_head (upd_lh (\<lambda>h. h\<lparr>lh_n := 0\<rparr>) s))))
      else Ret () s)"

definition end_op :: "'z lstate_scheme \<Rightarrow> ('z lstate_scheme, unit) outcome" where
  "end_op s =
     bnd (acquire L_log s) (\<lambda>_ s.
       let s = upd_log (\<lambda>l. l\<lparr>lg_outstanding := wrap32 (lg_outstanding l - 1)\<rparr>) s in
       if lg_committing (klog s) then Panic ''log.committing''
       else if lg_outstanding (klog s) = 0 then
         bnd (release L_log (upd_log (\<lambda>l. l\<lparr>lg_committing := True\<rparr>) s)) (\<lambda>_ s.
         bnd (commit s) (\<lambda>_ s.
         bnd (acquire L_log s) (\<lambda>_ s.
         bnd (wakeup (Some C_log) (upd_log (\<lambda>l. l\<lparr>lg_committing := False\<rparr>) s)) (\<lambda>_ s.
         release L_log s))))
       else bnd (wakeup (Some C_log) s) (\<lambda>_ s. release L_log s))"

text \<open>The search of \<open>log_write\<close>: the first entry with the block number, or the number of entries.\<close>

fun log_find :: "nat \<Rightarrow> nat \<Rightarrow> uint \<Rightarrow> uint list \<Rightarrow> nat" where
  "log_find 0 i b bs = i"
| "log_find (Suc k) i b bs = (if bs ! i = b then i else log_find k (Suc i) b bs)"

definition log_write :: "nat \<Rightarrow> 'z lstate_scheme \<Rightarrow> ('z lstate_scheme, unit) outcome" where
  "log_write b s =
     bnd (acquire L_log s) (\<lambda>_ s.
       if log_n s \<ge> int LOGSIZE \<or> log_n s \<ge> lg_size (klog s) - 1 then Panic ''too big a transaction''
       else if lg_outstanding (klog s) < 1 then Panic ''log_write outside of trans''
       else
         let i = log_find (nat (log_n s)) 0 (b_blockno (bufs s b)) (lh_block (lg_lh (klog s)));
             s = upd_lh (\<lambda>h. h\<lparr>lh_block := (lh_block h)[i := b_blockno (bufs s b)]\<rparr>) s
         in bnd (if int i = log_n s
                 then bnd (bpin b s) (\<lambda>_ s. Ret () (upd_lh (\<lambda>h. h\<lparr>lh_n := lh_n h + 1\<rparr>) s))
                 else Ret () s) (\<lambda>_ s.
            release L_log s))"

end
