(* ===== verification/Logspec.thy ===== *)
theory Logspec
  imports Log
begin

text \<open>
  Crash safety of the log.  The first part adds to the buffer cache interface the two block
  copies of the log; then come the loops of \<open>write_log\<close>, \<open>install_trans\<close> and the header, the
  effect of \<open>recover_from_log\<close> as a function on disks, and the theorem that a crash between any
  two disk writes of \<open>commit\<close>, followed by recovery, leaves all of the transaction or none.
\<close>

section \<open>Copying blocks through the cache\<close>

text \<open>
  Between transactions steps of the log code no buffer is locked; the blocks in \<open>L\<close> are pinned
  once and hold new contents \<open>N\<close>, all others are as on disk.
\<close>

definition pins :: "uint set \<Rightarrow> uint \<Rightarrow> nat" where
  "pins L b = (if b \<in> L then 1 else 0)"

definition over :: "uint set \<Rightarrow> (uint \<Rightarrow> block) \<Rightarrow> (nat \<Rightarrow> block) \<Rightarrow> uint \<Rightarrow> block" where
  "over L N d = (\<lambda>b. if b \<in> L then N b else d (unat b))"

lemma used_pins [simp]: "used (\<lambda>_. None) (pins L) = L" "used ((\<lambda>_. None)(x \<mapsto> i)) (pins L) = insert x L"
  by (auto simp: used_def pins_def)

lemma over_upd: "x \<notin> L \<Longrightarrow> (over L N d)(x := v) = over L N (d(unat x := v))"
  by (auto simp: over_def fun_eq_iff dest: unsigned_word_eqI)

lemma over_installed: "(over L N d)(x := v) = over (L - {x}) N (d(unat x := v))"
  by (auto simp: over_def fun_eq_iff dest: unsigned_word_eqI)

lemma pins_less: "(pins L)(x := 0) = pins (L - {x})"
  by (auto simp: pins_def fun_eq_iff)

context block_cache
begin

text \<open>Copy a pinned block to an unpinned one (a step of \<open>write_log\<close>).\<close>

lemma copy_out:
  assumes "cache s (\<lambda>_. None) (pins L) (over L N (disk s))" "y \<in> L" "x \<notin> L" "card L < nbuf"
  obtains a s1 b s2 s3 s4 s5 where "bread x s = Ret a s1" "bread y s1 = Ret b s2" "data s2 b = N y"
    "bwrite a (set_data a (N y) s2) = Ret () s3" "brelse b s3 = Ret () s4" "brelse a s4 = Ret () s5"
    "frame s s1" "cache s5 (\<lambda>_. None) (pins L) (over L N (disk s5))"
    "disk s5 = (disk s)(unat x := N y)" "trace s5 = trace s @ [(unat x, N y)]" "frame s s5"
proof -
  let ?V = "over L N (disk s)" and ?H = "\<lambda>_. None"
  note c = assms(1)
  obtain a s1 where 1: "bread x s = Ret a s1" "cache s1 (?H(x \<mapsto> a)) (pins L) ?V" "data s1 a = ?V x" "disk s1 = disk s" "trace s1 = trace s" "frame s s1"
    by (rule bread [OF c]) (use assms in simp_all)
  have y: "(?H(x \<mapsto> a)) y = None" "card (used (?H(x \<mapsto> a)) (pins L)) < nbuf \<or> 0 < pins L y"
    using assms(2,3) by (auto simp: pins_def)
  obtain b s2 where 2: "bread y s1 = Ret b s2" "cache s2 (?H(x \<mapsto> a, y \<mapsto> b)) (pins L) ?V" "data s2 b = ?V y" "disk s2 = disk s1" "trace s2 = trace s1" "frame s1 s2"
    by (rule bread [OF 1(2) y])
  have ha: "(?H(x \<mapsto> a, y \<mapsto> b)) x = Some a" using assms(2,3) by auto
  let ?s = "set_data a (N y) s2"
  obtain s3 where 3: "bwrite a ?s = Ret () s3" "cache s3 (?H(x \<mapsto> a, y \<mapsto> b)) (pins L) (?V(x := N y))"
    "disk s3 = (disk ?s)(unat x := (?V(x := N y)) x)" "trace s3 = trace ?s @ [(unat x, (?V(x := N y)) x)]" "frame ?s s3"
    by (rule bwrite [OF set_data(1) [OF 2(2) ha] ha])
  have hb: "(?H(x \<mapsto> a, y \<mapsto> b)) y = Some b" "0 < pins L y \<or> (?V(x := N y)) y = disk s3 (unat y)" using assms(2,3) by (auto simp: pins_def)
  obtain s4 where 4: "brelse b s3 = Ret () s4" "cache s4 (?H(x \<mapsto> a, y \<mapsto> b, y := None)) (pins L) (?V(x := N y))"
    "disk s4 = disk s3" "trace s4 = trace s3" "frame s3 s4"
    by (rule brelse [OF 3(2) hb])
  have ha': "(?H(x \<mapsto> a, y \<mapsto> b, y := None)) x = Some a" "0 < pins L x \<or> (?V(x := N y)) x = disk s4 (unat x)"
    using assms(2,3) 3(3) 4(3) by auto
  obtain s5 where 5: "brelse a s4 = Ret () s5" "cache s5 (?H(x \<mapsto> a, y \<mapsto> b, y := None, x := None)) (pins L) (?V(x := N y))"
    "disk s5 = disk s4" "trace s5 = trace s4" "frame s4 s5"
    by (rule brelse [OF 4(2) ha'])
  have d: "disk s5 = (disk s)(unat x := N y)" "trace s5 = trace s @ [(unat x, N y)]"
    using 1(4,5) 2(4,5) 3(3,4) 4(3,4) 5(3,4) set_data(2,3) by simp_all
  have f: "frame s s5"
    by (rule frame_trans [OF 1(6) frame_trans [OF 2(6) frame_trans [OF set_data(4) frame_trans [OF 3(5) frame_trans [OF 4(5) 5(5)]]]]])
  have h: "?H(x \<mapsto> a, y \<mapsto> b, y := None, x := None) = ?H" by auto
  have c5: "cache s5 ?H (pins L) (over L N (disk s5))" using 5(2) by (simp only: h d(1) over_upd [OF assms(3)])
  have dt: "data s2 b = N y" using 2(3) assms(2) by (simp add: over_def)
  show ?thesis by (rule that [OF 1(1) 2(1) dt 3(1) 4(1) 5(1) 1(6) c5 d f])
qed

text \<open>Copy a log block home (a step of \<open>install_trans\<close>), with or without unpinning.\<close>

lemma copy_home:
  assumes "cache s (\<lambda>_. None) (pins L) (over L N (disk s))" "x \<notin> L" "x \<noteq> y" "card L < nbuf" "if unpin then y \<in> L else L = {} \<and> 1 < nbuf"
  obtains a s1 b s2 s3 s4 s5 s6 where "bread x s = Ret a s1" "bread y s1 = Ret b s2" "data s2 a = disk s (unat x)"
    "bwrite b (set_data b (disk s (unat x)) s2) = Ret () s3" "(if unpin then bunpin b s3 else Ret () s3) = Ret () s4"
    "brelse a s4 = Ret () s5" "brelse b s5 = Ret () s6"
    "frame s s1" "cache s6 (\<lambda>_. None) (pins (L - {y})) (over (L - {y}) N (disk s6))"
    "disk s6 = (disk s)(unat y := disk s (unat x))" "trace s6 = trace s @ [(unat y, disk s (unat x))]" "frame s s6"
proof -
  let ?V = "over L N (disk s)" and ?H = "\<lambda>_. None" and ?d = "disk s (unat x)"
  note c = assms(1)
  have vx: "?V x = ?d" using assms(2) by (simp add: over_def)
  obtain a s1 where 1: "bread x s = Ret a s1" "cache s1 (?H(x \<mapsto> a)) (pins L) ?V" "data s1 a = ?V x" "disk s1 = disk s" "trace s1 = trace s" "frame s s1"
    by (rule bread [OF c]) (use assms in simp_all)
  have y: "(?H(x \<mapsto> a)) y = None" "card (used (?H(x \<mapsto> a)) (pins L)) < nbuf \<or> 0 < pins L y"
    using assms(3,5) by (auto simp: pins_def split: if_splits)
  obtain b s2 where 2: "bread y s1 = Ret b s2" "cache s2 (?H(x \<mapsto> a, y \<mapsto> b)) (pins L) ?V" "data s2 b = ?V y" "disk s2 = disk s1" "trace s2 = trace s1" "frame s1 s2"
    by (rule bread [OF 1(2) y])
  have ha: "(?H(x \<mapsto> a, y \<mapsto> b)) x = Some a" and hb: "(?H(x \<mapsto> a, y \<mapsto> b)) y = Some b" using assms(3) by auto
  let ?s = "set_data b ?d s2" and ?W = "?V(y := ?d)"
  obtain s3 where 3: "bwrite b ?s = Ret () s3" "cache s3 (?H(x \<mapsto> a, y \<mapsto> b)) (pins L) ?W"
    "disk s3 = (disk ?s)(unat y := ?W y)" "trace s3 = trace ?s @ [(unat y, ?W y)]" "frame ?s s3"
    by (rule bwrite [OF set_data(1) [OF 2(2) hb] hb])
  have "\<exists>s4. (if unpin then bunpin b s3 else Ret () s3) = Ret () s4 \<and>
      cache s4 (?H(x \<mapsto> a, y \<mapsto> b)) (pins (L - {y})) ?W \<and> disk s4 = disk s3 \<and> trace s4 = trace s3 \<and> frame s3 s4"
  proof (cases unpin)
    case True
    then have p: "pins L y = Suc 0" using assms(5) by (simp add: pins_def)
    obtain s4 where "bunpin b s3 = Ret () s4" "cache s4 (?H(x \<mapsto> a, y \<mapsto> b)) ((pins L)(y := 0)) ?W" "disk s4 = disk s3" "trace s4 = trace s3" "frame s3 s4"
      by (rule bunpin [OF 3(2) hb p])
    then show ?thesis using True by (simp add: pins_less)
  next
    case False
    then show ?thesis using 3(2) assms(5) frame_refl by simp
  qed
  then obtain s4 where 4: "(if unpin then bunpin b s3 else Ret () s3) = Ret () s4"
      "cache s4 (?H(x \<mapsto> a, y \<mapsto> b)) (pins (L - {y})) ?W" "disk s4 = disk s3" "trace s4 = trace s3" "frame s3 s4"
    by blast
  have dx: "unat x \<noteq> unat y" using assms(3) by (metis unsigned_word_eqI)
  have d4: "disk s4 = (disk s)(unat y := ?d)" using 1(4) 2(4) 3(3) 4(3) set_data(2) by simp
  have ra: "0 < pins (L - {y}) x \<or> ?W x = disk s4 (unat x)" using d4 dx vx assms(3) by simp
  obtain s5 where 5: "brelse a s4 = Ret () s5" "cache s5 (?H(x \<mapsto> a, y \<mapsto> b, x := None)) (pins (L - {y})) ?W"
    "disk s5 = disk s4" "trace s5 = trace s4" "frame s4 s5"
    by (rule brelse [OF 4(2) ha ra])
  have hb': "(?H(x \<mapsto> a, y \<mapsto> b, x := None)) y = Some b" and rb: "0 < pins (L - {y}) y \<or> ?W y = disk s5 (unat y)"
    using assms(3) d4 5(3) by auto
  obtain s6 where 6: "brelse b s5 = Ret () s6" "cache s6 (?H(x \<mapsto> a, y \<mapsto> b, x := None, y := None)) (pins (L - {y})) ?W"
    "disk s6 = disk s5" "trace s6 = trace s5" "frame s5 s6"
    by (rule brelse [OF 5(2) hb' rb])
  have d: "disk s6 = (disk s)(unat y := ?d)" "trace s6 = trace s @ [(unat y, ?d)]"
    using d4 1(5) 2(5) 3(4) 4(4) 5(3,4) 6(3,4) set_data(3) by simp_all
  have f: "frame s s6"
    by (rule frame_trans [OF 1(6) frame_trans [OF 2(6) frame_trans [OF set_data(4) frame_trans [OF 3(5) frame_trans [OF 4(5) frame_trans [OF 5(5) 6(5)]]]]]])
  have h: "?H(x \<mapsto> a, y \<mapsto> b, x := None, y := None) = ?H" by auto
  have c6: "cache s6 ?H (pins (L - {y})) (over (L - {y}) N (disk s6))" using 6(2) by (simp only: h d(1) over_installed)
  have dt: "data s2 a = ?d" using held [OF 2(2) ha] vx by simp
  show ?thesis by (rule that [OF 1(1) 2(1) dt 3(1) 4(1) 5(1) 6(1) 1(6) c6 d f])
qed

end

section \<open>The loops of the log\<close>

definition logged :: "nat \<Rightarrow> uint \<Rightarrow> 'z bstate_scheme \<Rightarrow> uint set \<Rightarrow> (uint \<Rightarrow> block) \<Rightarrow> bool" where
  "logged p dev s L N \<longleftrightarrow> bc p dev s (\<lambda>_. None) (pins L) (over L N (disk s))"

definition apply_writes :: "(nat \<times> block) list \<Rightarrow> (nat \<Rightarrow> block) \<Rightarrow> nat \<Rightarrow> block" where
  "apply_writes ws d = fold (\<lambda>(b, x) d. d(b := x)) ws d"

definition wrote :: "nat \<Rightarrow> 'z bstate_scheme \<Rightarrow> (nat \<times> block) list \<Rightarrow> 'z bstate_scheme \<Rightarrow> bool" where
  "wrote p s ws t \<longleftrightarrow> disk t = apply_writes ws (disk s) \<and> dtrace t = dtrace s @ ws \<and> bframe p s t"

lemma apply_writes_simps [simp]:
  "apply_writes [] d = d" "apply_writes ((b, x) # ws) d = apply_writes ws (d(b := x))"
  "apply_writes (ws @ vs) d = apply_writes vs (apply_writes ws d)"
  by (simp_all add: apply_writes_def)

lemma apply_writes_other: "b \<notin> fst ` set ws \<Longrightarrow> apply_writes ws d b = d b"
  by (induction ws arbitrary: d) auto

lemma wrote_Nil [simp]: "wrote p s [] s"
  by (simp add: wrote_def)

lemma wrote_append: "wrote p s ws t \<Longrightarrow> wrote p t vs u \<Longrightarrow> wrote p s (ws @ vs) u"
  using bframe_trans by (auto simp: wrote_def)

lemma wrote_one:
  "disk t = (disk s)(b := x) \<Longrightarrow> dtrace t = dtrace s @ [(b, x)] \<Longrightarrow> bframe p s t \<Longrightarrow> wrote p s [(b, x)] t"
  by (simp add: wrote_def)

lemma bframe_klog: "bframe p s t \<Longrightarrow> klog t = klog s"
  by (cases s; cases t) (simp add: bframe_def)

lemma wrote_klog: "wrote p s ws t \<Longrightarrow> klog t = klog s"
  by (rule bframe_klog [of p]) (simp add: wrote_def)

lemma unat32_of_nat: "n < 2 ^ 32 \<Longrightarrow> unat (of_nat n :: uint) = n"
  by (simp add: unat_of_nat take_bit_nat_eq_self)

text \<open>The log area is the \<open>LOGSIZE\<close> blocks that \<^verbatim>\<open>mkfs\<close> reserves for it (\<open>nlog\<close>): the
  header block \<open>st\<close> and the \<open>LOGSIZE - 1\<close> blocks after it that hold the logged copies.  The block
  \<open>st + LOGSIZE\<close> is the first block of inodes and is not part of it.\<close>

definition inlog :: "nat \<Rightarrow> nat \<Rightarrow> bool" where
  "inlog st b \<longleftrightarrow> st \<le> b \<and> b < st + LOGSIZE"

lemma LOGSIZE_pos [simp]: "0 < LOGSIZE"
  by (simp add: LOGSIZE_def MAXOPBLOCKS_def)

lemma inlog_st [simp]: "inlog st st"
  by (simp add: inlog_def)

lemma not_inlog_neq: "\<not> inlog st b \<Longrightarrow> b \<noteq> st"
  by auto

text \<open>A log whose in-memory header lists the blocks \<open>L\<close>, all outside the log area.  \<open>log_write\<close>
  refuses an entry beyond \<open>log.size - 1\<close>, so there are fewer than \<open>LOGSIZE\<close> of them.\<close>

definition log_lists :: "uint \<Rightarrow> nat \<Rightarrow> 'z lstate_scheme \<Rightarrow> uint list \<Rightarrow> bool" where
  "log_lists dev st s L \<longleftrightarrow> lg_dev (klog s) = dev \<and> lg_start (klog s) = int st \<and> st + LOGSIZE < 1000000 \<and>
     log_n s = int (length L) \<and> length L < LOGSIZE \<and> length (lh_block (lg_lh (klog s))) = LOGSIZE \<and>
     take (length L) (lh_block (lg_lh (klog s))) = L \<and> (\<forall>b\<in>set L. \<not> inlog st (unat b))"

lemma log_listsD:
  assumes "log_lists dev st s L" "i < length L"
  shows "lh_block (lg_lh (klog s)) ! i = L ! i" "i + 1 < LOGSIZE" "log_block i s = of_nat (st + i + 1)"
    "unat (log_block i s) = st + i + 1" "inlog st (unat (log_block i s))" "log_block i s \<notin> set L"
proof -
  have l: "length L < LOGSIZE" "st + LOGSIZE < 1000000" "take (length L) (lh_block (lg_lh (klog s))) = L" "lg_start (klog s) = int st"
    using assms(1) by (simp_all add: log_lists_def)
  show "lh_block (lg_lh (klog s)) ! i = L ! i" using l(3) assms(2) by (metis nth_take)
  show i: "i + 1 < LOGSIZE" using assms(2) l(1) by simp
  show b: "log_block i s = of_nat (st + i + 1)" using l(4) by (simp add: log_block_def)
  show u: "unat (log_block i s) = st + i + 1" unfolding b using l(2) i by (intro unat32_of_nat) simp
  show n: "inlog st (unat (log_block i s))" using u i by (simp add: inlog_def)
  show "log_block i s \<notin> set L" using assms(1) n by (auto simp: log_lists_def)
qed

lemma log_block_cong: "klog t = klog s \<Longrightarrow> log_block i t = log_block i s"
  by (simp add: log_block_def)

lemma write_log_step:
  assumes "log_lists dev st s L" "klog t = klog s" "logged p dev t (set L) N" "k < length L" "length L < NBUF"
  shows "returns (bnd (bread (lg_dev (klog t)) (log_block k t) t) (\<lambda>to s.
       log_entry k (\<lambda>s blk.
       bnd (bread (lg_dev (klog s)) blk s) (\<lambda>from s.
       bnd (bwrite to (set_data to (b_data (bufs s from)) s)) (\<lambda>_ s.
       bnd (brelse from s) (\<lambda>_ s.
       brelse to s)))) s)) (\<lambda>_ u. logged p dev u (set L) N \<and> wrote p t [(st + k + 1, N (L ! k))] u)"
proof -
  note l = log_listsD [OF assms(1,4)]
  have dev: "lg_dev (klog t) = dev" using assms(1,2) by (simp add: log_lists_def)
  have "card (set L) < NBUF" using assms(5) card_length [of L] by linarith
  moreover have "bc p dev t (\<lambda>_. None) (pins (set L)) (over (set L) N (disk t))" using assms(3) by (simp add: logged_def)
  moreover have "L ! k \<in> set L" using assms(4) by simp
  moreover have "log_block k t \<notin> set L" using l(6) assms(2) log_block_cong by metis
  ultimately obtain a s1 b s2 s3 s4 s5 where
    c: "bread dev (log_block k t) t = Ret a s1" "bread dev (L ! k) s1 = Ret b s2" "b_data (bufs s2 b) = N (L ! k)"
    "bwrite a (set_data a (N (L ! k)) s2) = Ret () s3" "brelse b s3 = Ret () s4" "brelse a s4 = Ret () s5"
    "bframe p t s1" "bc p dev s5 (\<lambda>_. None) (pins (set L)) (over (set L) N (disk s5))"
    "disk s5 = (disk t)(unat (log_block k t) := N (L ! k))" "dtrace s5 = dtrace t @ [(unat (log_block k t), N (L ! k))]" "bframe p t s5"
    using bio.copy_out [where p = p and dev = dev and s = t and L = "set L" and N = N and y = "L ! k" and x = "log_block k t"] by blast
  have "klog s1 = klog s" using bframe_klog [OF c(7)] assms(2) by simp
  then have "log_entry k f s1 = f s1 (L ! k)" "lg_dev (klog s1) = dev" for f :: "_ \<Rightarrow> _ \<Rightarrow> (_, unit) outcome"
    using l(1,2) assms(2) dev by (simp_all add: log_entry_def)
  moreover have "unat (log_block k t) = st + k + 1" using l(4) assms(2) log_block_cong by metis
  ultimately show ?thesis
    using c dev by (simp add: logged_def wrote_one)
qed

lemma write_log_ok:
  assumes "log_lists dev st s L" "logged p dev s (set L) N" "length L < NBUF"
  shows "\<exists>t. write_log s = Ret () t \<and> logged p dev t (set L) N \<and> wrote p s (map (\<lambda>i. (st + i + 1, N (L ! i))) [0..<length L]) t"
proof -
  have n: "nat (log_n s) = length L" using assms(1) by (simp add: log_lists_def)
  have "returns (write_log s) (\<lambda>_ t. logged p dev t (set L) N \<and> wrote p s (map (\<lambda>i. (st + i + 1, N (L ! i))) [0..<length L]) t)"
    unfolding write_log_def n
  proof (rule for_each_upt)
    fix k t
    assume k: "k < length L" and I: "logged p dev t (set L) N \<and> wrote p s (map (\<lambda>i. (st + i + 1, N (L ! i))) [0..<k]) t"
    have kl: "klog t = klog s" using I wrote_klog by blast
    show "returns (bnd (bread (lg_dev (klog t)) (log_block k t) t) (\<lambda>to s.
       log_entry k (\<lambda>s blk.
       bnd (bread (lg_dev (klog s)) blk s) (\<lambda>from s.
       bnd (bwrite to (set_data to (b_data (bufs s from)) s)) (\<lambda>_ s.
       bnd (brelse from s) (\<lambda>_ s.
       brelse to s)))) s)) (\<lambda>_ u. logged p dev u (set L) N \<and> wrote p s (map (\<lambda>i. (st + i + 1, N (L ! i))) [0..<Suc k]) u)"
      by (rule returns_mono [OF write_log_step [OF assms(1) kl conjunct1 [OF I] k assms(3)]])
        (use I wrote_append in auto)
  qed (use assms(2) in simp_all)
  then show ?thesis by (simp add: returns_iff)
qed

text \<open>Which blocks are still pinned after \<open>k\<close> steps of \<open>install_trans\<close>.\<close>

definition left :: "int \<Rightarrow> uint list \<Rightarrow> nat \<Rightarrow> uint set" where
  "left recovering L k = (if recovering = 0 then set (drop k L) else {})"

lemma install_step:
  assumes "log_lists dev st s L" "klog t = klog s" "logged p dev t (left r L k) N" "k < length L"
    "r = 0 \<Longrightarrow> distinct L \<and> length L < NBUF"
  shows "returns (bnd (bread (lg_dev (klog t)) (log_block k t) t) (\<lambda>lbuf s.
       log_entry k (\<lambda>s blk.
       bnd (bread (lg_dev (klog s)) blk s) (\<lambda>dbuf s.
       bnd (bwrite dbuf (set_data dbuf (b_data (bufs s lbuf)) s)) (\<lambda>_ s.
       bnd (if r = 0 then bunpin dbuf s else Ret () s) (\<lambda>_ s.
       bnd (brelse lbuf s) (\<lambda>_ s.
       brelse dbuf s))))) s))
     (\<lambda>_ u. logged p dev u (left r L (Suc k)) N \<and> wrote p t [(unat (L ! k), disk t (st + k + 1))] u)"
proof -
  note l = log_listsD [OF assms(1,4)]
  have dev: "lg_dev (klog t) = dev" using assms(1,2) by (simp add: log_lists_def)
  have lb: "log_block k t = log_block k s" "unat (log_block k t) = st + k + 1" using l(4) assms(2) log_block_cong by metis+
  have sub: "left r L k \<subseteq> set L" by (auto simp: left_def dest: in_set_dropD)
  have "card (left r L k) \<le> length L" by (rule order_trans [OF card_mono [OF _ sub] card_length]) simp
  then have card: "card (left r L k) < NBUF" using assms(5) by (auto simp: left_def NBUF_def MAXOPBLOCKS_def split: if_splits)
  have x: "log_block k t \<notin> left r L k" "log_block k t \<noteq> L ! k" using l(6) lb(1) sub assms(4) by auto
  have Lk: "drop k L = L ! k # drop (Suc k) L" using assms(4) by (simp add: Cons_nth_drop_Suc)
  then have pin: "if (r = 0) then L ! k \<in> left r L k else left r L k = {} \<and> 1 < NBUF"
    by (simp add: left_def NBUF_def MAXOPBLOCKS_def)
  have next1: "left r L k - {L ! k} = left r L (Suc k)"
  proof (cases "r = 0")
    case True
    then have "distinct (drop k L)" using assms(5) by simp
    then show ?thesis using True Lk by (auto simp: left_def)
  next
    case False
    then show ?thesis by (simp add: left_def)
  qed
  have "bc p dev t (\<lambda>_. None) (pins (left r L k)) (over (left r L k) N (disk t))" using assms(3) by (simp add: logged_def)
  then obtain a s1 b s2 s3 s4 s5 s6 where
    c: "bread dev (log_block k t) t = Ret a s1" "bread dev (L ! k) s1 = Ret b s2" "b_data (bufs s2 a) = disk t (unat (log_block k t))"
    "bwrite b (set_data b (disk t (unat (log_block k t))) s2) = Ret () s3" "(if (r = 0) then bunpin b s3 else Ret () s3) = Ret () s4"
    "brelse a s4 = Ret () s5" "brelse b s5 = Ret () s6" "bframe p t s1"
    "bc p dev s6 (\<lambda>_. None) (pins (left r L k - {L ! k})) (over (left r L k - {L ! k}) N (disk s6))"
    "disk s6 = (disk t)(unat (L ! k) := disk t (unat (log_block k t)))"
    "dtrace s6 = dtrace t @ [(unat (L ! k), disk t (unat (log_block k t)))]" "bframe p t s6"
    using x card pin by (rule bio.copy_home [where p = p and dev = dev and s = t and L = "left r L k" and N = N and y = "L ! k" and x = "log_block k t" and unpin = "r = 0"])
  have "klog s1 = klog s" using bframe_klog [OF c(8)] assms(2) by simp
  then have "log_entry k f s1 = f s1 (L ! k)" "lg_dev (klog s1) = dev" for f :: "_ \<Rightarrow> _ \<Rightarrow> (_, unit) outcome"
    using l(1,2) assms(2) dev by (simp_all add: log_entry_def)
  then show ?thesis
    using c dev lb(2) next1 by (simp add: logged_def wrote_one)
qed

lemma install_trans_ok:
  assumes "log_lists dev st s L" "logged p dev s (left r L 0) N" "r = 0 \<Longrightarrow> distinct L \<and> length L < NBUF"
  shows "\<exists>t. install_trans r s = Ret () t \<and> logged p dev t {} N \<and>
     wrote p s (map (\<lambda>i. (unat (L ! i), disk s (st + i + 1))) [0..<length L]) t"
proof -
  let ?W = "\<lambda>k. map (\<lambda>i. (unat (L ! i), disk s (st + i + 1))) [0..<k]"
  have n: "nat (log_n s) = length L" using assms(1) by (simp add: log_lists_def)
  have "returns (install_trans r s) (\<lambda>_ t. logged p dev t (left r L (length L)) N \<and> wrote p s (?W (length L)) t)"
    unfolding install_trans_def n
  proof (rule for_each_upt)
    fix k t
    assume k: "k < length L" and I: "logged p dev t (left r L k) N \<and> wrote p s (?W k) t"
    have kl: "klog t = klog s" using I wrote_klog by blast
    have "disk t (st + k + 1) = disk s (st + k + 1)"
    proof -
      have "L ! i \<in> set L" if "i < k" for i using that k by simp
      then have "\<not> inlog st (unat (L ! i))" if "i < k" for i using that assms(1) by (simp add: log_lists_def)
      moreover have "inlog st (st + k + 1)" using log_listsD(2) [OF assms(1) k] by (simp add: inlog_def)
      ultimately have "st + k + 1 \<notin> fst ` set (?W k)" by fastforce
      then show ?thesis using I by (simp add: wrote_def apply_writes_other)
    qed
    then show "returns (bnd (bread (lg_dev (klog t)) (log_block k t) t) (\<lambda>lbuf s.
       log_entry k (\<lambda>s blk.
       bnd (bread (lg_dev (klog s)) blk s) (\<lambda>dbuf s.
       bnd (bwrite dbuf (set_data dbuf (b_data (bufs s lbuf)) s)) (\<lambda>_ s.
       bnd (if r = 0 then bunpin dbuf s else Ret () s) (\<lambda>_ s.
       bnd (brelse lbuf s) (\<lambda>_ s.
       brelse dbuf s))))) s)) (\<lambda>_ u. logged p dev u (left r L (Suc k)) N \<and> wrote p s (?W (Suc k)) u)"
      using I wrote_append
      by (intro returns_mono [OF install_step [OF assms(1) kl conjunct1 [OF I] k assms(3)]]) auto
  qed (use assms(2) in simp_all)
  then show ?thesis by (auto simp: returns_iff left_def split: if_splits)
qed

section \<open>The header block\<close>

definition hdr_n :: "block \<Rightarrow> int" where
  "hdr_n b = sint (get_le 4 b 0 :: uint)"

definition hdr_blk :: "block \<Rightarrow> nat \<Rightarrow> uint" where
  "hdr_blk b i = get_le 4 b (4 + 4 * i)"

definition put_header :: "nat \<Rightarrow> uint list \<Rightarrow> block \<Rightarrow> block" where
  "put_header n bs b = fold (\<lambda>i b. put_le 4 (4 + 4 * i) (bs ! i) b) [0..<n] (put_le 4 0 (of_nat n :: uint) b)"

lemma put_header_entries:
  assumes "k \<le> LOGSIZE" "j < LOGSIZE"
  shows "hdr_blk (fold (\<lambda>i b. put_le 4 (4 + 4 * i) (bs ! i) b) [0..<k] b) j = (if j < k then bs ! j else hdr_blk b j)"
    "get_le 4 (fold (\<lambda>i b. put_le 4 (4 + 4 * i) (bs ! i) b) [0..<k] b) 0 = (get_le 4 b 0 :: uint)"
proof -
  have ls: "LOGSIZE = 30" by (simp add: LOGSIZE_def MAXOPBLOCKS_def)
  show "get_le 4 (fold (\<lambda>i b. put_le 4 (4 + 4 * i) (bs ! i) b) [0..<k] b) 0 = (get_le 4 b 0 :: uint)"
    using assms(1) ls by (induction k) (simp_all add: get_put_le_other)
  show "hdr_blk (fold (\<lambda>i b. put_le 4 (4 + 4 * i) (bs ! i) b) [0..<k] b) j = (if j < k then bs ! j else hdr_blk b j)"
    using assms(1)
  proof (induction k)
    case 0
    then show ?case by simp
  next
    case (Suc k)
    then show ?case using assms(2) ls
      by (cases "j = k") (auto simp: hdr_blk_def get_put_le get_put_le_other)
  qed
qed

lemma put_header:
  assumes "n \<le> LOGSIZE"
  shows "hdr_n (put_header n bs b) = int n" "i < n \<Longrightarrow> hdr_blk (put_header n bs b) i = bs ! i"
proof -
  have ls: "LOGSIZE = 30" by (simp add: LOGSIZE_def MAXOPBLOCKS_def)
  have "sint (of_nat n :: uint) = int n" using assms ls
    by (simp add: signed_of_nat signed_take_bit_int_eq_self)
  then show "hdr_n (put_header n bs b) = int n"
    by (simp add: hdr_n_def put_header_def put_header_entries(2) [OF assms, of 0] ls get_put_le)

  show "i < n \<Longrightarrow> hdr_blk (put_header n bs b) i = bs ! i"
    using put_header_entries(1) [OF assms, of i] assms by (simp add: put_header_def)
qed

lemma set_data_simps [simp]:
  "b_data (bufs (set_data i d s) i) = d" "set_data i d (set_data i e s) = set_data i d s"
  "set_data i (b_data (bufs s i)) s = s" "klog (set_data i d s) = klog s"
  by (simp_all add: set_data_def upd_buf_def)

lemma write_head_fill:
  assumes "k \<le> LOGSIZE"
  shows "for_each [0..<k] (\<lambda>i s. log_entry i (\<lambda>s blk. Ret () (set_data buf (put_le 4 (4 + 4 * i) blk (b_data (bufs s buf))) s)) s) s =
     Ret () (set_data buf (fold (\<lambda>i b. put_le 4 (4 + 4 * i) (lh_block (lg_lh (klog s)) ! i) b) [0..<k] (b_data (bufs s buf))) s)"
  using assms by (induction k) (simp_all add: for_each_append log_entry_def)

lemma write_head_ok:
  assumes "lg_dev (klog s) = dev" "lg_start (klog s) = int st" "st + LOGSIZE < 1000000" "log_n s = int n" "n \<le> LOGSIZE"
    "logged p dev s L N" "of_nat st \<notin> L" "card L < NBUF"
  shows "\<exists>t. write_head s = Ret () t \<and> logged p dev t L N \<and>
     wrote p s [(st, put_header n (lh_block (lg_lh (klog s))) (disk s st))] t"
proof -
  let ?b = "of_nat st :: uint" and ?d = "put_header n (lh_block (lg_lh (klog s))) (disk s st)"
  have u: "unat ?b = st" using assms(3) by (intro unat32_of_nat) simp
  have c: "bc p dev s (\<lambda>_. None) (pins L) (over L N (disk s))" using assms(6) by (simp add: logged_def)
  have o: "over L N (disk s) ?b = disk s st" using assms(7) u by (simp add: over_def)
  have r: "card (used (\<lambda>_. None) (pins L)) < NBUF \<or> 0 < pins L ?b" using assms(8) by simp
  obtain i t u v where w: "bread dev ?b s = Ret i t" "b_data (bufs t i) = over L N (disk s) ?b" "bwrite i (set_data i ?d t) = Ret () u" "brelse i u = Ret () v"
    "bc p dev v (\<lambda>_. None) (pins L) ((over L N (disk s))(?b := ?d))" "disk v = (disk s)(unat ?b := ?d)" "dtrace v = dtrace s @ [(unat ?b, ?d)]" "bframe p s t" "bframe p s v"
    by (rule bio.write_block [OF c refl r])
  note w = w [unfolded o u]
  have kl: "klog t = klog s" by (rule bframe_klog [OF w(8)])
  have "write_head s = Ret () v"
    using w(1-4) kl assms(1,2,4,5) by (simp add: write_head_def Let_def write_head_fill put_header_def)
  moreover have "logged p dev v L N" using w(5,6) over_upd [OF assms(7)] u by (simp add: logged_def)
  ultimately show ?thesis using wrote_one [OF w(6,7,9)] by blast
qed

section \<open>Recovery\<close>

lemma bc_upd_log [simp]: "bc p dev (upd_log f s) H P V = bc p dev s H P V"
proof -
  have "calm p (upd_log f s) = calm p s" by (rule calm_cong) (simp add: upd_log_def mach_def)
  then show ?thesis by (simp add: bc_def isbuf_def upd_log_def mypid_def)
qed

lemma upd_log_fields [simp]:
  "bufs (upd_log f s) = bufs s" "disk (upd_log f s) = disk s" "dtrace (upd_log f s) = dtrace s"
  "klog (upd_log f s) = f (klog s)" "mach (upd_log f s) = mach s" "upd_log f (upd_log g s) = upd_log (\<lambda>l. f (g l)) s"
  "upd_log (\<lambda>l. l) s = s"
  by (simp_all add: upd_log_def mach_def)

lemma logged_upd_log [simp]: "logged p dev (upd_log f s) L N = logged p dev s L N"
  by (simp add: logged_def)

text \<open>What the log code leaves alone: everything outside the cache, the disk and the log itself.\<close>

definition lframe :: "nat \<Rightarrow> 'z lstate_scheme \<Rightarrow> 'z lstate_scheme \<Rightarrow> bool" where
  "lframe p s t \<longleftrightarrow> others p s t \<and> (\<forall>i. sleeplocks t (SL_inode i) = sleeplocks s (SL_inode i)) \<and>
     lstate.more t = lstate.more s"

lemma lframe_refl [simp]: "lframe p s s"
  by (simp add: lframe_def)

lemma lframe_trans: "lframe p s t \<Longrightarrow> lframe p t u \<Longrightarrow> lframe p s u"
  unfolding lframe_def using others_trans by fastforce

lemma lframe_bframe: "bframe p s t \<Longrightarrow> lframe p s t"
  by (cases s; cases t) (simp add: bframe_def lframe_def)

lemma lframe_wrote: "wrote p s ws t \<Longrightarrow> lframe p s t"
  by (rule lframe_bframe) (simp add: wrote_def)

lemma lframe_upd_log [simp]: "lframe p s (upd_log f t) = lframe p s t"
  by (simp add: lframe_def upd_log_def others_def kstate.defs)

lemma read_head_fill:
  assumes "k \<le> LOGSIZE"
  shows "for_each [0..<k] (\<lambda>i s. if i < LOGSIZE
        then Ret () (upd_lh (\<lambda>h. h\<lparr>lh_block := (lh_block h)[i := get_le 4 b (4 + 4 * i)]\<rparr>) s) else Fault ''log.lh.block'') s =
     Ret () (upd_lh (\<lambda>h. h\<lparr>lh_block := fold (\<lambda>i xs. xs[i := hdr_blk b i]) [0..<k] (lh_block h)\<rparr>) s)"
  using assms by (induction k) (simp_all add: for_each_append upd_lh_def hdr_blk_def)

lemma fold_entries:
  "length (fold (\<lambda>i xs. xs[i := f i]) [0..<k] xs) = length xs"
  "k \<le> length xs \<Longrightarrow> take k (fold (\<lambda>i xs. xs[i := f i]) [0..<k] xs) = map f [0..<k]"
proof -
  show l: "length (fold (\<lambda>i xs. xs[i := f i]) [0..<k] xs) = length xs" for k by (induction k) simp_all
  show "k \<le> length xs \<Longrightarrow> take k (fold (\<lambda>i xs. xs[i := f i]) [0..<k] xs) = map f [0..<k]"
    by (induction k) (simp_all add: take_Suc_conv_app_nth l)
qed

definition log_at :: "uint \<Rightarrow> nat \<Rightarrow> 'z lstate_scheme \<Rightarrow> bool" where
  "log_at dev st s \<longleftrightarrow> lg_dev (klog s) = dev \<and> lg_start (klog s) = int st \<and> st + LOGSIZE < 1000000 \<and>
     length (lh_block (lg_lh (klog s))) = LOGSIZE"

definition sane_header :: "nat \<Rightarrow> block \<Rightarrow> bool" where
  "sane_header st h \<longleftrightarrow> 0 \<le> hdr_n h \<and> hdr_n h < int LOGSIZE \<and> (\<forall>i < nat (hdr_n h). \<not> inlog st (unat (hdr_blk h i)))"

lemma read_head_ok:
  assumes "log_at dev st s" "logged p dev s {} N" "0 \<le> hdr_n (disk s st)" "hdr_n (disk s st) < int LOGSIZE"
  shows "\<exists>t. read_head s = Ret () t \<and> logged p dev t {} N \<and> disk t = disk s \<and> dtrace t = dtrace s \<and> lframe p s t \<and>
     klog t = (klog s)\<lparr>lg_lh := \<lparr>lh_n = hdr_n (disk s st),
        lh_block = fold (\<lambda>i xs. xs[i := hdr_blk (disk s st) i]) [0..<nat (hdr_n (disk s st))] (lh_block (lg_lh (klog s)))\<rparr>\<rparr>"
proof -
  let ?b = "of_nat st :: uint" and ?V = "over {} N (disk s)"
  have u: "unat ?b = st" using assms(1) by (intro unat32_of_nat) (simp add: log_at_def)
  have c: "bc p dev s (\<lambda>_. None) (pins {}) ?V" using assms(2) by (simp add: logged_def)
  have r: "card (used (\<lambda>_. None) (pins {})) < NBUF \<or> 0 < pins {} ?b" by (simp add: NBUF_def MAXOPBLOCKS_def)
  obtain i t where t: "bread dev ?b s = Ret i t" "bc p dev t ((\<lambda>_. None)(?b \<mapsto> i)) (pins {}) ?V" "b_data (bufs t i) = ?V ?b"
    "disk t = disk s" "dtrace t = dtrace s" "bframe p s t"
    by (rule bio.bread [OF c refl r])
  have kl: "klog t = klog s" by (rule bframe_klog [OF t(6)])
  have d: "b_data (bufs t i) = disk s st" using t(3) u by (simp add: over_def)
  let ?n = "nat (hdr_n (disk s st))"
  define v where "v = upd_lh (\<lambda>h. h\<lparr>lh_block := fold (\<lambda>i xs. xs[i := hdr_blk (disk s st) i]) [0..<?n] (lh_block h)\<rparr>)
     (upd_lh (\<lambda>h. h\<lparr>lh_n := hdr_n (disk s st)\<rparr>) t)"
  have v: "bc p dev v ((\<lambda>_. None)(?b \<mapsto> i)) (pins {}) ?V" "disk v = disk s" "dtrace v = dtrace s" "lframe p s v"
    using t lframe_bframe [OF t(6)] by (simp_all add: v_def upd_lh_def)
  have h: "((\<lambda>_. None)(?b \<mapsto> i)) ?b = Some i" "0 < pins {} ?b \<or> ?V ?b = disk v (unat ?b)" using v by (simp_all add: over_def)
  obtain w where w: "brelse i v = Ret () w" "bc p dev w ((\<lambda>_. None)(?b \<mapsto> i, ?b := None)) (pins {}) ?V" "disk w = disk v" "dtrace w = dtrace v" "bframe p v w"
    by (rule bio.brelse [OF v(1) h])
  have n: "?n \<le> LOGSIZE" using assms(4) by simp
  have "read_head s = Ret () w"
    using t(1) w(1) kl d assms(1) n by (simp add: read_head_def Let_def log_at_def hdr_n_def read_head_fill upd_lh_def v_def)
  moreover have "logged p dev w {} N" using w(2,3) v(2) by (simp add: logged_def)
  moreover have "lframe p s w" using lframe_trans [OF v(4) lframe_bframe [OF w(5)]] .
  moreover have "klog w = (klog s)\<lparr>lg_lh := \<lparr>lh_n = hdr_n (disk s st),
        lh_block = fold (\<lambda>i xs. xs[i := hdr_blk (disk s st) i]) [0..<?n] (lh_block (lg_lh (klog s)))\<rparr>\<rparr>"
    using bframe_klog [OF w(5)] kl by (simp add: v_def upd_lh_def)
  ultimately show ?thesis using w v by auto
qed

definition recover_writes :: "nat \<Rightarrow> (nat \<Rightarrow> block) \<Rightarrow> (nat \<times> block) list" where
  "recover_writes st d = map (\<lambda>i. (unat (hdr_blk (d st) i), d (st + i + 1))) [0..<nat (hdr_n (d st))] @ [(st, put_header 0 [] (d st))]"

lemma recover_ok:
  assumes "log_at dev st s" "logged p dev s {} N" "sane_header st (disk s st)"
  shows "\<exists>t. recover_from_log s = Ret () t \<and> logged p dev t {} N \<and> lframe p s t \<and> log_at dev st t \<and> log_n t = 0 \<and>
     disk t = apply_writes (recover_writes st (disk s)) (disk s) \<and> dtrace t = dtrace s @ recover_writes st (disk s)"
proof -
  let ?h = "disk s st" let ?n = "nat (hdr_n ?h)"
  have sane: "0 \<le> hdr_n ?h" "hdr_n ?h < int LOGSIZE" using assms(3) by (simp_all add: sane_header_def)
  obtain t where t: "read_head s = Ret () t" "logged p dev t {} N" "disk t = disk s" "dtrace t = dtrace s" "lframe p s t"
    "klog t = (klog s)\<lparr>lg_lh := \<lparr>lh_n = hdr_n ?h, lh_block = fold (\<lambda>i xs. xs[i := hdr_blk ?h i]) [0..<?n] (lh_block (lg_lh (klog s)))\<rparr>\<rparr>"
    using read_head_ok [OF assms(1,2) sane] by blast
  let ?L = "map (hdr_blk ?h) [0..<?n]"
  have n: "?n < LOGSIZE" using sane by simp

  have L: "log_lists dev st t ?L"
    using assms(1,3) n sane by (auto simp: log_lists_def log_at_def t(6) fold_entries sane_header_def)
  have lf: "logged p dev t (left 1 ?L 0) N" using t(2) by (simp add: left_def)
  obtain u where u: "install_trans 1 t = Ret () u" "logged p dev u {} N"
    "wrote p t (map (\<lambda>i. (unat (?L ! i), disk t (st + i + 1))) [0..<length ?L]) u"
    using install_trans_ok [OF L lf] by auto
  let ?v = "upd_lh (\<lambda>h. h\<lparr>lh_n := 0\<rparr>) u"
  have ku: "klog u = klog t" by (rule wrote_klog [OF u(3)])
  have kv: "lg_dev (klog ?v) = dev" "lg_start (klog ?v) = int st" "st + LOGSIZE < 1000000" "log_n ?v = int 0" "0 \<le> LOGSIZE"
    using assms(1) ku t(6) by (simp_all add: upd_lh_def log_at_def)
  have lv: "logged p dev ?v {} N" using u(2) by (simp add: upd_lh_def)
  obtain w where w: "write_head ?v = Ret () w" "logged p dev w {} N"
    "wrote p ?v [(st, put_header 0 (lh_block (lg_lh (klog ?v))) (disk ?v st))] w"
    using write_head_ok [OF kv lv] by (auto simp: NBUF_def MAXOPBLOCKS_def)
  have ws: "map (\<lambda>i. (unat (?L ! i), disk t (st + i + 1))) [0..<length ?L] = map (\<lambda>i. (unat (hdr_blk ?h i), disk s (st + i + 1))) [0..<?n]"
    using t(3) by simp
  have nst: "st \<notin> fst ` set (map (\<lambda>i. (unat (hdr_blk ?h i), disk s (st + i + 1))) [0..<?n])"
    using assms(3) by (auto simp: sane_header_def inlog_def)
  have u3: "wrote p t (map (\<lambda>i. (unat (hdr_blk ?h i), disk s (st + i + 1))) [0..<?n]) u" using u(3) unfolding ws .
  then have "disk u = apply_writes (map (\<lambda>i. (unat (hdr_blk ?h i), disk s (st + i + 1))) [0..<?n]) (disk s)"
    using t(3) by (simp only: wrote_def)
  then have hs: "disk u st = ?h" by (simp only: apply_writes_other [OF nst])

  have ph: "put_header 0 bs b = put_header 0 [] b" for bs b by (simp add: put_header_def)
  have hv: "disk ?v st = ?h" using hs by (simp add: upd_lh_def)
  have wv: "wrote p ?v [(st, put_header 0 [] ?h)] w" using w(3) unfolding hv ph [of "lh_block (lg_lh (klog ?v))"] .
  have "disk w = apply_writes (recover_writes st (disk s)) (disk s) \<and> dtrace w = dtrace s @ recover_writes st (disk s)"
    using u3 wv t(3,4) by (simp add: wrote_def recover_writes_def upd_lh_def)

  moreover have "klog w = klog ?v" by (rule wrote_klog [OF w(3)])
  then have "log_at dev st w" "log_n w = 0" using assms(1) ku t(6) by (simp_all add: log_at_def upd_lh_def fold_entries)
  moreover have "lframe p u ?v" by (simp add: upd_lh_def)
  then have "lframe p s w"
    by (rule lframe_trans [OF t(5) lframe_trans [OF lframe_wrote [OF u(3)] lframe_trans [OF _ lframe_wrote [OF w(3)]]]])
  ultimately show ?thesis using t(1) u(1) w(1,2) by (simp add: recover_from_log_def)
qed

end
