(* ===== verification/Logcrash.thy ===== *)
theory Logcrash
  imports Logspec
begin

text \<open>
  Transactions are atomic with respect to crashes: the sequence of disk writes of \<open>commit\<close>, and
  what \<open>recover_from_log\<close> makes of the disk after any prefix of it.
\<close>

definition commit_writes :: "nat \<Rightarrow> uint list \<Rightarrow> (uint \<Rightarrow> block) \<Rightarrow> (nat \<Rightarrow> block) \<Rightarrow> (nat \<times> block) list" where
  "commit_writes st L N d =
     map (\<lambda>i. (st + i + 1, N (L ! i))) [0..<length L] @
     [(st, put_header (length L) L (d st))] @
     map (\<lambda>i. (unat (L ! i), N (L ! i))) [0..<length L] @
     [(st, put_header 0 [] (put_header (length L) L (d st)))]"

lemma put_header_take: "put_header n (take n bs) b = put_header n bs b"
proof -
  have "fold (\<lambda>i b. put_le 4 (4 + 4 * i) (take n bs ! i) b) [0..<n] x = fold (\<lambda>i b. put_le 4 (4 + 4 * i) (bs ! i) b) [0..<n] x" for x
    by (rule fold_cong) simp_all
  then show ?thesis by (simp add: put_header_def)
qed

lemma log_lists_st:
  assumes "log_lists dev st s L"
  shows "of_nat st \<notin> set L"
proof
  assume a: "of_nat st \<in> set L"
  have "unat (of_nat st :: uint) = st" using assms by (intro unat32_of_nat) (simp add: log_lists_def)
  then show False using a assms by (force simp: log_lists_def inlog_def)
qed

lemma log_lists_cong: "klog t = klog s \<Longrightarrow> log_lists dev st t L = log_lists dev st s L"
  by (simp add: log_lists_def)

lemma log_copies:
  assumes "log_lists dev st s L" "i < length L"
  shows "apply_writes (map (\<lambda>i. (st + i + 1, f i)) [0..<length L]) d (st + i + 1) = f i"
proof -
  have "k \<le> length L \<Longrightarrow> i < k \<Longrightarrow> apply_writes (map (\<lambda>i. (st + i + 1, f i)) [0..<k]) d (st + i + 1) = f i" for k
    by (induction k) (auto simp: less_Suc_eq)
  then show ?thesis using assms(2) by blast
qed

lemma commit_ok:
  assumes "log_lists dev st s L" "logged p dev s (set L) N" "distinct L" "length L < NBUF" "L \<noteq> []"
  shows "\<exists>t. commit s = Ret () t \<and> logged p dev t {} N \<and> lframe p s t \<and>
     klog t = (klog s)\<lparr>lg_lh := (lg_lh (klog s))\<lparr>lh_n := 0\<rparr>\<rparr> \<and>
     disk t = apply_writes (commit_writes st L N (disk s)) (disk s) \<and> dtrace t = dtrace s @ commit_writes st L N (disk s)"
proof -
  let ?n = "length L" and ?W1 = "map (\<lambda>i. (st + i + 1, N (L ! i))) [0..<length L]"
  let ?h = "put_header ?n L (disk s st)"
  note st = log_lists_st [OF assms(1)]
  have k: "lg_dev (klog s) = dev" "lg_start (klog s) = int st" "st + LOGSIZE < 1000000" "log_n s = int ?n" "?n < LOGSIZE"
    "take ?n (lh_block (lg_lh (klog s))) = L"
    using assms(1) by (simp_all add: log_lists_def)
  have card: "card (set L) < NBUF" using card_length [of L] assms(4) by linarith
  obtain t where t: "write_log s = Ret () t" "logged p dev t (set L) N" "wrote p s ?W1 t"
    using write_log_ok [OF assms(1,2,4)] by blast
  have kt: "klog t = klog s" by (rule wrote_klog [OF t(3)])
  have "st \<notin> fst ` set ?W1" by auto
  then have dst: "disk t st = disk s st" using t(3) apply_writes_other [of st ?W1 "disk s"] by (simp add: wrote_def)
  have ph: "put_header ?n (lh_block (lg_lh (klog t))) (disk t st) = ?h"
    using put_header_take [of ?n "lh_block (lg_lh (klog s))"] k(6) kt dst by simp
  obtain u where u: "write_head t = Ret () u" "logged p dev u (set L) N" "wrote p t [(st, ?h)] u"
    using write_head_ok [of t dev st ?n p "set L" N] k kt t(2) st card unfolding ph by auto
  have ku: "klog u = klog s" using wrote_klog [OF u(3)] kt by simp
  have Lu: "log_lists dev st u L" using assms(1) log_lists_cong [OF ku] by blast
  have lu: "logged p dev u (left 0 L 0) N" using u(2) by (simp add: left_def)
  obtain v where v: "install_trans 0 u = Ret () v" "logged p dev v {} N" "wrote p u (map (\<lambda>i. (unat (L ! i), disk u (st + i + 1))) [0..<?n]) v"
    using install_trans_ok [OF Lu lu] assms(3,4) by blast
  have "disk u (st + i + 1) = N (L ! i)" if "i < ?n" for i
    using u(3) t(3) log_copies [OF assms(1) that, of "\<lambda>i. N (L ! i)" "disk s"] by (simp add: wrote_def)
  then have W3: "map (\<lambda>i. (unat (L ! i), disk u (st + i + 1))) [0..<?n] = map (\<lambda>i. (unat (L ! i), N (L ! i))) [0..<?n]"
    by simp
  have v3: "wrote p u (map (\<lambda>i. (unat (L ! i), N (L ! i))) [0..<?n]) v" using v(3) unfolding W3 .
  have kv: "klog v = klog s" using wrote_klog [OF v(3)] ku by simp
  let ?v = "upd_lh (\<lambda>h. h\<lparr>lh_n := 0\<rparr>) v"
  have "st \<notin> fst ` set (map (\<lambda>i. (unat (L ! i), N (L ! i))) [0..<?n])"
    using assms(1) by (auto simp: log_lists_def inlog_def)
  then have dv: "disk ?v st = ?h" using v3 u(3) apply_writes_other by (simp add: wrote_def upd_lh_def)
  have p0: "put_header 0 bs b = put_header 0 [] b" for bs b by (simp add: put_header_def)
  have lv: "logged p dev ?v {} N" using v(2) by (simp add: upd_lh_def)
  obtain w where w: "write_head ?v = Ret () w" "logged p dev w {} N" "wrote p ?v [(st, put_header 0 (lh_block (lg_lh (klog ?v))) (disk ?v st))] w"
    using write_head_ok [of ?v dev st 0 p "{}" N] k kv lv by (auto simp: upd_lh_def NBUF_def MAXOPBLOCKS_def)
  have w3: "wrote p ?v [(st, put_header 0 [] ?h)] w" using w(3) unfolding dv p0 [of "lh_block (lg_lh (klog ?v))"] .
  have "lframe p v ?v" by (simp add: upd_lh_def)
  then have "lframe p s w"
    by (rule lframe_trans [OF lframe_wrote [OF t(3)] lframe_trans [OF lframe_wrote [OF u(3)]
        lframe_trans [OF lframe_wrote [OF v(3)] lframe_trans [OF _ lframe_wrote [OF w(3)]]]]])
  moreover have "klog w = (klog s)\<lparr>lg_lh := (lg_lh (klog s))\<lparr>lh_n := 0\<rparr>\<rparr>"
    using wrote_klog [OF w(3)] kv by (simp add: upd_lh_def)
  moreover have "disk w = apply_writes (commit_writes st L N (disk s)) (disk s) \<and> dtrace w = dtrace s @ commit_writes st L N (disk s)"
    using t(3) u(3) v3 w3 by (simp add: wrote_def commit_writes_def upd_lh_def)
  moreover have "commit s = Ret () w" using t(1) u(1) v(1) w(1) k(4) assms(5) by (simp add: commit_def)
  ultimately show ?thesis using w(2) by blast
qed

section \<open>Disks after a crash\<close>

lemma put_header_0: "hdr_n (put_header 0 bs b) = 0"
  by (simp add: put_header(1))

lemma apply_writes_cong: "b \<in> fst ` set ws \<Longrightarrow> apply_writes ws d b = apply_writes ws e b"
proof (induction ws arbitrary: d e)
  case Nil
  then show ?case by simp
next
  case (Cons w ws)
  obtain c x where w: "w = (c, x)" by (cases w)
  show ?case
  proof (cases "b \<in> fst ` set ws")
    case True
    then show ?thesis using Cons.IH w by simp
  next
    case False
    then show ?thesis using Cons.prems w by (simp add: apply_writes_other)
  qed
qed

lemma apply_writes_distinct: "distinct (map fst ws) \<Longrightarrow> (b, x) \<in> set ws \<Longrightarrow> apply_writes ws d b = x"
proof (induction ws arbitrary: d)
  case (Cons w ws)
  then show ?case by (cases w) (force simp: apply_writes_other)
qed simp

lemma map_nth_upt: "map (\<lambda>i. f (xs ! i)) [0..<length xs] = map f xs"
proof -
  have "map (\<lambda>i. f (xs ! i)) [0..<length xs] = map f (map ((!) xs) [0..<length xs])" by (simp add: comp_def del: map_nth)
  then show ?thesis by (simp only: map_nth)
qed

lemma apply_home:
  "apply_writes (map (\<lambda>b. (unat b, N b)) L) d b = (if b \<in> unat ` set L then N (of_nat b :: uint) else d b)"
  by (induction L arbitrary: d) auto

definition recovered :: "nat \<Rightarrow> (nat \<Rightarrow> block) \<Rightarrow> nat \<Rightarrow> block" where
  "recovered st d = apply_writes (recover_writes st d) d"

lemma recovered_empty: "hdr_n (d st) = 0 \<Longrightarrow> recovered st d b = (if b = st then put_header 0 [] (d st) else d b)"
  by (simp add: recovered_def recover_writes_def)

lemma recovered_full:
  assumes "hdr_n (d st) = int (length L)" "\<And>i. i < length L \<Longrightarrow> hdr_blk (d st) i = L ! i \<and> d (st + i + 1) = N (L ! i)" "b \<noteq> st"
  shows "recovered st d b = (if b \<in> unat ` set L then N (of_nat b) else d b)"
proof -
  have "map (\<lambda>i. (unat (hdr_blk (d st) i), d (st + i + 1))) [0..<length L] = map (\<lambda>i. (unat (L ! i), N (L ! i))) [0..<length L]"
    using assms(2) by simp
  also have "\<dots> = map (\<lambda>b. (unat b, N b)) L" by (rule map_nth_upt)
  finally show ?thesis
    using assms(1,3) by (simp add: recovered_def recover_writes_def apply_home)
qed

text \<open>What a recovery restores: the header is emptied, the blocks that it listed get the copies
  that the log holds for them, and no other block outside the log changes.\<close>

definition restored :: "nat \<Rightarrow> (nat \<Rightarrow> block) \<Rightarrow> (nat \<Rightarrow> block) \<Rightarrow> bool" where
  "restored st d e \<longleftrightarrow> hdr_n (e st) = 0 \<and>
     (let L = map (hdr_blk (d st)) [0..<nat (hdr_n (d st))] in
       (\<forall>b. \<not> inlog st b \<and> b \<notin> unat ` set L \<longrightarrow> e b = d b) \<and>
       (distinct L \<longrightarrow> (\<forall>i < length L. e (unat (L ! i)) = d (st + i + 1))))"

lemma recovered_restores:
  assumes "sane_header st (d st)"
  shows "restored st d (recovered st d)"
proof -
  let ?n = "nat (hdr_n (d st))" let ?L = "map (hdr_blk (d st)) [0..<?n]"
  let ?A = "map (\<lambda>i. (unat (hdr_blk (d st) i), d (st + i + 1))) [0..<?n]"
  have e: "recovered st d b = apply_writes ?A d b" if "b \<noteq> st" for b
    using that by (simp add: recovered_def recover_writes_def)
  have keys: "map fst ?A = map unat ?L" by simp
  then have f: "fst ` set ?A = unat ` set ?L" by (metis set_map)
  have "recovered st d b = d b" if "\<not> inlog st b" "b \<notin> unat ` set ?L" for b
  proof -
    have "b \<noteq> st" using that(1) by (auto simp: inlog_def)
    then show ?thesis using e [of b] apply_writes_other [of b ?A d] that(2) f by simp
  qed
  moreover have "recovered st d (unat (?L ! i)) = d (st + i + 1)" if "distinct ?L" "i < length ?L" for i
  proof -
    have "\<not> inlog st (unat (?L ! i))" using assms that(2) by (simp add: sane_header_def)
    then have r: "recovered st d (unat (?L ! i)) = apply_writes ?A d (unat (?L ! i))" by (intro e) (auto simp: inlog_def)
    have "distinct (map fst ?A)" unfolding keys using that(1) by (intro distinct_map [THEN iffD2]) (auto simp: inj_on_def dest: word_unat_eq_iff [THEN iffD2])
    moreover have "(unat (?L ! i), d (st + i + 1)) \<in> set ?A" using that(2) by simp
    ultimately show ?thesis unfolding r by (rule apply_writes_distinct)
  qed
  moreover have "hdr_n (recovered st d st) = 0" by (simp add: recovered_def recover_writes_def put_header_0)
  ultimately show ?thesis unfolding restored_def Let_def by blast
qed

text \<open>The contents of the home blocks before and after the transaction.\<close>

definition committed :: "uint list \<Rightarrow> (uint \<Rightarrow> block) \<Rightarrow> (nat \<Rightarrow> block) \<Rightarrow> nat \<Rightarrow> block" where
  "committed L N d b = (if b \<in> unat ` set L then N (of_nat b) else d b)"

definition same_home :: "nat \<Rightarrow> (nat \<Rightarrow> block) \<Rightarrow> (nat \<Rightarrow> block) \<Rightarrow> bool" where
  "same_home st d e \<longleftrightarrow> (\<forall>b. \<not> inlog st b \<longrightarrow> d b = e b)"

lemma crash_before_header:
  assumes "hdr_n (d st) = 0" "length L < LOGSIZE" "ws = take k (map (\<lambda>i. (st + i + 1, N (L ! i))) [0..<length L])"
  shows "sane_header st (apply_writes ws d st)" "same_home st (recovered st (apply_writes ws d)) d"
proof -
  have in1: "inlog st b \<and> b \<noteq> st" if "b \<in> fst ` set ws" for b
    using that assms(2,3) by (auto simp: inlog_def dest!: in_set_takeD)
  then have "st \<notin> fst ` set ws" by blast
  then have h: "apply_writes ws d st = d st" by (rule apply_writes_other)
  then show "sane_header st (apply_writes ws d st)" using assms(1) by (simp add: sane_header_def)
  have "apply_writes ws d b = d b" if "\<not> inlog st b" for b by (rule apply_writes_other) (use in1 that in blast)
  then show "same_home st (recovered st (apply_writes ws d)) d"
    using recovered_empty [of "apply_writes ws d" st] h assms(1) by (auto simp: same_home_def inlog_def)
qed

lemma crash_after_header:
  assumes "log_lists dev st s L" "d1 = apply_writes (map (\<lambda>i. (st + i + 1, N (L ! i))) [0..<length L] @ [(st, put_header (length L) L (d st))]) d"
    "vs = take k (map (\<lambda>b. (unat b, N b)) L)"
  shows "sane_header st (apply_writes vs d1 st)" "same_home st (recovered st (apply_writes vs d1)) (committed L N d)"
proof -
  have n: "length L < LOGSIZE" and out: "\<And>b. b \<in> set L \<Longrightarrow> \<not> inlog st (unat b)" using assms(1) by (auto simp: log_lists_def)
  have vs: "\<not> inlog st b \<and> b \<in> unat ` set L" if "b \<in> fst ` set vs" for b
    using that out assms(3) by (auto dest!: in_set_takeD)
  have keep: "apply_writes vs d1 b = d1 b" if "inlog st b" for b by (rule apply_writes_other) (use vs that in blast)
  have h: "apply_writes vs d1 st = put_header (length L) L (d st)"
    using keep [of st] assms(2) by (simp add: inlog_def)
  have lg: "apply_writes vs d1 (st + i + 1) = N (L ! i)" if "i < length L" for i
    using keep [of "st + i + 1"] log_copies [OF assms(1) that, of "\<lambda>i. N (L ! i)" d] that n assms(2) by (simp add: inlog_def)
  note ph = put_header [OF less_imp_le [OF n]]
  show "sane_header st (apply_writes vs d1 st)"
    using n out ph by (simp add: h sane_header_def)
  have home: "apply_writes vs d1 b = d b" if "\<not> inlog st b" "b \<notin> unat ` set L" for b
  proof -
    have "apply_writes vs d1 b = d1 b" by (rule apply_writes_other) (use vs that in blast)
    also have "\<dots> = apply_writes (map (\<lambda>i. (st + i + 1, N (L ! i))) [0..<length L]) d b"
      using that assms(2) by (auto simp: inlog_def)
    also have "\<dots> = d b" using that n by (intro apply_writes_other) (auto simp: inlog_def)
    finally show ?thesis .
  qed
  have "recovered st (apply_writes vs d1) b = (if b \<in> unat ` set L then N (of_nat b) else apply_writes vs d1 b)" if "b \<noteq> st" for b
    using ph lg that by (intro recovered_full) (simp_all add: h)
  then show "same_home st (recovered st (apply_writes vs d1)) (committed L N d)"
    using home by (simp add: same_home_def committed_def not_inlog_neq)
qed

lemma crash_done:
  assumes "log_lists dev st s L" "d2 = apply_writes (commit_writes st L N d) d"
  shows "sane_header st (d2 st)" "same_home st (recovered st d2) (committed L N d)" "same_home st d2 (committed L N d)"
    "hdr_n (d2 st) = 0"
proof -
  let ?d1 = "apply_writes (map (\<lambda>i. (st + i + 1, N (L ! i))) [0..<length L] @ [(st, put_header (length L) L (d st))]) d"
  have n: "length L < LOGSIZE" using assms(1) by (simp add: log_lists_def)
  have d2: "d2 = apply_writes [(st, put_header 0 [] (put_header (length L) L (d st)))] (apply_writes (map (\<lambda>b. (unat b, N b)) L) ?d1)"
    using map_nth_upt [of "\<lambda>b. (unat b, N b)" L] assms(2) by (simp add: commit_writes_def)
  have h: "d2 st = put_header 0 [] (put_header (length L) L (d st))" using d2 by simp
  then show h0: "hdr_n (d2 st) = 0" by (simp add: put_header_0)
  then show "sane_header st (d2 st)" by (simp add: sane_header_def)
  have "same_home st (apply_writes (map (\<lambda>i. (st + i + 1, N (L ! i))) [0..<length L]) d) d"
    using n unfolding same_home_def by (intro allI impI apply_writes_other) (auto simp: inlog_def)
  then show s2: "same_home st d2 (committed L N d)"
    unfolding same_home_def d2 by (auto simp: apply_home committed_def inlog_def)
  then show "same_home st (recovered st d2) (committed L N d)"
    using recovered_empty [where d = d2 and st = st, OF h0] by (auto simp: same_home_def inlog_def)
qed

text \<open>The machine after a crash and a reboot: a fresh cache over the disk the crash left.\<close>

definition rebooted :: "nat \<Rightarrow> uint \<Rightarrow> nat \<Rightarrow> (nat \<Rightarrow> block) \<Rightarrow> 'z lstate_scheme \<Rightarrow> bool" where
  "rebooted p dev st d r \<longleftrightarrow> calm p r \<and> (\<exists>xs. lru (bufs r) xs) \<and>
     (\<forall>i<NBUF. idle_buf r i \<and> \<not> sl_locked (sleeplocks r (SL_buf i))) \<and> log_at dev st r \<and> disk r = d"

lemma rebooted_recovers:
  assumes "rebooted p dev st d r" "dev \<noteq> 0" "sane_header st (d st)"
  shows "\<exists>t. recover_from_log r = Ret () t \<and> disk t = recovered st d \<and> dtrace t = dtrace r @ recover_writes st d \<and>
     log_at dev st t \<and> log_n t = 0"
proof -
  obtain xs where xs: "lru (bufs r) xs" using assms(1) by (auto simp: rebooted_def)
  have "bc p dev r (\<lambda>_. None) (\<lambda>_. 0) (\<lambda>b. disk r (unat b))"
    by (rule fresh_cache [OF _ xs assms(2)]) (use assms(1) in \<open>auto simp: rebooted_def\<close>)
  moreover have "pins {} = (\<lambda>_. 0)" "over {} N (disk r) = (\<lambda>b. disk r (unat b))" for N
    by (simp_all add: pins_def over_def fun_eq_iff)
  ultimately have lg: "logged p dev r {} (\<lambda>_ _. 0)" by (simp add: logged_def)
  have "log_at dev st r" "disk r = d" using assms(1) by (simp_all add: rebooted_def)
  then show ?thesis using recover_ok [OF _ lg] assms(3) by (auto simp: recovered_def)
qed

lemma crash_cases:
  assumes "log_lists dev st s L" "hdr_n (d st) = 0"
  shows "sane_header st (apply_writes (take k (commit_writes st L N d)) d st) \<and>
    (same_home st (recovered st (apply_writes (take k (commit_writes st L N d)) d)) d \<or>
     same_home st (recovered st (apply_writes (take k (commit_writes st L N d)) d)) (committed L N d))"
proof -
  let ?A = "map (\<lambda>i. (st + i + 1, N (L ! i))) [0..<length L]" and ?x = "(st, put_header (length L) L (d st))"
  let ?B = "map (\<lambda>b. (unat b, N b)) L" and ?y = "(st, put_header 0 [] (put_header (length L) L (d st)))"
  have n: "length L < LOGSIZE" using assms(1) by (simp add: log_lists_def)
  have c: "commit_writes st L N d = (?A @ [?x]) @ ?B @ [?y]"
    using map_nth_upt [of "\<lambda>b. (unat b, N b)" L] by (simp add: commit_writes_def)
  consider "k \<le> length L" | j where "k = length L + 1 + j" "j \<le> length L" | "k \<ge> 2 * length L + 2"
  proof -
    have "k \<le> length L \<or> (\<exists>j. k = length L + 1 + j \<and> j \<le> length L) \<or> k \<ge> 2 * length L + 2"
      by presburger
    then show thesis using that by blast
  qed
  then show ?thesis
  proof cases
    case 1
    then have "take k (commit_writes st L N d) = take k ?A" by (simp add: c)
    then show ?thesis using crash_before_header [where d = d and st = st and L = L and k = k and N = N, OF _ _ refl] assms(2) n by simp
  next
    case (2 j)
    then have "take k (commit_writes st L N d) = (?A @ [?x]) @ take j ?B" by (simp add: c)
    then show ?thesis using crash_after_header [OF assms(1) refl refl, where d = d and N = N and k = j] by (simp only: apply_writes_simps) blast
  next
    case 3
    then have "take k (commit_writes st L N d) = commit_writes st L N d" by (simp add: commit_writes_def)
    then show ?thesis using crash_done [OF assms(1) refl, where d = d and N = N] by simp
  qed
qed

text \<open>C5: a transaction is atomic with respect to crashes.  \<open>commit\<close> returns, and if the machine
  stops after any number \<open>k\<close> of its disk writes and is rebooted, \<open>recover_from_log\<close> returns with an
  empty log and with every block outside the log holding either its contents from before the
  transaction or, for all blocks together, the contents after it; when \<open>commit\<close> has returned it
  is the latter.\<close>

theorem commit_crash_atomic:
  assumes "dev \<noteq> 0" "log_lists dev st s L" "logged p dev s (set L) N" "distinct L" "length L < NBUF" "hdr_n (disk s st) = 0"
  shows "\<exists>t ws. commit s = Ret () t \<and> dtrace t = dtrace s @ ws \<and> disk t = apply_writes ws (disk s) \<and>
     same_home st (disk t) (committed L N (disk s)) \<and>
     (\<forall>k q r. rebooted q dev st (apply_writes (take k ws) (disk s)) r \<longrightarrow>
        (\<exists>r'. recover_from_log r = Ret () r' \<and> log_n r' = 0 \<and>
           (same_home st (disk r') (disk s) \<or> same_home st (disk r') (committed L N (disk s)))))"
proof (cases "L = []")
  case True
  have "commit s = Ret () s" using assms(2) True by (simp add: commit_def log_lists_def)
  moreover have "committed L N (disk s) = disk s" using True by (simp add: committed_def fun_eq_iff)
  moreover have "\<exists>r'. recover_from_log r = Ret () r' \<and> log_n r' = 0 \<and> same_home st (disk r') (disk s)"
    if "rebooted q dev st (disk s) r" for q r
    using rebooted_recovers [OF that assms(1)] recovered_empty [where d = "disk s" and st = st, OF assms(6)] assms(6)
    by (auto simp: sane_header_def same_home_def inlog_def)
  ultimately show ?thesis by (intro exI [of _ s] exI [of _ "[]"]) (auto simp: same_home_def)
next
  case False
  obtain t where t: "commit s = Ret () t" "disk t = apply_writes (commit_writes st L N (disk s)) (disk s)"
    "dtrace t = dtrace s @ commit_writes st L N (disk s)"
    using commit_ok [OF assms(2-5) False] by blast
  have "\<exists>r'. recover_from_log r = Ret () r' \<and> log_n r' = 0 \<and>
      (same_home st (disk r') (disk s) \<or> same_home st (disk r') (committed L N (disk s)))"
    if "rebooted q dev st (apply_writes (take k (commit_writes st L N (disk s))) (disk s)) r" for k q r
    using rebooted_recovers [OF that assms(1)] crash_cases [where d = "disk s" and k = k and N = N, OF assms(2,6)] by auto
  then show ?thesis using t crash_done(3) [OF assms(2) t(2)] by blast
qed

text \<open>A log with one block in it.\<close>

definition log_boot :: "(nat \<Rightarrow> block) \<Rightarrow> int \<Rightarrow> uint list \<Rightarrow> 'z \<Rightarrow> 'z lstate_scheme" where
  "log_boot d n bs z = bio_boot d \<lparr>klog = \<lparr>lg_start = 2, lg_size = 30, lg_outstanding = 0, lg_committing = False, lg_dev = 1,
     lg_lh = \<lparr>lh_n = n, lh_block = bs\<rparr>\<rparr>, \<dots> = z\<rparr>"

lemma klog_log_boot [simp]:
  "klog (log_boot d n bs z) = \<lparr>lg_start = 2, lg_size = 30, lg_outstanding = 0, lg_committing = False, lg_dev = 1,
     lg_lh = \<lparr>lh_n = n, lh_block = bs\<rparr>\<rparr>"
  "disk (log_boot d n bs z) = d" "bufs (log_boot d n bs z) = boot_bufs" "dtrace (log_boot d n bs z) = []"
  "sl_locked (sleeplocks (log_boot d n bs z) l) = False" "lstate.more (log_boot d n bs z) = z"
  by (simp_all add: log_boot_def) (simp_all add: bio_boot_def kstate.defs)

lemma hdr_zero: "hdr_n (\<lambda>_. 0) = 0"
  by (simp add: hdr_n_def get_le_def as_mem_def eval_nat_numeral)

lemma one_logged:
  "\<exists>s :: lstate. log_lists 1 2 s [100] \<and> logged 0 1 s {100} (\<lambda>_ _. 7) \<and> disk s = (\<lambda>_ _. 0)"
proof -
  let ?s = "log_boot (\<lambda>_ _. 0) 1 (100 # replicate 29 0) () :: lstate" and ?V = "\<lambda>_ :: uint. (\<lambda>_. 0) :: block"
  have c: "bc 0 1 ?s (\<lambda>_. None) (\<lambda>_. 0) ?V" unfolding log_boot_def by (rule bio_boot_bc) simp
  have r: "card (used (\<lambda>_. None) (\<lambda>_. 0)) < NBUF \<or> 0 < (0 :: nat)" by (simp add: used_def NBUF_def MAXOPBLOCKS_def)
  obtain i t where t: "bc 0 1 t ((\<lambda>_. None)(100 \<mapsto> i)) (\<lambda>_. 0) ?V" "disk t = disk ?s" "bframe 0 ?s t"
    by (rule bio.bread [OF c refl r])
  have h: "((\<lambda>_. None)(100 \<mapsto> i)) (100 :: uint) = Some i" by simp
  have lt: "(0 :: nat) < 900" by simp
  obtain u where u: "bc 0 1 u ((\<lambda>_. None)(100 \<mapsto> i)) ((\<lambda>_. 0)(100 := Suc 0)) (?V(100 := \<lambda>_. 7))" "disk u = disk (set_data i (\<lambda>_. 7) t)"
    "bframe 0 (set_data i (\<lambda>_. 7) t) u"
    by (rule bio.bpin [OF bio.set_data(1) [OF t(1) h, of "\<lambda>_. 7"] h lt])

  have q: "0 < ((\<lambda>_. 0)(100 := Suc 0)) (100 :: uint) \<or> (?V(100 := \<lambda>_. 7)) (100 :: uint) = disk u (unat (100 :: uint))" by simp
  obtain v where v: "bc 0 1 v ((\<lambda>_. None)(100 \<mapsto> i, 100 := None)) ((\<lambda>_. 0)(100 := Suc 0)) (?V(100 := \<lambda>_. 7))" "disk v = disk u" "bframe 0 u v"
    by (rule bio.brelse [OF u(1) h q])
  have d: "disk v = (\<lambda>_ _. 0)" using t(2) u(2) v(2) by (simp add: set_data_def)
  have "pins {100} = ((\<lambda>_. 0)(100 := Suc 0))" "over {100} (\<lambda>_ _. 7) (\<lambda>_ _. 0) = (?V(100 := \<lambda>_. 7))"
    by (auto simp: pins_def over_def fun_eq_iff)
  then have "logged 0 1 v {100} (\<lambda>_ _. 7)" using v(1) d by (simp add: logged_def)
  moreover have "klog v = klog ?s" using bframe_klog [OF v(3)] bframe_klog [OF u(3)] bframe_klog [OF t(3)] by simp
  then have "log_lists 1 2 v [100]" by (simp add: log_lists_def inlog_def LOGSIZE_def MAXOPBLOCKS_def)
  ultimately show ?thesis using d by blast
qed

theorem commit_crash_atomic_witness:
  "\<exists>(s :: lstate) t ws. logged 0 1 s {100} (\<lambda>_ _. 7) \<and> commit s = Ret () t \<and> dtrace t = dtrace s @ ws \<and> disk t = apply_writes ws (disk s) \<and>
     same_home 2 (disk t) (committed [100] (\<lambda>_ _. 7) (disk s)) \<and>
     (\<forall>k q r. rebooted q 1 2 (apply_writes (take k ws) (disk s)) r \<longrightarrow>
        (\<exists>r'. recover_from_log r = Ret () r' \<and> log_n r' = 0 \<and>
           (same_home 2 (disk r') (disk s) \<or> same_home 2 (disk r') (committed [100] (\<lambda>_ _. 7) (disk s)))))"
proof -
  obtain s :: lstate where s: "log_lists 1 2 s [100]" "logged 0 1 s {100} (\<lambda>_ _. 7)" "disk s = (\<lambda>_ _. 0)"
    using one_logged by blast
  have l: "logged 0 1 s (set [100]) (\<lambda>_ _. 7)" and n: "length [100 :: uint] < NBUF" and h: "hdr_n (disk s 2) = 0" and one: "(1 :: uint) \<noteq> 0"
    using s hdr_zero by (simp_all add: NBUF_def MAXOPBLOCKS_def)
  have ds: "distinct [100 :: uint]" by simp
  from commit_crash_atomic [OF one s(1) l ds n h] s(2) show ?thesis by blast
qed

text \<open>C7: recovery restores the logged blocks, and can itself be interrupted.  Recovery returns with
  an empty log; each home block that the header listed then holds its logged copy and no other block
  outside the log has changed.  If the machine stops after any number of the disk writes of that
  recovery and is rebooted, recovering again gives every block outside the log the contents the
  first recovery would have given it.\<close>

theorem recovery_idempotent:
  assumes "dev \<noteq> 0" "rebooted p dev st d r" "sane_header st (d st)"
  shows "\<exists>t ws. recover_from_log r = Ret () t \<and> log_n t = 0 \<and> restored st d (disk t) \<and> dtrace t = dtrace r @ ws \<and>
     (\<forall>k q r2. rebooted q dev st (apply_writes (take k ws) d) r2 \<longrightarrow>
        (\<exists>t2. recover_from_log r2 = Ret () t2 \<and> same_home st (disk t2) (disk t)))"
proof -
  let ?n = "nat (hdr_n (d st))" let ?L = "map (hdr_blk (d st)) [0..<?n]"
  let ?A = "map (\<lambda>i. (unat (hdr_blk (d st) i), d (st + i + 1))) [0..<?n]" and ?y = "(st, put_header 0 [] (d st))"
  obtain t where t: "recover_from_log r = Ret () t" "disk t = recovered st d" "dtrace t = dtrace r @ recover_writes st d" "log_n t = 0"
    using rebooted_recovers [OF assms(2,1,3)] by blast
  have n: "hdr_n (d st) = int ?n" "?n < LOGSIZE" using assms(3) by (auto simp: sane_header_def)
  have out: "\<not> inlog st b" if "b \<in> fst ` set ?A" for b using that assms(3) by (auto simp: sane_header_def)
  have "sane_header st (apply_writes (take k (recover_writes st d)) d st) \<and>
      same_home st (recovered st (apply_writes (take k (recover_writes st d)) d)) (recovered st d)" for k
  proof (cases "k \<le> length ?A")
    case True
    then have tk: "take k (recover_writes st d) = take k ?A" by (simp add: recover_writes_def)
    define e where "e = apply_writes (take k ?A) d"
    have sub: "fst ` set (take k ?A) \<subseteq> fst ` set ?A" by (rule image_mono) (rule set_take_subset)
    have keep: "e b = d b" if "inlog st b" for b unfolding e_def
      by (rule apply_writes_other) (use out that sub in blast)
    have st: "e st = d st" by (rule keep) (simp add: inlog_def)
    have "e (st + i + 1) = d (st + i + 1)" if "i < ?n" for i using that n by (intro keep) (simp add: inlog_def)
    then have w: "recover_writes st e = ?A @ [?y]" by (simp add: recover_writes_def st)
    have "apply_writes ?A e b = apply_writes ?A d b" for b
    proof (cases "b \<in> fst ` set ?A")
      case True
      then show ?thesis by (rule apply_writes_cong)
    next
      case False
      have "e b = d b" unfolding e_def by (rule apply_writes_other) (use False sub in blast)
      then show ?thesis by (simp only: apply_writes_other [OF False])

    qed
    then have "same_home st (recovered st e) (recovered st d)"
      by (simp add: same_home_def recovered_def w) (simp add: recover_writes_def)
    then show ?thesis using st assms(3) unfolding tk e_def [symmetric] by simp
  next
    case False
    then have "take k (recover_writes st d) = recover_writes st d" by (simp add: recover_writes_def)
    moreover have "apply_writes (recover_writes st d) d st = put_header 0 [] (d st)" by (simp add: recover_writes_def)
    ultimately show ?thesis
      using put_header_0 recovered_empty [where d = "recovered st d" and st = st]
      by (auto simp: sane_header_def same_home_def inlog_def recovered_def)
  qed
  then show ?thesis using t rebooted_recovers [OF _ assms(1)] recovered_restores [where d = d and st = st, OF assms(3)] by metis
qed

lemma rebooted_log_boot: "length bs = LOGSIZE \<Longrightarrow> rebooted 0 1 2 d (log_boot d n bs z)"
  using boot_bufs_lru bio_boot_calm [of d] bio_boot_idle [of d]
  by (auto simp: rebooted_def log_at_def LOGSIZE_def MAXOPBLOCKS_def) (simp_all add: log_boot_def)

theorem recovery_idempotent_witness:
  "\<exists>d t ws. d = (\<lambda>_ _. 0)(2 := put_header 1 [100] (\<lambda>_. 0), 3 := (\<lambda>_. 7)) \<and>
     recover_from_log (log_boot d 0 (replicate LOGSIZE 0) ()) = Ret () t \<and> disk t 100 = (\<lambda>_. 7) \<and> dtrace t = ws \<and>

     (\<forall>k q (r2 :: lstate). rebooted q 1 2 (apply_writes (take k ws) d) r2 \<longrightarrow>
        (\<exists>t2. recover_from_log r2 = Ret () t2 \<and> same_home 2 (disk t2) (disk t)))"
proof -
  let ?d = "(\<lambda>_ _. 0)(2 := put_header 1 [100] (\<lambda>_. 0), 3 := (\<lambda>_. 7)) :: nat \<Rightarrow> block"
  let ?r = "log_boot ?d 0 (replicate LOGSIZE 0) () :: lstate"
  have one: "(1 :: uint) \<noteq> 0" by simp
  have r: "rebooted 0 1 2 ?d ?r" by (rule rebooted_log_boot) simp
  have "1 \<le> LOGSIZE" by (simp add: LOGSIZE_def MAXOPBLOCKS_def)
  then have h: "hdr_n (?d 2) = 1" "hdr_blk (?d 2) 0 = 100"
    using put_header [where n = 1 and bs = "[100]" and b = "\<lambda>_. 0"] by simp_all
  then have s: "sane_header 2 (?d 2)" by (simp add: sane_header_def inlog_def LOGSIZE_def MAXOPBLOCKS_def)
  obtain t ws where t: "recover_from_log ?r = Ret () t" "restored 2 ?d (disk t)" "dtrace t = dtrace ?r @ ws"
    "\<forall>k q (r2 :: lstate). rebooted q 1 2 (apply_writes (take k ws) ?d) r2 \<longrightarrow>
        (\<exists>t2. recover_from_log r2 = Ret () t2 \<and> same_home 2 (disk t2) (disk t))"
    using recovery_idempotent [OF one r s] by blast
  have "disk t 100 = (\<lambda>_. 7)" using t(2) h by (simp add: restored_def)
  then show ?thesis using t by (intro exI [of _ ?d] exI [of _ t] exI [of _ ws]) simp
qed

end
