(* ===== verification/Logtxn.thy ===== *)
theory Logtxn
  imports Logcrash
begin

text \<open>
  The log as the file system uses it: \<open>begin_op\<close>, then reads and logged updates of blocks, then
  \<open>end_op\<close>.  \<open>txn\<close> is the state inside a transaction; the locale \<open>transaction\<close> is the interface
  of the file system code.
\<close>

definition txn ::
  "nat \<Rightarrow> uint \<Rightarrow> nat \<Rightarrow> 'z lstate_scheme \<Rightarrow> (uint \<rightharpoonup> nat) \<Rightarrow> uint list \<Rightarrow> (uint \<Rightarrow> block) \<Rightarrow> bool" where
  "txn p dev st s H L V \<longleftrightarrow> bc p dev s H (pins (set L)) V \<and> log_lists dev st s L \<and> distinct L \<and>
     lg_size (klog s) = int LOGSIZE \<and> 1 \<le> lg_outstanding (klog s) \<and> lg_outstanding (klog s) \<le> 3 \<and> \<not> lg_committing (klog s)"

lemma txn_bc: "txn p dev st s H L V \<Longrightarrow> bc p dev s H (pins (set L)) V"
  by (simp add: txn_def)

lemma txn_other: "bc p dev t H' (pins (set L)) V' \<Longrightarrow> txn p dev st s H L V \<Longrightarrow> klog t = klog s \<Longrightarrow> txn p dev st t H' L V'"
  by (simp add: txn_def log_lists_def)

text \<open>Every block that is neither locked nor logged is on disk.\<close>

lemma txn_clean:
  assumes "txn p dev st s H L V" "H b = None" "b \<notin> set L"
  shows "V b = disk s (unat b)"
proof (cases "\<exists>i. isbuf dev s i b")
  case True
  then obtain i where i: "isbuf dev s i b" by blast
  have "unat (b_refcnt (bufs s i)) = 0" using bcD(7) [OF txn_bc [OF assms(1)] i] assms by (simp add: pins_def)
  then have "b_refcnt (bufs s i) = 0" by (simp add: unat_eq_zero)
  then show ?thesis by (rule bcD(11) [OF txn_bc [OF assms(1)] i])
next
  case False
  then show ?thesis by (rule bcD(14) [OF txn_bc [OF assms(1)]])
qed

section \<open>Starting an operation\<close>

lemma release_upd_log: "calm p s \<Longrightarrow> release l (upd_log f (acq l s)) = Ret () (upd_log f s)"
  by (simp add: calm_release) (simp add: upd_log_def acq_def pushed_def)

lemma klog_acq [simp]: "klog (acq l s) = klog s"
  by (simp add: acq_def pushed_def)

lemma begin_op_ok:
  assumes "calm p s" "\<not> lg_committing (klog s)" "0 \<le> lg_outstanding (klog s)" "lg_outstanding (klog s) < 1000"
    "log_n s + (lg_outstanding (klog s) + 1) * int MAXOPBLOCKS \<le> int LOGSIZE"
  shows "begin_op s = Ret () (upd_log (\<lambda>l. l\<lparr>lg_outstanding := lg_outstanding l + 1\<rparr>) s)"
proof -
  have "wrap32 (lg_outstanding (klog s) + 1) = lg_outstanding (klog s) + 1"
    using assms(3,4) by (intro wrap32_id) (simp add: int32_def)
  then have "upd_log (\<lambda>l. l\<lparr>lg_outstanding := wrap32 (lg_outstanding l + 1)\<rparr>) s = upd_log (\<lambda>l. l\<lparr>lg_outstanding := lg_outstanding l + 1\<rparr>) s"
    by (simp add: upd_log_def)
  then show ?thesis
    using assms by (simp add: begin_op_def begin_op_loop_def calm_acquire release_upd_log)
qed

section \<open>Logging a block\<close>

lemma log_find_spec:
  "i \<le> log_find k i b bs \<and> log_find k i b bs \<le> i + k \<and> (log_find k i b bs < i + k \<longrightarrow> bs ! log_find k i b bs = b) \<and>
     (\<forall>j. i \<le> j \<and> j < log_find k i b bs \<longrightarrow> bs ! j \<noteq> b)"
proof (induction k arbitrary: i)
  case 0
  then show ?case by auto
next
  case (Suc k)
  have "bs ! j \<noteq> b" if "bs ! i \<noteq> b" "\<forall>j. Suc i \<le> j \<and> j < r \<longrightarrow> bs ! j \<noteq> b" "i \<le> j" "j < r" for j r
    using that by (cases "j = i") auto
  then show ?case using Suc [of "Suc i"] by (cases "bs ! i = b") auto
qed

lemma log_find_entries:
  assumes "log_lists dev st s L"
  shows "b \<in> set L \<Longrightarrow> log_find (length L) 0 b (lh_block (lg_lh (klog s))) < length L \<and> L ! log_find (length L) 0 b (lh_block (lg_lh (klog s))) = b"
    "b \<notin> set L \<Longrightarrow> log_find (length L) 0 b (lh_block (lg_lh (klog s))) = length L"
proof -
  let ?bs = "lh_block (lg_lh (klog s))"
  let ?r = "log_find (length L) 0 b ?bs"
  have e: "?bs ! j = L ! j" if "j < length L" for j by (rule log_listsD(1) [OF assms that])
  have r: "?r \<le> length L" "?r < length L \<longrightarrow> ?bs ! ?r = b" "\<forall>j. j < ?r \<longrightarrow> ?bs ! j \<noteq> b"
    using log_find_spec [of 0 "length L" b ?bs] by auto
  show "b \<in> set L \<Longrightarrow> ?r < length L \<and> L ! ?r = b"
  proof -
    assume "b \<in> set L"
    then obtain j where j: "j < length L" "L ! j = b" by (auto simp: in_set_conv_nth)
    then have "\<not> j < ?r" using r(3) e by auto
    then have "?r < length L" using j by simp
    then show ?thesis using r(2) e by auto
  qed
  show "?r = length L" if n: "b \<notin> set L"
  proof (rule ccontr)
    assume "?r \<noteq> length L"
    then have "?r < length L" using r(1) by simp
    moreover from this have "L ! ?r = b" using r(2) e [of ?r] by simp
    ultimately show False using n nth_mem [of ?r L] by simp
  qed
qed

lemma bpin_nested:
  assumes "cpu_ok s" "touch s = s" "lock_free L_bcache s"
  shows "bpin b s = Ret () (upd_buf b (\<lambda>x. x\<lparr>b_refcnt := b_refcnt x + 1\<rparr>) s)"
proof -
  let ?t = "upd_buf b (\<lambda>x. x\<lparr>b_refcnt := b_refcnt x + 1\<rparr>) (acq L_bcache s)"
  have "release L_bcache ?t = Ret () (?t\<lparr>csr := csr s, cpus := cpus (touch s), locks := locks s\<rparr>)"
    by (rule release_mach [OF assms(1,3)]) simp
  then show ?thesis
    using assms(2) by (simp add: bpin_def acquire_eq [OF assms(1,3)]) (simp add: upd_buf_def acq_def pushed_def)
qed

text \<open>The effect of \<open>log_write\<close> on the log: the block is recorded once, and pinned the first time.\<close>

lemma log_write_eq:
  assumes "calm p s" "log_lists dev st s L" "lg_size (klog s) = int LOGSIZE" "1 \<le> lg_outstanding (klog s)"
    "length L < LOGSIZE - 1"
  shows "log_write b s = (let k = b_blockno (bufs s b) in
     if k \<in> set L then Ret () s
     else Ret () (upd_log (\<lambda>l. l\<lparr>lg_lh := \<lparr>lh_n = lh_n (lg_lh l) + 1, lh_block = (lh_block (lg_lh l))[length L := k]\<rparr>\<rparr>)
            (upd_buf b (\<lambda>x. x\<lparr>b_refcnt := b_refcnt x + 1\<rparr>) s)))"
proof -
  let ?a = "acq L_log s" and ?k = "b_blockno (bufs s b)" and ?bs = "lh_block (lg_lh (klog s))"
  let ?i = "log_find (length L) 0 ?k ?bs"
  let ?u = "upd_lh (\<lambda>h. h\<lparr>lh_block := (lh_block h)[?i := ?k]\<rparr>) ?a"
  have n: "log_n s = int (length L)" "length L < LOGSIZE" "length ?bs = LOGSIZE"
    using assms(2,5) by (simp_all add: log_lists_def)
  have lt: "\<not> int LOGSIZE - 1 \<le> int (length L)" using assms(5) by linarith
  have code: "log_write b s = bnd (if
 int ?i = log_n ?u
        then bnd (bpin b ?u) (\<lambda>_ s. Ret () (upd_lh (\<lambda>h. h\<lparr>lh_n := lh_n h + 1\<rparr>) s)) else Ret () ?u) (\<lambda>_ s. release L_log s)"
    using n assms(3,4) lt by (simp add: log_write_def calm_acquire [OF assms(1)] Let_def)
  have nu: "log_n ?u = int (length L)" using n by (simp add: upd_lh_def)
  show ?thesis
  proof (cases "?k \<in> set L")
    case True
    then have i: "?i < length L" "L ! ?i = ?k" using log_find_entries(1) [OF assms(2)] by auto
    then have "?bs ! ?i = ?k" using log_listsD(1) [OF assms(2)] by simp
    then have "?bs[?i := ?k] = ?bs" by (metis list_update_id)
    then have "?u = ?a" by (simp add: upd_lh_def upd_log_def)
    then show ?thesis using True i nu by (simp add: code calm_release_same [OF assms(1)])
  next
    case False
    then have i: "?i = length L" by (rule log_find_entries(2) [OF assms(2)])
    have m: "mach ?u = mach ?a" by (simp add: upd_lh_def)
    note in1 = calm_inside [OF assms(1) m]
    let ?v = "upd_lh (\<lambda>h. h\<lparr>lh_n := lh_n h + 1\<rparr>) (upd_buf b (\<lambda>x. x\<lparr>b_refcnt := b_refcnt x + 1\<rparr>) ?u)"
    have mv: "mach ?v = mach ?a" by (simp add: upd_lh_def)
    have bp: "bpin b ?u = Ret () (upd_buf b (\<lambda>x. x\<lparr>b_refcnt := b_refcnt x + 1\<rparr>) ?u)"
      by (rule bpin_nested [OF in1(1,2)]) (rule in1(4), simp)
    have "int ?i = log_n ?u" using i nu by simp
    then have "log_write b s = release L_log ?v" unfolding code bp by (simp only: bnd.simps if_True simp_thms)
    also have "\<dots> = Ret () (?v\<lparr>csr := csr s, cpus := cpus s, locks := locks s\<rparr>)" by (rule calm_release [OF assms(1) mv])
    finally show ?thesis
      using False i by (simp add: upd_lh_def upd_log_def upd_buf_def acq_def pushed_def)
  qed
qed

definition add_block :: "uint \<Rightarrow> uint list \<Rightarrow> uint list" where
  "add_block b L = (if b \<in> set L then L else L @ [b])"

lemma add_block_set [simp]: "set (add_block b L) = insert b (set L)"
  by (auto simp: add_block_def)

lemma pins_add: "b \<notin> set L \<Longrightarrow> pins (set (add_block b L)) = (pins (set L))(b := Suc (pins (set L) b))"
  by (auto simp: pins_def fun_eq_iff)

lemma log_write_ok:
  assumes "txn p dev st s H L V" "H b = Some i" "\<not> inlog st (unat b)" "length L < LOGSIZE - 1"
  obtains t where "log_write i s = Ret () t" "txn p dev st t H (add_block b L) V" "lframe p s t" "disk t = disk s" "dtrace t = dtrace s"
proof -
  have c: "calm p s" and ls: "log_lists dev st s L" and bc: "bc p dev s H (pins (set L)) V"
    using assms(1) bcD(1) [OF txn_bc [OF assms(1)]] by (simp_all add: txn_def)
  have ib: "isbuf dev s i b" by (rule bcD(4) [OF bc assms(2)])
  then have k: "b_blockno (bufs s i) = b" by (simp add: isbuf_def)
  have e: "log_write i s = (let k = b_blockno (bufs s i) in
     if k \<in> set L then Ret () s
     else Ret () (upd_log (\<lambda>l. l\<lparr>lg_lh := \<lparr>lh_n = lh_n (lg_lh l) + 1, lh_block = (lh_block (lg_lh l))[length L := k]\<rparr>\<rparr>)
            (upd_buf i (\<lambda>x. x\<lparr>b_refcnt := b_refcnt x + 1\<rparr>) s)))"
    by (rule log_write_eq [OF c ls _ _ assms(4)]) (use assms(1) in \<open>simp_all add: txn_def\<close>)
  show thesis
  proof (cases "b \<in> set L")
    case True
    then show thesis using that [of s] e k assms(1) by (simp add: add_block_def Let_def)
  next
    case False
    let ?t = "upd_buf i (\<lambda>x. x\<lparr>b_refcnt := b_refcnt x + 1\<rparr>) s"
    let ?u = "upd_log (\<lambda>l. l\<lparr>lg_lh := \<lparr>lh_n = lh_n (lg_lh l) + 1, lh_block = (lh_block (lg_lh l))[length L := b]\<rparr>\<rparr>) ?t"
    have pin: "bpin i s = Ret () ?t" using calmD(1,5,6) [OF c] by (intro bpin_nested) simp_all
    have p900: "pins (set L) b < 900" by (simp add: pins_def)
    obtain t where t: "bpin i s = Ret () t" "bc p dev t H ((pins (set L))(b := Suc (pins (set L) b))) V" "disk t = disk s"
      "dtrace t = dtrace s" "bframe p s t"
      by (rule bio.bpin [OF bc assms(2) p900])
    have tt: "t = ?t" using t(1) pin by simp
    have n: "log_n s = int (length L)" "length (lh_block (lg_lh (klog s))) = LOGSIZE" "take (length L) (lh_block (lg_lh (klog s))) = L"
      "length L < LOGSIZE" using ls assms(4) by (simp_all add: log_lists_def)
    have kt: "klog t = klog s" by (rule bframe_klog [OF t(5)])
    have "take (Suc (length L)) ((lh_block (lg_lh (klog s)))[length L := b]) = L @ [b]"
      using n by (simp add: take_Suc_conv_app_nth take_update_swap)
    then have ll: "log_lists dev st ?u (add_block b L)"
      using ls False assms(3,4) n unfolding log_lists_def by (simp add: add_block_def upd_buf_def)
    have "txn p dev st ?u H (add_block b L) V"
      unfolding txn_def using assms(1) t(2) tt ll False pins_add [OF False] by (simp add: txn_def add_block_def upd_buf_def)
    moreover have "lframe p s ?u" using lframe_bframe [OF t(5)] tt by simp
    moreover have "log_write i s = Ret () ?u" using e k False by (simp add: Let_def)
    ultimately show thesis using that t(3,4) tt by simp
  qed
qed

section \<open>The interface of the file system\<close>

text \<open>
  Inside a transaction: \<open>H\<close> are the blocks locked by this process, \<open>L\<close> the blocks in the log,
  \<open>V\<close> the contents every reader sees.  A block can be read and given back; it can be read,
  changed, logged and given back, unless it lies in the area of the log itself or the log is
  full.
\<close>

locale transaction =
  fixes bread :: "uint \<Rightarrow> 's \<Rightarrow> ('s, nat) outcome" and log_write brelse :: "nat \<Rightarrow> 's \<Rightarrow> ('s, unit) outcome"
    and data :: "'s \<Rightarrow> nat \<Rightarrow> block" and set_data :: "nat \<Rightarrow> block \<Rightarrow> 's \<Rightarrow> 's"
    and reserved :: "uint \<Rightarrow> bool" and frame :: "'s \<Rightarrow> 's \<Rightarrow> bool" and nbuf maxlog :: nat
    and inside :: "'s \<Rightarrow> (uint \<rightharpoonup> nat) \<Rightarrow> uint list \<Rightarrow> (uint \<Rightarrow> block) \<Rightarrow> bool"
  assumes bread: "inside s H L V \<Longrightarrow> H b = None \<Longrightarrow> card (dom H \<union> set L) < nbuf \<Longrightarrow>
      (\<And>i t. bread b s = Ret i t \<Longrightarrow> inside t (H(b \<mapsto> i)) L V \<Longrightarrow> data t i = V b \<Longrightarrow> frame s t \<Longrightarrow> thesis) \<Longrightarrow> thesis"
    and give_back: "inside s H L V \<Longrightarrow> H b = None \<Longrightarrow> inside t (H(b \<mapsto> i)) L V \<Longrightarrow> frame s t \<Longrightarrow>
      (\<And>u. brelse i t = Ret () u \<Longrightarrow> inside u H L V \<Longrightarrow> frame t u \<Longrightarrow> thesis) \<Longrightarrow> thesis"
    and set_data: "inside s H L V \<Longrightarrow> H b = Some i \<Longrightarrow> inside (set_data i d s) H L (V(b := d))" "frame s (set_data i d s)"
    and log_write: "inside s H L V \<Longrightarrow> H b = Some i \<Longrightarrow> \<not> reserved b \<Longrightarrow> length L < maxlog \<Longrightarrow>
      (\<And>t. log_write i s = Ret () t \<Longrightarrow> inside t H (add_block b L) V \<Longrightarrow> frame s t \<Longrightarrow> thesis) \<Longrightarrow> thesis"
    and brelse: "inside s H L V \<Longrightarrow> H b = Some i \<Longrightarrow> b \<in> set L \<Longrightarrow>
      (\<And>t. brelse i s = Ret () t \<Longrightarrow> inside t (H(b := None)) L V \<Longrightarrow> frame s t \<Longrightarrow> thesis) \<Longrightarrow> thesis"
    and frame_trans: "frame s t \<Longrightarrow> frame t u \<Longrightarrow> frame s u" and frame_refl: "frame s s"
begin

lemma peek:
  assumes "inside s H L V" "H b = None" "card (dom H \<union> set L) < nbuf"
  obtains i t u where "bread b s = Ret i t" "data t i = V b" "brelse i t = Ret () u" "inside u H L V" "frame s t" "frame s u"
proof -
  obtain i t where t: "bread b s = Ret i t" "inside t (H(b \<mapsto> i)) L V" "data t i = V b" "frame s t"
    by (rule bread [OF assms])
  obtain u where u: "brelse i t = Ret () u" "inside u H L V" "frame t u"
    by (rule give_back [OF assms(1,2) t(2,4)])
  show ?thesis by (rule that [OF t(1,3) u(1,2) t(4) frame_trans [OF t(4) u(3)]])
qed

lemma update:
  assumes "inside s H L V" "H b = None" "card (dom H \<union> set L) < nbuf" "\<not> reserved b" "length L < maxlog"
  obtains i t where "bread b s = Ret i t" "data t i = V b" "frame s t" "inside t (H(b \<mapsto> i)) L V"
    "\<And>d. \<exists>u v. log_write i (set_data i d t) = Ret () u \<and> brelse i u = Ret () v \<and>
       inside v H (add_block b L) (V(b := d)) \<and> frame s v"
proof -
  obtain i t where t: "bread b s = Ret i t" "inside t (H(b \<mapsto> i)) L V" "data t i = V b" "frame s t"
    by (rule bread [OF assms(1-3)])
  have h: "(H(b \<mapsto> i)) b = Some i" by simp
  have "\<exists>u v. log_write i (set_data i d t) = Ret () u \<and> brelse i u = Ret () v \<and>
       inside v H (add_block b L) (V(b := d)) \<and> frame s v" for d
  proof -
    obtain u where u: "log_write i (set_data i d t) = Ret () u" "inside u (H(b \<mapsto> i)) (add_block b L) (V(b := d))"
      "frame (set_data i d t) u"
      by (rule log_write [OF set_data(1) [OF t(2) h] h assms(4,5)])
    have m: "b \<in> set (add_block b L)" by simp
    obtain v where v: "brelse i u = Ret () v" "inside v (H(b \<mapsto> i, b := None)) (add_block b L) (V(b := d))" "frame u v"
      by (rule brelse [OF u(2) h m])
    have "H(b \<mapsto> i, b := None) = H" using assms(2) by auto
    moreover have "frame s v" by (rule frame_trans [OF frame_trans [OF t(4) set_data(2)] frame_trans [OF u(3) v(3)]])
    ultimately show ?thesis using u(1) v by auto
  qed
  then show ?thesis by (rule that [OF t(1,3,4,2)])
qed

end

lemma used_txn: "used H (pins (set L)) = dom H \<union> set L"
  by (auto simp: used_def pins_def)

lemma txn_bframe: "txn p dev st s H L V \<Longrightarrow> bc p dev t H' (pins (set L)) V' \<Longrightarrow> bframe p s t \<Longrightarrow> txn p dev st t H' L V'"
  using txn_other bframe_klog by blast

lemma bread_txn:
  assumes "txn p dev st s H L V" "H b = None" "card (dom H \<union> set L) < NBUF"
  obtains i t where "bread dev b s = Ret i t" "txn p dev st t (H(b \<mapsto> i)) L V" "b_data (bufs t i) = V b" "lframe p s t"
    "disk t = disk s" "dtrace t = dtrace s"
proof -
  have r: "card (used H (pins (set L))) < NBUF \<or> 0 < pins (set L) b" using assms(3) by (simp add: used_txn)
  obtain i t where t: "bread dev b s = Ret i t" "bc p dev t (H(b \<mapsto> i)) (pins (set L)) V" "b_data (bufs t i) = V b" "disk t = disk s"
    "dtrace t = dtrace s" "bframe p s t"
    by (rule bio.bread [OF txn_bc [OF assms(1)] assms(2) r])
  show thesis by (rule that [OF t(1) txn_bframe [OF assms(1) t(2,6)] t(3) lframe_bframe [OF t(6)] t(4,5)])
qed

text \<open>Between \<open>begin_op\<close> and \<open>end_op\<close> nothing reaches the disk.\<close>

definition tframe :: "nat \<Rightarrow> 'z lstate_scheme \<Rightarrow> 'z lstate_scheme \<Rightarrow> bool" where
  "tframe p s t \<longleftrightarrow> lframe p s t \<and> disk t = disk s \<and> dtrace t = dtrace s"

lemma tframe_trans: "tframe p s t \<Longrightarrow> tframe p t u \<Longrightarrow> tframe p s u"
  unfolding tframe_def using lframe_trans by force

lemma brelse_txn:
  assumes "txn p dev st s H L V" "H b = Some i" "b \<in> set L \<or> V b = disk s (unat b)"
  obtains t where "brelse i s = Ret () t" "txn p dev st t (H(b := None)) L V" "tframe p s t"
proof -
  have c: "0 < pins (set L) b \<or> V b = disk s (unat b)" using assms(3) by (auto simp: pins_def)
  obtain t where t: "brelse i s = Ret () t" "bc p dev t (H(b := None)) (pins (set L)) V" "disk t = disk s" "dtrace t = dtrace s" "bframe p s t"
    by (rule bio.brelse [OF txn_bc [OF assms(1)] assms(2) c])
  show thesis
    by (rule that [OF t(1) txn_bframe [OF assms(1) t(2,5)]]) (simp add: tframe_def lframe_bframe [OF t(5)] t(3,4))
qed

interpretation tx: transaction "bread dev" log_write brelse "\<lambda>s i. b_data (bufs s i)" set_data "\<lambda>b. inlog st (unat b)"
  "tframe p" NBUF "LOGSIZE - 1" "txn p dev st" for p dev st
proof unfold_locales
  fix s t u :: "'z lstate_scheme" and H L V b i d thesis
  show "thesis" if "txn p dev st s H L V" "H b = None" "card (dom H \<union> set L) < NBUF"
    "\<And>i t. bread dev b s = Ret i t \<Longrightarrow> txn p dev st t (H(b \<mapsto> i)) L V \<Longrightarrow> b_data (bufs t i) = V b \<Longrightarrow> tframe p s t \<Longrightarrow> thesis"
  proof (rule bread_txn [OF that(1-3)])
    fix i t
    assume "bread dev b s = Ret i t" "txn p dev st t (H(b \<mapsto> i)) L V" "b_data (bufs t i) = V b" "lframe p s t"
      "disk t = disk s" "dtrace t = dtrace s"
    then show thesis by (intro that(4)) (auto simp: tframe_def)
  qed
  show "txn p dev st (set_data i d s) H L (V(b := d))" if "txn p dev st s H L V" "H b = Some i"
    by (rule txn_bframe [OF that(1) set_data_ok [OF txn_bc [OF that(1)] that(2)]]) (simp add: set_data_def)
  show "tframe p s (set_data i d s)" by (simp add: tframe_def lframe_bframe set_data_def)
  show "thesis" if "txn p dev st s H L V" "H b = Some i" "\<not> inlog st (unat b)" "length L < LOGSIZE - 1"
    "\<And>t. log_write i s = Ret () t \<Longrightarrow> txn p dev st t H (add_block b L) V \<Longrightarrow> tframe p s t \<Longrightarrow> thesis"
  proof (rule log_write_ok [OF that(1-4)])
    fix t
    assume "log_write i s = Ret () t" "txn p dev st t H (add_block b L) V" "lframe p s t" "disk t = disk s" "dtrace t = dtrace s"
    then show thesis by (intro that(5)) (auto simp: tframe_def)
  qed
  show "thesis" if "txn p dev st s H L V" "H b = Some i" "b \<in> set L"
    "\<And>t. brelse i s = Ret () t \<Longrightarrow> txn p dev st t (H(b := None)) L V \<Longrightarrow> tframe p s t \<Longrightarrow> thesis"
    by (rule brelse_txn [OF that(1,2)]) (use that(3,4) in auto)
  show "tframe p s u" if "tframe p s t" "tframe p t u" by (rule tframe_trans [OF that])
  show "tframe p s s" by (simp add: tframe_def)
  show "thesis" if a: "txn p dev st s H L V" "H b = None" "txn p dev st t (H(b \<mapsto> i)) L V" "tframe p s t"
    and k: "\<And>u. brelse i t = Ret () u \<Longrightarrow> txn p dev st u H L V \<Longrightarrow> tframe p t u \<Longrightarrow> thesis"
  proof -
    have c: "b \<in> set L \<or> V b = disk t (unat b)" using txn_clean [OF a(1,2)] a(4) by (auto simp: tframe_def)
    have h: "(H(b \<mapsto> i)) b = Some i" by simp
    obtain v where v: "brelse i t = Ret () v" "txn p dev st v (H(b \<mapsto> i, b := None)) L V" "tframe p t v"
      by (rule brelse_txn [OF a(3) h c])

    have "H(b \<mapsto> i, b := None) = H" using a(2) by auto
    then show thesis using k v by simp
  qed
qed

section \<open>How much a transaction can hold\<close>

text \<open>One logged update of a block: the typical use that the comment on \<open>log_write\<close> in \<^verbatim>\<open>log.c\<close> gives, and
  the pattern of the whole file system.\<close>

definition log_update :: "uint \<Rightarrow> uint \<Rightarrow> block \<Rightarrow> 'z lstate_scheme \<Rightarrow> ('z lstate_scheme, unit) outcome" where
  "log_update dev b d s =
     bnd (bread dev b s) (\<lambda>i s. bnd (log_write i (set_data i d s)) (\<lambda>_ s. brelse i s))"

lemma log_updates:
  assumes "txn p dev st s (\<lambda>_. None) L V" "distinct (L @ bs)" "length (L @ bs) \<le> LOGSIZE - 1" "\<And>b. b \<in> set bs \<Longrightarrow> \<not> inlog st (unat b)"
  shows "\<exists>t. for_each bs (\<lambda>b. log_update dev b (D b)) s = Ret () t \<and>
    txn p dev st t (\<lambda>_. None) (L @ bs) (\<lambda>b. if b \<in> set bs then D b else V b) \<and> tframe p s t"
  using assms
proof (induction bs arbitrary: s L V)
  case Nil
  then show ?case by (auto simp: tframe_def)
next
  case (Cons b bs)
  have r: "card (dom (\<lambda>_. None :: nat option) \<union> set L) < NBUF" "length L < LOGSIZE - 1" "\<not> inlog st (unat b)" "b \<notin> set L"
    using Cons.prems(2-4) by (auto simp: distinct_card NBUF_def LOGSIZE_def MAXOPBLOCKS_def)
  obtain i t where t: "bread dev b s = Ret i t" "b_data (bufs t i) = V b" "tframe p s t" "txn p dev st t ((\<lambda>_. None)(b \<mapsto> i)) L V"
    "\<And>d. \<exists>u v. log_write i (set_data i d t) = Ret () u \<and> brelse i u = Ret () v \<and>
       txn p dev st v (\<lambda>_. None) (add_block b L) (V(b := d)) \<and> tframe p s v"
    by (rule tx.update [OF Cons.prems(1) refl r(1,3,2)]) (rule that, assumption+)
  obtain u v where v: "log_write i (set_data i (D b) t) = Ret () u" "brelse i u = Ret () v"
    "txn p dev st v (\<lambda>_. None) (L @ [b]) (V(b := D b))" "tframe p s v"
    using t(5) [of "D b"] r(4) by (auto simp: add_block_def)
  have "log_update dev b (D b) s = Ret () v" using t(1) v(1,2) by (simp add: log_update_def)
  moreover obtain w where w: "for_each bs (\<lambda>b. log_update dev b (D b)) v = Ret () w"
    "txn p dev st w (\<lambda>_. None) ((L @ [b]) @ bs) (\<lambda>x. if x \<in> set bs then D x else (V(b := D b)) x)" "tframe p v w"
    using Cons.IH [OF v(3)] Cons.prems(2-4) by auto
  moreover have "(\<lambda>x. if x \<in> set bs then D x else (V(b := D b)) x) = (\<lambda>x. if x \<in> set (b # bs) then D x else V x)" by auto
  ultimately show ?case using tframe_trans [OF v(4) w(3)] by simp
qed

text \<open>The log between transactions: nothing logged, no operation outstanding.\<close>

definition log_idle :: "nat \<Rightarrow> uint \<Rightarrow> nat \<Rightarrow> 'z lstate_scheme \<Rightarrow> (uint \<Rightarrow> block) \<Rightarrow> bool" where
  "log_idle p dev st s V \<longleftrightarrow> bc p dev s (\<lambda>_. None) (pins {}) V \<and> log_lists dev st s [] \<and>
     lg_size (klog s) = int LOGSIZE \<and> lg_outstanding (klog s) = 0 \<and> \<not> lg_committing (klog s)"

definition three_ops :: "'z lstate_scheme \<Rightarrow> ('z lstate_scheme, unit) outcome" where
  "three_ops s = bnd (begin_op s) (\<lambda>_ s. bnd (begin_op s) (\<lambda>_ s. begin_op s))"

lemma three_ops_admitted:
  assumes "log_idle p dev st s V"
  obtains t where "three_ops s = Ret () t" "txn p dev st t (\<lambda>_. None) [] V" "lg_outstanding (klog t) = 3"
proof -
  let ?up = "upd_log (\<lambda>l. l\<lparr>lg_outstanding := lg_outstanding l + 1\<rparr>)"
  have c: "calm p s" using assms bcD(1) by (auto simp: log_idle_def)
  have k: "lg_outstanding (klog s) = 0" "log_n s = 0" "\<not> lg_committing (klog s)" using assms by (simp_all add: log_idle_def log_lists_def)
  have cu: "calm p (upd_log f v) = calm p v" for f and v :: "'a lstate_scheme" by (rule calm_cong) simp
  have "begin_op s = Ret () (?up s)" by (rule begin_op_ok [OF c]) (use k in \<open>simp_all add: LOGSIZE_def MAXOPBLOCKS_def\<close>)
  moreover have "begin_op (?up s) = Ret () (?up (?up s))"
    by (rule begin_op_ok [of p]) (use k c cu in \<open>simp_all add: LOGSIZE_def MAXOPBLOCKS_def\<close>)
  moreover have "begin_op (?up (?up s)) = Ret () (?up (?up (?up s)))"
    by (rule begin_op_ok [of p]) (use k c cu in \<open>simp_all add: LOGSIZE_def MAXOPBLOCKS_def\<close>)
  ultimately have "three_ops s = Ret () (?up (?up (?up s)))" unfolding three_ops_def by (simp only: bnd.simps)

  moreover have "txn p dev st (?up (?up (?up s))) (\<lambda>_. None) [] V" "lg_outstanding (klog (?up (?up (?up s)))) = 3"
    using assms by (simp_all add: txn_def log_idle_def log_lists_def)
  ultimately show thesis by (rule that)
qed

lemma log_write_full:
  assumes "txn p dev st t (\<lambda>_. None) L V" "length L = 29" "b \<notin> set L"
  shows "log_update dev b d t = Panic ''too big a transaction''"
proof -
  have "card (dom (\<lambda>_. None :: nat option) \<union> set L) < NBUF"
    using card_length [of L] assms(2) by (simp add: NBUF_def MAXOPBLOCKS_def)
  then obtain i u where u: "bread dev b t = Ret i u" "txn p dev st u ((\<lambda>_. None)(b \<mapsto> i)) L V"
    by (rule bread_txn [OF assms(1) refl])
  have v: "txn p dev st (set_data i d u) ((\<lambda>_. None)(b \<mapsto> i)) L (V(b := d))"
    by (rule tx.set_data(1) [OF u(2)]) simp
  have "calm p (set_data i d u)" by (rule bcD(1) [OF txn_bc [OF v]])
  moreover have "log_n (set_data i d u) = 29" "lg_size (klog (set_data i d u)) = 30"
    using v assms(2) by (simp_all add: txn_def log_lists_def LOGSIZE_def MAXOPBLOCKS_def)
  ultimately have "log_write i (set_data i d u) = Panic ''too big a transaction''"
    by (simp add: log_write_def calm_acquire)
  then show ?thesis using u(1) by (simp add: log_update_def)
qed

text \<open>
  C21: a transaction that \<open>begin_op\<close> admits can panic.  From an idle log three calls of \<open>begin_op\<close>
  in a row return, reserving \<open>MAXOPBLOCKS\<close> blocks for each operation.  If the three operations then
  update \<open>as\<close>, \<open>bs\<close> and \<open>cs @ [c]\<close>, all different blocks and none of them more than the
  \<open>MAXOPBLOCKS\<close> reserved for it, the updates of \<open>as @ bs @ cs\<close> succeed and the \<open>log_write\<close> of \<open>c\<close>
  stops the kernel with \<open>too big a transaction\<close>: the log has \<open>LOGSIZE\<close> blocks, but one of them is the
  header.
\<close>

theorem log_admits_too_much:
  assumes "log_idle p dev st s V" "length as = MAXOPBLOCKS" "length bs = MAXOPBLOCKS" "length (cs @ [c]) = MAXOPBLOCKS"
    "distinct (as @ bs @ cs @ [c])" "\<And>x. x \<in> set (as @ bs @ cs) \<Longrightarrow> \<not> inlog st (unat x)"
  shows "\<exists>t. bnd (bnd (begin_op s) (\<lambda>_ s. bnd (begin_op s) (\<lambda>_ s. begin_op s)))
       (\<lambda>_. for_each (as @ bs @ cs) (\<lambda>b. log_update dev b (D b))) = Ret () t \<and>
    log_update dev c d t = Panic ''too big a transaction''"
proof -
  obtain u where u: "three_ops s = Ret () u" "txn p dev st u (\<lambda>_. None) [] V"
    by (rule three_ops_admitted [OF assms(1)])
  have n: "length (as @ bs @ cs) = 29" using assms(2-4) by (simp add: MAXOPBLOCKS_def)
  then have "length ([] @ as @ bs @ cs) \<le> LOGSIZE - 1" by (simp add: LOGSIZE_def MAXOPBLOCKS_def)
  then obtain t where t: "for_each (as @ bs @ cs) (\<lambda>b. log_update dev b (D b)) u = Ret () t"
    "txn p dev st t (\<lambda>_. None) (as @ bs @ cs) (\<lambda>b. if b \<in> set (as @ bs @ cs) then D b else V b)"
    using log_updates [OF u(2), of "as @ bs @ cs" D] assms(5,6) by auto
  have "log_update dev c d t = Panic ''too big a transaction''"
    by (rule log_write_full [OF t(2) n]) (use assms(5) in auto)
  then show ?thesis using t(1) u(1) by (simp add: three_ops_def)
qed

lemma log_boot_idle: "log_idle 0 1 2 (log_boot d 0 (replicate LOGSIZE 0) z) (\<lambda>b. d (unat b))"
proof -
  have "pins {} = (\<lambda>_. 0)" by (simp add: pins_def fun_eq_iff)
  moreover have "bc 0 1 (log_boot d 0 (replicate LOGSIZE 0) z) (\<lambda>_. None) (\<lambda>_. 0) (\<lambda>b. d (unat b))"
    unfolding log_boot_def by (rule bio_boot_bc) simp
  ultimately show ?thesis by (simp add: log_idle_def log_lists_def LOGSIZE_def MAXOPBLOCKS_def)
qed

lemma txn_boot:
  "txn 0 1 2 (upd_log (\<lambda>l. l\<lparr>lg_outstanding := 3\<rparr>) (log_boot d 0 (replicate LOGSIZE 0) z)) (\<lambda>_. None) [] (\<lambda>b. d (unat b))"
  using log_boot_idle [of d z] by (simp add: log_idle_def txn_def log_lists_def)

theorem log_admits_too_much_witness:
  "\<exists>t. bnd (bnd (begin_op (log_boot (\<lambda>_ _. 0) 0 (replicate LOGSIZE 0) ())) (\<lambda>_ s. bnd (begin_op s) (\<lambda>_ s. begin_op s)))
       (\<lambda>_. for_each (map of_nat [32..<42] @ map of_nat [42..<52] @ map of_nat [52..<61]) (\<lambda>b. log_update 1 b (\<lambda>_. 7))) = Ret () t \<and>
    log_update 1 61 (\<lambda>_. 7) t = Panic ''too big a transaction''"
proof -
  let ?as = "map of_nat [32..<42] :: uint list" and ?bs = "map of_nat [42..<52] :: uint list" and ?cs = "map of_nat [52..<61] :: uint list"
  have s: "[32..<42] @ [42..<52] @ [52..<61] @ [61] = [32..<62 :: nat]" by (simp add: upt_conv_Cons)
  have "map of_nat [32..<42] @ map of_nat [42..<52] @ map of_nat [52..<61] @ [61] = (map of_nat ([32..<42] @ [42..<52] @ [52..<61] @ [61]) :: uint list)"
    by simp
  then have e: "?as @ ?bs @ ?cs @ [61] = map of_nat [32..<62]" by (simp only: s)
  have inj: "inj_on (of_nat :: nat \<Rightarrow> uint) {32..<62}" by (rule inj_onI) (auto simp: word_unat_eq_iff unat32_of_nat)
  have d: "distinct (?as @ ?bs @ ?cs @ [61])" unfolding e distinct_map using inj by simp
  have l: "\<not> inlog 2 (unat x)" if "x \<in> set (?as @ ?bs @ ?cs)" for x
    using that by (auto simp: inlog_def LOGSIZE_def MAXOPBLOCKS_def unat32_of_nat)
  have n: "length ?as = MAXOPBLOCKS" "length ?bs = MAXOPBLOCKS" "length (?cs @ [61]) = MAXOPBLOCKS" by (simp_all add: MAXOPBLOCKS_def)
  show ?thesis by (rule log_admits_too_much [OF log_boot_idle n d l])
qed

end
