(* ===== verification/Ring.thy ===== *)
theory Ring
  imports Prelude
begin

text \<open>
  Ring buffers with free-running indices, the data structure of the pipe, of the console input
  and of the UART output.  The indices are machine words that wrap around; the size divides the
  range of the indices, so the slot of an index is the index modulo the size.  The locale holds
  the laws that relate a ring to the list of bytes in it; each of the three buffers interprets
  it.
\<close>

definition rlist :: "nat \<Rightarrow> (nat \<Rightarrow> byte) \<Rightarrow> 'a::len word \<Rightarrow> 'a word \<Rightarrow> byte list" where
  "rlist sz buf r w = map (\<lambda>i. buf (unat (r + of_nat i) mod sz)) [0..<unat (w - r)]"

definition rput :: "nat \<Rightarrow> 'a::len word \<Rightarrow> byte \<Rightarrow> (nat \<Rightarrow> byte) \<Rightarrow> nat \<Rightarrow> byte" where
  "rput sz w c buf = buf(unat w mod sz := c)"

definition rget :: "nat \<Rightarrow> 'a::len word \<Rightarrow> (nat \<Rightarrow> byte) \<Rightarrow> byte" where
  "rget sz r buf = buf (unat r mod sz)"

lemma length_rlist [simp]: "length (rlist sz buf r w) = unat (w - r)"
  by (simp add: rlist_def)

lemma rlist_empty [simp]: "rlist sz buf r r = []"
  by (simp add: rlist_def)

lemma unat_diff_Suc: "w \<noteq> r \<Longrightarrow> unat (w - r) = Suc (unat (w - r - 1))" for w r :: "'a::len word"
  using unat_minus_one [of "w - r"] unat_gt_0 [of "w - r"] by simp

lemma unat_plus_1: "unat d + 1 < 2 ^ LENGTH('a) \<Longrightarrow> unat (d + 1) = Suc (unat d)" for d :: "'a::len word"
  by (simp add: unat_word_ariths)

locale ring =

  fixes sz :: nat and index :: "'a::len word"
  assumes size_dvd: "sz dvd 2 ^ LENGTH('a)" and size_pos: "0 < sz" and size_less: "sz < 2 ^ LENGTH('a)"
begin

lemma slot_add: "unat (r + of_nat i :: 'a word) mod sz = (unat r + i) mod sz"
proof -
  have "unat (r + of_nat i :: 'a word) = (unat r + i) mod 2 ^ LENGTH('a)"
    by (simp add: unat_word_ariths unat_of_nat take_bit_eq_mod mod_simps)
  then show ?thesis using size_dvd by (simp add: mod_mod_cancel)
qed

text \<open>Two indices less than the size apart use different slots.\<close>

lemma slot_neq:
  assumes "i < j" "j < i + sz"
  shows "(a + i) mod sz \<noteq> (a + j) mod sz"
proof
  assume "(a + i) mod sz = (a + j) mod sz"
  then have "sz dvd (a + j) - (a + i)" using assms by (metis mod_eq_dvd_iff_nat nat_add_left_cancel_less less_imp_le)
  then have "sz dvd j - i" by simp
  then show False using assms by (auto dest: dvd_imp_le)
qed

lemma put:
  assumes "unat (w - r) < sz"
  shows "rlist sz (rput sz w c buf) r (w + 1 :: 'a word) = rlist sz buf r w @ [c]"
proof -
  have n: "unat (w + 1 - r) = Suc (unat (w - r))"
  proof -
    have e: "w + 1 - r = (w - r) + 1" by simp
    have "unat (w - r) + 1 < 2 ^ LENGTH('a)" using assms size_less by linarith
    then show ?thesis unfolding e by (rule unat_plus_1)
  qed
  have wr: "r + of_nat (unat (w - r)) = w" by simp
  have "rput sz w c buf (unat (r + of_nat i) mod sz) = buf (unat (r + of_nat i) mod sz)" if "i < unat (w - r)" for i
  proof -
    have "unat w mod sz = (unat r + unat (w - r)) mod sz" using slot_add [of r "unat (w - r)"] wr by simp
    then show ?thesis using slot_neq [of i "unat (w - r)" "unat r"] that assms by (simp add: rput_def slot_add)
  qed
  moreover have "rput sz w c buf (unat (r + of_nat (unat (w - r))) mod sz) = c" by (simp add: rput_def)
  ultimately show ?thesis by (simp add: rlist_def n)
qed

lemma get:
  assumes "r \<noteq> w"
  shows "rlist sz buf r (w :: 'a word) = rget sz r buf # rlist sz buf (r + 1) w"
proof -
  have n: "unat (w - r) = Suc (unat (w - (r + 1)))"
    using unat_diff_Suc [of w r] assms by (simp add: diff_diff_add)
  have "[0..<Suc k] = 0 # map Suc [0..<k]" for k by (simp add: upt_conv_Cons map_Suc_upt)
  then show ?thesis by (simp add: rlist_def rget_def n comp_def add.assoc)
qed

lemma unput:
  assumes "r \<noteq> w"
  shows "rlist sz buf r (w :: 'a word) = rlist sz buf r (w - 1) @ [rget sz (w - 1) buf]"
proof -
  have n: "unat (w - r) = Suc (unat (w - 1 - r))"
    using unat_diff_Suc [of w r] assms by (simp add: diff_right_commute)
  have "r + of_nat (unat (w - 1 - r)) = w - 1" by simp
  then show ?thesis by (simp add: rlist_def rget_def n)
qed

text \<open>A ring can be read in two parts.\<close>

lemma split:
  assumes "unat (m - r) + unat (w - m) = unat (w - r)"
  shows "rlist sz buf r (w :: 'a word) = rlist sz buf r m @ rlist sz buf m w"
proof (rule nth_equalityI)
  show "length (rlist sz buf r w) = length (rlist sz buf r m @ rlist sz buf m w)" using assms by simp
  fix i assume "i < length (rlist sz buf r w)"
  then have i: "i < unat (w - r)" by simp
  show "rlist sz buf r w ! i = (rlist sz buf r m @ rlist sz buf m w) ! i"
  proof (cases "i < unat (m - r)")
    case True
    then show ?thesis using i by (simp add: nth_append) (simp add: rlist_def)
  next
    case False
    then have "r + of_nat i = m + of_nat (i - unat (m - r))" by (simp add: of_nat_diff)
    moreover have "i - unat (m - r) < unat (w - m)" using False i assms by linarith
    ultimately show ?thesis using False i by (simp add: nth_append) (simp add: rlist_def add.commute)
  qed
qed

end

end
