(* ===== verification/Uart.thy ===== *)
theory Uart
  imports Logtxn Ring
begin

text \<open>
  The UART driver, \<^verbatim>\<open>kernel/uart.c\<close>, and the state of the console and of \<open>printf\<close>.

  The 16550 is outside the kernel.  It is represented by what the driver can observe and do: the
  number of bytes its transmitter can take right now (\<open>ud_room\<close>, positive exactly when
  \<^verbatim>\<open>LSR_TX_IDLE\<close> is set), the bytes received and not yet read, the bytes sent, and the writes
  to the configuration registers.  When a CPU polls for \<^verbatim>\<open>LSR_TX_IDLE\<close> the transmitter drains
  until it can take a byte.
\<close>

record uart_dev =
  ud_room :: nat
  ud_in :: "byte list"
  ud_out :: "byte list"
  ud_config :: "(nat \<times> byte) list"

text \<open>The device table \<^verbatim>\<open>devsw[]\<close>: the only drivers are those of the console.\<close>

datatype device = Dev_console

record ustate = lstate +
  udev :: uart_dev
  uart_tx_buf :: "nat \<Rightarrow> byte"
  uart_tx_w :: uint64
  uart_tx_r :: uint64
  panicked :: bool
  pr_locking :: bool
  cons_buf :: "nat \<Rightarrow> byte"
  cons_r :: uint
  cons_w :: uint
  cons_e :: uint
  devsw_read :: "nat \<Rightarrow> device option"
  devsw_write :: "nat \<Rightarrow> device option"

definition UART_TX_BUF_SIZE :: nat where "UART_TX_BUF_SIZE = 32"

definition RHR :: nat where "RHR = 0"
definition THR :: nat where "THR = 0"
definition IER :: nat where "IER = 1"
definition FCR :: nat where "FCR = 2"
definition LCR :: nat where "LCR = 3"
definition LSR :: nat where "LSR = 5"

definition LSR_RX_READY :: byte where "LSR_RX_READY = push_bit 0 1"
definition LSR_TX_IDLE :: byte where "LSR_TX_IDLE = push_bit 5 1"

text \<open>The line status register, as the device presents it.\<close>

definition read_LSR :: "'z ustate_scheme \<Rightarrow> byte" where
  "read_LSR s = (if ud_room (udev s) > 0 then LSR_TX_IDLE else 0) OR (if ud_in (udev s) \<noteq> [] then LSR_RX_READY else 0)"

definition write_THR :: "byte \<Rightarrow> 'z ustate_scheme \<Rightarrow> 'z ustate_scheme" where
  "write_THR c s = s\<lparr>udev := (udev s)\<lparr>ud_out := ud_out (udev s) @ [c], ud_room := ud_room (udev s) - 1\<rparr>\<rparr>"

definition write_config :: "nat \<Rightarrow> byte \<Rightarrow> 'z ustate_scheme \<Rightarrow> 'z ustate_scheme" where
  "write_config reg v s = s\<lparr>udev := (udev s)\<lparr>ud_config := ud_config (udev s) @ [(reg, v)]\<rparr>\<rparr>"

text \<open>Polling: the transmitter drains until it is idle.\<close>

definition await_TX_IDLE :: "'z ustate_scheme \<Rightarrow> 'z ustate_scheme" where
  "await_TX_IDLE s = (if ud_room (udev s) = 0 then s\<lparr>udev := (udev s)\<lparr>ud_room := 1\<rparr>\<rparr> else s)"

section \<open>The driver\<close>

definition uartinit :: "'z ustate_scheme \<Rightarrow> 'z ustate_scheme" where
  "uartinit s =
     (let s = write_config IER 0x00 s;
          s = write_config LCR (push_bit 7 1) s;
          s = write_config 0 0x03 s;
          s = write_config 1 0x00 s;
          s = write_config LCR (push_bit 0 3) s;
          s = write_config FCR (push_bit 0 1 OR push_bit 1 3) s;
          s = write_config IER (push_bit 1 1 OR push_bit 0 1) s
      in initlock L_uart ''uart'' s)"

text \<open>
  The loop of \<open>uartstart\<close>; each round fills one place of the transmitter, so one more round than
  there is room is enough.
\<close>

fun uartstart_loop :: "nat \<Rightarrow> 'z ustate_scheme \<Rightarrow> ('z ustate_scheme, unit) outcome" where
  "uartstart_loop 0 s = Spin"
| "uartstart_loop (Suc k) s =
     (if uart_tx_w s = uart_tx_r s then Ret () s
      else if read_LSR s AND LSR_TX_IDLE = 0 then Ret () s
      else
        let c = uart_tx_buf s (unat (uart_tx_r s) mod UART_TX_BUF_SIZE);
            s = s\<lparr>uart_tx_r := uart_tx_r s + 1\<rparr>
        in bnd (wakeup (Some C_uart) s) (\<lambda>_ s. uartstart_loop k (write_THR c s)))"

definition uartstart :: "'z ustate_scheme \<Rightarrow> ('z ustate_scheme, unit) outcome" where
  "uartstart s = uartstart_loop (Suc (ud_room (udev s))) s"

text \<open>\<open>uartputc\<close> with its lock held, at the test of the waiting loop.\<close>

definition uartputc_loop :: "byte \<Rightarrow> 'z ustate_scheme \<Rightarrow> ('z ustate_scheme, unit) outcome" where
  "uartputc_loop c s =
     (if uart_tx_w s = uart_tx_r s + of_nat UART_TX_BUF_SIZE then sleep C_uart L_uart s
      else
        let s = s\<lparr>uart_tx_buf := (uart_tx_buf s)(unat (uart_tx_w s) mod UART_TX_BUF_SIZE := c)\<rparr>;
            s = s\<lparr>uart_tx_w := uart_tx_w s + 1\<rparr>
        in bnd (uartstart s) (\<lambda>_ s. release L_uart s))"

definition uartputc :: "byte \<Rightarrow> 'z ustate_scheme \<Rightarrow> ('z ustate_scheme, unit) outcome" where
  "uartputc c s =
     bnd (acquire L_uart s) (\<lambda>_ s. if panicked s then Spin else uartputc_loop c s)"

definition uartputc_resume :: "nat \<Rightarrow> bool \<Rightarrow> byte \<Rightarrow> 'z ustate_scheme \<Rightarrow> ('z ustate_scheme, unit) outcome" where
  "uartputc_resume p saved c s = bnd (sleep_resume p saved L_uart s) (\<lambda>_ s. uartputc_loop c s)"

definition uartputc_sync :: "byte \<Rightarrow> 'z ustate_scheme \<Rightarrow> ('z ustate_scheme, unit) outcome" where
  "uartputc_sync c s =
     bnd (push_off s) (\<lambda>_ s.
       if panicked s then Spin
       else pop_off (write_THR c (await_TX_IDLE s)))"

definition uartgetc :: "'z ustate_scheme \<Rightarrow> int \<times> 'z ustate_scheme" where
  "uartgetc s =
     (if read_LSR s AND 0x01 \<noteq> 0
      then (uint (hd (ud_in (udev s))), s\<lparr>udev := (udev s)\<lparr>ud_in := tl (ud_in (udev s))\<rparr>\<rparr>)
      else (-1, s))"

end
