(* ===== verification/Printf.thy ===== *)
theory Printf
  imports Uart
begin

text \<open>
  Formatted console output, \<^verbatim>\<open>kernel/printf.c\<close>, and the echo routine \<open>consputc\<close> of
  \<^verbatim>\<open>kernel/console.c\<close>.  A format string is the list of its bytes without the terminating zero;
  the variable arguments are a list of tagged values, and fetching one of another type than was
  passed is a \<open>Fault\<close>.
\<close>

abbreviation (input) ch :: "char \<Rightarrow> byte" where
  "ch c \<equiv> of_char c"

definition str :: "string \<Rightarrow> byte list" where
  "str cs = map of_char cs"

definition BACKSPACE :: int where "BACKSPACE = 0x100"

definition consputc :: "int \<Rightarrow> 'z ustate_scheme \<Rightarrow> ('z ustate_scheme, unit) outcome" where
  "consputc c s =
     (if c = BACKSPACE then
        bnd (uartputc_sync 8 s) (\<lambda>_ s.
        bnd (uartputc_sync (ch CHR '' '') s) (\<lambda>_ s.
        uartputc_sync 8 s))
      else uartputc_sync (of_int c) s)"

definition puts :: "byte list \<Rightarrow> 'z ustate_scheme \<Rightarrow> ('z ustate_scheme, unit) outcome" where
  "puts bs s = for_each bs (\<lambda>c s. consputc (uint c) s) s"

definition digits :: "nat \<Rightarrow> byte" where
  "digits d = str ''0123456789abcdef'' ! d"

text \<open>
  The digit loop of \<open>printint\<close>, least significant digit first.  The kernel calls it with base 10
  and base 16 only.
\<close>

function print_digits :: "nat \<Rightarrow> nat \<Rightarrow> byte list" where
  "print_digits base x =
     digits (x mod base) # (if x div base = 0 \<or> base < 2 then [] else print_digits base (x div base))"
  by auto
termination
proof (relation "measure snd")
  fix base x :: nat
  assume "\<not> (x div base = 0 \<or> base < 2)"
  then have "0 < x" "1 < base" by (auto intro: ccontr)
  then show "((base, x div base), (base, x)) \<in> measure snd" by (simp add: div_less_dividend)
qed simp

declare print_digits.simps [simp del]

definition printint :: "int \<Rightarrow> nat \<Rightarrow> bool \<Rightarrow> 'z ustate_scheme \<Rightarrow> ('z ustate_scheme, unit) outcome" where
  "printint xx base sign s =
     (let neg = (sign \<and> xx < 0);
          x = (if neg then of_int (- xx) else of_int xx) :: uint;
          buf = print_digits base (unat x) @ (if neg then [ch CHR ''-''] else [])
      in puts (rev buf) s)"

definition printptr :: "uint64 \<Rightarrow> 'z ustate_scheme \<Rightarrow> ('z ustate_scheme, unit) outcome" where
  "printptr x s =
     bnd (puts (str ''0x'') s) (\<lambda>_ s.
     for_each [0..<16] (\<lambda>i s. consputc (uint (digits (unat (drop_bit 60 (push_bit (4 * i) x))))) s) s)"

datatype parg = Arg_int int | Arg_ptr uint64 | Arg_str "byte list option"

fun printf_loop :: "byte list \<Rightarrow> parg list \<Rightarrow> 'z ustate_scheme \<Rightarrow> ('z ustate_scheme, unit) outcome" where
  "printf_loop [] ap s = Ret () s"
| "printf_loop [c] ap s =
     (if c = 0 then Ret () s else if c = ch CHR ''%'' then Ret () s else consputc (uint c) s)"
| "printf_loop (c # d # fmt) ap s =
     (if c = 0 then Ret () s
      else if c \<noteq> ch CHR ''%'' then bnd (consputc (uint c) s) (\<lambda>_ s. printf_loop (d # fmt) ap s)
      else if d = 0 then Ret () s
      else if d = ch CHR ''d'' then
        (case ap of Arg_int v # ap' \<Rightarrow> bnd (printint v 10 True s) (\<lambda>_ s. printf_loop fmt ap' s)
         | _ \<Rightarrow> Fault ''va_arg'')
      else if d = ch CHR ''x'' then
        (case ap of Arg_int v # ap' \<Rightarrow> bnd (printint v 16 True s) (\<lambda>_ s. printf_loop fmt ap' s)
         | _ \<Rightarrow> Fault ''va_arg'')
      else if d = ch CHR ''p'' then
        (case ap of Arg_ptr v # ap' \<Rightarrow> bnd (printptr v s) (\<lambda>_ s. printf_loop fmt ap' s)
         | _ \<Rightarrow> Fault ''va_arg'')
      else if d = ch CHR ''s'' then
        (case ap of Arg_str v # ap' \<Rightarrow>
             bnd (puts (case v of None \<Rightarrow> str ''(null)'' | Some b \<Rightarrow> b) s) (\<lambda>_ s. printf_loop fmt ap' s)
         | _ \<Rightarrow> Fault ''va_arg'')
      else if d = ch CHR ''%'' then bnd (consputc (uint d) s) (\<lambda>_ s. printf_loop fmt ap s)
      else bnd (consputc (uint c) s) (\<lambda>_ s. bnd (consputc (uint d) s) (\<lambda>_ s. printf_loop fmt ap s)))"

definition printf :: "byte list option \<Rightarrow> parg list \<Rightarrow> 'z ustate_scheme \<Rightarrow> ('z ustate_scheme, unit) outcome" where
  "printf fmt ap s =
     (let locking = pr_locking s in
      bnd (if locking then acquire L_pr s else Ret () s) (\<lambda>_ s.
      case fmt of None \<Rightarrow> Panic ''null fmt''
      | Some f \<Rightarrow>
          bnd (printf_loop f ap s) (\<lambda>_ s.
          if locking then release L_pr s else Ret () s)))"

text \<open>What \<open>panic\<close> does before it loops forever; afterwards no CPU gets past \<open>uartputc\<close>.\<close>

definition panic_message :: "byte list \<Rightarrow> 'z ustate_scheme \<Rightarrow> ('z ustate_scheme, unit) outcome" where
  "panic_message m s =
     bnd (printf (Some (str ''panic: '')) [] (s\<lparr>pr_locking := False\<rparr>)) (\<lambda>_ s.
     bnd (printf (Some m) [] s) (\<lambda>_ s.
     bnd (printf (Some [10]) [] s) (\<lambda>_ s.
     Ret () (s\<lparr>panicked := True\<rparr>))))"

definition printfinit :: "'z ustate_scheme \<Rightarrow> 'z ustate_scheme" where
  "printfinit s = (initlock L_pr ''pr'' s)\<lparr>pr_locking := True\<rparr>"

end
