(* ===== verification/Console.thy ===== *)
theory Console
  imports Printf
begin

text \<open>
  The console, \<^verbatim>\<open>kernel/console.c\<close>, \<open>procdump\<close> of \<^verbatim>\<open>kernel/proc.c\<close>, and the UART interrupt
  handler that feeds it.  \<open>consoleread\<close> and \<open>consolewrite\<close> end in \<open>Switch\<close> when they have to
  wait; \<open>consoleread_resume\<close> goes on from there.
\<close>

definition INPUT_BUF_SIZE :: nat where "INPUT_BUF_SIZE = 128"
definition CONSOLE :: nat where "CONSOLE = 1"

definition ctrl :: "char \<Rightarrow> int" where
  "ctrl x = of_char x - of_char CHR ''@''"

fun state_name :: "procstate \<Rightarrow> byte list" where
  "state_name UNUSED = str ''unused''"
| "state_name USED = str ''used''"
| "state_name SLEEPING = str ''sleep ''"
| "state_name RUNNABLE = str ''runble''"
| "state_name RUNNING = str ''run   ''"
| "state_name ZOMBIE = str ''zombie''"

text \<open>The zero-terminated contents of \<^verbatim>\<open>p->name\<close>.\<close>

definition cstr :: "byte list \<Rightarrow> byte list" where
  "cstr bs = takeWhile (\<lambda>c. c \<noteq> 0) bs"

definition procdump :: "policy \<Rightarrow> 'z ustate_scheme \<Rightarrow> ('z ustate_scheme, unit) outcome" where
  "procdump pol s =
     bnd (printf (Some [10]) [] s) (\<lambda>_ s.
     for_each [0..<NPROC] (\<lambda>p s.
       let x = procs s p; nm = Arg_str (Some (cstr (p_name x))); st = Arg_str (Some (state_name (p_state x))) in
       if p_state x = UNUSED then Ret () s
       else case pol of
         MLFQ \<Rightarrow> printf (Some (str ''%d %s %s %d Time : %d'' @ [10]))
             [Arg_int (p_pid x), st, nm, Arg_int (p_number_process x), Arg_int (sint (ticks s - of_int (p_start_time x)))] s
       | LBS \<Rightarrow>
           bnd (printf (Some (str ''LBS'' @ [10])) [] s) (\<lambda>_ s.
           printf (Some (str ''%d %s %s %d Tickets:%d'' @ [10]))
             [Arg_int (p_pid x), st, nm, Arg_int (sint (ticks s - of_int (p_start_time_lbs x))), Arg_int (p_tickets x)] s)
       | DEFAULT \<Rightarrow>
           bnd (printf (Some (str ''%d %s %s'')) [Arg_int (p_pid x), st, nm] s) (\<lambda>_ s.
           printf (Some [10]) [] s)) s)"

definition consolewrite :: "csrc \<Rightarrow> int \<Rightarrow> 'z ustate_scheme \<Rightarrow> ('z ustate_scheme, int) outcome" where
  "consolewrite src n s =
     bnd (for_until [0..<nat n] (\<lambda>i s.
       bnd (either_copyin (src_add src i) 1 s) (\<lambda>(r, bs) s.
       if r = -1 then Ret (Some i) s
       else bnd (uartputc (hd bs) s) (\<lambda>_ s. Ret None s))) s) (\<lambda>r s.
     Ret (case r of Some i \<Rightarrow> int i | None \<Rightarrow> if n > 0 then n else 0) s)"

text \<open>
  The loop of \<open>consoleread\<close>, with the console lock held.  The last argument collects the bytes
  for a \<open>Local_dst\<close> caller.
\<close>

fun consoleread_loop ::
  "nat \<Rightarrow> nat \<Rightarrow> cdest \<Rightarrow> byte list \<Rightarrow> 'z ustate_scheme \<Rightarrow> ('z ustate_scheme, int \<times> byte list) outcome" where
  "consoleread_loop target 0 dst acc s =
     bnd (release L_cons s) (\<lambda>_ s. Ret (int target, acc) s)"
| "consoleread_loop target (Suc n) dst acc s =
     (if cons_r s = cons_w s then
        with_myproc (\<lambda>p s.
        bnd (killed p s) (\<lambda>k s.
          if k \<noteq> 0 then bnd (release L_cons s) (\<lambda>_ s. Ret (-1, acc) s)
          else bnd (sleep C_cons L_cons s) (\<lambda>_ s. Ret (0, acc) s))) s
      else
        let c = cons_buf s (unat (cons_r s) mod INPUT_BUF_SIZE);
            s = s\<lparr>cons_r := cons_r s + 1\<rparr>
        in if uint c = ctrl CHR ''D'' then
             let s = (if Suc n < target then s\<lparr>cons_r := cons_r s - 1\<rparr> else s)
             in bnd (release L_cons s) (\<lambda>_ s. Ret (int target - int (Suc n), acc) s)
           else
             bnd (either_copyout dst [c] s) (\<lambda>r s.
               if r = -1 then bnd (release L_cons s) (\<lambda>_ s. Ret (int target - int (Suc n), acc) s)
               else if c = 10 then bnd (release L_cons s) (\<lambda>_ s. Ret (int target - int n, acc @ [c]) s)
               else consoleread_loop target n (dst_add dst 1) (acc @ [c]) s))"

definition consoleread :: "cdest \<Rightarrow> int \<Rightarrow> 'z ustate_scheme \<Rightarrow> ('z ustate_scheme, int \<times> byte list) outcome" where
  "consoleread dst n s =
     bnd (acquire L_cons s) (\<lambda>_ s.
       if n > 0 then consoleread_loop (nat n) (nat n) dst [] s
       else bnd (release L_cons s) (\<lambda>_ s. Ret (0, []) s))"

text \<open>Woken up after a wait, with \<open>n\<close> bytes of \<open>target\<close> still to come.\<close>

definition consoleread_resume ::
  "nat \<Rightarrow> bool \<Rightarrow> nat \<Rightarrow> nat \<Rightarrow> cdest \<Rightarrow> byte list \<Rightarrow> 'z ustate_scheme \<Rightarrow> ('z ustate_scheme, int \<times> byte list) outcome" where
  "consoleread_resume p saved target n dst acc s =
     bnd (sleep_resume p saved L_cons s) (\<lambda>_ s. consoleread_loop target n dst acc s)"

text \<open>
  The loop of the kill-line key; the fuel is the number of characters that can be erased.
\<close>

fun kill_line :: "nat \<Rightarrow> 'z ustate_scheme \<Rightarrow> ('z ustate_scheme, unit) outcome" where
  "kill_line 0 s = (if cons_e s \<noteq> cons_w s \<and> cons_buf s (unat (cons_e s - 1) mod INPUT_BUF_SIZE) \<noteq> 10 then Spin else Ret () s)"
| "kill_line (Suc k) s =
     (if cons_e s \<noteq> cons_w s \<and> cons_buf s (unat (cons_e s - 1) mod INPUT_BUF_SIZE) \<noteq> 10
      then bnd (consputc BACKSPACE (s\<lparr>cons_e := cons_e s - 1\<rparr>)) (\<lambda>_ s. kill_line k s)
      else Ret () s)"

definition consoleintr :: "policy \<Rightarrow> int \<Rightarrow> 'z ustate_scheme \<Rightarrow> ('z ustate_scheme, unit) outcome" where
  "consoleintr pol c s =
     bnd (acquire L_cons s) (\<lambda>_ s.
     bnd (if c = ctrl CHR ''P'' then procdump pol s
          else if c = ctrl CHR ''U'' then kill_line (unat (cons_e s - cons_w s)) s
          else if c = ctrl CHR ''H'' \<or> c = 0x7f then
            (if cons_e s \<noteq> cons_w s then consputc BACKSPACE (s\<lparr>cons_e := cons_e s - 1\<rparr>) else Ret () s)
          else if c \<noteq> 0 \<and> unat (cons_e s - cons_r s) < INPUT_BUF_SIZE then
            let c = (if c = 13 then 10 else c) in
            bnd (consputc c s) (\<lambda>_ s.
              let s = s\<lparr>cons_buf := (cons_buf s)(unat (cons_e s) mod INPUT_BUF_SIZE := of_int c), cons_e := cons_e s + 1\<rparr> in
              if c = 10 \<or> c = ctrl CHR ''D'' \<or> unat (cons_e s - cons_r s) = INPUT_BUF_SIZE
              then wakeup (Some C_cons) (s\<lparr>cons_w := cons_e s\<rparr>)
              else Ret () s)
          else Ret () s) (\<lambda>_ s.
     release L_cons s))"

definition consoleinit :: "'z ustate_scheme \<Rightarrow> 'z ustate_scheme" where
  "consoleinit s =
     (let s = uartinit (initlock L_cons ''cons'' s)
      in s\<lparr>devsw_read := (devsw_read s)(CONSOLE := Some Dev_console),
           devsw_write := (devsw_write s)(CONSOLE := Some Dev_console)\<rparr>)"

text \<open>
  The UART interrupt handler.  Its first loop reads until no byte is waiting; every round takes
  one byte out of the receiver, so the number of waiting bytes bounds it.
\<close>

fun uartintr_input :: "policy \<Rightarrow> nat \<Rightarrow> 'z ustate_scheme \<Rightarrow> ('z ustate_scheme, unit) outcome" where
  "uartintr_input pol 0 s = Spin"
| "uartintr_input pol (Suc k) s =
     (case uartgetc s of (c, s) \<Rightarrow>
        if c = -1 then Ret () s
        else bnd (consoleintr pol c s) (\<lambda>_ s. uartintr_input pol k s))"

definition uartintr :: "policy \<Rightarrow> 'z ustate_scheme \<Rightarrow> ('z ustate_scheme, unit) outcome" where
  "uartintr pol s =
     bnd (uartintr_input pol (Suc (length (ud_in (udev s)))) s) (\<lambda>_ s.
     bnd (acquire L_uart s) (\<lambda>_ s.
     bnd (uartstart s) (\<lambda>_ s.
     release L_uart s)))"

end
