(* ===== verification/Fs.thy ===== *)
theory Fs
  imports Console
begin

text \<open>
  The file system, \<^verbatim>\<open>kernel/fs.c\<close>: the block bitmap, inodes, file contents, directories and
  path names, on top of the log.  An inode pointer is an index into \<^verbatim>\<open>itable.inode[]\<close>; names
  and paths are lists of bytes without the terminating zero, except for the buffer of
  \<open>DIRSIZ\<close> bytes that \<open>skipelem\<close> fills.
\<close>

section \<open>On-disk and in-memory structures\<close>

definition ROOTINO :: uint where "ROOTINO = 1"
definition ROOTDEV :: uint where "ROOTDEV = 1"
definition FSMAGIC :: uint where "FSMAGIC = 0x10203040"
definition NDIRECT :: nat where "NDIRECT = 12"
definition NINDIRECT :: nat where "NINDIRECT = BSIZE div 4"
definition MAXFILE :: nat where "MAXFILE = NDIRECT + NINDIRECT"
definition NINODE :: nat where "NINODE = 50"
definition BPB :: nat where "BPB = BSIZE * 8"
definition DIRSIZ :: nat where "DIRSIZ = 14"
definition IPB :: nat where "IPB = BSIZE div 64"

definition T_DIR :: "16 word" where "T_DIR = 1"
definition T_FILE :: "16 word" where "T_FILE = 2"
definition T_DEVICE :: "16 word" where "T_DEVICE = 3"

text \<open>\<^verbatim>\<open>struct dinode\<close>: 64 bytes, 16 in a block.\<close>

record dinode =
  d_type :: "16 word"
  d_major :: "16 word"
  d_minor :: "16 word"
  d_nlink :: "16 word"
  d_size :: uint
  d_addrs :: "uint list"

definition get_dinode :: "block \<Rightarrow> nat \<Rightarrow> dinode" where
  "get_dinode b k = \<lparr>d_type = get_le 2 b (64 * k), d_major = get_le 2 b (64 * k + 2), d_minor = get_le 2 b (64 * k + 4),
     d_nlink = get_le 2 b (64 * k + 6), d_size = get_le 4 b (64 * k + 8),
     d_addrs = map (\<lambda>i. get_le 4 b (64 * k + 12 + 4 * i)) [0..<NDIRECT + 1]\<rparr>"

definition put_dinode :: "nat \<Rightarrow> dinode \<Rightarrow> block \<Rightarrow> block" where
  "put_dinode k d b =
     (let b = put_le 2 (64 * k) (d_type d) b;
          b = put_le 2 (64 * k + 2) (d_major d) b;
          b = put_le 2 (64 * k + 4) (d_minor d) b;
          b = put_le 2 (64 * k + 6) (d_nlink d) b;
          b = put_le 4 (64 * k + 8) (d_size d) b
      in fold (\<lambda>i b. put_le 4 (64 * k + 12 + 4 * i) (d_addrs d ! i) b) [0..<NDIRECT + 1] b)"

record inode =
  i_dev :: uint
  i_inum :: uint
  i_ref :: int
  i_valid :: bool
  i_type :: "16 word"
  i_major :: "16 word"
  i_minor :: "16 word"
  i_nlink :: "16 word"
  i_size :: uint
  i_addrs :: "uint list"

record fstate = ustate +
  sb :: superblock
  itable :: "nat \<Rightarrow> inode"

definition upd_ino :: "nat \<Rightarrow> (inode \<Rightarrow> inode) \<Rightarrow> 'z fstate_scheme \<Rightarrow> 'z fstate_scheme" where
  "upd_ino i f s = s\<lparr>itable := (itable s)(i := f (itable s i))\<rparr>"

definition IBLOCK :: "uint \<Rightarrow> superblock \<Rightarrow> uint" where
  "IBLOCK i x = i div of_nat IPB + sb_inodestart x"


definition BBLOCK :: "uint \<Rightarrow> superblock \<Rightarrow> uint" where
  "BBLOCK b x = b div of_nat BPB + sb_bmapstart x"

section \<open>Super block and blocks\<close>

definition get_superblock :: "block \<Rightarrow> superblock" where
  "get_superblock b = \<lparr>sb_magic = get_le 4 b 0, sb_size = get_le 4 b 4, sb_nblocks = get_le 4 b 8, sb_ninodes = get_le 4 b 12,
     sb_nlog = get_le 4 b 16, sb_logstart = get_le 4 b 20, sb_inodestart = get_le 4 b 24, sb_bmapstart = get_le 4 b 28\<rparr>"

definition readsb :: "uint \<Rightarrow> 'z fstate_scheme \<Rightarrow> ('z fstate_scheme, unit) outcome" where
  "readsb dev s =
     bnd (bread dev 1 s) (\<lambda>bp s.
     brelse bp (s\<lparr>sb := get_superblock (b_data (bufs s bp))\<rparr>))"

definition fsinit :: "int \<Rightarrow> 'z fstate_scheme \<Rightarrow> ('z fstate_scheme, unit) outcome" where
  "fsinit dev s =
     bnd (readsb (of_int dev) s) (\<lambda>_ s.
       if sb_magic (sb s) \<noteq> FSMAGIC then Panic ''invalid file system'' else initlog dev (sb s) s)"

definition bzero :: "uint \<Rightarrow> uint \<Rightarrow> 'z fstate_scheme \<Rightarrow> ('z fstate_scheme, unit) outcome" where
  "bzero dev bno s =
     bnd (bread dev bno s) (\<lambda>bp s.
     bnd (log_write bp (set_data bp (\<lambda>_. 0) s)) (\<lambda>_ s.
     brelse bp s))"

text \<open>The bit of block \<open>bi\<close> in a bitmap block.\<close>

definition bm_byte :: "nat \<Rightarrow> 10 word" where
  "bm_byte bi = of_nat (bi div 8)"

definition bm_mask :: "nat \<Rightarrow> byte" where
  "bm_mask bi = push_bit (bi mod 8) 1"

definition bm_free :: "block \<Rightarrow> nat \<Rightarrow> bool" where
  "bm_free b bi \<longleftrightarrow> b (bm_byte bi) AND bm_mask bi = 0"

definition bm_set :: "nat \<Rightarrow> block \<Rightarrow> block" where
  "bm_set bi b = b(bm_byte bi := b (bm_byte bi) OR bm_mask bi)"

definition bm_clear :: "nat \<Rightarrow> block \<Rightarrow> block" where
  "bm_clear bi b = b(bm_byte bi := b (bm_byte bi) AND NOT (bm_mask bi))"

text \<open>The inner loop of \<open>balloc\<close> over one bitmap block, and \<open>balloc\<close>.\<close>

definition balloc_scan :: "nat \<Rightarrow> nat \<Rightarrow> block \<Rightarrow> nat option" where
  "balloc_scan b sz d = find (\<lambda>bi. bm_free d bi) [0..<min BPB (sz - b)]"

definition balloc :: "uint \<Rightarrow> 'z fstate_scheme \<Rightarrow> ('z fstate_scheme, uint) outcome" where
  "balloc dev s =
     bnd (for_until [0..<(unat (sb_size (sb s)) + BPB - 1) div BPB] (\<lambda>k s.
       let b = k * BPB in
       bnd (bread dev (BBLOCK (of_nat b) (sb s)) s) (\<lambda>bp s.
       case balloc_scan b (unat (sb_size (sb s))) (b_data (bufs s bp)) of
         Some bi \<Rightarrow>
           bnd (log_write bp (set_data bp (bm_set bi (b_data (bufs s bp))) s)) (\<lambda>_ s.
           bnd (brelse bp s) (\<lambda>_ s.
           bnd (bzero dev (of_nat (b + bi)) s) (\<lambda>_ s.
           Ret (Some (of_nat (b + bi))) s)))
       | None \<Rightarrow> bnd (brelse bp s) (\<lambda>_ s. Ret None s))) s) (\<lambda>r s.
     case r of Some b \<Rightarrow> Ret b s
     | None \<Rightarrow> bnd (printf (Some (str ''balloc: out of blocks'' @ [10])) [] s) (\<lambda>_ s. Ret 0 s))"

definition bfree :: "uint \<Rightarrow> uint \<Rightarrow> 'z fstate_scheme \<Rightarrow> ('z fstate_scheme, unit) outcome" where
  "bfree dev b s =
     bnd (bread dev (BBLOCK b (sb s)) s) (\<lambda>bp s.
       let bi = unat b mod BPB in
       if bm_free (b_data (bufs s bp)) bi then Panic ''freeing free block''
       else
         bnd (log_write bp (set_data bp (bm_clear bi (b_data (bufs s bp))) s)) (\<lambda>_ s.
         brelse bp s))"

section \<open>Inodes\<close>

definition iinit :: "'z fstate_scheme \<Rightarrow> ('z fstate_scheme, unit) outcome" where
  "iinit s = for_each [0..<NINODE] (\<lambda>i s. Ret () (initsleeplock (SL_inode i) ''inode'' s)) (initlock L_itable ''itable'' s)"

text \<open>
  The scan of \<open>iget\<close>: the entry with this inode, or the first empty one.
\<close>

fun iget_scan :: "nat list \<Rightarrow> nat option \<Rightarrow> uint \<Rightarrow> uint \<Rightarrow> (nat \<Rightarrow> inode) \<Rightarrow> nat + nat option" where
  "iget_scan [] free dev inum t = Inr free"
| "iget_scan (i # is) free dev inum t =
     (if i_ref (t i) > 0 \<and> i_dev (t i) = dev \<and> i_inum (t i) = inum then Inl i
      else iget_scan is (if free = None \<and> i_ref (t i) = 0 then Some i else free) dev inum t)"

definition iget :: "uint \<Rightarrow> uint \<Rightarrow> 'z fstate_scheme \<Rightarrow> ('z fstate_scheme, nat) outcome" where
  "iget dev inum s =
     bnd (acquire L_itable s) (\<lambda>_ s.
     case iget_scan [0..<NINODE] None dev inum (itable s) of
       Inl ip \<Rightarrow>
         bnd (release L_itable (upd_ino ip (\<lambda>i. i\<lparr>i_ref := wrap32 (i_ref i + 1)\<rparr>) s)) (\<lambda>_ s. Ret ip s)
     | Inr None \<Rightarrow> Panic ''iget: no inodes''
     | Inr (Some ip) \<Rightarrow>
         bnd (release L_itable
           (upd_ino ip (\<lambda>i. i\<lparr>i_dev := dev, i_inum := inum, i_ref := 1, i_valid := False\<rparr>) s)) (\<lambda>_ s. Ret ip s))"

definition ialloc :: "uint \<Rightarrow> 16 word \<Rightarrow> 'z fstate_scheme \<Rightarrow> ('z fstate_scheme, nat option) outcome" where
  "ialloc dev type s =
     bnd (for_until [1..<unat (sb_ninodes (sb s))] (\<lambda>inum s.
       bnd (bread dev (IBLOCK (of_nat inum) (sb s)) s) (\<lambda>bp s.
       if d_type (get_dinode (b_data (bufs s bp)) (inum mod IPB)) = 0 then
         bnd (log_write bp (set_data bp (put_dinode (inum mod IPB)
           \<lparr>d_type = type, d_major = 0, d_minor = 0, d_nlink = 0, d_size = 0, d_addrs = replicate (NDIRECT + 1) 0\<rparr>
           (b_data (bufs s bp))) s)) (\<lambda>_ s.
         bnd (brelse bp s) (\<lambda>_ s.
         bnd (iget dev (of_nat inum) s) (\<lambda>ip s. Ret (Some ip) s)))
       else bnd (brelse bp s) (\<lambda>_ s. Ret None s))) s) (\<lambda>r s.
     case r of Some ip \<Rightarrow> Ret (Some ip) s
     | None \<Rightarrow> bnd (printf (Some (str ''ialloc: no inodes'' @ [10])) [] s) (\<lambda>_ s. Ret None s))"

definition iupdate :: "nat \<Rightarrow> 'z fstate_scheme \<Rightarrow> ('z fstate_scheme, unit) outcome" where
  "iupdate ip s =
     bnd (bread (i_dev (itable s ip)) (IBLOCK (i_inum (itable s ip)) (sb s)) s) (\<lambda>bp s.
       let i = itable s ip in
       bnd (log_write bp (set_data bp (put_dinode (unat (i_inum i) mod IPB)
         \<lparr>d_type = i_type i, d_major = i_major i, d_minor = i_minor i, d_nlink = i_nlink i, d_size = i_size i, d_addrs = i_addrs i\<rparr>
         (b_data (bufs s bp))) s)) (\<lambda>_ s.
       brelse bp s))"

definition idup :: "nat \<Rightarrow> 'z fstate_scheme \<Rightarrow> ('z fstate_scheme, nat) outcome" where
  "idup ip s =
     bnd (acquire L_itable s) (\<lambda>_ s.
     bnd (release L_itable (upd_ino ip (\<lambda>i. i\<lparr>i_ref := wrap32 (i_ref i + 1)\<rparr>) s)) (\<lambda>_ s. Ret ip s))"

definition ilock :: "nat \<Rightarrow> 'z fstate_scheme \<Rightarrow> ('z fstate_scheme, unit) outcome" where
  "ilock ip s =
     (if i_ref (itable s ip) < 1 then Panic ''ilock''
      else
        bnd (acquiresleep (SL_inode ip) s) (\<lambda>_ s.
        if \<not> i_valid (itable s ip) then
          bnd (bread (i_dev (itable s ip)) (IBLOCK (i_inum (itable s ip)) (sb s)) s) (\<lambda>bp s.
            let d = get_dinode (b_data (bufs s bp)) (unat (i_inum (itable s ip)) mod IPB);
                s = upd_ino ip (\<lambda>i. i\<lparr>i_type := d_type d, i_major := d_major d, i_minor := d_minor d,
                      i_nlink := d_nlink d, i_size := d_size d, i_addrs := d_addrs d\<rparr>) s
            in bnd (brelse bp s) (\<lambda>_ s.
                 let s = upd_ino ip (\<lambda>i. i\<lparr>i_valid := True\<rparr>) s in
                 if i_type (itable s ip) = 0 then Panic ''ilock: no type'' else Ret () s))
        else Ret () s))"

definition iunlock :: "nat \<Rightarrow> 'z fstate_scheme \<Rightarrow> ('z fstate_scheme, unit) outcome" where
  "iunlock ip s =
     bnd (holdingsleep (SL_inode ip) s) (\<lambda>h s.
       if \<not> h \<or> i_ref (itable s ip) < 1 then Panic ''iunlock'' else releasesleep (SL_inode ip) s)"

section \<open>File contents\<close>

definition bmap :: "nat \<Rightarrow> nat \<Rightarrow> 'z fstate_scheme \<Rightarrow> ('z fstate_scheme, uint) outcome" where
  "bmap ip bn s =
     (let dev = i_dev (itable s ip) in
      if bn < NDIRECT then
        let addr = i_addrs (itable s ip) ! bn in
        if addr = 0 then
          bnd (balloc dev s) (\<lambda>addr s.
            if addr = 0 then Ret 0 s
            else Ret addr (upd_ino ip (\<lambda>i. i\<lparr>i_addrs := (i_addrs i)[bn := addr]\<rparr>) s))
        else Ret addr s
      else if bn - NDIRECT < NINDIRECT then
        let addr = i_addrs (itable s ip) ! NDIRECT in
        bnd (if addr = 0 then
               bnd (balloc dev s) (\<lambda>addr s.
                 if addr = 0 then Ret 0 s
                 else Ret addr (upd_ino ip (\<lambda>i. i\<lparr>i_addrs := (i_addrs i)[NDIRECT := addr]\<rparr>) s))
             else Ret addr s) (\<lambda>addr s.
        if addr = 0 then Ret 0 s
        else
          bnd (bread dev addr s) (\<lambda>bp s.
            let a = get_le 4 (b_data (bufs s bp)) (4 * (bn - NDIRECT)) in
            bnd (if a = 0 then
                   bnd (balloc dev s) (\<lambda>a s.
                     if a \<noteq> 0
                     then bnd (log_write bp (set_data bp (put_le 4 (4 * (bn - NDIRECT)) a (b_data (bufs s bp))) s)) (\<lambda>_ s. Ret a s)
                     else Ret a s)
                 else Ret a s) (\<lambda>a s.
            bnd (brelse bp s) (\<lambda>_ s. Ret a s))))
      else Panic ''bmap: out of range'')"

definition itrunc :: "nat \<Rightarrow> 'z fstate_scheme \<Rightarrow> ('z fstate_scheme, unit) outcome" where
  "itrunc ip s =
     bnd (for_each [0..<NDIRECT] (\<lambda>i s.
       if i_addrs (itable s ip) ! i \<noteq> 0
       then bnd (bfree (i_dev (itable s ip)) (i_addrs (itable s ip) ! i) s) (\<lambda>_ s.
            Ret () (upd_ino ip (\<lambda>x. x\<lparr>i_addrs := (i_addrs x)[i := 0]\<rparr>) s))
       else Ret () s) s) (\<lambda>_ s.
     bnd (if i_addrs (itable s ip) ! NDIRECT \<noteq> 0 then
            bnd (bread (i_dev (itable s ip)) (i_addrs (itable s ip) ! NDIRECT) s) (\<lambda>bp s.
            bnd (for_each [0..<NINDIRECT] (\<lambda>j s.
              let a = get_le 4 (b_data (bufs s bp)) (4 * j) in
              if a \<noteq> 0 then bfree (i_dev (itable s ip)) a s else Ret () s) s) (\<lambda>_ s.
            bnd (brelse bp s) (\<lambda>_ s.
            bnd (bfree (i_dev (itable s ip)) (i_addrs (itable s ip) ! NDIRECT) s) (\<lambda>_ s.
            Ret () (upd_ino ip (\<lambda>x. x\<lparr>i_addrs := (i_addrs x)[NDIRECT := 0]\<rparr>) s)))))
          else Ret () s) (\<lambda>_ s.
     iupdate ip (upd_ino ip (\<lambda>x. x\<lparr>i_size := 0\<rparr>) s)))"

definition iput :: "nat \<Rightarrow> 'z fstate_scheme \<Rightarrow> ('z fstate_scheme, unit) outcome" where
  "iput ip s =
     bnd (acquire L_itable s) (\<lambda>_ s.
     bnd (if i_ref (itable s ip) = 1 \<and> i_valid (itable s ip) \<and> i_nlink (itable s ip) = 0 then
            bnd (acquiresleep (SL_inode ip) s) (\<lambda>_ s.
            bnd (release L_itable s) (\<lambda>_ s.
            bnd (itrunc ip s) (\<lambda>_ s.
            bnd (iupdate ip (upd_ino ip (\<lambda>i. i\<lparr>i_type := 0\<rparr>) s)) (\<lambda>_ s.
            bnd (releasesleep (SL_inode ip) (upd_ino ip (\<lambda>i. i\<lparr>i_valid := False\<rparr>) s)) (\<lambda>_ s.
            acquire L_itable s)))))
          else Ret () s) (\<lambda>_ s.
     release L_itable (upd_ino ip (\<lambda>i. i\<lparr>i_ref := wrap32 (i_ref i - 1)\<rparr>) s)))"

definition iunlockput :: "nat \<Rightarrow> 'z fstate_scheme \<Rightarrow> ('z fstate_scheme, unit) outcome" where
  "iunlockput ip s = bnd (iunlock ip s) (\<lambda>_ s. iput ip s)"

record stat =
  st_dev :: int
  st_ino :: uint
  st_type :: "16 word"
  st_nlink :: "16 word"
  st_size :: uint64

definition stati :: "nat \<Rightarrow> 'z fstate_scheme \<Rightarrow> stat" where
  "stati ip s = (let i = itable s ip in
     \<lparr>st_dev = sint (i_dev i), st_ino = i_inum i, st_type = i_type i, st_nlink = i_nlink i, st_size = ucast (i_size i)\<rparr>)"

end
