(* ===== verification/Dir.thy ===== *)
theory Dir
  imports Fs
begin

text \<open>
  Reading and writing inodes, directories and path names: the second half of
  \<^verbatim>\<open>kernel/fs.c\<close>.
\<close>

section \<open>Reading and writing\<close>

text \<open>
  The loops of \<open>readi\<close> and \<open>writei\<close>: \<open>n\<close> is what is left, \<open>tot\<close> what has been done.  \<open>readi\<close>
  also returns the bytes, for callers that read into a local variable.
\<close>

function readi_loop ::
  "nat \<Rightarrow> cdest \<Rightarrow> nat \<Rightarrow> nat \<Rightarrow> nat \<Rightarrow> byte list \<Rightarrow> 'z fstate_scheme \<Rightarrow> ('z fstate_scheme, int \<times> byte list) outcome" where
  "readi_loop ip dst off n tot acc s =
     (if n = 0 then Ret (int tot, acc) s
      else
        bnd (bmap ip (off div BSIZE) s) (\<lambda>addr s.
          if addr = 0 then Ret (int tot, acc) s
          else
            bnd (bread (i_dev (itable s ip)) addr s) (\<lambda>bp s.
              let m = min n (BSIZE - off mod BSIZE);
                  bs = get_bytes (b_data (bufs s bp)) (off mod BSIZE) m
              in bnd (either_copyout dst bs s) (\<lambda>r s.
                   if r = -1 then bnd (brelse bp s) (\<lambda>_ s. Ret (-1, acc) s)
                   else bnd (brelse bp s) (\<lambda>_ s. readi_loop ip (dst_add dst m) (off + m) (n - m) (tot + m) (acc @ bs) s)))))"
  by auto
termination
proof (relation "measure (\<lambda>(ip, dst, off, n, tot, acc, s). n)", goal_cases)
  case (2 ip dst off n)
  have "off mod BSIZE < BSIZE" by (rule mod_less_divisor) (simp add: BSIZE_def)
  with 2 show ?case by simp
qed simp

declare readi_loop.simps [simp del]

definition readi ::
  "nat \<Rightarrow> cdest \<Rightarrow> uint \<Rightarrow> uint \<Rightarrow> 'z fstate_scheme \<Rightarrow> ('z fstate_scheme, int \<times> byte list) outcome" where
  "readi ip dst off n s =
     (let size = i_size (itable s ip) in
      if off > size \<or> off + n < off then Ret (0, []) s
      else
        let n = (if off + n > size then size - off else n)
        in readi_loop ip dst (unat off) (unat n) 0 [] s)"

text \<open>The loop of \<open>writei\<close> returns the offset and the count it has reached.\<close>

function writei_loop ::
  "nat \<Rightarrow> csrc \<Rightarrow> nat \<Rightarrow> nat \<Rightarrow> nat \<Rightarrow> 'z fstate_scheme \<Rightarrow> ('z fstate_scheme, nat \<times> nat) outcome" where
  "writei_loop ip src off n tot s =
     (if n = 0 then Ret (off, tot) s
      else
        bnd (bmap ip (off div BSIZE) s) (\<lambda>addr s.
          if addr = 0 then Ret (off, tot) s
          else
            bnd (bread (i_dev (itable s ip)) addr s) (\<lambda>bp s.
              let m = min n (BSIZE - off mod BSIZE)
              in bnd (either_copyin src m s) (\<lambda>(r, bs) s.
                   let s = set_data bp (put_bytes (off mod BSIZE) bs (b_data (bufs s bp))) s in
                   if r = -1 then bnd (brelse bp s) (\<lambda>_ s. Ret (off, tot) s)
                   else
                     bnd (log_write bp s) (\<lambda>_ s.
                     bnd (brelse bp s) (\<lambda>_ s.
                     writei_loop ip (src_add src m) (off + m) (n - m) (tot + m) s))))))"
  by auto
termination
proof (relation "measure (\<lambda>(ip, src, off, n, tot, s). n)", goal_cases)
  case (2 ip src off n)
  have "off mod BSIZE < BSIZE" by (rule mod_less_divisor) (simp add: BSIZE_def)
  with 2 show ?case by simp
qed simp

declare writei_loop.simps [simp del]

definition writei ::
  "nat \<Rightarrow> csrc \<Rightarrow> uint \<Rightarrow> uint \<Rightarrow> 'z fstate_scheme \<Rightarrow> ('z fstate_scheme, int) outcome" where
  "writei ip src off n s =
     (if off > i_size (itable s ip) \<or> off + n < off then Ret (-1) s
      else if off + n > of_nat (MAXFILE * BSIZE) then Ret (-1) s
      else
        bnd (writei_loop ip src (unat off) (unat n) 0 s) (\<lambda>(off, tot) s.
          let s = (if of_nat off > i_size (itable s ip) then upd_ino ip (\<lambda>i. i\<lparr>i_size := of_nat off\<rparr>) s else s)
          in bnd (iupdate ip s) (\<lambda>_ s. Ret (int tot) s)))"

section \<open>Directories\<close>

text \<open>\<open>strncmp\<close> and \<open>strncpy\<close> of \<^verbatim>\<open>kernel/string.c\<close> on byte lists; a list stands for its bytes followed by zeros.\<close>

fun strncmp_l :: "nat \<Rightarrow> byte list \<Rightarrow> byte list \<Rightarrow> int" where
  "strncmp_l 0 p q = 0"
| "strncmp_l (Suc n) p q =
     (let a = (case p of [] \<Rightarrow> 0 | x # _ \<Rightarrow> x); b = (case q of [] \<Rightarrow> 0 | x # _ \<Rightarrow> x)
      in if a \<noteq> 0 \<and> a = b then strncmp_l n (tl p) (tl q) else uint a - uint b)"

definition strncpy_l :: "nat \<Rightarrow> byte list \<Rightarrow> byte list" where
  "strncpy_l n t = take n (takeWhile (\<lambda>c. c \<noteq> 0) t @ replicate n 0)"

definition namecmp :: "byte list \<Rightarrow> byte list \<Rightarrow> int" where
  "namecmp s t = strncmp_l DIRSIZ s t"

text \<open>\<^verbatim>\<open>struct dirent\<close>: a 16-bit inode number and 14 bytes of name.\<close>

record dirent =
  de_inum :: "16 word"
  de_name :: "byte list"

definition DESIZE :: nat where "DESIZE = 16"

definition de_decode :: "byte list \<Rightarrow> dirent" where
  "de_decode bs = \<lparr>de_inum = ucast (bs ! 0) OR push_bit 8 (ucast (bs ! 1)), de_name = drop 2 bs\<rparr>"

definition de_encode :: "dirent \<Rightarrow> byte list" where
  "de_encode d = ucast (de_inum d) # ucast (drop_bit 8 (de_inum d)) # de_name d"

definition dirlookup ::
  "nat \<Rightarrow> byte list \<Rightarrow> 'z fstate_scheme \<Rightarrow> ('z fstate_scheme, (nat \<times> uint) option) outcome" where
  "dirlookup dp name s =
     (if i_type (itable s dp) \<noteq> T_DIR then Panic ''dirlookup not DIR''
      else
        for_until [0..<(unat (i_size (itable s dp)) + DESIZE - 1) div DESIZE] (\<lambda>k s.
          let off = of_nat (k * DESIZE) in
          bnd (readi dp Local_dst off (of_nat DESIZE) s) (\<lambda>(r, bs) s.
            if r \<noteq> int DESIZE then Panic ''dirlookup read''
            else
              let de = de_decode bs in
              if de_inum de = 0 then Ret None s
              else if namecmp name (de_name de) = 0 then
                bnd (iget (i_dev (itable s dp)) (ucast (de_inum de)) s) (\<lambda>ip s. Ret (Some (ip, off)) s)
              else Ret None s)) s)"

definition dirlink :: "nat \<Rightarrow> byte list \<Rightarrow> uint \<Rightarrow> 'z fstate_scheme \<Rightarrow> ('z fstate_scheme, int) outcome" where
  "dirlink dp name inum s =
     bnd (dirlookup dp name s) (\<lambda>r s.
     case r of Some (ip, _) \<Rightarrow> bnd (iput ip s) (\<lambda>_ s. Ret (-1) s)
     | None \<Rightarrow>
         let slots = (unat (i_size (itable s dp)) + DESIZE - 1) div DESIZE in
         bnd (for_until [0..<slots] (\<lambda>k s.
           let off = k * DESIZE in
           bnd (readi dp Local_dst (of_nat off) (of_nat DESIZE) s) (\<lambda>(r, bs) s.
             if r \<noteq> int DESIZE then Panic ''dirlink read''
             else if de_inum (de_decode bs) = 0 then Ret (Some off) s else Ret None s)) s) (\<lambda>r s.
         let off = (case r of Some off \<Rightarrow> off | None \<Rightarrow> slots * DESIZE);
             de = \<lparr>de_inum = ucast inum, de_name = strncpy_l DIRSIZ name\<rparr>
         in bnd (writei dp (Local_src (de_encode de)) (of_nat off) (of_nat DESIZE) s) (\<lambda>r s.
              Ret (if r \<noteq> int DESIZE then -1 else 0) s)))"

section \<open>Paths\<close>

text \<open>
  \<open>skipelem\<close> returns the rest of the path and the new contents of the name buffer.
\<close>

definition slash :: byte where "slash = 47"

definition skip_slashes :: "byte list \<Rightarrow> byte list" where
  "skip_slashes path = dropWhile (\<lambda>c. c = slash) path"

definition skipelem :: "byte list \<Rightarrow> byte list \<Rightarrow> (byte list \<times> byte list) option" where
  "skipelem path name =
     (let path = skip_slashes path in
      if path = [] then None
      else
        let elem = takeWhile (\<lambda>c. c \<noteq> slash) path;
            rest = drop (length elem) path;
            len = length elem;
            name = (if len \<ge> DIRSIZ then take DIRSIZ elem @ drop DIRSIZ name
                    else elem @ [0] @ drop (len + 1) name)
        in Some (skip_slashes rest, name))"

lemma skipelem_shorter: "skipelem path name = Some (path', name') \<Longrightarrow> length path' < length path"
proof -
  assume a: "skipelem path name = Some (path', name')"
  let ?p = "skip_slashes path"
  have p: "?p \<noteq> []" "path' = skip_slashes (drop (length (takeWhile (\<lambda>c. c \<noteq> slash) ?p)) ?p)"
    using a by (auto simp: skipelem_def Let_def split: if_splits)
  have "hd ?p \<noteq> slash" using p(1) hd_dropWhile [of "\<lambda>c. c = slash" path] by (simp add: skip_slashes_def)
  then have "0 < length (takeWhile (\<lambda>c. c \<noteq> slash) ?p)" using p(1) by (cases ?p) auto
  then have "length (drop (length (takeWhile (\<lambda>c. c \<noteq> slash) ?p)) ?p) < length ?p" using p(1) by simp
  moreover have "length path' \<le> length (drop (length (takeWhile (\<lambda>c. c \<noteq> slash) ?p)) ?p)"
    unfolding p(2) by (simp only: skip_slashes_def length_dropWhile_le)
  moreover have "length ?p \<le> length path" by (simp add: skip_slashes_def length_dropWhile_le)
  ultimately show ?thesis by linarith
qed

text \<open>The loop of \<open>namex\<close>; every round takes an element off the path.\<close>

function namex_loop ::
  "nat \<Rightarrow> byte list \<Rightarrow> bool \<Rightarrow> byte list \<Rightarrow> 'z fstate_scheme \<Rightarrow> ('z fstate_scheme, nat option \<times> byte list) outcome" where
  "namex_loop ip path parent name s =
     (case skipelem path name of
        None \<Rightarrow> if parent then bnd (iput ip s) (\<lambda>_ s. Ret (None, name) s) else Ret (Some ip, name) s
      | Some (path, name) \<Rightarrow>
          bnd (ilock ip s) (\<lambda>_ s.
          if i_type (itable s ip) \<noteq> T_DIR then bnd (iunlockput ip s) (\<lambda>_ s. Ret (None, name) s)
          else if parent \<and> path = [] then bnd (iunlock ip s) (\<lambda>_ s. Ret (Some ip, name) s)
          else
            bnd (dirlookup ip name s) (\<lambda>r s.
            case r of None \<Rightarrow> bnd (iunlockput ip s) (\<lambda>_ s. Ret (None, name) s)
            | Some (nxt, _) \<Rightarrow> bnd (iunlockput ip s) (\<lambda>_ s. namex_loop nxt path parent name s))))"
  by auto
termination
  by (relation "measure (\<lambda>(ip, path, parent, name, s). length path)") (auto dest: skipelem_shorter)

declare namex_loop.simps [simp del]

definition namex ::
  "byte list \<Rightarrow> bool \<Rightarrow> byte list \<Rightarrow> 'z fstate_scheme \<Rightarrow> ('z fstate_scheme, nat option \<times> byte list) outcome" where
  "namex path parent name s =
     bnd (if path \<noteq> [] \<and> hd path = slash then iget ROOTDEV ROOTINO s
          else with_myproc (\<lambda>p s. case p_cwd (procs s p) of None \<Rightarrow> Fault ''cwd'' | Some c \<Rightarrow> idup c s) s) (\<lambda>ip s.
     namex_loop ip path parent name s)"

definition namei :: "byte list \<Rightarrow> 'z fstate_scheme \<Rightarrow> ('z fstate_scheme, nat option) outcome" where
  "namei path s = bnd (namex path False (replicate DIRSIZ 0) s) (\<lambda>(ip, _) s. Ret ip s)"

definition nameiparent ::
  "byte list \<Rightarrow> byte list \<Rightarrow> 'z fstate_scheme \<Rightarrow> ('z fstate_scheme, nat option \<times> byte list) outcome" where
  "nameiparent path name s = namex path True name s"

end
