(* ===== verification/File.thy ===== *)
theory File
  imports Dir
begin

text \<open>
  Open files and pipes, \<^verbatim>\<open>kernel/file.c\<close> and \<^verbatim>\<open>kernel/pipe.c\<close>.  A file pointer is an index
  into \<^verbatim>\<open>ftable.file[]\<close>; a pipe is named by the address of the page it lives in, and its
  contents are in the field \<open>pipes\<close>.
\<close>

datatype ftype = FD_NONE | FD_PIPE | FD_INODE | FD_DEVICE

record kfile =
  f_type :: ftype
  f_ref :: int
  f_readable :: bool
  f_writable :: bool
  f_pipe :: uint64
  f_ip :: "nat option"
  f_off :: uint
  f_major :: "16 word"

record pipe =
  pi_data :: "nat \<Rightarrow> byte"
  pi_nread :: uint
  pi_nwrite :: uint
  pi_readopen :: bool
  pi_writeopen :: bool

record flstate = fstate +
  ftable :: "nat \<Rightarrow> kfile"
  pipes :: "uint64 \<Rightarrow> pipe"

definition NFILE :: nat where "NFILE = 100"
definition NDEV :: nat where "NDEV = 10"
definition NOFILE :: nat where "NOFILE = 16"
definition PIPESIZE :: nat where "PIPESIZE = 512"

definition upd_file :: "nat \<Rightarrow> (kfile \<Rightarrow> kfile) \<Rightarrow> 'z flstate_scheme \<Rightarrow> 'z flstate_scheme" where
  "upd_file f g s = s\<lparr>ftable := (ftable s)(f := g (ftable s f))\<rparr>"

definition upd_pipe :: "uint64 \<Rightarrow> (pipe \<Rightarrow> pipe) \<Rightarrow> 'z flstate_scheme \<Rightarrow> 'z flstate_scheme" where
  "upd_pipe pi g s = s\<lparr>pipes := (pipes s)(pi := g (pipes s pi))\<rparr>"

section \<open>The file table\<close>

definition fileinit :: "'z flstate_scheme \<Rightarrow> 'z flstate_scheme" where
  "fileinit s = initlock L_ftable ''ftable'' s"

definition filealloc :: "'z flstate_scheme \<Rightarrow> ('z flstate_scheme, nat option) outcome" where
  "filealloc s =
     bnd (acquire L_ftable s) (\<lambda>_ s.
     case find (\<lambda>f. f_ref (ftable s f) = 0) [0..<NFILE] of
       Some f \<Rightarrow> bnd (release L_ftable (upd_file f (\<lambda>x. x\<lparr>f_ref := 1\<rparr>) s)) (\<lambda>_ s. Ret (Some f) s)
     | None \<Rightarrow> bnd (release L_ftable s) (\<lambda>_ s. Ret None s))"

definition filedup :: "nat \<Rightarrow> 'z flstate_scheme \<Rightarrow> ('z flstate_scheme, nat) outcome" where
  "filedup f s =
     bnd (acquire L_ftable s) (\<lambda>_ s.
       if f_ref (ftable s f) < 1 then Panic ''filedup''
       else bnd (release L_ftable (upd_file f (\<lambda>x. x\<lparr>f_ref := wrap32 (f_ref x + 1)\<rparr>) s)) (\<lambda>_ s. Ret f s))"

section \<open>Pipes\<close>

definition pipeclose :: "uint64 \<Rightarrow> bool \<Rightarrow> 'z flstate_scheme \<Rightarrow> ('z flstate_scheme, unit) outcome" where
  "pipeclose pi writable s =
     bnd (acquire (L_pipe pi) s) (\<lambda>_ s.
     bnd (if writable then wakeup (Some (C_piperead pi)) (upd_pipe pi (\<lambda>x. x\<lparr>pi_writeopen := False\<rparr>) s)
          else wakeup (Some (C_pipewrite pi)) (upd_pipe pi (\<lambda>x. x\<lparr>pi_readopen := False\<rparr>) s)) (\<lambda>_ s.
     if \<not> pi_readopen (pipes s pi) \<and> \<not> pi_writeopen (pipes s pi)
     then bnd (release (L_pipe pi) s) (\<lambda>_ s. kfree pi s)
     else release (L_pipe pi) s))"

text \<open>The loop of \<open>pipewrite\<close>: \<open>i\<close> bytes are written, \<open>k\<close> are left.\<close>

fun pipewrite_loop ::
  "uint64 \<Rightarrow> nat \<Rightarrow> uint64 \<Rightarrow> nat \<Rightarrow> nat \<Rightarrow> 'z flstate_scheme \<Rightarrow> ('z flstate_scheme, int) outcome" where
  "pipewrite_loop pi pr addr i 0 s =
     bnd (wakeup (Some (C_piperead pi)) s) (\<lambda>_ s.
     bnd (release (L_pipe pi) s) (\<lambda>_ s. Ret (int i) s))"
| "pipewrite_loop pi pr addr i (Suc k) s =
     bnd (if pi_readopen (pipes s pi) then killed pr s else Ret 1 s) (\<lambda>stop s.
     if stop \<noteq> 0 then bnd (release (L_pipe pi) s) (\<lambda>_ s. Ret (-1) s)
     else if pi_nwrite (pipes s pi) = pi_nread (pipes s pi) + of_nat PIPESIZE then
       bnd (wakeup (Some (C_piperead pi)) s) (\<lambda>_ s.
       bnd (sleep (C_pipewrite pi) (L_pipe pi) s) (\<lambda>_ s. Ret (-1) s))
     else
       bnd (copyin_obj (p_pagetable (procs s pr)) (addr + of_nat i) 1 s) (\<lambda>(r, bs) s.
       if r = -1 then
         bnd (wakeup (Some (C_piperead pi)) s) (\<lambda>_ s.
         bnd (release (L_pipe pi) s) (\<lambda>_ s. Ret (int i) s))
       else
         pipewrite_loop pi pr addr (Suc i) k
           (upd_pipe pi (\<lambda>x. x\<lparr>pi_data := (pi_data x)(unat (pi_nwrite x) mod PIPESIZE := hd bs), pi_nwrite := pi_nwrite x + 1\<rparr>) s)))"

definition pipewrite :: "uint64 \<Rightarrow> uint64 \<Rightarrow> int \<Rightarrow> 'z flstate_scheme \<Rightarrow> ('z flstate_scheme, int) outcome" where
  "pipewrite pi addr n s =
     with_myproc (\<lambda>pr s.
     bnd (acquire (L_pipe pi) s) (\<lambda>_ s. pipewrite_loop pi pr addr 0 (nat n) s)) s"

definition pipewrite_resume ::
  "nat \<Rightarrow> bool \<Rightarrow> uint64 \<Rightarrow> uint64 \<Rightarrow> nat \<Rightarrow> nat \<Rightarrow> 'z flstate_scheme \<Rightarrow> ('z flstate_scheme, int) outcome" where
  "pipewrite_resume p saved pi addr i k s =
     bnd (sleep_resume p saved (L_pipe pi) s) (\<lambda>_ s. pipewrite_loop pi p addr i k s)"

text \<open>The copying loop of \<open>piperead\<close> and what follows it.\<close>

fun piperead_copy ::
  "uint64 \<Rightarrow> nat \<Rightarrow> uint64 \<Rightarrow> nat \<Rightarrow> nat \<Rightarrow> 'z flstate_scheme \<Rightarrow> ('z flstate_scheme, nat) outcome" where
  "piperead_copy pi pr addr i 0 s = Ret i s"
| "piperead_copy pi pr addr i (Suc k) s =
     (if pi_nread (pipes s pi) = pi_nwrite (pipes s pi) then Ret i s
      else
        let c = pi_data (pipes s pi) (unat (pi_nread (pipes s pi)) mod PIPESIZE);
            s = upd_pipe pi (\<lambda>x. x\<lparr>pi_nread := pi_nread x + 1\<rparr>) s
        in bnd (copyout_obj (p_pagetable (procs s pr)) (addr + of_nat i) [c] s) (\<lambda>r s.
             if r = -1 then Ret i s else piperead_copy pi pr addr (Suc i) k s))"

definition piperead_loop :: "uint64 \<Rightarrow> nat \<Rightarrow> uint64 \<Rightarrow> int \<Rightarrow> 'z flstate_scheme \<Rightarrow> ('z flstate_scheme, int) outcome" where
  "piperead_loop pi pr addr n s =
     (if pi_nread (pipes s pi) = pi_nwrite (pipes s pi) \<and> pi_writeopen (pipes s pi) then
        bnd (killed pr s) (\<lambda>k s.
          if k \<noteq> 0 then bnd (release (L_pipe pi) s) (\<lambda>_ s. Ret (-1) s)
          else bnd (sleep (C_piperead pi) (L_pipe pi) s) (\<lambda>_ s. Ret (-1) s))
      else
        bnd (piperead_copy pi pr addr 0 (nat n) s) (\<lambda>i s.
        bnd (wakeup (Some (C_pipewrite pi)) s) (\<lambda>_ s.
        bnd (release (L_pipe pi) s) (\<lambda>_ s. Ret (int i) s))))"

definition piperead :: "uint64 \<Rightarrow> uint64 \<Rightarrow> int \<Rightarrow> 'z flstate_scheme \<Rightarrow> ('z flstate_scheme, int) outcome" where
  "piperead pi addr n s =
     with_myproc (\<lambda>pr s.
     bnd (acquire (L_pipe pi) s) (\<lambda>_ s. piperead_loop pi pr addr n s)) s"

definition piperead_resume ::
  "nat \<Rightarrow> bool \<Rightarrow> uint64 \<Rightarrow> uint64 \<Rightarrow> int \<Rightarrow> 'z flstate_scheme \<Rightarrow> ('z flstate_scheme, int) outcome" where
  "piperead_resume p saved pi addr n s =
     bnd (sleep_resume p saved (L_pipe pi) s) (\<lambda>_ s. piperead_loop pi p addr n s)"

section \<open>Operations on open files\<close>

text \<open>Following \<^verbatim>\<open>f->ip\<close>; locking a null inode panics, dropping one is a null dereference.\<close>

definition with_ip ::
  "nat option \<Rightarrow> ('s, 'a) outcome \<Rightarrow> (nat \<Rightarrow> ('s, 'a) outcome) \<Rightarrow> ('s, 'a) outcome" where
  "with_ip ip bad k = (case ip of None \<Rightarrow> bad | Some i \<Rightarrow> k i)"

definition fileclose :: "nat \<Rightarrow> 'z flstate_scheme \<Rightarrow> ('z flstate_scheme, unit) outcome" where
  "fileclose f s =
     bnd (acquire L_ftable s) (\<lambda>_ s.
       if f_ref (ftable s f) < 1 then Panic ''fileclose''
       else
         let s = upd_file f (\<lambda>x. x\<lparr>f_ref := f_ref x - 1\<rparr>) s in
         if f_ref (ftable s f) > 0 then release L_ftable s
         else
           let ff = ftable s f;
               s = upd_file f (\<lambda>x. x\<lparr>f_ref := 0, f_type := FD_NONE\<rparr>) s
           in bnd (release L_ftable s) (\<lambda>_ s.
                if f_type ff = FD_PIPE then pipeclose (f_pipe ff) (f_writable ff) s
                else if f_type ff = FD_INODE \<or> f_type ff = FD_DEVICE then
                  bnd (begin_op s) (\<lambda>_ s.
                  bnd (with_ip (f_ip ff) (Fault ''iput(0)'') (\<lambda>ip. iput ip s)) (\<lambda>_ s.
                  end_op s))
                else Ret () s))"

definition pipealloc :: "'z flstate_scheme \<Rightarrow> ('z flstate_scheme, (nat \<times> nat) option) outcome" where
  "pipealloc s =
     bnd (filealloc s) (\<lambda>f0 s.
     case f0 of None \<Rightarrow> Ret None s
     | Some f0 \<Rightarrow>
         bnd (filealloc s) (\<lambda>f1 s.
         case f1 of None \<Rightarrow> bnd (fileclose f0 s) (\<lambda>_ s. Ret None s)
         | Some f1 \<Rightarrow>
             bnd (kalloc s) (\<lambda>pi s.
               if pi = 0 then bnd (fileclose f0 s) (\<lambda>_ s. bnd (fileclose f1 s) (\<lambda>_ s. Ret None s))
               else
                 let s = upd_pipe pi (\<lambda>x. x\<lparr>pi_readopen := True, pi_writeopen := True, pi_nwrite := 0, pi_nread := 0\<rparr>) s;
                     s = initlock (L_pipe pi) ''pipe'' s;
                     s = upd_file f0 (\<lambda>x. x\<lparr>f_type := FD_PIPE, f_readable := True, f_writable := False, f_pipe := pi\<rparr>) s;
                     s = upd_file f1 (\<lambda>x. x\<lparr>f_type := FD_PIPE, f_readable := False, f_writable := True, f_pipe := pi\<rparr>) s
                 in Ret (Some (f0, f1)) s)))"

text \<open>The bytes of \<^verbatim>\<open>struct stat\<close>; the four padding bytes, which C leaves unspecified, are zero here.\<close>

definition le_bytes :: "nat \<Rightarrow> 'a::len word \<Rightarrow> byte list" where
  "le_bytes k v = map (\<lambda>i. ucast (drop_bit (8 * i) v)) [0..<k]"

definition stat_bytes :: "stat \<Rightarrow> byte list" where
  "stat_bytes st = le_bytes 4 (of_int (st_dev st) :: uint) @ le_bytes 4 (st_ino st) @ le_bytes 2 (st_type st) @
     le_bytes 2 (st_nlink st) @ [0, 0, 0, 0] @ le_bytes 8 (st_size st)"

definition filestat :: "nat \<Rightarrow> uint64 \<Rightarrow> 'z flstate_scheme \<Rightarrow> ('z flstate_scheme, int) outcome" where
  "filestat f addr s =
     with_myproc (\<lambda>p s.
       if f_type (ftable s f) = FD_INODE \<or> f_type (ftable s f) = FD_DEVICE then
         with_ip (f_ip (ftable s f)) (Panic ''ilock'') (\<lambda>ip.
         bnd (ilock ip s) (\<lambda>_ s.
           let st = stati ip s in
           bnd (iunlock ip s) (\<lambda>_ s.
           bnd (copyout_obj (p_pagetable (procs s p)) addr (stat_bytes st) s) (\<lambda>r s.
           Ret (if r < 0 then -1 else 0) s))))
       else Ret (-1) s) s"

definition dev_ok :: "16 word \<Rightarrow> (nat \<Rightarrow> device option) \<Rightarrow> bool" where
  "dev_ok major tab \<longleftrightarrow> \<not> sint major < 0 \<and> \<not> sint major \<ge> int NDEV \<and> tab (unat major) \<noteq> None"

definition fileread :: "nat \<Rightarrow> uint64 \<Rightarrow> int \<Rightarrow> 'z flstate_scheme \<Rightarrow> ('z flstate_scheme, int) outcome" where
  "fileread f addr n s =
     (let x = ftable s f in
      if \<not> f_readable x then Ret (-1) s
      else case f_type x of
        FD_PIPE \<Rightarrow> piperead (f_pipe x) addr n s
      | FD_DEVICE \<Rightarrow>
          if \<not> dev_ok (f_major x) (devsw_read s) then Ret (-1) s
          else bnd (consoleread (User_dst addr) n s) (\<lambda>(r, _) s. Ret r s)
      | FD_INODE \<Rightarrow>
          with_ip (f_ip x) (Panic ''ilock'') (\<lambda>ip.
          bnd (ilock ip s) (\<lambda>_ s.
          bnd (readi ip (User_dst addr) (f_off (ftable s f)) (of_int n) s) (\<lambda>(r, _) s.
            let s = (if r > 0 then upd_file f (\<lambda>x. x\<lparr>f_off := f_off x + of_int r\<rparr>) s else s) in
            bnd (iunlock ip s) (\<lambda>_ s. Ret r s))))
      | FD_NONE \<Rightarrow> Panic ''fileread'')"

text \<open>The loop of \<open>filewrite\<close> on an inode, at most three blocks in a transaction.\<close>

definition write_max :: nat where
  "write_max = ((MAXOPBLOCKS - 1 - 1 - 2) div 2) * BSIZE"

function filewrite_loop ::
  "nat \<Rightarrow> nat \<Rightarrow> uint64 \<Rightarrow> nat \<Rightarrow> nat \<Rightarrow> 'z flstate_scheme \<Rightarrow> ('z flstate_scheme, int) outcome" where
  "filewrite_loop f ip addr i n s =
     (if i < n then
        let n1 = min (n - i) write_max in
        bnd (begin_op s) (\<lambda>_ s.
        bnd (ilock ip s) (\<lambda>_ s.
        bnd (writei ip (User_src (addr + of_nat i)) (f_off (ftable s f)) (of_nat n1) s) (\<lambda>r s.
          let s = (if r > 0 then upd_file f (\<lambda>x. x\<lparr>f_off := f_off x + of_int r\<rparr>) s else s) in
          bnd (iunlock ip s) (\<lambda>_ s.
          bnd (end_op s) (\<lambda>_ s.
          if r \<noteq> int n1 then Ret (-1) s
          else filewrite_loop f ip addr (i + n1) n s)))))
      else Ret (int n) s)"
  by auto
termination
  by (relation "measure (\<lambda>(f, ip, addr, i, n, s). n - i)") (auto simp: write_max_def MAXOPBLOCKS_def BSIZE_def)

declare filewrite_loop.simps [simp del]

definition filewrite :: "nat \<Rightarrow> uint64 \<Rightarrow> int \<Rightarrow> 'z flstate_scheme \<Rightarrow> ('z flstate_scheme, int) outcome" where
  "filewrite f addr n s =
     (let x = ftable s f in
      if \<not> f_writable x then Ret (-1) s
      else case f_type x of
        FD_PIPE \<Rightarrow> pipewrite (f_pipe x) addr n s
      | FD_DEVICE \<Rightarrow>
          if \<not> dev_ok (f_major x) (devsw_write s) then Ret (-1) s
          else consolewrite (User_src addr) n s
      | FD_INODE \<Rightarrow>
          if n > 0 then with_ip (f_ip x) (Panic ''ilock'') (\<lambda>ip. filewrite_loop f ip addr 0 (nat n) s)
          else Ret (if n = 0 then 0 else -1) s
      | FD_NONE \<Rightarrow> Panic ''filewrite'')"

section \<open>The kernel state at boot\<close>

text \<open>
  The zero-initialised globals of the drivers and the file layers on top of a disk, with the
  process in slot 0 running; the concrete states in this development start from it.
\<close>

definition zero_inode :: inode where
  "zero_inode = \<lparr>i_dev = 0, i_inum = 0, i_ref = 0, i_valid = False, i_type = 0, i_major = 0, i_minor = 0, i_nlink = 0,
     i_size = 0, i_addrs = replicate 13 0\<rparr>"

definition zero_file :: kfile where
  "zero_file = \<lparr>f_type = FD_NONE, f_ref = 0, f_readable = False, f_writable = False, f_pipe = 0, f_ip = None,
     f_off = 0, f_major = 0\<rparr>"

definition zero_pipe :: pipe where
  "zero_pipe = \<lparr>pi_data = (\<lambda>_. 0), pi_nread = 0, pi_nwrite = 0, pi_readopen = False, pi_writeopen = False\<rparr>"

definition file_boot :: "(nat \<Rightarrow> block) \<Rightarrow> 'z \<Rightarrow> 'z flstate_scheme" where
  "file_boot d z = log_boot d 0 (replicate LOGSIZE 0)
     \<lparr>udev = \<lparr>ud_room = 0, ud_in = [], ud_out = [], ud_config = []\<rparr>, uart_tx_buf = (\<lambda>_. 0), uart_tx_w = 0, uart_tx_r = 0,
      panicked = False, pr_locking = True, cons_buf = (\<lambda>_. 0), cons_r = 0, cons_w = 0, cons_e = 0,
      devsw_read = (\<lambda>_. None), devsw_write = (\<lambda>_. None),
      sb = \<lparr>sb_magic = 0, sb_size = 0, sb_nblocks = 0, sb_ninodes = 0, sb_nlog = 0, sb_logstart = 0, sb_inodestart = 0,
        sb_bmapstart = 0\<rparr>,
      itable = (\<lambda>_. zero_inode), ftable = (\<lambda>_. zero_file), pipes = (\<lambda>_. zero_pipe), \<dots> = z\<rparr>"

lemma file_boot_calm: "calm 0 (file_boot d z)"
  by (simp add: file_boot_def log_boot_def bio_boot_calm)

lemma file_boot_simps [simp]:
  "procs (file_boot d z) = (\<lambda>_. zero_proc)" "ftable (file_boot d z) = (\<lambda>_. zero_file)"
  "pipes (file_boot d z) = (\<lambda>_. zero_pipe)" "itable (file_boot d z) = (\<lambda>_. zero_inode)"
  "flstate.more (file_boot d z) = z" "udev (file_boot d z) = \<lparr>ud_room = 0, ud_in = [], ud_out = [], ud_config = []\<rparr>"
  "panicked (file_boot d z) = False" "cons_r (file_boot d z) = 0" "cons_w (file_boot d z) = 0" "cons_e (file_boot d z) = 0"
  "uart_tx_w (file_boot d z) = 0" "uart_tx_r (file_boot d z) = 0" "kend (file_boot d z) = 0x80021d60"
  by (simp_all add: file_boot_def log_boot_def bio_boot_def kstate.defs kboot_def kproc.defs boot_def)

end
