(* ===== verification/Life.thy ===== *)
theory Life
  imports File Mlfq
begin

text \<open>
  The part of \<^verbatim>\<open>kernel/proc.c\<close> that needs open files and inodes: \<open>userinit\<close>, \<open>fork\<close> and
  \<open>exit\<close>.
\<close>

text \<open>
  \<^verbatim>\<open>safestrcpy\<close> between objects that are typed values: the bytes of the destination array
  after the copy of a terminated string, at most \<open>n - 1\<close> bytes of it.
\<close>

definition str_of :: "byte list \<Rightarrow> byte list" where
  "str_of bs = takeWhile (\<lambda>c. c \<noteq> 0) bs"

definition safestrcpy_l :: "nat \<Rightarrow> byte list \<Rightarrow> byte list \<Rightarrow> byte list" where
  "safestrcpy_l n old t =
     (if n = 0 then old else let c = take (n - 1) (str_of t) in c @ [0] @ drop (Suc (length c)) old)"

text \<open>Following \<^verbatim>\<open>p->cwd\<close>, a null dereference if it is null.\<close>

definition with_cwd :: "nat option \<Rightarrow> (nat \<Rightarrow> ('s, 'a) outcome) \<Rightarrow> ('s, 'a) outcome" where
  "with_cwd c k = (case c of None \<Rightarrow> Fault ''cwd is null'' | Some ip \<Rightarrow> k ip)"

definition userinit :: "policy \<Rightarrow> link \<Rightarrow> uint64 \<Rightarrow> 'z flstate_scheme \<Rightarrow> ('z flstate_scheme, unit) outcome" where
  "userinit pol lk initcode s =
     (let s = (if pol = MLFQ then userinit_queues s else s) in
      bnd (allocproc pol lk s) (\<lambda>p s.
        let s = s\<lparr>initproc := p\<rparr> in
        case p of None \<Rightarrow> Fault ''userinit: allocproc returned 0''
        | Some p \<Rightarrow>
          bnd (uvmfirst (p_pagetable (procs s p)) initcode 52 s) (\<lambda>_ s.
          let s = upd_proc p (\<lambda>x. x\<lparr>p_sz := PGSIZE\<rparr>) s;
              s = tf_set TF_epc 0 p s;
              s = tf_set TF_sp PGSIZE p s;
              s = upd_proc p (\<lambda>x. x\<lparr>p_name := safestrcpy_l 16 (p_name x) (str ''initcode'')\<rparr>) s
          in bnd (namei (str ''/'') s) (\<lambda>cwd s.
               release (L_proc p) (upd_proc p (\<lambda>x. x\<lparr>p_cwd := cwd, p_state := RUNNABLE\<rparr>) s)))))"

definition fork_files :: "nat \<Rightarrow> nat \<Rightarrow> 'z flstate_scheme \<Rightarrow> ('z flstate_scheme, unit) outcome" where
  "fork_files p np s =
     for_each [0..<NOFILE] (\<lambda>i s.
       case p_ofile (procs s p) i of None \<Rightarrow> Ret () s
       | Some f \<Rightarrow> bnd (filedup f s) (\<lambda>f s. Ret () (upd_proc np (\<lambda>x. x\<lparr>p_ofile := (p_ofile x)(i := Some f)\<rparr>) s))) s"

definition fork :: "policy \<Rightarrow> link \<Rightarrow> 'z flstate_scheme \<Rightarrow> ('z flstate_scheme, int) outcome" where
  "fork pol lk s =
     with_myproc (\<lambda>p s.
     bnd (allocproc pol lk s) (\<lambda>np s.
     case np of None \<Rightarrow> Ret (-1) s
     | Some np \<Rightarrow>
       let s = (if pol = LBS then upd_proc np (\<lambda>x. x\<lparr>p_tickets := p_tickets (procs s p)\<rparr>) s else s);
           s = upd_proc np (\<lambda>x. x\<lparr>p_sysCounter := \<lambda>i. if i < 32 then 0 else p_sysCounter x i\<rparr>) s
       in bnd (uvmcopy (p_pagetable (procs s p)) (p_pagetable (procs s np)) (p_sz (procs s p)) s) (\<lambda>r s.
         if r < 0 then bnd (freeproc pol np s) (\<lambda>_ s. bnd (release (L_proc np) s) (\<lambda>_ s. Ret (-1) s))
         else
           let s = upd_proc np (\<lambda>x. x\<lparr>p_sz := p_sz (procs s p)\<rparr>) s;
               s = s\<lparr>mem := write_bytes (p_trapframe (procs s np))
                              (bytes (mem s) (p_trapframe (procs s p)) TF_SIZE) (mem s)\<rparr>;
               s = tf_set TF_a0 0 np s
           in bnd (fork_files p np s) (\<lambda>_ s.
              bnd (with_cwd (p_cwd (procs s p)) (\<lambda>ip. idup ip s)) (\<lambda>cwd s.
              let s = upd_proc np (\<lambda>x. x\<lparr>p_cwd := Some cwd,
                        p_name := safestrcpy_l 16 (p_name x) (p_name (procs s p))\<rparr>) s;
                  pid = p_pid (procs s np)
              in bnd (release (L_proc np) s) (\<lambda>_ s.
                 bnd (acquire L_wait s) (\<lambda>_ s.
                 bnd (release L_wait (upd_proc np (\<lambda>x. x\<lparr>p_parent := Some p\<rparr>) s)) (\<lambda>_ s.
                 bnd (acquire (L_proc np) s) (\<lambda>_ s.
                 bnd (release (L_proc np) (upd_proc np (\<lambda>x. x\<lparr>p_state := RUNNABLE\<rparr>) s)) (\<lambda>_ s.
                 Ret pid s))))))))) ) s"

definition exit_files :: "nat \<Rightarrow> 'z flstate_scheme \<Rightarrow> ('z flstate_scheme, unit) outcome" where
  "exit_files p s =
     for_each [0..<NOFILE] (\<lambda>fd s.
       case p_ofile (procs s p) fd of None \<Rightarrow> Ret () s
       | Some f \<Rightarrow> bnd (fileclose f s) (\<lambda>_ s. Ret () (upd_proc p (\<lambda>x. x\<lparr>p_ofile := (p_ofile x)(fd := None)\<rparr>) s))) s"

definition exit :: "int \<Rightarrow> 'z flstate_scheme \<Rightarrow> ('z flstate_scheme, 'a) outcome" where
  "exit status s =
     with_myproc (\<lambda>p s.
       if Some p = initproc s then Panic ''init exiting''
       else
         bnd (exit_files p s) (\<lambda>_ s.
         bnd (begin_op s) (\<lambda>_ s.
         bnd (with_cwd (p_cwd (procs s p)) (\<lambda>ip. iput ip s)) (\<lambda>_ s.
         bnd (end_op s) (\<lambda>_ s.
         let s = upd_proc p (\<lambda>x. x\<lparr>p_cwd := None\<rparr>) s in
         bnd (acquire L_wait s) (\<lambda>_ s.
         bnd (reparent p s) (\<lambda>_ s.
         bnd (wakeup (map_option C_proc (p_parent (procs s p))) s) (\<lambda>_ s.
         bnd (acquire (L_proc p) s) (\<lambda>_ s.
         let s = upd_proc p (\<lambda>x. x\<lparr>p_xstate := status, p_state := ZOMBIE, p_etime := ticks s\<rparr>) s in
         bnd (release L_wait s) (\<lambda>_ s.
         bnd (sched s) (\<lambda>_ s. Panic ''zombie exit'')))))))))) ) s"

end
