(* ===== verification/Exec.thy ===== *)
theory Exec
  imports Life
begin

text \<open>
  \<^verbatim>\<open>kernel/exec.c\<close> and the ELF headers of \<^verbatim>\<open>kernel/elf.h\<close>.  \<open>argv\<close> lists the non-null
  entries of the array, kernel addresses of strings, up to its null pointer; \<^verbatim>\<open>sys_exec\<close>
  passes at most 31.
\<close>

section \<open>ELF headers\<close>

fun le_word :: "byte list \<Rightarrow> 'a::len word" where
  "le_word [] = 0"
| "le_word (b # bs) = ucast b OR push_bit 8 (le_word bs)"

definition le_at :: "byte list \<Rightarrow> nat \<Rightarrow> nat \<Rightarrow> 'a::len word" where
  "le_at bs off k = le_word (take k (drop off bs))"

record elfhdr =
  eh_magic :: uint
  eh_entry :: uint64
  eh_phoff :: uint64
  eh_phnum :: "16 word"

record proghdr =
  ph_type :: uint
  ph_flags :: uint
  ph_off :: uint64
  ph_vaddr :: uint64
  ph_filesz :: uint64
  ph_memsz :: uint64

definition ELF_MAGIC :: uint where "ELF_MAGIC = 0x464C457F"
definition ELF_PROG_LOAD :: uint where "ELF_PROG_LOAD = 1"
definition ELFHDR_SIZE :: nat where "ELFHDR_SIZE = 64"
definition PROGHDR_SIZE :: nat where "PROGHDR_SIZE = 56"
definition MAXARG :: nat where "MAXARG = 32"

definition get_elfhdr :: "byte list \<Rightarrow> elfhdr" where
  "get_elfhdr bs = \<lparr>eh_magic = le_at bs 0 4, eh_entry = le_at bs 24 8, eh_phoff = le_at bs 32 8, eh_phnum = le_at bs 56 2\<rparr>"

definition get_proghdr :: "byte list \<Rightarrow> proghdr" where
  "get_proghdr bs = \<lparr>ph_type = le_at bs 0 4, ph_flags = le_at bs 4 4, ph_off = le_at bs 8 8, ph_vaddr = le_at bs 16 8,
     ph_filesz = le_at bs 32 8, ph_memsz = le_at bs 40 8\<rparr>"

definition flags2perm :: "uint \<Rightarrow> uint64" where
  "flags2perm flags =
     (let perm = (if flags AND 0x1 \<noteq> 0 then PTE_X else 0)
      in if flags AND 0x2 \<noteq> 0 then perm OR PTE_W else perm)"

section \<open>Loading segments\<close>

text \<open>\<open>loadseg\<close> steps \<open>i\<close> by whole pages from 0 while it is below \<open>sz\<close>.\<close>

definition loadseg ::
  "uint64 \<Rightarrow> uint64 \<Rightarrow> nat \<Rightarrow> uint \<Rightarrow> uint \<Rightarrow> 'z fstate_scheme \<Rightarrow> ('z fstate_scheme, int) outcome" where
  "loadseg pagetable va ip offset sz s =
     bnd (for_until [0..<(unat sz + 4095) div 4096] (\<lambda>k s.
       let i = 4096 * k in
       bnd (walkaddr pagetable (va + of_nat i) s) (\<lambda>pa s.
         if pa = 0 then Panic ''loadseg: address should exist''
         else
           let n = min (unat sz - i) 4096 in
           bnd (readi ip (Kernel_dst pa) (offset + of_nat i) (of_nat n) s) (\<lambda>(r, _) s.
           Ret (if r \<noteq> int n then Some (-1) else None) s))) s)
     (\<lambda>r s. Ret (case r of Some v \<Rightarrow> v | None \<Rightarrow> 0) s)"

text \<open>
  The loop over the program headers: whether it ended without \<^verbatim>\<open>goto bad\<close>, and the size
  reached so far.  \<open>off\<close> is a C \<^verbatim>\<open>int\<close>.
\<close>

fun exec_load ::
  "uint64 \<Rightarrow> nat \<Rightarrow> nat \<Rightarrow> int \<Rightarrow> uint64 \<Rightarrow> 'z fstate_scheme \<Rightarrow> ('z fstate_scheme, bool \<times> uint64) outcome" where
  "exec_load pagetable ip 0 off sz s = Ret (True, sz) s"
| "exec_load pagetable ip (Suc k) off sz s =
     bnd (readi ip Local_dst (of_int off) (of_nat PROGHDR_SIZE) s) (\<lambda>(r, bs) s.
       if r \<noteq> int PROGHDR_SIZE then Ret (False, sz) s
       else
         let ph = get_proghdr bs; off' = wrap32 (off + int PROGHDR_SIZE) in
         if ph_type ph \<noteq> ELF_PROG_LOAD then exec_load pagetable ip k off' sz s
         else if ph_memsz ph < ph_filesz ph then Ret (False, sz) s
         else if ph_vaddr ph + ph_memsz ph < ph_vaddr ph then Ret (False, sz) s
         else if ph_vaddr ph mod PGSIZE \<noteq> 0 then Ret (False, sz) s
         else
           bnd (uvmalloc pagetable sz (ph_vaddr ph + ph_memsz ph) (flags2perm (ph_flags ph)) s) (\<lambda>sz1 s.
             if sz1 = 0 then Ret (False, sz) s
             else
               bnd (loadseg pagetable (ph_vaddr ph) ip (ucast (ph_off ph)) (ucast (ph_filesz ph)) s) (\<lambda>r s.
                 if r < 0 then Ret (False, sz1) s
                 else exec_load pagetable ip k off' sz1 s)))"

section \<open>The argument stack\<close>

definition align16 :: "uint64 \<Rightarrow> uint64" where
  "align16 sp = sp - sp mod 16"

text \<open>The pushes of the argument strings: \<open>None\<close> for \<^verbatim>\<open>goto bad\<close>, or \<^verbatim>\<open>sp\<close> and \<^verbatim>\<open>ustack\<close>.\<close>

fun exec_push ::
  "uint64 \<Rightarrow> uint64 \<Rightarrow> uint64 list \<Rightarrow> uint64 \<Rightarrow> uint64 list \<Rightarrow> 'z kstate_scheme \<Rightarrow>
   ('z kstate_scheme, (uint64 \<times> uint64 list) option) outcome" where
  "exec_push pagetable stackbase [] sp ustack s = Ret (Some (sp, ustack)) s"
| "exec_push pagetable stackbase (a # argv) sp ustack s =
     (if length ustack \<ge> MAXARG then Ret None s
      else case strlen (mem s) a of None \<Rightarrow> Fault ''strlen(argv[argc])''
      | Some n \<Rightarrow>
        let sp = align16 (sp - of_nat (n + 1)) in
        if sp < stackbase then Ret None s
        else bnd (copyout pagetable sp a (of_nat (n + 1)) s) (\<lambda>r s.
               if r < 0 then Ret None s
               else exec_push pagetable stackbase argv sp (ustack @ [sp]) s))"

definition last_elem :: "byte list \<Rightarrow> byte list" where
  "last_elem path = rev (takeWhile (\<lambda>c. c \<noteq> slash) (rev path))"

section \<open>exec\<close>

definition exec_bad ::
  "uint64 \<Rightarrow> uint64 \<Rightarrow> nat option \<Rightarrow> 'z fstate_scheme \<Rightarrow> ('z fstate_scheme, int) outcome" where
  "exec_bad pagetable sz ip s =
     bnd (if pagetable \<noteq> 0 then proc_freepagetable pagetable sz s else Ret () s) (\<lambda>_ s.
     case ip of None \<Rightarrow> Ret (-1) s
     | Some ip \<Rightarrow> bnd (iunlockput ip s) (\<lambda>_ s. bnd (end_op s) (\<lambda>_ s. Ret (-1) s)))"

text \<open>From the new stack to the commitment to the new image; \<^verbatim>\<open>ip\<close> has been dropped.\<close>

definition exec_image ::
  "nat \<Rightarrow> byte list \<Rightarrow> uint64 list \<Rightarrow> uint64 \<Rightarrow> uint64 \<Rightarrow> uint64 \<Rightarrow> 'z fstate_scheme \<Rightarrow>
   ('z fstate_scheme, int) outcome" where
  "exec_image p path argv pc pagetable sz s =
     (let oldsz = p_sz (procs s p); sz = PGROUNDUP sz in
      bnd (uvmalloc pagetable sz (sz + 2 * PGSIZE) PTE_W s) (\<lambda>sz1 s.
        if sz1 = 0 then exec_bad pagetable sz None s
        else
          let sz = sz1 in
          bnd (uvmclear pagetable (sz - 2 * PGSIZE) s) (\<lambda>_ s.
          let stackbase = sz - PGSIZE in
          bnd (exec_push pagetable stackbase argv sz [] s) (\<lambda>r s.
          case r of None \<Rightarrow> exec_bad pagetable sz None s
          | Some (sp, ustack) \<Rightarrow>
            let argc = length ustack; sp = align16 (sp - of_nat ((argc + 1) * 8)) in
            if sp < stackbase then exec_bad pagetable sz None s
            else
              bnd (copyout_obj pagetable sp (concat (map (le_bytes 8) (ustack @ [0]))) s) (\<lambda>r s.
                if r < 0 then exec_bad pagetable sz None s
                else
                  let s = tf_set TF_a1 sp p s;
                      s = upd_proc p (\<lambda>x. x\<lparr>p_name := safestrcpy_l 16 (p_name x) (last_elem path)\<rparr>) s;
                      oldpagetable = p_pagetable (procs s p);
                      s = upd_proc p (\<lambda>x. x\<lparr>p_pagetable := pagetable, p_sz := sz\<rparr>) s;
                      s = tf_set TF_epc pc p s;
                      s = tf_set TF_sp sp p s
                  in bnd (proc_freepagetable oldpagetable oldsz s) (\<lambda>_ s. Ret (int argc) s))))))"

definition exec :: "link \<Rightarrow> byte list \<Rightarrow> uint64 list \<Rightarrow>
 'z fstate_scheme \<Rightarrow> ('z fstate_scheme, int) outcome" where
  "exec lk path argv s =
     with_myproc (\<lambda>p s.
     bnd (begin_op s) (\<lambda>_ s.
     bnd (namei path s) (\<lambda>ip s.
     case ip of None \<Rightarrow> bnd (end_op s) (\<lambda>_ s. Ret (-1) s)
     | Some ip \<Rightarrow>
       bnd (ilock ip s) (\<lambda>_ s.
       bnd (readi ip Local_dst 0 (of_nat ELFHDR_SIZE) s) (\<lambda>(r, bs) s.
         let elf = get_elfhdr bs in
         if r \<noteq> int ELFHDR_SIZE then exec_bad 0 0 (Some ip) s
         else if eh_magic elf \<noteq> ELF_MAGIC then exec_bad 0 0 (Some ip) s
         else
           bnd (proc_pagetable lk p s) (\<lambda>pagetable s.
             if pagetable = 0 then exec_bad 0 0 (Some ip) s
             else
               bnd (exec_load pagetable ip (unat (eh_phnum elf)) (sint (ucast (eh_phoff elf) :: uint)) 0 s) (\<lambda>(ok, sz) s.
                 if \<not> ok then exec_bad pagetable sz (Some ip) s
                 else
                   bnd (iunlockput ip s) (\<lambda>_ s.
                   bnd (end_op s) (\<lambda>_ s.
                   exec_image p path argv (eh_entry elf) pagetable sz s)))))))) ) s"

end
