(* ===== verification/Sysargs.thy ===== *)
theory Sysargs
  imports Exec
begin

text \<open>
  Fetching system-call arguments, the first part of \<^verbatim>\<open>kernel/syscall.c\<close>, and the descriptor
  helpers of \<^verbatim>\<open>kernel/sysfile.c\<close>.
\<close>

text \<open>
  \<^verbatim>\<open>copyinstr\<close> into a local array of the caller: the result and the bytes before the zero.
\<close>

function copyinstr_obj :: "uint64 \<Rightarrow> uint64 \<Rightarrow> nat \<Rightarrow> 'z kstate_scheme \<Rightarrow> ('z kstate_scheme, int \<times> byte list) outcome" where
  "copyinstr_obj pagetable srcva mx s =
     (if mx > 0 then
        let va0 = PGROUNDDOWN srcva in
        bnd (walkaddr pagetable va0 s) (\<lambda>pa0 s.
          if pa0 = 0 then Ret (-1, []) s
          else
            let n = piece srcva mx; bs = bytes (mem s) (pa0 + (srcva - va0)) n in
            if 0 \<in> set bs then Ret (0, str_of bs) s
            else bnd (copyinstr_obj pagetable (va0 + PGSIZE) (mx - n) s) (\<lambda>(r, rest) s. Ret (r, bs @ rest) s))
      else Ret (-1, []) s)"
  by pat_completeness auto
termination
  by (relation "measure (\<lambda>(pt, va, n, _). n)") (auto intro!: diff_less piece_pos)

declare copyinstr_obj.simps [simp del]

definition fetchaddr :: "uint64 \<Rightarrow> 'z kstate_scheme \<Rightarrow> ('z kstate_scheme, int \<times> uint64) outcome" where
  "fetchaddr addr s =
     with_myproc (\<lambda>p s.
       if addr \<ge> p_sz (procs s p) \<or> addr + 8 > p_sz (procs s p) then Ret (-1, 0) s
       else bnd (copyin_obj (p_pagetable (procs s p)) addr 8 s) (\<lambda>(r, bs) s.
         if r \<noteq> 0 then Ret (-1, 0) s else Ret (0, le_word bs) s)) s"

text \<open>\<open>fetchstr\<close> into a local array, and into kernel memory at \<open>buf\<close>.\<close>

definition fetchstr :: "uint64 \<Rightarrow> nat \<Rightarrow> 'z kstate_scheme \<Rightarrow> ('z kstate_scheme, int \<times> byte list) outcome" where
  "fetchstr addr mx s =
     with_myproc (\<lambda>p s.
       bnd (copyinstr_obj (p_pagetable (procs s p)) addr mx s) (\<lambda>(r, bs) s.
       if r < 0 then Ret (-1, []) s else Ret (int (length bs), bs) s)) s"

definition fetchstr_at :: "uint64 \<Rightarrow> uint64 \<Rightarrow> uint64 \<Rightarrow> 'z kstate_scheme \<Rightarrow> ('z kstate_scheme, int) outcome" where
  "fetchstr_at addr buf mx s =
     with_myproc (\<lambda>p s.
       bnd (copyinstr (p_pagetable (procs s p)) buf addr mx s) (\<lambda>r s.
       if r < 0 then Ret (-1) s
       else case strlen (mem s) buf of None \<Rightarrow> Fault ''strlen(buf)'' | Some n \<Rightarrow> Ret (int n) s)) s"

definition arg_reg :: "nat \<Rightarrow> tf_field option" where
  "arg_reg n = (if n = 0 then Some TF_a0 else if n = 1 then Some TF_a1 else if n = 2 then Some TF_a2
     else if n = 3 then Some TF_a3 else if n = 4 then Some TF_a4 else if n = 5 then Some TF_a5 else None)"

definition argraw :: "nat \<Rightarrow> 'z kstate_scheme \<Rightarrow> ('z kstate_scheme, uint64) outcome" where
  "argraw n s =
     with_myproc (\<lambda>p s. case arg_reg n of Some f \<Rightarrow> Ret (tf_get f p s) s | None \<Rightarrow> Panic ''argraw'') s"

definition argint :: "nat \<Rightarrow> 'z kstate_scheme \<Rightarrow> ('z kstate_scheme, int) outcome" where
  "argint n s = bnd (argraw n s) (\<lambda>v s. Ret (sint (ucast v :: uint)) s)"

definition argaddr :: "nat \<Rightarrow> 'z kstate_scheme \<Rightarrow> ('z kstate_scheme, uint64) outcome" where
  "argaddr n s = argraw n s"

definition argstr :: "nat \<Rightarrow> nat \<Rightarrow> 'z kstate_scheme \<Rightarrow> ('z kstate_scheme, int \<times> byte list) outcome" where
  "argstr n mx s = bnd (argaddr n s) (\<lambda>addr s. fetchstr addr mx s)"

text \<open>\<open>argfd\<close>: the descriptor and the open file, or \<open>None\<close> for -1.\<close>

definition argfd :: "nat \<Rightarrow> 'z kstate_scheme \<Rightarrow> ('z kstate_scheme, (nat \<times> nat) option) outcome" where
  "argfd n s =
     bnd (argint n s) (\<lambda>fd s.
       if fd < 0 \<or> fd \<ge> int NOFILE then Ret None s
       else with_myproc (\<lambda>p s.
         case p_ofile (procs s p) (nat fd) of None \<Rightarrow> Ret None s | Some f \<Rightarrow> Ret (Some (nat fd, f)) s) s)"

definition fdalloc :: "nat \<Rightarrow> 'z kproc_scheme \<Rightarrow> ('z kproc_scheme, int) outcome" where
  "fdalloc f s =
     with_myproc (\<lambda>p s.
       case find (\<lambda>fd. p_ofile (procs s p) fd = None) [0..<NOFILE] of
         Some fd \<Rightarrow> Ret (int fd) (upd_proc p (\<lambda>x. x\<lparr>p_ofile := (p_ofile x)(fd := Some f)\<rparr>) s)
       | None \<Rightarrow> Ret (-1) s) s"

end
