(* ===== verification/Sysfile.thy ===== *)
theory Sysfile
  imports Sysargs
begin

text \<open>
  The file-system system calls of \<^verbatim>\<open>kernel/sysfile.c\<close>.  Every call returns the 64-bit value
  that ends up in register a0; \<open>ERR\<close> is -1 at that width.
\<close>

definition ERR :: uint64 where "ERR = -1"

definition MAXPATH :: nat where "MAXPATH = 128"
definition O_WRONLY :: uint where "O_WRONLY = 1"
definition O_RDWR :: uint where "O_RDWR = 2"
definition O_CREATE :: uint where "O_CREATE = 0x200"
definition O_TRUNC :: uint where "O_TRUNC = 0x400"

definition no_name :: "byte list" where "no_name = replicate DIRSIZ 0"

section \<open>Descriptors\<close>

definition sys_dup :: "'z flstate_scheme \<Rightarrow> ('z flstate_scheme, uint64) outcome" where
  "sys_dup s =
     bnd (argfd 0 s) (\<lambda>r s.
     case r of None \<Rightarrow> Ret ERR s
     | Some (_, f) \<Rightarrow>
         bnd (fdalloc f s) (\<lambda>fd s.
         if fd < 0 then Ret ERR s
         else bnd (filedup f s) (\<lambda>_ s. Ret (of_int fd) s)))"

definition sys_read :: "'z flstate_scheme \<Rightarrow> ('z flstate_scheme, uint64) outcome" where
  "sys_read s =
     bnd (argaddr 1 s) (\<lambda>p s.
     bnd (argint 2 s) (\<lambda>n s.
     bnd (argfd 0 s) (\<lambda>r s.
     case r of None \<Rightarrow> Ret ERR s
     | Some (_, f) \<Rightarrow> bnd (fileread f p n s) (\<lambda>r s. Ret (of_int r) s))))"

definition sys_write :: "'z flstate_scheme \<Rightarrow> ('z flstate_scheme, uint64) outcome" where
  "sys_write s =
     bnd (argaddr 1 s) (\<lambda>p s.
     bnd (argint 2 s) (\<lambda>n s.
     bnd (argfd 0 s) (\<lambda>r s.
     case r of None \<Rightarrow> Ret ERR s
     | Some (_, f) \<Rightarrow> bnd (filewrite f p n s) (\<lambda>r s. Ret (of_int r) s))))"

definition sys_close :: "'z flstate_scheme \<Rightarrow> ('z flstate_scheme, uint64) outcome" where
  "sys_close s =
     bnd (argfd 0 s) (\<lambda>r s.
     case r of None \<Rightarrow> Ret ERR s
     | Some (fd, f) \<Rightarrow>
         with_myproc (\<lambda>p s.
         bnd (fileclose f (upd_proc p (\<lambda>x. x\<lparr>p_ofile := (p_ofile x)(fd := None)\<rparr>) s)) (\<lambda>_ s. Ret 0 s)) s)"

definition sys_fstat :: "'z flstate_scheme \<Rightarrow> ('z flstate_scheme, uint64) outcome" where
  "sys_fstat s =
     bnd (argaddr 1 s) (\<lambda>st s.
     bnd (argfd 0 s) (\<lambda>r s.
     case r of None \<Rightarrow> Ret ERR s
     | Some (_, f) \<Rightarrow> bnd (filestat f st s) (\<lambda>r s. Ret (of_int r) s)))"

section \<open>Links\<close>

definition link_bad :: "nat \<Rightarrow> 'z fstate_scheme \<Rightarrow> ('z fstate_scheme, uint64) outcome" where
  "link_bad ip s =
     bnd (ilock ip s) (\<lambda>_ s.
     bnd (iupdate ip (upd_ino ip (\<lambda>i. i\<lparr>i_nlink := i_nlink i - 1\<rparr>) s)) (\<lambda>_ s.
     bnd (iunlockput ip s) (\<lambda>_ s.
     bnd (end_op s) (\<lambda>_ s. Ret ERR s))))"

definition sys_link :: "'z fstate_scheme \<Rightarrow> ('z fstate_scheme, uint64) outcome" where
  "sys_link s =
     bnd (argstr 0 MAXPATH s) (\<lambda>(r, old) s.
     if r < 0 then Ret ERR s
     else bnd (argstr 1 MAXPATH s) (\<lambda>(r, new) s.
     if r < 0 then Ret ERR s
     else
       bnd (begin_op s) (\<lambda>_ s.
       bnd (namei old s) (\<lambda>ip s.
       case ip of None \<Rightarrow> bnd (end_op s) (\<lambda>_ s. Ret ERR s)
       | Some ip \<Rightarrow>
         bnd (ilock ip s) (\<lambda>_ s.
         if i_type (itable s ip) = T_DIR then
           bnd (iunlockput ip s) (\<lambda>_ s. bnd (end_op s) (\<lambda>_ s. Ret ERR s))
         else
           bnd (iupdate ip (upd_ino ip (\<lambda>i. i\<lparr>i_nlink := i_nlink i + 1\<rparr>) s)) (\<lambda>_ s.
           bnd (iunlock ip s) (\<lambda>_ s.
           bnd (nameiparent new no_name s) (\<lambda>(dp, name) s.
           case dp of None \<Rightarrow> link_bad ip s
           | Some dp \<Rightarrow>
             bnd (ilock dp s) (\<lambda>_ s.
             bnd (if i_dev (itable s dp) \<noteq> i_dev (itable s ip) then Ret (-1) s
                  else dirlink dp name (i_inum (itable s ip)) s) (\<lambda>r s.
             if r < 0 then bnd (iunlockput dp s) (\<lambda>_ s. link_bad ip s)
             else
               bnd (iunlockput dp s) (\<lambda>_ s.
               bnd (iput ip s) (\<lambda>_ s.
               bnd (end_op s) (\<lambda>_ s. Ret 0 s)))))))))))))"

definition isdirempty :: "nat \<Rightarrow> 'z fstate_scheme \<Rightarrow> ('z fstate_scheme, bool) outcome" where
  "isdirempty dp s =
     bnd (for_until [2..<(unat (i_size (itable s dp)) + DESIZE - 1) div DESIZE] (\<lambda>k s.
       bnd (readi dp Local_dst (of_nat (k * DESIZE)) (of_nat DESIZE) s) (\<lambda>(r, bs) s.
         if r \<noteq> int DESIZE then Panic ''isdirempty: readi''
         else Ret (if de_inum (de_decode bs) \<noteq> 0 then Some () else None) s)) s) (\<lambda>r s.
     Ret (r = None) s)"

definition unlink_bad :: "nat \<Rightarrow> 'z fstate_scheme \<Rightarrow> ('z fstate_scheme, uint64) outcome" where
  "unlink_bad dp s = bnd (iunlockput dp s) (\<lambda>_ s. bnd (end_op s) (\<lambda>_ s. Ret ERR s))"

text \<open>The removal of the entry at \<open>off\<close>, with both inodes locked.\<close>

definition unlink_entry :: "nat \<Rightarrow> nat \<Rightarrow> uint \<Rightarrow> 'z fstate_scheme \<Rightarrow> ('z fstate_scheme, uint64) outcome" where
  "unlink_entry dp ip off s =
     bnd (writei dp (Local_src (replicate DESIZE 0)) off (of_nat DESIZE) s) (\<lambda>r s.
     if r \<noteq> int DESIZE then Panic ''unlink: writei''
     else
       bnd (if i_type (itable s ip) = T_DIR
            then iupdate dp (upd_ino dp (\<lambda>i. i\<lparr>i_nlink := i_nlink i - 1\<rparr>) s) else Ret () s) (\<lambda>_ s.
       bnd (iunlockput dp s) (\<lambda>_ s.
       bnd (iupdate ip (upd_ino ip (\<lambda>i. i\<lparr>i_nlink := i_nlink i - 1\<rparr>) s)) (\<lambda>_ s.
       bnd (iunlockput ip s) (\<lambda>_ s.
       bnd (end_op s) (\<lambda>_ s. Ret 0 s))))))"

definition sys_unlink :: "'z fstate_scheme \<Rightarrow> ('z fstate_scheme, uint64) outcome" where
  "sys_unlink s =
     bnd (argstr 0 MAXPATH s) (\<lambda>(r, path) s.
     if r < 0 then Ret ERR s
     else
       bnd (begin_op s) (\<lambda>_ s.
       bnd (nameiparent path no_name s) (\<lambda>(dp, name) s.
       case dp of None \<Rightarrow> bnd (end_op s) (\<lambda>_ s. Ret ERR s)
       | Some dp \<Rightarrow>
         bnd (ilock dp s) (\<lambda>_ s.
         if namecmp name (str ''.'') = 0 \<or> namecmp name (str ''..'') = 0 then unlink_bad dp s
         else
           bnd (dirlookup dp name s) (\<lambda>r s.
           case r of None \<Rightarrow> unlink_bad dp s
           | Some (ip, off) \<Rightarrow>
             bnd (ilock ip s) (\<lambda>_ s.
             if sint (i_nlink (itable s ip)) < 1 then Panic ''unlink: nlink < 1''
             else
               bnd (if i_type (itable s ip) = T_DIR then isdirempty ip s else Ret True s) (\<lambda>ok s.
               if \<not> ok then bnd (iunlockput ip s) (\<lambda>_ s. unlink_bad dp s)
               else unlink_entry dp ip off s)))))))"

section \<open>Creating and opening\<close>

text \<open>\<open>create\<close> returns the new or existing inode, locked.\<close>

definition create_fail :: "nat \<Rightarrow> nat \<Rightarrow> 'z fstate_scheme \<Rightarrow> ('z fstate_scheme, nat option) outcome" where
  "create_fail dp ip s =
     bnd (iupdate ip (upd_ino ip (\<lambda>i. i\<lparr>i_nlink := 0\<rparr>) s)) (\<lambda>_ s.
     bnd (iunlockput ip s) (\<lambda>_ s.
     bnd (iunlockput dp s) (\<lambda>_ s. Ret None s)))"

text \<open>The entries \<^verbatim>\<open>.\<close> and \<^verbatim>\<open>..\<close> of a new directory; 0 for another type.\<close>

definition create_dots :: "16 word \<Rightarrow> nat \<Rightarrow> nat \<Rightarrow> 'z fstate_scheme \<Rightarrow> ('z fstate_scheme, int) outcome" where
  "create_dots type dp ip s =
     (if type = T_DIR then
        bnd (dirlink ip (str ''.'') (i_inum (itable s ip)) s) (\<lambda>r s.
          if r < 0 then Ret (-1) s else dirlink ip (str ''..'') (i_inum (itable s dp)) s)
      else Ret 0 s)"

definition create ::
  "byte list \<Rightarrow> 16 word \<Rightarrow> 16 word \<Rightarrow> 16 word \<Rightarrow> 'z fstate_scheme \<Rightarrow> ('z fstate_scheme, nat option) outcome" where
  "create path type major minor s =
     bnd (nameiparent path no_name s) (\<lambda>(dp, name) s.
     case dp of None \<Rightarrow> Ret None s
     | Some dp \<Rightarrow>
       bnd (ilock dp s) (\<lambda>_ s.
       bnd (dirlookup dp name s) (\<lambda>r s.
       case r of Some (ip, _) \<Rightarrow>
         bnd (iunlockput dp s) (\<lambda>_ s.
         bnd (ilock ip s) (\<lambda>_ s.
         if type = T_FILE \<and> (i_type (itable s ip) = T_FILE \<or> i_type (itable s ip) = T_DEVICE) then Ret (Some ip) s
         else bnd (iunlockput ip s) (\<lambda>_ s. Ret None s)))
       | None \<Rightarrow>
         bnd (ialloc (i_dev (itable s dp)) type s) (\<lambda>ip s.
         case ip of None \<Rightarrow> bnd (iunlockput dp s) (\<lambda>_ s. Ret None s)
         | Some ip \<Rightarrow>
           bnd (ilock ip s) (\<lambda>_ s.
           bnd (iupdate ip (upd_ino ip (\<lambda>i. i\<lparr>i_major := major, i_minor := minor, i_nlink := 1\<rparr>) s)) (\<lambda>_ s.
           bnd (create_dots type dp ip s) (\<lambda>r s.
           if r < 0 then create_fail dp ip s
           else
             bnd (dirlink dp name (i_inum (itable s ip)) s) (\<lambda>r s.
             if r < 0 then create_fail dp ip s
             else
               bnd (if type = T_DIR then iupdate dp (upd_ino dp (\<lambda>i. i\<lparr>i_nlink := i_nlink i + 1\<rparr>) s)
                    else Ret () s) (\<lambda>_ s.
               bnd (iunlockput dp s) (\<lambda>_ s. Ret (Some ip) s))))))))))"

text \<open>The first part of \<open>sys_open\<close>: the locked inode; \<open>None\<close> after \<open>end_op\<close>.\<close>

definition open_inode :: "byte list \<Rightarrow> uint \<Rightarrow> 'z fstate_scheme \<Rightarrow> ('z fstate_scheme, nat option) outcome" where
  "open_inode path omode s =
     (if omode AND O_CREATE \<noteq> 0 then
        bnd (create path T_FILE 0 0 s) (\<lambda>ip s.
        case ip of None \<Rightarrow> bnd (end_op s) (\<lambda>_ s. Ret None s) | Some ip \<Rightarrow> Ret (Some ip) s)
      else
        bnd (namei path s) (\<lambda>ip s.
        case ip of None \<Rightarrow> bnd (end_op s) (\<lambda>_ s. Ret None s)
        | Some ip \<Rightarrow>
          bnd (ilock ip s) (\<lambda>_ s.
          if i_type (itable s ip) = T_DIR \<and> omode \<noteq> 0 then
            bnd (iunlockput ip s) (\<lambda>_ s. bnd (end_op s) (\<lambda>_ s. Ret None s))
          else Ret (Some ip) s)))"

definition open_bad :: "nat \<Rightarrow> 'z fstate_scheme \<Rightarrow> ('z fstate_scheme, uint64) outcome" where
  "open_bad ip s = bnd (iunlockput ip s) (\<lambda>_ s. bnd (end_op s) (\<lambda>_ s. Ret ERR s))"

definition open_file :: "nat \<Rightarrow> nat \<Rightarrow> uint \<Rightarrow> 'z flstate_scheme \<Rightarrow> 'z flstate_scheme" where
  "open_file f ip omode s =
     upd_file f (\<lambda>x.
       (if i_type (itable s ip) = T_DEVICE then x\<lparr>f_type := FD_DEVICE, f_major := i_major (itable s ip)\<rparr>
        else x\<lparr>f_type := FD_INODE, f_off := 0\<rparr>)\<lparr>f_ip := Some ip,
         f_readable := omode AND O_WRONLY = 0,
         f_writable := omode AND O_WRONLY \<noteq> 0 \<or> omode AND O_RDWR \<noteq> 0\<rparr>) s"

definition sys_open :: "'z flstate_scheme \<Rightarrow> ('z flstate_scheme, uint64) outcome" where
  "sys_open s =
     bnd (argint 1 s) (\<lambda>om s.
     bnd (argstr 0 MAXPATH s) (\<lambda>(n, path) s.
     if n < 0 then Ret ERR s
     else
       let omode = of_int om in
       bnd (begin_op s) (\<lambda>_ s.
       bnd (open_inode path omode s) (\<lambda>ip s.
       case ip of None \<Rightarrow> Ret ERR s
       | Some ip \<Rightarrow>
         if i_type (itable s ip) = T_DEVICE \<and>
            (sint (i_major (itable s ip)) < 0 \<or> sint (i_major (itable s ip)) \<ge> int NDEV) then open_bad ip s
         else
           bnd (filealloc s) (\<lambda>f s.
           case f of None \<Rightarrow> open_bad ip s
           | Some f \<Rightarrow>
             bnd (fdalloc f s) (\<lambda>fd s.
             if fd < 0 then bnd (fileclose f s) (\<lambda>_ s. open_bad ip s)
             else
               let s = open_file f ip omode s in
               bnd (if omode AND O_TRUNC \<noteq> 0 \<and> i_type (itable s ip) = T_FILE then itrunc ip s else Ret () s) (\<lambda>_ s.
               bnd (iunlock ip s) (\<lambda>_ s.
               bnd (end_op s) (\<lambda>_ s. Ret (of_int fd) s))))))))) "

definition sys_mkdir :: "'z fstate_scheme \<Rightarrow> ('z fstate_scheme, uint64) outcome" where
  "sys_mkdir s =
     bnd (begin_op s) (\<lambda>_ s.
     bnd (argstr 0 MAXPATH s) (\<lambda>(r, path) s.
     bnd (if r < 0 then Ret None s else create path T_DIR 0 0 s) (\<lambda>ip s.
     case ip of None \<Rightarrow> bnd (end_op s) (\<lambda>_ s. Ret ERR s)
     | Some ip \<Rightarrow> bnd (iunlockput ip s) (\<lambda>_ s. bnd (end_op s) (\<lambda>_ s. Ret 0 s)))))"

definition sys_mknod :: "'z fstate_scheme \<Rightarrow> ('z fstate_scheme, uint64) outcome" where
  "sys_mknod s =
     bnd (begin_op s) (\<lambda>_ s.
     bnd (argint 1 s) (\<lambda>major s.
     bnd (argint 2 s) (\<lambda>minor s.
     bnd (argstr 0 MAXPATH s) (\<lambda>(r, path) s.
     bnd (if r < 0 then Ret None s else create path T_DEVICE (of_int major) (of_int minor) s) (\<lambda>ip s.
     case ip of None \<Rightarrow> bnd (end_op s) (\<lambda>_ s. Ret ERR s)
     | Some ip \<Rightarrow> bnd (iunlockput ip s) (\<lambda>_ s. bnd (end_op s) (\<lambda>_ s. Ret 0 s)))))))"

definition sys_chdir :: "'z fstate_scheme \<Rightarrow> ('z fstate_scheme, uint64) outcome" where
  "sys_chdir s =
     with_myproc (\<lambda>p s.
     bnd (begin_op s) (\<lambda>_ s.
     bnd (argstr 0 MAXPATH s) (\<lambda>(r, path) s.
     bnd (if r < 0 then Ret None s else namei path s) (\<lambda>ip s.
     case ip of None \<Rightarrow> bnd (end_op s) (\<lambda>_ s. Ret ERR s)
     | Some ip \<Rightarrow>
       bnd (ilock ip s) (\<lambda>_ s.
       if i_type (itable s ip) \<noteq> T_DIR then open_bad ip s
       else
         bnd (iunlock ip s) (\<lambda>_ s.
         bnd (with_cwd (p_cwd (procs s p)) (\<lambda>c. iput c s)) (\<lambda>_ s.
         bnd (end_op s) (\<lambda>_ s.
         Ret 0 (upd_proc p (\<lambda>x. x\<lparr>p_cwd := Some ip\<rparr>) s))))))))) s"

section \<open>exec and pipe\<close>

text \<open>
  The argument loop of \<open>sys_exec\<close>, \<open>k\<close> slots of \<^verbatim>\<open>argv[]\<close> left: whether it ended without
  \<^verbatim>\<open>goto bad\<close>, and the pages allocated.
\<close>

fun exec_args ::
  "uint64 \<Rightarrow> nat \<Rightarrow> uint64 list \<Rightarrow> 'z kstate_scheme \<Rightarrow> ('z kstate_scheme, bool \<times> uint64 list) outcome" where
  "exec_args uargv 0 argv s = Ret (False, argv) s"
| "exec_args uargv (Suc k) argv s =
     bnd (fetchaddr (uargv + 8 * of_nat (length argv)) s) (\<lambda>(r, uarg) s.
     if r < 0 then Ret (False, argv) s
     else if uarg = 0 then Ret (True, argv) s
     else
       bnd (kalloc s) (\<lambda>a s.
       if a = 0 then Ret (False, argv) s
       else
         bnd (fetchstr_at uarg a PGSIZE s) (\<lambda>r s.
         if r < 0 then Ret (False, argv @ [a]) s
         else exec_args uargv k (argv @ [a]) s)))"

definition sys_exec :: "link \<Rightarrow> 'z fstate_scheme \<Rightarrow> ('z fstate_scheme, uint64) outcome" where
  "sys_exec lk s =
     bnd (argaddr 1 s) (\<lambda>uargv s.
     bnd (argstr 0 MAXPATH s) (\<lambda>(r, path) s.
     if r < 0 then Ret ERR s
     else
       bnd (exec_args uargv MAXARG [] s) (\<lambda>(ok, argv) s.
       if \<not> ok then bnd (for_each argv kfree s) (\<lambda>_ s. Ret ERR s)
       else
         bnd (exec lk path argv s) (\<lambda>ret s.
         bnd (for_each argv kfree s) (\<lambda>_ s. Ret (of_int ret) s)))))"

definition pipe_bad :: "nat \<Rightarrow> int \<Rightarrow> int \<Rightarrow> nat \<Rightarrow> nat \<Rightarrow> 'z flstate_scheme \<Rightarrow> ('z flstate_scheme, uint64) outcome" where
  "pipe_bad p fd0 fd1 rfl wfl s =
     (let clear = (\<lambda>fd s. if fd \<ge> 0 then upd_proc p (\<lambda>x. x\<lparr>p_ofile := (p_ofile x)(nat fd := None)\<rparr>) s else s)
      in bnd (fileclose rfl (clear fd1 (clear fd0 s))) (\<lambda>_ s.
         bnd (fileclose wfl s) (\<lambda>_ s. Ret ERR s)))"

definition sys_pipe :: "'z flstate_scheme \<Rightarrow> ('z flstate_scheme, uint64) outcome" where
  "sys_pipe s =
     with_myproc (\<lambda>p s.
     bnd (argaddr 0 s) (\<lambda>fdarray s.
     bnd (pipealloc s) (\<lambda>r s.
     case r of None \<Rightarrow> Ret ERR s
     | Some (rfl, wfl) \<Rightarrow>
       bnd (fdalloc rfl s) (\<lambda>fd0 s.
       if fd0 < 0 then pipe_bad p fd0 (-1) rfl wfl s
       else bnd (fdalloc wfl s) (\<lambda>fd1 s.
       if fd1 < 0 then pipe_bad p fd0 fd1 rfl wfl s
       else
         bnd (copyout_obj (p_pagetable (procs s p)) fdarray (int_bytes fd0) s) (\<lambda>r s.
         if r < 0 then pipe_bad p fd0 fd1 rfl wfl s
         else bnd (copyout_obj (p_pagetable (procs s p)) (fdarray + 4) (int_bytes fd1) s) (\<lambda>r s.
         if r < 0 then pipe_bad p fd0 fd1 rfl wfl s
         else Ret 0 s))))))) s"

end
