(* ===== verification/Sysproc.thy ===== *)
theory Sysproc
  imports Sysfile
begin

text \<open>
  The process system calls of \<^verbatim>\<open>kernel/sysproc.c\<close>, and the dispatcher of \<^verbatim>\<open>kernel/syscall.c\<close>.
\<close>

section \<open>Process system calls\<close>

definition sys_exit :: "'z flstate_scheme \<Rightarrow> ('z flstate_scheme, uint64) outcome" where
  "sys_exit s = bnd (argint 0 s) (\<lambda>n s. exit n s)"

definition sys_getpid :: "'z kproc_scheme \<Rightarrow> ('z kproc_scheme, uint64) outcome" where
  "sys_getpid s = with_myproc (\<lambda>p s. Ret (of_int (p_pid (procs s p))) s) s"

definition sys_fork :: "policy \<Rightarrow> link \<Rightarrow> 'z flstate_scheme \<Rightarrow> ('z flstate_scheme, uint64) outcome" where
  "sys_fork pol lk s = bnd (fork pol lk s) (\<lambda>r s. Ret (of_int r) s)"

definition sys_wait :: "policy \<Rightarrow> 'z kstate_scheme \<Rightarrow> ('z kstate_scheme, uint64) outcome" where
  "sys_wait pol s = bnd (argaddr 0 s) (\<lambda>p s. bnd (wait pol p s) (\<lambda>r s. Ret (of_int r) s))"

definition sys_sbrk :: "'z kstate_scheme \<Rightarrow> ('z kstate_scheme, uint64) outcome" where
  "sys_sbrk s =
     bnd (argint 0 s) (\<lambda>n s.
     with_myproc (\<lambda>p s.
       let addr = p_sz (procs s p) in
       bnd (growproc n s) (\<lambda>r s. Ret (if r < 0 then ERR else addr) s)) s)"

text \<open>The comparison \<^verbatim>\<open>ticks - ticks0 < n\<close> is unsigned.\<close>

definition sys_sleep_loop :: "int \<Rightarrow> uint \<Rightarrow> 'z kproc_scheme \<Rightarrow> ('z kproc_scheme, uint64) outcome" where
  "sys_sleep_loop n ticks0 s =
     (if ticks s - ticks0 < of_int n then
        with_myproc (\<lambda>p s.
        bnd (killed p s) (\<lambda>k s.
          if k \<noteq> 0 then bnd (release L_ticks s) (\<lambda>_ s. Ret ERR s)
          else bnd (sleep C_ticks L_ticks s) (\<lambda>_ s. Ret ERR s))) s
      else bnd (release L_ticks s) (\<lambda>_ s. Ret 0 s))"

definition sys_sleep :: "'z kstate_scheme \<Rightarrow> ('z kstate_scheme, uint64) outcome" where
  "sys_sleep s =
     bnd (argint 0 s) (\<lambda>n s.
     bnd (acquire L_ticks s) (\<lambda>_ s. sys_sleep_loop n (ticks s) s))"

definition sys_sleep_resume ::
  "nat \<Rightarrow> bool \<Rightarrow> int \<Rightarrow> uint \<Rightarrow> 'z kproc_scheme \<Rightarrow> ('z kproc_scheme, uint64) outcome" where
  "sys_sleep_resume p saved n ticks0 s =
     bnd (sleep_resume p saved L_ticks s) (\<lambda>_ s. sys_sleep_loop n ticks0 s)"

definition sys_kill :: "'z kstate_scheme \<Rightarrow> ('z kstate_scheme, uint64) outcome" where
  "sys_kill s = bnd (argint 0 s) (\<lambda>pid s. bnd (kill pid s) (\<lambda>r s. Ret (of_int r) s))"

definition sys_uptime :: "'z kproc_scheme \<Rightarrow> ('z kproc_scheme, uint64) outcome" where
  "sys_uptime s =
     bnd (acquire L_ticks s) (\<lambda>_ s.
     let xticks = ticks s in
     bnd (release L_ticks s) (\<lambda>_ s. Ret (ucast xticks) s))"

text \<open>
  When \<open>waitx\<close> fails before it has found a child, \<^verbatim>\<open>wtime\<close> and \<^verbatim>\<open>rtime\<close> are uninitialised;
  their values are the argument \<open>junk\<close>.
\<close>

definition sys_waitx :: "policy \<Rightarrow> uint \<times> uint \<Rightarrow> 'z kstate_scheme \<Rightarrow> ('z kstate_scheme, uint64) outcome" where
  "sys_waitx pol junk s =
     bnd (argaddr 0 s) (\<lambda>addr s.
     bnd (argaddr 1 s) (\<lambda>addr1 s.
     bnd (argaddr 2 s) (\<lambda>addr2 s.
     bnd (waitx pol addr s) (\<lambda>(ret, times) s.
     let (wtime, rtime) = (case times of Some t \<Rightarrow> t | None \<Rightarrow> junk) in
     with_myproc (\<lambda>p s.
     bnd (copyout_obj (p_pagetable (procs s p)) addr1 (le_bytes 4 wtime) s) (\<lambda>r s.
     if r < 0 then Ret ERR s
     else bnd (copyout_obj (p_pagetable (procs s p)) addr2 (le_bytes 4 rtime) s) (\<lambda>r s.
     if r < 0 then Ret ERR s
     else Ret (of_int ret) s))) s))))"

section \<open>Counting system calls\<close>

definition syscall_names :: "string list" where
  "syscall_names = [''unknown'', ''fork'', ''exit'', ''wait'', ''pipe'', ''read'', ''kill'', ''exec'', ''fstat'',
     ''chdir'', ''dup'', ''getpid'', ''sbrk'', ''sleep'', ''uptime'', ''open'', ''write'', ''mknod'', ''unlink'',
     ''link'', ''mkdir'', ''close'', ''waitx'', ''getSysCount'', ''sigalarm'', ''sigreturn'']"

text \<open>The index of the single bit of the mask, 0 if the mask is not one of the 32 powers of two.\<close>

definition mask_index :: "int \<Rightarrow> nat" where
  "mask_index msk = (case find (\<lambda>i. msk = sint (push_bit i 1 :: uint)) [0..<32] of Some i \<Rightarrow> i | None \<Rightarrow> 0)"

definition as_int :: "uint64 \<Rightarrow> int" where
  "as_int v = sint (ucast v :: uint)"

text \<open>The loop over the zombie children, which also adds up their counters in an \<^verbatim>\<open>int\<close>.\<close>

definition count_children :: "nat \<Rightarrow> nat \<Rightarrow> int \<Rightarrow> 'z ustate_scheme \<Rightarrow> ('z ustate_scheme, int) outcome" where
  "count_children me index start s =
     for_acc [0..<NPROC] (\<lambda>i total s.
       if p_parent (procs s i) = Some me \<and> p_state (procs s i) = ZOMBIE then
         bnd (printf (Some (str ''There is a child process with (PID %d) with syscount %d'' @ [10]))
           [Arg_int (p_pid (procs s i)), Arg_int (as_int (p_sysCounter (procs s i) index))] s) (\<lambda>_ s.
         Ret (as_int (of_int total + p_sysCounter (procs s i) index)) s)
       else Ret total s) start s"

definition sys_getSysCount :: "'z ustate_scheme \<Rightarrow> ('z ustate_scheme, uint64) outcome" where
  "sys_getSysCount s =
     with_myproc (\<lambda>p s.
     bnd (argint 0 s) (\<lambda>msk s.
     let index = mask_index msk; total = as_int (p_sysCounter (procs s p) index) in
     bnd (printf (Some (str ''Parent process (PID %d) syscall count : %d'' @ [10]))
       [Arg_int (p_pid (procs s p)), Arg_int total] s) (\<lambda>_ s.
     bnd (acquire (L_proc 0) s) (\<lambda>_ s.
     bnd (count_children p index total s) (\<lambda>total s.
     bnd (for_each [0..<32] (\<lambda>i s.
       printf (Some (str ''In sysproc.c syscall %d called %d times.'' @ [10]))
         [Arg_int (int i), Arg_int (as_int (p_sysCounter (procs s p) i))] s) s) (\<lambda>_ s.
     bnd (release (L_proc 0) s) (\<lambda>_ s.
     if index < length syscall_names then
       bnd (printf (Some (str ''PID %d called %s %d times.'' @ [10]))
         [Arg_int (p_pid (procs s p)), Arg_str (Some (str (syscall_names ! index))), Arg_int total] s) (\<lambda>_ s.
       Ret 0 s)
     else Fault ''syscall_names[]''))))))) s"

section \<open>Alarms, tickets\<close>

definition sys_sigalarm :: "'z kstate_scheme \<Rightarrow> ('z kstate_scheme, uint64) outcome" where
  "sys_sigalarm s =
     bnd (argint 0 s) (\<lambda>n s.
     bnd (argaddr 1 s) (\<lambda>addr s.
     with_myproc (\<lambda>p s.
       Ret 0 (upd_proc p (\<lambda>x. x\<lparr>p_ticks_of_alarm := (if n = 1 then 0 else n), p_handling_alarm := addr\<rparr>) s)) s))"

definition sys_sigreturn :: "'z kstate_scheme \<Rightarrow> ('z kstate_scheme, uint64) outcome" where
  "sys_sigreturn s =
     with_myproc (\<lambda>p s.
       let a = p_trapframe_alarm (procs s p) in
       if a \<noteq> 0 then
         bnd (kfree a (s\<lparr>mem := memmove (p_trapframe (procs s p)) a TF_SIZE (mem s)\<rparr>)) (\<lambda>_ s.
         Ret 0 (upd_proc p (\<lambda>x. x\<lparr>p_trapframe_alarm := 0, p_alarm_status := 0\<rparr>) s))
       else Ret 0 s) s"

definition sys_settickets :: "'z kstate_scheme \<Rightarrow> ('z kstate_scheme, uint64) outcome" where
  "sys_settickets s = bnd (argint 0 s) (\<lambda>number s. bnd (settickets number s) (\<lambda>r s. Ret (of_int r) s))"

section \<open>Dispatch\<close>

definition syscalls ::
  "policy \<Rightarrow> link \<Rightarrow> uint \<times> uint \<Rightarrow> int \<Rightarrow> ('z flstate_scheme \<Rightarrow> ('z flstate_scheme, uint64) outcome) option" where
  "syscalls pol lk junk num =
     (if num = 1 then Some (sys_fork pol lk) else if num = 2 then Some sys_exit
      else if num = 3 then Some (sys_wait pol) else if num = 4 then Some sys_pipe
      else if num = 5 then Some sys_read else if num = 6 then Some sys_kill
      else if num = 7 then Some (sys_exec lk) else if num = 8 then Some sys_fstat
      else if num = 9 then Some sys_chdir else if num = 10 then Some sys_dup
      else if num = 11 then Some sys_getpid else if num = 12 then Some sys_sbrk
      else if num = 13 then Some sys_sleep else if num = 14 then Some sys_uptime
      else if num = 15 then Some sys_open else if num = 16 then Some sys_write
      else if num = 17 then Some sys_mknod else if num = 18 then Some sys_unlink
      else if num = 19 then Some sys_link else if num = 20 then Some sys_mkdir
      else if num = 21 then Some sys_close else if num = 22 then Some (sys_waitx pol junk)
      else if num = 23 then Some sys_getSysCount else if num = 24 then Some sys_sigalarm
      else if num = 25 then Some sys_sigreturn else if num = 26 then Some sys_settickets
      else None)"

text \<open>\<open>NELEM(syscalls)\<close> is 27: the array ends with the entry of \<^verbatim>\<open>SYS_settickets\<close>.\<close>

definition NSYSCALLS :: int where "NSYSCALLS = 27"

definition syscall :: "policy \<Rightarrow> link \<Rightarrow> uint \<times> uint \<Rightarrow> 'z flstate_scheme \<Rightarrow> ('z flstate_scheme, unit) outcome" where
  "syscall pol lk junk s =
     with_myproc (\<lambda>p s.
       let num = as_int (tf_get TF_a7 p s) in
       case (if num > 0 \<and> num < NSYSCALLS then syscalls pol lk junk num else None) of
         Some f \<Rightarrow>
           bnd (f s) (\<lambda>r s.
           Ret () (upd_proc p (\<lambda>x. x\<lparr>p_sysCounter := (p_sysCounter x)(nat num := p_sysCounter x (nat num) + 1)\<rparr>)
                     (tf_set TF_a0 r p s)))
       | None \<Rightarrow>
           bnd (printf (Some (str ''%d %s: unknown sys call %d'' @ [10]))
             [Arg_int (p_pid (procs s p)), Arg_str (Some (cstr (p_name (procs s p)))), Arg_int num] s) (\<lambda>_ s.
           Ret () (tf_set TF_a0 ERR p s))) s"

end
