(* ===== verification/Virtio.thy ===== *)
theory Virtio
  imports Sysproc
begin

text \<open>
  The disk driver \<^verbatim>\<open>kernel/virtio_disk.c\<close> and the interrupt controller \<^verbatim>\<open>kernel/plic.c\<close>.

  The descriptor table and the rings are typed values.  The address in a descriptor names the
  kernel object it points to: the command header of a chain, the data of a buffer, or the
  status byte of a chain.  Reads of the memory-mapped registers return what the device says
  (\<open>v_regs\<close>); writes are recorded in \<open>v_mmio\<close>.
\<close>

datatype daddr = DA_null | DA_req nat | DA_data nat | DA_status nat

record virtq_desc =
  d_addr :: daddr
  d_len :: uint
  d_flags :: "16 word"
  d_next :: "16 word"

record virtio_blk_req =
  rq_type :: uint
  rq_reserved :: uint
  rq_sector :: uint64

record vdisk =
  v_desc :: "nat \<Rightarrow> virtq_desc"
  v_pages :: "uint64 \<times> uint64 \<times> uint64"
  v_avail_idx :: "16 word"
  v_avail_ring :: "nat \<Rightarrow> 16 word"
  v_dev_used_idx :: "16 word"
  v_used_ring :: "nat \<Rightarrow> uint"
  v_free :: "nat \<Rightarrow> bool"
  v_used_idx :: "16 word"
  v_info_b :: "nat \<Rightarrow> nat option"
  v_info_status :: "nat \<Rightarrow> byte"
  v_ops :: "nat \<Rightarrow> virtio_blk_req"
  v_regs :: "uint \<Rightarrow> uint"
  v_mmio :: "(uint \<times> uint) list"

record vstate = flstate +
  vd :: vdisk
  plic_claimed :: "nat \<Rightarrow> uint"
  plic_writes :: "(uint64 \<times> uint) list"
  forkret_first :: bool

definition upd_vd :: "(vdisk \<Rightarrow> vdisk) \<Rightarrow> 'z vstate_scheme \<Rightarrow> 'z vstate_scheme" where
  "upd_vd f s = s\<lparr>vd := f (vd s)\<rparr>"

definition VNUM :: nat where "VNUM = 8"
definition VRING_DESC_F_NEXT :: "16 word" where "VRING_DESC_F_NEXT = 1"
definition VRING_DESC_F_WRITE :: "16 word" where "VRING_DESC_F_WRITE = 2"
definition VIRTIO_BLK_T_IN :: uint where "VIRTIO_BLK_T_IN = 0"
definition VIRTIO_BLK_T_OUT :: uint where "VIRTIO_BLK_T_OUT = 1"

section \<open>Initialisation\<close>

definition MAGIC_VALUE :: uint where "MAGIC_VALUE = 0x000"
definition VERSION :: uint where "VERSION = 0x004"
definition DEVICE_ID :: uint where "DEVICE_ID = 0x008"
definition VENDOR_ID :: uint where "VENDOR_ID = 0x00c"
definition DEVICE_FEATURES :: uint where "DEVICE_FEATURES = 0x010"
definition DRIVER_FEATURES :: uint where "DRIVER_FEATURES = 0x020"
definition QUEUE_SEL :: uint where "QUEUE_SEL = 0x030"
definition QUEUE_NUM_MAX :: uint where "QUEUE_NUM_MAX = 0x034"
definition QUEUE_NUM :: uint where "QUEUE_NUM = 0x038"
definition QUEUE_READY :: uint where "QUEUE_READY = 0x044"
definition QUEUE_NOTIFY :: uint where "QUEUE_NOTIFY = 0x050"
definition INTERRUPT_STATUS :: uint where "INTERRUPT_STATUS = 0x060"
definition INTERRUPT_ACK :: uint where "INTERRUPT_ACK = 0x064"
definition STATUS :: uint where "STATUS = 0x070"

definition vreg :: "uint \<Rightarrow> 'z vstate_scheme \<Rightarrow> uint" where
  "vreg r s = v_regs (vd s) r"

definition vput :: "uint \<Rightarrow> uint \<Rightarrow> 'z vstate_scheme \<Rightarrow> 'z vstate_scheme" where
  "vput r v s = upd_vd (\<lambda>d. d\<lparr>v_mmio := v_mmio d @ [(r, v)]\<rparr>) s"

text \<open>The feature bits the driver declines, and the bits of the status register.\<close>

definition declined :: uint where
  "declined = push_bit 5 1 OR push_bit 7 1 OR push_bit 11 1 OR push_bit 12 1 OR push_bit 27 1 OR push_bit 29 1 OR push_bit 28 1"

definition FEATURES_OK :: uint where "FEATURES_OK = 8"

definition virtio_negotiate :: "'z vstate_scheme \<Rightarrow> ('z vstate_scheme, uint) outcome" where
  "virtio_negotiate s =
     (let s = vput STATUS 0 s; s = vput STATUS 1 s; s = vput STATUS (1 OR 2) s;
          s = vput DRIVER_FEATURES (vreg DEVICE_FEATURES s AND NOT declined) s;
          s = vput STATUS (1 OR 2 OR FEATURES_OK) s;
          status = vreg STATUS s
      in if status AND FEATURES_OK = 0 then Panic ''virtio disk FEATURES_OK unset'' else Ret status s)"

definition lo32 :: "uint64 \<Rightarrow> uint" where "lo32 a = ucast a"
definition hi32 :: "uint64 \<Rightarrow> uint" where "hi32 a = ucast (drop_bit 32 a)"

text \<open>The descriptor and ring pages are zeroed: their typed contents are the zero values.\<close>

definition zero_desc :: virtq_desc where
  "zero_desc = \<lparr>d_addr = DA_null, d_len = 0, d_flags = 0, d_next = 0\<rparr>"

definition virtio_disk_init :: "'z vstate_scheme \<Rightarrow> ('z vstate_scheme, unit) outcome" where
  "virtio_disk_init s =
     (let s = initlock L_vdisk ''virtio_disk'' s in
      if vreg MAGIC_VALUE s \<noteq> 0x74726976 \<or> vreg VERSION s \<noteq> 2 \<or> vreg DEVICE_ID s \<noteq> 2 \<or> vreg VENDOR_ID s \<noteq> 0x554d4551
      then Panic ''could not find virtio disk''
      else
        bnd (virtio_negotiate s) (\<lambda>status s.
        let s = vput QUEUE_SEL 0 s in
        if vreg QUEUE_READY s \<noteq> 0 then Panic ''virtio disk should not be ready''
        else if vreg QUEUE_NUM_MAX s = 0 then Panic ''virtio disk has no queue 0''
        else if vreg QUEUE_NUM_MAX s < of_nat VNUM then Panic ''virtio disk max queue too short''
        else
          bnd (kalloc s) (\<lambda>a s. bnd (kalloc s) (\<lambda>b s. bnd (kalloc s) (\<lambda>c s.
          if a = 0 \<or> b = 0 \<or> c = 0 then Panic ''virtio disk kalloc''
          else
            let s = s\<lparr>mem := memset c 0 4096 (memset b 0 4096 (memset a 0 4096 (mem s)))\<rparr>;
                s = upd_vd (\<lambda>d. d\<lparr>v_pages := (a, b, c), v_desc := (\<lambda>_. zero_desc), v_avail_idx := 0,
                      v_avail_ring := (\<lambda>_. 0), v_dev_used_idx := 0, v_used_ring := (\<lambda>_. 0)\<rparr>) s;
                s = vput QUEUE_NUM (of_nat VNUM) s;
                s = vput 0x080 (lo32 a) s; s = vput 0x084 (hi32 a) s;
                s = vput 0x090 (lo32 b) s; s = vput 0x094 (hi32 b) s;
                s = vput 0x0a0 (lo32 c) s; s = vput 0x0a4 (hi32 c) s;
                s = vput QUEUE_READY 1 s;
                s = upd_vd (\<lambda>d. d\<lparr>v_free := \<lambda>i. if i < VNUM then True else v_free d i\<rparr>) s
            in Ret () (vput STATUS (status OR 4) s))))))"

section \<open>Descriptors\<close>

definition alloc_desc :: "'z vstate_scheme \<Rightarrow> int \<times> 'z vstate_scheme" where
  "alloc_desc s =
     (case find (v_free (vd s)) [0..<VNUM] of
        Some i \<Rightarrow> (int i, upd_vd (\<lambda>d. d\<lparr>v_free := (v_free d)(i := False)\<rparr>) s)
      | None \<Rightarrow> (-1, s))"

definition free_desc :: "int \<Rightarrow> 'z vstate_scheme \<Rightarrow> ('z vstate_scheme, unit) outcome" where
  "free_desc i s =
     (if i \<ge> int VNUM then Panic ''free_desc 1''
      else if i < 0 then Fault ''disk.free[]''
      else if v_free (vd s) (nat i) then Panic ''free_desc 2''
      else wakeup (Some C_vdisk_free)
             (upd_vd (\<lambda>d. d\<lparr>v_desc := (v_desc d)(nat i := zero_desc), v_free := (v_free d)(nat i := True)\<rparr>) s))"

text \<open>
  \<open>free_chain\<close> follows \<^verbatim>\<open>next\<close> until a descriptor without the \<^verbatim>\<open>NEXT\<close> flag.  Every round
  frees one of the \<open>VNUM\<close> descriptors or stops, so \<open>Suc VNUM\<close> rounds are enough.
\<close>

fun free_chain_loop :: "nat \<Rightarrow> int \<Rightarrow> 'z vstate_scheme \<Rightarrow> ('z vstate_scheme, unit) outcome" where
  "free_chain_loop 0 i s = Spin"
| "free_chain_loop (Suc k) i s =
     (let flag = d_flags (v_desc (vd s) (nat i)); nxt = uint (d_next (v_desc (vd s) (nat i))) in
      bnd (free_desc i s) (\<lambda>_ s.
        if flag AND VRING_DESC_F_NEXT \<noteq> 0 then free_chain_loop k nxt s else Ret () s))"

definition free_chain :: "int \<Rightarrow> 'z vstate_scheme \<Rightarrow> ('z vstate_scheme, unit) outcome" where
  "free_chain i s = free_chain_loop (Suc VNUM) i s"

text \<open>\<open>alloc3_desc\<close>: three descriptors, or \<open>None\<close> with those already taken given back.\<close>

definition alloc3_desc :: "'z vstate_scheme \<Rightarrow> ('z vstate_scheme, (nat \<times> nat \<times> nat) option) outcome" where
  "alloc3_desc s =
     (let (i, s) = alloc_desc s in
      if i < 0 then Ret None s
      else let (j, s) = alloc_desc s in
        if j < 0 then bnd (free_desc i s) (\<lambda>_ s. Ret None s)
        else let (k, s) = alloc_desc s in
          if k < 0 then bnd (free_desc i s) (\<lambda>_ s. bnd (free_desc j s) (\<lambda>_ s. Ret None s))
          else Ret (Some (nat i, nat j, nat k)) s)"

section \<open>Transfers\<close>

definition submit :: "nat \<Rightarrow> bool \<Rightarrow> nat \<Rightarrow> nat \<Rightarrow> nat \<Rightarrow> 'z vstate_scheme \<Rightarrow> 'z vstate_scheme" where
  "submit b write i j k s =
     (let sector = ucast (b_blockno (bufs s b) * 2);
          s = upd_vd (\<lambda>d. d\<lparr>
            v_ops := (v_ops d)(i := \<lparr>rq_type = (if write then VIRTIO_BLK_T_OUT else VIRTIO_BLK_T_IN), rq_reserved = 0,
              rq_sector = sector\<rparr>),
            v_desc := (v_desc d)
              (i := \<lparr>d_addr = DA_req i, d_len = 16, d_flags = VRING_DESC_F_NEXT, d_next = of_nat j\<rparr>,
               j := \<lparr>d_addr = DA_data b, d_len = of_nat BSIZE,
                     d_flags = (if write then 0 else VRING_DESC_F_WRITE) OR VRING_DESC_F_NEXT, d_next = of_nat k\<rparr>,
               k := \<lparr>d_addr = DA_status i, d_len = 1, d_flags = VRING_DESC_F_WRITE, d_next = 0\<rparr>),
            v_info_status := (v_info_status d)(i := 0xff)\<rparr>) s;
          s = upd_buf b (\<lambda>x. x\<lparr>b_disk := True\<rparr>) s;
          s = upd_vd (\<lambda>d. d\<lparr>v_info_b := (v_info_b d)(i := Some b),
            v_avail_ring := (v_avail_ring d)(unat (v_avail_idx d) mod VNUM := of_nat i),
            v_avail_idx := v_avail_idx d + 1\<rparr>) s
      in vput QUEUE_NOTIFY 0 s)"

definition rw_wait :: "nat \<Rightarrow> nat \<Rightarrow> 'z vstate_scheme \<Rightarrow> ('z vstate_scheme, unit) outcome" where
  "rw_wait b i s =
     (if b_disk (bufs s b) then sleep (C_bufdone b) L_vdisk s
      else
        bnd (free_chain (int i) (upd_vd (\<lambda>d. d\<lparr>v_info_b := (v_info_b d)(i := None)\<rparr>) s)) (\<lambda>_ s.
        release L_vdisk s))"

definition rw_start :: "nat \<Rightarrow> bool \<Rightarrow> 'z vstate_scheme \<Rightarrow> ('z vstate_scheme, unit) outcome" where
  "rw_start b write s =
     bnd (alloc3_desc s) (\<lambda>r s.
     case r of None \<Rightarrow> sleep C_vdisk_free L_vdisk s
     | Some (i, j, k) \<Rightarrow> rw_wait b i (submit b write i j k s))"

definition virtio_disk_rw :: "nat \<Rightarrow> bool \<Rightarrow> 'z vstate_scheme \<Rightarrow> ('z vstate_scheme, unit) outcome" where
  "virtio_disk_rw b write s = bnd (acquire L_vdisk s) (\<lambda>_ s. rw_start b write s)"

text \<open>After the sleep for descriptors, and after the sleep for the transfer.\<close>

definition virtio_disk_rw_retry ::
  "nat \<Rightarrow> bool \<Rightarrow> nat \<Rightarrow> bool \<Rightarrow> 'z vstate_scheme \<Rightarrow> ('z vstate_scheme, unit) outcome" where
  "virtio_disk_rw_retry p saved b write s =
     bnd (sleep_resume p saved L_vdisk s) (\<lambda>_ s. rw_start b write s)"

definition virtio_disk_rw_resume ::
  "nat \<Rightarrow> bool \<Rightarrow> nat \<Rightarrow> nat \<Rightarrow> 'z vstate_scheme \<Rightarrow> ('z vstate_scheme, unit) outcome" where
  "virtio_disk_rw_resume p saved b i s =
     bnd (sleep_resume p saved L_vdisk s) (\<lambda>_ s. rw_wait b i s)"

text \<open>
  The loop of the interrupt handler: it follows the 16-bit index of the device and ends after
  at most 65535 rounds.
\<close>

fun intr_loop :: "nat \<Rightarrow> 'z vstate_scheme \<Rightarrow> ('z vstate_scheme, unit) outcome" where
  "intr_loop 0 s = Ret () s"
| "intr_loop (Suc n) s =
     (let id = unat (v_used_ring (vd s) (unat (v_used_idx (vd s)) mod VNUM)) in
      if id \<ge> VNUM then Fault ''disk.info[]''
      else if v_info_status (vd s) id \<noteq> 0 then Panic ''virtio_disk_intr status''
      else case v_info_b (vd s) id of None \<Rightarrow> Fault ''b->disk''
      | Some b \<Rightarrow>
          bnd (wakeup (Some (C_bufdone b)) (upd_buf b (\<lambda>x. x\<lparr>b_disk := False\<rparr>) s)) (\<lambda>_ s.
          intr_loop n (upd_vd (\<lambda>d. d\<lparr>v_used_idx := v_used_idx d + 1\<rparr>) s)))"

definition virtio_disk_intr :: "'z vstate_scheme \<Rightarrow> ('z vstate_scheme, unit) outcome" where
  "virtio_disk_intr s =
     bnd (acquire L_vdisk s) (\<lambda>_ s.
     let s = vput INTERRUPT_ACK (vreg INTERRUPT_STATUS s AND 3) s in
     bnd (intr_loop (unat (v_dev_used_idx (vd s) - v_used_idx (vd s))) s) (\<lambda>_ s.
     release L_vdisk s))"

section \<open>The interrupt controller\<close>

definition UART0_IRQ :: int where "UART0_IRQ = 10"
definition VIRTIO0_IRQ :: int where "VIRTIO0_IRQ = 1"

definition plic_write :: "uint64 \<Rightarrow> uint \<Rightarrow> 'z vstate_scheme \<Rightarrow> 'z vstate_scheme" where
  "plic_write a v s = s\<lparr>plic_writes := plic_writes s @ [(a, v)]\<rparr>"

definition PLIC_SENABLE :: "nat \<Rightarrow> uint64" where "PLIC_SENABLE h = PLIC + 0x2080 + of_nat h * 0x100"
definition PLIC_SPRIORITY :: "nat \<Rightarrow> uint64" where "PLIC_SPRIORITY h = PLIC + 0x201000 + of_nat h * 0x2000"
definition PLIC_SCLAIM :: "nat \<Rightarrow> uint64" where "PLIC_SCLAIM h = PLIC + 0x201004 + of_nat h * 0x2000"

definition plicinit :: "'z vstate_scheme \<Rightarrow> 'z vstate_scheme" where
  "plicinit s = plic_write (PLIC + of_int VIRTIO0_IRQ * 4) 1 (plic_write (PLIC + of_int UART0_IRQ * 4) 1 s)"

definition plicinithart :: "'z vstate_scheme \<Rightarrow> 'z vstate_scheme" where
  "plicinithart s =
     plic_write (PLIC_SPRIORITY (cpuid s)) 0
       (plic_write (PLIC_SENABLE (cpuid s)) (push_bit (nat UART0_IRQ) 1 OR push_bit (nat VIRTIO0_IRQ) 1) s)"

text \<open>A claim reads the register of the hart, which then is clear.\<close>

definition plic_claim :: "'z vstate_scheme \<Rightarrow> ('z vstate_scheme, int) outcome" where
  "plic_claim s =
     Ret (sint (plic_claimed s (cpuid s))) (s\<lparr>plic_claimed := (plic_claimed s)(cpuid s := 0)\<rparr>)"

definition plic_complete :: "int \<Rightarrow> 'z vstate_scheme \<Rightarrow> 'z vstate_scheme" where
  "plic_complete irq s = plic_write (PLIC_SCLAIM (cpuid s)) (of_int irq) s"

end
