(* ===== verification/Trap.thy ===== *)
theory Trap
  imports Virtio
begin

text \<open>
  Traps, \<^verbatim>\<open>kernel/trap.c\<close>, and \<open>forkret\<close> of \<^verbatim>\<open>kernel/proc.c\<close>: system calls, device and timer
  interrupts, the user-level alarm, and the return to user space.  A return to user space is
  the value \<open>Ret satp\<close>: the jump to \<^verbatim>\<open>userret\<close> in the trampoline with the page table of the
  process.  \<open>usertrap_resume\<close> and \<open>kerneltrap_resume\<close> are the code after a \<open>yield\<close>.
\<close>


definition mycsr :: "'z machine_scheme \<Rightarrow> csrs" where
  "mycsr s = csr s (hart s)"

definition trapinit :: "'z machine_scheme \<Rightarrow> 'z machine_scheme" where
  "trapinit s = initlock L_ticks ''time'' s"

definition trapinithart :: "link \<Rightarrow> 'z machine_scheme \<Rightarrow> 'z machine_scheme" where
  "trapinithart lk s = upd_csr (\<lambda>c. c\<lparr>stvec := sym_kernelvec lk\<rparr>) s"

section \<open>Interrupts\<close>

definition clockintr :: "policy \<Rightarrow> 'z kproc_scheme \<Rightarrow> ('z kproc_scheme, unit) outcome" where
  "clockintr pol s =
     bnd (acquire L_ticks s) (\<lambda>_ s.
     bnd (update_time pol (s\<lparr>ticks := ticks s + 1\<rparr>)) (\<lambda>_ s.
     bnd (myproc s) (\<lambda>p s.
     let s = (case p of None \<Rightarrow> s
              | Some p \<Rightarrow> if p_state (procs s p) = RUNNING
                  then upd_proc p (\<lambda>x. x\<lparr>p_current_ticks := wrap32 (p_current_ticks x + 1)\<rparr>) s else s)
     in bnd (wakeup (Some C_ticks) s) (\<lambda>_ s. release L_ticks s))))"

definition external_intr :: "policy \<Rightarrow> 'z vstate_scheme \<Rightarrow> ('z vstate_scheme, unit) outcome" where
  "external_intr pol s =
     bnd (plic_claim s) (\<lambda>irq s.
     bnd (if irq = UART0_IRQ then uartintr pol s
          else if irq = VIRTIO0_IRQ then virtio_disk_intr s
          else if irq \<noteq> 0 then printf (Some (str ''unexpected interrupt irq=%d'' @ [10])) [Arg_int irq] s
          else Ret () s) (\<lambda>_ s.
     Ret () (if irq \<noteq> 0 then plic_complete irq s else s)))"

definition devintr :: "policy \<Rightarrow> 'z vstate_scheme \<Rightarrow> ('z vstate_scheme, int) outcome" where
  "devintr pol s =
     (let cause = scause (mycsr s) in
      if cause AND 0x8000000000000000 \<noteq> 0 \<and> cause AND 0xff = 9 then
        bnd (external_intr pol s) (\<lambda>_ s. Ret 1 s)
      else if cause = 0x8000000000000001 then
        bnd (if cpuid s = 0 then clockintr pol s else Ret () s) (\<lambda>_ s.
        Ret 2 (upd_csr (\<lambda>c. c\<lparr>sip := sip c AND NOT 2\<rparr>) s))
      else Ret 0 s)"

section \<open>Returning to user space\<close>

definition usertrapret :: "link \<Rightarrow> 'z kstate_scheme \<Rightarrow> ('z kstate_scheme, uint64) outcome" where
  "usertrapret lk s =
     with_myproc (\<lambda>p s.
       let s = intr_off s;
           s = upd_csr (\<lambda>c. c\<lparr>stvec := TRAMPOLINE + (sym_uservec lk - sym_trampoline lk)\<rparr>) s;
           s = tf_set TF_kernel_satp (satp (mycsr s)) p s;
           s = tf_set TF_kernel_sp (p_kstack (procs s p) + PGSIZE) p s;
           s = tf_set TF_kernel_trap (sym_usertrap lk) p s;
           s = tf_set TF_kernel_hartid (of_nat (hart s)) p s;
           s = upd_csr (\<lambda>c. c\<lparr>sstatus := sstatus c AND NOT SSTATUS_SPP OR SSTATUS_SPIE\<rparr>) s;
           s = upd_csr (\<lambda>c. c\<lparr>sepc := tf_get TF_epc p s\<rparr>) s
       in Ret (MAKE_SATP (p_pagetable (procs s p))) s) s"

definition forkret :: "link \<Rightarrow> 'z vstate_scheme \<Rightarrow> ('z vstate_scheme, uint64) outcome" where
  "forkret lk s =
     with_myproc (\<lambda>p s.
     bnd (release (L_proc p) s) (\<lambda>_ s.
     bnd (if forkret_first s then fsinit (uint ROOTDEV) (s\<lparr>forkret_first := False\<rparr>) else Ret () s) (\<lambda>_ s.
     usertrapret lk s))) s"

section \<open>Traps from user space\<close>

text \<open>A timer interrupt counts towards the alarm; when it is due, the handler is entered.\<close>

definition alarm_tick :: "nat \<Rightarrow> 'z kstate_scheme \<Rightarrow> ('z kstate_scheme, unit) outcome" where
  "alarm_tick p s =
     (if p_ticks_of_alarm (procs s p) > 0 \<and> p_alarm_status (procs s p) = 0 then
        let s = upd_proc p (\<lambda>x. x\<lparr>p_current_ticks := wrap32 (p_current_ticks x + 1)\<rparr>) s in
        if p_current_ticks (procs s p) \<ge> p_ticks_of_alarm (procs s p) then
          bnd (kalloc (upd_proc p (\<lambda>x. x\<lparr>p_current_ticks := 0\<rparr>) s)) (\<lambda>a s.
          let s = upd_proc p (\<lambda>x. x\<lparr>p_trapframe_alarm := a\<rparr>) s in
          if a = 0 then Fault ''memmove to the null page''
          else
            let s = s\<lparr>mem := memmove a (p_trapframe (procs s p)) TF_SIZE (mem s)\<rparr>;
                s = tf_set TF_epc (p_handling_alarm (procs s p)) p s
            in Ret () (upd_proc p (\<lambda>x. x\<lparr>p_alarm_status := 1\<rparr>) s))
        else Ret () s
      else Ret () s)"

text \<open>What the cause of the trap asks for; the result is \<^verbatim>\<open>which_dev\<close>.\<close>

definition usertrap_cause ::
  "policy \<Rightarrow> link \<Rightarrow> uint \<times> uint \<Rightarrow> nat \<Rightarrow> 'z vstate_scheme \<Rightarrow> ('z vstate_scheme, int) outcome" where
  "usertrap_cause pol lk junk p s =
     (if scause (mycsr s) = 8 then
        bnd (killed p s) (\<lambda>k s.
        bnd (if k \<noteq> 0 then exit (-1) s else Ret () s) (\<lambda>_ s.
        bnd (syscall pol lk junk (intr_on (tf_set TF_epc (tf_get TF_epc p s + 4) p s))) (\<lambda>_ s.
        Ret 0 s)))
      else
        bnd (devintr pol s) (\<lambda>which_dev s.
        if which_dev \<noteq> 0 then
          bnd (if which_dev = 2 then alarm_tick p s else Ret () s) (\<lambda>_ s. Ret which_dev s)
        else
          bnd (printf (Some (str ''usertrap(): unexpected scause %p pid=%d'' @ [10]))
            [Arg_ptr (scause (mycsr s)), Arg_int (p_pid (procs s p))] s) (\<lambda>_ s.
          bnd (printf (Some (str ''            sepc=%p stval=%p'' @ [10]))
            [Arg_ptr (sepc (mycsr s)), Arg_ptr (stval (mycsr s))] s) (\<lambda>_ s.
          bnd (setkilled p s) (\<lambda>_ s. Ret which_dev s)))))"

definition usertrap ::
  "policy \<Rightarrow> link \<Rightarrow> uint \<times> uint \<Rightarrow> 'z vstate_scheme \<Rightarrow> ('z vstate_scheme, uint64) outcome" where
  "usertrap pol lk junk s =
     (if sstatus (mycsr s) AND SSTATUS_SPP \<noteq> 0 then Panic ''usertrap: not from user mode''
      else
        with_myproc (\<lambda>p s.
        bnd (usertrap_cause pol lk junk p (tf_set TF_epc (sepc (mycsr s)) p s)) (\<lambda>which_dev s.
        bnd (killed p s) (\<lambda>k s.
        bnd (if k \<noteq> 0 then exit (-1) s else Ret () s) (\<lambda>_ s.
        bnd (if pol = MLFQ then mlfq_ageing s else Ret () s) (\<lambda>_ s.
        if which_dev = 2 then
          bnd (if pol = MLFQ then mlfq_timer p s else Ret () s) (\<lambda>_ s.
          bnd (yield pol s) (\<lambda>_ s. usertrapret lk s))
        else usertrapret lk s)))))
          (trapinithart lk s))"

definition usertrap_resume ::
  "link \<Rightarrow> nat \<Rightarrow> bool \<Rightarrow> 'z kstate_scheme \<Rightarrow> ('z kstate_scheme, uint64) outcome" where
  "usertrap_resume lk p saved s = bnd (yield_resume p saved s) (\<lambda>_ s. usertrapret lk s)"

section \<open>Traps from the kernel\<close>

definition kerneltrap_end :: "uint64 \<Rightarrow> uint64 \<Rightarrow> 'z machine_scheme \<Rightarrow> 'z machine_scheme" where
  "kerneltrap_end pc st s = upd_csr (\<lambda>c. c\<lparr>sepc := pc, sstatus := st\<rparr>) s"

definition kerneltrap :: "policy \<Rightarrow> 'z vstate_scheme \<Rightarrow> ('z vstate_scheme, unit) outcome" where
  "kerneltrap pol s =
     (let pc = sepc (mycsr s); st = sstatus (mycsr s); cause = scause (mycsr s) in
      if st AND SSTATUS_SPP = 0 then Panic ''kerneltrap: not from supervisor mode''
      else if intr_get s then Panic ''kerneltrap: interrupts enabled''
      else
        bnd (devintr pol s) (\<lambda>which_dev s.
        if which_dev = 0 then
          bnd (printf (Some (str ''scause %p'' @ [10])) [Arg_ptr cause] s) (\<lambda>_ s.
          bnd (printf (Some (str ''sepc=%p stval=%p'' @ [10]))
            [Arg_ptr (sepc (mycsr s)), Arg_ptr (stval (mycsr s))] s) (\<lambda>_ s.
          Panic ''kerneltrap''))
        else
          bnd (if which_dev = 2 then myproc s else Ret None s) (\<lambda>p s.
          bnd (case p of None \<Rightarrow> Ret () s
               | Some _ \<Rightarrow> with_myproc (\<lambda>p s. if p_state (procs s p) = RUNNING then yield pol s else Ret () s) s) (\<lambda>_ s.
          Ret () (kerneltrap_end pc st s)))))"

definition kerneltrap_resume ::
  "nat \<Rightarrow> bool \<Rightarrow> uint64 \<Rightarrow> uint64 \<Rightarrow> 'z kproc_scheme \<Rightarrow> ('z kproc_scheme, unit) outcome" where
  "kerneltrap_resume p saved pc st s = bnd (yield_resume p saved s) (\<lambda>_ s. Ret () (kerneltrap_end pc st s))"

end
