(* ===== verification/Boot.thy ===== *)
theory Boot
  imports Trap
begin

text \<open>
  Starting the machine: the machine-mode set-up of \<^verbatim>\<open>kernel/start.c\<close> and \<open>main\<close> of
  \<^verbatim>\<open>kernel/main.c\<close> up to the call of the scheduler.
\<close>

section \<open>Machine mode\<close>

record mmode =
  m_mstatus :: uint64
  m_mepc :: uint64
  m_satp :: uint64
  m_medeleg :: uint64
  m_mideleg :: uint64
  m_sie :: uint64
  m_pmpaddr0 :: uint64
  m_pmpcfg0 :: uint64
  m_mscratch :: uint64
  m_mtvec :: uint64
  m_mie :: uint64
  m_tp :: uint64
  m_mtime :: uint64
  m_mtimecmp :: "nat \<Rightarrow> uint64"
  m_timer_scratch :: "nat \<Rightarrow> nat \<Rightarrow> uint64"

definition MSTATUS_MPP_MASK :: uint64 where "MSTATUS_MPP_MASK = push_bit 11 3"
definition MSTATUS_MPP_S :: uint64 where "MSTATUS_MPP_S = push_bit 11 1"
definition MSTATUS_MIE :: uint64 where "MSTATUS_MIE = push_bit 3 1"
definition SIE_SEIE :: uint64 where "SIE_SEIE = push_bit 9 1"
definition SIE_STIE :: uint64 where "SIE_STIE = push_bit 5 1"
definition SIE_SSIE :: uint64 where "SIE_SSIE = push_bit 1 1"
definition MIE_MTIE :: uint64 where "MIE_MTIE = push_bit 7 1"
definition CLINT :: uint64 where "CLINT = 0x2000000"

definition CLINT_MTIMECMP :: "nat \<Rightarrow> uint64" where
  "CLINT_MTIMECMP hartid = CLINT + 0x4000 + 8 * of_nat hartid"

text \<open>\<open>scratch\<close> is the address of \<^verbatim>\<open>timer_scratch[id]\<close>.\<close>

definition timerinit :: "nat \<Rightarrow> uint64 \<Rightarrow> uint64 \<Rightarrow> mmode \<Rightarrow> mmode" where
  "timerinit hid timervec scratch m =
     (let m = m\<lparr>m_mtimecmp := (m_mtimecmp m)(hid := m_mtime m + 1000000)\<rparr>;
          m = m\<lparr>m_timer_scratch := (m_timer_scratch m)(hid := (m_timer_scratch m hid)(3 := CLINT_MTIMECMP hid, 4 := 1000000))\<rparr>;
          m = m\<lparr>m_mscratch := scratch\<rparr>;
          m = m\<lparr>m_mtvec := timervec\<rparr>;
          m = m\<lparr>m_mstatus := m_mstatus m OR MSTATUS_MIE\<rparr>
      in m\<lparr>m_mie := m_mie m OR MIE_MTIE\<rparr>)"

definition start :: "nat \<Rightarrow> uint64 \<Rightarrow> uint64 \<Rightarrow> uint64 \<Rightarrow> mmode \<Rightarrow> mmode" where
  "start hid main_addr timervec scratch m =
     (let m = m\<lparr>m_mstatus := m_mstatus m AND NOT MSTATUS_MPP_MASK OR MSTATUS_MPP_S\<rparr>;
          m = m\<lparr>m_mepc := main_addr, m_satp := 0, m_medeleg := 0xffff, m_mideleg := 0xffff\<rparr>;
          m = m\<lparr>m_sie := m_sie m OR SIE_SEIE OR SIE_STIE OR SIE_SSIE\<rparr>;
          m = m\<lparr>m_pmpaddr0 := 0x3fffffffffffff, m_pmpcfg0 := 0xf\<rparr>;
          m = timerinit hid timervec scratch m
      in m\<lparr>m_tp := of_nat hid\<rparr>)"

section \<open>main\<close>

record bootstate = vstate +
  started :: bool

definition say :: "string \<Rightarrow> 'z ustate_scheme \<Rightarrow> ('z ustate_scheme, unit) outcome" where
  "say m s = printf (Some (str m @ [10])) [] s"

definition main_devices :: "link \<Rightarrow> 'z vstate_scheme \<Rightarrow> ('z vstate_scheme, unit) outcome" where
  "main_devices lk s =
     (let s = trapinithart lk (trapinit s); s = plicinithart (plicinit s)
      in bnd (binit s) (\<lambda>_ s. bnd (iinit s) (\<lambda>_ s. virtio_disk_init (fileinit s))))"

definition main_first ::
  "policy \<Rightarrow> link \<Rightarrow> uint64 \<Rightarrow> uint64 \<Rightarrow> 'z bootstate_scheme \<Rightarrow> ('z bootstate_scheme, unit) outcome" where
  "main_first pol lk etext initcode s =
     bnd (say [] (printfinit (consoleinit s))) (\<lambda>_ s.
     bnd (say ''xv6 kernel is booting'' s) (\<lambda>_ s.
     bnd (say [] s) (\<lambda>_ s.
     bnd (kinit s) (\<lambda>_ s.
     bnd (kvminit etext (sym_trampoline lk) s) (\<lambda>_ s.
     bnd (procinit (kvminithart s)) (\<lambda>_ s.
     bnd (main_devices lk s) (\<lambda>_ s.
     bnd (userinit pol lk initcode s) (\<lambda>_ s.
     Ret () (s\<lparr>started := True\<rparr>)))))))))"

definition main_other :: "link \<Rightarrow> 'z bootstate_scheme \<Rightarrow> ('z bootstate_scheme, unit) outcome" where
  "main_other lk s =
     (if \<not> started s then Spin
      else
        bnd (printf (Some (str ''hart %d starting'' @ [10])) [Arg_int (int (cpuid s))] s) (\<lambda>_ s.
        Ret () (plicinithart (trapinithart lk (kvminithart s)))))"

definition main :: "policy \<Rightarrow> link \<Rightarrow> uint64 \<Rightarrow> uint64 \<Rightarrow> 'z bootstate_scheme \<Rightarrow> ('z bootstate_scheme, unit) outcome" where
  "main pol lk etext initcode s =
     (if cpuid s = 0 then main_first pol lk etext initcode s else main_other lk s)"

end
