(* ===== verification/Pipespec.thy ===== *)
theory Pipespec
  imports File
begin

text \<open>
  Pipes as first-in first-out queues of bytes.  The contents of a pipe are the bytes between its
  two free-running 32-bit indices; a write appends to them, a read takes from their front.
\<close>

interpretation pipe_ring: ring PIPESIZE "0 :: uint"
  by unfold_locales (simp_all add: PIPESIZE_def)

definition pcont :: "pipe \<Rightarrow> byte list" where
  "pcont x = rlist PIPESIZE (pi_data x) (pi_nread x) (pi_nwrite x)"

definition pipe_wf :: "pipe \<Rightarrow> bool" where
  "pipe_wf x \<longleftrightarrow> length (pcont x) \<le> PIPESIZE"

text \<open>One byte in, one byte out.\<close>

definition pipe_put :: "byte \<Rightarrow> pipe \<Rightarrow> pipe" where
  "pipe_put c x = x\<lparr>pi_data := (pi_data x)(unat (pi_nwrite x) mod PIPESIZE := c), pi_nwrite := pi_nwrite x + 1\<rparr>"

definition pipe_skip :: "pipe \<Rightarrow> pipe" where
  "pipe_skip x = x\<lparr>pi_nread := pi_nread x + 1\<rparr>"

lemma pipe_put_fields [simp]:
  "pi_readopen (pipe_put c x) = pi_readopen x" "pi_writeopen (pipe_put c x) = pi_writeopen x"
  "pi_nread (pipe_put c x) = pi_nread x"
  by (simp_all add: pipe_put_def)

lemma fold_pipe_put_fields [simp]:
  "pi_readopen (fold pipe_put bs x) = pi_readopen x" "pi_writeopen (fold pipe_put bs x) = pi_writeopen x"
  by (induction bs arbitrary: x) simp_all

lemma pcont_put: "length (pcont x) < PIPESIZE \<Longrightarrow> pcont (pipe_put c x) = pcont x @ [c]"
  using pipe_ring.put [of "pi_nwrite x" "pi_nread x" c "pi_data x"] by (simp add: pcont_def pipe_put_def rput_def)

lemma pcont_puts: "length (pcont x) + length bs \<le> PIPESIZE \<Longrightarrow> pcont (fold pipe_put bs x) = pcont x @ bs"
  by (induction bs arbitrary: x) (simp_all add: pcont_put)

lemma pcont_empty: "pcont x = [] \<longleftrightarrow> pi_nread x = pi_nwrite x"
proof -
  have "pcont x = [] \<longleftrightarrow> unat (pi_nwrite x - pi_nread x) = 0" by (simp add: pcont_def rlist_def)
  also have "\<dots> \<longleftrightarrow> pi_nwrite x - pi_nread x = 0" by (simp only: unat_eq_0)
  finally show ?thesis by auto
qed

lemma pcont_full: "pi_nwrite x = pi_nread x + of_nat PIPESIZE \<longleftrightarrow> length (pcont x) = PIPESIZE"
proof -
  have "pi_nwrite x = pi_nread x + of_nat PIPESIZE \<longleftrightarrow> pi_nwrite x - pi_nread x = of_nat PIPESIZE"
    by (metis add_diff_cancel_left' diff_add_cancel add.commute)
  also have "\<dots> \<longleftrightarrow> unat (pi_nwrite x - pi_nread x) = PIPESIZE"
    by (simp add: word_unat_eq_iff PIPESIZE_def)
  finally show ?thesis by (simp add: pcont_def)
qed

lemma pcont_get:
  assumes "pi_nread x \<noteq> pi_nwrite x"
  shows "pcont x = pi_data x (unat (pi_nread x) mod PIPESIZE) # pcont (pipe_skip x)"
  using pipe_ring.get [OF assms, of "pi_data x"] by (simp add: pcont_def pipe_skip_def rget_def)

section \<open>Inside the lock\<close>

lemma upd_pipe_fields [simp]:
  "mach (upd_pipe pi f s) = mach s" "procs (upd_pipe pi f s) = procs s" "mem (upd_pipe pi f s) = mem s"
  "pipes (upd_pipe pi f s) = (pipes s)(pi := f (pipes s pi))"
  by (simp_all add: upd_pipe_def mach_def)

lemma upd_pipe_upd_pipe: "upd_pipe pi f (upd_pipe pi g s) = upd_pipe pi (\<lambda>x. f (g x)) s"
  by (simp add: upd_pipe_def)

lemma killed_inside:
  assumes "calm p s" "mach t = mach (acq l s)" "l \<noteq> L_proc p"
  shows "killed p t = Ret (p_killed (procs t p)) t"
proof -
  note i = calm_inside [OF assms(1,2)]
  have lf: "lock_free (L_proc p) t" using i(4) assms(3) by metis
  show ?thesis using i(2) by (simp add: killed_def acquire_eq [OF i(1) lf] unlock_touch [OF i(1) lf] Let_def)
qed

lemma pipewrite_loop_puts:
  assumes "calm p s" "mach t = mach (acq (L_pipe pi) s)" "p_killed (procs t p) = 0"
    and "pi_readopen (pipes t pi)" "wf_pt 2 e (mem t) pt" "pt = p_pagetable (procs t p)"
    and "uaccess (mem t) pt (addr + of_nat i) k" "length (pcont (pipes t pi)) + k \<le> PIPESIZE"
  shows "pipewrite_loop pi p addr i k t =
    pipewrite_loop pi p addr (i + k) 0 (upd_pipe pi (fold pipe_put (ubytes (mem t) pt (addr + of_nat i) k)) t)"
  using assms
proof (induction k arbitrary: i t)
  case 0
  then show ?case by (simp add: ubytes_def upd_pipe_def)
next
  case (Suc k)
  let ?a = "addr + of_nat i" and ?m = "mem t"
  let ?c = "ubyte ?m pt ?a" and ?t = "upd_pipe pi (pipe_put (ubyte (mem t) pt (addr + of_nat i))) t"
  have acc: "uaccess ?m pt ?a 1" "uaccess ?m pt (addr + of_nat (Suc i)) k"
  proof -
    have "\<And>j. j < Suc k \<Longrightarrow> uaddr ?m pt (PGROUNDDOWN (?a + of_nat j)) \<noteq> 0" using Suc.prems(7) unfolding uaccess_def by blast
    note a = this
    show "uaccess ?m pt ?a 1" using a [of 0] by (simp add: uaccess_def)
    have "uaddr ?m pt (PGROUNDDOWN (addr + of_nat (Suc i) + of_nat j)) \<noteq> 0" if "j < k" for j
      using a [of "Suc j"] that by (simp add: algebra_simps)
    then show "uaccess ?m pt (addr + of_nat (Suc i)) k" by (simp only: uaccess_def) blast
  qed
  have us: "ubytes ?m pt ?a (Suc k) = ?c # ubytes ?m pt (addr + of_nat (Suc i)) k"
    unfolding ubytes_def by (simp only: upt_conv_Cons zero_less_Suc map_Suc_upt [symmetric])
      (simp add: comp_def algebra_simps)
  have one: "copyin_obj pt ?a 1 t = Ret (0, [?c]) t"
    using copyin_obj_ok [OF Suc.prems(5), of ?a 1] acc(1) by (simp add: ubytes_def)
  have room: "length (pcont (pipes t pi)) < PIPESIZE" using Suc.prems(8) by simp
  have nf: "pi_nwrite (pipes t pi) \<noteq> pi_nread (pipes t pi) + of_nat PIPESIZE" using pcont_full room by auto
  have k: "killed p t = Ret 0 t" using killed_inside [OF Suc.prems(1,2)] Suc.prems(3) by simp
  have "pipewrite_loop pi p addr i (Suc k) t = pipewrite_loop pi p addr (Suc i) k ?t"
    using Suc.prems(4,6) nf k one by (simp add: pipe_put_def upd_pipe_def)
  also have "\<dots> = pipewrite_loop pi p addr (Suc i + k) 0
      (upd_pipe pi (fold pipe_put (ubytes (mem ?t) pt (addr + of_nat (Suc i)) k)) ?t)"
    by (rule Suc.IH) (use Suc.prems acc room in \<open>simp_all add: pcont_put\<close>)
  also have "\<dots> = pipewrite_loop pi p addr (i + Suc k) 0 (upd_pipe pi (fold pipe_put (ubytes ?m pt ?a (Suc k))) t)"
    by (simp add: us upd_pipe_upd_pipe comp_def)
  finally show ?case .
qed

section \<open>Writing\<close>

lemma woken_undo:
  "(woken cn p (upd_pipe pi f (acq l s)))\<lparr>csr := csr s, cpus := cpus s, locks := locks s\<rparr> = woken cn p (upd_pipe pi f s)"
  by (simp add: woken_def map_procs_def upd_pipe_def acq_def pushed_def cong: if_cong)

lemma woken_pipes [simp]: "pipes (woken cn p s) = pipes s" "mem (woken cn p s) = mem s"
  by (simp_all add: woken_def map_procs_def)

lemma acq_pipes [simp]: "pipes (acq l s) = pipes s"
  by (simp add: acq_def pushed_def)

lemma pipewrite_eq:
  assumes "calm p s" "p_killed (procs s p) = 0" "pi_readopen (pipes s pi)"
    and "wf_pt 2 e (mem s) pt" "pt = p_pagetable (procs s p)"
    and "uaccess (mem s) pt addr n" "length (pcont (pipes s pi)) + n \<le> PIPESIZE"
  shows "pipewrite pi addr (int n) s =
    Ret (int n) (woken (C_piperead pi) p (upd_pipe pi (fold pipe_put (ubytes (mem s) pt addr n)) s))"
proof -
  let ?l = "L_pipe pi" and ?f = "fold pipe_put (ubytes (mem s) pt addr n)"
  let ?t = "upd_pipe pi ?f (acq ?l s)"
  have m: "mach ?t = mach (acq ?l s)" by simp
  have w: "wakeup (Some (C_piperead pi)) ?t = Ret () (woken (C_piperead pi) p ?t)"
    by (rule calm_wakeup [OF assms(1) m]) simp
  have r: "release ?l (woken (C_piperead pi) p ?t) = Ret () (woken (C_piperead pi) p (upd_pipe pi ?f s))"
    using calm_release [OF assms(1), of "woken (C_piperead pi) p ?t" ?l] m by (simp add: woken_undo)
  have "pipewrite_loop pi p addr 0 n (acq ?l s) = pipewrite_loop pi p addr n 0 ?t"
    using pipewrite_loop_puts [OF assms(1), of "acq ?l s" pi e pt addr 0 n] assms by simp
  then show ?thesis
    by (simp add: pipewrite_def with_myproc_eq calmD [OF assms(1)] calm_acquire [OF assms(1)] w r)
qed

section \<open>Reading\<close>

lemma copied_Nil: "uspace e m pt \<Longrightarrow> copied e m pt va [] 0 m"
  by (simp add: copied_def uaccess_def in_range_def)

lemma uaccess_Suc: "uaccess m pt a (Suc n) \<longleftrightarrow> uaccess m pt a 1 \<and> uaccess m pt (a + 1) n"
proof -
  have "(\<forall>k<Suc n. P k) \<longleftrightarrow> P 0 \<and> (\<forall>k<n. P (Suc k))" for P by (auto simp: less_Suc_eq_0_disj)
  then show ?thesis by (simp add: uaccess_def algebra_simps)
qed

lemma copied_Cons:
  assumes "copied e m pt a [c] 0 m1" "copied e m1 pt (a + 1) bs 0 m2" "Suc (length bs) < 2 ^ 64"
  shows "copied e m pt a (c # bs) 0 m2"
proof -
  have ua: "uaddr m1 pt x = uaddr m pt x" "uaddr m2 pt x = uaddr m pt x" for x using assms(1,2) by (simp_all add: copied_def)
  have ac: "uaccess m pt a 1" "uaccess m pt (a + 1) (length bs)"
    using assms(1,2) ua by (simp_all add: copied_def uaccess_def split: if_splits)
  have b: "ubyte m2 pt x = (if in_range x a (length (c # bs)) then (c # bs) ! unat (x - a) else ubyte m pt x)"
    if nz: "uaddr m pt (PGROUNDDOWN x) \<noteq> 0" for x
  proof -
    have 1: "ubyte m1 pt x = (if in_range x a 1 then c else ubyte m pt x)"
      using assms(1) nz by (auto simp: copied_def in_range_def)
    have 2: "ubyte m2 pt x = (if in_range x (a + 1) (length bs) then bs ! unat (x - (a + 1)) else ubyte m1 pt x)"
      using assms(2) nz ua by (simp add: copied_def)
    note sp = in_range_split [of 1 "Suc (length bs)" x a, OF _ assms(3)]
    show ?thesis
    proof (cases "in_range x (a + 1) (length bs)")
      case True
      then show ?thesis using sp 2 by simp
    next
      case False
      have "in_range x a 1 \<Longrightarrow> unat (x - a) = 0" by (simp add: in_range_def)
      then show ?thesis using False sp(1) 1 2 by auto
    qed
  qed
  moreover have "m2 x = m x" if "\<forall>va. uaddr m pt va \<noteq> 0 \<longrightarrow> \<not> in_range x (uaddr m pt va) 4096" for x
    using assms(1,2) that ua by (simp add: copied_def)
  moreover have "uaccess m pt a (length (c # bs))" using ac uaccess_Suc [of m pt a "length bs"] by simp
  ultimately show ?thesis using assms(2) ua by (simp add: copied_def)
qed

lemma upd_pipe_mem: "(upd_pipe pi f s)\<lparr>mem := m\<rparr> = upd_pipe pi f (s\<lparr>mem := m\<rparr>)"
  by (simp add: upd_pipe_def)

lemma piperead_copy_gets:
  assumes "uspace e (mem t) pt" "pt = p_pagetable (procs t p)"
    and "j = min k (length (pcont (pipes t pi)))" "uaccess (mem t) pt (addr + of_nat i) j" "j < 2 ^ 63"
  shows "\<exists>m. piperead_copy pi p addr i k t = Ret (i + j) (upd_pipe pi (pipe_skip ^^ j) (t\<lparr>mem := m\<rparr>)) \<and>
    copied e (mem t) pt (addr + of_nat i) (take j (pcont (pipes t pi))) 0 m \<and>
    pcont ((pipe_skip ^^ j) (pipes t pi)) = drop j (pcont (pipes t pi))"
  using assms
proof (induction k arbitrary: i j t)
  case 0
  then show ?case using copied_Nil [of e "mem t" pt] by (auto simp: upd_pipe_def intro!: exI [of _ "mem t"])
next
  case (Suc k)
  show ?case
  proof (cases "pi_nread (pipes t pi) = pi_nwrite (pipes t pi)")
    case True
    then have "pcont (pipes t pi) = []" by (simp add: pcont_empty)
    then show ?thesis using True Suc.prems(1,3) copied_Nil [of e "mem t" pt]
      by (auto simp: upd_pipe_def intro!: exI [of _ "mem t"])
  next
    case False
    let ?x = "pipes t pi" and ?a = "addr + of_nat i" and ?t = "upd_pipe pi pipe_skip t"
    let ?c = "pi_data ?x (unat (pi_nread ?x) mod PIPESIZE)"
    note g = pcont_get [OF False]
    obtain j' where j: "j = Suc j'" "j' = min k (length (pcont (pipe_skip ?x)))" using Suc.prems(3) g by auto
    have ac: "uaccess (mem t) pt ?a 1" "uaccess (mem t) pt (?a + 1) j'" using Suc.prems(4) unfolding j(1) uaccess_Suc by simp_all

    obtain m1 where m1: "copyout_obj pt ?a [?c] ?t = Ret 0 (?t\<lparr>mem := m1\<rparr>)" "copied e (mem t) pt ?a [?c] 0 m1"
      using copyout_obj_ok [of e ?t pt "[?c]" ?a] Suc.prems(1) ac(1) by (auto simp: copied_def)
    let ?u = "?t\<lparr>mem := m1\<rparr>"
    have u: "uspace e (mem ?u) pt" "\<And>y n. uaccess (mem ?u) pt y n = uaccess (mem t) pt y n" "pipes ?u pi = pipe_skip ?x"
      using m1(2) by (simp_all add: copied_def uaccess_def upd_pipe_def)
    have ai: "addr + of_nat (Suc i) = ?a + 1" by simp
    obtain m where m: "piperead_copy pi p addr (Suc i) k ?u = Ret (Suc i + j') (upd_pipe pi (pipe_skip ^^ j') (?u\<lparr>mem := m\<rparr>))"
      "copied e (mem ?u) pt (?a + 1) (take j' (pcont (pipe_skip ?x))) 0 m"
      "pcont ((pipe_skip ^^ j') (pipe_skip ?x)) = drop j' (pcont (pipe_skip ?x))"
      using Suc.IH [of ?u j' "Suc i"] u ac(2) j Suc.prems(2,5) unfolding ai by auto
    have "piperead_copy pi p addr i (Suc k) t = Ret (i + j) (upd_pipe pi (pipe_skip ^^ j) (t\<lparr>mem := m\<rparr>))"
      using False m1(1) m(1) Suc.prems(2) j(1)
      by (simp add: Let_def upd_pipe_def pipe_skip_def funpow_Suc_right del: funpow.simps)
    moreover have "copied e (mem t) pt ?a (take j (pcont ?x)) 0 m"
      using copied_Cons [OF m1(2), of "take j' (pcont (pipe_skip ?x))" m] m(2) j(1) Suc.prems(5) g by simp
    moreover have "pcont ((pipe_skip ^^ j) ?x) = drop j (pcont ?x)"
      using m(3) g unfolding j(1) funpow_Suc_right by simp
    ultimately show ?thesis by blast
  qed
qed

lemma pipe_skip_fields [simp]:
  "pi_readopen ((pipe_skip ^^ j) x) = pi_readopen x" "pi_writeopen ((pipe_skip ^^ j) x) = pi_writeopen x"
  "pi_nwrite ((pipe_skip ^^ j) x) = pi_nwrite x"
  by (induction j) (simp_all add: pipe_skip_def)

lemma mem_upd_mach [simp]: "mach (s\<lparr>mem := m\<rparr>) = mach s"
  by (simp add: mach_def)

lemma woken_undo_mem:
  "(woken cn p (upd_pipe pi f ((acq l s)\<lparr>mem := m\<rparr>)))\<lparr>csr := csr s, cpus := cpus s, locks := locks s\<rparr> =
     woken cn p (upd_pipe pi f (s\<lparr>mem := m\<rparr>))"
  by (simp add: woken_def map_procs_def upd_pipe_def acq_def pushed_def cong: if_cong)

lemma piperead_eq:
  assumes "calm p s" "pcont (pipes s pi) \<noteq> [] \<or> \<not> pi_writeopen (pipes s pi)"
    and "uspace e (mem s) pt" "pt = p_pagetable (procs s p)"
    and "j = min n (length (pcont (pipes s pi)))" "uaccess (mem s) pt addr j" "n < 2 ^ 63"
  shows "\<exists>m. piperead pi addr (int n) s =
      Ret (int j) (woken (C_pipewrite pi) p (upd_pipe pi (pipe_skip ^^ j) (s\<lparr>mem := m\<rparr>))) \<and>
    copied e (mem s) pt addr (take j (pcont (pipes s pi))) 0 m \<and>
    pcont ((pipe_skip ^^ j) (pipes s pi)) = drop j (pcont (pipes s pi))"
proof -
  let ?l = "L_pipe pi" and ?f = "pipe_skip ^^ j"
  have j: "j < 2 ^ 63" using assms(5,7) by simp
  obtain m where m:
 "piperead_copy pi p addr 0 n (acq ?l s) = Ret j (upd_pipe pi ?f ((acq ?l s)\<lparr>mem := m\<rparr>))"
    "copied e (mem s) pt addr (take j (pcont (pipes s pi))) 0 m" "pcont (?f (pipes s pi)) = drop j (pcont (pipes s pi))"
    using piperead_copy_gets [of e "acq ?l s" pt p j n pi addr 0] assms(3-6) j by auto
  let ?t = "upd_pipe pi ?f ((acq ?l s)\<lparr>mem := m\<rparr>)"
  have mt: "mach ?t = mach (acq ?l s)" by simp
  have w: "wakeup (Some (C_pipewrite pi)) ?t = Ret () (woken (C_pipewrite pi) p ?t)"
    by (rule calm_wakeup [OF assms(1) mt]) simp
  have r: "release ?l (woken (C_pipewrite pi) p ?t) = Ret () (woken (C_pipewrite pi) p (upd_pipe pi ?f (s\<lparr>mem := m\<rparr>)))"
    using calm_release [OF assms(1), of "woken (C_pipewrite pi) p ?t" ?l] mt by (simp add: woken_undo_mem)
  have ne: "\<not> (pi_nread (pipes s pi) = pi_nwrite (pipes s pi) \<and> pi_writeopen (pipes s pi))"
    using assms(2) by (simp add: pcont_empty)
  have "piperead pi addr (int n) s = piperead_loop pi p addr (int n) (acq ?l s)"
    by (simp add: piperead_def with_myproc_eq calmD [OF assms(1)] calm_acquire [OF assms(1)])
  also have "\<dots> = Ret (int j) (woken (C_pipewrite pi) p (upd_pipe pi ?f (s\<lparr>mem := m\<rparr>)))"
    unfolding piperead_loop_def using ne by (auto simp: m(1) w r)
  finally show ?thesis using m by blast
qed

lemma copied_ubytes:
  assumes "copied e m pt a bs 0 m'" "length bs < 2 ^ 64"
  shows "ubytes m' pt a (length bs) = bs"
proof (rule nth_equalityI)
  fix i assume "i < length (ubytes m' pt a (length bs))"
  then have i: "i < length bs" by (simp add: ubytes_def)
  then have ui: "unat (of_nat i :: uint64) = i" using assms(2) by (intro unat_of_nat_small) simp
  have "uaddr m pt (PGROUNDDOWN (a + of_nat i)) \<noteq> 0"
    using assms(1) i by (simp add: copied_def uaccess_def split: if_splits)
  then show "ubytes m' pt a (length bs) ! i = bs ! i"
    using assms(1) i ui by (simp add: copied_def ubytes_def in_range_def)
qed (simp add: ubytes_def)

section \<open>The pipe as a queue\<close>

text \<open>
  C19: writing to a pipe appends.  When process \<open>p\<close>, not killed, writes \<open>n\<close> accessible bytes of
  its memory to a pipe whose read end is open and which has room for them, the call returns
  \<open>n\<close>, the bytes follow what was in the pipe before, also when the 32-bit indices wrap around,
  no user memory and no other pipe changes, and every reader that sleeps on the pipe is
  runnable.
\<close>

theorem pipewrite_appends:
  assumes "calm p s" "p_killed (procs s p) = 0" "pi_readopen (pipes s pi)"
    and "wf_pt 2 e (mem s) (p_pagetable (procs s p))" "uaccess (mem s) (p_pagetable (procs s p)) addr n"
    and "length (pcont (pipes s pi)) + n \<le> PIPESIZE"
  shows "\<exists>t. pipewrite pi addr (int n) s = Ret (int n) t \<and>
    pcont (pipes t pi) = pcont (pipes s pi) @ ubytes (mem s) (p_pagetable (procs s p)) addr n \<and>
    mem t = mem s \<and> (\<forall>pj. pj \<noteq> pi \<longrightarrow> pipes t pj = pipes s pj) \<and>
    (\<forall>q<NPROC. q \<noteq> p \<longrightarrow> p_state (procs s q) = SLEEPING \<longrightarrow> p_chan (procs s q) = Some (C_piperead pi) \<longrightarrow>
       p_state (procs t q) = RUNNABLE)"
proof -
  have "length (ubytes (mem s) (p_pagetable (procs s p)) addr n) = n" by (simp add: ubytes_def)
  then show ?thesis using pipewrite_eq [OF assms(1-4) refl assms(5,6)] assms(6)
    by (simp add: pcont_puts woken_def map_procs_def)
qed

text \<open>
  C20: reading from a pipe takes from the front.  If the pipe has contents, or its write end is
  closed, a read of \<open>n\<close> bytes into accessible memory returns the smaller of \<open>n\<close> and the number
  of bytes in the pipe (0 at end of file), stores exactly these bytes from the front of the
  pipe at the destination, leaves every other byte of the user's memory alone, and leaves
  the rest of the contents in the pipe.
\<close>

theorem piperead_takes:
  assumes "calm p s" "pcont (pipes s pi) \<noteq> [] \<or> \<not> pi_writeopen (pipes s pi)"
    and "uspace e (mem s) (p_pagetable (procs s p))" "n < 2 ^ 63"
    and "j = min n (length (pcont (pipes s pi)))" "uaccess (mem s) (p_pagetable (procs s p)) addr j"
  shows "\<exists>t. piperead pi addr (int n) s = Ret (int j) t \<and>
    ubytes (mem t) (p_pagetable (procs s p)) addr j = take j (pcont (pipes s pi)) \<and>
    pcont (pipes t pi) = drop j (pcont (pipes s pi)) \<and> (\<forall>pj. pj \<noteq> pi \<longrightarrow> pipes t pj = pipes s pj) \<and>
    (\<forall>x. uaddr (mem s) (p_pagetable (procs s p)) (PGROUNDDOWN x) \<noteq> 0 \<longrightarrow> \<not> in_range x addr j \<longrightarrow>
       ubyte (mem t) (p_pagetable (procs s p)) x = ubyte (mem s) (p_pagetable (procs s p)) x)"
proof -
  let ?pt = "p_pagetable (procs s p)" and ?c = "pcont (pipes s pi)"
  obtain m where m: "piperead pi addr (int n) s =
      Ret (int j) (woken (C_pipewrite pi) p (upd_pipe pi (pipe_skip ^^ j) (s\<lparr>mem := m\<rparr>)))"
    "copied e (mem s) ?pt addr (take j ?c) 0 m" "pcont ((pipe_skip ^^ j) (pipes s pi)) = drop j ?c"
    using piperead_eq [OF assms(1-3) refl assms(5,6,4)] by blast
  have j: "length (take j ?c) = j" "j < 2 ^ 64" using assms(4,5) by auto
  have "ubytes m ?pt addr j = take j ?c" using copied_ubytes [OF m(2)] j by simp
  moreover have "ubyte m ?pt x = ubyte (mem s) ?pt x" if "uaddr (mem s) ?pt (PGROUNDDOWN x) \<noteq> 0" "\<not> in_range x addr j" for x
    using m(2) that j by (simp add: copied_def)
  ultimately show ?thesis using m by simp
qed

text \<open>A process with one page of memory and a pipe whose indices are about to wrap around.\<close>

definition pipe_demo :: "byte list \<Rightarrow> flstate" where
  "pipe_demo bs = (file_boot (\<lambda>_ _. 0) ())\<lparr>mem := one_page_mem, procs := (\<lambda>_. zero_proc\<lparr>p_pagetable := 0x80201000\<rparr>),
     pipes := (\<lambda>_. fold pipe_put bs \<lparr>pi_data = (\<lambda>_. 0), pi_nread = -2, pi_nwrite = -2, pi_readopen = True, pi_writeopen = True\<rparr>)\<rparr>"

lemma pipe_demo_simps [simp]:
  "mem (pipe_demo bs) = one_page_mem" "p_pagetable (procs (pipe_demo bs) p) = 0x80201000"
  "p_killed (procs (pipe_demo bs) p) = 0" "pi_readopen (pipes (pipe_demo bs) pi) = True"
  "pi_writeopen (pipes (pipe_demo bs) pi) = True"
  by (simp_all add: pipe_demo_def zero_proc_def)

lemma pipe_demo_calm: "calm 0 (pipe_demo bs)"
proof -
  have m: "mach (pipe_demo bs) = mach (file_boot (\<lambda>_ _. 0) ())" by (simp add: pipe_demo_def mach_def)
  show ?thesis unfolding calm_cong [OF m] by (rule file_boot_calm)
qed

lemma pipe_demo_cont: "length bs \<le> PIPESIZE \<Longrightarrow> pcont (pipes (pipe_demo bs) pi) = bs"
proof -
  let ?x = "\<lparr>pi_data = (\<lambda>_. 0), pi_nread = -2, pi_nwrite = -2, pi_readopen = True, pi_writeopen = True\<rparr>"
  assume "length bs \<le> PIPESIZE"
  moreover have e: "pcont ?x = []" by (simp add: pcont_def)
  ultimately have "pcont (fold pipe_put bs ?x) = bs" using pcont_puts [of ?x bs] by simp
  then show ?thesis by (simp add: pipe_demo_def)
qed
lemma pipe_demo_access: "k \<le> 4 \<Longrightarrow> uaccess one_page_mem 0x80201000 16 k"
proof -
  assume k: "k \<le> 4"
  have "uaddr one_page_mem 0x80201000 (PGROUNDDOWN (16 + of_nat i)) \<noteq> 0" if "i < 4" for i
  proof -
    have "i = 0 \<or> i = 1 \<or> i = 2 \<or> i = 3" using that by linarith
    then show ?thesis unfolding one_page_uspace(1) by (auto simp: PGROUNDDOWN_def PGSIZE_def MAXVA_def)
  qed
  then show ?thesis using k by (simp add: uaccess_def)

qed

theorem pipewrite_appends_witness:
  "\<exists>t. pipewrite 7 16 (int 4) (pipe_demo [1, 2]) = Ret (int 4) t \<and>
    pcont (pipes t 7) = [1, 2] @ ubytes one_page_mem 0x80201000 16 4"
  using pipewrite_appends [of 0 "pipe_demo [1, 2]" 7 "0x80021d60" 16 4]
  by (simp add: pipe_demo_calm pipe_demo_cont pipe_demo_access PIPESIZE_def one_page_uspace(2) [unfolded uspace_def]) metis

theorem piperead_takes_witness:
  "\<exists>t. piperead 7 16 (int 8) (pipe_demo [1, 2, 3]) = Ret (int 3) t \<and>
    ubytes (mem t) 0x80201000 16 3 = [1, 2, 3] \<and> pcont (pipes t 7) = []"
  using piperead_takes [of 0 "pipe_demo [1, 2, 3]" 7 "0x80021d60" 8 3 16]
  by (simp add: pipe_demo_calm pipe_demo_cont pipe_demo_access PIPESIZE_def one_page_uspace(2)) metis

end
