(* ===== verification/Consspec.thy ===== *)
theory Consspec
  imports File
begin

text \<open>
  The console and the UART against their specifications: the interrupt handler implements a line
  editor, and the transmit ring is a queue that \<open>uartstart\<close> sends from in order.
\<close>

interpretation uart_ring: ring UART_TX_BUF_SIZE "0 :: uint64"
  by unfold_locales (simp_all add: UART_TX_BUF_SIZE_def)

interpretation cons_ring: ring INPUT_BUF_SIZE "0 :: uint"
  by unfold_locales (simp_all add: INPUT_BUF_SIZE_def)

section \<open>Synchronous output\<close>

definition send_dev :: "byte \<Rightarrow> uart_dev \<Rightarrow> uart_dev" where
  "send_dev c d = (let d = (if ud_room d = 0 then d\<lparr>ud_room := 1\<rparr> else d)
     in d\<lparr>ud_out := ud_out d @ [c], ud_room := ud_room d - 1\<rparr>)"

definition emit :: "byte list \<Rightarrow> 'z ustate_scheme \<Rightarrow> 'z ustate_scheme" where
  "emit bs s = s\<lparr>udev := fold send_dev bs (udev s)\<rparr>"

lemma send_dev_out [simp]: "ud_out (send_dev c d) = ud_out d @ [c]" "ud_in (send_dev c d) = ud_in d"
  by (simp_all add: send_dev_def Let_def)

lemma fold_send_dev [simp]: "ud_out (fold send_dev bs d) = ud_out d @ bs" "ud_in (fold send_dev bs d) = ud_in d"
  by (induction bs arbitrary: d) simp_all

lemma emit_emit: "emit cs (emit bs s) = emit (bs @ cs) s"
  by (simp add: emit_def)

lemma emit_Nil [simp]: "emit [] s = s"
  by (simp add: emit_def)

lemma emit_fields [simp]:
  "mach (emit bs s) = mach s" "procs (emit bs s) = procs s" "panicked (emit bs s) = panicked s"
  "cons_buf (emit bs s) = cons_buf s" "cons_r (emit bs s) = cons_r s" "cons_w (emit bs s) = cons_w s"
  "cons_e (emit bs s) = cons_e s" "ud_out (udev (emit bs s)) = ud_out (udev s) @ bs" "ud_in (udev (emit bs s)) = ud_in (udev s)"
  by (simp_all add: emit_def mach_def)

lemma uartputc_sync_eq:
  assumes "cpu_ok s" "touch s = s" "\<not> panicked s"
  shows "uartputc_sync c s = Ret () (emit [c] s)"
proof -
  let ?u = "emit [c] s"
  have m: "mach ?u = mach s" by simp
  have e: "write_THR c (await_TX_IDLE (pushed s)) = pushed ?u"
    by (simp add: write_THR_def await_TX_IDLE_def pushed_def emit_def send_dev_def intr_get_def Let_def)
  have ok: "cpu_ok ?u" using assms(1) mach_cong(1) [OF m] by simp
  have "pop_off (pushed ?u) = Ret () (popped (pushed ?u))"
    using cpu_ok_pushed [OF ok] ok by (intro pop_off_eq) (auto simp: cpu_ok_def)
  moreover have "touch ?u = emit [c] (touch s)" by (simp add: touch_def emit_def intr_get_def)
  ultimately have "pop_off (pushed ?u) = Ret () ?u" using popped_pushed [OF ok] assms(2) by simp
  moreover have "\<not> panicked (pushed s)" using assms(3) by (simp add: pushed_def)
  ultimately show ?thesis using assms(1) e by (simp add: uartputc_sync_def push_off_eq)
qed

definition erase :: "byte list" where "erase = [8, 32, 8]"

lemma consputc_eq:
  assumes "cpu_ok s" "touch s = s" "\<not> panicked s"
  shows "consputc c s = Ret () (emit (if c = BACKSPACE then erase else [of_int c]) s)"
proof -
  have k: "cpu_ok (emit bs s)" "touch (emit bs s) = emit bs s" "\<not> panicked (emit bs s)" for bs
  proof -
    show "cpu_ok (emit bs s)" "\<not> panicked (emit bs s)" using assms mach_cong(1) [of "emit bs s" s] by simp_all
    have "touch (emit bs s) = emit bs (touch s)" by (simp add: touch_def emit_def intr_get_def)
    then show "touch (emit bs s) = emit bs s" using assms(2) by simp
  qed
  show ?thesis by (simp add: consputc_def uartputc_sync_eq k assms emit_emit erase_def)
qed

section \<open>The line editor\<close>

text \<open>
  The specification: the bytes ready for readers, the line being edited, and what has been
  echoed.  A line becomes ready with a newline, with control-D, or when the buffer is full.
\<close>

type_synonym editor = "byte list \<times> byte list \<times> byte list"

fun editor_key :: "int \<Rightarrow> editor \<Rightarrow> editor" where
  "editor_key c (ready, line, out) =
     (if c = ctrl CHR ''U'' then
        let k = length (takeWhile (\<lambda>x. x \<noteq> 10) (rev line))
        in (ready, take (length line - k) line, out @ concat (replicate k erase))
      else if c = ctrl CHR ''H'' \<or> c = 0x7f then
        (ready, butlast line, if line = [] then out else out @ erase)
      else if c \<noteq> 0 \<and> length ready + length line < INPUT_BUF_SIZE then
        let b = (if c = 13 then 10 else of_int c); line = line @ [b] in
        if c = 13 \<or> c = 10 \<or> c = ctrl CHR ''D'' \<or> length ready + length line = INPUT_BUF_SIZE
        then (ready @ line, [], out @ [b]) else (ready, line, out @ [b])
      else (ready, line, out))"

definition cready :: "'z ustate_scheme \<Rightarrow> byte list" where
  "cready s = rlist INPUT_BUF_SIZE (cons_buf s) (cons_r s) (cons_w s)"

definition cline :: "'z ustate_scheme \<Rightarrow> byte list" where
  "cline s = rlist INPUT_BUF_SIZE (cons_buf s) (cons_w s) (cons_e s)"

definition cons_wf :: "'z ustate_scheme \<Rightarrow> bool" where
  "cons_wf s \<longleftrightarrow> length (cready s) + length (cline s) \<le> INPUT_BUF_SIZE"

definition editor_of :: "'z ustate_scheme \<Rightarrow> editor" where
  "editor_of s = (cready s, cline s, ud_out (udev s))"

lemma cons_lengths:
  assumes "cons_wf s"
  shows "unat (cons_e s - cons_r s) = length (cready s) + length (cline s)"
proof -
  let ?a = "cons_w s - cons_r s" and ?b = "cons_e s - cons_w s"
  have e: "cons_e s - cons_r s = ?a + ?b" by simp
  have "unat ?a + unat ?b < 2 ^ 32" using assms by (simp add: cons_wf_def cready_def cline_def INPUT_BUF_SIZE_def)
  then have "unat (?a + ?b) = unat ?a + unat ?b" by (subst unat_word_ariths) simp
  then show ?thesis unfolding e by (simp add: cready_def cline_def)
qed

lemma cline_empty: "cline s = [] \<longleftrightarrow> cons_e s = cons_w s"
proof -
  have "cline s = [] \<longleftrightarrow> unat (cons_e s - cons_w s) = 0" by (simp add: cline_def rlist_def)
  also have "\<dots> \<longleftrightarrow> cons_e s - cons_w s = 0" by (simp only: unat_eq_0)
  finally show ?thesis by auto
qed

lemma cline_last:
  assumes "cons_e s \<noteq> cons_w s"
  shows "cline s = cline (s\<lparr>cons_e := cons_e s - 1\<rparr>) @ [cons_buf s (unat (cons_e s - 1) mod INPUT_BUF_SIZE)]"
  using cons_ring.unput [of "cons_w s" "cons_e s" "cons_buf s"] assms by (simp add: cline_def rget_def)

lemma cons_fields [simp]:
  "cready (emit bs s) = cready s" "cline (emit bs s) = cline s" "cready (s\<lparr>cons_e := x\<rparr>) = cready s"
  "mach (s\<lparr>cons_e := x\<rparr>) = mach s"
  by (simp_all add: cready_def cline_def mach_def)

text \<open>The situation in the handler, with the console lock held.\<close>

definition in_cons :: "nat \<Rightarrow> 'z ustate_scheme \<Rightarrow> 'z ustate_scheme \<Rightarrow> bool" where
  "in_cons p s t \<longleftrightarrow> calm p s \<and> mach t = mach (acq L_cons s) \<and> \<not> panicked t"

lemma in_consD:
  assumes "in_cons p s t"
  shows "consputc c t = Ret () (emit (if c = BACKSPACE then erase else [of_int c]) t)"
    "wakeup (Some C_cons) t = Ret () (woken C_cons p t)"
proof -
  have a: "calm p s" "mach t = mach (acq L_cons s)" "\<not> panicked t" using assms by (simp_all add: in_cons_def)
  note i = calm_inside [OF a(1,2)]
  show "consputc c t = Ret () (emit (if c = BACKSPACE then erase else [of_int c]) t)" by (rule consputc_eq [OF i(1,2) a(3)])
  show "wakeup (Some C_cons) t = Ret () (woken C_cons p t)" by (rule calm_wakeup [OF a(1,2)]) simp
qed

lemma in_cons_keep: "in_cons p s t \<Longrightarrow> mach u = mach t \<Longrightarrow> panicked u = panicked t \<Longrightarrow> in_cons p s u"
  by (simp add: in_cons_def)

lemma kill_line_eq:
  assumes "in_cons p s t" "n = length (cline t)" "k = length (takeWhile (\<lambda>x. x \<noteq> 10) (rev (cline t)))"
  shows "\<exists>u. kill_line n t = Ret () u \<and> in_cons p s u \<and> cready u = cready t \<and> cline u = take (length (cline t) - k) (cline t) \<and>
    udev u = udev (emit (concat (replicate k erase)) t)"
  using assms
proof (induction n arbitrary: t k)
  case 0
  then have e: "cline t = []" by simp
  then have "cons_e t = cons_w t" by (simp only: cline_empty)
  then show ?case using 0 e by simp
next
  case (Suc n)
  have ne: "cons_e t \<noteq> cons_w t" using Suc.prems(2) cline_empty [of t] by auto
  let ?c = "cons_buf t (unat (cons_e t - 1) mod INPUT_BUF_SIZE)" and ?t = "t\<lparr>cons_e := cons_e t - 1\<rparr>"
  note l = cline_last [OF ne]
  show ?case
  proof (cases "?c = 10")
    case True
    then show ?thesis using Suc.prems l by simp
  next
    case False
    let ?v = "emit erase ?t"
    have v: "in_cons p s ?t" "in_cons p s ?v" using Suc.prems(1) by (simp_all add: in_cons_def)
    obtain k' where k: "k = Suc k'" "k' = length (takeWhile (\<lambda>x. x \<noteq> 10) (rev (cline ?v)))"
      using Suc.prems(3) l False by simp
    have n: "n = length (cline ?v)" using Suc.prems(2) l by simp
    obtain u where u: "kill_line n ?v = Ret () u" "in_cons p s u" "cready u = cready ?v"
      "cline u = take (length (cline ?v) - k') (cline ?v)" "udev u = udev (emit (concat (replicate k' erase)) ?v)"
      using Suc.IH [OF v(2) n k(2)] by blast
    have "kill_line (Suc n) t = Ret () u" using ne False in_consD(1) [OF v(1)] u(1) by simp
    moreover have "udev u = udev (emit (concat (replicate k erase)) t)" unfolding u(5) emit_emit k(1) by (simp add: emit_def)
    moreover have "cline u = take (length (cline t) - k) (cline t)" using u(4) k(1) by (subst (1 2) l) simp
    ultimately show ?thesis using u(2,3) by auto
  qed
qed

lemma cline_put:
  assumes "cons_wf t" "length (cready t) + length (cline t) < INPUT_BUF_SIZE"
    and u_def: "u = t\<lparr>cons_buf := (cons_buf t)(unat (cons_e t) mod INPUT_BUF_SIZE := c), cons_e := cons_e t + 1\<rparr>"
  shows "cready u = cready t" "cline u = cline t @ [c]"
    "rlist INPUT_BUF_SIZE (cons_buf u) (cons_r u) (cons_e u) = cready t @ cline t @ [c]"
proof -
  have l: "unat (cons_e t - cons_w t) < INPUT_BUF_SIZE" "unat (cons_e t - cons_r t) < INPUT_BUF_SIZE"
    using assms(2) cons_lengths [OF assms(1)] by (simp_all add: cline_def cready_def)
  have sp: "rlist INPUT_BUF_SIZE (cons_buf t) (cons_r t) (cons_e t) = cready t @ cline t"
    unfolding cready_def cline_def using cons_lengths [OF assms(1)] by (intro cons_ring.split) (simp add: cready_def cline_def)
  show 1: "cline u = cline t @ [c]"
    using cons_ring.put [OF l(1), of c "cons_buf t"] by (simp add: u_def cline_def rput_def)
  show 2: "rlist INPUT_BUF_SIZE (cons_buf u) (cons_r u) (cons_e u) = cready t @ cline t @ [c]"
    using cons_ring.put [OF l(2), of c "cons_buf t"] sp by (simp add: u_def rput_def)
  have len: "length (cready u) = length (cready t)" by (simp add: u_def cready_def)
  have tot: "unat (cons_e u - cons_r u) = unat (cons_w u - cons_r u) + unat (cons_e u - cons_w u)"
    using arg_cong [OF 1, of length] arg_cong [OF 2, of length] len by (simp add: cline_def cready_def)
  have "rlist INPUT_BUF_SIZE (cons_buf u) (cons_r u) (cons_e u) = cready u @ cline u"
    unfolding cready_def cline_def by (rule cons_ring.split) (simp add: tot)
  then show "cready u = cready t" using 1 2 by simp
qed

lemma ctrl_simps: "ctrl CHR ''P'' = 16" "ctrl CHR ''U'' = 21" "ctrl CHR ''H'' = 8" "ctrl CHR ''D'' = 4"
  by (simp_all add: ctrl_def)

lemma editor_of_cong:
  "cons_buf u = cons_buf t \<Longrightarrow> cons_r u = cons_r t \<Longrightarrow> cons_w u = cons_w t \<Longrightarrow> cons_e u = cons_e t \<Longrightarrow>
   ud_out (udev u) = ud_out (udev t) \<Longrightarrow> editor_of u = editor_of t \<and> cons_wf u = cons_wf t"
  by (simp add: editor_of_def cons_wf_def cready_def cline_def)

lemma key_erase:
  assumes "in_cons p s t" "cons_wf t" "cons_e t \<noteq> cons_w t"
  shows "\<exists>u. consputc BACKSPACE (t\<lparr>cons_e := cons_e t - 1\<rparr>) = Ret () u \<and> in_cons p s u \<and> cons_wf u \<and>
    editor_of u = (cready t, butlast (cline t), ud_out (udev t) @ erase)"
proof -
  let ?t = "t\<lparr>cons_e := cons_e t - 1\<rparr>"
  have i: "in_cons p s ?t" using assms(1) by (rule in_cons_keep) simp_all
  have "butlast (cline t) = cline ?t" by (subst cline_last [OF assms(3)]) simp
  moreover have "length (cline ?t) \<le> length (cline t)" using calculation by (metis length_butlast diff_le_self)
  moreover have "in_cons p s (emit erase ?t)" using i by (rule in_cons_keep) simp_all
  ultimately show ?thesis using in_consD(1) [OF i, of BACKSPACE] assms(2)
    by (simp add: editor_of_def cons_wf_def)
qed

lemma key_store:
  assumes i: "in_cons p s t" and wf: "cons_wf t" and room: "length (cready t) + length (cline t) < INPUT_BUF_SIZE"
    and c: "0 \<le> c" "c < 256"
  defines "b \<equiv> of_int c :: byte"
  defines "u \<equiv> (emit [b] t)\<lparr>cons_buf := (cons_buf t)(unat (cons_e t) mod INPUT_BUF_SIZE := b), cons_e := cons_e t + 1\<rparr>"
  shows "consputc c t = Ret () (emit [b] t)" "in_cons p s u" "cons_wf u"
    "editor_of u = (cready t, cline t @ [b], ud_out (udev t) @ [b])"
    "unat (cons_e u - cons_r u) = length (cready t) + length (cline t) + 1"
    "wakeup (Some C_cons) (u\<lparr>cons_w := cons_e u\<rparr>) = Ret () (woken C_cons p (u\<lparr>cons_w := cons_e u\<rparr>))"
    "in_cons p s (woken C_cons p (u\<lparr>cons_w := cons_e u\<rparr>))"
    "editor_of (woken C_cons p (u\<lparr>cons_w := cons_e u\<rparr>)) = (cready t @ cline t @ [b], [], ud_out (udev t) @ [b])"
proof -
  show "consputc c t = Ret () (emit [b] t)" using in_consD(1) [OF i, of c] c by (simp add: BACKSPACE_def b_def)
  show iu: "in_cons p s u" using i by (rule in_cons_keep) (simp_all add: u_def mach_def emit_def)
  have wf': "cons_wf (emit [b] t)" using wf by (simp add: cons_wf_def)
  have ru: "length (cready (emit [b] t)) + length (cline (emit [b] t)) < INPUT_BUF_SIZE" using room by simp
  have ue: "u = (emit [b] t)\<lparr>cons_buf := (cons_buf (emit [b] t))(unat (cons_e (emit [b] t)) mod INPUT_BUF_SIZE := b),
      cons_e := cons_e (emit [b] t) + 1\<rparr>" by (simp add: u_def)
  note p = cline_put [OF wf' ru ue, unfolded cons_fields]
  show wu: "cons_wf u" using p(1,2) room by (simp add: cons_wf_def)
  show "editor_of u = (cready t, cline t @ [b], ud_out (udev t) @ [b])" using p(1,2) by (simp add: editor_of_def u_def)
  show "unat (cons_e u - cons_r u) = length (cready t) + length (cline t) + 1" using cons_lengths [OF wu] p(1,2) by simp
  let ?v = "u\<lparr>cons_w := cons_e u\<rparr>"
  have iv: "in_cons p s ?v" using iu by (rule in_cons_keep) (simp_all add: mach_def)
  show "wakeup (Some C_cons) ?v = Ret () (woken C_cons p ?v)" by (rule in_consD(2) [OF iv])
  have w: "cons_buf (woken C_cons p ?v) = cons_buf u" "cons_r (woken C_cons p ?v) = cons_r u" "cons_w (woken C_cons p ?v) = cons_e u"
    "cons_e (woken C_cons p ?v) = cons_e u" "udev (woken C_cons p ?v) = udev u" "panicked (woken C_cons p ?v) = panicked ?v"
    by (simp_all add: woken_def map_procs_def)
  show "in_cons p s (woken C_cons p ?v)" using iv by (rule in_cons_keep) (simp_all add: w)
  show "editor_of (woken C_cons p ?v) = (cready t @ cline t @ [b], [], ud_out (udev t) @ [b])"
    using p(3) by (simp add: editor_of_def cready_def cline_def w) (simp add: u_def)
qed

text \<open>The handler between \<open>acquire\<close> and \<open>release\<close>.\<close>

definition cons_key :: "int \<Rightarrow> 'z ustate_scheme \<Rightarrow> ('z ustate_scheme, unit) outcome" where
  "cons_key c s =
     (if c = ctrl CHR ''U'' then kill_line (unat (cons_e s - cons_w s)) s
      else if c = ctrl CHR ''H'' \<or> c = 0x7f then
        (if cons_e s \<noteq> cons_w s then consputc BACKSPACE (s\<lparr>cons_e := cons_e s - 1\<rparr>) else Ret () s)
      else if c \<noteq> 0 \<and> unat (cons_e s - cons_r s) < INPUT_BUF_SIZE then
        let c = (if c = 13 then 10 else c) in
        bnd (consputc c s) (\<lambda>_ s.
          let s = s\<lparr>cons_buf := (cons_buf s)(unat (cons_e s) mod INPUT_BUF_SIZE := of_int c), cons_e := cons_e s + 1\<rparr> in
          if c = 10 \<or> c = ctrl CHR ''D'' \<or> unat (cons_e s - cons_r s) = INPUT_BUF_SIZE
          then wakeup (Some C_cons) (s\<lparr>cons_w := cons_e s\<rparr>)
          else Ret () s)
      else Ret () s)"

lemma consoleintr_key:
  "c \<noteq> ctrl CHR ''P'' \<Longrightarrow> consoleintr pol c s = bnd (acquire L_cons s) (\<lambda>_ s. bnd (cons_key c s) (\<lambda>_ s. release L_cons s))"
  by (simp add: consoleintr_def cons_key_def)

lemma cons_key_edits:
  assumes "in_cons p s t" "cons_wf t" "0 \<le> c" "c < 256"
  shows "\<exists>u. cons_key c t = Ret () u \<and> in_cons p s u \<and> cons_wf u \<and> editor_of u = editor_key c (editor_of t)"
proof -
  consider (kill) "c = 21" | (erase) "c = 8 \<or> c = 0x7f"
    | (store) "c \<noteq> 21" "c \<noteq> 8" "c \<noteq> 0x7f" "c \<noteq> 0" "length (cready t) + length (cline t) < INPUT_BUF_SIZE"
    | (drop) "c \<noteq> 21" "c \<noteq> 8" "c \<noteq> 0x7f" "\<not> (c \<noteq> 0 \<and> length (cready t) + length (cline t) < INPUT_BUF_SIZE)" by blast
  then show ?thesis
  proof cases
    case kill
    obtain u where u: "kill_line (length (cline t)) t = Ret () u" "in_cons p s u" "cready u = cready t"
      "cline u = take (length (cline t) - length (takeWhile (\<lambda>x. x \<noteq> 10) (rev (cline t)))) (cline t)"
      "udev u = udev (emit (concat (replicate (length (takeWhile (\<lambda>x. x \<noteq> 10) (rev (cline t)))) erase)) t)"
      using kill_line_eq [OF assms(1) refl refl] by blast
    have "cons_key c t = Ret () u" using u(1) kill by (simp add: cons_key_def ctrl_simps cline_def)
    moreover have "cons_wf u" using assms(2) u(3,4) by (simp add: cons_wf_def)
    moreover have "editor_of u = editor_key c (editor_of t)" using u(3-5) kill by (simp add: editor_of_def ctrl_simps Let_def)
    ultimately show ?thesis using u(2) by blast
  next
    case erase
    then have e: "cons_key c t = (if cons_e t \<noteq> cons_w t then consputc BACKSPACE (t\<lparr>cons_e := cons_e t - 1\<rparr>) else Ret () t)"
      by (auto simp: cons_key_def ctrl_simps)
    show ?thesis
    proof (cases "cons_e t = cons_w t")
      case True
      then have "cline t = []" by (simp only: cline_empty)
      then show ?thesis using True e erase assms by (auto simp: editor_of_def ctrl_simps)
    next
      case False
      then have "cline t \<noteq> []" by (simp only: cline_empty) simp
      then show ?thesis using False e erase key_erase [OF assms(1,2) False] by (auto simp: editor_of_def ctrl_simps)
    qed
  next
    case store
    define d where "d = (if c = 13 then 10 else c)"
    have d: "0 \<le> d" "d < 256" using assms(3,4) by (simp_all add: d_def)
    have len: "unat (cons_e t - cons_r t) < INPUT_BUF_SIZE" using cons_lengths [OF assms(2)] store by simp
    note k = key_store [OF assms(1,2) store(5) d]
    let ?b = "of_int d :: byte" and ?n = "length (cready t) + length (cline t) + 1"
    let ?u = "(emit [?b] t)\<lparr>cons_buf := (cons_buf t)(unat (cons_e t) mod INPUT_BUF_SIZE := ?b), cons_e := cons_e t + 1\<rparr>"
    have b: "?b = (if c = 13 then 10 else of_int c)" by (simp add: d_def)
    have "cons_key c t = (if d = 10 \<or> d = 4 \<or> ?n = INPUT_BUF_SIZE
        then wakeup (Some C_cons) (?u\<lparr>cons_w := cons_e ?u\<rparr>) else Ret () ?u)"
      using store len k(1,5) by (simp add: cons_key_def ctrl_simps d_def [symmetric] Let_def)
    then have run: "cons_key c t = Ret () (if d = 10 \<or> d = 4 \<or> ?n = INPUT_BUF_SIZE
        then woken C_cons p (?u\<lparr>cons_w := cons_e ?u\<rparr>) else ?u)" using k(6) by simp
    have eds: "(d = 10 \<or> d = 4 \<or> ?n = INPUT_BUF_SIZE) = (c = 13 \<or> c = 10 \<or> c = 4 \<or> ?n = INPUT_BUF_SIZE)" by (auto simp: d_def)
    have "editor_key c (editor_of t) = (if d = 10 \<or> d = 4 \<or> ?n = INPUT_BUF_SIZE
        then (cready t @ cline t @ [?b], [], ud_out (udev t) @ [?b]) else (cready t, cline t @ [?b], ud_out (udev t) @ [?b]))"
      unfolding eds b using store by (simp add: editor_of_def ctrl_simps Let_def)
    moreover have "cons_wf (woken C_cons p (?u\<lparr>cons_w := cons_e ?u\<rparr>))"
      using k(8) store(5) by (simp add: editor_of_def cons_wf_def)
    ultimately show ?thesis using run k(2,3,4,7,8) by (auto split: if_splits)
  next
    case drop
    then have "cons_key c t = Ret () t" using cons_lengths [OF assms(2)] by (auto simp: cons_key_def ctrl_simps)
    then show ?thesis using drop assms(1,2) by (auto simp: editor_of_def ctrl_simps)
  qed
qed

lemma consoleintr_edits:
  assumes "calm p s" "cons_wf s" "\<not> panicked s" "0 \<le> c" "c < 256" "c \<noteq> ctrl CHR ''P''"
  shows "\<exists>t. consoleintr pol c s = Ret () t \<and> calm p t \<and> cons_wf t \<and> \<not> panicked t \<and>
    editor_of t = editor_key c (editor_of s)"
proof -
  let ?a = "acq L_cons s"
  have f: "cons_buf ?a = cons_buf s" "cons_r ?a = cons_r s" "cons_w ?a = cons_w s" "cons_e ?a = cons_e s" "udev ?a = udev s"
    "panicked ?a = panicked s" by (simp_all add: acq_def pushed_def)
  have ea: "editor_of ?a = editor_of s" "cons_wf ?a = cons_wf s" using editor_of_cong [of ?a s] f by simp_all
  have i: "in_cons p s ?a" using assms(1,3) f by (simp add: in_cons_def)
  obtain u where u: "cons_key c ?a = Ret () u" "in_cons p s u" "cons_wf u" "editor_of u = editor_key c (editor_of s)"
    using cons_key_edits [OF i _ assms(4,5)] assms(2) ea by auto
  have mu: "mach u = mach ?a" "\<not> panicked u" using u(2) by (simp_all add: in_cons_def)
  let ?t = "u\<lparr>csr := csr s, cpus := cpus s, locks := locks s\<rparr>"
  have r: "release L_cons u = Ret () ?t" by (rule calm_release [OF assms(1) mu(1)])
  have "hart u = hart s" using mu(1) by (simp add: mach_def)
  then have "mach ?t = mach s" by (simp add: mach_def)
  then have "calm p ?t" using assms(1) calm_cong [of ?t s p] by simp
  moreover have "editor_of ?t = editor_of u" "cons_wf ?t = cons_wf u" using editor_of_cong [of ?t u] by simp_all
  ultimately show ?thesis using u(1,3,4) r mu(2) by (simp add: consoleintr_key [OF assms(6)] calm_acquire [OF assms(1)])
qed

text \<open>
  C18: the console interrupt handler implements the line editor.  For every sequence of received
  bytes (without control-P, which prints the process list), starting from any state in which
  the three 32-bit indices of the ring are in order, the handler returns, keeps the indices
  in order, and the bytes ready for \<open>read\<close>, the line being edited and the echoed output are
  those of \<open>editor_key\<close>: a line is released by newline, control-D or a full buffer; backspace
  and control-U edit only the unreleased line; a byte that does not fit is dropped without an
  echo.
\<close>

theorem console_refines_editor:
  assumes "calm p s" "cons_wf s" "\<not> panicked s" "\<And>c. c \<in> set cs \<Longrightarrow> 0 \<le> c \<and> c < 256 \<and> c \<noteq> ctrl CHR ''P''"
  shows "\<exists>t. for_each cs (consoleintr pol) s = Ret () t \<and> cons_wf t \<and> editor_of t = fold editor_key cs (editor_of s)"
  using assms
proof (induction cs arbitrary: s)
  case (Cons c cs)
  have c: "0 \<le> c" "c < 256" "c \<noteq> ctrl CHR ''P''" using Cons.prems(4) [of c] by simp_all
  obtain t where t: "consoleintr pol c s = Ret () t" "calm p t" "cons_wf t" "\<not> panicked t" "editor_of t = editor_key c (editor_of s)"
    using consoleintr_edits [OF Cons.prems(1-3) c] by blast
  show ?case using Cons.IH [OF t(2-4)] Cons.prems(4) t(1,5) by simp
qed simp

theorem console_refines_editor_witness:
  "\<exists>t. for_each [104, 105, 127, 111, 13, 120] (consoleintr MLFQ) (file_boot (\<lambda>_ _. 0) ()) = Ret () t \<and> cons_wf t \<and>
    editor_of t = ([104, 111, 10], [120], [104, 105, 8, 32, 8, 111, 10, 120])"
proof -
  let ?s = "file_boot (\<lambda>_ _. 0) ()" and ?cs = "[104, 105, 127, 111, 13, 120]"
  have e: "editor_of ?s = ([], [], [])" by (simp add: editor_of_def cready_def cline_def)
  then have wf: "cons_wf ?s" by (simp add: editor_of_def cons_wf_def)
  have cs: "\<And>c. c \<in> set ?cs \<Longrightarrow> 0 \<le> c \<and> c < 256 \<and> c \<noteq> ctrl CHR ''P''" by (auto simp: ctrl_simps)
  have "fold editor_key ?cs ([], [], []) = ([104, 111, 10], [120], [104, 105, 8, 32, 8, 111, 10, 120])"
    by (simp add: ctrl_simps INPUT_BUF_SIZE_def erase_def Let_def)
  then show ?thesis using console_refines_editor [where pol = MLFQ and cs = ?cs, OF file_boot_calm wf _ cs] e by simp
qed

section \<open>The transmit ring\<close>

definition txq :: "'z ustate_scheme \<Rightarrow> byte list" where
  "txq s = rlist UART_TX_BUF_SIZE (uart_tx_buf s) (uart_tx_r s) (uart_tx_w s)"

lemma idle_bit: "read_LSR s AND LSR_TX_IDLE = 0 \<longleftrightarrow> ud_room (udev s) = 0"
  by (simp add: read_LSR_def LSR_TX_IDLE_def LSR_RX_READY_def)

lemma txq_get:
  assumes "uart_tx_w s \<noteq> uart_tx_r s"
  shows "txq s = uart_tx_buf s (unat (uart_tx_r s) mod UART_TX_BUF_SIZE) # txq (s\<lparr>uart_tx_r := uart_tx_r s + 1\<rparr>)"
  using uart_ring.get [of "uart_tx_r s" "uart_tx_w s" "uart_tx_buf s"] assms by (simp add: txq_def rget_def)

text \<open>\<open>uartstart\<close> ends: with the ring empty or the transmitter full, everything in order.\<close>

lemma uartstart_loop_sends:
  assumes "calm p s" "mach t = mach (acq L_uart s)" "ud_room (udev t) < k"
  shows "\<exists>u. uartstart_loop k t = Ret () u \<and> mach u = mach t \<and> ud_out (udev u) @ txq u = ud_out (udev t) @ txq t \<and>
    (txq u = [] \<or> ud_room (udev u) = 0)"
  using assms(2,3)
proof (induction k arbitrary: t)
  case (Suc k)
  consider (empty) "uart_tx_w t = uart_tx_r t" | (busy) "uart_tx_w t \<noteq> uart_tx_r t" "ud_room (udev t) = 0"
    | (send) "uart_tx_w t \<noteq> uart_tx_r t" "0 < ud_room (udev t)" by auto
  then show ?case
  proof cases
    case empty
    then show ?thesis by (auto simp: txq_def intro!: exI [of _ t])
  next
    case busy
    then show ?thesis by (auto simp: idle_bit intro!: exI [of _ t])
  next
    case send
    let ?c = "uart_tx_buf t (unat (uart_tx_r t) mod UART_TX_BUF_SIZE)" and ?t = "t\<lparr>uart_tx_r := uart_tx_r t + 1\<rparr>"
    let ?v = "write_THR ?c (woken C_uart p ?t)"
    have m: "mach ?t = mach (acq L_uart s)" using Suc.prems(1) by (simp add: mach_def)
    have w: "wakeup (Some C_uart) ?t = Ret () (woken C_uart p ?t)" by (rule calm_wakeup [OF assms(1) m]) simp
    have v: "mach ?v = mach (woken C_uart p ?t)" "udev ?v = (udev t)\<lparr>ud_out := ud_out (udev t) @ [?c], ud_room := ud_room (udev t) - 1\<rparr>"
      "txq ?v = txq ?t"
      by (simp_all add: write_THR_def mach_def txq_def) (simp_all add: woken_def map_procs_def)
    have mv: "mach ?v = mach (acq L_uart s)" using v(1) m by simp
    have rv: "ud_room (udev ?v) < k" using Suc.prems(2) send(2) v(2) by simp
    obtain u where u: "uartstart_loop k ?v = Ret () u" "mach u = mach ?v" "ud_out (udev u) @ txq u = ud_out (udev ?v) @ txq ?v"
      "txq u = [] \<or> ud_room (udev u) = 0"
      using Suc.IH [OF mv rv] by blast
    have "uartstart_loop (Suc k) t = Ret () u" using send w u(1) by (simp add: idle_bit)
    moreover have "ud_out (udev u) @ txq u = ud_out (udev t) @ txq t" using u(3) v(2,3) txq_get [OF send(1)] by simp
    ultimately show ?thesis using u(2,4) mv Suc.prems(1) by simp
  qed
qed simp

text \<open>
  C22: characters written to the console come out in order and none is lost.  With room in the
  32-byte transmit ring, \<open>uartputc\<close> returns; afterwards the bytes sent followed by the bytes
  still in the ring are those from before followed by the new one, and the ring is empty
  unless the transmitter is full.  In particular the loop of \<open>uartstart\<close> ends.
\<close>

theorem uartputc_in_order:
  assumes "calm p s" "\<not> panicked s" "length (txq s) < UART_TX_BUF_SIZE"
  shows "\<exists>t. uartputc c s = Ret () t \<and> calm p t \<and> ud_out (udev t) @ txq t = ud_out (udev s) @ txq s @ [c] \<and>
    (txq t = [] \<or> ud_room (udev t) = 0)"
proof -
  let ?a = "acq L_uart s"
  have f: "uart_tx_buf ?a = uart_tx_buf s" "uart_tx_r ?a = uart_tx_r s" "uart_tx_w ?a = uart_tx_w s" "udev ?a = udev s"
    "panicked ?a = panicked s" by (simp_all add: acq_def pushed_def)
  have len: "unat (uart_tx_w s - uart_tx_r s) < UART_TX_BUF_SIZE" using assms(3) by (simp add: txq_def)
  have nf: "uart_tx_w s \<noteq> uart_tx_r s + of_nat UART_TX_BUF_SIZE"
  proof
    assume "uart_tx_w s = uart_tx_r s + of_nat UART_TX_BUF_SIZE"
    then have "unat (uart_tx_w s - uart_tx_r s) = unat (of_nat UART_TX_BUF_SIZE :: uint64)" by simp
    then show False using len by (simp add: UART_TX_BUF_SIZE_def)
  qed
  let ?u = "?a\<lparr>uart_tx_buf := (uart_tx_buf ?a)(unat (uart_tx_w ?a) mod UART_TX_BUF_SIZE := c), uart_tx_w := uart_tx_w ?a + 1\<rparr>"
  have mu: "mach ?u = mach ?a" by (simp add: mach_def)
  have qu: "txq ?u = txq s @ [c]"
    using uart_ring.put [OF len, of c "uart_tx_buf s"] f by (simp add: txq_def rput_def)
  obtain v where v: "uartstart ?u = Ret () v" "mach v = mach ?u" "ud_out (udev v) @ txq v = ud_out (udev s) @ txq s @ [c]"
    "txq v = [] \<or> ud_room (udev v) = 0"
    using uartstart_loop_sends [OF assms(1) mu, of "Suc (ud_room (udev ?u))"] qu f unfolding uartstart_def by auto
  let ?t = "v\<lparr>csr := csr s, cpus := cpus s, locks := locks s\<rparr>"
  have mv: "mach v = mach ?a" using v(2) mu by simp
  have r: "release L_uart v = Ret () ?t" by (rule calm_release [OF assms(1) mv])
  have "hart v = hart s" using mv by (simp add: mach_def)
  then have "mach ?t = mach s" by (simp add: mach_def)
  then have "calm p ?t" using assms(1) calm_cong [of ?t s p] by simp
  moreover have "txq ?t = txq v" by (simp add: txq_def)
  ultimately show ?thesis using v r nf f assms(2)
    by (simp add: uartputc_def uartputc_loop_def calm_acquire [OF assms(1)] Let_def)
qed

theorem uartputc_in_order_witness:
  "\<exists>t. uartputc 65 (file_boot (\<lambda>_ _. 0) ()) = Ret () t \<and> calm 0 t \<and> ud_out (udev t) @ txq t = [65]"
  using uartputc_in_order [OF file_boot_calm, of "\<lambda>_ _. 0" "()" 65]
  by (auto simp: txq_def UART_TX_BUF_SIZE_def)

end
