(* ===== verification/Inodespec.thy ===== *)
theory Inodespec
  imports File
begin

text \<open>
  What \<open>readi\<close> and \<open>writei\<close> do to the contents of a file.  The contents are described over the
  view \<open>V\<close> of the buffer-cache contract: block \<open>bn\<close> of a file is at \<open>faddr V addrs bn\<close>,
  directly or through the indirect block, and its byte \<open>k\<close> is \<open>fbyte V addrs k\<close>.
\<close>

definition faddr :: "(uint \<Rightarrow> block) \<Rightarrow> uint list \<Rightarrow> nat \<Rightarrow> uint" where
  "faddr V addrs bn = (if bn < NDIRECT then addrs ! bn else get_le 4 (V (addrs ! NDIRECT)) (4 * (bn - NDIRECT)))"

definition fbyte :: "(uint \<Rightarrow> block) \<Rightarrow> uint list \<Rightarrow> nat \<Rightarrow> byte" where
  "fbyte V addrs k = V (faddr V addrs (k div BSIZE)) (of_nat (k mod BSIZE))"

text \<open>Blocks \<open>lo..<hi\<close> of the file are allocated.\<close>

definition fmapped :: "(uint \<Rightarrow> block) \<Rightarrow> uint list \<Rightarrow> nat \<Rightarrow> nat \<Rightarrow> bool" where
  "fmapped V addrs lo hi \<longleftrightarrow> hi \<le> MAXFILE \<and> (NDIRECT < hi \<longrightarrow> lo < hi \<longrightarrow> addrs ! NDIRECT \<noteq> 0) \<and>
     (\<forall>bn. lo \<le> bn \<longrightarrow> bn < hi \<longrightarrow> faddr V addrs bn \<noteq> 0)"

lemma bframe_itable: "bframe p s t \<Longrightarrow> itable t = itable s"
  by (cases s; cases t) (simp add: bframe_def)

lemma bframe_calm: "bframe p s t \<Longrightarrow> calm p t = calm p s"
  by (simp add: bframe_def others_calm)

lemma bc_clean:
  assumes "bc p dev s H P V" "H b = None" "P b = 0"
  shows "V b = disk s (unat b)"
proof (cases "\<exists>i. isbuf dev s i b")
  case True
  then obtain i where i: "isbuf dev s i b" by blast
  have "unat (b_refcnt (bufs s i)) = 0" using bcD(7) [OF assms(1) i] assms by simp
  then have "b_refcnt (bufs s i) = 0" by (simp add: unat_eq_zero)
  then show ?thesis by (rule bcD(11) [OF assms(1) i])
next
  case False
  then show ?thesis by (rule bcD(14) [OF assms(1)])
qed

text \<open>Room in the cache for one more block.\<close>

definition room :: "(uint \<rightharpoonup> nat) \<Rightarrow> (uint \<Rightarrow> nat) \<Rightarrow> bool" where
  "room H P \<longleftrightarrow> card (used H P) < NBUF"

lemma peek_block:
  assumes "bc p dev s H P V" "H blk = None" "room H P"
  obtains i t u where "bread dev blk s = Ret i t" "b_data (bufs t i) = V blk" "brelse i t = Ret () u"
    "bc p dev u H P V" "bframe p s t" "bframe p s u" "disk u = disk s" "dtrace u = dtrace s"
    "bc p dev t (H(blk \<mapsto> i)) P V"
proof -
  have c: "0 < P blk \<or> V blk = disk s (unat blk)" using bc_clean [OF assms(1,2)] by auto
  have r: "card (used H P) < NBUF \<or> 0 < P blk" using assms(3) by (simp add: room_def)
  obtain i t where t: "bread dev blk s = Ret i t" "bc p dev t (H(blk \<mapsto> i)) P V" "b_data (bufs t i) = V blk" "disk t = disk s"
    "dtrace t = dtrace s" "bframe p s t"
    by (rule bio.bread [OF assms(1,2) r])
  have c': "0 < P blk \<or> V blk = disk t (unat blk)" using c t(4) by simp
  have h: "(H(blk \<mapsto> i)) blk = Some i" by simp
  obtain u where u: "brelse i t = Ret () u" "bc p dev u (H(blk \<mapsto> i, blk := None)) P V" "disk u = disk t"
    "dtrace u = dtrace t" "bframe p t u"
    by (rule bio.brelse [OF t(2) h c'])
  have "H(blk \<mapsto> i, blk := None) = H" using assms(2) by auto
  then show ?thesis using that [OF t(1,3) u(1) _ t(6) bframe_trans [OF t(6) u(5)]] t u by simp
qed

lemma bmap_mapped:
  assumes "bc p dev s H P V" "room H P" "dev = i_dev (itable s ip)" "addrs = i_addrs (itable s ip)" "bn < MAXFILE"
    "faddr V addrs bn \<noteq> 0" "NDIRECT \<le> bn \<Longrightarrow> addrs ! NDIRECT \<noteq> 0 \<and> H (addrs ! NDIRECT) = None"
  obtains t where "bmap ip bn s = Ret (faddr V addrs bn) t" "bc p dev t H P V" "bframe p s t" "disk t = disk s" "dtrace t = dtrace s"
proof (cases "bn < NDIRECT")
  case True
  then show ?thesis using that [of s] assms by (simp add: bmap_def faddr_def Let_def)
next
  case False
  let ?b = "addrs ! NDIRECT"
  have b: "?b \<noteq> 0" "H ?b = None" using assms(7) False by simp_all
  obtain i t u where t: "bread dev ?b s = Ret i t" "b_data (bufs t i) = V ?b" "brelse i t = Ret () u"
    "bc p dev u H P V" "bframe p s t" "bframe p s u" "disk u = disk s" "dtrace u = dtrace s"
    by (rule peek_block [OF assms(1) b(2) assms(2)])
  have "bn - NDIRECT < NINDIRECT" using False assms(5) by (simp add: MAXFILE_def)
  then have "bmap ip bn s = Ret (faddr V addrs bn) u"
    using False assms(3,4,6) b(1) t(1-3) by (simp add: bmap_def faddr_def Let_def)
  then show ?thesis using that t by blast
qed

section \<open>Reading\<close>

lemma block_bytes:
  assumes "m \<le> BSIZE - off mod BSIZE"
  shows "get_bytes (V (faddr V addrs (off div BSIZE))) (off mod BSIZE) m = map (fbyte V addrs) [off..<off + m]"
proof -
  have "(off + i) div BSIZE = off div BSIZE" "(off + i) mod BSIZE = off mod BSIZE + i" if "i < m" for i
  proof -
    obtain q r where o: "off = BSIZE * q + r" "r < BSIZE"
      by (metis mod_less_divisor mult_div_mod_eq BSIZE_def zero_less_numeral)
    then have "r + i < BSIZE" using assms that by (simp add: BSIZE_def)
    then have e: "off + i = BSIZE * q + (r + i)" "r + i < BSIZE" using o by simp_all
    show "(off + i) div BSIZE = off div BSIZE" "(off + i) mod BSIZE = off mod BSIZE + i"
      unfolding e(1) using e(2) o by (simp_all add: BSIZE_def)
  qed
  then have "get_bytes (V (faddr V addrs (off div BSIZE))) (off mod BSIZE) m = map (\<lambda>i. fbyte V addrs (off + i)) [0..<m]"
    by (simp add: get_bytes_def fbyte_def)
  also have "\<dots> = map (fbyte V addrs) (map (\<lambda>i. i + off) [0..<m])" by (simp add: add.commute)
  also have "map (\<lambda>i. i + off) [0..<m] = [off..<off + m]" using map_add_upt [of off m] by (simp add: add.commute)
  finally show ?thesis .
qed

lemma fmapped_step:
  assumes "fmapped V addrs (off div BSIZE) ((off + n + (BSIZE - 1)) div BSIZE)" "0 < n" "m = min n (BSIZE - off mod BSIZE)"
  shows "off div BSIZE < MAXFILE" "faddr V addrs (off div BSIZE) \<noteq> 0" "NDIRECT \<le> off div BSIZE \<Longrightarrow> addrs ! NDIRECT \<noteq> 0"
    "fmapped V addrs ((off + m) div BSIZE) (((off + m) + (n - m) + (BSIZE - 1)) div BSIZE)" "0 < m" "m \<le> n" "m \<le> BSIZE - off mod BSIZE"
proof -
  have B: "BSIZE = 1024" by (simp add: BSIZE_def)
  have lt: "off div BSIZE < (off + n + (BSIZE - 1)) div BSIZE" using assms(2) unfolding B by linarith
  then show 1: "off div BSIZE < MAXFILE" "faddr V addrs (off div BSIZE) \<noteq> 0" using assms(1) by (auto simp: fmapped_def)
  show "NDIRECT \<le> off div BSIZE \<Longrightarrow> addrs ! NDIRECT \<noteq> 0" using assms(1) lt by (simp add: fmapped_def)
  show m: "0 < m" "m \<le> n" "m \<le> BSIZE - off mod BSIZE" using assms(2,3) unfolding B by auto
  have "off div BSIZE \<le> (off + m) div BSIZE" unfolding B by (rule div_le_mono) simp
  moreover have "off + m + (n - m) = off + n" using m by simp
  ultimately show "fmapped V addrs ((off + m) div BSIZE) (((off + m) + (n - m) + (BSIZE - 1)) div BSIZE)"
    using assms(1) unfolding fmapped_def by auto
qed

lemma readi_loop_reads:
  assumes "bc p dev s (\<lambda>_. None) P V" "room (\<lambda>_. None) P" "dev = i_dev (itable s ip)" "addrs = i_addrs (itable s ip)"
    "fmapped V addrs (off div BSIZE) ((off + n + (BSIZE - 1)) div BSIZE)"
  shows "\<exists>t. readi_loop ip Local_dst off n tot acc s = Ret (int (tot + n), acc @ map (fbyte V addrs) [off..<off + n]) t \<and>
    bc p dev t (\<lambda>_. None) P V \<and> bframe p s t \<and> disk t = disk s \<and> dtrace t = dtrace s"
  using assms
proof (induction n arbitrary: s off tot acc rule: less_induct)
  case (less n)
  show ?case
  proof (cases "n = 0")
    case True
    then show ?thesis using less.prems by (auto simp: readi_loop.simps)
  next
    case False
    define m where "m = min n (BSIZE - off mod BSIZE)"
    note f = fmapped_step [OF less.prems(5) _ m_def]
    have n: "0 < n" using False by simp
    let ?a = "faddr V addrs (off div BSIZE)"
    obtain s1 where s1: "bmap ip (off div BSIZE) s = Ret ?a s1" "bc p dev s1 (\<lambda>_. None) P V" "bframe p s s1" "disk s1 = disk s" "dtrace s1 = dtrace s"
      by (rule bmap_mapped [OF less.prems(1-4) f(1) [OF n] f(2) [OF n]]) (use f(3) [OF n] in auto)
    have i1: "itable s1 = itable s" by (rule bframe_itable [OF s1(3)])
    obtain i s2 s3 where s2: "bread dev ?a s1 = Ret i s2" "b_data (bufs s2 i) = V ?a" "brelse i s2 = Ret () s3"
      "bc p dev s3 (\<lambda>_. None) P V" "bframe p s1 s2" "bframe p s1 s3" "disk s3 = disk s1" "dtrace s3 = dtrace s1"
      by (rule peek_block [OF s1(2) refl less.prems(2)])
    have fr: "bframe p s s3" by (rule bframe_trans [OF s1(3) s2(6)])
    have i3: "itable s3 = itable s" by (rule bframe_itable [OF fr])
    have c2: "calm p s2" using bframe_calm [OF s2(5)] s1(2) by (simp add: bc_def)
    have eo: "either_copyout Local_dst bs s2 = Ret 0 s2" for bs using calmD(1,3,6) [OF c2] by (simp add: myproc_eq)
    let ?acc = "acc @ map (fbyte V addrs) [off..<off + m]"
    have step: "readi_loop ip Local_dst off n tot acc s = readi_loop ip Local_dst (off + m) (n - m) (tot + m) ?acc s3"
      using n f(2) [OF n] s1(1) s2(1-3) i1 less.prems(3) eo block_bytes [OF f(7) [OF n], of V addrs]
      by (subst readi_loop.simps) (simp add: m_def [symmetric] Let_def)
    have lt: "n - m < n" using f(5,6) [OF n] n by simp
    obtain t where t: "readi_loop ip Local_dst (off + m) (n - m) (tot + m) ?acc s3 =
        Ret (int (tot + m + (n - m)), ?acc @ map (fbyte V addrs) [off + m..<off + m + (n - m)]) t"
      "bc p dev t (\<lambda>_. None) P V" "bframe p s3 t" "disk t = disk s3" "dtrace t = dtrace s3"
      using less.IH [where tot = "tot + m" and acc = ?acc, OF lt s2(4) less.prems(2) _ _ f(4) [OF n]] less.prems(3,4) i3 by auto
    have "[off..<off + m] @ [off + m..<off + n] = [off..<off + n]" using f(6) [OF n] by (metis upt_add_eq_append le_add1 le_add_diff_inverse add.assoc)
    then have "map (fbyte V addrs) [off..<off + m] @ map (fbyte V addrs) [off + m..<off + n] = map (fbyte V addrs) [off..<off + n]"
      by (metis map_append)
    then have "readi_loop ip Local_dst off n tot acc s = Ret (int (tot + n), acc @ map (fbyte V addrs) [off..<off + n]) t"
      unfolding step t(1) using f(6) [OF n] by simp
    then show ?thesis using t(2-5) bframe_trans [OF fr t(3)] s1(4,5) s2(7,8) by auto
  qed
qed

section \<open>Writing\<close>

lemma tframe_itable: "tframe p s t \<Longrightarrow> itable t = itable s \<and> sb t = sb s"
  by (cases s; cases t) (simp add: tframe_def lframe_def)

text \<open>
  The first \<open>hi\<close> blocks of a file are allocated, no two of them share a block of the disk, and none
  of them is the indirect block, the block \<open>ib\<close> that holds the inode, or in the log.
\<close>

definition sound_file :: "nat \<Rightarrow> uint \<Rightarrow> (uint \<Rightarrow> block) \<Rightarrow> uint list \<Rightarrow> nat \<Rightarrow> bool" where
  "sound_file st ib V addrs hi \<longleftrightarrow> hi \<le> MAXFILE \<and> inj_on (faddr V addrs) {..<hi} \<and>
     (\<forall>bn<hi. faddr V addrs bn \<notin> {0, ib} \<and> \<not> inlog st (unat (faddr V addrs bn)) \<and>
        (NDIRECT < hi \<longrightarrow> faddr V addrs bn \<noteq> addrs ! NDIRECT)) \<and>
     (NDIRECT < hi \<longrightarrow> addrs ! NDIRECT \<notin> {0, ib})"

lemma sound_mapped: "sound_file st ib V addrs hi \<Longrightarrow> hi' \<le> hi \<Longrightarrow> fmapped V addrs lo hi'"
  by (auto simp: sound_file_def fmapped_def)

text \<open>A block outside the metadata of the file can change without moving the file.\<close>

lemma faddr_upd: "NDIRECT \<le> bn \<Longrightarrow> a \<noteq> addrs ! NDIRECT \<Longrightarrow> faddr (V(a := d)) addrs bn = faddr V addrs bn"
  "bn < NDIRECT \<Longrightarrow> faddr (V(a := d)) addrs bn = faddr V addrs bn"
  by (auto simp: faddr_def)

lemma sound_faddr:
  assumes "sound_file st ib V addrs hi" "bn < hi" "a = ib \<or> (\<exists>k<hi. a = faddr V addrs k)"
  shows "faddr (V(a := d)) addrs bn = faddr V addrs bn"
proof (cases "bn < NDIRECT")
  case False
  then have "a \<noteq> addrs ! NDIRECT" using assms by (auto simp: sound_file_def)
  then show ?thesis using False by (simp add: faddr_upd(1))
qed (simp add: faddr_upd(2))

lemma sound_upd:
  assumes "sound_file st ib V addrs hi" "a = ib \<or> (\<exists>k<hi. a = faddr V addrs k)"
  shows "sound_file st ib (V(a := d)) addrs hi"
proof -
  have e: "\<And>bn. bn < hi \<Longrightarrow> faddr (V(a := d)) addrs bn = faddr V addrs bn" by (rule sound_faddr [OF assms(1) _ assms(2)])
  then have "inj_on (faddr (V(a := d)) addrs) {..<hi} = inj_on (faddr V addrs) {..<hi}" by (intro inj_on_cong) simp
  then show ?thesis using assms(1) e by (simp add: sound_file_def)
qed

lemma fbyte_inode:
  assumes "sound_file st ib V addrs hi" "k < hi * BSIZE"
  shows "fbyte (V(ib := d)) addrs k = fbyte V addrs k"
proof -
  have "k div BSIZE < hi" using assms(2) by (simp add: less_mult_imp_div_less)
  then show ?thesis using assms(1) sound_faddr [OF assms(1), of "k div BSIZE" ib] by (auto simp: fbyte_def sound_file_def)
qed

text \<open>Writing \<open>m\<close> bytes into the block of offset \<open>off\<close> changes these \<open>m\<close> bytes of the file.\<close>

lemma fbyte_put:
  assumes "sound_file st ib V addrs hi" "k < hi * BSIZE" "off < hi * BSIZE" "length bs \<le> BSIZE - off mod BSIZE"
    and a: "a = faddr V addrs (off div BSIZE)"
  shows "fbyte (V(a := put_bytes (off mod BSIZE) bs (V a))) addrs k = (if off \<le> k \<and> k < off + length bs then bs ! (k - off) else fbyte V addrs k)"
proof -
  have B: "BSIZE = 1024" by (simp add: BSIZE_def)
  have kd: "k div BSIZE < hi" "off div BSIZE < hi" using assms(2,3) by (simp_all add: less_mult_imp_div_less)
  then have e: "faddr (V(a := d)) addrs (k div BSIZE) = faddr V addrs (k div BSIZE)" for d
    using a by (intro sound_faddr [OF assms(1)]) auto
  have inj: "faddr V addrs (k div BSIZE) = a \<longleftrightarrow> k div BSIZE = off div BSIZE"
    using assms(1) kd a by (auto simp: sound_file_def inj_on_def)
  have u: "unat (of_nat (k mod BSIZE) :: 10 word) = k mod BSIZE" unfolding B by (simp add: unat_of_nat)
  have in_block: "k div BSIZE = off div BSIZE" if "off \<le> k" "k < off + length bs" 
  proof (rule div_nat_eqI)
    obtain q r where o: "off = BSIZE * q + r" "r < BSIZE" by (metis mod_less_divisor mult_div_mod_eq BSIZE_def zero_less_numeral)
    then have "off div BSIZE = q" "off mod BSIZE = r" by (simp_all add: B)
    then show "BSIZE * (off div BSIZE) \<le> k" "k < BSIZE * Suc (off div BSIZE)" using that assms(4) o by (simp_all add: B)
  qed
  show ?thesis
  proof (cases "k div BSIZE = off div BSIZE")
    case True
    have "k = BSIZE * (off div BSIZE) + k mod BSIZE" "off = BSIZE * (off div BSIZE) + off mod BSIZE"
      unfolding True [symmetric] by simp_all (simp add: True)
    then obtain q where q: "k = q + k mod BSIZE" "off = q + off mod BSIZE" by blast
    have r: "k - off = k mod BSIZE - off mod BSIZE" "off \<le> k \<longleftrightarrow> off mod BSIZE \<le> k mod BSIZE"
      "k < off + length bs \<longleftrightarrow> k mod BSIZE < off mod BSIZE + length bs"
      using q by linarith+
    show ?thesis using True inj u r a e by (simp add: fbyte_def put_bytes_def)
  next
    case False
    then show ?thesis using inj e in_block by (auto simp: fbyte_def)
  qed
qed

text \<open>The number of blocks that the bytes \<open>off..<off + n\<close> of a file touch.\<close>

definition touched :: "nat \<Rightarrow> nat \<Rightarrow> nat" where
  "touched off n = (if n = 0 then 0 else (off + n - 1) div BSIZE - off div BSIZE + 1)"

lemma touched_step:
  assumes "0 < n" "m = min n (BSIZE - off mod BSIZE)"
  shows "Suc (touched (off + m) (n - m)) = touched off n"
proof (cases "m = n")
  case True
  obtain q r where o: "off = BSIZE * q + r" "r < BSIZE" by (metis mod_less_divisor mult_div_mod_eq BSIZE_def zero_less_numeral)
  have "n \<le> BSIZE - r" using True assms(2) o by (simp add: BSIZE_def)
  then have "(off + n - 1) div BSIZE = q" using o assms(1) by (intro div_nat_eqI) (simp_all add: BSIZE_def)
  then show ?thesis using True assms(1) o by (simp add: touched_def BSIZE_def)
next
  case False
  obtain q r where o: "off = BSIZE * q + r" "r < BSIZE" by (metis mod_less_divisor mult_div_mod_eq BSIZE_def zero_less_numeral)
  then have m: "m = BSIZE - r" "m < n" using False assms(2) by (auto simp: BSIZE_def min_def split: if_splits)
  have am: "off + m = BSIZE * Suc q" using o m(1) by (simp add: BSIZE_def)
  have "off div BSIZE = q" "(off + m) div BSIZE = Suc q" using o unfolding am by (simp_all add: BSIZE_def)
  moreover have "Suc q \<le> (off + n - 1) div BSIZE"
    using am m(2) by (simp add: BSIZE_def less_eq_div_iff_mult_less_eq)
  moreover have "off + m + (n - m) = off + n" using m by simp
  ultimately show ?thesis using m assms(1) by (simp add: touched_def)
qed

text \<open>One round of the loop of \<open>writei\<close>.\<close>

lemma writei_step:
  assumes "txn p dev st s (\<lambda>_. None) L V" "dev = i_dev (itable s ip)" "addrs = i_addrs (itable s ip)"
    and "sound_file st ib V addrs hi" "off + n \<le> hi * BSIZE" "0 < n" "length bs = n" "length L < LOGSIZE - 1"
    and m: "m = min n (BSIZE - off mod BSIZE)" and a: "a = faddr V addrs (off div BSIZE)"
    and V': "V' = V(a := put_bytes (off mod BSIZE) (take m bs) (V a))"
  obtains t where "writei_loop ip (Local_src bs) off n tot s = writei_loop ip (Local_src (drop m bs)) (off + m) (n - m) (tot + m) t"
    "txn p dev st t (\<lambda>_. None) (add_block a L) V'" "tframe p s t"
proof -
  have d: "distinct L" using assms(1) by (simp add: txn_def)
  have card: "card (dom (\<lambda>_. None :: nat option) \<union> set L) < NBUF" using assms(8) by (simp add: distinct_card [OF d] NBUF_def LOGSIZE_def MAXOPBLOCKS_def)
  have room: "room (\<lambda>_. None) (pins (set L))" using card by (simp add: room_def used_txn)
  have q: "off div BSIZE < hi" using assms(5,6) by (simp add: less_mult_imp_div_less)
  then have f: "off div BSIZE < MAXFILE" "a \<noteq> 0" "\<not> inlog st (unat a)" "NDIRECT \<le> off div BSIZE \<Longrightarrow> addrs ! NDIRECT \<noteq> 0"
    using assms(4) a by (auto simp: sound_file_def)
  obtain s1 where s1: "bmap ip (off div BSIZE) s = Ret a s1" "bc p dev s1 (\<lambda>_. None) (pins (set L)) V" "bframe p s s1"
    "disk s1 = disk s" "dtrace s1 = dtrace s"
    by (rule bmap_mapped [OF txn_bc [OF assms(1)] room assms(2,3) f(1)]) (use f a in auto)
  have t1: "txn p dev st s1 (\<lambda>_. None) L V" by (rule txn_bframe [OF assms(1) s1(2,3)])
  have i1: "itable s1 = itable s" by (rule bframe_itable [OF s1(3)])
  obtain i s2 where s2: "bread dev a s1 = Ret i s2" "b_data (bufs s2 i) = V a" "tframe p s1 s2" "txn p dev st s2 ((\<lambda>_. None)(a \<mapsto> i)) L V"
    "\<And>d. \<exists>u v. log_write i (set_data i d s2) = Ret () u \<and> brelse i u = Ret () v \<and>
       txn p dev st v (\<lambda>_. None) (add_block a L) (V(a := d)) \<and> tframe p s1 v"
    by (rule tx.update [OF t1 refl card f(3) assms(8)]) (rule that, assumption+)
  obtain u v where v: "log_write i (set_data i (put_bytes (off mod BSIZE) (take m bs) (V a)) s2) = Ret () u" "brelse i u = Ret () v"
    "txn p dev st v (\<lambda>_. None) (add_block a L) V'" "tframe p s1 v"
    using s2(5) V' by blast
  have c2: "calm p s2" by (rule bcD(1) [OF txn_bc [OF s2(4)]])
  have eo: "either_copyin (Local_src bs) m s2 = Ret (0, take m bs) s2" using calmD(1,3,6) [OF c2] by (simp add: myproc_eq)
  have "writei_loop ip (Local_src bs) off n tot s = writei_loop ip (Local_src (drop m bs)) (off + m) (n - m) (tot + m) v"
    using assms(6) f(2) s1(1) s2(1,2) v(1,2) i1 assms(2) eo
    by (subst writei_loop.simps) (simp add: m [symmetric] Let_def)
  moreover have "tframe p s v" using tframe_trans [OF _ v(4)] lframe_bframe [OF s1(3)] s1(4,5) by (simp add: tframe_def)
  ultimately show thesis using that v(3) by blast
qed

definition patched :: "nat \<Rightarrow> byte list \<Rightarrow> (nat \<Rightarrow> byte) \<Rightarrow> nat \<Rightarrow> byte" where
  "patched off bs f k = (if off \<le> k \<and> k < off + length bs then bs ! (k - off) else f k)"

lemma patched_Nil [simp]: "patched off [] f k = f k"
  by (auto simp: patched_def)

lemma patched_patched: "m \<le> length bs \<Longrightarrow> patched (off + m) (drop m bs) (patched off (take m bs) f) k = patched off bs f k"
  by (auto simp: patched_def add.commute)

lemma patched_cong: "f k = g k \<Longrightarrow> patched off bs f k = patched off bs g k"
  by (simp add: patched_def)

lemma writei_loop_writes:
  assumes "txn p dev st s (\<lambda>_. None) L V" "dev = i_dev (itable s ip)" "addrs = i_addrs (itable s ip)"
    "sound_file st ib V addrs hi" "off + n \<le> hi * BSIZE" "length bs = n" "length L + touched off n \<le> LOGSIZE - 1"
  shows "\<exists>t L' V'. writei_loop ip (Local_src bs) off n tot s = Ret (off + n, tot + n) t \<and> txn p dev st t (\<lambda>_. None) L' V' \<and>
    tframe p s t \<and> length L' \<le> length L + touched off n \<and> sound_file st ib V' addrs hi \<and>
    (\<forall>k < hi * BSIZE. fbyte V' addrs k = patched off bs (fbyte V addrs) k)"
  using assms
proof (induction n arbitrary: s off tot bs L V rule: less_induct)
  case (less n)
  show ?case
  proof (cases "n = 0")
    case True
    then show ?thesis using less.prems
      by (intro exI [of _ s] exI [of _ L] exI [of _ V]) (simp add: writei_loop.simps tframe_def)
  next
    case False
    define m where "m = min n (BSIZE - off mod BSIZE)"
    define a where "a = faddr V addrs (off div BSIZE)"
    define V1 where "V1 = V(a := put_bytes (off mod BSIZE) (take m bs) (V a))"
    have n: "0 < n" using False by simp
    have m: "0 < m" "m \<le> n" "m \<le> BSIZE - off mod BSIZE" using n unfolding m_def by (auto simp: BSIZE_def)
    note tc = touched_step [OF n m_def]
    have len: "length L < LOGSIZE - 1" using less.prems(7) tc by simp
    obtain s1 where s1: "writei_loop ip (Local_src bs) off n tot s = writei_loop ip (Local_src (drop m bs)) (off + m) (n - m) (tot + m) s1"
      "txn p dev st s1 (\<lambda>_. None) (add_block a L) V1" "tframe p s s1"
      by (rule writei_step [OF less.prems(1-5) n less.prems(6) len m_def a_def V1_def])
    have o: "off < hi * BSIZE" using less.prems(5) n by simp
    have q: "a = ib \<or> (\<exists>k<hi. a = faddr V addrs k)" using less_mult_imp_div_less [OF o] unfolding a_def by blast
    have so: "sound_file st ib V1 addrs hi" unfolding V1_def by (rule sound_upd [OF less.prems(4) q])
    have la: "length (add_block a L) \<le> Suc (length L)" by (simp add: add_block_def)
    have lt: "n - m < n" using m n by simp
    have pre: "dev = i_dev (itable s1 ip)" "addrs = i_addrs (itable s1 ip)" "off + m + (n - m) \<le> hi * BSIZE"
      "length (drop m bs) = n - m" "length (add_block a L) + touched (off + m) (n - m) \<le> LOGSIZE - 1"
      using tframe_itable [OF s1(3)] less.prems m la tc by simp_all
    obtain t L' V' where t: "writei_loop ip (Local_src (drop m bs)) (off + m) (n - m) (tot + m) s1 = Ret (off + m + (n - m), tot + m + (n - m)) t"
      "txn p dev st t (\<lambda>_. None) L' V'" "tframe p s1 t" "length L' \<le> length (add_block a L) + touched (off + m) (n - m)"
      "sound_file st ib V' addrs hi" "\<forall>k < hi * BSIZE. fbyte V' addrs k = patched (off + m) (drop m bs) (fbyte V1 addrs) k"
      using less.IH [OF lt s1(2) pre(1,2) so pre(3-5), where tot = "tot + m"] by blast
    have tk: "length (take m bs) = m" using less.prems(6) m by simp
    have fb: "fbyte V' addrs k = patched off bs (fbyte V addrs) k" if k: "k < hi * BSIZE" for k
    proof -
      have "fbyte V1 addrs k = patched off (take m bs) (fbyte V addrs) k"
        unfolding V1_def patched_def by (rule fbyte_put [OF less.prems(4) k o _ a_def]) (use tk m in simp)
      then have "patched (off + m) (drop m bs) (fbyte V1 addrs) k = patched (off + m) (drop m bs) (patched off (take m bs) (fbyte V addrs)) k"
        by (rule patched_cong)
      moreover have "\<dots> = patched off bs (fbyte V addrs) k" by (rule patched_patched) (use m less.prems(6) in simp)
      ultimately show ?thesis using t(6) k by simp
    qed
    have "writei_loop ip (Local_src bs) off n tot s = Ret (off + n, tot + n) t" using s1(1) t(1) m by simp
    moreover have "length L' \<le> length L + touched off n" using t(4) la tc by linarith
    ultimately show ?thesis using t(2,5) fb tframe_trans [OF s1(3) t(3)] by blast
  qed
qed

section \<open>Inodes on disk\<close>

lemma get_addrs:
  fixes as :: "uint list"
  assumes "k < IPB" "n \<le> 13"
  shows "i < 13 \<Longrightarrow> get_le 4 (fold (\<lambda>i b. put_le 4 (64 * k + 12 + 4 * i) (as ! i) b) [0..<n] b) (64 * k + 12 + 4 * i) =
      (if i < n then as ! i else (get_le 4 b (64 * k + 12 + 4 * i) :: uint))"
    "\<And>w off. off + w \<le> 1024 \<Longrightarrow> off + w \<le> 64 * k + 12 \<or> 64 * k + 64 \<le> off \<Longrightarrow>
      get_le w (fold (\<lambda>i b. put_le 4 (64 * k + 12 + 4 * i) (as ! i) b) [0..<n] b) off = (get_le w b off :: 'a::len word)"
proof -
  have k: "64 * k + 64 \<le> 1024" using assms(1) by (simp add: IPB_def BSIZE_def)
  show "get_le 4 (fold (\<lambda>i b. put_le 4 (64 * k + 12 + 4 * i) (as ! i) b) [0..<n] b) (64 * k + 12 + 4 * i) =
      (if i < n then as ! i else (get_le 4 b (64 * k + 12 + 4 * i) :: uint))" if "i < 13"
    using assms(2)
  proof (induction n)
    case (Suc n)
    then show ?case using k that by (cases "i = n") (auto simp: get_put_le get_put_le_other)
  qed simp
  show "get_le w (fold (\<lambda>i b. put_le 4 (64 * k + 12 + 4 * i) (as ! i) b) [0..<n] b) off = (get_le w b off :: 'a word)"
    if "off + w \<le> 1024" "off + w \<le> 64 * k + 12 \<or> 64 * k + 64 \<le> off" for w off
    using assms(2)
  proof (induction n)
    case (Suc n)
    then show ?case using k that by (auto simp: get_put_le_other)
  qed simp
qed

text \<open>
  An inode written to its slot of a disk block is read back as it was written, and the other
  fifteen inodes of the block are not disturbed.
\<close>

lemma get_put_dinode:
  assumes "k < IPB" "length (d_addrs d) = NDIRECT + 1"
  shows "get_dinode (put_dinode k d b) k = d" "j < IPB \<Longrightarrow> j \<noteq> k \<Longrightarrow> get_dinode (put_dinode k d b) j = get_dinode b j"
proof -
  have k: "64 * k + 64 \<le> 1024" using assms(1) by (simp add: IPB_def BSIZE_def)
  have N: "NDIRECT + 1 = 13" by (simp add: NDIRECT_def)
  note pd = put_dinode_def [unfolded Let_def N]
  have "map ((!) (d_addrs d)) [0..<13] = d_addrs d" using map_nth [of "d_addrs d"] unfolding assms(2) N .
  moreover have "map (\<lambda>i. get_le 4 (put_dinode k d b) (64 * k + 12 + 4 * i)) [0..<13] = map ((!) (d_addrs d)) [0..<13]"
    by (rule map_cong [OF refl]) (simp add: pd get_addrs(1) [OF assms(1)] del: upt_rec_numeral)
  ultimately show "get_dinode (put_dinode k d b) k = d"
    using k unfolding get_dinode_def N
    by (simp add: pd get_addrs(2) [OF assms(1)] get_put_le get_put_le_other del: upt_rec_numeral)
  show "get_dinode (put_dinode k d b) j = get_dinode b j" if j: "j < IPB" "j \<noteq> k"
  proof -
    have "j < k \<or> k < j" using j by linarith
    moreover have j': "64 * j + 64 \<le> 1024" using j by (simp add: IPB_def BSIZE_def)
    ultimately have sep: "64 * j + 64 \<le> 64 * k \<or> 64 * k + 64 \<le> 64 * j" by linarith
    have g: "get_le w (put_dinode k d b) off = (get_le w b off :: 'b::len word)" if "64 * j \<le> off" "off + w \<le> 64 * j + 64" for w off
      using sep j' k that by (auto simp: pd get_addrs(2) [OF assms(1)] get_put_le_other simp del: upt_rec_numeral)
    show ?thesis unfolding get_dinode_def N by (simp add: g)
  qed
qed

definition dinode_of :: "inode \<Rightarrow> dinode" where
  "dinode_of i = \<lparr>d_type = i_type i, d_major = i_major i, d_minor = i_minor i, d_nlink = i_nlink i, d_size = i_size i, d_addrs = i_addrs i\<rparr>"

lemma iupdate_ok:
  assumes "txn p dev st s (\<lambda>_. None) L V" "dev = i_dev (itable s ip)" "ib = IBLOCK (i_inum (itable s ip)) (sb s)"
    "\<not> inlog st (unat ib)" "length L < LOGSIZE - 1"
  obtains t where "iupdate ip s = Ret () t" "tframe p s t"
    "txn p dev st t (\<lambda>_. None) (add_block ib L) (V(ib := put_dinode (unat (i_inum (itable s ip)) mod IPB) (dinode_of (itable s ip)) (V ib)))"
proof -
  have d: "distinct L" using assms(1) by (simp add: txn_def)
  have card: "card (dom (\<lambda>_. None :: nat option) \<union> set L) < NBUF" using assms(5) by (simp add: distinct_card [OF d] NBUF_def LOGSIZE_def MAXOPBLOCKS_def)
  obtain i t where t: "bread dev ib s = Ret i t" "b_data (bufs t i) = V ib" "tframe p s t" "txn p dev st t ((\<lambda>_. None)(ib \<mapsto> i)) L V"
    "\<And>d. \<exists>u v. log_write i (set_data i d t) = Ret () u \<and> brelse i u = Ret () v \<and>
       txn p dev st v (\<lambda>_. None) (add_block ib L) (V(ib := d)) \<and> tframe p s v"
    by (rule tx.update [OF assms(1) refl card assms(4,5)]) (rule that, assumption+)
  let ?d = "put_dinode (unat (i_inum (itable s ip)) mod IPB) (dinode_of (itable s ip)) (V ib)"
  obtain u v where v: "log_write i (set_data i ?d t) = Ret () u" "brelse i u = Ret () v"
    "txn p dev st v (\<lambda>_. None) (add_block ib L) (V(ib := ?d))" "tframe p s v"
    using t(5) by blast
  have "iupdate ip s = Ret () v"
    using t(1,2) v(1,2) tframe_itable [OF t(3)] assms(2,3) by (simp add: iupdate_def Let_def dinode_of_def)
  then show thesis using that v by blast
qed

lemma bc_upd_ino [simp]: "bc p dev (upd_ino ip f s) H P V = bc p dev s H P V"
proof -
  have "mach (upd_ino ip f s) = mach s" by (simp add: upd_ino_def mach_def machine.defs)
  then have "calm p (upd_ino ip f s) = calm p s" by (rule calm_cong)
  then show ?thesis by (simp add: bc_def isbuf_def upd_ino_def mypid_def)
qed

lemma txn_upd_ino [simp]: "txn p dev st (upd_ino ip f s) H L V = txn p dev st s H L V"
  by (simp add: txn_def log_lists_def) (simp add: upd_ino_def)

section \<open>Whole calls\<close>

lemma word_add_small: "unat (x :: uint) + n < 2 ^ 32 \<Longrightarrow> unat (x + of_nat n) = unat x + n"
  by (subst unat_word_ariths) (simp add: unat32_of_nat)

lemma uint_add_wraps: "x + n < (x :: uint) \<longleftrightarrow> 2 ^ 32 \<le> unat x + unat n"
proof (cases "unat x + unat n < 2 ^ 32")
  case True
  then have "unat (x + n) = unat x + unat n" using word_add_small [of x "unat n"] by simp
  then show ?thesis using True by (simp add: word_less_nat_alt)
next
  case False
  moreover have "unat x < 2 ^ 32" "unat n < 2 ^ 32" using unsigned_less [of x] unsigned_less [of n] by simp_all
  ultimately have "(unat x + unat n) mod 2 ^ 32 = unat x + unat n - 2 ^ 32" by (simp add: mod_if)
  then have "unat (x + n) = unat x + unat n - 2 ^ 32" by (subst unat_word_ariths) simp
  then show ?thesis using False \<open>unat n < 2 ^ 32\<close> by (simp add: word_less_nat_alt)
qed

lemma readi_reads:
  assumes "bc p dev s (\<lambda>_. None) P V" "room (\<lambda>_. None) P" "dev = i_dev (itable s ip)" "addrs = i_addrs (itable s ip)"
    "off \<le> i_size (itable s ip)" "unat off + unat n < 2 ^ 32" "m = min (unat n) (unat (i_size (itable s ip)) - unat off)"
    "fmapped V addrs (unat off div BSIZE) ((unat off + m + (BSIZE - 1)) div BSIZE)"
  obtains t where "readi ip Local_dst off n s = Ret (int m, map (fbyte V addrs) [unat off..<unat off + m]) t"
    "bc p dev t (\<lambda>_. None) P V" "bframe p s t" "disk t = disk s" "dtrace t = dtrace s"
proof -
  have u: "unat (off + n) = unat off + unat n" using word_add_small [of off "unat n"] assms(6) by simp
  have c: "\<not> off > i_size (itable s ip)" "\<not> off + n < off" using assms(5,6) uint_add_wraps [of off n] by auto
  have "unat (if off + n > i_size (itable s ip) then i_size (itable s ip) - off else n) = m"
    using assms(5,7) u by (auto simp: word_less_nat_alt word_le_nat_alt unat_sub)
  then have e: "readi ip Local_dst off n s = readi_loop ip Local_dst (unat off) m 0 [] s"
    using c by (simp add: readi_def Let_def)
  obtain t where t: "readi_loop ip Local_dst (unat off) m 0 [] s = Ret (int (0 + m), [] @ map (fbyte V addrs) [unat off..<unat off + m]) t"
    "bc p dev t (\<lambda>_. None) P V" "bframe p s t" "disk t = disk s" "dtrace t = dtrace s"
    using readi_loop_reads [OF assms(1-4,8), of 0 "[]"] by blast
  show thesis by (rule that [OF _ t(2-5)]) (use e t(1) in simp)
qed

text \<open>
  C16: \<open>readi\<close> returns exactly the requested bytes of a file, cut off at the end of the file, and
  returns no bytes when the offset is past the end or the end of the range does not fit in 32
  bits.  It writes nothing to the disk and leaves the contents of every block, the inode table
  and the other processes as they were.
\<close>

theorem readi_exact:
  assumes "bc p dev s (\<lambda>_. None) P V" "room (\<lambda>_. None) P" "ino = itable s ip" "dev = i_dev ino"
    "m = min (unat n) (unat (i_size ino) - unat off)"
    "fmapped V (i_addrs ino) (unat off div BSIZE) ((unat off + m + (BSIZE - 1)) div BSIZE)"
  shows "if i_size ino < off \<or> 2 ^ 32 \<le> unat off + unat n then readi ip Local_dst off n s = Ret (0, []) s
    else \<exists>t. readi ip Local_dst off n s = Ret (int m, map (fbyte V (i_addrs ino)) [unat off..<unat off + m]) t \<and>
      bc p dev t (\<lambda>_. None) P V \<and> disk t = disk s \<and> itable t = itable s \<and> others p s t"
proof (cases "i_size ino < off \<or> 2 ^ 32 \<le> unat off + unat n")
  case True
  then show ?thesis using assms(3) uint_add_wraps [of off n] by (auto simp: readi_def)
next
  case False
  then have c: "off \<le> i_size (itable s ip)" "unat off + unat n < 2 ^ 32" using assms(3) by auto
  obtain t where t: "readi ip Local_dst off n s = Ret (int m, map (fbyte V (i_addrs ino)) [unat off..<unat off + m]) t"
    "bc p dev t (\<lambda>_. None) P V" "bframe p s t" "disk t = disk s" "dtrace t = dtrace s"
    by (rule readi_reads [OF assms(1,2) _ _ c _ assms(6)]) (use assms(3-5) in simp_all)
  then show ?thesis using False bframe_itable [OF t(3)] by (simp add: bframe_def)
qed

lemma writei_writes:
  fixes off :: uint
  assumes "txn p dev st s (\<lambda>_. None) L V" "ino = itable s ip" "dev = i_dev ino" "length (i_addrs ino) = NDIRECT + 1"
    and ib: "ib = IBLOCK (i_inum ino) (sb s)" "\<not> inlog st (unat ib)" "sound_file st ib V (i_addrs ino) hi"
    and "off \<le> i_size ino" "unat off + length bs \<le> hi * BSIZE" "length L + touched (unat off) (length bs) < LOGSIZE - 1"
  obtains t L' V' where "writei ip (Local_src bs) off (of_nat (length bs)) s = Ret (int (length bs)) t"
    "txn p dev st t (\<lambda>_. None) L' V'" "disk t = disk s" "length L' \<le> Suc (length L + touched (unat off) (length bs))"
    "itable t = (itable s)(ip := ino\<lparr>i_size := max (i_size ino) (off + of_nat (length bs))\<rparr>)"
    "sound_file st ib V' (i_addrs ino) hi" "get_dinode (V' ib) (unat (i_inum ino) mod IPB) = dinode_of (itable t ip)"
    "\<And>k. k < hi * BSIZE \<Longrightarrow> fbyte V' (i_addrs ino) k = patched (unat off) bs (fbyte V (i_addrs ino)) k"
proof -
  let ?n = "length bs" and ?u = "\<lambda>s'. if i_size ino < of_nat (unat off + length bs) then upd_ino ip (\<lambda>i. i\<lparr>i_size := of_nat (unat off + length bs)\<rparr>) s' else s'"
  have hi: "hi * BSIZE \<le> 274432" using ib(3) by (simp add: sound_file_def MAXFILE_def NDIRECT_def NINDIRECT_def BSIZE_def)
  then have small: "unat off + ?n < 2 ^ 32" using assms(9) by simp
  have u: "unat (off + of_nat ?n) = unat off + ?n" using word_add_small [OF small] .
  have g: "\<not> off + of_nat ?n < off" "\<not> of_nat (MAXFILE * BSIZE) < off + (of_nat ?n :: uint)"
    using u hi assms(9) by (simp_all add: word_less_nat_alt MAXFILE_def NDIRECT_def NINDIRECT_def BSIZE_def)
  obtain s1 L1 V1 where s1: "writei_loop ip (Local_src bs) (unat off) ?n 0 s = Ret (unat off + ?n, 0 + ?n) s1" "txn p dev st s1 (\<lambda>_. None) L1 V1"
    "tframe p s s1" "length L1 \<le> length L + touched (unat off) ?n" "sound_file st ib V1 (i_addrs ino) hi"
    "\<forall>k < hi * BSIZE. fbyte V1 (i_addrs ino) k = patched (unat off) bs (fbyte V (i_addrs ino)) k"
    using writei_loop_writes [OF assms(1) _ _ ib(3) assms(9) refl, where ip = ip and tot = 0] assms(2,3,10) by auto
  let ?s2 = "?u s1" and ?i = "ino\<lparr>i_size := max (i_size ino) (off + of_nat ?n)\<rparr>"
  have i1: "itable s1 = itable s" "sb s1 = sb s" using tframe_itable [OF s1(3)] by simp_all
  have i2: "itable ?s2 = (itable s)(ip := ?i)" "sb ?s2 = sb s" "disk ?s2 = disk s"
    using i1 assms(2) s1(3) by (auto simp: upd_ino_def max_def fun_eq_iff tframe_def)
  have t2: "txn p dev st ?s2 (\<lambda>_. None) L1 V1" using s1(2) by simp
  let ?k = "unat (i_inum ino) mod IPB" and ?d = "dinode_of ?i"
  have pre: "dev = i_dev (itable ?s2 ip)" "ib = IBLOCK (i_inum (itable ?s2 ip)) (sb ?s2)" "length L1 < LOGSIZE - 1"
    unfolding i2 using assms(3,10) ib(1) s1(4) by simp_all
  obtain t where t: "iupdate ip ?s2 = Ret () t" "tframe p ?s2 t"
    "txn p dev st t (\<lambda>_. None) (add_block ib L1) (V1(ib := put_dinode (unat (i_inum (itable ?s2 ip)) mod IPB) (dinode_of (itable ?s2 ip)) (V1 ib)))"
    by (rule iupdate_ok [OF t2 pre(1,2) ib(2) pre(3)])
  have V2: "unat (i_inum (itable ?s2 ip)) mod IPB = ?k" "dinode_of (itable ?s2 ip) = ?d" unfolding i2 by simp_all
  have it: "itable t = (itable s)(ip := ?i)" "disk t = disk s" using tframe_itable [OF t(2)] i2 t(2) by (auto simp: tframe_def)
  have w: "writei ip (Local_src bs) off (of_nat ?n) s = Ret (int ?n) t"
    using g s1(1) t(1) small i1(1) assms(2,8) by (simp add: writei_def unat32_of_nat Let_def not_less)
  have k: "?k < IPB" by (simp add: IPB_def BSIZE_def)
  have gd: "get_dinode (put_dinode ?k ?d (V1 ib)) ?k = ?d" by (rule get_put_dinode(1) [OF k]) (simp add: dinode_of_def assms(4))
  show thesis
  proof (rule that [OF w t(3) [unfolded V2] it(2) _ it(1)])
    show "length (add_block ib L1) \<le> Suc (length L + touched (unat off) ?n)" using s1(4) by (simp add: add_block_def)
    show "sound_file st ib (V1(ib := put_dinode ?k ?d (V1 ib))) (i_addrs ino) hi" by (rule sound_upd [OF s1(5)]) simp
    show "get_dinode ((V1(ib := put_dinode ?k ?d (V1 ib))) ib) ?k = dinode_of (itable t ip)" using gd it by simp
    show "fbyte (V1(ib := put_dinode ?k ?d (V1 ib))) (i_addrs ino) k = patched (unat off) bs (fbyte V (i_addrs ino)) k" if "k < hi * BSIZE" for k
      using fbyte_inode [OF s1(5) that] s1(6) that by simp
  qed
qed

text \<open>
  C15: inside a transaction, \<open>writei\<close> to blocks of a file that are already allocated (the first
  \<open>hi\<close> blocks; a write that has to allocate a block is not covered) stores exactly the given bytes
  at the given offset: every other byte of the file keeps its value, the size grows to the end of
  the write if that is past it, the inode in its disk block agrees with the one in

  memory, nothing has been sent to the disk, at most one block per touched block and one for the
  inode has been added to the log, and \<open>readi\<close> of the same range returns the bytes written.
\<close>

theorem writei_then_readi:
  fixes off :: uint
  assumes "txn p dev st s (\<lambda>_. None) L V" "ino = itable s ip" "dev = i_dev ino" "length (i_addrs ino) = NDIRECT + 1"
    and "ib = IBLOCK (i_inum ino) (sb s)" "\<not> inlog st (unat ib)" "sound_file st ib V (i_addrs ino) hi"
    and "off \<le> i_size ino" "unat off + length bs \<le> hi * BSIZE" "length L + touched (unat off) (length bs) < LOGSIZE - 1"
  shows "\<exists>t L' V'. writei ip (Local_src bs) off (of_nat (length bs)) s = Ret (int (length bs)) t \<and>
    txn p dev st t (\<lambda>_. None) L' V' \<and> disk t = disk s \<and> length L' \<le> Suc (length L + touched (unat off) (length bs)) \<and>
    itable t = (itable s)(ip := ino\<lparr>i_size := max (i_size ino) (off + of_nat (length bs))\<rparr>) \<and>
    get_dinode (V' ib) (unat (i_inum ino) mod IPB) = dinode_of (itable t ip) \<and>
    (\<forall>k < hi * BSIZE. fbyte V' (i_addrs ino) k = patched (unat off) bs (fbyte V (i_addrs ino)) k) \<and>
    (\<exists>u. readi ip Local_dst off (of_nat (length bs)) t = Ret (int (length bs), bs) u)"
proof -
  let ?n = "length bs"
  obtain t L' V' where w: "writei ip (Local_src bs) off (of_nat ?n) s = Ret (int ?n) t"
    "txn p dev st t (\<lambda>_. None) L' V'" "disk t = disk s" "length L' \<le> Suc (length L + touched (unat off) ?n)"
    "itable t = (itable s)(ip := ino\<lparr>i_size := max (i_size ino) (off + of_nat ?n)\<rparr>)"
    "sound_file st ib V' (i_addrs ino) hi" "get_dinode (V' ib) (unat (i_inum ino) mod IPB) = dinode_of (itable t ip)"
    "\<And>k. k < hi * BSIZE \<Longrightarrow> fbyte V' (i_addrs ino) k = patched (unat off) bs (fbyte V (i_addrs ino)) k"
    by (rule writei_writes [OF assms]) (rule that, assumption+)
  have "hi * BSIZE \<le> 274432" using assms(7) by (simp add: sound_file_def MAXFILE_def NDIRECT_def NINDIRECT_def BSIZE_def)
  then have small: "unat off + ?n < 2 ^ 32" using assms(9) by simp
  then have un: "unat (of_nat ?n :: uint) = ?n" by (intro unat32_of_nat) simp
  have m: "?n = min (unat (of_nat ?n :: uint)) (unat (i_size (itable t ip)) - unat off)"
    unfolding w(5) un using word_add_small [OF small] by (auto simp: max_def word_le_nat_alt)
  have "(unat off + ?n + (BSIZE - 1)) div BSIZE \<le> hi" using assms(9) by (simp add: BSIZE_def)
  then have f: "fmapped V' (i_addrs ino) (unat off div BSIZE) ((unat off + ?n + (BSIZE - 1)) div BSIZE)" by (rule sound_mapped [OF w(6)])
  have d: "distinct L'" using w(2) by (simp add: txn_def)
  have r: "room (\<lambda>_. None) (pins (set L'))"
    using w(4) assms(10) by (simp add: room_def used_txn distinct_card [OF d] NBUF_def LOGSIZE_def MAXOPBLOCKS_def)
  obtain u where u: "readi ip Local_dst off (of_nat ?n) t = Ret (int ?n, map (fbyte V' (i_addrs ino)) [unat off..<unat off + ?n]) u"
    by (rule readi_reads [OF txn_bc [OF w(2)] r _ _ _ _ m f])
      (use w(5) assms(3,8) small un in \<open>auto simp: max_def\<close>)
  have "map (fbyte V' (i_addrs ino)) [unat off..<unat off + ?n] = bs"
    by (rule nth_equalityI) (use w(8) assms(9) in \<open>simp_all add: patched_def\<close>)
  then show ?thesis using w u by auto
qed

text \<open>A file of two blocks whose last bytes are overwritten across the boundary, in a file system with
  the layout of \<^verbatim>\<open>mkfs\<close>: the log is blocks 2 to 31 and the inodes begin at block 32.\<close>

definition demo_sb :: superblock where
  "demo_sb = \<lparr>sb_magic = 0x10203040, sb_size = 2000, sb_nblocks = 1954, sb_ninodes = 200, sb_nlog = 30, sb_logstart = 2,
     sb_inodestart = 32, sb_bmapstart = 45\<rparr>"

definition demo_inode :: inode where
  "demo_inode = zero_inode\<lparr>i_dev := 1, i_inum := 1, i_ref := 1, i_valid := True, i_type := T_FILE, i_nlink := 1, i_size := 1023,
     i_addrs := [100, 101] @ replicate 11 0\<rparr>"

definition demo_fs :: "(nat \<Rightarrow> block) \<Rightarrow> flstate" where
  "demo_fs d = (upd_ino 0 (\<lambda>_. demo_inode) (upd_log (\<lambda>l. l\<lparr>lg_outstanding := 3\<rparr>) (file_boot d ())))\<lparr>sb := demo_sb\<rparr>"

lemma demo_fs_simps: "itable (demo_fs d) 0 = demo_inode" "sb (demo_fs d) = demo_sb"
  by (simp_all add: demo_fs_def upd_ino_def)

lemma txn_sb [simp]: "txn p dev st (s\<lparr>sb := x\<rparr>) H L V = txn p dev st s H L V"
proof -
  have "mach (s\<lparr>sb := x\<rparr>) = mach s" by (simp add: mach_def machine.defs)
  then have "calm p (s\<lparr>sb := x\<rparr>) = calm p s" by (rule calm_cong)
  then have "bc p dev (s\<lparr>sb := x\<rparr>) H P V = bc p dev s H P V" for P by (simp add: bc_def isbuf_def mypid_def)
  then show ?thesis by (simp add: txn_def log_lists_def)
qed

lemma demo_fs_txn: "txn 0 1 2 (demo_fs d) (\<lambda>_. None) [] (\<lambda>b. d (unat b))"
  by (simp add: demo_fs_def file_boot_def txn_boot)

lemma demo_fs_sound:
  assumes "ib \<notin> {100, 101}"
  shows "sound_file 2 ib V (i_addrs demo_inode) 2"
proof -
  have "{..<2} = {0, Suc 0}" by auto
  then show ?thesis
    using assms by (auto simp: sound_file_def demo_inode_def faddr_def NDIRECT_def MAXFILE_def NINDIRECT_def BSIZE_def
      inlog_def LOGSIZE_def MAXOPBLOCKS_def less_2_cases_iff)
qed

lemma demo_fs_bc: "bc 0 1 (demo_fs d) (\<lambda>_. None) (\<lambda>_. 0) (\<lambda>b. d (unat b))"
proof -
  have "pins (set []) = (\<lambda>_. 0)" by (simp add: pins_def fun_eq_iff)
  then show ?thesis using txn_bc [OF demo_fs_txn [of d]] by simp
qed

theorem readi_exact_witness:
  "\<exists>t. readi 0 Local_dst 1021 100 (demo_fs (\<lambda>b. if b = 100 then \<lambda>i. ucast i else (\<lambda>_. 0))) = Ret (2, [253, 254]) t"
proof -
  let ?d = "\<lambda>b. if b = 100 then \<lambda>i. ucast i else (\<lambda>_. 0)"
  have r: "room (\<lambda>_. None) (\<lambda>_. 0)" by (simp add: room_def used_def NBUF_def MAXOPBLOCKS_def)
  have f: "fmapped (\<lambda>b. ?d (unat b)) (i_addrs demo_inode) (unat (1021 :: uint) div BSIZE) ((unat (1021 :: uint) + 2 + (BSIZE - 1)) div BSIZE)"
    by (rule sound_mapped [OF demo_fs_sound [of 0]]) (simp_all add: BSIZE_def)
  have m: "2 = min (unat (100 :: uint)) (unat (i_size demo_inode) - unat (1021 :: uint))" by (simp add: demo_inode_def)
  have dev: "1 = i_dev demo_inode" by (simp add: demo_inode_def)
  have "map (fbyte (\<lambda>b. ?d (unat b)) (i_addrs demo_inode)) [1021..<1023] = [253, 254]"
    by (simp add: upt_conv_Cons fbyte_def faddr_def demo_inode_def NDIRECT_def BSIZE_def)
  then show ?thesis
    using readi_exact [OF demo_fs_bc [of ?d] r demo_fs_simps(1) [symmetric] dev m f] by (auto simp: demo_inode_def word_less_nat_alt)
qed

theorem writei_then_readi_witness:
  "\<exists>t u. writei 0 (Local_src [65, 66, 67, 68]) 1022 4 (demo_fs (\<lambda>_ _. 0)) = Ret 4 t \<and> i_size (itable t 0) = 1026 \<and>
    readi 0 Local_dst 1022 4 t = Ret (4, [65, 66, 67, 68]) u"
proof -
  have ib: "32 = IBLOCK (i_inum demo_inode) (sb (demo_fs (\<lambda>_ _. 0)))"
    by (simp add: IBLOCK_def demo_fs_simps demo_sb_def demo_inode_def IPB_def BSIZE_def)
  have dev: "1 = i_dev demo_inode" "length (i_addrs demo_inode) = NDIRECT + 1" by (simp_all add: demo_inode_def NDIRECT_def)
  have off: "(1022 :: uint) \<le> i_size demo_inode" "unat (1022 :: uint) + length [65, 66, 67, 68 :: byte] \<le> 2 * BSIZE"
    "length ([] :: uint list) + touched (unat (1022 :: uint)) (length [65, 66, 67, 68 :: byte]) < LOGSIZE - 1"
    by (simp_all add: demo_inode_def BSIZE_def touched_def LOGSIZE_def MAXOPBLOCKS_def)
  have "\<not> inlog 2 (unat (32 :: uint))" by (simp add: inlog_def LOGSIZE_def MAXOPBLOCKS_def)
  from writei_then_readi [OF demo_fs_txn demo_fs_simps(1) [symmetric] dev ib this demo_fs_sound off]
  show ?thesis by (auto simp: demo_inode_def max_def)
qed

end
