(* ===== verification/Mkfs.thy ===== *)
theory Mkfs
  imports Inodespec
begin

text \<open>
  \<^verbatim>\<open>mkfs/mkfs.c\<close>: the program that builds the disk image on the host.  The image file is the list of
  its sectors: writing a sector past the end fills the gap with zeros, reading past the end is a
  short read, on which the program dies.  \<open>Panic\<close> is an exit with status 1 or a failed assertion.
  Structures are stored in the byte layout that the kernel reads (\<open>put_dinode\<close>, \<open>de_encode\<close>); the
  host is little-endian.
\<close>

section \<open>The program\<close>

definition FSSIZE :: nat where "FSSIZE = 2000"
definition NINODES :: nat where "NINODES = 200"
definition nbitmap :: nat where "nbitmap = FSSIZE div (BSIZE * 8) + 1"
definition ninodeblocks :: nat where "ninodeblocks = NINODES div IPB + 1"
definition nlog :: nat where "nlog = LOGSIZE"
definition nmeta :: nat where "nmeta = 2 + nlog + ninodeblocks + nbitmap"

record mkfs =
  img :: "block list"
  mk_sb :: superblock
  freeinode :: uint
  freeblock :: uint

text \<open>The conversions to the byte order of the target: the bytes of the result are stored least significant first.\<close>

definition xshort :: "16 word \<Rightarrow> 16 word" where
  "xshort x = ucast (ucast x :: byte) OR push_bit 8 (ucast (ucast (drop_bit 8 x) :: byte))"

definition xint :: "uint \<Rightarrow> uint" where
  "xint x = ucast (ucast x :: byte) OR push_bit 8 (ucast (ucast (drop_bit 8 x) :: byte)) OR
     push_bit 16 (ucast (ucast (drop_bit 16 x) :: byte)) OR push_bit 24 (ucast (ucast (drop_bit 24 x) :: byte))"

text \<open>The offset of a sector is a 32-bit product.\<close>

definition sect :: "uint \<Rightarrow> nat" where
  "sect sec = unat (sec * of_nat BSIZE) div BSIZE"

definition put_sect :: "nat \<Rightarrow> block \<Rightarrow> block list \<Rightarrow> block list" where
  "put_sect k b f = (if k < length f then f[k := b] else f @ replicate (k - length f) (\<lambda>_. 0) @ [b])"

definition wsect :: "uint \<Rightarrow> block \<Rightarrow> mkfs \<Rightarrow> (mkfs, unit) outcome" where
  "wsect sec b s = Ret () (s\<lparr>img := put_sect (sect sec) b (img s)\<rparr>)"

definition rsect :: "uint \<Rightarrow> mkfs \<Rightarrow> (mkfs, block) outcome" where
  "rsect sec s = (if sect sec < length (img s) then Ret (img s ! sect sec) s else Panic ''read'')"

definition winode :: "uint \<Rightarrow> dinode \<Rightarrow> mkfs \<Rightarrow> (mkfs, unit) outcome" where
  "winode inum ip s =
     (let bn = IBLOCK inum (mk_sb s) in
      bnd (rsect bn s) (\<lambda>buf s. wsect bn (put_dinode (unat inum mod IPB) ip buf) s))"

definition rinode :: "uint \<Rightarrow> mkfs \<Rightarrow> (mkfs, dinode) outcome" where
  "rinode inum s =
     (let bn = IBLOCK inum (mk_sb s) in
      bnd (rsect bn s) (\<lambda>buf s. Ret (get_dinode buf (unat inum mod IPB)) s))"

definition mk_ialloc :: "16 word \<Rightarrow> mkfs \<Rightarrow> (mkfs, uint) outcome" where
  "mk_ialloc type s =
     (let inum = freeinode s; s = s\<lparr>freeinode := freeinode s + 1\<rparr>;
          din = \<lparr>d_type = xshort type, d_major = 0, d_minor = 0, d_nlink = xshort 1, d_size = xint 0,
                 d_addrs = replicate (NDIRECT + 1) 0\<rparr>
      in bnd (winode inum din s) (\<lambda>_ s. Ret inum s))"

definition mk_balloc :: "int \<Rightarrow> mkfs \<Rightarrow> (mkfs, unit) outcome" where
  "mk_balloc n s =
     (if \<not> n < int (BSIZE * 8) then Panic ''used < BSIZE*8''
      else wsect (sb_bmapstart (mk_sb s)) (fold bm_set [0..<nat n] (\<lambda>_. 0)) s)"

text \<open>The block of the file for block number \<open>fbn\<close>, allocated from the end of the used blocks if there is none.\<close>

definition mk_bmap :: "nat \<Rightarrow> dinode \<Rightarrow> mkfs \<Rightarrow> (mkfs, uint \<times> dinode) outcome" where
  "mk_bmap fbn din s =
     (let alloc = (\<lambda>i (din, s). if xint (d_addrs din ! i) = 0
            then (din\<lparr>d_addrs := (d_addrs din)[i := xint (freeblock s)]\<rparr>, s\<lparr>freeblock := freeblock s + 1\<rparr>) else (din, s)) in
      if fbn < NDIRECT then
        let (din, s) = alloc fbn (din, s) in Ret (xint (d_addrs din ! fbn), din) s
      else
        let (din, s) = alloc NDIRECT (din, s); j = 4 * (fbn - NDIRECT) in
        bnd (rsect (xint (d_addrs din ! NDIRECT)) s) (\<lambda>indirect s.
        bnd (if get_le 4 indirect j = (0 :: uint) then
               let indirect = put_le 4 j (xint (freeblock s)) indirect; s = s\<lparr>freeblock := freeblock s + 1\<rparr> in
               bnd (wsect (xint (d_addrs din ! NDIRECT)) indirect s) (\<lambda>_ s. Ret indirect s)
             else Ret indirect s) (\<lambda>indirect s.
        Ret (xint (get_le 4 indirect j), din) s)))"

function iappend_loop :: "byte list \<Rightarrow> uint \<Rightarrow> dinode \<Rightarrow> mkfs \<Rightarrow> (mkfs, uint \<times> dinode) outcome" where
  "iappend_loop p off din s =
     (if p = [] then Ret (off, din) s
      else
        let fbn = unat off div BSIZE in
        if \<not> fbn < MAXFILE then Panic ''fbn < MAXFILE''
        else
          bnd (mk_bmap fbn din s) (\<lambda>(x, din) s.
          let n1 = min (length p) ((fbn + 1) * BSIZE - unat off) in
          bnd (rsect x s) (\<lambda>buf s.
          bnd (wsect x (put_bytes (unat off - fbn * BSIZE) (take n1 p) buf) s) (\<lambda>_ s.
          iappend_loop (drop n1 p) (off + of_nat n1) din s))))"
  by pat_completeness auto
termination
proof (relation "measure (\<lambda>(p, off, din, s). length p)", goal_cases)
  case (2 p off)
  have "unat off < (unat off div BSIZE + 1) * BSIZE"
    using div_mult_mod_eq [of "unat off" BSIZE] mod_less_divisor [of BSIZE "unat off"]
    by (simp add: BSIZE_def)
  with 2 show ?case by simp
qed simp

declare iappend_loop.simps [simp del]

definition iappend :: "uint \<Rightarrow> byte list \<Rightarrow> mkfs \<Rightarrow> (mkfs, unit) outcome" where
  "iappend inum p s =
     bnd (rinode inum s) (\<lambda>din s.
     bnd (iappend_loop p (xint (d_size din)) din s) (\<lambda>(off, din) s.
     winode inum (din\<lparr>d_size := xint off\<rparr>) s))"

text \<open>
  \<open>main\<close> from the opening of the image on.  A file is its name on the command line and what the
  calls of \<open>read\<close> return for it, \<open>None\<close> when it cannot be opened.
\<close>

definition put_superblock :: "superblock \<Rightarrow> block" where
  "put_superblock x = put_le 4 28 (sb_bmapstart x) (put_le 4 24 (sb_inodestart x) (put_le 4 20 (sb_logstart x)
     (put_le 4 16 (sb_nlog x) (put_le 4 12 (sb_ninodes x) (put_le 4 8 (sb_nblocks x) (put_le 4 4 (sb_size x)
     (put_le 4 0 (sb_magic x) (\<lambda>_. 0))))))))"

definition shortname :: "byte list \<Rightarrow> byte list" where
  "shortname arg = (if strncmp_l 5 arg (str ''user/'') = 0 then drop 5 arg else arg)"

definition skip_underscore :: "byte list \<Rightarrow> byte list" where
  "skip_underscore nm = (if nm \<noteq> [] \<and> hd nm = 95 then tl nm else nm)"

definition mk_dirent :: "uint \<Rightarrow> byte list \<Rightarrow> byte list" where
  "mk_dirent inum nm = de_encode \<lparr>de_inum = xshort (ucast inum), de_name = strncpy_l DIRSIZ nm\<rparr>"

definition mk_file :: "byte list \<times> byte list list option \<Rightarrow> mkfs \<Rightarrow> (mkfs, unit) outcome" where
  "mk_file f s =
     (let nm = shortname (fst f) in
      if slash \<in> set nm then Panic ''index(shortname)''
      else case snd f of None \<Rightarrow> Panic ''open''
      | Some chunks \<Rightarrow>
          bnd (mk_ialloc T_FILE s) (\<lambda>inum s.
          bnd (iappend ROOTINO (mk_dirent inum (skip_underscore nm)) s) (\<lambda>_ s.
          for_each chunks (\<lambda>c s. iappend inum c s) s)))"

definition mk_super :: superblock where
  "mk_super = \<lparr>sb_magic = FSMAGIC, sb_size = xint (of_nat FSSIZE), sb_nblocks = xint (of_nat (FSSIZE - nmeta)),
     sb_ninodes = xint (of_nat NINODES), sb_nlog = xint (of_nat nlog), sb_logstart = xint 2,
     sb_inodestart = xint (of_nat (2 + nlog)), sb_bmapstart = xint (of_nat (2 + nlog + ninodeblocks))\<rparr>"

definition mk_root :: "mkfs \<Rightarrow> (mkfs, unit) outcome" where
  "mk_root s =
     bnd (mk_ialloc T_DIR s) (\<lambda>rootino s.
     if rootino \<noteq> ROOTINO then Panic ''rootino == ROOTINO''
     else
       bnd (iappend rootino (mk_dirent rootino (str ''.'')) s) (\<lambda>_ s.
       iappend rootino (mk_dirent rootino (str ''..'')) s))"

definition mk_finish :: "mkfs \<Rightarrow> (mkfs, unit) outcome" where
  "mk_finish s =
     bnd (rinode ROOTINO s) (\<lambda>din s.
     let off = xint (d_size din); off = (off div of_nat BSIZE + 1) * of_nat BSIZE in
     bnd (winode ROOTINO (din\<lparr>d_size := xint off\<rparr>) s) (\<lambda>_ s.
     mk_balloc (sint (freeblock s)) s))"

definition mkfs_main :: "(byte list \<times> byte list list option) list \<Rightarrow> (mkfs, unit) outcome" where
  "mkfs_main files =
     (let s = \<lparr>img = [], mk_sb = mk_super, freeinode = 1, freeblock = of_nat nmeta\<rparr> in
      bnd (for_each [0..<FSSIZE] (\<lambda>i s. wsect (of_nat i) (\<lambda>_. 0) s) s) (\<lambda>_ s.
      bnd (wsect 1 (put_superblock (mk_sb s)) s) (\<lambda>_ s.
      bnd (mk_root s) (\<lambda>_ s.
      bnd (for_each files mk_file s) (\<lambda>_ s.
      mk_finish s)))))"

end
