(* ===== verification/Mkfsspec.thy ===== *)
theory Mkfsspec
  imports Mkfs
begin

text \<open>
  The image that \<^verbatim>\<open>mkfs\<close> builds, in the terms in which the kernel reads it: super block, inodes,
  contents of the files, bitmap.
\<close>

section \<open>Sectors\<close>

lemma xint_id [simp]: "xint x = x"
proof (rule bit_word_eqI)
  fix n assume "n < LENGTH(32)"
  then have "n < 8 \<or> 8 \<le> n \<and> n < 16 \<or> 16 \<le> n \<and> n < 24 \<or> 24 \<le> n \<and> n < 32" by auto
  then show "bit (xint x) n \<longleftrightarrow> bit x n" by (auto simp: xint_def bit_simps)
qed

lemma xshort_id [simp]: "xshort x = x"
proof (rule bit_word_eqI)
  fix n assume "n < LENGTH(16)"
  then have "n < 8 \<or> 8 \<le> n \<and> n < 16" by auto
  then show "bit (xshort x) n \<longleftrightarrow> bit x n" by (auto simp: xshort_def bit_simps)
qed

lemma layout_values: "nmeta = 46" "nlog = 30" "ninodeblocks = 13" "NDIRECT = 12" "MAXFILE = 268" "IPB = 16" "FSSIZE = 2000" "BSIZE = 1024"
  by (simp_all add: nmeta_def nlog_def ninodeblocks_def nbitmap_def NDIRECT_def MAXFILE_def NINDIRECT_def IPB_def FSSIZE_def BSIZE_def
    NINODES_def LOGSIZE_def MAXOPBLOCKS_def)

lemma sect_small: "unat x < FSSIZE \<Longrightarrow> sect x = unat x"
proof -
  assume "unat x < FSSIZE"
  then have "unat (x * 1024) = unat x * 1024" by (subst unat_mult_lem [THEN iffD1]) (simp_all add: layout_values)
  then show ?thesis by (simp add: sect_def layout_values)
qed

text \<open>The log area of \<open>Logspec\<close> is what \<open>mkfs\<close> leaves between the super block and the inodes, and the demonstration
  file system of \<open>Inodespec\<close> has the super block of \<open>mkfs\<close>.\<close>

lemma inlog_layout: "inlog (unat (sb_logstart mk_super)) b \<longleftrightarrow> unat (sb_logstart mk_super) \<le> b \<and> b < unat (sb_inodestart mk_super)"
  by (simp add: inlog_def mk_super_def layout_values LOGSIZE_def MAXOPBLOCKS_def)

lemma demo_sb_layout: "demo_sb = mk_super"
  by (simp add: demo_sb_def mk_super_def layout_values FSMAGIC_def NINODES_def)

definition iview :: "mkfs \<Rightarrow> uint \<Rightarrow> block" where
  "iview s x = img s ! unat x"

definition poke :: "uint \<Rightarrow> block \<Rightarrow> mkfs \<Rightarrow> mkfs" where
  "poke x b s = s\<lparr>img := (img s)[unat x := b]\<rparr>"

lemma poke_fields [simp]: "length (img (poke x b s)) = length (img s)" "mk_sb (poke x b s) = mk_sb s"
  "freeinode (poke x b s) = freeinode s" "freeblock (poke x b s) = freeblock s"
  by (simp_all add: poke_def)

lemma iview_poke [simp]: "unat x < length (img s) \<Longrightarrow> iview (poke x b s) = (iview s)(x := b)"
  by (rule ext) (simp add: iview_def poke_def nth_list_update word_unat_eq_iff eq_commute)

lemma iview_fields [simp]: "iview (s\<lparr>freeblock := f\<rparr>) = iview s" "iview (s\<lparr>freeinode := i\<rparr>) = iview s"
  by (simp_all add: iview_def fun_eq_iff)

lemma sector_io:
  assumes "length (img s) = FSSIZE" "unat x < FSSIZE"
  shows "rsect x s = Ret (iview s x) s" "wsect x b s = Ret () (poke x b s)"
  using assms by (simp_all add: rsect_def wsect_def sect_small iview_def poke_def put_sect_def)

lemma get_le_zero: "get_le k (\<lambda>_. 0) off = 0"
proof -
  have "as_mem (\<lambda>_. 0) = (\<lambda>_. 0)" by (simp add: as_mem_def fun_eq_iff)
  moreover have "load_le k (\<lambda>_. 0) a = 0" for a by (induction k arbitrary: a) simp_all
  ultimately show ?thesis by (simp add: get_le_def)
qed

section \<open>The blocks of a file\<close>

text \<open>
  \<open>laid_out lim V addrs hi ind\<close>: blocks \<open>0..<hi\<close> of the file are allocated below \<open>lim\<close>, all different, the
  indirect block exists iff \<open>ind\<close> and is none of them, and every later entry is 0.
\<close>

definition fblocks :: "(uint \<Rightarrow> block) \<Rightarrow> uint list \<Rightarrow> nat \<Rightarrow> bool \<Rightarrow> uint set" where
  "fblocks V addrs hi ind = faddr V addrs ` {..<hi} \<union> (if ind then {addrs ! NDIRECT} else {})"

definition laid_out :: "nat \<Rightarrow> (uint \<Rightarrow> block) \<Rightarrow> uint list \<Rightarrow> nat \<Rightarrow> bool \<Rightarrow> bool" where
  "laid_out lim V addrs hi ind \<longleftrightarrow> length addrs = NDIRECT + 1 \<and> hi \<le> MAXFILE \<and> (NDIRECT < hi \<longrightarrow> ind) \<and>
     inj_on (faddr V addrs) {..<hi} \<and> (ind \<longrightarrow> addrs ! NDIRECT \<notin> faddr V addrs ` {..<hi}) \<and>
     (\<forall>b \<in> fblocks V addrs hi ind. nmeta \<le> unat b \<and> unat b < lim) \<and> (\<not> ind \<longrightarrow> addrs ! NDIRECT = 0) \<and>
     (\<forall>bn. hi \<le> bn \<longrightarrow> bn < MAXFILE \<longrightarrow> bn < NDIRECT \<or> ind \<longrightarrow> faddr V addrs bn = 0)"

lemma faddr_cong: "(NDIRECT \<le> bn \<Longrightarrow> V' (addrs ! NDIRECT) = V (addrs ! NDIRECT)) \<Longrightarrow> faddr V' addrs bn = faddr V addrs bn"
  by (simp add: faddr_def)

text \<open>Changing blocks outside the file does not touch it.\<close>

lemma laid_out_frame:
  assumes "laid_out lim V addrs hi ind" "\<And>b. b \<in> fblocks V addrs hi ind \<Longrightarrow> V' b = V b"
  shows "laid_out lim V' addrs hi ind" "fblocks V' addrs hi ind = fblocks V addrs hi ind"
    "k < hi * BSIZE \<Longrightarrow> fbyte V' addrs k = fbyte V addrs k"
proof -
  have i: "ind \<Longrightarrow> V' (addrs ! NDIRECT) = V (addrs ! NDIRECT)" using assms(2) by (simp add: fblocks_def)
  have e: "faddr V' addrs bn = faddr V addrs bn" if "bn < NDIRECT \<or> ind" for bn
    using that i by (intro faddr_cong) auto
  have h: "bn < hi \<Longrightarrow> bn < NDIRECT \<or> ind" for bn using assms(1) by (auto simp: laid_out_def)
  have im: "faddr V' addrs ` {..<hi} = faddr V addrs ` {..<hi}" using e h by (auto simp: image_iff)
  show f: "fblocks V' addrs hi ind = fblocks V addrs hi ind" by (simp add: fblocks_def im)
  have "inj_on (faddr V' addrs) {..<hi} = inj_on (faddr V addrs) {..<hi}" using e h by (intro inj_on_cong) auto
  then show "laid_out lim V' addrs hi ind" using assms(1) e im f unfolding laid_out_def by auto
  assume "k < hi * BSIZE"
  then have "k div BSIZE < hi" by (simp add: less_mult_imp_div_less)
  then show "fbyte V' addrs k = fbyte V addrs k"
    using e h assms(2) [of "faddr V addrs (k div BSIZE)"] by (auto simp: fbyte_def fblocks_def)
qed

lemma laid_out_mono: "laid_out lim V addrs hi ind \<Longrightarrow> lim \<le> lim' \<Longrightarrow> laid_out lim' V addrs hi ind"
  by (fastforce simp: laid_out_def)

text \<open>The three ways in which a file grows.\<close>

lemma grow_direct:
  assumes "laid_out lim V addrs hi ind" "hi < NDIRECT" "unat a = lim" "nmeta \<le> lim"
  shows "laid_out (Suc lim) V (addrs[hi := a]) (Suc hi) ind" "faddr V (addrs[hi := a]) hi = a"
    "fblocks V (addrs[hi := a]) (Suc hi) ind = insert a (fblocks V addrs hi ind)"
    "k < hi * BSIZE \<Longrightarrow> fbyte V (addrs[hi := a]) k = fbyte V addrs k"
proof -
  have l: "length addrs = NDIRECT + 1" using assms(1) by (simp add: laid_out_def)
  have e: "faddr V (addrs[hi := a]) bn = (if bn = hi then a else faddr V addrs bn)" for bn
    using l assms(2) by (simp add: faddr_def nth_list_update)
  have n: "addrs[hi := a] ! NDIRECT = addrs ! NDIRECT" using assms(2) by simp
  have im: "faddr V (addrs[hi := a]) ` {..<Suc hi} = insert a (faddr V addrs ` {..<hi})"
    by (auto simp: e lessThan_Suc)
  show fb: "fblocks V (addrs[hi := a]) (Suc hi) ind = insert a (fblocks V addrs hi ind)"
    unfolding fblocks_def im n by auto
  have fresh: "a \<notin> fblocks V addrs hi ind" using assms(1,3) by (auto simp: laid_out_def)
  then have "inj_on (faddr V (addrs[hi := a])) {..<Suc hi}"
    using assms(1) by (auto simp: laid_out_def inj_on_def e fblocks_def lessThan_Suc)
  then show "laid_out (Suc lim) V (addrs[hi := a]) (Suc hi) ind"
    using laid_out_mono [OF assms(1), of "Suc lim"] assms(2-4) l fresh unfolding laid_out_def fb n im
    by (auto simp: e fblocks_def layout_values)
  show "faddr V (addrs[hi := a]) hi = a" by (simp add: e)
  assume "k < hi * BSIZE"
  then have "k div BSIZE < hi" by (simp add: less_mult_imp_div_less)
  then show "fbyte V (addrs[hi := a]) k = fbyte V addrs k" by (simp add: fbyte_def e)
qed

lemma grow_indirect:
  assumes "laid_out lim V addrs hi False" "unat a = lim" "nmeta \<le> lim" "V a = (\<lambda>_. 0)"
  shows "laid_out (Suc lim) V (addrs[NDIRECT := a]) hi True"
    "fblocks V (addrs[NDIRECT := a]) hi True = insert a (fblocks V addrs hi False)"
    "k < hi * BSIZE \<Longrightarrow> fbyte V (addrs[NDIRECT := a]) k = fbyte V addrs k"
proof -
  have l: "length addrs = NDIRECT + 1" "hi \<le> NDIRECT" using assms(1) by (auto simp: laid_out_def)
  have e: "faddr V (addrs[NDIRECT := a]) bn = (if bn < NDIRECT then faddr V addrs bn else 0)" for bn
    using l(1) assms(4) by (simp add: faddr_def get_le_zero)
  have im: "faddr V (addrs[NDIRECT := a]) ` {..<hi} = faddr V addrs ` {..<hi}" using l(2) by (auto simp: e image_iff)
  show fb: "fblocks V (addrs[NDIRECT := a]) hi True = insert a (fblocks V addrs hi False)"
    unfolding fblocks_def im using l(1) by simp
  have fresh: "a \<notin> fblocks V addrs hi False" using assms(1,2) by (auto simp: laid_out_def)
  have "inj_on (faddr V (addrs[NDIRECT := a])) {..<hi} = inj_on (faddr V addrs) {..<hi}"
    using l(2) by (intro inj_on_cong) (simp add: e)
  then show "laid_out (Suc lim) V (addrs[NDIRECT := a]) hi True"
    using laid_out_mono [OF assms(1), of "Suc lim"] assms(2-4) l fresh unfolding laid_out_def fb im
    by (auto simp: e fblocks_def)
  assume "k < hi * BSIZE"
  then have "k div BSIZE < hi" by (simp add: less_mult_imp_div_less)
  then show "fbyte V (addrs[NDIRECT := a]) k = fbyte V addrs k" using l(2) by (simp add: fbyte_def e)
qed

lemma grow_entry:
  assumes "laid_out lim V addrs hi True" "NDIRECT \<le> hi" "hi < MAXFILE" "unat a = lim" "nmeta \<le> lim"
  defines "d \<equiv> addrs ! NDIRECT"
  defines "V' \<equiv> V(d := put_le 4 (4 * (hi - NDIRECT)) a (V d))"
  shows "laid_out (Suc lim) V' addrs (Suc hi) True" "faddr V' addrs hi = a"
    "fblocks V' addrs (Suc hi) True = insert a (fblocks V addrs hi True)"
    "k < hi * BSIZE \<Longrightarrow> fbyte V' addrs k = fbyte V addrs k"
proof -
  have e: "faddr V' addrs bn = (if bn = hi then a else faddr V addrs bn)" if "bn < MAXFILE" for bn
  proof -
    have "4 * (bn - NDIRECT) + 4 \<le> 1024" "4 * (hi - NDIRECT) + 4 \<le> 1024" using that assms(3) by (simp_all add: layout_values)
    moreover have "bn = hi \<or> bn < NDIRECT \<or> 4 * (hi - NDIRECT) + 4 \<le> 4 * (bn - NDIRECT) \<or> 4 * (bn - NDIRECT) + 4 \<le> 4 * (hi - NDIRECT)"
      using assms(2) by linarith
    ultimately show ?thesis using assms(2)
      by (auto simp: faddr_def V'_def d_def get_put_le get_put_le_other [where k = 4 and k' = 4])
  qed
  have im: "faddr V' addrs ` {..<Suc hi} = insert a (faddr V addrs ` {..<hi})"
    using assms(3) e by (auto simp: lessThan_Suc image_iff)
  show fb: "fblocks V' addrs (Suc hi) True = insert a (fblocks V addrs hi True)" unfolding fblocks_def im by auto
  have fresh: "a \<notin> fblocks V addrs hi True" using assms(1,4) by (auto simp: laid_out_def)
  then have "inj_on (faddr V' addrs) {..<Suc hi}"
    using assms(1,3) e by (auto simp: laid_out_def inj_on_def fblocks_def lessThan_Suc)
  then show "laid_out (Suc lim) V' addrs (Suc hi) True"
    using laid_out_mono [OF assms(1), of "Suc lim"] assms(3-5) fresh unfolding laid_out_def fb im
    by (auto simp: e fblocks_def)
  show "faddr V' addrs hi = a" using e assms(3) by simp
  assume "k < hi * BSIZE"
  then have k: "k div BSIZE < hi" by (simp add: less_mult_imp_div_less)
  then have "faddr V addrs (k div BSIZE) \<in> faddr V addrs ` {..<hi}" by simp
  then have "faddr V addrs (k div BSIZE) \<noteq> d" using assms(1) by (auto simp only: laid_out_def d_def)
  then show "fbyte V' addrs k = fbyte V addrs k" using k e assms(3) by (simp add: fbyte_def V'_def)
qed

section \<open>Allocation\<close>

text \<open>The number of blocks of a file with \<open>hi\<close> data blocks, and of data blocks for \<open>n\<close> bytes.\<close>

definition blk :: "nat \<Rightarrow> nat" where
  "blk hi = hi + (if NDIRECT < hi then 1 else 0)"

definition cblk :: "nat \<Rightarrow> nat" where
  "cblk n = (n + BSIZE - 1) div BSIZE"

definition image_ok :: "mkfs \<Rightarrow> bool" where
  "image_ok s \<longleftrightarrow> length (img s) = FSSIZE \<and> mk_sb s = mk_super \<and> nmeta \<le> unat (freeblock s) \<and> unat (freeblock s) \<le> FSSIZE \<and>
     (\<forall>b. freeblock s \<le> b \<longrightarrow> unat b < FSSIZE \<longrightarrow> iview s b = (\<lambda>_. 0))"

lemma freeblock_next: "unat (f :: uint) < FSSIZE \<Longrightarrow> unat (f + 1) = Suc (unat f)"
  using word_add_small [of f 1] by (simp add: layout_values)

lemma image_ok_bump:
  assumes "image_ok s" "unat (freeblock s) < FSSIZE"
  shows "image_ok (s\<lparr>freeblock := freeblock s + 1\<rparr>)"
proof -
  note f = freeblock_next [OF assms(2)]
  have "freeblock s \<le> b" if "freeblock s + 1 \<le> b" for b using that f by (simp add: word_le_nat_alt)
  then show ?thesis using assms f by (auto simp: image_ok_def)
qed

lemma image_ok_poke:
  assumes "image_ok s" "unat x < unat (freeblock s)"
  shows "image_ok (poke x b s)" "iview (poke x b s) = (iview s)(x := b)" "wsect x b s = Ret () (poke x b s)"
    "rsect x s = Ret (iview s x) s"
proof -
  have x: "unat x < FSSIZE" "length (img s) = FSSIZE" using assms by (auto simp: image_ok_def)
  show v: "iview (poke x b s) = (iview s)(x := b)" using x by simp
  show "wsect x b s = Ret () (poke x b s)" "rsect x s = Ret (iview s x) s" using sector_io x by blast+
  show "image_ok (poke x b s)" using assms unfolding image_ok_def v by (auto simp: word_le_nat_alt)
qed

lemma laid_out_known:
  assumes "laid_out lim V addrs hi ind" "bn < hi"
  shows "faddr V addrs bn \<noteq> 0" "unat (faddr V addrs bn) < lim" "NDIRECT < hi \<Longrightarrow> addrs ! NDIRECT \<noteq> 0 \<and> unat (addrs ! NDIRECT) < lim"
proof -
  have r: "\<And>b. b \<in> fblocks V addrs hi ind \<Longrightarrow> nmeta \<le> unat b \<and> unat b < lim" and i: "NDIRECT < hi \<longrightarrow> ind"
    using assms(1) by (auto simp: laid_out_def)
  have z: "nmeta \<le> unat b \<Longrightarrow> b \<noteq> 0" for b :: uint by (auto simp: layout_values)
  have "faddr V addrs bn \<in> fblocks V addrs hi ind" using assms(2) by (simp add: fblocks_def)
  then show "faddr V addrs bn \<noteq> 0" "unat (faddr V addrs bn) < lim" using r z by blast+
  assume "NDIRECT < hi"
  then have "addrs ! NDIRECT \<in> fblocks V addrs hi ind" using i by (simp add: fblocks_def)
  then show "addrs ! NDIRECT \<noteq> 0 \<and> unat (addrs ! NDIRECT) < lim" using r z by blast
qed

lemma mk_bmap_old:
  assumes "image_ok s" "laid_out (unat (freeblock s)) (iview s) (d_addrs din) hi (NDIRECT < hi)" "fbn < hi"
  shows "mk_bmap fbn din s = Ret (faddr (iview s) (d_addrs din) fbn, din) s"
proof (cases "fbn < NDIRECT")
  case True
  then show ?thesis using laid_out_known(1) [OF assms(2,3)] by (simp add: mk_bmap_def faddr_def)
next
  case False
  then have "NDIRECT < hi" using assms(3) by simp
  note k = laid_out_known(1) [OF assms(2,3)] laid_out_known(3) [OF assms(2,3) this]
  have "rsect (d_addrs din ! NDIRECT) s = Ret (iview s (d_addrs din ! NDIRECT)) s"
    by (rule image_ok_poke(4) [OF assms(1)]) (use k in simp)
  then show ?thesis using False k by (simp add: mk_bmap_def faddr_def)
qed

lemma mk_bmap_direct:
  assumes "image_ok s" "laid_out (unat (freeblock s)) (iview s) (d_addrs din) hi False" "hi < NDIRECT"
  shows "mk_bmap hi din s = Ret (freeblock s, din\<lparr>d_addrs := (d_addrs din)[hi := freeblock s]\<rparr>) (s\<lparr>freeblock := freeblock s + 1\<rparr>)"
proof -
  have "faddr (iview s) (d_addrs din) hi = 0" "length (d_addrs din) = NDIRECT + 1"
    using assms(2,3) by (auto simp: laid_out_def layout_values)
  then show ?thesis using assms(3) by (simp add: mk_bmap_def faddr_def)
qed

text \<open>With the indirect block in place.\<close>

lemma mk_bmap_entry:
  assumes "image_ok s" "laid_out (unat (freeblock s)) (iview s) (d_addrs din) hi True" "NDIRECT \<le> hi" "hi < MAXFILE"
  defines "x \<equiv> d_addrs din ! NDIRECT"
  shows "mk_bmap hi din s = Ret (freeblock s, din)
    (poke x (put_le 4 (4 * (hi - NDIRECT)) (freeblock s) (iview s x)) (s\<lparr>freeblock := freeblock s + 1\<rparr>))"
proof -
  have x: "nmeta \<le> unat x" "unat x < unat (freeblock s)" using assms(2) by (auto simp: laid_out_def fblocks_def x_def)
  have "x \<noteq> 0" using x(1) by (auto simp: layout_values)
  moreover have "get_le 4 (iview s x) (4 * (hi - NDIRECT)) = (0 :: uint)"
    using assms(2-4) by (auto simp: laid_out_def faddr_def x_def)
  moreover have "4 * (hi - NDIRECT) + 4 \<le> 1024" using assms(3,4) by (simp add: layout_values)
  moreover have "length (img s) = FSSIZE" "unat x < FSSIZE" using assms(1) x by (simp_all add: image_ok_def)
  ultimately show ?thesis using assms(3) sector_io [of s x] sector_io [of "s\<lparr>freeblock := freeblock s + 1\<rparr>" x]
    by (simp add: mk_bmap_def x_def get_put_le Let_def)
qed

lemma mk_bmap_indirect:
  assumes "image_ok s" "laid_out (unat (freeblock s)) (iview s) (d_addrs din) NDIRECT False"
  shows "mk_bmap NDIRECT din s =
    mk_bmap NDIRECT (din\<lparr>d_addrs := (d_addrs din)[NDIRECT := freeblock s]\<rparr>) (s\<lparr>freeblock := freeblock s + 1\<rparr>)"
proof -
  have "d_addrs din ! NDIRECT = 0" "length (d_addrs din) = NDIRECT + 1" "freeblock s \<noteq> 0"
    using assms by (auto simp: laid_out_def image_ok_def layout_values)
  then show ?thesis by (simp add: mk_bmap_def)
qed

text \<open>What an allocation does, whichever block the file is given.\<close>

definition grown :: "mkfs \<Rightarrow> uint list \<Rightarrow> nat \<Rightarrow> mkfs \<Rightarrow> uint list \<Rightarrow> nat \<Rightarrow> bool" where
  "grown s as hi t bs hi' \<longleftrightarrow> image_ok t \<and> freeinode t = freeinode s \<and>
     laid_out (unat (freeblock t)) (iview t) bs hi' (NDIRECT < hi') \<and>
     (\<forall>b. b \<notin> fblocks (iview t) bs hi' (NDIRECT < hi') \<longrightarrow> iview t b = iview s b) \<and>
     (\<forall>b \<in> fblocks (iview t) bs hi' (NDIRECT < hi'). b \<in> fblocks (iview s) as hi (NDIRECT < hi) \<or> freeblock s \<le> b) \<and>
     (\<forall>k < hi * BSIZE. fbyte (iview t) bs k = fbyte (iview s) as k) \<and>
     unat (freeblock t) + blk hi = unat (freeblock s) + blk hi'"

lemma mk_bmap_new:
  assumes ok: "image_ok s" and lay: "laid_out (unat (freeblock s)) (iview s) (d_addrs din) hi (NDIRECT < hi)" and "hi < MAXFILE"
    and room: "unat (freeblock s) + blk (Suc hi) \<le> FSSIZE + blk hi"
  obtains x bs t where "mk_bmap hi din s = Ret (x, din\<lparr>d_addrs := bs\<rparr>) t" "grown s (d_addrs din) hi t bs (Suc hi)"
    "x = faddr (iview t) bs hi" "iview t x = (\<lambda>_. 0)"
proof -
  let ?f = "freeblock s" and ?as = "d_addrs din"
  have lim: "nmeta \<le> unat ?f" and free: "unat ?f < FSSIZE" using ok room by (simp_all add: image_ok_def blk_def split: if_splits)
  have z: "iview s ?f = (\<lambda>_. 0)" using ok free by (simp add: image_ok_def)
  note f1 = freeblock_next [OF free]
  consider "hi < NDIRECT" | "NDIRECT < hi" | "hi = NDIRECT" by linarith
  then show thesis
  proof cases
    case 1
    let ?t = "s\<lparr>freeblock := ?f + 1\<rparr>"
    have l: "laid_out (unat ?f) (iview s) ?as hi False" using lay 1 by simp
    note g = grow_direct [OF l 1 refl lim]
    show thesis
      by (rule that [OF mk_bmap_direct [OF ok l 1]])
        (use g 1 z f1 image_ok_bump [OF ok free] in \<open>auto simp: grown_def blk_def\<close>)
  next
    case 2
    let ?x = "?as ! NDIRECT"
    let ?t = "poke ?x (put_le 4 (4 * (hi - NDIRECT)) ?f (iview s ?x)) (s\<lparr>freeblock := ?f + 1\<rparr>)"
    have l: "laid_out (unat ?f) (iview s) ?as hi True" using lay 2 by simp
    have le: "NDIRECT \<le> hi" using 2 by simp
    have x: "unat ?x < unat ?f" "?x \<in> fblocks (iview s) ?as hi True" using l by (auto simp: laid_out_def fblocks_def)
    note g = grow_entry [OF l le assms(3) refl lim]
    note p = image_ok_poke [OF image_ok_bump [OF ok free], of ?x]
    have v: "iview ?t = (iview s)(?x := put_le 4 (4 * (hi - NDIRECT)) ?f (iview s ?x))" using p(2) x f1 by simp
    have gr: "grown s ?as hi ?t ?as (Suc hi)" unfolding grown_def v using p(1) g x f1 2 by (auto simp: blk_def)
    have a: "?f = faddr (iview ?t) ?as hi" "iview ?t ?f = (\<lambda>_. 0)" unfolding v using g(2) x z by auto
    have "mk_bmap hi din s = Ret (?f, din\<lparr>d_addrs := ?as\<rparr>) ?t" using mk_bmap_entry [OF ok l le assms(3)] by simp
    from that [OF this gr a] show thesis .
  next
    case 3
    let ?bs = "?as[NDIRECT := ?f]" and ?u = "s\<lparr>freeblock := ?f + 1\<rparr>"
    let ?t = "poke ?f (put_le 4 0 (?f + 1) (iview s ?f)) (s\<lparr>freeblock := ?f + 1 + 1\<rparr>)"
    have l: "laid_out (unat ?f) (iview s) ?as NDIRECT False" using lay 3 by simp
    have len: "length ?as = NDIRECT + 1" using l by (simp add: laid_out_def)
    note h = grow_indirect [OF l refl lim z]
    have ou: "image_ok ?u" and fu: "unat (?f + 1) < FSSIZE"
      using image_ok_bump [OF ok free] room f1 3 by (simp_all add: blk_def)
    note f2 = freeblock_next [OF fu]
    have lu: "laid_out (unat (freeblock ?u)) (iview ?u) ?bs NDIRECT True" using h(1) f1 by simp
    have g: "laid_out (Suc (unat (?f + 1))) (iview ?t) ?bs (Suc NDIRECT) True" "faddr (iview ?t) ?bs NDIRECT = ?f + 1"
      "fblocks (iview ?t) ?bs (Suc NDIRECT) True = insert (?f + 1) (fblocks (iview s) ?bs NDIRECT True)"
      "\<And>k. k < NDIRECT * BSIZE \<Longrightarrow> fbyte (iview ?t) ?bs k = fbyte (iview s) ?bs k"
      using grow_entry [OF lu, of "?f + 1"] ok free f1 lim len by (simp_all add: image_ok_def layout_values)
    have v: "iview ?t = (iview s)(?f := put_le 4 0 (?f + 1) (iview s ?f))" using ok free by (simp add: image_ok_def)
    have ot: "image_ok ?t" using image_ok_poke(1) [OF image_ok_bump [OF ou], of ?f] fu f1 f2 by simp
    have "mk_bmap hi din s = mk_bmap NDIRECT (din\<lparr>d_addrs := ?bs\<rparr>) ?u" using mk_bmap_indirect [OF ok l] 3 by simp
    also have "\<dots> = Ret (?f + 1, din\<lparr>d_addrs := ?bs\<rparr>) ?t"
      using mk_bmap_entry [OF ou, of "din\<lparr>d_addrs := ?bs\<rparr>" NDIRECT] lu len by (simp add: layout_values)
    finally have m: "mk_bmap hi din s = Ret (?f + 1, din\<lparr>d_addrs := ?bs\<rparr>) ?t" .
    have "?f \<le> ?f + 1" using f1 by (simp add: word_le_nat_alt)
    then have gr: "grown s ?as hi ?t ?bs (Suc hi)"
      unfolding grown_def using ot g h f1 f2 3 v by (auto simp: blk_def)
    have a: "?f + 1 = faddr (iview ?t) ?bs hi" using g(2) 3 by metis
    have b: "iview ?t (?f + 1) = (\<lambda>_. 0)" using ok fu v \<open>?f \<le> ?f + 1\<close> by (auto simp: image_ok_def)
    show thesis by (rule that [OF m gr a b])

  qed
qed

section \<open>The contents of the files\<close>

text \<open>
  \<open>holds\<close>: the file with the addresses \<open>as\<close> has the contents \<open>c\<close>, followed by zeros up to the end of
  its last block.  \<open>data_inv s As cs\<close>: file \<open>i\<close> has addresses \<open>As ! i\<close> and contents \<open>cs ! i\<close>, no two
  files share a block, and the allocated blocks are exactly those of the files.
\<close>

definition file_set :: "(uint \<Rightarrow> block) \<Rightarrow> uint list \<Rightarrow> byte list \<Rightarrow> uint set" where
  "file_set V as c = fblocks V as (cblk (length c)) (NDIRECT < cblk (length c))"

definition holds :: "nat \<Rightarrow> (uint \<Rightarrow> block) \<Rightarrow> uint list \<Rightarrow> byte list \<Rightarrow> bool" where
  "holds lim V as c \<longleftrightarrow> laid_out lim V as (cblk (length c)) (NDIRECT < cblk (length c)) \<and>
     (\<forall>k < cblk (length c) * BSIZE. fbyte V as k = (if k < length c then c ! k else 0))"

definition data_inv :: "mkfs \<Rightarrow> uint list list \<Rightarrow> byte list list \<Rightarrow> bool" where
  "data_inv s As cs \<longleftrightarrow> image_ok s \<and> length As = length cs \<and>
     (\<forall>i < length cs. holds (unat (freeblock s)) (iview s) (As ! i) (cs ! i)) \<and>
     (\<forall>i < length cs. \<forall>j < length cs. i \<noteq> j \<longrightarrow>
        file_set (iview s) (As ! i) (cs ! i) \<inter> file_set (iview s) (As ! j) (cs ! j) = {}) \<and>
     unat (freeblock s) = nmeta + sum_list (map (\<lambda>c. blk (cblk (length c))) cs)"

lemma holds_frame:
  assumes "holds lim V as c" "\<And>b. b \<in> file_set V as c \<Longrightarrow> V' b = V b" "lim \<le> lim'"
  shows "holds lim' V' as c" "file_set V' as c = file_set V as c"
proof -
  have l: "laid_out lim V as (cblk (length c)) (NDIRECT < cblk (length c))" using assms(1) by (simp add: holds_def)
  note f = laid_out_frame [OF l, of V']
  show "file_set V' as c = file_set V as c" using f(2) assms(2) by (simp add: file_set_def)
  show "holds lim' V' as c" using assms(1) f(1,3) assms(2) laid_out_mono [OF _ assms(3)] by (simp add: holds_def file_set_def)
qed

lemma grown_refl:
  assumes "image_ok s" "laid_out (unat (freeblock s)) (iview s) as hi (NDIRECT < hi)"
  shows "grown s as hi s as hi"
  using assms by (simp add: grown_def)

lemma laid_out_sound:
  assumes "laid_out lim V as hi (NDIRECT < hi)" "unat ib < nmeta"
  shows "sound_file 2 ib V as hi"
proof -
  have r: "\<And>b. b \<in> fblocks V as hi (NDIRECT < hi) \<Longrightarrow> nmeta \<le> unat b" using assms(1) by (auto simp: laid_out_def)
  have n: "b \<notin> {0, ib} \<and> \<not> inlog 2 (unat b)" if "nmeta \<le> unat b" for b
    using that assms(2) by (auto simp: layout_values inlog_def LOGSIZE_def MAXOPBLOCKS_def)
  have 1: "faddr V as bn \<notin> {0, ib} \<and> \<not> inlog 2 (unat (faddr V as bn))" if "bn < hi" for bn
    by (rule n, rule r) (use that in \<open>simp add: fblocks_def\<close>)
  have 2: "as ! NDIRECT \<notin> {0, ib}" if "NDIRECT < hi"
    using n [OF r, of "as ! NDIRECT"] that by (simp add: fblocks_def)
  have 3: "faddr V as bn \<noteq> as ! NDIRECT" if "NDIRECT < hi" "bn < hi" for bn
    using assms(1) that unfolding laid_out_def by (metis imageI lessThan_iff)
  show ?thesis using assms(1) 1 2 3 unfolding sound_file_def laid_out_def by blast
qed

lemma laid_out_data:
  assumes "laid_out lim V as hi (NDIRECT < hi)" "x = faddr V as bn" "bn < hi"
  shows "laid_out lim (V(x := d)) as hi (NDIRECT < hi)" "fblocks (V(x := d)) as hi (NDIRECT < hi) = fblocks V as hi (NDIRECT < hi)"
proof -
  have x: "NDIRECT < hi \<Longrightarrow> x \<noteq> as ! NDIRECT" using assms unfolding laid_out_def by (metis imageI lessThan_iff)
  have e: "faddr (V(x := d)) as k = faddr V as k" if "k < NDIRECT \<or> NDIRECT < hi" for k
    using that x by (intro faddr_cong) auto
  have h: "k < hi \<Longrightarrow> k < NDIRECT \<or> NDIRECT < hi" for k by auto
  have im: "faddr (V(x := d)) as ` {..<hi} = faddr V as ` {..<hi}" using e h by (auto simp: image_iff)
  show f: "fblocks (V(x := d)) as hi (NDIRECT < hi) = fblocks V as hi (NDIRECT < hi)" by (simp add: fblocks_def im)
  have "inj_on (faddr (V(x := d)) as) {..<hi} = inj_on (faddr V as) {..<hi}" using e h by (intro inj_on_cong) auto
  then show "laid_out lim (V(x := d)) as hi (NDIRECT < hi)" using assms(1) e im f unfolding laid_out_def by auto
qed

text \<open>Appending bytes that fit into the block in which the file ends, or into the next one.\<close>

lemma cblk_piece:
  assumes "q \<noteq> []" "length q \<le> BSIZE - n mod BSIZE"
  shows "cblk (n + length q) = Suc (n div BSIZE)" "n mod BSIZE = 0 \<Longrightarrow> cblk n = n div BSIZE" "n mod BSIZE \<noteq> 0 \<Longrightarrow> cblk n = Suc (n div BSIZE)"
proof -
  obtain a r where n: "n = BSIZE * a + r" "r < BSIZE" by (metis mod_less_divisor mult_div_mod_eq BSIZE_def zero_less_numeral)
  have d: "n div BSIZE = a" "n mod BSIZE = r" using n by simp_all
  have c: "cblk m = Suc a" if "BSIZE * a < m" "m \<le> BSIZE * a + BSIZE" for m
    unfolding cblk_def by (rule div_nat_eqI) (use that in \<open>simp_all add: layout_values\<close>)
  have "0 < length q" using assms(1) by simp
  then show "cblk (n + length q) = Suc (n div BSIZE)" unfolding d by (intro c) (use n assms(2) d in auto)
  show "n mod BSIZE \<noteq> 0 \<Longrightarrow> cblk n = Suc (n div BSIZE)" unfolding d by (intro c) (use n in auto)
  show "n mod BSIZE = 0 \<Longrightarrow> cblk n = n div BSIZE" unfolding d cblk_def
    by (rule div_nat_eqI) (use n in \<open>simp_all add: layout_values\<close>)
qed

lemma mk_bmap_piece:
  assumes "image_ok s" "holds (unat (freeblock s)) (iview s) (d_addrs din) c" "q \<noteq> []" "length q \<le> BSIZE - length c mod BSIZE"
    "length c < MAXFILE * BSIZE" "unat (freeblock s) + blk (cblk (length (c @ q))) \<le> FSSIZE + blk (cblk (length c))"
  obtains x bs t where "mk_bmap (length c div BSIZE) din s = Ret (x, din\<lparr>d_addrs := bs\<rparr>) t"
    "grown s (d_addrs din) (cblk (length c)) t bs (cblk (length (c @ q)))" "x = faddr (iview t) bs (length c div BSIZE)"
    "\<And>k. k < cblk (length (c @ q)) * BSIZE \<Longrightarrow> fbyte (iview t) bs k = (if k < length c then c ! k else 0)"
proof -
  note cb = cblk_piece [OF assms(3,4)]
  have lay: "laid_out (unat (freeblock s)) (iview s) (d_addrs din) (cblk (length c)) (NDIRECT < cblk (length c))"
    and con: "\<And>k. k < cblk (length c) * BSIZE \<Longrightarrow> fbyte (iview s) (d_addrs din) k = (if k < length c then c ! k else 0)"
    using assms(2) by (simp_all add: holds_def)
  show thesis
  proof (cases "length c mod BSIZE = 0")
    case True
    have hi: "cblk (length c) = length c div BSIZE" "cblk (length (c @ q)) = Suc (length c div BSIZE)" using cb True by simp_all
    have m: "length c div BSIZE < MAXFILE" using assms(5) by (simp add: less_mult_imp_div_less)
    have e: "length c div BSIZE * BSIZE = length c" using True by auto
    obtain x bs t where t: "mk_bmap (length c div BSIZE) din s = Ret (x, din\<lparr>d_addrs := bs\<rparr>) t"
      "grown s (d_addrs din) (length c div BSIZE) t bs (Suc (length c div BSIZE))" "x = faddr (iview t) bs (length c div BSIZE)"
      "iview t x = (\<lambda>_. 0)"
      by (rule mk_bmap_new [OF assms(1) lay [unfolded hi] m assms(6) [unfolded hi]])
    have "fbyte (iview t) bs k = (if k < length c then c ! k else 0)" if k: "k < Suc (length c div BSIZE) * BSIZE" for k
    proof (cases "k < length c")
      case True
      then show ?thesis using t(2) con [of k] e hi by (simp add: grown_def)
    next
      case False
      have "k div BSIZE = length c div BSIZE" by (rule div_nat_eqI) (use False k e in \<open>simp_all add: layout_values\<close>)
      then show ?thesis using False t(3,4) by (simp add: fbyte_def)
    qed
    with that [of x bs t] t hi show thesis by simp
  next
    case False
    have hi: "cblk (length c) = Suc (length c div BSIZE)" "cblk (length (c @ q)) = Suc (length c div BSIZE)" using cb False by simp_all
    note l = lay [unfolded hi]
    have "mk_bmap (length c div BSIZE) din s = Ret (faddr (iview s) (d_addrs din) (length c div BSIZE), din\<lparr>d_addrs := d_addrs din\<rparr>) s"
      using mk_bmap_old [OF assms(1) l, of "length c div BSIZE"] by simp
    then show thesis using that [OF _ _ refl] grown_refl [OF assms(1) l] con hi by metis
  qed
qed

lemma holds_piece:
  assumes "laid_out lim V bs (cblk (length (c @ q))) (NDIRECT < cblk (length (c @ q)))" "q \<noteq> []" "length q \<le> BSIZE - length c mod BSIZE"
    "x = faddr V bs (length c div BSIZE)" "\<And>k. k < cblk (length (c @ q)) * BSIZE \<Longrightarrow> fbyte V bs k = (if k < length c then c ! k else 0)"
  defines "V' \<equiv> V(x := put_bytes (length c mod BSIZE) q (V x))"
  shows "holds lim V' bs (c @ q)" "file_set V' bs (c @ q) = fblocks V bs (cblk (length (c @ q))) (NDIRECT < cblk (length (c @ q)))"
proof -
  let ?hi = "cblk (length (c @ q))"
  have hi: "length c div BSIZE < ?hi" using cblk_piece(1) [OF assms(2,3)] by simp
  note l = laid_out_data [OF assms(1,4) hi]
  show "file_set V' bs (c @ q) = fblocks V bs ?hi (NDIRECT < ?hi)" using l(2) by (simp add: file_set_def V'_def)
  have s: "sound_file 2 0 V bs ?hi" by (rule laid_out_sound [OF assms(1)]) (simp add: layout_values)
  have off: "length c < ?hi * BSIZE" using hi by (simp add: layout_values div_less_iff_less_mult)
  have "fbyte V' bs k = (if k < length (c @ q) then (c @ q) ! k else 0)" if k: "k < ?hi * BSIZE" for k
    using fbyte_put [OF s k off assms(3,4)] assms(5) [OF k] by (auto simp: V'_def nth_append)
  then show "holds lim V' bs (c @ q)" using l(1) by (simp add: holds_def V'_def)
qed

text \<open>What appending to file \<open>i\<close> does.\<close>

definition appended :: "mkfs \<Rightarrow> uint list list \<Rightarrow> byte list list \<Rightarrow> nat \<Rightarrow> byte list \<Rightarrow> mkfs \<Rightarrow> uint list \<Rightarrow> bool" where
  "appended s As cs i q t bs \<longleftrightarrow> data_inv t (As[i := bs]) (cs[i := cs ! i @ q]) \<and> freeinode t = freeinode s \<and>
     (\<forall>b. unat b < nmeta \<longrightarrow> iview t b = iview s b)"

lemma append_piece:
  assumes inv: "data_inv s As cs" and i: "i < length cs" and "d_addrs din = As ! i" "q \<noteq> []" "length q \<le> BSIZE - length (cs ! i) mod BSIZE"
    "length (cs ! i) < MAXFILE * BSIZE" "unat (freeblock s) + blk (cblk (length (cs ! i @ q))) \<le> FSSIZE + blk (cblk (length (cs ! i)))"
  obtains x bs t where "mk_bmap (length (cs ! i) div BSIZE) din s = Ret (x, din\<lparr>d_addrs := bs\<rparr>) t" "image_ok t" "unat x < unat (freeblock t)"
    "appended s As cs i q (poke x (put_bytes (length (cs ! i) mod BSIZE) q (iview t x)) t) bs"
proof -
  let ?c = "cs ! i"
  let ?lo = "cblk (length ?c)" and ?hi = "cblk (length (?c @ q))"
  have ok: "image_ok s" and h: "\<And>j. j < length cs \<Longrightarrow> holds (unat (freeblock s)) (iview s) (As ! j) (cs ! j)" and len: "length As = length cs"
    and dis: "\<And>j. j < length cs \<Longrightarrow> i \<noteq> j \<Longrightarrow> file_set (iview s) (As ! i) ?c \<inter> file_set (iview s) (As ! j) (cs ! j) = {}"
    and dis2: "\<And>j k. j < length cs \<Longrightarrow> k < length cs \<Longrightarrow> j \<noteq> k \<Longrightarrow> file_set (iview s) (As ! j) (cs ! j) \<inter> file_set (iview s) (As ! k) (cs ! k) = {}"
    and sum: "unat (freeblock s) = nmeta + sum_list (map (\<lambda>c. blk (cblk (length c))) cs)"
    using inv i by (auto simp: data_inv_def)
  obtain x bs t where t: "mk_bmap (length ?c div BSIZE) din s = Ret (x, din\<lparr>d_addrs := bs\<rparr>) t" "grown s (As ! i) ?lo t bs ?hi"
    "x = faddr (iview t) bs (length ?c div BSIZE)" "\<And>k. k < ?hi * BSIZE \<Longrightarrow> fbyte (iview t) bs k = (if k < length ?c then ?c ! k else 0)"
    using mk_bmap_piece [OF ok _ assms(4-7), of din] h [OF i] assms(3) by metis
  have g: "image_ok t" "freeinode t = freeinode s" "laid_out (unat (freeblock t)) (iview t) bs ?hi (NDIRECT < ?hi)"
    "\<And>b. b \<notin> fblocks (iview t) bs ?hi (NDIRECT < ?hi) \<Longrightarrow> iview t b = iview s b"
    "\<And>b. b \<in> fblocks (iview t) bs ?hi (NDIRECT < ?hi) \<Longrightarrow> b \<in> file_set (iview s) (As ! i) ?c \<or> freeblock s \<le> b"
    "unat (freeblock t) + blk ?lo = unat (freeblock s) + blk ?hi"
    using t(2) unfolding grown_def file_set_def by blast+
  have xs: "x \<in> fblocks (iview t) bs ?hi (NDIRECT < ?hi)" using t(3) cblk_piece(1) [OF assms(4,5)] by (simp add: fblocks_def)
  then have x: "unat x < unat (freeblock t)" using g(3) by (simp add: laid_out_def)
  let ?d = "put_bytes (length ?c mod BSIZE) q (iview t x)"
  let ?u = "poke x ?d t"
  note p = image_ok_poke(1-3) [OF g(1) x, of ?d]
  note own = holds_piece [OF g(3) assms(4,5) t(3,4)]
  have "blk ?lo \<le> blk ?hi"
    using cblk_piece [OF assms(4,5)] by (cases "length ?c mod BSIZE = 0") (simp_all add: blk_def)
  then have lim: "unat (freeblock s) \<le> unat (freeblock t)" using g(6) by linarith
  have away: "b \<notin> fblocks (iview t) bs ?hi (NDIRECT < ?hi)" if "j < length cs" "j \<noteq> i" "b \<in> file_set (iview s) (As ! j) (cs ! j)" for b j
  proof -
    have "unat b < unat (freeblock s)" using h [OF that(1)] that(3) by (auto simp: holds_def file_set_def laid_out_def)
    then show ?thesis using g(5) [of b] dis [of j] that by (auto simp: word_le_nat_alt)
  qed
  have same: "iview ?u b = iview s b" if "b \<notin> fblocks (iview t) bs ?hi (NDIRECT < ?hi)" for b
    using that xs g(4) [OF that] p(2) by auto
  have other: "holds (unat (freeblock ?u)) (iview ?u) (As ! j) (cs ! j)" "file_set (iview ?u) (As ! j) (cs ! j) = file_set (iview s) (As ! j) (cs ! j)"
    if "j < length cs" "j \<noteq> i" for j
    using holds_frame [OF h [OF that(1)], of "iview ?u" "unat (freeblock ?u)"] same away [OF that] lim by auto
  have mine: "holds (unat (freeblock ?u)) (iview ?u) bs (?c @ q)" "file_set (iview ?u) bs (?c @ q) = fblocks (iview t) bs ?hi (NDIRECT < ?hi)"
    using own p(2) by simp_all
  have e: "(As[i := bs]) ! j = (if j = i then bs else As ! j)" "(cs[i := ?c @ q]) ! j = (if j = i then ?c @ q else cs ! j)" for j
    using i len by (cases "j = i"; simp)+
  have "data_inv ?u (As[i := bs]) (cs[i := ?c @ q])"
    unfolding data_inv_def
  proof (intro conjI allI impI)
    show "holds (unat (freeblock ?u)) (iview ?u) ((As[i := bs]) ! j) ((cs[i := ?c @ q]) ! j)" if "j < length (cs[i := ?c @ q])" for j
      using that mine other by (auto simp: e)
    show "file_set (iview ?u) ((As[i := bs]) ! j) ((cs[i := ?c @ q]) ! j) \<inter> file_set (iview ?u) ((As[i := bs]) ! k) ((cs[i := ?c @ q]) ! k) = {}"
      if "j < length (cs[i := ?c @ q])" "k < length (cs[i := ?c @ q])" "j \<noteq> k" for j k
      using that mine(2) other(2) away dis2 [of j k] by (auto simp: e)
    have "blk ?lo \<le> sum_list (map (\<lambda>c. blk (cblk (length c))) cs)" using i by (intro member_le_sum_list) auto
    then show "unat (freeblock ?u) = nmeta + sum_list (map (\<lambda>c. blk (cblk (length c))) (cs[i := ?c @ q]))"
      using g(6) sum i by (simp add: map_update sum_list_update)
  qed (use p(1) len in simp_all)
  moreover have "iview ?u b = iview s b" if "unat b < nmeta" for b
    by (rule same) (use that g(3) in \<open>auto simp: laid_out_def\<close>)
  ultimately show thesis using that [OF t(1) g(1) x] g(2) by (simp add: appended_def)
qed

lemma blk_mono: "m \<le> n \<Longrightarrow> blk (cblk m) \<le> blk (cblk n)"
proof -
  assume "m \<le> n"
  then have "cblk m \<le> cblk n" by (simp add: cblk_def div_le_mono)
  then show ?thesis by (simp add: blk_def)
qed

lemma data_inv_sum:
  assumes "data_inv s As cs" "data_inv t Bs (cs[i := c])" "i < length cs"
  shows "unat (freeblock t) + blk (cblk (length (cs ! i))) = unat (freeblock s) + blk (cblk (length c))"
proof -
  have "blk (cblk (length (cs ! i))) \<le> sum_list (map (\<lambda>c. blk (cblk (length c))) cs)" using assms(3) by (intro member_le_sum_list) auto
  then show ?thesis using assms by (simp add: data_inv_def map_update sum_list_update)
qed

lemma appended_trans:
  assumes "appended s As cs i q t bs" "appended t (As[i := bs]) (cs[i := cs ! i @ q]) i r u ds" "i < length cs"
  shows "appended s As cs i (q @ r) u ds"
  using assms by (simp add: appended_def)

lemma iappend_loop_appends:
  assumes "data_inv s As cs" "i < length cs" "d_addrs din = As ! i" "unat off = length (cs ! i)" "length (cs ! i @ p) \<le> MAXFILE * BSIZE"
    "unat (freeblock s) + blk (cblk (length (cs ! i @ p))) \<le> FSSIZE + blk (cblk (length (cs ! i)))"
  shows "\<exists>off' bs t. iappend_loop p off din s = Ret (off', din\<lparr>d_addrs := bs\<rparr>) t \<and> unat off' = length (cs ! i @ p) \<and> appended s As cs i p t bs"
  using assms
proof (induction "length p" arbitrary: p s As cs din off rule: less_induct)
  case less
  let ?c = "cs ! i"
  let ?n = "length ?c"
  show ?case
  proof (cases "p = []")
    case True
    have "As[i := As ! i] = As" "cs[i := ?c] = cs" by simp_all
    then have "appended s As cs i [] s (As ! i)" using less.prems(1) by (simp add: appended_def)
    then show ?thesis using True less.prems(3,4)
      by (intro exI [of _ off] exI [of _ "As ! i"] exI [of _ s]) (subst iappend_loop.simps, cases din, simp)
  next
    case False
    define m where "m = min (length p) ((?n div BSIZE + 1) * BSIZE - ?n)"
    have r: "(?n div BSIZE + 1) * BSIZE - ?n = BSIZE - ?n mod BSIZE" "?n - ?n div BSIZE * BSIZE = ?n mod BSIZE" "?n mod BSIZE < BSIZE"
      by (simp_all add: layout_values minus_div_mult_eq_mod [symmetric])
    have m: "0 < m" "m \<le> length p" "m \<le> BSIZE - ?n mod BSIZE" using False r by (simp_all add: m_def)
    have q: "take m p \<noteq> []" "length (take m p) \<le> BSIZE - ?n mod BSIZE" using m False by auto
    have small: "?n < MAXFILE * BSIZE" "?n + length p \<le> 274432" using less.prems(5) m by (simp_all add: layout_values)
    have "blk (cblk (length (?c @ take m p))) \<le> blk (cblk (length (?c @ p)))" by (rule blk_mono) simp
    then have room: "unat (freeblock s) + blk (cblk (length (?c @ take m p))) \<le> FSSIZE + blk (cblk ?n)" using less.prems(6) by linarith
    obtain x bs t where t: "mk_bmap (?n div BSIZE) din s = Ret (x, din\<lparr>d_addrs := bs\<rparr>) t" "image_ok t" "unat x < unat (freeblock t)"
      "appended s As cs i (take m p) (poke x (put_bytes (?n mod BSIZE) (take m p) (iview t x)) t) bs" (is "appended _ _ _ _ _ ?u _")
      by (rule append_piece [OF less.prems(1-3) q small(1) room])
    have inv: "data_inv ?u (As[i := bs]) (cs[i := ?c @ take m p])" using t(4) by (simp add: appended_def)
    have len: "length As = length cs" using less.prems(1) by (simp add: data_inv_def)
    have "?n div BSIZE < MAXFILE" using small(1) by (simp add: less_mult_imp_div_less)
    then have step: "iappend_loop p off din s = iappend_loop (drop m p) (off + of_nat m) (din\<lparr>d_addrs := bs\<rparr>) ?u"
      using False less.prems(4) t(1) image_ok_poke(3,4) [OF t(2,3)] r(2)
      by (subst iappend_loop.simps) (simp add: m_def Let_def)
    have o: "unat (off + of_nat m) = ?n + m" using word_add_small [of off m] less.prems(4) small(2) m(2) by simp
    have "\<exists>off' ds v. iappend_loop (drop m p) (off + of_nat m) (din\<lparr>d_addrs := bs\<rparr>) ?u = Ret (off', (din\<lparr>d_addrs := bs\<rparr>)\<lparr>d_addrs := ds\<rparr>) v \<and>
        unat off' = length (cs[i := ?c @ take m p] ! i @ drop m p) \<and> appended ?u (As[i := bs]) (cs[i := ?c @ take m p]) i (drop m p) v ds"
      by (rule less.hyps)
        (use inv m less.prems len o data_inv_sum [OF less.prems(1) inv less.prems(2)] in \<open>simp_all add: append_assoc [symmetric] del: append_assoc\<close>)
    then obtain off' ds v where "iappend_loop (drop m p) (off + of_nat m) (din\<lparr>d_addrs := bs\<rparr>) ?u = Ret (off', din\<lparr>d_addrs := ds\<rparr>) v"
      "unat off' = length (?c @ p)" "appended ?u (As[i := bs]) (cs[i := ?c @ take m p]) i (drop m p) v ds"
      using less.prems(2) m(2) by auto
    then show ?thesis using step appended_trans [OF t(4) _ less.prems(2), of "drop m p"]
      by (intro exI [of _ off'] exI [of _ ds] exI [of _ v]) simp
  qed
qed

section \<open>Inodes\<close>

definition iblk :: "nat \<Rightarrow> uint" where
  "iblk n = IBLOCK (of_nat n) mk_super"

lemma iblk_nat:
  assumes "n < 208"
  shows "unat (iblk n) = 32 + n div IPB" "unat (iblk n) < 45" "unat (of_nat n :: uint) = n"
proof -
  show u: "unat (of_nat n :: uint) = n" using assms by (intro unat32_of_nat) simp
  have d: "unat (of_nat n div 16 :: uint) = n div 16" using u by (simp add: unat_div)
  have "unat (of_nat n div 16 + 32 :: uint) = 32 + n div 16"
    using word_add_small [of "of_nat n div 16" 32] d assms by simp
  then show "unat (iblk n) = 32 + n div IPB"
    by (simp add: iblk_def IBLOCK_def mk_super_def layout_values)
  then show "unat (iblk n) < 45" using assms by (simp add: layout_values less_mult_imp_div_less)
qed

text \<open>Blocks below the data area can be written without touching a file.\<close>

lemma data_inv_meta:
  assumes "data_inv s As cs" "unat b < nmeta"
  shows "data_inv (poke b d s) As cs" "iview (poke b d s) = (iview s)(b := d)" "wsect b d s = Ret () (poke b d s)" "rsect b s = Ret (iview s b) s"
proof -
  have ok: "image_ok s" using assms(1) by (simp add: data_inv_def)
  then have "unat b < unat (freeblock s)" using assms(2) by (simp add: image_ok_def)
  note p = image_ok_poke [OF ok this]
  show v: "iview (poke b d s) = (iview s)(b := d)" "wsect b d s = Ret () (poke b d s)" "rsect b s = Ret (iview s b) s" by (rule p)+
  have h: "holds (unat (freeblock s)) (iview s) (As ! i) (cs ! i)" if "i < length cs" for i using assms(1) that unfolding data_inv_def by blast
  have "((iview s)(b := d)) x = iview s x" if "i < length cs" "x \<in> file_set (iview s) (As ! i) (cs ! i)" for i x
    using h [OF that(1)] that(2) assms(2) by (auto simp: holds_def laid_out_def file_set_def)
  then have "holds (unat (freeblock s)) (iview (poke b d s)) (As ! i) (cs ! i)"
    "file_set (iview (poke b d s)) (As ! i) (cs ! i) = file_set (iview s) (As ! i) (cs ! i)" if "i < length cs" for i
    using holds_frame [OF h [OF that], of "(iview s)(b := d)" "unat (freeblock s)"] that unfolding v(1) by blast+

  then show "data_inv (poke b d s) As cs" using assms(1) p(1) unfolding data_inv_def poke_fields by simp

qed

definition mk_din :: "nat \<Rightarrow> uint list \<Rightarrow> nat \<Rightarrow> dinode" where
  "mk_din i as n = \<lparr>d_type = (if i = 0 then T_DIR else T_FILE), d_major = 0, d_minor = 0, d_nlink = 1, d_size = of_nat n, d_addrs = as\<rparr>"

definition dinode_at :: "mkfs \<Rightarrow> nat \<Rightarrow> dinode" where
  "dinode_at s n = get_dinode (iview s (iblk n)) (n mod IPB)"

text \<open>The whole file system: file \<open>i\<close> has inode number \<open>i + 1\<close>.\<close>

definition fs_inv :: "mkfs \<Rightarrow> uint list list \<Rightarrow> byte list list \<Rightarrow> bool" where
  "fs_inv s As cs \<longleftrightarrow> data_inv s As cs \<and> freeinode s = of_nat (Suc (length cs)) \<and> length cs \<le> NINODES \<and>
     (\<forall>i < length cs. length (cs ! i) \<le> MAXFILE * BSIZE \<and> dinode_at s (Suc i) = mk_din i (As ! i) (length (cs ! i)))"

lemma winode_writes:
  assumes "data_inv s As cs" "n < 208" "length (d_addrs din) = NDIRECT + 1"
  obtains t where "winode (of_nat n) din s = Ret () t" "data_inv t As cs" "freeinode t = freeinode s" "dinode_at t n = din"
    "\<And>m. m < 208 \<Longrightarrow> m \<noteq> n \<Longrightarrow> dinode_at t m = dinode_at s m"
    "\<And>b. b \<noteq> iblk n \<Longrightarrow> iview t b = iview s b"
proof -
  note b = iblk_nat [OF assms(2)]
  let ?d = "put_dinode (n mod IPB) din (iview s (iblk n))"
  have lt: "unat (iblk n) < nmeta" using b(2) by (simp add: layout_values)
  note p = data_inv_meta [OF assms(1) lt]
  have k: "j mod IPB < IPB" for j by (simp add: layout_values)
  note gp = get_put_dinode [OF k assms(3)]
  have sb: "mk_sb s = mk_super" using assms(1) by (simp add: data_inv_def image_ok_def)
  have "winode (of_nat n) din s = Ret () (poke (iblk n) ?d s)"
    unfolding winode_def sb iblk_def [symmetric] b(3) by (simp add: p(3,4) Let_def)
  moreover have "dinode_at (poke (iblk n) ?d s) m = dinode_at s m" if m: "m < 208" "m \<noteq> n" for m
  proof (cases "iblk m = iblk n")
    case True
    then have "m div IPB = n div IPB" using iblk_nat(1) [OF m(1)] b(1) by simp
    then have "m mod IPB \<noteq> n mod IPB" using m(2) by (metis div_mult_mod_eq)
    then show ?thesis unfolding dinode_at_def p(2) True by (simp add: gp(2) [OF k])
  qed (simp add: dinode_at_def p(2))
  moreover have "dinode_at (poke (iblk n) ?d s) n = din" by (simp add: dinode_at_def p(2) gp(1))
  ultimately show thesis using p(1,2) by (intro that [of "poke (iblk n) ?d s"]) simp_all
qed

lemma rinode_reads:
  assumes "data_inv s As cs" "n < 208"
  shows "rinode (of_nat n) s = Ret (dinode_at s n) s"
proof -
  note b = iblk_nat [OF assms(2)]
  have sb: "mk_sb s = mk_super" using assms(1) by (simp add: data_inv_def image_ok_def)
  have "rsect (iblk n) s = Ret (iview s (iblk n)) s"
    by (rule data_inv_meta(4) [OF assms(1)]) (use b(2) in \<open>simp add: layout_values\<close>)
  then show ?thesis unfolding rinode_def sb iblk_def [symmetric] b(3) by (simp add: dinode_at_def Let_def)
qed

lemma iappend_appends:
  assumes "fs_inv s As cs" "i < length cs" "length (cs ! i @ p) \<le> MAXFILE * BSIZE"
    "unat (freeblock s) + blk (cblk (length (cs ! i @ p))) \<le> FSSIZE + blk (cblk (length (cs ! i)))"
  obtains t bs where "iappend (of_nat (Suc i)) p s = Ret () t" "fs_inv t (As[i := bs]) (cs[i := cs ! i @ p])"
    "\<And>b. unat b < 32 \<Longrightarrow> iview t b = iview s b"
proof -
  let ?c = "cs ! i"
  have d: "data_inv s As cs" "length cs \<le> 200" "\<And>j. j < length cs \<Longrightarrow> dinode_at s (Suc j) = mk_din j (As ! j) (length (cs ! j))"
    "\<And>j. j < length cs \<Longrightarrow> length (cs ! j) \<le> MAXFILE * BSIZE" "freeinode s = of_nat (Suc (length cs))"
    using assms(1) by (simp_all add: fs_inv_def NINODES_def)
  have n: "Suc i < 208" "length As = length cs" using d(2) assms(2) d(1) by (simp_all add: data_inv_def)
  let ?din = "mk_din i (As ! i) (length ?c)"
  have sz: "unat (d_size ?din) = length ?c" using d(4) [OF assms(2)]
    by (simp add: mk_din_def layout_values unat32_of_nat)
  obtain off bs t where t: "iappend_loop p (d_size ?din) ?din s = Ret (off, ?din\<lparr>d_addrs := bs\<rparr>) t" "unat off = length (?c @ p)" "appended s As cs i p t bs"
    using iappend_loop_appends [OF d(1) assms(2) _ sz assms(3,4), of ?din] by (fastforce simp: mk_din_def)
  have inv: "data_inv t (As[i := bs]) (cs[i := ?c @ p])" and fi: "freeinode t = freeinode s" and me: "\<And>b. unat b < nmeta \<Longrightarrow> iview t b = iview s b"
    using t(3) by (simp_all add: appended_def)
  have o: "off = of_nat (length (?c @ p))" unfolding t(2) [symmetric] by simp
  have "length bs = NDIRECT + 1"
    using inv assms(2) n(2) by (auto simp: data_inv_def holds_def laid_out_def dest: spec [of _ i])
  then have len: "length (d_addrs (mk_din i bs (length (?c @ p)))) = NDIRECT + 1" by (simp add: mk_din_def)
  obtain u where u: "winode (of_nat (Suc i)) (mk_din i bs (length (?c @ p))) t = Ret () u" "data_inv u (As[i := bs]) (cs[i := ?c @ p])"
    "freeinode u = freeinode t" "dinode_at u (Suc i) = mk_din i bs (length (?c @ p))" "\<And>m. m < 208 \<Longrightarrow> m \<noteq> Suc i \<Longrightarrow> dinode_at u m = dinode_at t m"
    "\<And>b. b \<noteq> iblk (Suc i) \<Longrightarrow> iview u b = iview t b"
    by (rule winode_writes [OF inv n(1) len]) (rule that, assumption+)
  have "iappend (of_nat (Suc i)) p s = Ret () u"
    using u(1) t(1) d(3) [OF assms(2)] o unfolding iappend_def rinode_reads [OF d(1) n(1)]
    by (simp add: mk_din_def)
  moreover have "fs_inv u (As[i := bs]) (cs[i := ?c @ p])"
    unfolding fs_inv_def
  proof (intro conjI allI impI)
    fix j assume j: "j < length (cs[i := ?c @ p])"
    show "length (cs[i := ?c @ p] ! j) \<le> MAXFILE * BSIZE" using d(4) assms(3) j by (cases "j = i") simp_all
    have "dinode_at t (Suc j) = dinode_at s (Suc j)"
      using me iblk_nat(2) [of "Suc j"] j d(2) by (simp add: dinode_at_def layout_values)
    then show "dinode_at u (Suc j) = mk_din j (As[i := bs] ! j) (length (cs[i := ?c @ p] ! j))"
      using u(4,5) d(2,3) j n by (cases "j = i") simp_all
  qed (use u fi d in \<open>simp_all add: NINODES_def\<close>)
  moreover have "iview u b = iview s b" if "unat b < 32" for b
  proof -
    have "b \<noteq> iblk (Suc i)" using that iblk_nat(1) [OF n(1)] by auto
    then show ?thesis using u(6) me that by (simp add: layout_values)
  qed
  ultimately show thesis by (rule that)
qed

section \<open>The steps of the main program\<close>

definition blocks_of :: "byte list list \<Rightarrow> nat" where
  "blocks_of cs = sum_list (map (\<lambda>c. blk (cblk (length c))) cs)"

lemma blocks_of_simps [simp]: "blocks_of [] = 0" "blocks_of (c # cs) = blk (cblk (length c)) + blocks_of cs" "blocks_of (cs @ ds) = blocks_of cs + blocks_of ds"
  by (simp_all add: blocks_of_def)

text \<open>The image holds the files \<open>cs\<close>, and its first blocks (super block, log) are those of \<open>s0\<close>.\<close>

definition image_of :: "mkfs \<Rightarrow> mkfs \<Rightarrow> byte list list \<Rightarrow> bool" where
  "image_of s0 s cs \<longleftrightarrow> (\<exists>As. fs_inv s As cs) \<and> (\<forall>b. unat b < 32 \<longrightarrow> iview s b = iview s0 b)"

definition fits :: "byte list list \<Rightarrow> bool" where
  "fits cs \<longleftrightarrow> nmeta + blocks_of cs \<le> FSSIZE \<and> (\<forall>c \<in> set cs. length c \<le> MAXFILE * BSIZE)"

lemma append_to:
  assumes "image_of s0 s cs" "i < length cs" "fits (cs[i := cs ! i @ p])"
  obtains t where "iappend (of_nat (Suc i)) p s = Ret () t" "image_of s0 t (cs[i := cs ! i @ p])"
proof -
  obtain As where a: "fs_inv s As cs" "\<forall>b. unat b < 32 \<longrightarrow> iview s b = iview s0 b" using assms(1) by (auto simp: image_of_def)
  have f: "unat (freeblock s) = nmeta + blocks_of cs" using a(1) by (simp add: fs_inv_def data_inv_def blocks_of_def)
  have "blk (cblk (length (cs ! i))) \<le> blocks_of cs" unfolding blocks_of_def using assms(2) by (intro member_le_sum_list) auto
  then have "blocks_of (cs[i := cs ! i @ p]) + blk (cblk (length (cs ! i))) = blocks_of cs + blk (cblk (length (cs ! i @ p)))"
    using assms(2) by (simp add: blocks_of_def map_update sum_list_update)
  then have "unat (freeblock s) + blk (cblk (length (cs ! i @ p))) \<le> FSSIZE + blk (cblk (length (cs ! i)))"
    using assms(3) f unfolding fits_def by linarith
  moreover have "length (cs ! i @ p) \<le> MAXFILE * BSIZE" using set_update_memI [OF assms(2)] assms(3) unfolding fits_def by blast
  ultimately obtain t bs where "iappend (of_nat (Suc i)) p s = Ret () t" "fs_inv t (As[i := bs]) (cs[i := cs ! i @ p])"
    "\<And>b. unat b < 32 \<Longrightarrow> iview t b = iview s b"
    using iappend_appends [OF a(1) assms(2)] by metis
  then show thesis using a(2) that by (auto simp: image_of_def)
qed

lemma empty_file: "holds lim V (replicate (NDIRECT + 1) 0) []" "file_set V (replicate (NDIRECT + 1) 0) [] = {}"
  by (simp_all add: holds_def file_set_def cblk_def laid_out_def fblocks_def faddr_def layout_values)

lemma ialloc_next:
  assumes "image_of s0 s cs" "length cs < NINODES" "ty = (if cs = [] then T_DIR else T_FILE)"
  obtains t where "mk_ialloc ty s = Ret (of_nat (Suc (length cs))) t" "image_of s0 t (cs @ [[]])"
proof -
  obtain As where a: "fs_inv s As cs" "\<forall>b. unat b < 32 \<longrightarrow> iview s b = iview s0 b" using assms(1) by (auto simp: image_of_def)
  let ?n = "length cs" and ?z = "replicate (NDIRECT + 1) (0 :: uint)" and ?s = "s\<lparr>freeinode := freeinode s + 1\<rparr>"
  have n: "Suc ?n < 208" using assms(2) by (simp add: NINODES_def)
  have inv: "data_inv s As cs" "freeinode s = of_nat (Suc ?n)" and len: "length As = ?n" using a(1) unfolding fs_inv_def data_inv_def by blast+
  have "image_ok ?s = image_ok s" by (simp add: image_ok_def)
  then have inv': "data_inv ?s (As @ [?z]) (cs @ [[]])"
    using inv(1) len empty_file unfolding data_inv_def
    by (auto simp: nth_append less_Suc_eq cblk_def blk_def layout_values)
  have lz: "length (d_addrs (mk_din ?n ?z 0)) = NDIRECT + 1" by (simp add: mk_din_def)
  obtain t where t: "winode (of_nat (Suc ?n)) (mk_din ?n ?z 0) ?s = Ret () t" "data_inv t (As @ [?z]) (cs @ [[]])"
    "freeinode t = freeinode ?s" "dinode_at t (Suc ?n) = mk_din ?n ?z 0" "\<And>m. m < 208 \<Longrightarrow> m \<noteq> Suc ?n \<Longrightarrow> dinode_at t m = dinode_at ?s m"
    "\<And>b. b \<noteq> iblk (Suc ?n) \<Longrightarrow> iview t b = iview ?s b"
    by (rule winode_writes [OF inv' n lz]) (rule that, assumption+)
  have "mk_ialloc ty s = Ret (of_nat (Suc ?n)) t"
    using t(1) inv(2) assms(3) by (simp add: mk_ialloc_def mk_din_def)
  moreover have "fs_inv t (As @ [?z]) (cs @ [[]])"
    using t(2-5) inv(2) a(1) assms(2) len n
    by (auto simp: fs_inv_def nth_append less_Suc_eq dinode_at_def NINODES_def add.commute)
  moreover have "iview t b = iview s0 b" if "unat b < 32" for b
  proof -
    have "b \<noteq> iblk (Suc ?n)" using that iblk_nat(1) [OF n] by auto
    then show ?thesis using t(6) a(2) that by simp
  qed
  ultimately show thesis using that by (auto simp: image_of_def)
qed

lemma fits_mono:
  assumes "fits ds" "list_all2 (\<lambda>c d. length c \<le> length d) cs (take (length cs) ds)"
  shows "fits cs"
proof -
  have "blocks_of cs \<le> blocks_of (take (length cs) ds)" using assms(2)
  proof (induction rule: list_all2_induct)
    case (Cons c cs d ds)
    then show ?case using blk_mono [of "length c" "length d"] by simp
  qed simp
  also have "\<dots> \<le> blocks_of (take (length cs) ds @ drop (length cs) ds)" unfolding blocks_of_simps by simp
  finally have "blocks_of cs \<le> blocks_of ds" by simp
  moreover have "length c \<le> MAXFILE * BSIZE" if "c \<in> set cs" for c
  proof -
    obtain k where k: "k < length cs" "c = cs ! k" using \<open>c \<in> set cs\<close> by (auto simp: in_set_conv_nth)
    have "k < length (take (length cs) ds)" using list_all2_lengthD [OF assms(2)] k by simp
    then have "take (length cs) ds ! k \<in> set ds" by (meson in_set_takeD nth_mem)
    then show ?thesis using list_all2_nthD [OF assms(2) k(1)] k(2) assms(1) by (auto simp: fits_def)
  qed
  ultimately show ?thesis using assms(1) by (simp add: fits_def)
qed

lemma fits_prefix: "fits (cs[i := c @ q]) \<Longrightarrow> fits (cs[i := c])"
proof (rule fits_mono)
  show "list_all2 (\<lambda>c d. length c \<le> length d) (cs[i := c]) (take (length (cs[i := c])) (cs[i := c @ q]))"
    by (cases "i < length cs") (auto simp: list_all2_conv_all_nth nth_list_update)
qed

lemma append_chunks:
  assumes "image_of s0 s cs" "i < length cs" "fits (cs[i := cs ! i @ concat qs])"
  shows "\<exists>t. for_each qs (\<lambda>c s. iappend (of_nat (Suc i)) c s) s = Ret () t \<and> image_of s0 t (cs[i := cs ! i @ concat qs])"
  using assms
proof (induction qs arbitrary: s cs)
  case (Cons c qs)
  have "fits (cs[i := cs ! i @ c])" using Cons.prems(3) fits_prefix [of cs i "cs ! i @ c" "concat qs"] by simp
  then obtain t where t: "iappend (of_nat (Suc i)) c s = Ret () t" "image_of s0 t (cs[i := cs ! i @ c])"
    by (rule append_to [OF Cons.prems(1,2)])
  then show ?case using Cons.IH [OF t(2)] Cons.prems(2,3) by simp
qed simp

definition mk_name :: "byte list \<times> byte list list option \<Rightarrow> byte list" where
  "mk_name f = skip_underscore (shortname (fst f))"

definition mk_content :: "byte list \<times> byte list list option \<Rightarrow> byte list" where
  "mk_content f = concat (the (snd f))"

definition usable :: "byte list \<times> byte list list option \<Rightarrow> bool" where
  "usable f \<longleftrightarrow> slash \<notin> set (shortname (fst f)) \<and> snd f \<noteq> None"

lemma mk_file_adds:
  assumes "image_of s0 s (r # xs)" "usable f" "Suc (length xs) < NINODES"
    "fits ((r @ mk_dirent (of_nat (length xs + 2)) (mk_name f)) # xs @ [mk_content f])"
  obtains t where "mk_file f s = Ret () t" "image_of s0 t ((r @ mk_dirent (of_nat (length xs + 2)) (mk_name f)) # xs @ [mk_content f])"
proof -
  let ?d = "mk_dirent (of_nat (length xs + 2)) (mk_name f)"
  obtain qs where qs: "snd f = Some qs" "mk_content f = concat qs" using assms(2) by (auto simp: usable_def mk_content_def)
  obtain t where t: "mk_ialloc T_FILE s = Ret (of_nat (Suc (length (r # xs)))) t" "image_of s0 t (r # xs @ [[]])"
    using ialloc_next [OF assms(1), of T_FILE] assms(3) by auto
  have e: "(r # xs @ [[]])[0 := (r # xs @ [[]]) ! 0 @ ?d] = (r @ ?d) # xs @ [[]]" by simp
  have "fits ((r @ ?d) # xs @ [[]])" by (rule fits_mono [OF assms(4)]) (simp add: list_all2_append list.rel_refl)
  then obtain u where u: "iappend (of_nat (Suc 0)) ?d t = Ret () u" "image_of s0 u ((r @ ?d) # xs @ [[]])"
    using append_to [OF t(2), of 0 ?d] unfolding e by auto
  have "((r @ ?d) # xs @ [[]])[Suc (length xs) := ((r @ ?d) # xs @ [[]]) ! Suc (length xs) @ concat qs] = (r @ ?d) # xs @ [mk_content f]"
    by (simp add: qs(2))
  then obtain v where v: "for_each qs (\<lambda>c s. iappend (of_nat (Suc (Suc (length xs)))) c s) u = Ret () v" "image_of s0 v ((r @ ?d) # xs @ [mk_content f])"
    using append_chunks [OF u(2), of "Suc (length xs)" qs] assms(4) by auto
  have "mk_file f s = Ret () v"
    using assms(2) qs(1) t(1) u(1) v(1) by (simp add: mk_file_def usable_def mk_name_def ROOTINO_def)
  then show thesis using v(2) by (rule that)
qed

primrec dir_of :: "nat \<Rightarrow> (byte list \<times> byte list list option) list \<Rightarrow> byte list" where
  "dir_of n [] = []"
| "dir_of n (f # fs) = mk_dirent (of_nat n) (mk_name f) @ dir_of (Suc n) fs"

lemma mk_files_add:
  assumes "image_of s0 s (r # xs)" "\<forall>f \<in> set fs. usable f" "length xs + length fs < NINODES"
    "fits ((r @ dir_of (length xs + 2) fs) # xs @ map mk_content fs)"
  shows "\<exists>t. for_each fs mk_file s = Ret () t \<and> image_of s0 t ((r @ dir_of (length xs + 2) fs) # xs @ map mk_content fs)"
  using assms
proof (induction fs arbitrary: s r xs)
  case (Cons f fs)
  let ?r = "r @ mk_dirent (of_nat (length xs + 2)) (mk_name f)"
  have "fits (?r # xs @ [mk_content f])"
    by (rule fits_mono [OF Cons.prems(4)]) (auto simp: list_all2_append list.rel_refl)
  then obtain t where t: "mk_file f s = Ret () t" "image_of s0 t (?r # xs @ [mk_content f])"
    by (rule mk_file_adds [OF Cons.prems(1), rotated 2]) (use Cons.prems(2,3) in simp_all)
  show ?case using Cons.IH [OF t(2)] Cons.prems t(1) by simp
qed simp

section \<open>Start and end\<close>

lemma bm_free_set:
  assumes "i < 8192" "b < 8192"
  shows "bm_free (bm_set i m) b \<longleftrightarrow> b \<noteq> i \<and> bm_free m b"
proof -
  have byte: "bm_byte b = bm_byte i \<longleftrightarrow> b div 8 = i div 8"
    using assms unat10_of_nat [of "b div 8"] unat10_of_nat [of "i div 8"] unfolding bm_byte_def word_unat_eq_iff by simp
  have e: "x AND bm_mask k = 0 \<longleftrightarrow> \<not> bit x (k mod 8)" for x k
    by (simp add: bm_mask_def push_bit_eq_mult and_exp_eq_0_iff_not_bit)
  have m: "bit (bm_mask i) (b mod 8) \<longleftrightarrow> b mod 8 = i mod 8" by (auto simp: bm_mask_def bit_simps)
  have "b = i \<longleftrightarrow> b div 8 = i div 8 \<and> b mod 8 = i mod 8" by (metis div_mult_mod_eq)
  then show ?thesis by (cases "bm_byte b = bm_byte i") (auto simp: bm_free_def bm_set_def byte [symmetric] e m bit_or_iff)
qed

lemma bitmap_used: "n \<le> 8192 \<Longrightarrow> b < 8192 \<Longrightarrow> bm_free (fold bm_set [0..<n] (\<lambda>_. 0)) b \<longleftrightarrow> n \<le> b"
proof (induction n)
  case 0
  then show ?case by (simp add: bm_free_def)
next
  case (Suc n)
  then have "bm_free (bm_set n (fold bm_set [0..<n] (\<lambda>_. 0))) b \<longleftrightarrow> b \<noteq> n \<and> n \<le> b" by (subst bm_free_set) simp_all
  moreover have "fold bm_set [0..<Suc n] (\<lambda>_. 0) = bm_set n (fold bm_set [0..<n] (\<lambda>_. 0))" by simp
  ultimately have e: "bm_free (fold bm_set [0..<Suc n] (\<lambda>_. 0)) b \<longleftrightarrow> b \<noteq> n \<and> n \<le> b" by (simp only:)
  show ?case unfolding e by arith
qed

lemma get_put_word:
  fixes v :: uint
  assumes "a mod 4 = 0" "c mod 4 = 0" "a < 1024" "c < 1024"
  shows "get_le 4 (put_le 4 a v b) c = (if c = a then v else get_le 4 b c)"
proof -
  obtain i j where ij: "a = 4 * i" "c = 4 * j" using assms(1,2) by (auto elim!: dvdE simp: mod_eq_0_iff_dvd)
  then have d: "a + 4 \<le> 1024" "c + 4 \<le> 1024" "c = a \<or> a + 4 \<le> c \<or> c + 4 \<le> a" using assms(3,4) by auto
  then show
 ?thesis using get_put_le [of a 4 v b] get_put_le_other [of a 4 c 4 v b] by auto
qed

lemma superblock_roundtrip: "get_superblock (put_superblock x) = x"
  unfolding get_superblock_def put_superblock_def by (rule superblock.equality) (simp_all add: get_put_word)

lemma zeroed:
  assumes "k \<le> FSSIZE" "img s = []"
  shows "for_each [0..<k] (\<lambda>i s. wsect (of_nat i) (\<lambda>_. 0) s) s = Ret () (s\<lparr>img := replicate k (\<lambda>_. 0)\<rparr>)"
  using assms(1)
proof (induction k)
  case 0
  then show ?case using assms(2) by simp
next
  case (Suc k)
  have "unat (of_nat k :: uint) = k" using Suc.prems by (intro unat32_of_nat) (simp add: layout_values)
  then have "sect (of_nat k) = k" using sect_small [of "of_nat k"] Suc.prems by simp
  then show ?case using Suc by (simp add: for_each_append wsect_def put_sect_def replicate_append_same)
qed

definition mk_blank :: mkfs where
  "mk_blank = poke 1 (put_superblock mk_super)
     \<lparr>img = replicate FSSIZE (\<lambda>_. 0), mk_sb = mk_super, freeinode = 1, freeblock = of_nat nmeta\<rparr>"

lemma blank_image: "image_of mk_blank mk_blank []" "iview mk_blank 1 = put_superblock mk_super" "iview mk_blank 2 = (\<lambda>_. 0)"
proof -
  let ?z = "\<lparr>img = replicate FSSIZE (\<lambda>_. 0), mk_sb = mk_super, freeinode = 1, freeblock = of_nat nmeta\<rparr>"
  have v: "iview mk_blank = (iview ?z)(1 := put_superblock mk_super)"
    unfolding mk_blank_def by (rule iview_poke) (simp add: layout_values)
  have z: "iview ?z b = (\<lambda>_. 0)" if "unat b < FSSIZE" for b using that by (simp add: iview_def)
  show "iview mk_blank 1 = put_superblock mk_super" "iview mk_blank 2 = (\<lambda>_. 0)" using v z [of 2] by (simp_all add: layout_values)
  have "iview mk_blank b = (\<lambda>_. 0)" if "of_nat nmeta \<le> b" "unat b < FSSIZE" for b
    using v z [OF that(2)] that(1) by (auto simp: layout_values word_le_nat_alt)
  then have "image_ok mk_blank" by (simp add: image_ok_def) (simp add: mk_blank_def layout_values)
  then show "image_of mk_blank mk_blank []"
    by (auto simp: image_of_def fs_inv_def data_inv_def intro!: exI [of _ "[]"]) (simp_all add: mk_blank_def layout_values)
qed

definition dots :: "byte list" where
  "dots = mk_dirent 1 (str ''.'') @ mk_dirent 1 (str ''..'')"

lemma mk_root_ok:
  assumes "fits [dots]"
  obtains t where "mk_root mk_blank = Ret () t" "image_of mk_blank t [dots]"
proof -
  let ?d = "mk_dirent 1 (str ''.'')" and ?e = "mk_dirent 1 (str ''..'')"
  obtain t where t: "mk_ialloc T_DIR mk_blank = Ret 1 t" "image_of mk_blank t [[]]"
    using ialloc_next [OF blank_image(1), of T_DIR] by (auto simp: NINODES_def)
  have f: "fits [?d]" by (rule fits_mono [OF assms]) (simp add: dots_def)
  obtain u where u: "iappend 1 ?d t = Ret () u" "image_of mk_blank u [?d]"
    using append_to [OF t(2), of 0 ?d] f by auto
  obtain v where v: "iappend 1 ?e u = Ret () v" "image_of mk_blank v [dots]"
    using append_to [OF u(2), of 0 ?e] assms by (auto simp: dots_def)
  have "mk_root mk_blank = Ret () v" using t(1) u(1) v(1) by (simp add: mk_root_def ROOTINO_def)
  then show thesis using v(2) by (rule that)
qed

lemma sint_small: "unat (x :: uint) < 2 ^ 31 \<Longrightarrow> sint x = int (unat x)"
proof -
  assume "unat x < 2 ^ 31"
  then have "int (unat x) < int (2 ^ 31)" by (simp only: of_nat_less_iff)
  then have "uint x < 2 ^ 31" by simp
  moreover have "- (2 ^ 31) \<le> uint x" by (rule order_trans [of _ 0]) simp_all
  ultimately have "signed_take_bit 31 (uint x) = uint x" by (intro signed_take_bit_int_eq_self)
  then show ?thesis by (simp add: sint_uint)
qed

lemma mk_finish_ok:
  assumes "fs_inv s As (r # xs)"
  obtains t where "mk_finish s = Ret () t" "data_inv t As (r # xs)" "freeblock t = freeblock s"
    "dinode_at t 1 = (mk_din 0 (As ! 0) (length r))\<lparr>d_size := of_nat ((length r div BSIZE + 1) * BSIZE)\<rparr>"
    "\<And>i. i < length xs \<Longrightarrow> dinode_at t (i + 2) = mk_din (Suc i) (As ! Suc i) (length (xs ! i))"
    "iview t 45 = fold bm_set [0..<unat (freeblock s)] (\<lambda>_. 0)" "\<And>b. unat b < 32 \<Longrightarrow> iview t b = iview s b"
proof -
  have d: "data_inv s As (r # xs)" "length xs < 200" "\<And>j. j < Suc (length xs) \<Longrightarrow> dinode_at s (Suc j) = mk_din j (As ! j) (length ((r # xs) ! j))"
    "length r \<le> MAXFILE * BSIZE"
    using assms by (auto simp: fs_inv_def NINODES_def)
  let ?D = "(mk_din 0 (As ! 0) (length r))\<lparr>d_size := of_nat ((length r div BSIZE + 1) * BSIZE)\<rparr>"
  have l: "laid_out (unat (freeblock s)) (iview s) (As ! 0) (cblk (length r)) (NDIRECT < cblk (length r))"
    using d(1) by (auto simp: data_inv_def holds_def)
  have len: "length (d_addrs ?D) = NDIRECT + 1" using l by (simp add: laid_out_def mk_din_def)
  obtain t where t: "winode (of_nat 1) ?D s = Ret () t" "data_inv t As (r # xs)" "freeinode t = freeinode s" "dinode_at t 1 = ?D"
    "\<And>m. m < 208 \<Longrightarrow> m \<noteq> 1 \<Longrightarrow> dinode_at t m = dinode_at s m" "\<And>b. b \<noteq> iblk 1 \<Longrightarrow> iview t b = iview s b"
    by (rule winode_writes [OF d(1) _ len, of 1]) (simp, rule that, assumption+)
  have fb: "freeblock t = freeblock s"
    using d(1) t(2) by (auto simp: data_inv_def word_unat_eq_iff)
  have f: "unat (freeblock s) \<le> 2000" using d(1) by (simp add: data_inv_def image_ok_def layout_values)
  then have "int (unat (freeblock s)) \<le> int 2000" by (simp only: of_nat_le_iff)
  then have fu: "uint (freeblock s) < 8192" by simp
  have sb: "mk_sb t = mk_super" using t(2) by (simp add: data_inv_def image_ok_def)
  have bm: "sb_bmapstart mk_super = 45" by (simp add: mk_super_def layout_values)
  let ?u = "poke 45 (fold bm_set [0..<unat (freeblock s)] (\<lambda>_. 0)) t"
  have "unat (45 :: uint) < nmeta" by (simp add: layout_values)
  note p = data_inv_meta [OF t(2) this]
  have n: "of_nat (length r) div 1024 = (of_nat (length r div 1024) :: uint)"
    using d(4) by (simp add: word_unat_eq_iff unat_div unat32_of_nat layout_values)
  have "mk_finish s = Ret () ?u"
    using t(1) rinode_reads [OF d(1), of 1] d(3) [of 0] f fu p(3)

    by (simp add: mk_finish_def ROOTINO_def mk_balloc_def sb bm fb sint_small mk_din_def n layout_values algebra_simps)
  moreover have "dinode_at ?u m = dinode_at t m" if "m < 208" for m
  proof -
    have "iblk m \<noteq> 45" using iblk_nat(2) [OF that] by auto
    then show ?thesis by (simp add: dinode_at_def p(2))
  qed
  moreover have "iview t b = iview s b" if "unat b < 32" for b
    by (rule t(6)) (use that iblk_nat(1) [of 1] in \<open>auto simp: layout_values\<close>)
  ultimately show thesis using p(1,2) t(4,5) d(2,3)
    by (intro that [of ?u]) (auto simp: fb)
qed

section \<open>The image\<close>

text \<open>The root directory: the two dot entries, then the files in the order of the command line.\<close>

definition root_dir :: "(byte list \<times> byte list list option) list \<Rightarrow> byte list" where
  "root_dir files = dots @ dir_of 2 files"

lemma main_image:
  assumes "\<forall>f \<in> set files. usable f" "length files < NINODES" "fits (root_dir files # map mk_content files)"
  obtains s As where "mkfs_main files = mk_finish s" "fs_inv s As (root_dir files # map mk_content files)"
    "\<And>b. unat b < 32 \<Longrightarrow> iview s b = iview mk_blank b"
proof -
  let ?cs = "root_dir files # map mk_content files"
  let ?s = "\<lparr>img = [], mk_sb = mk_super, freeinode = 1, freeblock = of_nat nmeta\<rparr>"
  let ?z = "\<lparr>img = replicate FSSIZE (\<lambda>_. 0), mk_sb = mk_super, freeinode = 1, freeblock = of_nat nmeta\<rparr>"
  have "for_each [0..<FSSIZE] (\<lambda>i s. wsect (of_nat i) (\<lambda>_. 0) s) ?s = Ret () (?s\<lparr>img := replicate FSSIZE (\<lambda>_. 0)\<rparr>)"
    by (rule zeroed) simp_all
  then have z: "for_each [0..<FSSIZE] (\<lambda>i s. wsect (of_nat i) (\<lambda>_. 0) s) ?s = Ret () ?z" by simp
  have w: "wsect 1 (put_superblock mk_super) ?z = Ret () mk_blank"
    unfolding mk_blank_def by (rule sector_io(2)) (simp_all add: layout_values)
  have "fits [dots]" by (rule fits_mono [OF assms(3)]) (simp add: root_dir_def)
  then obtain t where t: "mk_root mk_blank = Ret () t" "image_of mk_blank t [dots]" by (rule mk_root_ok)
  obtain u where u: "for_each files mk_file t = Ret () u" "image_of mk_blank u ?cs"
    using mk_files_add [OF t(2) assms(1)] assms(2,3) by (auto simp: root_dir_def numeral_2_eq_2)
  have "mkfs_main files = mk_finish u"
    using t(1) u(1) unfolding mkfs_main_def Let_def z by (simp add: w)
  then show thesis using u(2) that by (auto simp: image_of_def)
qed

lemma holds_contents:
  assumes "holds lim V as c"
  shows "map (fbyte V as) [0..<length c] = c"
proof (rule nth_equalityI)
  fix k assume "k < length (map (fbyte V as) [0..<length c])"
  then have k: "k < length c" by simp
  then have "k < cblk (length c) * BSIZE" by (simp add: cblk_def layout_values)
  then show "map (fbyte V as) [0..<length c] ! k = c ! k" using assms k by (simp add: holds_def)
qed simp

lemma mkfs_result:
  assumes "\<forall>f \<in> set files. usable f" "length files < NINODES" "fits (root_dir files # map mk_content files)"
  obtains t As where "mkfs_main files = Ret () t" "data_inv t As (root_dir files # map mk_content files)"
    "get_superblock (iview t 1) = mk_super" "iview t 2 = (\<lambda>_. 0)"
    "dinode_at t 1 = (mk_din 0 (As ! 0) 0)\<lparr>d_size := of_nat ((length (root_dir files) div BSIZE + 1) * BSIZE)\<rparr>"
    "\<And>i. i < length files \<Longrightarrow> dinode_at t (i + 2) = mk_din (i + 1) (As ! (i + 1)) (length (mk_content (files ! i)))"
    "iview t 45 = fold bm_set [0..<unat (freeblock t)] (\<lambda>_. 0)"
proof -
  let ?cs = "root_dir files # map mk_content files"
  obtain s As where s: "mkfs_main files = mk_finish s" "fs_inv s As ?cs" "\<And>b. unat b < 32 \<Longrightarrow> iview s b = iview mk_blank b"
    by (rule main_image [OF assms]) (rule that, assumption+)
  obtain t where t: "mk_finish s = Ret () t" "data_inv t As ?cs" "freeblock t = freeblock s"
    "dinode_at t 1 = (mk_din 0 (As ! 0) (length (root_dir files)))\<lparr>d_size := of_nat ((length (root_dir files) div BSIZE + 1) * BSIZE)\<rparr>"
    "\<And>i. i < length (map mk_content files) \<Longrightarrow> dinode_at t (i + 2) = mk_din (Suc i) (As ! Suc i) (length (map mk_content files ! i))"
    "iview t 45 = fold bm_set [0..<unat (freeblock s)] (\<lambda>_. 0)" "\<And>b. unat b < 32 \<Longrightarrow> iview t b = iview s b"
    by (rule mk_finish_ok [OF s(2)]) (rule that, assumption+)
  have "iview t 1 = put_superblock mk_super" "iview t 2 = (\<lambda>_. 0)"
    using t(7) [of 1] t(7) [of 2] s(3) [of 1] s(3) [of 2] blank_image by simp_all
  moreover have "(mk_din 0 (As ! 0) n)\<lparr>d_size := z\<rparr> = (mk_din 0 (As ! 0) 0)\<lparr>d_size := z\<rparr>" for n z by (simp add: mk_din_def)
  ultimately show thesis
    using s(1) t by (intro that [of t As]) (simp_all add: superblock_roundtrip)
qed

text \<open>
  C17: \<open>mkfs\<close>, run on readable files without a slash in their names that fit on the disk, returns, and
  the image holds what the kernel expects: a valid super block, an empty log, inode \<open>i + 2\<close> for
  file \<open>i\<close> with its size and with exactly its contents at the addresses through which the kernel
  reads, the root directory with an entry for every file, no block shared between two files, and
  a bitmap in which exactly the blocks of the metadata and of the files are marked.
\<close>

theorem mkfs_builds:
  assumes "\<forall>f \<in> set files. usable f" "length files < NINODES" "fits (root_dir files # map mk_content files)"
  shows "\<exists>s As. mkfs_main files = Ret () s \<and> length (img s) = FSSIZE \<and>
    get_superblock (iview s 1) = mk_super \<and> iview s 2 = (\<lambda>_. 0) \<and>
    dinode_at s 1 = (mk_din 0 (As ! 0) 0)\<lparr>d_size := of_nat ((length (root_dir files) div BSIZE + 1) * BSIZE)\<rparr> \<and>
    map (fbyte (iview s) (As ! 0)) [0..<length (root_dir files)] = root_dir files \<and>
    (\<forall>i < length files. dinode_at s (i + 2) = mk_din (i + 1) (As ! (i + 1)) (length (mk_content (files ! i))) \<and>
       map (fbyte (iview s) (As ! (i + 1))) [0..<length (mk_content (files ! i))] = mk_content (files ! i)) \<and>
    (\<forall>i \<le> length files. \<forall>j \<le> length files. i \<noteq> j \<longrightarrow>
       file_set (iview s) (As ! i) ((root_dir files # map mk_content files) ! i) \<inter>
       file_set (iview s) (As ! j) ((root_dir files # map mk_content files) ! j) = {}) \<and>
    (\<forall>b < FSSIZE. bm_free (iview s (sb_bmapstart mk_super)) b \<longleftrightarrow> nmeta + blocks_of (root_dir files # map mk_content files) \<le> b)"
proof -
  let ?cs = "root_dir files # map mk_content files"
  obtain t As where t: "mkfs_main files = Ret () t" "data_inv t As ?cs" "get_superblock (iview t 1) = mk_super" "iview t 2 = (\<lambda>_. 0)"
    "dinode_at t 1 = (mk_din 0 (As ! 0) 0)\<lparr>d_size := of_nat ((length (root_dir files) div BSIZE + 1) * BSIZE)\<rparr>"
    "\<And>i. i < length files \<Longrightarrow> dinode_at t (i + 2) = mk_din (i + 1) (As ! (i + 1)) (length (mk_content (files ! i)))"
    "iview t 45 = fold bm_set [0..<unat (freeblock t)] (\<lambda>_. 0)"
    by (rule mkfs_result [OF assms]) (rule that, assumption+)
  have "holds (unat (freeblock t)) (iview t) (As ! i) (?cs ! i)" if "i < length ?cs" for i
    using t(2) that unfolding data_inv_def by blast
  then have con: "map (fbyte (iview t) (As ! i)) [0..<length (?cs ! i)] = ?cs ! i" if "i < length ?cs" for i
    using holds_contents that by blast
  have f: "unat (freeblock t) = nmeta + blocks_of ?cs" "unat (freeblock t) \<le> 8192"
    using t(2) by (simp_all add: data_inv_def blocks_of_def image_ok_def layout_values)
  have "bm_free (iview t 45) b \<longleftrightarrow> nmeta + blocks_of ?cs \<le> b" if "b < FSSIZE" for b
    unfolding t(7) f(1) [symmetric] by (rule bitmap_used [OF f(2)]) (use that in \<open>simp add: layout_values\<close>)
  moreover have "sb_bmapstart mk_super = 45" by (simp add: mk_super_def layout_values)
  moreover have "length (img t) = FSSIZE" using t(2) by (simp add: data_inv_def image_ok_def)
  moreover have "\<forall>i \<le> length files. \<forall>j \<le> length files. i \<noteq> j \<longrightarrow> file_set (iview t) (As ! i) (?cs ! i) \<inter> file_set (iview t) (As ! j) (?cs ! j) = {}"
    using t(2) unfolding data_inv_def by (simp add: le_imp_less_Suc)
  ultimately show ?thesis
    using t(1,3-6) con [of 0] con [of "Suc i" for i] by (intro exI [of _ t] exI [of _ As]) simp
qed

text \<open>One small file whose contents arrive in two pieces.\<close>

definition demo_files :: "(byte list \<times> byte list list option) list" where
  "demo_files = [(str ''user/_ab'', Some [[1, 2, 3], [4]])]"

lemma length_mk_dirent [simp]: "length (mk_dirent n nm) = 16"
  by (simp add: mk_dirent_def de_encode_def strncpy_l_def DIRSIZ_def)

lemma demo_files_ok: "\<forall>f \<in> set demo_files. usable f" "length demo_files < NINODES" "fits (root_dir demo_files # map mk_content demo_files)"
proof -
  have "strncmp_l 5 [117, 115, 101, 114, 47, 95, 97, 98] [117, 115, 101, 114, 47] = 0" by (simp add: eval_nat_numeral)
  then show "\<forall>f \<in> set demo_files. usable f" "length demo_files < NINODES" "fits (root_dir demo_files # map mk_content demo_files)"
    by (simp_all add: demo_files_def usable_def shortname_def str_def slash_def NINODES_def fits_def root_dir_def dots_def mk_content_def
      blk_def cblk_def layout_values)
qed

theorem mkfs_builds_witness:
  "list_all usable demo_files \<and> fits (root_dir demo_files # map mk_content demo_files) \<and>
   (\<exists>s as. mkfs_main demo_files = Ret () s \<and> dinode_at s 2 = mk_din 1 as 4 \<and> map (fbyte (iview s) as) [0..<4] = [1, 2, 3, 4])"
proof -
  have c: "mk_content (demo_files ! 0) = [1, 2, 3, 4]" "0 < length demo_files" by (simp_all add: demo_files_def mk_content_def)
  obtain s As where "mkfs_main demo_files = Ret () s"
    "\<forall>i < length demo_files. dinode_at s (i + 2) = mk_din (i + 1) (As ! (i + 1)) (length (mk_content (demo_files ! i))) \<and>
       map (fbyte (iview s) (As ! (i + 1))) [0..<length (mk_content (demo_files ! i))] = mk_content (demo_files ! i)"
    using mkfs_builds [OF demo_files_ok] by blast
  from this(1) this(2) [rule_format, OF c(2)] demo_files_ok show ?thesis
    unfolding c by (intro conjI exI [of _ s] exI [of _ "As ! 1"]) (simp_all add: eval_nat_numeral list_all_iff)
qed

end
