(* ===== verification/Virtiospec.thy ===== *)
theory Virtiospec
  imports Virtio
begin

text \<open>
  The disk driver over the life of a request: it describes the request in a chain of three
  descriptors, publishes the chain and sleeps; the completion interrupt wakes the sleeper, which
  gives the descriptors back.  Any number of other requests may be under way.
\<close>

section \<open>Going to sleep and waking up\<close>

text \<open>
  \<open>sleep\<close> called with one spin lock held trades it for the lock of the process, so a waker that
  holds the spin lock cannot come between.
\<close>

lemma sleep_locks:
  assumes "calm p s" "mach t = mach (acq lk s)" "lk \<noteq> L_proc p"
  shows "release lk (acq (L_proc p) t) = Ret () (t\<lparr>csr := csr (acq (L_proc p) s), cpus := cpus (acq (L_proc p) s),
    locks := locks (acq (L_proc p) s)\<rparr>)"
proof -
  have t: "hart t = hart s" "csr t = csr (acq lk s)" "cpus t = cpus (acq lk s)" "locks t = locks (acq lk s)"
    using assms(2) by (simp_all add: mach_def)
  have n: "noff (mycpu s) = 0" and f: "lock_free lk s" using calmD [OF assms(1)] by blast+
  have m: "mycpu (acq (L_proc p) t) = (mycpu s)\<lparr>intena := intr_get s, noff := 2\<rparr>"
    using n t by (simp add: acq_def pushed_def machine_defs)
  have "release lk (acq (L_proc p) t) = Ret () (rel lk (acq (L_proc p) t))"
    by (rule release_eq) (use assms(3) t m in \<open>simp_all add: acq_def pushed_def machine_defs\<close>)
  also have "rel lk (acq (L_proc p) t) = t\<lparr>csr := csr (acq (L_proc p) s), cpus := cpus (acq (L_proc p) s),
    locks := locks (acq (L_proc p) s)\<rparr>"
  proof -
    have "csr (rel lk (acq (L_proc p) t)) = csr (acq (L_proc p) s)"
      using n t by (auto simp: rel_def popped_def acq_def pushed_def machine_defs fun_eq_iff)
    moreover have "cpus (rel lk (acq (L_proc p) t)) = cpus (acq (L_proc p) s)"
      using n t by (auto simp: rel_def popped_def acq_def pushed_def machine_defs fun_eq_iff)
    moreover have "locks (rel lk (acq (L_proc p) t)) = locks (acq (L_proc p) s)"
      using f t assms(3) by (auto simp: rel_def popped_def acq_def pushed_def lock_free_def fun_eq_iff)
    moreover have "rel lk (acq (L_proc p) t) = t\<lparr>csr := csr (rel lk (acq (L_proc p) t)),
      cpus := cpus (rel lk (acq (L_proc p) t)), locks := locks (rel lk (acq (L_proc p) t))\<rparr>"
      by (simp add: rel_def popped_def acq_def pushed_def)
    ultimately show ?thesis by simp
  qed
  finally show ?thesis .
qed

lemma calm_sleep:
  assumes "calm p s" "mach t = mach (acq lk s)" "lk \<noteq> L_proc p"
  shows "sleep cc lk t = Switch (upd_proc p (\<lambda>x. x\<lparr>p_chan := Some cc, p_state := SLEEPING\<rparr>)
    (t\<lparr>csr := csr (acq (L_proc p) s), cpus := cpus (acq (L_proc p) s), locks := locks (acq (L_proc p) s)\<rparr>))"
    (is "_ = Switch ?u")
proof -
  note i = calm_inside [OF assms(1,2)]
  have h: "hart t = hart s" using assms(2) by (simp add: mach_def)
  have a: "acquire (L_proc p) t = Ret () (acq (L_proc p) t)"
    by (rule acquire_eq [OF i(1) i(4)]) (use assms(3) in simp)
  have m: "mach ?u = mach (acq (L_proc p) s)"
    using h by (simp add: mach_def upd_proc_def)
  note j = calm_inside [OF assms(1) m]
  have "holding (L_proc p) ?u" "\<not> intr_get ?u"
    using holding_acq [of "L_proc p" s] intr_get_acq [of "L_proc p" s] m by (simp_all add: mach_def machine_defs)
  moreover have "p_state (procs ?u p) = SLEEPING" by (simp add: upd_proc_def)
  ultimately have "sched ?u = Switch ?u"
    using j by (simp add: sched_def with_myproc_eq)
  then show ?thesis using i a sleep_locks [OF assms]
    by (simp add: sleep_def with_myproc_eq)
qed

text \<open>
  A process that the scheduler has switched back to: it holds its own lock and nothing else.
  Leaving \<open>sched\<close> brings it back to a calm state, in which it takes the spin lock again.
\<close>

definition switched_to :: "nat \<Rightarrow> 'z kproc_scheme \<Rightarrow> bool" where
  "switched_to p s \<longleftrightarrow> cpu_proc (mycpu s) = Some p \<and> p < NPROC \<and> noff (mycpu s) = 1 \<and> \<not> intr_get s \<and>
     holding (L_proc p) s \<and> (\<forall>l. l \<noteq> L_proc p \<longrightarrow> lock_free l s)"

lemma sleep_resumes:
  assumes "switched_to p s"
  obtains c where "sleep_resume p saved lk s = Ret () (acq lk c)" "calm p c"
    "c = upd_proc p (\<lambda>x. x\<lparr>p_chan := None\<rparr>) (s\<lparr>csr := csr c, cpus := cpus c, locks := locks c\<rparr>)"
proof -
  let ?t = "upd_proc p (\<lambda>x. x\<lparr>p_chan := None\<rparr>) (sched_resume saved s)"
  note d = assms [unfolded switched_to_def]
  have "release (L_proc p) ?t = Ret () (rel (L_proc p) ?t)"
    by (rule release_eq) (use d in \<open>simp_all add: upd_proc_def sched_resume_def machine_defs\<close>)
  moreover have c: "calm p (rel (L_proc p) ?t)"
    unfolding calm_def
  proof (intro conjI allI)
    show "lock_free l (rel (L_proc p) ?t)" for l
      using d by (cases "l = L_proc p") (simp_all add: rel_def popped_def upd_proc_def sched_resume_def machine_defs lock_free_def)
    show "intena (mycpu (rel (L_proc p) ?t)) = intr_get (rel (L_proc p) ?t)"
      using d SIE_on by (simp add: rel_def popped_def upd_proc_def sched_resume_def machine_defs)
  qed (use d in \<open>simp_all add: rel_def popped_def upd_proc_def sched_resume_def machine_defs\<close>)
  moreover have "acquire lk (rel (L_proc p) ?t) = Ret () (acq lk (rel (L_proc p) ?t))"
    by (rule calm_acquire [OF c])
  ultimately show thesis
    by (intro that [of "rel (L_proc p) ?t"])
      (simp_all add: sleep_resume_def, simp add: rel_def popped_def upd_proc_def sched_resume_def machine_defs)
qed

section \<open>Descriptors\<close>

lemma vd_frame [simp]:
  fixes s :: "'z vstate_scheme"
  shows "vd (acq l s) = vd s" "vd (woken cc p s) = vd s" "vd (upd_buf b g s) = vd s" "vd (upd_proc p h s) = vd s"
    "bufs (woken cc p s) = bufs s" "bufs (acq l s) = bufs s"
  by (simp_all add: acq_def pushed_def woken_def map_procs_def upd_buf_def upd_proc_def)

lemma upd_vd_fields [simp]:
  fixes s :: "'z vstate_scheme"
  shows "vd (upd_vd f s) = f (vd s)" "mach (upd_vd f s) = mach s" "bufs (upd_vd f s) = bufs s" "procs (upd_vd f s) = procs s"
  by (simp_all add: upd_vd_def mach_def)

lemma upd_vd_upd_vd [simp]: "upd_vd f (upd_vd g s) = upd_vd (\<lambda>d. f (g d)) s"
  by (simp add: upd_vd_def)

definition free_descs :: "vdisk \<Rightarrow> nat list" where
  "free_descs d = filter (v_free d) [0..<VNUM]"

definition take_desc :: "nat \<Rightarrow> vdisk \<Rightarrow> vdisk" where
  "take_desc i d = d\<lparr>v_free := (v_free d)(i := False)\<rparr>"

definition give_desc :: "nat \<Rightarrow> vdisk \<Rightarrow> vdisk" where
  "give_desc i d = d\<lparr>v_desc := (v_desc d)(i := zero_desc), v_free := (v_free d)(i := True)\<rparr>"

lemma find_filter: "find P xs = (case filter P xs of [] \<Rightarrow> None | x # _ \<Rightarrow> Some x)"
  by (induction xs) auto

lemma filter_hd_off: "distinct xs \<Longrightarrow> filter P xs = x # ys \<Longrightarrow> filter (P(x := False)) xs = ys"
  by (induction xs) (auto split: if_splits intro!: filter_cong)

lemma free_descs_take: "free_descs d = i # fs \<Longrightarrow> free_descs (take_desc i d) = fs"
  by (simp add: free_descs_def take_desc_def filter_hd_off)

lemma alloc_desc_eq:
  "alloc_desc s = (case free_descs (vd s) of [] \<Rightarrow> (-1, s) | i # _ \<Rightarrow> (int i, upd_vd (take_desc i) s))"
  by (simp add: alloc_desc_def find_filter free_descs_def take_desc_def [abs_def] split: list.split)

lemma give_take: "v_free d i \<Longrightarrow> give_desc i (take_desc i d) = d\<lparr>v_desc := (v_desc d)(i := zero_desc)\<rparr>"
  by (cases d) (simp add: give_desc_def take_desc_def fun_upd_idem)

lemma give_take2:
  assumes "v_free d i" "v_free d j" "i \<noteq> j"
  shows "give_desc j (give_desc i (take_desc j (take_desc i d))) = d\<lparr>v_desc := (v_desc d)(i := zero_desc, j := zero_desc)\<rparr>"
proof -
  have "(v_free d)(i := True, j := True) = v_free d"
    "(v_free d)(i := False, j := False, i := True, j := True) = (v_free d)(i := True, j := True)"
    using assms by (auto simp: fun_eq_iff)
  then show ?thesis by (cases d) (simp add: give_desc_def take_desc_def)
qed

lemma free_descs_set: "set (free_descs d) = {i. i < VNUM \<and> v_free d i}"
  by (auto simp: free_descs_def)

lemma free_desc_eq:
  fixes t :: "'z vstate_scheme"
  assumes "calm p c" "mach t = mach (acq L_vdisk c)" "i < VNUM" "\<not> v_free (vd t) i"
  shows "free_desc (int i) t = Ret () (woken C_vdisk_free p (upd_vd (give_desc i) t))"
proof -
  have "wakeup (Some C_vdisk_free) (upd_vd (give_desc i) t) = Ret () (woken C_vdisk_free p (upd_vd (give_desc i) t))"
    by (rule calm_wakeup [OF assms(1), where l = L_vdisk]) (simp_all add: assms(2))
  then show ?thesis using assms(3,4) by (simp add: free_desc_def give_desc_def [abs_def])
qed

text \<open>
  \<open>alloc3_desc\<close> takes the first three free descriptors.  When there are fewer it gives back what
  it took, and the descriptors that are in use are as before.
\<close>

definition settled :: "nat \<Rightarrow> 'z vstate_scheme \<Rightarrow> 'z vstate_scheme \<Rightarrow> bool" where
  "settled p s t \<longleftrightarrow> mach t = mach s \<and> bufs t = bufs s \<and> procs t p = procs s p \<and>
     v_free (vd t) = v_free (vd s) \<and> (\<forall>i. \<not> v_free (vd s) i \<longrightarrow> v_desc (vd t) i = v_desc (vd s) i) \<and>
     vd t = (vd s)\<lparr>v_desc := v_desc (vd t)\<rparr>"

lemma alloc3_enough:
  assumes "free_descs (vd s) = i # j # k # fs"
  shows "alloc3_desc s = Ret (Some (i, j, k)) (upd_vd (\<lambda>d. take_desc k (take_desc j (take_desc i d))) s)"
  using assms free_descs_take [OF assms] free_descs_take [OF free_descs_take [OF assms]]
  by (simp add: alloc3_desc_def alloc_desc_eq)

lemma alloc3_few:
  assumes "calm p c" "mach s = mach (acq L_vdisk c)" "length (free_descs (vd s)) < 3"
  obtains t where "alloc3_desc s = Ret None t" "settled p s t"
proof -
  consider "free_descs (vd s) = []" | i where "free_descs (vd s) = [i]" | i j where "free_descs (vd s) = [i, j]"
    using assms(3) by (cases "free_descs (vd s)" rule: remdups_adj.cases) (auto simp: numeral_3_eq_3 length_Suc_conv)
  then show thesis
  proof cases
    case 1
    then show ?thesis by (intro that [of s]) (simp_all add: alloc3_desc_def alloc_desc_eq settled_def)
  next
    case (2 i)
    have i: "i < VNUM" "v_free (vd s) i" using free_descs_set [of "vd s"] 2 by auto
    have "free_desc (int i) (upd_vd (take_desc i) s) = Ret () (woken C_vdisk_free p (upd_vd (give_desc i) (upd_vd (take_desc i) s)))"
      by (rule free_desc_eq [OF assms(1)]) (use i assms(2) in \<open>simp_all add: take_desc_def\<close>)
    then show ?thesis using free_descs_take [OF 2] i
      give_take [OF i(2)]
      by (intro that, simp add: alloc3_desc_def alloc_desc_eq 2) (auto simp: settled_def)
  next
    case (3 i j)
    let ?u = "upd_vd (\<lambda>d. take_desc j (take_desc i d)) s"
    have d: "distinct [i, j]" unfolding 3 [symmetric] by (simp add: free_descs_def)
    have i: "i < VNUM" "j < VNUM" "v_free (vd s) i" "v_free (vd s) j" using free_descs_set [of "vd s"] 3 by auto
    have "free_desc (int i) ?u = Ret () (woken C_vdisk_free p (upd_vd (give_desc i) ?u))"
      by (rule free_desc_eq [OF assms(1)]) (use i d assms(2) in \<open>simp_all add: take_desc_def\<close>)
    moreover have "free_desc (int j) (woken C_vdisk_free p (upd_vd (give_desc i) ?u)) =
       Ret () (woken C_vdisk_free p (upd_vd (give_desc j) (woken C_vdisk_free p (upd_vd (give_desc i) ?u))))"
      by (rule free_desc_eq [OF assms(1)]) (use i d assms(2) in \<open>simp_all add: take_desc_def give_desc_def\<close>)
    ultimately show ?thesis using free_descs_take [OF 3] free_descs_take [OF free_descs_take [OF 3]] i d
      give_take2 [OF i(3,4)]
      by (intro that, simp add: alloc3_desc_def alloc_desc_eq 3) (auto simp: settled_def)


  qed
qed

section \<open>Requests under way\<close>

text \<open>
  A request: its three descriptors, the buffer, the direction and the sector.  \<open>vchain\<close> says that
  the tables that the device reads describe it; \<open>vd_inv\<close> that the chains of the requests \<open>R\<close>
  do not overlap, that they use exactly the descriptors that are not free, and that each
  describes its request.
\<close>

record request =
  vq_head :: nat
  vq_data :: nat
  vq_stat :: nat
  vq_buf :: nat
  vq_write :: bool
  vq_sector :: uint64

definition descs :: "request \<Rightarrow> nat list" where
  "descs r = [vq_head r, vq_data r, vq_stat r]"

definition vchain :: "vdisk \<Rightarrow> request \<Rightarrow> bool" where
  "vchain d r \<longleftrightarrow>
     v_ops d (vq_head r) = \<lparr>rq_type = (if vq_write r then VIRTIO_BLK_T_OUT else VIRTIO_BLK_T_IN), rq_reserved = 0,
       rq_sector = vq_sector r\<rparr> \<and>
     v_desc d (vq_head r) = \<lparr>d_addr = DA_req (vq_head r), d_len = 16, d_flags = VRING_DESC_F_NEXT,
       d_next = of_nat (vq_data r)\<rparr> \<and>
     v_desc d (vq_data r) = \<lparr>d_addr = DA_data (vq_buf r), d_len = of_nat BSIZE,
       d_flags = (if vq_write r then VRING_DESC_F_NEXT else VRING_DESC_F_WRITE OR VRING_DESC_F_NEXT),
       d_next = of_nat (vq_stat r)\<rparr> \<and>
     v_desc d (vq_stat r) = \<lparr>d_addr = DA_status (vq_head r), d_len = 1, d_flags = VRING_DESC_F_WRITE, d_next = 0\<rparr> \<and>
     v_info_b d (vq_head r) = Some (vq_buf r)"

definition vd_inv :: "vdisk \<Rightarrow> request list \<Rightarrow> bool" where
  "vd_inv d R \<longleftrightarrow> distinct (concat (map descs R)) \<and>
     set (concat (map descs R)) = {i. i < VNUM \<and> \<not> v_free d i} \<and> (\<forall>r \<in> set R. vchain d r)"

lemma vchain_cong:
  assumes "vchain d r"
    "\<And>i. i \<in> set (descs r) \<Longrightarrow> v_desc e i = v_desc d i \<and> v_ops e i = v_ops d i \<and> v_info_b e i = v_info_b d i"
  shows "vchain e r"
  using assms(1) assms(2) [of "vq_head r"] assms(2) [of "vq_data r"] assms(2) [of "vq_stat r"]
  by (simp add: vchain_def descs_def)

lemma vd_inv_descs:
  assumes "vd_inv d R" "r \<in> set R" "i \<in> set (descs r)"
  shows "i < VNUM" "\<not> v_free d i"
  using assms by (auto simp: vd_inv_def)

lemma vd_inv_settled: "vd_inv (vd s) R \<Longrightarrow> settled p s t \<Longrightarrow> vd_inv (vd t) R"
proof -
  assume a: "vd_inv (vd s) R" "settled p s t"
  have v: "vd t = (vd s)\<lparr>v_desc := v_desc (vd t)\<rparr>" "\<And>i. \<not> v_free (vd s) i \<Longrightarrow> v_desc (vd t) i = v_desc (vd s) i"
    using a(2) unfolding settled_def by blast+
  have f: "v_free (vd t) = v_free (vd s)" "v_ops (vd t) = v_ops (vd s)" "v_info_b (vd t) = v_info_b (vd s)"
    by (subst v(1), simp)+
  have "vchain (vd t) r" if r: "r \<in> set R" for r
  proof (rule vchain_cong)
    show "vchain (vd s) r" using a(1) r by (simp add: vd_inv_def)
  qed (use vd_inv_descs(2) [OF a(1) r] v(2) f in simp)
  then show ?thesis using a(1) f(1) by (simp add: vd_inv_def)
qed

lemma submit_frame [simp]:
  fixes s :: "'z vstate_scheme"
  shows "mach (submit b w i j k s) = mach s" "procs (submit b w i j k s) = procs s" "b_disk (bufs (submit b w i j k s) b)"
    "b_blockno (bufs (submit b w i j k s) x) = b_blockno (bufs s x)"
  by (simp_all add: submit_def Let_def vput_def upd_buf_def upd_vd_def mach_def)

lemma submit_publishes:
  fixes s :: "'z vstate_scheme"
  shows "v_avail_idx (vd (submit b w i j k s)) = v_avail_idx (vd s) + 1"
    "v_avail_ring (vd (submit b w i j k s)) = (v_avail_ring (vd s))(unat (v_avail_idx (vd s)) mod VNUM := of_nat i)"
    "v_mmio (vd (submit b w i j k s)) = v_mmio (vd s) @ [(QUEUE_NOTIFY, 0)]"
    "v_free (vd (submit b w i j k s)) = v_free (vd s)"
    "v_info_status (vd (submit b w i j k s)) = (v_info_status (vd s))(i := 0xff)"
  by (simp_all add: submit_def Let_def vput_def)

lemma submit_chain:
  fixes s :: "'z vstate_scheme"
  assumes "distinct [i, j, k]"
  shows "vchain (vd (submit b w i j k s)) \<lparr>vq_head = i, vq_data = j, vq_stat = k, vq_buf = b, vq_write = w,
    vq_sector = ucast (b_blockno (bufs s b) * 2)\<rparr>"
  using assms by (simp add: vchain_def submit_def Let_def vput_def)

lemma submit_other:
  fixes s :: "'z vstate_scheme"
  assumes "vchain (vd s) r" "set (descs r) \<inter> {i, j, k} = {}"
  shows "vchain (vd (submit b w i j k s)) r"
proof (rule vchain_cong [OF assms(1)])
  fix x assume "x \<in> set (descs r)"
  then have "x \<noteq> i" "x \<noteq> j" "x \<noteq> k" using assms(2) by auto
  then show "v_desc (vd (submit b w i j k s)) x = v_desc (vd s) x \<and> v_ops (vd (submit b w i j k s)) x = v_ops (vd s) x \<and>
    v_info_b (vd (submit b w i j k s)) x = v_info_b (vd s) x"
    by (simp add: submit_def Let_def vput_def)
qed

lemma submit_inv:
  fixes s :: "'z vstate_scheme"
  assumes "vd_inv (vd s) R" "free_descs (vd s) = i # j # k # fs"
  defines "u \<equiv> upd_vd (\<lambda>d. take_desc k (take_desc j (take_desc i d))) s"
  shows "vd_inv (vd (submit b w i j k u)) (\<lparr>vq_head = i, vq_data = j, vq_stat = k, vq_buf = b, vq_write = w,
    vq_sector = ucast (b_blockno (bufs s b) * 2)\<rparr> # R)"
proof -
  have "distinct (free_descs (vd s))" by (simp add: free_descs_def)
  then have d: "distinct [i, j, k]" unfolding assms(2) by simp
  have f: "x < VNUM" "v_free (vd s) x" if "x \<in> {i, j, k}" for x
    using that free_descs_set [of "vd s"] assms(2) by auto
  have n: "set (descs r) \<inter> {i, j, k} = {}" if "r \<in> set R" for r
    using vd_inv_descs(2) [OF assms(1) that] f(2) by auto
  have "vchain (vd u) r" if "r \<in> set R" for r
    using assms(1) that by (auto simp: vd_inv_def u_def take_desc_def intro: vchain_cong)
  then have "vchain (vd (submit b w i j k u)) r" if "r \<in> set R" for r using n that by (intro submit_other) auto
  moreover have "{x. x < VNUM \<and> \<not> v_free (vd u) x} = {x. x < VNUM \<and> \<not> v_free (vd s) x} \<union> {i, j, k}"
    using f by (auto simp: u_def take_desc_def)
  moreover have "b_blockno (bufs u b) = b_blockno (bufs s b)" by (simp add: u_def)
  ultimately show ?thesis
    using assms(1) n d f(2) [of i] f(2) [of j] f(2) [of k] submit_chain [OF d, where s = u and b = b and w = w] unfolding vd_inv_def submit_publishes(4)
    by (auto simp: descs_def)
qed

section \<open>Giving the descriptors back\<close>

lemma upd_vd_woken: "upd_vd f (woken cc p s) = woken cc p (upd_vd f s)"
  by (simp add: upd_vd_def woken_def map_procs_def cong: if_cong)

lemma woken_woken [simp]: "woken cc p (woken cc p s) = woken cc p s"
  unfolding woken_def map_procs_def by (simp, intro arg_cong [where f = "\<lambda>f. s\<lparr>procs := f\<rparr>"] ext) auto

lemma VNUM_next: "i < VNUM \<Longrightarrow> uint (of_nat i :: 16 word) = int i"
  by (simp add: VNUM_def unsigned_of_nat take_bit_nat_eq_self uint_nat)

lemma desc_flags:
  "VRING_DESC_F_NEXT AND VRING_DESC_F_NEXT \<noteq> 0"
  "(if w then VRING_DESC_F_NEXT else VRING_DESC_F_WRITE OR VRING_DESC_F_NEXT) AND VRING_DESC_F_NEXT \<noteq> 0"
  "VRING_DESC_F_WRITE AND VRING_DESC_F_NEXT = 0"
  by (simp_all add: VRING_DESC_F_NEXT_def VRING_DESC_F_WRITE_def)

lemma free_chain_round:
  fixes t :: "'z vstate_scheme"
  assumes "calm p c" "mach t = mach (acq L_vdisk c)" "i < VNUM" "\<not> v_free (vd t) i"
  shows "free_chain_loop (Suc n) (int i) t =
    (let u = woken C_vdisk_free p (upd_vd (give_desc i) t) in
     if d_flags (v_desc (vd t) i) AND VRING_DESC_F_NEXT \<noteq> 0
     then free_chain_loop n (uint (d_next (v_desc (vd t) i))) u else Ret () u)"
  by (simp add: free_desc_eq [OF assms] Let_def)

text \<open>The bound on the rounds of \<open>free_chain\<close> is never what ends the loop.\<close>

lemma free_chain_fuel:
  fixes t :: "'z vstate_scheme"
  assumes "calm p c" "mach t = mach (acq L_vdisk c)" "card {i. i < VNUM \<and> \<not> v_free (vd t) i} < n"
  shows "free_chain_loop n i t \<noteq> Spin"
  using assms(2,3)
proof (induction n arbitrary: i t)
  case (Suc n)
  show ?case
  proof (cases "0 \<le> i \<and> i < int VNUM \<and> \<not> v_free (vd t) (nat i)")
    case True
    then obtain k where k: "i = int k" "k < VNUM" "\<not> v_free (vd t) k" by (metis nat_0_le nat_less_iff)
    let ?u = "woken C_vdisk_free p (upd_vd (give_desc k) t)"
    have "{j. j < VNUM \<and> \<not> v_free (vd ?u) j} = {j. j < VNUM \<and> \<not> v_free (vd t) j} - {k}"
      by (auto simp: give_desc_def)
    moreover have "0 < card {j. j < VNUM \<and> \<not> v_free (vd t) j}" using k by (auto simp: card_gt_0_iff)
    ultimately have "card {j. j < VNUM \<and> \<not> v_free (vd ?u) j} < n"
      using Suc.prems(2) k by (simp add: card_Diff_singleton)
    then have "free_chain_loop n j ?u \<noteq> Spin" for j using Suc.IH [of ?u] Suc.prems(1) by simp
    then show ?thesis using free_chain_round [OF assms(1) Suc.prems(1) k(2,3), of n]
      by (simp add: k(1) Let_def del: free_chain_loop.simps)
  next
    case False
    then show ?thesis by (auto simp: free_desc_def Let_def)
  qed
qed simp

corollary free_chain_ends:
  fixes t :: "'z vstate_scheme"
  assumes "calm p c" "mach t = mach (acq L_vdisk c)"
  shows "free_chain i t \<noteq> Spin"
proof -
  have "card {i. i < VNUM \<and> \<not> v_free (vd t) i} \<le> card {..<VNUM}" by (rule card_mono) auto
  then show ?thesis unfolding free_chain_def by (intro free_chain_fuel [OF assms]) simp
qed

lemma free_chain_frees:

  fixes t :: "'z vstate_scheme"
  assumes "calm p c" "mach t = mach (acq L_vdisk c)" "vchain (vd t) r" "distinct (descs r)"
    "\<And>i. i \<in> set (descs r) \<Longrightarrow> i < VNUM \<and> \<not> v_free (vd t) i"
  shows "free_chain (int (vq_head r)) (upd_vd (\<lambda>d. d\<lparr>v_info_b := (v_info_b d)(vq_head r := None)\<rparr>) t) =
    Ret () (woken C_vdisk_free p (upd_vd (\<lambda>d. give_desc (vq_stat r) (give_desc (vq_data r) (give_desc (vq_head r)
      (d\<lparr>v_info_b := (v_info_b d)(vq_head r := None)\<rparr>)))) t))"
proof -
  obtain i j k where r: "vq_head r = i" "vq_data r = j" "vq_stat r = k" by simp
  let ?t = "upd_vd (\<lambda>d. d\<lparr>v_info_b := (v_info_b d)(i := None)\<rparr>) t"
  let ?u = "woken C_vdisk_free p (upd_vd (give_desc i) ?t)"
  let ?v = "woken C_vdisk_free p (upd_vd (give_desc j) ?u)"
  have b: "i < VNUM" "j < VNUM" "k < VNUM" "\<not> v_free (vd t) i" "\<not> v_free (vd t) j" "\<not> v_free (vd t) k"
    using assms(5) r by (simp_all add: descs_def)
  have d: "i \<noteq> j" "i \<noteq> k" "j \<noteq> k" using assms(4) r by (simp_all add: descs_def)
  note n = VNUM_next [OF b(2)] VNUM_next [OF b(3)]
  have 1: "free_chain_loop 9 (int i) ?t = free_chain_loop 8 (int j) ?u"
    using free_chain_round [OF assms(1) _ b(1), where t = ?t and n = 8] assms(2,3) b(4) n(1) r desc_flags(1)
    by (simp add: vchain_def)
  have 2: "free_chain_loop 8 (int j) ?u = free_chain_loop 7 (int k) ?v"
    using free_chain_round [OF assms(1) _ b(2), where t = ?u and n = 7] assms(2,3) b(5) n(2) r desc_flags(2) [of "vq_write r"] d
    by (simp add: vchain_def give_desc_def)
  have 3: "free_chain_loop 7 (int k) ?v = Ret () (woken C_vdisk_free p (upd_vd (give_desc k) ?v))"
    using free_chain_round [OF assms(1) _ b(3), where t = ?v and n = 6] assms(2,3) b(6) r desc_flags(3) d
    by (simp add: vchain_def give_desc_def)
  show ?thesis using 1 2 3 by (simp add: free_chain_def VNUM_def r upd_vd_woken)
qed

lemma freed_inv:
  assumes "vd_inv d R" "r \<in> set R"
  shows "vd_inv (give_desc (vq_stat r) (give_desc (vq_data r) (give_desc (vq_head r)
    (d\<lparr>v_info_b := (v_info_b d)(vq_head r := None)\<rparr>)))) (remove1 r R)" (is "vd_inv ?e _")
proof -
  obtain A B where R: "R = A @ r # B" "r \<notin> set A" using assms(2) by (meson split_list_first)
  have rm: "remove1 r R = A @ B" using R by (simp add: remove1_append)
  have dis: "distinct (concat (map descs R))" using assms(1) by (simp add: vd_inv_def)
  have n: "set (descs r) \<inter> set (descs q) = {}" if "q \<in> set (A @ B)" for q
    using dis that unfolding R(1) by fastforce
  have "vchain ?e q" if q: "q \<in> set (A @ B)" for q
  proof (rule vchain_cong)
    show "vchain d q" using assms(1) q R by (auto simp: vd_inv_def)
    show "v_desc ?e x = v_desc d x \<and> v_ops ?e x = v_ops d x \<and> v_info_b ?e x = v_info_b d x" if "x \<in> set (descs q)" for x
    proof -
      have "x \<notin> set (descs r)" using n [OF q] that by blast
      then show ?thesis by (simp add: give_desc_def descs_def)
    qed
  qed
  moreover have "set (concat (map descs (A @ B))) = {i. i < VNUM \<and> \<not> v_free ?e i}"
  proof -
    have "v_free ?e i \<longleftrightarrow> v_free d i \<or> i \<in> set (descs r)" for i by (auto simp: give_desc_def descs_def)
    moreover have "set (concat (map descs (A @ B))) = set (concat (map descs R)) - set (descs r)"
      using n unfolding R(1) by fastforce
    ultimately show ?thesis using assms(1) by (auto simp: vd_inv_def)
  qed
  moreover have "distinct (concat (map descs (A @ B)))" using dis unfolding R(1) by auto
  ultimately show ?thesis by (simp add: rm vd_inv_def)
qed

section \<open>The completion interrupt\<close>

text \<open>The processes that the handler wakes: those asleep on a buffer of a completed request.\<close>

definition io_done :: "nat option \<Rightarrow> nat set \<Rightarrow> (nat \<Rightarrow> proc) \<Rightarrow> nat \<Rightarrow> proc" where
  "io_done me B ps q =
     (if q < NPROC \<and> Some q \<noteq> me \<and> p_state (ps q) = SLEEPING \<and> (\<exists>b \<in> B. p_chan (ps q) = Some (C_bufdone b))
      then (ps q)\<lparr>p_state := RUNNABLE\<rparr> else ps q)"

lemma wakeup_inside:
  assumes "noff (mycpu s) = 0" "\<And>l. lock_free l s" "mach t = mach (acq L_vdisk s)"
  shows "wakeup (Some (C_bufdone b)) t = Ret () (t\<lparr>procs := io_done (cpu_proc (mycpu s)) {b} (procs t)\<rparr>)"
proof -
  have m: "cpu_ok t" "noff (mycpu t) = 1" "cpu_proc (mycpu t) = cpu_proc (mycpu s)" "proc_locks_free t"
    using assms(1,2) mach_cong [OF assms(3)] cpu_ok_acq [of s L_vdisk]
    by (simp_all add: proc_locks_free_def cpu_ok_def)
  have "touch t = t" using m by (intro touch_nested) simp_all
  then show ?thesis using wakeup_eq [OF m(1,4), of "Some (C_bufdone b)"] m(3)
    by (simp add: map_procs_def io_done_def [abs_def] fun_eq_iff cong: if_cong)
qed

lemma intr_loop_completes:
  fixes t :: "'z vstate_scheme"
  assumes "noff (mycpu s) = 0" "\<And>l. lock_free l s" "mach t = mach (acq L_vdisk s)"
    "\<And>m. m < length rs \<Longrightarrow> unat (v_used_ring (vd t) (unat (v_used_idx (vd t) + of_nat m) mod VNUM)) = vq_head (rs ! m)"
    "\<And>r. r \<in> set rs \<Longrightarrow> vq_head r < VNUM \<and> v_info_status (vd t) (vq_head r) = 0 \<and> v_info_b (vd t) (vq_head r) = Some (vq_buf r)"
  shows "\<exists>u. intr_loop (length rs) t = Ret () u \<and> mach u = mach t \<and>
    vd u = (vd t)\<lparr>v_used_idx := v_used_idx (vd t) + of_nat (length rs)\<rparr> \<and>
    (\<forall>b. b_disk (bufs u b) \<longleftrightarrow> b_disk (bufs t b) \<and> b \<notin> vq_buf ` set rs) \<and>
    procs u = io_done (cpu_proc (mycpu s)) (vq_buf ` set rs) (procs t)"
  using assms(3-5)
proof (induction rs arbitrary: t)
  case Nil
  then show ?case by (simp add: io_done_def [abs_def])
next
  case (Cons r rs)
  let ?b = "vq_buf r" and ?me = "cpu_proc (mycpu s)"
  let ?v = "upd_buf ?b (\<lambda>x. x\<lparr>b_disk := False\<rparr>) t"
  let ?w = "?v\<lparr>procs := io_done ?me {?b} (procs t)\<rparr>"
  let ?x = "upd_vd (\<lambda>d. d\<lparr>v_used_idx := v_used_idx d + 1\<rparr>) ?w"
  have "mach ?v = mach (acq L_vdisk s)" using Cons.prems(1) by (simp add: upd_buf_def mach_def)
  then have w: "wakeup (Some (C_bufdone ?b)) ?v = Ret () ?w"
    using wakeup_inside [OF assms(1,2), of ?v ?b] by (simp add: upd_buf_def)
  have x: "mach ?x = mach t" "procs ?x = io_done ?me {?b} (procs t)"
    "bufs ?x = (bufs t)(?b := (bufs t ?b)\<lparr>b_disk := False\<rparr>)" "vd ?x = (vd t)\<lparr>v_used_idx := v_used_idx (vd t) + 1\<rparr>"
    by (simp_all add: upd_buf_def upd_vd_def mach_def)
  have h: "unat (v_used_ring (vd t) (unat (v_used_idx (vd t)) mod VNUM)) = vq_head r"
    using Cons.prems(2) [of 0] by simp
  have "unat (v_used_ring (vd ?x) (unat (v_used_idx (vd ?x) + of_nat m) mod VNUM)) = vq_head (rs ! m)" if "m < length rs" for m
    using Cons.prems(2) [of "Suc m"] that unfolding x by (simp add: add.assoc)
  then obtain u where u: "intr_loop (length rs) ?x = Ret () u" "mach u = mach ?x"
    "vd u = (vd ?x)\<lparr>v_used_idx := v_used_idx (vd ?x) + of_nat (length rs)\<rparr>"
    "\<forall>b. b_disk (bufs u b) \<longleftrightarrow> b_disk (bufs ?x b) \<and> b \<notin> vq_buf ` set rs"
    "procs u = io_done ?me (vq_buf ` set rs) (procs ?x)"
    using Cons.IH [of ?x] Cons.prems(1,3) x by auto
  have "intr_loop (length (r # rs)) t = Ret () u"
    using Cons.prems(3) [of r] w u(1) by (simp add: h)
  moreover have "procs u = io_done ?me (vq_buf ` set (r # rs)) (procs t)"
    unfolding u(5) x by (rule ext) (auto simp: io_done_def)
  moreover have "vd u = (vd t)\<lparr>v_used_idx := v_used_idx (vd t) + of_nat (length (r # rs))\<rparr>"
    unfolding u(3) x by (simp add: add.assoc)
  ultimately show ?case using u(2,4) x by auto
qed

section \<open>The life of a request\<close>

text \<open>
  C28: \<open>virtio_disk_rw\<close> with at least three free descriptors puts a chain that describes exactly the
  request (command, sector of the block, data area, status byte) into the first three, keeps the
  chains of all other requests, sets the status byte of the request to \<open>0xff\<close> (not done) and no
  other, publishes the head in the next slot of the available ring,

  notifies the device, and leaves the process asleep on the buffer with the driver's lock
  released.  With fewer it changes no chain and sleeps until descriptors are free.
\<close>

theorem virtio_disk_rw_submits:
  fixes s :: "'z vstate_scheme"
  assumes "calm p s" "vd_inv (vd s) R"
  shows "\<exists>u. virtio_disk_rw b w s = Switch u \<and> p_state (procs u p) = SLEEPING \<and> holding (L_proc p) u \<and> lock_free L_vdisk u \<and>
    (case free_descs (vd s) of
       i # j # k # fs \<Rightarrow> p_chan (procs u p) = Some (C_bufdone b) \<and> b_disk (bufs u b) \<and>
         vd_inv (vd u) (\<lparr>vq_head = i, vq_data = j, vq_stat = k, vq_buf = b, vq_write = w,
           vq_sector = ucast (b_blockno (bufs s b) * 2)\<rparr> # R) \<and>
         v_avail_ring (vd u) = (v_avail_ring (vd s))(unat (v_avail_idx (vd s)) mod VNUM := of_nat i) \<and>
         v_avail_idx (vd u) = v_avail_idx (vd s) + 1 \<and> v_mmio (vd u) = v_mmio (vd s) @ [(QUEUE_NOTIFY, 0)] \<and>
         v_info_status (vd u) = (v_info_status (vd s))(i := 0xff)
     | _ \<Rightarrow> p_chan (procs u p) = Some C_vdisk_free \<and> vd_inv (vd u) R)"
proof -
  let ?a = "acq L_vdisk s"
  define fin where "fin cc t = upd_proc p (\<lambda>x. x\<lparr>p_chan := Some cc, p_state := SLEEPING\<rparr>)
    (t\<lparr>csr := csr (acq (L_proc p) s), cpus := cpus (acq (L_proc p) s), locks := locks (acq (L_proc p) s)\<rparr>)"
    for cc and t :: "'z vstate_scheme"
  have sl: "sleep cc L_vdisk t = Switch (fin cc t)" if "mach t = mach ?a" for cc t
    unfolding fin_def by (rule calm_sleep [OF assms(1) that]) simp
  have fin: "vd (fin cc t) = vd t" "bufs (fin cc t) = bufs t" "p_state (procs (fin cc t) p) = SLEEPING"
    "p_chan (procs (fin cc t) p) = Some cc" for cc t by (simp_all add: fin_def upd_proc_def)
  have lk: "holding (L_proc p) (fin cc t)" "lock_free L_vdisk (fin cc t)" if "mach t = mach ?a" for cc t
    using calmD(5) [OF assms(1), of L_vdisk] that
    by (simp_all add: fin_def upd_proc_def acq_def pushed_def mach_def machine_defs lock_free_def)
  have start: "virtio_disk_rw b w s = rw_start b w ?a"
    by (simp add: virtio_disk_rw_def calm_acquire [OF assms(1)])
  consider i j k fs where "free_descs (vd s) = i # j # k # fs" | "length (free_descs (vd s)) < 3"
    by (metis (no_types, lifting) length_0_conv length_Cons less_2_cases_iff less_Suc_eq list.exhaust numeral_2_eq_2 numeral_3_eq_3 zero_less_Suc)
  then show ?thesis
  proof cases
    case (1 i j k fs)
    let ?u = "submit b w i j k (upd_vd (\<lambda>d. take_desc k (take_desc j (take_desc i d))) ?a)"
    have "virtio_disk_rw b w s = Switch (fin (C_bufdone b) ?u)"
      using alloc3_enough [of ?a i j k fs] 1 sl [of ?u "C_bufdone b"] by (simp add: start rw_start_def rw_wait_def)
    moreover have "vd_inv (vd ?u) (\<lparr>vq_head = i, vq_data = j, vq_stat = k, vq_buf = b, vq_write = w,
        vq_sector = ucast (b_blockno (bufs s b) * 2)\<rparr> # R)"
      using submit_inv [of ?a R i j k fs b w] assms(2) 1 by simp
    ultimately show ?thesis using lk [of ?u "C_bufdone b"]
      by (intro exI [of _ "fin (C_bufdone b) ?u"]) (simp add: 1 fin submit_publishes take_desc_def)
  next
    case 2
    obtain t where t: "alloc3_desc ?a = Ret None t" "settled p ?a t"
      using alloc3_few [OF assms(1) refl] 2 by auto
    have "vd_inv (vd t) R" by (rule vd_inv_settled [OF _ t(2)]) (simp add: assms(2))
    moreover have m: "mach t = mach ?a" using t(2) by (simp add: settled_def)
    moreover have "virtio_disk_rw b w s = Switch (fin C_vdisk_free t)" using t(1) sl [OF m] by (simp add: start rw_start_def)
    ultimately show ?thesis using lk [OF m, of C_vdisk_free] 2
      by (intro exI [of _ "fin C_vdisk_free t"]) (auto simp: fin split: list.split)
  qed
qed

lemma virtio_intr_wakes:
  fixes s :: "'z vstate_scheme"
  assumes "noff (mycpu s) = 0" "\<forall>l. lock_free l s" "vd_inv (vd s) R" "set rs \<subseteq> set R"
    "\<forall>m < length rs. unat (v_used_ring (vd s) (unat (v_used_idx (vd s) + of_nat m) mod VNUM)) = vq_head (rs ! m)"
    "unat (v_dev_used_idx (vd s) - v_used_idx (vd s)) = length rs" "\<forall>r \<in> set rs. v_info_status (vd s) (vq_head r) = 0"
  shows "\<exists>t. virtio_disk_intr s = Ret () t \<and> vd_inv (vd t) R \<and> v_used_idx (vd t) = v_dev_used_idx (vd t) \<and>
      (\<forall>b. b_disk (bufs t b) \<longleftrightarrow> b_disk (bufs s b) \<and> b \<notin> vq_buf ` set rs) \<and>
      procs t = io_done (cpu_proc (mycpu s)) (vq_buf ` set rs) (procs s) \<and> (\<forall>l. lock_free l t)"
proof -
  let ?ack = "vput INTERRUPT_ACK (vreg INTERRUPT_STATUS (acq L_vdisk s) AND 3) (acq L_vdisk s)"
  have ok: "cpu_ok s" using assms(1) by (simp add: cpu_ok_def)
  have ack: "mach ?ack = mach (acq L_vdisk s)" "procs ?ack = procs s" "bufs ?ack = bufs s"
    "vd ?ack = (vd s)\<lparr>v_mmio := v_mmio (vd s) @ [(INTERRUPT_ACK, vreg INTERRUPT_STATUS (acq L_vdisk s) AND 3)]\<rparr>"
    by (simp_all add: vput_def acq_def pushed_def)
  have "vq_head r < VNUM \<and> v_info_b (vd s) (vq_head r) = Some (vq_buf r)" if "r \<in> set rs" for r
    using assms(3,4) vd_inv_descs(1) [OF assms(3), of r "vq_head r"] that by (auto simp: vd_inv_def vchain_def descs_def)
  then obtain t where t: "intr_loop (length rs) ?ack = Ret () t" "mach t = mach ?ack"
    "vd t = (vd ?ack)\<lparr>v_used_idx := v_used_idx (vd ?ack) + of_nat (length rs)\<rparr>"
    "\<forall>b. b_disk (bufs t b) \<longleftrightarrow> b_disk (bufs ?ack b) \<and> b \<notin> vq_buf ` set rs"
    "procs t = io_done (cpu_proc (mycpu s)) (vq_buf ` set rs) (procs ?ack)"
    using intr_loop_completes [of s ?ack rs] assms(1,2,5,7) ack by auto
  let ?t = "t\<lparr>csr := csr s, cpus := cpus (touch s), locks := locks s\<rparr>"
  have "virtio_disk_intr s = Ret () ?t"
    using assms(2,6) t(1) release_mach [OF ok, of L_vdisk t] t(2) ack
    by (simp add: virtio_disk_intr_def acquire_eq [OF ok] Let_def)
  moreover have "v_used_idx (vd s) + of_nat (length rs) = v_dev_used_idx (vd s)"
    by (simp add: assms(6) [symmetric])
  moreover have "vd_inv (vd ?t) R"
    using assms(3) t(3) ack(4) by (auto simp: vd_inv_def intro: vchain_cong)
  ultimately show ?thesis
    using t ack assms(2) by (intro exI [of _ ?t]) (auto simp: lock_free_def)
qed

lemma virtio_resume_frees:
  fixes u :: "'z vstate_scheme"
  assumes "switched_to p u" "vd_inv (vd u) Q" "r \<in> set Q" "\<not> b_disk (bufs u (vq_buf r))"
  shows "\<exists>v. virtio_disk_rw_resume p saved (vq_buf r) (vq_head r) u = Ret () v \<and> vd_inv (vd v) (remove1 r Q) \<and> calm p v"
proof -
  obtain c where c: "sleep_resume p saved L_vdisk u = Ret () (acq L_vdisk c)" "calm p c"
    "c = upd_proc p (\<lambda>x. x\<lparr>p_chan := None\<rparr>) (u\<lparr>csr := csr c, cpus := cpus c, locks := locks c\<rparr>)"
    by (rule sleep_resumes [OF assms(1)])
  have f: "vd c = vd u" "bufs c = bufs u" by (subst c(3), simp add: upd_proc_def)+
  let ?v = "woken C_vdisk_free p (upd_vd (\<lambda>d. give_desc (vq_stat r) (give_desc (vq_data r) (give_desc (vq_head r)
      (d\<lparr>v_info_b := (v_info_b d)(vq_head r := None)\<rparr>)))) (acq L_vdisk c))"
  have "distinct (descs r)" using assms(2,3) by (auto simp: vd_inv_def distinct_concat_iff)
  then have free: "free_chain (int (vq_head r)) (upd_vd (\<lambda>d. d\<lparr>v_info_b := (v_info_b d)(vq_head r := None)\<rparr>) (acq L_vdisk c)) = Ret () ?v"
    using assms(2,3) vd_inv_descs [OF assms(2,3)] f
    by (intro free_chain_frees [OF c(2) refl]) (auto simp: vd_inv_def)
  have "mach ?v = mach (acq L_vdisk c)" by simp
  note rel = calm_release [OF c(2) this]
  let ?w = "?v\<lparr>csr := csr c, cpus := cpus c, locks := locks c\<rparr>"
  have "virtio_disk_rw_resume p saved (vq_buf r) (vq_head r) u = Ret () ?w"
    using assms(4) f by (simp add: virtio_disk_rw_resume_def c(1) rw_wait_def free rel)
  moreover have "calm p ?w"
    using c(2) by (rule calm_cong [THEN iffD2, rotated]) (simp add: mach_def woken_def map_procs_def upd_vd_def)
  moreover have "vd_inv (vd ?w) (remove1 r Q)" using freed_inv [OF assms(2,3)] f by simp
  ultimately show ?thesis by blast
qed

text \<open>
  C29: When the device has completed the requests \<open>rs\<close> (their heads are the new entries of the used
  ring, their status bytes are 0), the interrupt handler clears the busy flag of exactly their
  buffers, makes runnable exactly the processes asleep on them, catches up with the device and
  keeps every chain.  A process resumed with its request complete gives the three descriptors
  of its chain back, keeps the chains of the others and returns with no spin lock held.
\<close>

theorem virtio_disk_completes:
  fixes s u :: "'z vstate_scheme"
  assumes "noff (mycpu s) = 0" "\<forall>l. lock_free l s" "vd_inv (vd s) R" "set rs \<subseteq> set R"
    "\<forall>m < length rs. unat (v_used_ring (vd s) (unat (v_used_idx (vd s) + of_nat m) mod VNUM)) = vq_head (rs ! m)"
    "unat (v_dev_used_idx (vd s) - v_used_idx (vd s)) = length rs" "\<forall>r \<in> set rs. v_info_status (vd s) (vq_head r) = 0"
    and "switched_to p u" "vd_inv (vd u) Q" "r \<in> set Q" "\<not> b_disk (bufs u (vq_buf r))"
  shows "(\<exists>t. virtio_disk_intr s = Ret () t \<and> vd_inv (vd t) R \<and> v_used_idx (vd t) = v_dev_used_idx (vd t) \<and>
      (\<forall>b. b_disk (bufs t b) \<longleftrightarrow> b_disk (bufs s b) \<and> b \<notin> vq_buf ` set rs) \<and>
      procs t = io_done (cpu_proc (mycpu s)) (vq_buf ` set rs) (procs s) \<and> (\<forall>l. lock_free l t)) \<and>
    (\<exists>v. virtio_disk_rw_resume p saved (vq_buf r) (vq_head r) u = Ret () v \<and> vd_inv (vd v) (remove1 r Q) \<and> calm p v)"
  using virtio_intr_wakes [OF assms(1-7)] virtio_resume_frees [OF assms(8-11)] by blast

section \<open>A disk at work\<close>

definition vdisk_idle :: vdisk where
  "vdisk_idle = \<lparr>v_desc = (\<lambda>_. zero_desc), v_pages = (0, 0, 0), v_avail_idx = 0, v_avail_ring = (\<lambda>_. 0), v_dev_used_idx = 0,
     v_used_ring = (\<lambda>_. 0), v_free = (\<lambda>i. i < VNUM), v_used_idx = 0, v_info_b = (\<lambda>_. None), v_info_status = (\<lambda>_. 0),
     v_ops = (\<lambda>_. \<lparr>rq_type = 0, rq_reserved = 0, rq_sector = 0\<rparr>), v_regs = (\<lambda>_. 0), v_mmio = []\<rparr>"

definition virtio_boot :: vstate where
  "virtio_boot = file_boot (\<lambda>_ _. 0) \<lparr>vd = vdisk_idle, plic_claimed = (\<lambda>_. 0), plic_writes = [], forkret_first = False\<rparr>"

lemma virtio_boot_simps: "vd virtio_boot = vdisk_idle" "bufs virtio_boot = boot_bufs" "calm 0 virtio_boot"
  unfolding virtio_boot_def by (simp_all add: file_boot_calm)
    (simp_all add: file_boot_def log_boot_def bio_boot_def kstate.defs kboot_def kproc.defs boot_def)

lemma vdisk_idle_inv: "vd_inv vdisk_idle []" "free_descs vdisk_idle = [0, 1, 2, 3, 4, 5, 6, 7]"
  by (auto simp: vd_inv_def vdisk_idle_def free_descs_def VNUM_def upt_rec)

definition virtio_busy :: vstate where
  "virtio_busy = upd_vd (\<lambda>d. d\<lparr>v_dev_used_idx := 1, v_info_status := (\<lambda>_. 0)\<rparr>)
     (submit 3 True 0 1 2 (upd_vd (\<lambda>d. take_desc 2 (take_desc 1 (take_desc 0 d))) virtio_boot))"

definition busy_request :: request where
  "busy_request = \<lparr>vq_head = 0, vq_data = 1, vq_stat = 2, vq_buf = 3, vq_write = True, vq_sector = 0\<rparr>"

lemma virtio_busy_inv: "vd_inv (vd virtio_busy) [busy_request]"
proof -
  have "vd_inv (vd (submit 3 True 0 1 2 (upd_vd (\<lambda>d. take_desc 2 (take_desc 1 (take_desc 0 d))) virtio_boot))) [busy_request]"
    using submit_inv [of virtio_boot "[]" 0 1 2 "[3, 4, 5, 6, 7]" 3 True] vdisk_idle_inv
    by (simp add: virtio_boot_simps busy_request_def boot_bufs_def)
  then show ?thesis by (auto simp: virtio_busy_def vd_inv_def intro: vchain_cong)
qed

lemma virtio_busy_calm: "calm 0 virtio_busy"
  by (rule calm_cong [THEN iffD2, OF _ virtio_boot_simps(3)]) (simp add: virtio_busy_def)

lemma switched_to_acq: "calm p s \<Longrightarrow> switched_to p (acq (L_proc p) s)"
  using calmD [of p s] by (simp add: switched_to_def)

theorem virtio_disk_rw_submits_witness:
  "calm 0 virtio_boot \<and> vd_inv (vd virtio_boot) [] \<and>
   (\<exists>u. virtio_disk_rw 3 True virtio_boot = Switch u \<and> v_avail_idx (vd u) = 1 \<and> p_chan (procs u 0) = Some (C_bufdone 3))"
proof -
  have i: "vd_inv (vd virtio_boot) []" by (simp add: virtio_boot_simps vdisk_idle_inv)
  show ?thesis using virtio_disk_rw_submits [OF virtio_boot_simps(3) i, of 3 True] i
    by (auto simp: virtio_boot_simps vdisk_idle_inv) (auto simp: vdisk_idle_def)
qed

theorem virtio_disk_completes_witness:
  "vd_inv (vd virtio_busy) [busy_request] \<and> (\<exists>t. virtio_disk_intr virtio_busy = Ret () t \<and> v_used_idx (vd t) = v_dev_used_idx (vd t)) \<and>
   (\<exists>v. virtio_disk_rw_resume 0 True 3 0 (upd_buf 3 (\<lambda>x. x\<lparr>b_disk := False\<rparr>) (acq (L_proc 0) virtio_busy)) = Ret () v \<and>
     vd_inv (vd v) [] \<and> calm 0 v)"
proof -
  let ?u = "upd_buf 3 (\<lambda>x. x\<lparr>b_disk := False\<rparr>) (acq (L_proc 0) virtio_busy)"
  note c = calmD [OF virtio_busy_calm]
  have u: "switched_to 0 ?u" "vd_inv (vd ?u) [busy_request]" "\<not> b_disk (bufs ?u 3)"
    using switched_to_acq [OF virtio_busy_calm] virtio_busy_inv
    by (simp_all add: switched_to_def upd_buf_def machine_defs lock_free_def)
  have d: "v_used_ring (vd virtio_busy) = (\<lambda>_. 0)" "v_used_idx (vd virtio_busy) = 0" "v_dev_used_idx (vd virtio_busy) = 1"
    "v_info_status (vd virtio_busy) = (\<lambda>_. 0)"
    by (simp_all add: virtio_busy_def submit_def Let_def vput_def virtio_boot_simps take_desc_def vdisk_idle_def)
  show ?thesis
    using virtio_disk_completes [of virtio_busy "[busy_request]" "[busy_request]" 0 ?u "[busy_request]" busy_request True]
      u c(2,5) d virtio_busy_inv by (auto simp: busy_request_def)
qed

end
