(* ===== verification/Procspec.thy ===== *)
theory Procspec
  imports Procs
begin

text \<open>
  The life cycle of a process slot and of the memory that hangs from it: \<^verbatim>\<open>proc_pagetable\<close>,
  \<^verbatim>\<open>allocproc\<close>, \<^verbatim>\<open>freeproc\<close> and \<^verbatim>\<open>wait\<close> either complete or give back every page they
  took.
\<close>

section \<open>New page tables\<close>

text \<open>An operation that may take pages from the pool for the tree of \<open>pt\<close> and changes no other page.\<close>

lemma uvmcreate_ok:
  assumes "kpool s A"
  obtains (fail) t where "uvmcreate s = Ret 0 t" "kpool t A" "kend t = kend s" "mem t = mem s"
  | (ok) pt t where "uvmcreate s = Ret pt t" "pt \<noteq> 0" "pt \<in> A" "pt_ready t pt (A - {pt})" "kend t = kend s"
      "ptree 2 (mem t) pt = {pt}" "\<And>va. vmap (mem t) pt va = 0"
      "\<And>q. page_ok (kend s) q \<Longrightarrow> q \<noteq> pt \<Longrightarrow> same_page_bytes (mem s) (mem t) q"
  using assms
proof (cases rule: kmem.alloc_cases)
  case (none t)
  have "kend t = kend s" using kalloc_kend kpool_ready [OF assms] none(1) by blast
  then show thesis using fail [of t] none by (simp add: uvmcreate_def)
next
  case (some pt t)
  have e: "kend t = kend s" using kalloc_kend kpool_ready [OF assms] some(1) by blast
  have pg: "page_ok (kend s) pt" using some(6) by (simp add: kvalid_def)
  let ?m = "memset pt 0 4096 (mem t)" and ?t = "t\<lparr>mem := memset pt 0 4096 (mem t)\<rparr>"
  have same: "same_page_bytes (mem t) ?m q" "same_page_bytes (mem s) (mem t) q" if "page_ok (kend s) q" "q \<noteq> pt" for q
  proof -
    have "disjoint_ranges q 4096 pt 4096" using pages_disjoint [OF that(1) pg that(2)] by simp
    then show "same_page_bytes (mem t) ?m q" "same_page_bytes (mem s) (mem t) q"
      using some(5) by (auto simp: same_page_bytes_def disjoint_ranges_def memset_eq)
  qed
  have "kpool ?t (A - {pt})"
  proof (rule kpool_mem [OF some(4)])
    fix q assume "q \<in> A - {pt}"
    then show "same_page_bytes (mem t) ?m q" using same(1) kmem.pool_valid [OF some(4)] e by (auto simp: kvalid_def)
  qed
  moreover have z: "?m x = 0" if "in_range x pt 4096" for x using that by (simp add: memset_eq)
  have zt: "ptree 2 ?m pt = {pt}" "wf_pt 2 (kend s) ?m pt" "\<And>i. i < 512 \<Longrightarrow> entry ?m pt i = 0"
    using zero_table [OF pg, of ?m] z by blast+
  have "vmap ?m pt va = 0" for va
  proof -
    have "entry ?m pt (unat (PX 2 va)) = 0" using zt(3) PX_bound by blast
    then show ?thesis using flags_V(4) by (simp add: vmap_def numeral_2_eq_2 Let_def)
  qed
  moreover have "same_page_bytes (mem s) ?m q" if "page_ok (kend s) q" "q \<noteq> pt" for q
    using same [OF that] by (simp add: same_page_bytes_def)
  ultimately show thesis using ok [of pt ?t] some zt(1,2) e by (simp add: uvmcreate_def pt_ready_def)
qed

lemma mapped_1: "mapped f a pa perm (Suc 0) va = (if same_vpage 2 va a then PA2PTE pa OR perm OR PTE_V else f va)"
  by (simp add: mapped_Suc)

text \<open>Mapping a single page.\<close>

lemma map_page:
  assumes "pt_ready s pt A" "va mod PGSIZE = 0" "unat va + 4096 \<le> unat MAXVA" "\<not> valid (vmap (mem s) pt va)"
  obtains (fail) t where "mappages pt va PGSIZE pa perm s = Ret (-1) t" "pt_step pt s A t {}"
      "\<And>x. vmap (mem t) pt x = vmap (mem s) pt x"
  | (ok) t A' where "mappages pt va PGSIZE pa perm s = Ret 0 t" "pt_step pt s A t A'"
      "\<And>x. vmap (mem t) pt x = (if same_vpage 2 x va then PA2PTE pa OR perm OR PTE_V else vmap (mem s) pt x)"
proof -
  have nv: "\<not> valid (vmap (mem s) pt (nth_page va k))" if "k \<le> 0" for k using assms(4) that by simp
  have "unat va + 4096 * Suc 0 \<le> unat MAXVA" using assms(3) by simp
  then obtain r t A' k where r: "mappages pt va (of_nat (Suc 0) * PGSIZE) pa perm s = Ret r t" "pt_step pt s A t A'"
    "\<And>x. vmap (mem t) pt x = mapped (vmap (mem s) pt) va pa perm k x"
    "r = 0 \<and> k = Suc 0 \<or> r = -1 \<and> k \<le> 0 \<and> A' = {}"
    using mappages_ok [OF assms(1,2) _ nv, where pa = pa and perm = perm] by blast
  then show thesis using fail [of t] ok [of t A'] mapped_1 by auto
qed

lemma page_addrs:
  "TRAMPOLINE mod PGSIZE = 0" "TRAPFRAME mod PGSIZE = 0" "unat TRAMPOLINE + 4096 \<le> unat MAXVA" "unat TRAPFRAME + 4096 \<le> unat MAXVA"
  "TRAMPOLINE < MAXVA" "TRAPFRAME < MAXVA" "\<not> same_vpage 2 TRAPFRAME TRAMPOLINE" "\<not> same_vpage 2 TRAMPOLINE TRAPFRAME"
proof -
  show 1: "TRAMPOLINE < MAXVA" "TRAPFRAME < MAXVA" by (simp_all add: TRAMPOLINE_def TRAPFRAME_def MAXVA_def PGSIZE_def)
  have "PGROUNDDOWN TRAPFRAME \<noteq> PGROUNDDOWN TRAMPOLINE"
    by (simp add: TRAMPOLINE_def TRAPFRAME_def MAXVA_def PGSIZE_def PGROUNDDOWN_def)
  then show "\<not> same_vpage 2 TRAPFRAME TRAMPOLINE" "\<not> same_vpage 2 TRAMPOLINE TRAPFRAME"
    using same_vpage_iff [OF 1(2,1)] same_vpage_iff [OF 1] by auto
qed (simp_all add: TRAMPOLINE_def TRAPFRAME_def MAXVA_def PGSIZE_def)

text \<open>Freeing a table without leaf entries gives every page of it back.\<close>

lemma free_empty:
  assumes "pt_ready s pt A" "\<And>va. \<not> valid (vmap (mem s) pt va)"
  obtains t where "uvmfree pt 0 s = Ret () t" "kpool t (A \<union> ptree 2 (mem s) pt)" "kend t = kend s"
    "\<And>q. page_ok (kend s) q \<Longrightarrow> q \<notin> ptree 2 (mem s) pt \<Longrightarrow> same_page_bytes (mem s) (mem t) q"
proof -
  have three: "(3 :: nat) = Suc 2" by simp
  have "empty_pt 2 (mem s) pt"
  proof (rule empty_ptI)
    fix va a assume "lookup 2 (mem s) pt va = Some a"
    then show "\<not> valid (load64 (mem s) a)" using assms(2) [of va] by (simp add: vmap_def)
  qed simp
  then obtain t where "freewalk 3 pt s = Ret () t" "kpool t (A \<union> ptree 2 (mem s) pt)" "kend t = kend s"
    "\<forall>q. page_ok (kend s) q \<longrightarrow> q \<notin> ptree 2 (mem s) pt \<longrightarrow> same_page_bytes (mem s) (mem t) q"
    using freewalk_ok [of s A 2 pt] assms(1) unfolding pt_ready_def three by blast
  then show thesis using that [of t] by (simp add: uvmfree_def)
qed

text \<open>The fields that memory operations leave alone.\<close>

lemma kframe_fields:
  assumes "kframe s t" "cpu_ok s" "lock_free L_kmem s"
  shows "procs t = procs s" "locks t = locks s" "hart t = hart s" "csr t = csr s" "nextpid t = nextpid s"
    "ticks t = ticks s" "initproc t = initproc s" "kend t = kend s" "cpu_ok t" "lock_free l t = lock_free l s"
    "noff (mycpu t) = noff (mycpu s)" "cpu_proc (mycpu t) = cpu_proc (mycpu s)" "proc_locks_free t = proc_locks_free s"
proof -
  have eq: "no_mem t = no_mem s" and ok: "cpu_ok t" using assms by (simp_all add: kframe_def)
  have f: "procs (no_mem u) = procs u" "locks (no_mem u) = locks u" "hart (no_mem u) = hart u" "csr (no_mem u) = csr u"
    "nextpid (no_mem u) = nextpid u" "ticks (no_mem u) = ticks u" "initproc (no_mem u) = initproc u" "kend (no_mem u) = kend u"
    "noff (mycpu (no_mem u)) = noff (mycpu u)" "cpu_proc (mycpu (no_mem u)) = cpu_proc (mycpu u)" for u :: "'a kstate_scheme"
    by (simp_all add: no_mem_def mycpu_def cpuid_def) (simp_all add: touch_def)
  show "procs t = procs s" "locks t = locks s" "hart t = hart s" "csr t = csr s" "nextpid t = nextpid s"
    "ticks t = ticks s" "initproc t = initproc s" "kend t = kend s"
    "noff (mycpu t) = noff (mycpu s)" "cpu_proc (mycpu t) = cpu_proc (mycpu s)"
    using f [of s] f [of t] eq by simp_all
  then show "lock_free l t = lock_free l s" "proc_locks_free t = proc_locks_free s"
    by (simp_all add: lock_free_def proc_locks_free_def)
qed (use assms in \<open>simp add: kframe_def\<close>)

lemma kframe_of: "if_returns m (\<lambda>_ t. kframe s t) \<Longrightarrow> m = Ret r t \<Longrightarrow> kframe s t"
  by simp

lemma leaf_perm: "leaf (PA2PTE pa OR (PTE_R OR x) OR PTE_V)"
proof -
  let ?e = "PA2PTE pa OR (PTE_R OR x) OR PTE_V"
  have "bit (PTE_FLAGS ?e) 1" "\<not> bit PTE_V 1" by (simp_all add: PTE_FLAGS_def PTE_R_def PTE_V_def bit_simps)
  then show ?thesis using flags_V(3) by (auto simp: leaf_def or.assoc [symmetric])
qed

text \<open>The leaf entries of the address space of a fresh process.\<close>

definition fresh_map :: "link \<Rightarrow> uint64 \<Rightarrow> uint64 \<Rightarrow> uint64" where
  "fresh_map lk tf va =
     (if same_vpage 2 va TRAPFRAME then PA2PTE tf OR (PTE_R OR PTE_W) OR PTE_V
      else if same_vpage 2 va TRAMPOLINE then PA2PTE (sym_trampoline lk) OR (PTE_R OR PTE_X) OR PTE_V else 0)"

lemma unmap_page:
  assumes "pt_ready s pt A" "va mod PGSIZE = 0" "unat va + 4096 \<le> unat MAXVA" "leaf (vmap (mem s) pt va)"
  obtains t where "uvmunmap pt va 1 False s = Ret () t" "pt_ready t pt A" "kend t = kend s"
    "ptree 2 (mem t) pt = ptree 2 (mem s) pt"
    "\<And>x. vmap (mem t) pt x = (if same_vpage 2 x va then 0 else vmap (mem s) pt x)"
    "\<And>q. page_ok (kend s) q \<Longrightarrow> q \<notin> ptree 2 (mem s) pt \<Longrightarrow> same_page_bytes (mem s) (mem t) q"
proof -
  have "unmappable s pt A va 1 False" using assms(4) by (simp add: unmappable_def)
  then obtain t where t: "uvmunmap_loop pt va (nth_page va 1) False s = Ret () t" "unmapped s pt A va 1 False t"
    using uvmunmap_loop_ok [OF assms(1,2), of 1 False] assms(3) by auto
  have "uvmunmap pt va 1 False s = Ret () t" using t(1) assms(2) by (simp add: uvmunmap_def nth_page_def)
  then show thesis using that [of t] t(2) by (simp add: unmapped_def freed_def)
qed

lemma pt_stepD:
  assumes "pt_step pt s A t A'"
  shows "pt_ready t pt A'" "kend t = kend s" "A' \<subseteq> A" "ptree 2 (mem t) pt = ptree 2 (mem s) pt \<union> (A - A')"
    "\<And>q. page_ok (kend s) q \<Longrightarrow> q \<notin> ptree 2 (mem t) pt \<Longrightarrow> same_page_bytes (mem s) (mem t) q"
  using assms by (simp_all add: pt_step_def)

lemma same_page_trans: "same_page_bytes m m' p \<Longrightarrow> same_page_bytes m' m'' p \<Longrightarrow> same_page_bytes m m'' p"
  by (simp add: same_page_bytes_def)

lemma proc_pagetable_ok:
  assumes "kpool s A"
  obtains (fail) t where "proc_pagetable lk p s = Ret 0 t" "kpool t A" "kend t = kend s"
      "\<And>q. page_ok (kend s) q \<Longrightarrow> q \<notin> A \<Longrightarrow> same_page_bytes (mem s) (mem t) q"
  | (ok) pt t A' where "proc_pagetable lk p s = Ret pt t" "pt \<noteq> 0" "pt_ready t pt A'" "kend t = kend s" "A' \<subseteq> A"
      "ptree 2 (mem t) pt = A - A'" "\<And>va. vmap (mem t) pt va = fresh_map lk (p_trapframe (procs s p)) va"
      "\<And>q. page_ok (kend s) q \<Longrightarrow> q \<notin> A \<Longrightarrow> same_page_bytes (mem s) (mem t) q"
  using assms
proof (cases rule: uvmcreate_ok)
  case u: (fail t)
  then show thesis using fail [of t] by (simp add: proc_pagetable_def same_page_bytes_def)
next
  case u: (ok pt t1)
  have fr1: "kframe s t1" using kframe_uvmcreate [of s] u(1) by simp
  have rdy: "cpu_ok s" "lock_free L_kmem s" using kpool_ready [OF assms] by auto
  have nv1: "\<not> valid (vmap (mem t1) pt TRAMPOLINE)" using u(7) flags_V(4) by simp
  show thesis
    using u(4) page_addrs(1,3) nv1
  proof (cases rule: map_page [where pa = "sym_trampoline lk" and perm = "PTE_R OR PTE_X"])
    case m: (fail t2)
    note st = pt_stepD [OF m(2)]
    have tr: "ptree 2 (mem t2) pt = A" using st(4) u(3,6) by auto
    have e2: "\<And>va. \<not> valid (vmap (mem t2) pt va)" using m(3) u(7) flags_V(4) by simp
    obtain t3 where t3: "uvmfree pt 0 t2 = Ret () t3" "kpool t3 ({} \<union> ptree 2 (mem t2) pt)" "kend t3 = kend t2"
      "\<And>q. page_ok (kend t2) q \<Longrightarrow> q \<notin> ptree 2 (mem t2) pt \<Longrightarrow> same_page_bytes (mem t2) (mem t3) q"
      using free_empty [OF st(1) e2] by blast
    have "proc_pagetable lk p s = Ret 0 t3" using u(1,2) m(1) t3(1) by (simp add: proc_pagetable_def)
    moreover have "same_page_bytes (mem s) (mem t3) q" if "page_ok (kend s) q" "q \<notin> A" for q
    proof -
      have ne: "q \<noteq> pt" using that u(3) by auto
      have k: "kend t2 = kend s" "kend t1 = kend s" using st u(5) by simp_all
      show ?thesis using u(8) [OF that(1) ne] st(5) [of q] t3(4) [of q] that
        unfolding k tr by (blast intro: same_page_trans)
    qed
    ultimately show thesis using fail [of t3] t3(2,3) st(2) u(5) tr by simp
  next
    case m: (ok t2 A2)
    note st = pt_stepD [OF m(2)]
    have fr2: "kframe t1 t2" using kframe_of [OF kframe_mappages m(1)] .
    have tf: "p_trapframe (procs t2 p) = p_trapframe (procs s p)"
      using kframe_fields(1) [OF kframe_trans [OF fr1 fr2] rdy] by simp
    let ?tf = "p_trapframe (procs s p)"
    have nv2: "\<not> valid (vmap (mem t2) pt TRAPFRAME)" using m(3) u(7) flags_V(4) page_addrs(7) by simp
    show thesis
      using st(1) page_addrs(2,4) nv2
    proof (cases rule: map_page [where pa = ?tf and perm = "PTE_R OR PTE_W"])
      case n: (fail t3)
      note st' = pt_stepD [OF n(2)]
      have "leaf (vmap (mem t3) pt TRAMPOLINE)" using n(3) m(3) leaf_perm by (simp add: same_vpage_def)
      then obtain t4 where t4: "uvmunmap pt TRAMPOLINE 1 False t3 = Ret () t4" "pt_ready t4 pt {}" "kend t4 = kend t3"
        "ptree 2 (mem t4) pt = ptree 2 (mem t3) pt"
        "\<And>x. vmap (mem t4) pt x = (if same_vpage 2 x TRAMPOLINE then 0 else vmap (mem t3) pt x)"
        "\<And>q. page_ok (kend t3) q \<Longrightarrow> q \<notin> ptree 2 (mem t3) pt \<Longrightarrow> same_page_bytes (mem t3) (mem t4) q"
        using unmap_page [OF st'(1) page_addrs(1,3)] by blast
      have e4: "\<And>va. \<not> valid (vmap (mem t4) pt va)" using t4(5) n(3) m(3) u(7) flags_V(4) by simp
      obtain t5 where t5: "uvmfree pt 0 t4 = Ret () t5" "kpool t5 ({} \<union> ptree 2 (mem t4) pt)" "kend t5 = kend t4"
        "\<And>q. page_ok (kend t4) q \<Longrightarrow> q \<notin> ptree 2 (mem t4) pt \<Longrightarrow> same_page_bytes (mem t4) (mem t5) q"
        using free_empty [OF t4(2) e4] by blast
      have tr: "ptree 2 (mem t3) pt = A" "ptree 2 (mem t2) pt \<subseteq> A" using st(3,4) st'(4) u(3,6) by auto
      have "proc_pagetable lk p s = Ret 0 t5"
        using u(1,2) m(1) n(1) t4(1) t5(1) tf by (simp add: proc_pagetable_def)
      moreover have "same_page_bytes (mem s) (mem t5) q" if "page_ok (kend s) q" "q \<notin> A" for q
      proof -
        have ne: "q \<noteq> pt" using that u(3) by auto
        have k: "kend t4 = kend s" "kend t3 = kend s" "kend t2 = kend s" "kend t1 = kend s" using t4(3) st(2) st'(2) u(5) by simp_all
        have "q \<notin> ptree 2 (mem t2) pt" "q \<notin> ptree 2 (mem t3) pt" "q \<notin> ptree 2 (mem t4) pt" using that tr t4(4) by auto
        then have "same_page_bytes (mem t1) (mem t2) q" "same_page_bytes (mem t2) (mem t3) q"
          "same_page_bytes (mem t3) (mem t4) q" "same_page_bytes (mem t4) (mem t5) q"
          using st(5) st'(5) t4(6) t5(4) that(1) k by simp_all
        with u(8) [OF that(1) ne] show ?thesis by (simp add: same_page_bytes_def)
      qed
      ultimately show thesis using fail [of t5] t5 t4(3,4) st(2) st'(2) u(5) tr by simp
    next
      case n: (ok t3 A3)
      note st' = pt_stepD [OF n(2)]
      have "proc_pagetable lk p s = Ret pt t3" using u(1,2) m(1) n(1) tf by (simp add: proc_pagetable_def)
      moreover have "ptree 2 (mem t3) pt = A - A3" using st(3,4) st'(1,3,4) u(3,6) by (auto simp: pt_ready_def)
      moreover have "vmap (mem t3) pt va = fresh_map lk ?tf va" for va using n(3) m(3) u(7) by (simp add: fresh_map_def)
      moreover have "same_page_bytes (mem s) (mem t3) q" if "page_ok (kend s) q" "q \<notin> A" for q
      proof -
        have ne: "q \<noteq> pt" using that u(3) by auto
        have k: "kend t2 = kend s" "kend t1 = kend s" using st(2) u(5) by simp_all
        have "q \<notin> ptree 2 (mem t3) pt" "q \<notin> ptree 2 (mem t2) pt" using that st(3,4) st'(4) u(3,6) by auto
        then have "same_page_bytes (mem t1) (mem t2) q" "same_page_bytes (mem t2) (mem t3) q"
          using st(5) st'(5) that(1) k by simp_all
        with u(8) [OF that(1) ne] show ?thesis by (simp add: same_page_bytes_def)
      qed
      moreover have "A3 \<subseteq> A" "kend t3 = kend s" using st(2,3) st'(2,3) u(5) by auto
      ultimately show thesis using ok [of pt t3 A3] u(2) st'(1) by simp
    qed
  qed
qed

section \<open>Freeing a process\<close>

text \<open>
  The memory of a process slot \<open>x\<close> with \<open>n\<close> user pages: a trap frame page, a page table with the
  trampoline and trap frame mapped, and the user pages from address 0.
\<close>

definition space_ok :: "'z kstate_scheme \<Rightarrow> uint64 set \<Rightarrow> proc \<Rightarrow> nat \<Rightarrow> bool" where
  "space_ok s A x n \<longleftrightarrow> (let pt = p_pagetable x; tf = p_trapframe x; F = frame (mem s) pt 0 ` {..<n} in
     pt \<noteq> 0 \<and> tf \<noteq> 0 \<and> page_ok (kend s) tf \<and> tf \<notin> A \<and> tf \<notin> ptree 2 (mem s) pt \<and> tf \<notin> F \<and>
     pt_ready s pt A \<and> leaf (vmap (mem s) pt TRAMPOLINE) \<and> leaf (vmap (mem s) pt TRAPFRAME) \<and>
     unmappable s pt A 0 n True \<and> (p_sz x = 0 \<longrightarrow> n = 0) \<and> PGROUNDUP (p_sz x) = of_nat n * PGSIZE \<and>
     4096 * n \<le> unat TRAPFRAME \<and>
     (\<forall>va. valid (vmap (mem s) pt va) \<longrightarrow> same_vpage 2 va TRAMPOLINE \<or> same_vpage 2 va TRAPFRAME \<or>
        (\<exists>k<n. same_vpage 2 va (nth_page 0 k))))"

definition space_pages :: "'z kstate_scheme \<Rightarrow> proc \<Rightarrow> nat \<Rightarrow> uint64 set" where
  "space_pages s x n =
     insert (p_trapframe x) (ptree 2 (mem s) (p_pagetable x) \<union> frame (mem s) (p_pagetable x) 0 ` {..<n})"

lemma user_page_facts:
  assumes "4096 * n \<le> unat TRAPFRAME" "k < n"
  shows "\<not> same_vpage 2 (nth_page 0 k) TRAMPOLINE" "\<not> same_vpage 2 (nth_page 0 k) TRAPFRAME"
proof -
  have t: "unat TRAPFRAME = 274877898752" "unat TRAMPOLINE = 274877902848" "unat MAXVA = 274877906944"
    by (simp_all add: TRAMPOLINE_def TRAPFRAME_def MAXVA_def PGSIZE_def)
  have "unat (0 :: uint64) + 4096 * n \<le> unat MAXVA" using assms(1) t by simp
  note p = nth_page_facts [OF mod_0 this assms(2)]
  have u: "unat (nth_page 0 k) < unat TRAPFRAME" using p(1) assms by simp
  have r: "PGROUNDDOWN TRAMPOLINE = TRAMPOLINE" "PGROUNDDOWN TRAPFRAME = TRAPFRAME"
    by (rule PGROUNDDOWN_page, rule page_addrs)+
  have "nth_page 0 k \<noteq> TRAMPOLINE" "nth_page 0 k \<noteq> TRAPFRAME" using u t by auto
  then show "\<not> same_vpage 2 (nth_page 0 k) TRAMPOLINE" "\<not> same_vpage 2 (nth_page 0 k) TRAPFRAME"
    unfolding same_vpage_iff [OF p(2) page_addrs(5)] same_vpage_iff [OF p(2) page_addrs(6)] p(3) r .
qed

lemma proc_freepagetable_ok:
  assumes rdy: "pt_ready s pt A" and lf: "leaf (vmap (mem s) pt TRAMPOLINE)" "leaf (vmap (mem s) pt TRAPFRAME)"
    and un: "unmappable s pt A 0 n True" and sz: "sz = 0 \<longrightarrow> n = 0" "PGROUNDUP sz = of_nat n * PGSIZE" "4096 * n \<le> unat TRAPFRAME"
    and only: "\<And>va. valid (vmap (mem s) pt va) \<Longrightarrow> same_vpage 2 va TRAMPOLINE \<or> same_vpage 2 va TRAPFRAME \<or>
        (\<exists>k<n. same_vpage 2 va (nth_page 0 k))"
  obtains t where "proc_freepagetable pt sz s = Ret () t" "kframe s t"
    "kpool t (A \<union> ptree 2 (mem s) pt \<union> frame (mem s) pt 0 ` {..<n})"
proof -
  obtain t1 where t1: "uvmunmap pt TRAMPOLINE 1 False s = Ret () t1" "pt_ready t1 pt A" "kend t1 = kend s"
    "ptree 2 (mem t1) pt = ptree 2 (mem s) pt"
    "\<And>x. vmap (mem t1) pt x = (if same_vpage 2 x TRAMPOLINE then 0 else vmap (mem s) pt x)"
    by (rule unmap_page [OF rdy page_addrs(1,3) lf(1)]) simp
  have "leaf (vmap (mem t1) pt TRAPFRAME)" using t1(5) lf(2) page_addrs(7) by simp
  then obtain t2 where t2: "uvmunmap pt TRAPFRAME 1 False t1 = Ret () t2" "pt_ready t2 pt A" "kend t2 = kend t1"
    "ptree 2 (mem t2) pt = ptree 2 (mem t1) pt"
    "\<And>x. vmap (mem t2) pt x = (if same_vpage 2 x TRAPFRAME then 0 else vmap (mem t1) pt x)"
    by (rule unmap_page [OF t1(2) page_addrs(2,4)]) simp
  have vm: "vmap (mem t2) pt (nth_page 0 k) = vmap (mem s) pt (nth_page 0 k)" if "k < n" for k
    using user_page_facts [OF sz(3) that] t1(5) t2(5) by simp
  then have fr: "frame (mem t2) pt 0 k = frame (mem s) pt 0 k" if "k < n" for k using that by (simp add: frame_def)
  then have im: "frame (mem t2) pt 0 ` {..<n} = frame (mem s) pt 0 ` {..<n}" by (simp add: image_def)
  have "inj_on (frame (mem t2) pt 0) {..<n}" if "inj_on (frame (mem s) pt 0) {..<n}"
    using that fr by (simp add: inj_on_def)
  then have un2: "unmappable t2 pt A 0 n True"
    using un vm fr t1(3,4) t2(3,4) unfolding unmappable_def by simp
  have only2: "\<exists>k<n. same_vpage 2 va (nth_page 0 k)" if "valid (vmap (mem t2) pt va)" for va
    using that only [of va] t1(5) t2(5) flags_V(4) by (auto split: if_splits)
  have bd: "4096 * n \<le> unat MAXVA" using sz(3) page_addrs(4) by simp
  obtain t where t: "uvmfree pt sz t2 = Ret () t" "kpool t (A \<union> ptree 2 (mem t2) pt \<union> frame (mem t2) pt 0 ` {..<n})"
    using uvmfree_ok [OF t2(2) un2 sz(1,2) bd only2] by blast
  have eq: "proc_freepagetable pt sz s = Ret () t" using t1(1) t2(1) t(1) by (simp add: proc_freepagetable_def)
  have "kframe s t"
    using kframe_trans [OF kframe_of [OF kframe_uvmunmap t1(1)] kframe_trans [OF kframe_of [OF kframe_uvmunmap t2(1)] kframe_of [OF kframe_uvmfree t(1)]]] .
  then show thesis using that [OF eq] t(2) t1(4) t2(4) im by simp
qed

lemma mem_upd_proc [simp]: "mem (upd_proc p f s) = mem s" "kend (upd_proc p f s) = kend s" "freelist (upd_proc p f s) = freelist s"
  by (simp_all add: upd_proc_def)

lemma kpool_upd_proc [simp]: "kpool (upd_proc p f s) A = kpool s A" "pt_ready (upd_proc p f s) pt A = pt_ready s pt A"
  "unmappable (upd_proc p f s) pt A a n df = unmappable s pt A a n df"
  by (simp_all add: kpool_def kmem_inv_def pt_ready_def unmappable_def)

lemma no_mem_upd_proc: "no_mem (upd_proc p f s) = upd_proc p f (no_mem s)"
  by (simp add: no_mem_def touch_upd_proc) (simp add: upd_proc_def)

lemma kframe_upd_proc: "kframe s t \<Longrightarrow> kframe (upd_proc p f s) (upd_proc p f t)"
  by (auto simp: kframe_def no_mem_upd_proc)

text \<open>What \<open>freeproc\<close> leaves in the slot.\<close>

definition cleared :: "policy \<Rightarrow> proc \<Rightarrow> proc" where
  "cleared pol x = x\<lparr>p_trapframe := 0, p_pagetable := 0, p_sz := 0, p_pid := 0, p_parent := None,
     p_name := (p_name x)[0 := 0], p_chan := None, p_status_queue := (if pol = MLFQ then 0 else p_status_queue x),
     p_killed := 0, p_xstate := 0, p_state := UNUSED\<rparr>"

lemma freeproc_ok:
  assumes "space_ok s A (procs s p) n"
  obtains t where "freeproc pol p s = Ret () t" "kframe (upd_proc p (cleared pol) s) t"
    "kpool t (A \<union> space_pages s (procs s p) n)"
proof -
  define x where "x = procs s p"
  let ?pt = "p_pagetable x" and ?tf = "p_trapframe x" and ?m = "mem s"
  let ?F = "frame ?m ?pt 0 ` {..<n}"
  have so: "?pt \<noteq> 0" "?tf \<noteq> 0" "page_ok (kend s) ?tf" "?tf \<notin> A" "?tf \<notin> ptree 2 ?m ?pt" "?tf \<notin> ?F"
    "pt_ready s ?pt A" "leaf (vmap ?m ?pt TRAMPOLINE)" "leaf (vmap ?m ?pt TRAPFRAME)" "unmappable s ?pt A 0 n True"
    "p_sz x = 0 \<longrightarrow> n = 0" "PGROUNDUP (p_sz x) = of_nat n * PGSIZE" "4096 * n \<le> unat TRAPFRAME"
    "\<And>va. valid (vmap ?m ?pt va) \<Longrightarrow> same_vpage 2 va TRAMPOLINE \<or> same_vpage 2 va TRAPFRAME \<or> (\<exists>k<n. same_vpage 2 va (nth_page 0 k))"
    using assms unfolding space_ok_def Let_def x_def by blast+
  have kp: "kpool s A" using so(7) by (simp add: pt_ready_def)
  have rdy: "cpu_ok s" "lock_free L_kmem s" using kpool_ready [OF kp] by auto
  obtain t1 where t1: "kfree ?tf s = Ret () t1" "kpool t1 (insert ?tf A)" "kend t1 = kend s"
    "\<And>q. page_ok (kend s) q \<Longrightarrow> q \<noteq> ?tf \<Longrightarrow> same_page_bytes ?m (mem t1) q"
    using kfree_pages [OF kp so(3,4)] by blast
  have dis: "ptree 2 ?m ?pt \<inter> insert ?tf A = {}" using so(5,7) by (auto simp: pt_ready_def)
  note sc = pt_ready_scribble [OF so(7) t1(2,3) dis t1(4) so(5)]
  have fr1: "kframe s t1" using kframe_of [OF kframe_kfree t1(1)] .
  have pr1: "procs t1 = procs s" using kframe_fields(1) [OF fr1 rdy] .
  have fm: "frame (mem t1) ?pt 0 = frame ?m ?pt 0" unfolding frame_def by (simp add: sc(4))
  have un1: "unmappable t1 ?pt (insert ?tf A) 0 n True"
  proof -
    have "frame ?m ?pt 0 k \<noteq> ?tf" if "k < n" for k using so(6) that by (metis imageI lessThan_iff)
    then show ?thesis using so(10) t1(3) fm sc(2,4) unfolding unmappable_def by auto
  qed
  let ?t1 = "upd_proc p (\<lambda>x. x\<lparr>p_trapframe := 0\<rparr>) t1"
  obtain t2 where t2: "proc_freepagetable ?pt (p_sz x) ?t1 = Ret () t2" "kframe ?t1 t2"
    "kpool t2 (insert ?tf A \<union> ptree 2 (mem ?t1) ?pt \<union> frame (mem ?t1) ?pt 0 ` {..<n})"
    by (rule proc_freepagetable_ok [of ?t1 ?pt "insert ?tf A" n "p_sz x"])
      (use sc(1,4) so un1 in simp_all)
  have pr2: "procs t2 = procs ?t1" using kframe_fields(1) [OF t2(2)] t1(2) by (simp add: kpool_def)
  let ?g = "\<lambda>x. x\<lparr>p_pagetable := 0, p_sz := 0, p_pid := 0, p_parent := None,
       p_name := (p_name x)[0 := 0], p_chan := None,
       p_status_queue := (if pol = MLFQ then 0 else p_status_queue x),
       p_killed := 0, p_xstate := 0, p_state := UNUSED\<rparr>"
  have "freeproc pol p s = Ret () (upd_proc p ?g t2)"
    using so(1,2) t1(1) t2(1) pr1 by (simp add: freeproc_def x_def Let_def cong: if_cong)
  moreover have "upd_proc p ?g (upd_proc p (\<lambda>x. x\<lparr>p_trapframe := 0\<rparr>) s) = upd_proc p (cleared pol) s"
    by (simp add: upd_proc_upd_proc cleared_def [abs_def] cong: if_cong)
  then have "kframe (upd_proc p (cleared pol) s) (upd_proc p ?g t2)"
    using kframe_upd_proc [OF kframe_trans [OF kframe_upd_proc [OF fr1] t2(2)], of p ?g] by simp
  moreover have "insert ?tf A \<union> ptree 2 (mem ?t1) ?pt \<union> frame (mem ?t1) ?pt 0 ` {..<n} = A \<union> space_pages s (procs s p) n"
    using sc(2) fm by (auto simp: space_pages_def x_def)
  ultimately show thesis using that t2(3) by simp
qed

section \<open>Reaping a child\<close>

lemma kframe_cpus:
  assumes "kframe s t" "cpu_ok s" "lock_free L_kmem s" "0 < noff (mycpu s)"
  shows "cpus t = cpus s"
proof -
  have eq: "no_mem t = no_mem s" using assms by (simp add: kframe_def)
  have "touch t = t" "touch s = s"
    using touch_nested [of t] touch_nested [of s] kframe_fields(9,11) [OF assms(1-3)] assms(2,4) by simp_all
  then have "cpus (no_mem t) = cpus t" "cpus (no_mem s) = cpus s" by (simp_all add: no_mem_def)
  then show ?thesis using eq by simp
qed

lemma space_ok_cong:
  assumes "space_ok s A x n" "mem t = mem s" "kend t = kend s" "freelist t = freelist s" "cpu_ok t" "lock_free L_kmem t"
  shows "space_ok t A x n" "space_pages t x n = space_pages s x n"
proof -
  have "pt_ready t pt A" if "pt_ready s pt A" for pt
    using that assms by (auto simp: pt_ready_def kpool_def kmem_inv_def)
  then show "space_ok t A x n" using assms(1-3) unfolding space_ok_def Let_def unmappable_def by auto
  show "space_pages t x n = space_pages s x n" using assms(2) by (simp add: space_pages_def)
qed

text \<open>Children that have not exited are skipped.\<close>

lemma wait_scan_skip:
  assumes "cpu_ok s" "0 < noff (mycpu s)" "noff (mycpu s) < 999999"
    "\<And>q. q \<in> set xs \<Longrightarrow> p_parent (procs s q) = Some p \<Longrightarrow> lock_free (L_proc q) s \<and> p_state (procs s q) \<noteq> ZOMBIE"
  shows "wait_scan pol acc p addr (xs @ ys) hk s =
    wait_scan pol acc p addr ys (hk \<or> (\<exists>q \<in> set xs. p_parent (procs s q) = Some p)) s"
  using assms(4)
proof (induction xs arbitrary: hk)
  case (Cons q xs)
  have IH: "wait_scan pol acc p addr (xs @ ys) hk' s =
    wait_scan pol acc p addr ys (hk' \<or> (\<exists>q \<in> set xs. p_parent (procs s q) = Some p)) s" for hk'
    using Cons by simp
  show ?case
  proof (cases "p_parent (procs s q) = Some p")
    case True
    then have fr: "lock_free (L_proc q) s" "p_state (procs s q) \<noteq> ZOMBIE" using Cons.prems [of q] by simp_all
    then show ?thesis using True IH acquire_eq [OF assms(1) fr(1)] unlock_touch [OF assms(1) fr(1)] touch_nested [OF assms(1,2)]
      by simp
  qed (use IH in simp)
qed simp

lemma acq_kstate [simp]: "kernel_pagetable (acq l s) = kernel_pagetable s"
  by (simp add: acq_def pushed_def)

text \<open>
  The lock bracket of a child inside \<^verbatim>\<open>wait\<close>: whatever happens to memory and to process
  fields in between, releasing both locks restores the machine.
\<close>

lemma release_both:
  assumes ok: "cpu_ok s" "noff (mycpu s) < 999998" "lock_free L_wait s" "lock_free (L_proc c) s"
    and t: "hart t = hart s" "csr t = csr (acq (L_proc c) (acq L_wait s))" "cpus t = cpus (acq (L_proc c) (acq L_wait s))"
      "locks t = locks (acq (L_proc c) (acq L_wait s))"
  shows "bnd (release (L_proc c) t) (\<lambda>_ u. bnd (release L_wait u) (\<lambda>_ u. Ret v u)) =
    Ret v (t\<lparr>csr := csr s, cpus := cpus (touch s), locks := locks s\<rparr>)"
proof -
  let ?s = "acq L_wait s"
  have ok1: "cpu_ok ?s" "lock_free (L_proc c) ?s" using ok by (simp_all add: cpu_ok_acq)
  have r1: "release (L_proc c) t = Ret () (t\<lparr>csr := csr ?s, cpus := cpus (touch ?s), locks := locks ?s\<rparr>)"
    using release_acq [OF ok1, of t] t by simp
  have "touch ?s = ?s" using touch_nested [OF ok1(1)] ok(1) by (simp add: cpu_ok_def)
  then have r2: "release L_wait (t\<lparr>csr := csr ?s, cpus := cpus (touch ?s), locks := locks ?s\<rparr>) =
      Ret () (t\<lparr>csr := csr s, cpus := cpus (touch s), locks := locks s\<rparr>)"
    using release_acq [OF ok(1,3), of "t\<lparr>csr := csr ?s, cpus := cpus (touch ?s), locks := locks ?s\<rparr>"] t(1) by simp
  show ?thesis unfolding r1 by (simp add: r2)
qed

text \<open>
  C9: \<open>wait\<close> reaps.  Let \<open>c\<close> be the first exited child of the calling process \<open>p\<close> in table order.
  Then \<open>wait(0)\<close> returns the child's pid; the child's slot is free again, the child's
  system-call counts have been added to the parent's, no other process has changed, every
  page the child owned (trap frame, page table, user pages) is back in the pool exactly once,
  and all locks and interrupt settings are as before the call.
\<close>

theorem wait_reaps:
  assumes "cpu_ok s" "noff (mycpu s) = 0" "cpu_proc (mycpu s) = Some p" "lock_free L_wait s" "proc_locks_free s"
    "find (\<lambda>q. p_parent (procs s q) = Some p \<and> p_state (procs s q) = ZOMBIE) [0..<NPROC] = Some c" "c \<noteq> p"
    "space_ok s A (procs s c) n"
  shows "\<exists>t. wait pol 0 s = Ret (p_pid (procs s c)) t \<and>
    procs t = (procs s)(p := (procs s p)\<lparr>p_sysCounter := \<lambda>i. if i < 32 then p_sysCounter (procs s p) i + p_sysCounter (procs s c) i
       else p_sysCounter (procs s p) i\<rparr>, c := cleared pol (procs s c)) \<and>
    kpool t (A \<union> space_pages s (procs s c) n) \<and> locks t = locks s \<and> csr t = csr s"
proof -
  have c: "c < NPROC" "p_parent (procs s c) = Some p" "p_state (procs s c) = ZOMBIE"
    "\<And>q. q < c \<Longrightarrow> p_parent (procs s q) = Some p \<Longrightarrow> p_state (procs s q) \<noteq> ZOMBIE"
    using assms(6) unfolding find_upt_Some by auto
  let ?s0 = "touch s" and ?s1 = "acq L_wait (touch s)" and ?s2 = "acq (L_proc c) (acq L_wait (touch s))"
  have fr: "lock_free (L_proc q) s" if "q < NPROC" for q using assms(5) that by (simp add: proc_locks_free_def)
  have kl: "lock_free L_kmem s" using assms(8) by (auto simp: space_ok_def Let_def pt_ready_def kpool_def)
  have ok: "cpu_ok ?s0" "noff (mycpu ?s0) < 999998" "lock_free L_wait ?s0" "lock_free (L_proc c) ?s0"
    using assms(1,2,4) fr [OF c(1)] by simp_all
  have ok1: "cpu_ok ?s1" "0 < noff (mycpu ?s1)" "noff (mycpu ?s1) < 999999" using ok assms(2) by (simp_all add: cpu_ok_acq)
  have ok2: "cpu_ok ?s2" "0 < noff (mycpu ?s2)" using ok1 by (simp_all add: cpu_ok_acq)
  let ?s3 = "wait_account p c ?s2"
  have s3: "procs ?s3 c = procs s c" "mem ?s3 = mem s" "kend ?s3 = kend s" "freelist ?s3 = freelist s" "cpu_ok ?s3" "lock_free L_kmem ?s3"
    using assms(7) ok2(1) kl by (simp_all add: wait_account_def)
  note sp = space_ok_cong [OF assms(8) s3(2-6)]
  obtain t where t: "freeproc pol c ?s3 = Ret () t" "kframe (upd_proc c (cleared pol) ?s3) t"
    "kpool t (A \<union> space_pages ?s3 (procs ?s3 c) n)"
    using freeproc_ok [of ?s3 A c n pol] sp(1) unfolding s3(1) by blast
  have rdy: "cpu_ok (upd_proc c (cleared pol) ?s3)" "lock_free L_kmem (upd_proc c (cleared pol) ?s3)"
    "0 < noff (mycpu (upd_proc c (cleared pol) ?s3))"
    using s3(5,6) ok2(2) by (simp_all add: wait_account_def)
  note kf = kframe_fields [OF t(2) rdy(1,2)] and kc = kframe_cpus [OF t(2) rdy]
  have tf: "hart t = hart ?s0" "csr t = csr ?s2" "cpus t = cpus ?s2" "locks t = locks ?s2"
    using kf kc by (simp_all add: wait_account_def)
  let ?u = "t\<lparr>csr := csr ?s0, cpus := cpus (touch ?s0), locks := locks ?s0\<rparr>"
  note rel = release_both [OF ok tf]
  have split: "[0..<NPROC] = [0..<c] @ c # [Suc c..<NPROC]" using c(1) by (rule upt_split)
  have skip: "wait_scan pol (wait_account p) p 0 [0..<NPROC] False ?s1 =
      wait_scan pol (wait_account p) p 0 (c # [Suc c..<NPROC]) (False \<or> (\<exists>q \<in> set [0..<c]. p_parent (procs ?s1 q) = Some p)) ?s1"
    unfolding split by (rule wait_scan_skip [OF ok1]) (use c fr in auto)
  have aq: "acquire (L_proc c) ?s1 = Ret () ?s2" using acquire_eq [OF ok1(1)] ok(4) by simp
  have "wait_scan pol (wait_account p) p 0 [0..<NPROC] False ?s1 = Ret (Some (c, p_pid (procs s c)), True) ?u"
    unfolding skip using c(2,3) aq t(1) rel [of "(Some (c, p_pid (procs s c)), True)"] s3(1) by (simp add: Let_def)
  then have w: "wait pol 0 s = Ret (p_pid (procs s c)) ?u"
    using assms(1,3) acquire_eq [OF ok(1,3)] by (simp add: wait_def with_myproc_eq wait_loop_def)
  have pr: "procs ?u = (procs s)(p := (procs s p)\<lparr>p_sysCounter := \<lambda>i. if i < 32 then p_sysCounter (procs s p) i + p_sysCounter (procs s c) i
       else p_sysCounter (procs s p) i\<rparr>, c := cleared pol (procs s c))"
    using kf(1) assms(7) by (simp add: wait_account_def fun_upd_twist cong: if_cong)
  have "cpu_ok ?u" "lock_free L_kmem ?u" using ok(1) kl tf(1) assms(1) by (simp_all add: cpu_ok_def lock_free_def machine_defs touch_def)
  then have kp: "kpool ?u (A \<union> space_pages s (procs s c) n)"
    using t(3) sp(2) unfolding s3(1) by (simp add: kpool_def kmem_inv_def)
  show ?thesis using w pr kp by (intro exI [of _ ?u]) simp
qed

text \<open>A zombie without user pages: the page table of a fresh process.\<close>

definition fresh_mem :: mem where
  "fresh_mem =
     store64 (0x80203000 + 8 * of_nat 511) (PA2PTE 0x80007000 OR (PTE_R OR PTE_X) OR PTE_V)
      (store64 (0x80203000 + 8 * of_nat 510) (PA2PTE 0x80204000 OR (PTE_R OR PTE_W) OR PTE_V)
       (store64 (0x80202000 + 8 * of_nat 511) (PA2PTE 0x80203000 OR PTE_V)
         (store64 (0x80201000 + 8 * of_nat 255) (PA2PTE 0x80202000 OR PTE_V) (\<lambda>_. 0))))"

lemma fresh_entries:
  assumes "i < 512"
  shows "entry fresh_mem 0x80201000 i = (if i = 255 then PA2PTE 0x80202000 OR PTE_V else 0)"
    "entry fresh_mem 0x80202000 i = (if i = 511 then PA2PTE 0x80203000 OR PTE_V else 0)"
    "entry fresh_mem 0x80203000 i = (if i = 511 then PA2PTE 0x80007000 OR (PTE_R OR PTE_X) OR PTE_V
       else if i = 510 then PA2PTE 0x80204000 OR (PTE_R OR PTE_W) OR PTE_V else 0)"
proof -
  have st: "entry (store64 (p + 8 * of_nat j) v m) q i = (if p = q \<and> i = j then v else entry m q i)"
    if "j < 512" "p \<in> {0x80201000, 0x80202000, 0x80203000}" "q \<in> {0x80201000, 0x80202000, 0x80203000}" for p q v m j
  proof (cases "p = q")
    case True
    then show ?thesis using entry_store [OF that(1) assms, of p v m] by auto
  next
    case False
    have "page_ok 0x80021d60 p" "page_ok 0x80021d60 q" using that by (auto intro!: one_page_pages)
    then have "same_page_bytes (store64 (p + 8 * of_nat j) v m) m q"
      using False that(1) by (intro same_page_store) auto
    then show ?thesis using entry_cong [OF assms, of "store64 (p + 8 * of_nat j) v m" m q] False by simp
  qed
  have z: "entry (\<lambda>_. 0) q i = 0" for q by (simp add: entry_def load64_zero)
  show "entry fresh_mem 0x80201000 i = (if i = 255 then PA2PTE 0x80202000 OR PTE_V else 0)"
    "entry fresh_mem 0x80202000 i = (if i = 511 then PA2PTE 0x80203000 OR PTE_V else 0)"
    "entry fresh_mem 0x80203000 i = (if i = 511 then PA2PTE 0x80007000 OR (PTE_R OR PTE_X) OR PTE_V
       else if i = 510 then PA2PTE 0x80204000 OR (PTE_R OR PTE_W) OR PTE_V else 0)"
    by (simp_all add: fresh_mem_def st z del: of_nat_numeral)
qed

lemma wf_single_at:
  assumes "page_ok e pt" "i < 512" "\<And>j. j < 512 \<Longrightarrow> j \<noteq> i \<Longrightarrow> \<not> valid (entry m pt j)" "pointer (entry m pt i)"
    "wf_pt l e m (PTE2PA (entry m pt i))" "pt \<notin> ptree l m (PTE2PA (entry m pt i))"
  shows "wf_pt (Suc l) e m pt"
  unfolding wf_pt.simps using assms by (metis (full_types))

lemma ptree_single_at:
  assumes "i < 512" "\<And>j. j < 512 \<Longrightarrow> j \<noteq> i \<Longrightarrow> \<not> valid (entry m pt j)" "valid (entry m pt i)"
  shows "ptree (Suc l) m pt = insert pt (ptree l m (PTE2PA (entry m pt i)))"
proof -
  have "{j. j < 512 \<and> valid (entry m pt j)} = {i}" using assms by auto
  then show ?thesis by simp
qed

lemma fresh_tree:
  "ptree 2 fresh_mem 0x80201000 = {0x80201000, 0x80202000, 0x80203000}"
  "wf_pt 2 0x80021d60 fresh_mem 0x80201000"
  "vmap fresh_mem 0x80201000 va = fresh_map \<lparr>sym_trampoline = 0x80007000, sym_forkret = 0, sym_usertrap = 0,
     sym_uservec = 0, sym_userret = 0, sym_kernelvec = 0\<rparr> 0x80204000 va"
proof -
  have pa: "PTE2PA (PA2PTE 0x80202000 OR PTE_V) = 0x80202000" "PTE2PA (PA2PTE 0x80203000 OR PTE_V) = 0x80203000"
    by (rule PTE2PA_V [of "0x80021d60"], rule one_page_pages, simp)+
  note e = fresh_entries
  have pages: "page_ok 0x80021d60 p" if "p \<in> {0x80201000, 0x80202000, 0x80203000}" for p
    using that one_page_pages by blast
  have o1: "\<not> valid (entry fresh_mem 0x80201000 j)" if "j < 512" "j \<noteq> 255" for j using e(1) that flags_V(4) by simp
  have o2: "\<not> valid (entry fresh_mem 0x80202000 j)" if "j < 512" "j \<noteq> 511" for j using e(2) that flags_V(4) by simp
  have t1: "ptree 1 fresh_mem 0x80202000 = {0x80202000, 0x80203000}" unfolding One_nat_def
    by (subst ptree_single_at [of 511]) (use e(2) [of 511] pa flags_V(2) o2 in simp_all)
  show "ptree 2 fresh_mem 0x80201000 = {0x80201000, 0x80202000, 0x80203000}" unfolding numeral_2_eq_2
    by (subst ptree_single_at [of 255]) (use e(1) [of 255] pa flags_V(2) o1 t1 in simp_all)
  have w1: "wf_pt 1 0x80021d60 fresh_mem 0x80202000" unfolding One_nat_def
    by (rule wf_single_at [of _ _ 511]) (use e(2) [of 511] pa(2) pages pointer_V [of "0x80203000"] o2 in simp_all)
  show "wf_pt 2 0x80021d60 fresh_mem 0x80201000" unfolding numeral_2_eq_2
    by (rule wf_single_at [of _ _ 255]) (use e(1) [of 255] pa(1) pages pointer_V [of "0x80202000"] o1 w1 t1 in simp_all)
  have px: "PX 2 TRAMPOLINE = 255" "PX 1 TRAMPOLINE = 511" "PX 0 TRAMPOLINE = 511"
    "PX 2 TRAPFRAME = 255" "PX 1 TRAPFRAME = 511" "PX 0 TRAPFRAME = 510"
    by (simp_all add: PX_def TRAMPOLINE_def TRAPFRAME_def MAXVA_def PGSIZE_def)
  have all3: "(\<forall>k\<le>2. P k) \<longleftrightarrow> P 0 \<and> P 1 \<and> P (2 :: nat)" for P by (auto simp: numeral_2_eq_2 le_Suc_eq)
  have sv: "same_vpage 2 va TRAMPOLINE \<longleftrightarrow> PX 0 va = 511 \<and> PX 1 va = 511 \<and> PX 2 va = 255"
    "same_vpage 2 va TRAPFRAME \<longleftrightarrow> PX 0 va = 510 \<and> PX 1 va = 511 \<and> PX 2 va = 255"
    unfolding same_vpage_def all3 px by blast+
  have un: "unat w = 255 \<longleftrightarrow> w = 255" "unat w = 511 \<longleftrightarrow> w = 511" "unat w = 510 \<longleftrightarrow> w = 510" for w :: uint64
    by (auto simp: word_unat_eq_iff)
  have e': "entry fresh_mem 0x80201000 (unat (PX 2 va)) = (if PX 2 va = 255 then PA2PTE 0x80202000 OR PTE_V else 0)"
    "entry fresh_mem 0x80202000 (unat (PX 1 va)) = (if PX 1 va = 511 then PA2PTE 0x80203000 OR PTE_V else 0)"
    "entry fresh_mem 0x80203000 (unat (PX 0 va)) = (if PX 0 va = 511 then PA2PTE 0x80007000 OR (PTE_R OR PTE_X) OR PTE_V
       else if PX 0 va = 510 then PA2PTE 0x80204000 OR (PTE_R OR PTE_W) OR PTE_V else 0)"
    using e [OF PX_bound] by (simp_all add: un)
  have lk: "lookup 2 fresh_mem 0x80201000 va = (if PX 2 va = 255 \<and> PX 1 va = 511 then Some (0x80203000 + 8 * PX 0 va) else None)"
    using e'(1,2) flags_V(2,4) pa unfolding numeral_2_eq_2 One_nat_def by (auto simp: Let_def pte_addr_def)
  have "load64 fresh_mem (0x80203000 + 8 * PX 0 va) = entry fresh_mem 0x80203000 (unat (PX 0 va))" by (simp add: entry_def)
  then show "vmap fresh_mem 0x80201000 va = fresh_map \<lparr>sym_trampoline = 0x80007000, sym_forkret = 0, sym_usertrap = 0,
     sym_uservec = 0, sym_userret = 0, sym_kernelvec = 0\<rparr> 0x80204000 va"
    unfolding vmap_def lk fresh_map_def sv using e'(3) by auto
qed

definition zombie_child :: kstate where
  "zombie_child = kboot\<lparr>mem := fresh_mem,
     cpus := (cpus kboot)(0 := (cpus kboot 0)\<lparr>cpu_proc := Some 0\<rparr>),
     procs := (\<lambda>i. if i = 0 then zero_proc\<lparr>p_state := RUNNING, p_pid := 1\<rparr>
       else if i = 1 then zero_proc\<lparr>p_state := ZOMBIE, p_pid := 2, p_parent := Some 0,
         p_pagetable := 0x80201000, p_trapframe := 0x80204000\<rparr>
       else zero_proc)\<rparr>"

lemma zombie_child_simps [simp]:
  "mem zombie_child = fresh_mem" "kend zombie_child = 0x80021d60" "freelist zombie_child = 0"
  "cpu_ok zombie_child" "lock_free l zombie_child" "noff (mycpu zombie_child) = 0" "cpu_proc (mycpu zombie_child) = Some 0"
  "proc_locks_free zombie_child"
  "procs zombie_child 0 = zero_proc\<lparr>p_state := RUNNING, p_pid := 1\<rparr>"
  "procs zombie_child (Suc 0) = zero_proc\<lparr>p_state := ZOMBIE, p_pid := 2, p_parent := Some 0,
         p_pagetable := 0x80201000, p_trapframe := 0x80204000\<rparr>"
  by (simp_all add: zombie_child_def kboot_def boot_def kproc.defs cpu_ok_def lock_free_def proc_locks_free_def machine_defs)

theorem wait_reaps_witness:
  "\<exists>t. wait LBS 0 zombie_child = Ret (p_pid (procs zombie_child (Suc 0))) t \<and>
    procs t = (procs zombie_child)(0 := (procs zombie_child 0)\<lparr>p_sysCounter := \<lambda>i. if i < 32
         then p_sysCounter (procs zombie_child 0) i + p_sysCounter (procs zombie_child (Suc 0)) i
         else p_sysCounter (procs zombie_child 0) i\<rparr>,
       Suc 0 := cleared LBS (procs zombie_child (Suc 0))) \<and>
    kpool t ({} \<union> space_pages zombie_child (procs zombie_child (Suc 0)) 0) \<and>
    locks t = locks zombie_child \<and> csr t = csr zombie_child"
proof (rule wait_reaps)
  have "find P [0..<NPROC] = Some (Suc 0)" if "\<not> P 0" "P (Suc 0)" for P
    unfolding find_upt_Some using that by (auto simp: NPROC_def)
  then show "find (\<lambda>q. p_parent (procs zombie_child q) = Some 0 \<and> p_state (procs zombie_child q) = ZOMBIE) [0..<NPROC] = Some (Suc 0)"
    by (simp add: zero_proc_def)
  have "valid va' \<Longrightarrow> va' \<noteq> 0" for va' using flags_V(4) by auto
  then show "space_ok zombie_child {} (procs zombie_child (Suc 0)) 0"
    unfolding space_ok_def Let_def zombie_child_simps
    by (simp add: zero_proc_def fresh_tree pt_ready_def kpool_def kmem_inv_def unmappable_def one_page_pages
        PGROUNDUP_def PGSIZE_def page_addrs leaf_perm fresh_map_def same_vpage_def) (auto simp: same_vpage_def)
qed simp_all

end
