(* ===== verification/Procalloc.thy ===== *)
theory Procalloc
  imports Procspec
begin

text \<open>
  \<^verbatim>\<open>allocproc\<close>: it hands out a complete process with its lock held, or it fails and leaves no
  trace.
\<close>

declare acq_touch [simp]

lemma freeproc_no_table:
  assumes "kpool s A" "p_pagetable (procs s p) = 0"
    "p_trapframe (procs s p) \<noteq> 0 \<Longrightarrow> page_ok (kend s) (p_trapframe (procs s p)) \<and> p_trapframe (procs s p) \<notin> A"
  obtains t where "freeproc pol p s = Ret () t" "kframe (upd_proc p (cleared pol) s) t"
    "kpool t (if p_trapframe (procs s p) = 0 then A else insert (p_trapframe (procs s p)) A)"
proof -
  let ?tf = "p_trapframe (procs s p)"
  let ?g = "\<lambda>x. x\<lparr>p_pagetable := 0, p_sz := 0, p_pid := 0, p_parent := None,
       p_name := (p_name x)[0 := 0], p_chan := None,
       p_status_queue := (if pol = MLFQ then 0 else p_status_queue x),
       p_killed := 0, p_xstate := 0, p_state := UNUSED\<rparr>"
  have rdy: "cpu_ok s" "lock_free L_kmem s" using kpool_ready [OF assms(1)] by auto
  obtain t1 where t1: "(if ?tf \<noteq> 0 then kfree ?tf s else Ret () s) = Ret () t1" "kframe s t1"
    "kpool t1 (if ?tf = 0 then A else insert ?tf A)"
  proof (cases "?tf = 0")
    case True
    then show thesis using that [of s] assms(1) by simp
  next
    case False
    obtain u where u: "kfree ?tf s = Ret () u" "kpool u (insert ?tf A)"
      using kfree_pages [OF assms(1)] assms(3) [OF False] by metis
    then show thesis using that [of u] False kframe_of [OF kframe_kfree u(1)] by simp
  qed
  have pr: "procs t1 = procs s" using kframe_fields(1) [OF t1(2) rdy] .
  have "freeproc pol p s = Ret () (upd_proc p ?g (upd_proc p (\<lambda>x. x\<lparr>p_trapframe := 0\<rparr>) t1))"
    using t1(1) assms(2) pr by (simp add: freeproc_def Let_def)
  moreover have eq: "upd_proc p ?g (upd_proc p (\<lambda>x. x\<lparr>p_trapframe := 0\<rparr>) u) = upd_proc p (cleared pol) u" for u :: "'a kstate_scheme"
    by (simp add: upd_proc_upd_proc cleared_def [abs_def] cong: if_cong)
  ultimately have "freeproc pol p s = Ret () (upd_proc p (cleared pol) t1)" by simp
  then show thesis using that kframe_upd_proc [OF t1(2)] t1(3) by simp
qed

lemma allocproc_search:
  assumes "cpu_ok s" "proc_locks_free s"
  shows "for_until [0..<NPROC] (\<lambda>p s. bnd (acquire (L_proc p) s) (\<lambda>_ s.
         if p_state (procs s p) = UNUSED then Ret (Some p) s
         else bnd (release (L_proc p) s) (\<lambda>_ s. Ret None s))) s =
    (case find (\<lambda>p. p_state (procs s p) = UNUSED) [0..<NPROC] of
       None \<Rightarrow> Ret None (touch s) | Some p \<Rightarrow> Ret (Some p) (acq (L_proc p) s))"
proof -
  let ?body = "\<lambda>p s. bnd (acquire (L_proc p) s) (\<lambda>_ s.
         if p_state (procs s p) = UNUSED then Ret (Some p) s
         else bnd (release (L_proc p) s) (\<lambda>_ s. Ret None s))"
  have gen: "for_until xs ?body u = (case find (\<lambda>p. p_state (procs u p) = UNUSED) xs of
       None \<Rightarrow> Ret None (if xs = [] then u else touch u) | Some p \<Rightarrow> Ret (Some p) (acq (L_proc p) u))"
    if "set xs \<subseteq> {..<NPROC}" "cpu_ok u" "proc_locks_free u" for xs and u :: "'a kproc_scheme"
    using that
  proof (induction xs arbitrary: u)
    case (Cons p xs)
    have fr: "lock_free (L_proc p) u" using Cons.prems by (auto simp: proc_locks_free_def)
    have IH: "for_until xs ?body (touch u) = (case find (\<lambda>p. p_state (procs (touch u) p) = UNUSED) xs of
       None \<Rightarrow> Ret None (if xs = [] then touch u else touch (touch u)) | Some p \<Rightarrow> Ret (Some p) (acq (L_proc p) (touch u)))"
      using Cons.prems by (intro Cons.IH) auto
    show ?case using acquire_eq [OF Cons.prems(2) fr] unlock_touch [OF Cons.prems(2) fr] IH
      by (simp split: option.split)
  qed simp
  have "([0..<NPROC] = []) = False" using NPROC_pos by simp
  then show ?thesis using gen [of "[0..<NPROC]" s] assms by (simp only: atLeast_upt atLeast0LessThan subset_refl if_False)
qed

lemma kpool_nextpid [simp]: "kpool (s\<lparr>nextpid := n\<rparr>) A = kpool s A" "cpu_ok (s\<lparr>nextpid := n\<rparr>) = cpu_ok s"
  "lock_free l (s\<lparr>nextpid := n\<rparr>) = lock_free l s"
  by (simp_all add: kpool_def kmem_inv_def cpu_ok_def lock_free_def machine_defs)

lemma kpool_acq: "kpool s A \<Longrightarrow> noff (mycpu s) < 999999 \<Longrightarrow> l \<noteq> L_kmem \<Longrightarrow> kpool (acq l s) A"
  by (auto simp: kpool_def kmem_inv_def cpu_ok_acq)

text \<open>Memory operations inside a lock leave the machine part of the state alone.\<close>

lemma mach_upd_proc [simp]: "mach (upd_proc p f s) = mach s" "mach (s\<lparr>nextpid := n\<rparr>) = mach s" "mach (s\<lparr>mem := m\<rparr>) = mach s"
  by (simp_all add: mach_def)

lemma mach_kframe:
  assumes "kframe s t" "cpu_ok s" "lock_free L_kmem s" "0 < noff (mycpu s)"
  shows "mach t = mach s"
  using kframe_fields [OF assms(1-3)] kframe_cpus [OF assms] by (simp add: mach_def)

lemma kpool_restore:
  assumes "kpool t A" "kpool s B" "hart t = hart s"
  shows "kpool (t\<lparr>csr := csr s, cpus := cpus (touch s), locks := locks s\<rparr>) A"
proof -
  have "cpu_ok (t\<lparr>csr := csr s, cpus := cpus (touch s), locks := locks s\<rparr>) = cpu_ok (touch s)"
    "lock_free L_kmem (t\<lparr>csr := csr s, cpus := cpus (touch s), locks := locks s\<rparr>) = lock_free L_kmem s"
    using assms(3) by (simp_all add: cpu_ok_def lock_free_def machine_defs)
  then show ?thesis using assms(1,2) by (auto simp: kpool_def kmem_inv_def)
qed

lemma kalloc_pages:
  assumes "kpool s A"
  obtains (none) t where "kalloc s = Ret 0 t" "A = {}" "kpool t A" "kframe s t"
  | (some) p t where "kalloc s = Ret p t" "p \<noteq> 0" "p \<in> A" "page_ok (kend s) p" "kpool t (A - {p})" "kframe s t"
  using assms
proof (cases rule: kmem.alloc_cases)
  case (none t)
  then show thesis using that(1) [of t] kframe_of [OF kframe_kalloc none(1)] by simp
next
  case (some p t)
  then show thesis using that(2) [of p t] kframe_of [OF kframe_kalloc some(1)] by (simp add: kvalid_def)
qed

lemma kframe_proc_pagetable: "if_returns (proc_pagetable lk p s) (\<lambda>_ t. kframe s t)"
  by (auto simp: proc_pagetable_def kframes intro!: kframe_bnd)

lemma same_vpage_refl [simp]: "same_vpage l va va"
  by (simp add: same_vpage_def)

section \<open>The slot\<close>

text \<open>The slot as soon as it is taken, and after \<open>allocproc\<close> has filled it.\<close>

definition taken_slot :: "int \<Rightarrow> proc \<Rightarrow> proc" where
  "taken_slot pid x = x\<lparr>p_pid := pid, p_state := USED,
     p_sysCounter := (\<lambda>i. if i < 32 then 0 else p_sysCounter x i), p_alarm_status := 0,
     p_handling_alarm := 0, p_current_ticks := 0, p_trapframe_alarm := 0, p_ticks_of_alarm := 0\<rparr>"

definition filled_slot :: "policy \<Rightarrow> link \<Rightarrow> uint \<Rightarrow> int \<Rightarrow> uint64 \<Rightarrow> uint64 \<Rightarrow> proc \<Rightarrow> proc" where
  "filled_slot pol lk now pid tf pt x = (taken_slot pid x)\<lparr>p_trapframe := tf, p_pagetable := pt,
     p_context := zero_context\<lparr>ctx_ra := sym_forkret lk, ctx_sp := p_kstack x + PGSIZE\<rparr>,
     p_rtime := 0, p_etime := 0,
     p_wait_ticks := (if pol = MLFQ then 0 else p_wait_ticks x),
     p_status_queue := (if pol = MLFQ then 0 else p_status_queue x),
     p_priority_queue_number := (if pol = MLFQ then 0 else p_priority_queue_number x),
     p_tickets := (if pol = LBS then 1 else p_tickets x),
     p_start_time_lbs := (if pol = LBS then sint now else p_start_time_lbs x), p_ctime := now\<rparr>"


text \<open>
  What \<open>allocproc\<close> promises of the slot \<open>p\<close>.  On failure the pool is whole again and the slot is
  \<open>UNUSED\<close>; its counters, alarm fields, pid, parent and name have been reset.  On success
  the slot is filled, its page table maps the trampoline page at \<open>TRAMPOLINE\<close> (read and execute), the
  trap frame at \<open>TRAPFRAME\<close> (read and write) and nothing else, and the lock is held.
\<close>

definition alloc_result ::
  "policy \<Rightarrow> link \<Rightarrow> 'z kstate_scheme \<Rightarrow> uint64 set \<Rightarrow> nat \<Rightarrow> nat option \<Rightarrow> 'z kstate_scheme \<Rightarrow> bool" where
  "alloc_result pol lk s A p r t \<longleftrightarrow>
     (\<forall>q. q \<noteq> p \<longrightarrow> procs t q = procs s q) \<and> nextpid t = wrap32 (nextpid s + 1) \<and>
     (case r of
        None \<Rightarrow> kpool t A \<and> procs t p = cleared pol (taken_slot 0 (procs s p)) \<and> locks t = locks s \<and> csr t = csr s
      | Some q \<Rightarrow> q = p \<and>
          (\<exists>tf pt A'. procs t p = filled_slot pol lk (ticks s) (nextpid s) tf pt (procs s p) \<and> A' \<subseteq> A \<and>
             space_ok t A' (procs t p) 0 \<and> space_pages t (procs t p) 0 = A - A' \<and>
             (\<forall>va. vmap (mem t) pt va =
                (if same_vpage 2 va TRAPFRAME then PA2PTE tf OR (PTE_R OR PTE_W) OR PTE_V
                 else if same_vpage 2 va TRAMPOLINE then PA2PTE (sym_trampoline lk) OR (PTE_R OR PTE_X) OR PTE_V
                 else 0))) \<and>
          locks t = locks (acq (L_proc p) s) \<and> holding (L_proc p) t)"

section \<open>The steps of \<open>allocproc\<close>\<close>

text \<open>What remains when a slot has been found and taken.\<close>

definition alloc_rest :: "policy \<Rightarrow> link \<Rightarrow> nat \<Rightarrow> 'z kstate_scheme \<Rightarrow> ('z kstate_scheme, nat option) outcome" where
  "alloc_rest pol lk p s = bnd (kalloc s) (\<lambda>tf s.
       let s = upd_proc p (\<lambda>x. x\<lparr>p_trapframe := tf\<rparr>) s in
       if tf = 0 then
         bnd (freeproc pol p s) (\<lambda>_ s. bnd (release (L_proc p) s) (\<lambda>_ s. Ret None s))
       else bnd (proc_pagetable lk p s) (\<lambda>pagetable s.
         let s = upd_proc p (\<lambda>x. x\<lparr>p_pagetable := pagetable\<rparr>) s in
         if pagetable = 0 then
           bnd (freeproc pol p s) (\<lambda>_ s. bnd (release (L_proc p) s) (\<lambda>_ s. Ret None s))
         else
           let s = upd_proc p (\<lambda>x. x\<lparr>
             p_context := zero_context\<lparr>ctx_ra := sym_forkret lk, ctx_sp := p_kstack x + PGSIZE\<rparr>,
             p_rtime := 0, p_etime := 0\<rparr>) s;
               s = (if pol = MLFQ then
                 upd_proc p (\<lambda>x. x\<lparr>p_wait_ticks := 0, p_status_queue := 0, p_priority_queue_number := 0\<rparr>) s else s);
               s = (if pol = LBS then
                 upd_proc p (\<lambda>x. x\<lparr>p_tickets := 1, p_start_time_lbs := sint (ticks s)\<rparr>) s else s)
           in Ret (Some p) (upd_proc p (\<lambda>x. x\<lparr>p_ctime := ticks s\<rparr>) s)))"

definition taken :: "nat \<Rightarrow> 'z kstate_scheme \<Rightarrow> 'z kstate_scheme" where
  "taken p s = upd_proc p (taken_slot (nextpid s)) ((acq (L_proc p) s)\<lparr>nextpid := wrap32 (nextpid s + 1)\<rparr>)"

lemma allocproc_found:
  assumes "cpu_ok s" "noff (mycpu s) = 0" "proc_locks_free s" "lock_free L_pid s"
    "find (\<lambda>q. p_state (procs s q) = UNUSED) [0..<NPROC] = Some p"
  shows "allocproc pol lk s = alloc_rest pol lk p (taken p s)"
proof -
  have ok1: "cpu_ok (acq (L_proc p) s)" "0 < noff (mycpu (acq (L_proc p) s))" "lock_free L_pid (acq (L_proc p) s)"
    using assms by (simp_all add: cpu_ok_acq)
  have "allocpid (acq (L_proc p) s) = Ret (nextpid s) ((acq (L_proc p) s)\<lparr>nextpid := wrap32 (nextpid s + 1)\<rparr>)"
    using allocpid_eq [OF ok1(1,3)] touch_nested [OF ok1(1,2)] by simp
  then show ?thesis
    using allocproc_search [OF assms(1,3)] assms(5)
    by (simp add: allocproc_def alloc_rest_def taken_def taken_slot_def [abs_def] Let_def)
qed

lemma taken_ready:
  assumes "cpu_ok s" "noff (mycpu s) = 0" "kpool s A"
  shows "kpool (taken p s) A" "mach (taken p s) = mach (acq (L_proc p) s)" "cpu_ok (taken p s)" "lock_free L_kmem (taken p s)"
    "0 < noff (mycpu (taken p s))"
proof -
  show k: "kpool (taken p s) A" using kpool_acq [OF assms(3)] assms(2) by (simp add: taken_def)
  show m: "mach (taken p s) = mach (acq (L_proc p) s)" by (simp add: taken_def)
  show "cpu_ok (taken p s)" "lock_free L_kmem (taken p s)" using kpool_ready [OF k] by auto
  have "0 < noff (mycpu (acq (L_proc p) s))" using assms(1,2) by (simp add: cpu_ok_acq)
  then show "0 < noff (mycpu (taken p s))" using mach_cong(3) [OF m] by simp
qed

lemma procs_taken [simp]:
  "procs (taken p s) = (procs s)(p := taken_slot (nextpid s) (procs s p))" "nextpid (taken p s) = wrap32 (nextpid s + 1)"
  "ticks (taken p s) = ticks s" "kend (taken p s) = kend s"
  by (simp_all add: taken_def)

lemma cleared_taken:
  "cleared pol ((taken_slot n x)\<lparr>p_trapframe := tf\<rparr>) = cleared pol (taken_slot 0 x)"
  "cleared pol ((taken_slot n x)\<lparr>p_trapframe := tf, p_pagetable := pt\<rparr>) = cleared pol (taken_slot 0 x)"
  by (simp_all add: cleared_def taken_slot_def)

lemma alloc_failed:
  assumes s: "cpu_ok s" "lock_free (L_proc p) s" "kpool s A" "noff (mycpu s) = 0"
    and u: "kpool u B" "mach u = mach (acq (L_proc p) s)" "\<And>q. q \<noteq> p \<Longrightarrow> procs u q = procs s q" "nextpid u = wrap32 (nextpid s + 1)"
      "cleared pol (procs u p) = cleared pol (taken_slot 0 (procs s p))"
    and t: "freeproc pol p u = Ret () t" "kframe (upd_proc p (cleared pol) u) t" "kpool t A"
  shows "\<exists>v. bnd (freeproc pol p u) (\<lambda>_ s. bnd (release (L_proc p) s) (\<lambda>_ s. Ret None s)) = Ret None v \<and>
    alloc_result pol lk s A p None v"
proof -
  let ?u = "upd_proc p (cleared pol) u" and ?v = "t\<lparr>csr := csr s, cpus := cpus (touch s), locks := locks s\<rparr>"
  have n: "0 < noff (mycpu (acq (L_proc p) s))" using s(1,4) by (simp add: cpu_ok_acq)

  have rdy: "cpu_ok ?u" "lock_free L_kmem ?u" "0 < noff (mycpu ?u)"
    using kpool_ready [OF u(1)] mach_cong(3) [OF u(2)] n by auto
  have m: "mach t = mach (acq (L_proc p) s)" using mach_kframe [OF t(2) rdy] u(2) by simp
  have "release (L_proc p) t = Ret () ?v" by (rule release_mach [OF s(1,2) m])
  moreover have "hart t = hart s" using m by (simp add: mach_def)
  then have "alloc_result pol lk s A p None ?v"
    using kpool_restore [OF t(3) s(3)] kframe_fields(1,5) [OF t(2) rdy(1,2)] u(3-5) by (simp add: alloc_result_def)
  ultimately show ?thesis using t(1) by auto
qed

text \<open>The last step: both allocations have succeeded.\<close>

lemma alloc_filled:
  assumes s: "cpu_ok s" "noff (mycpu s) = 0" "p_sz (procs s p) = 0"
    and k: "kalloc (taken p s) = Ret tf t4" "tf \<noteq> 0" "tf \<in> A" "page_ok (kend s) tf"
    and pt: "proc_pagetable lk p (upd_proc p (\<lambda>x. x\<lparr>p_trapframe := tf\<rparr>) t4) = Ret pt t6" "pt \<noteq> 0" "pt_ready t6 pt A'" "A' \<subseteq> A - {tf}"
      "ptree 2 (mem t6) pt = A - {tf} - A'" "\<And>va. vmap (mem t6) pt va = fresh_map lk tf va"
    and t6: "procs t6 = (procs s)(p := (taken_slot (nextpid s) (procs s p))\<lparr>p_trapframe := tf\<rparr>)" "nextpid t6 = wrap32 (nextpid s + 1)"
      "kend t6 = kend s" "ticks t6 = ticks s" "mach t6 = mach (acq (L_proc p) s)"
  shows "\<exists>t. alloc_rest pol lk p (taken p s) = Ret (Some p) t \<and> alloc_result pol lk s A p (Some p) t"
proof -
  have "\<exists>t. alloc_rest pol lk p (taken p s) = Ret (Some p) t \<and> mach t = mach t6 \<and> mem t = mem t6 \<and> kend t = kend t6 \<and> freelist t = freelist t6 \<and>
    nextpid t = nextpid t6 \<and> procs t = (procs s)(p := filled_slot pol lk (ticks s) (nextpid s) tf pt (procs s p))"
    unfolding alloc_rest_def using k(1,2) pt(1,2) t6
    by (cases pol) (simp_all add: Let_def filled_slot_def taken_slot_def)
  then obtain t where t: "alloc_rest pol lk p (taken p s) = Ret (Some p) t" "mach t = mach t6" "mem t = mem t6" "kend t = kend t6"
    "freelist t = freelist t6" "nextpid t = nextpid t6" "procs t = (procs s)(p := filled_slot pol lk (ticks s) (nextpid s) tf pt (procs s p))"
    by blast
  have f: "p_pagetable (procs t p) = pt" "p_trapframe (procs t p) = tf" "p_sz (procs t p) = 0"
    using t(7) s(3) by (simp_all add: filled_slot_def taken_slot_def)
  have rt: "pt_ready t pt A'" using pt(3) t(2-5) mach_cong [OF t(2)] by (simp add: pt_ready_def kpool_def kmem_inv_def)
  have vm: "vmap (mem t) pt va = fresh_map lk tf va" for va using pt(6) t(3) by simp
  have tfx: "tf \<notin> A'" "tf \<notin> A - {tf} - A'" "page_ok (kend t) tf" using pt(4) k(4) t(4) t6(3) by auto
  have "space_ok t A' (procs t p) 0"
    unfolding space_ok_def Let_def f using rt vm tfx pt(2,5) k(2) t(3)
    by (auto simp: fresh_map_def leaf_perm page_addrs unmappable_def PGROUNDUP_def PGSIZE_def flags_V(4) same_vpage_refl)
  moreover have "space_pages t (procs t p) 0 = A - A'" "A' \<subseteq> A"
    unfolding space_pages_def f using pt(4,5) t(3) k(3) by auto
  moreover have "holding (L_proc p) t" "locks t = locks (acq (L_proc p) s)"
    using mach_cong(4,5) [of t "acq (L_proc p) s"] t(2) t6(5) by simp_all
  moreover have "procs t p = filled_slot pol lk (ticks s) (nextpid s) tf pt (procs s p)" using t(7) by simp
  ultimately have "alloc_result pol lk s A p (Some p) t"
    using t(6,7) t6(2) vm unfolding alloc_result_def fresh_map_def option.case
    by (intro conjI exI [of _ tf] exI [of _ pt] exI [of _ A']) simp_all
  then show ?thesis using t(1) by blast
qed

lemma alloc_rest_ok:
  assumes s: "cpu_ok s" "noff (mycpu s) = 0" "kpool s A" "lock_free (L_proc p) s" "p_pagetable (procs s p) = 0" "p_sz (procs s p) = 0"
  shows "\<exists>r t. alloc_rest pol lk p (taken p s) = Ret r t \<and> alloc_result pol lk s A p r t"
proof -
  note tk = taken_ready [OF s(1-3), of p]
  show ?thesis
    using tk(1)
  proof (cases rule: kalloc_pages)
    case (none t4)
    let ?u = "upd_proc p (\<lambda>x. x\<lparr>p_trapframe := 0\<rparr>) t4"
    have pr: "procs t4 = procs (taken p s)" "nextpid t4 = wrap32 (nextpid s + 1)" using kframe_fields(1,5) [OF none(4) tk(3,4)] by simp_all
    have m: "mach ?u = mach (acq (L_proc p) s)" using mach_kframe [OF none(4) tk(3-5)] tk(2) by simp
    have k5: "kpool ?u A" "p_pagetable (procs ?u p) = 0" "p_trapframe (procs ?u p) = 0"
      using none(3) pr s(5) by (simp_all add: taken_slot_def)
    obtain t where t: "freeproc pol p ?u = Ret () t" "kframe (upd_proc p (cleared pol) ?u) t" "kpool t A"
      using freeproc_no_table [OF k5(1,2)] k5(3) by auto
    have "\<exists>v. bnd (freeproc pol p ?u) (\<lambda>_ s. bnd (release (L_proc p) s) (\<lambda>_ s. Ret None s)) = Ret None v \<and> alloc_result pol lk s A p None v"
      by (rule alloc_failed [OF s(1,4,3,2) k5(1) m _ _ _ t]) (use pr in \<open>simp_all add: cleared_taken\<close>)
    then show ?thesis using none(1) by (auto simp: alloc_rest_def Let_def)
  next
    case (some tf t4)
    let ?s5 = "upd_proc p (\<lambda>x. x\<lparr>p_trapframe := tf\<rparr>) t4"
    have pr: "procs t4 = procs (taken p s)" "nextpid t4 = wrap32 (nextpid s + 1)" "ticks t4 = ticks s" "kend t4 = kend s"
      using kframe_fields [OF some(6) tk(3,4)] by simp_all
    have m5: "mach ?s5 = mach (acq (L_proc p) s)" using mach_kframe [OF some(6) tk(3-5)] tk(2) by simp
    have k5: "kpool ?s5 (A - {tf})" using some(5) by simp
    have rdy5: "cpu_ok ?s5" "lock_free L_kmem ?s5" "0 < noff (mycpu ?s5)"
      using kpool_ready [OF k5] mach_cong(3) [OF m5] mach_cong(3) [OF tk(2)] tk(5) by auto
    have tf5: "p_trapframe (procs ?s5 p) = tf" by simp
    show ?thesis
      using k5
    proof (cases rule: proc_pagetable_ok [where lk = lk and p = p])
      case (fail t6)
      have f6: "kframe ?s5 t6" using kframe_of [OF kframe_proc_pagetable fail(1)] .
      let ?u = "upd_proc p (\<lambda>x. x\<lparr>p_pagetable := 0\<rparr>) t6"
      have pr6: "procs t6 = procs ?s5" "nextpid t6 = wrap32 (nextpid s + 1)" "kend t6 = kend s" using kframe_fields [OF f6 rdy5(1,2)] pr by simp_all
      have m7: "mach ?u = mach (acq (L_proc p) s)" using mach_kframe [OF f6 rdy5] m5 by simp
      have k7: "kpool ?u (A - {tf})" "p_pagetable (procs ?u p) = 0" "p_trapframe (procs ?u p) = tf" using fail(2) pr6 by simp_all
      have pre: "page_ok (kend ?u) (p_trapframe (procs ?u p)) \<and> p_trapframe (procs ?u p) \<notin> A - {tf}"
        unfolding k7(3) using some(4) pr6(3) by simp
      have ins: "insert tf (A - {tf}) = A" using some(3) by auto
      obtain t where t: "freeproc pol p ?u = Ret () t" "kframe (upd_proc p (cleared pol) ?u) t"
        "kpool t (if p_trapframe (procs ?u p) = 0 then A - {tf} else insert (p_trapframe (procs ?u p)) (A - {tf}))"
        by (rule freeproc_no_table [OF k7(1,2) pre])
      have ka: "kpool t A" using t(3) some(2) unfolding k7(3) ins by simp
      have "\<exists>v. bnd (freeproc pol p ?u) (\<lambda>_ s. bnd (release (L_proc p) s) (\<lambda>_ s. Ret None s)) = Ret None v \<and> alloc_result pol lk s A p None v"
        by (rule alloc_failed [OF s(1,4,3,2) k7(1) m7 _ _ _ t(1,2) ka]) (use pr pr6 in \<open>simp_all add: cleared_taken\<close>)
      then show ?thesis using some(1,2) fail(1) by (auto simp: alloc_rest_def Let_def)
    next
      case (ok pt t6 A')
      have f6: "kframe ?s5 t6" using kframe_of [OF kframe_proc_pagetable ok(1)] .
      have pr6: "procs t6 = (procs s)(p := (taken_slot (nextpid s) (procs s p))\<lparr>p_trapframe := tf\<rparr>)" "nextpid t6 = wrap32 (nextpid s + 1)"
        "kend t6 = kend s" "ticks t6 = ticks s" using kframe_fields [OF f6 rdy5(1,2)] pr by simp_all
      have m6: "mach t6 = mach (acq (L_proc p) s)" using mach_kframe [OF f6 rdy5] m5 by simp
      have pg: "page_ok (kend s) tf" using some(4) by simp
      show ?thesis
        using alloc_filled [OF s(1,2,6) some(1-3) pg ok(1-3,5,6) ok(7) [unfolded tf5] pr6 m6, of pol] by blast
    qed
  qed
qed

text \<open>
  C8: \<open>allocproc\<close> succeeds completely or not at all.  It picks the first \<open>UNUSED\<close> slot and consumes
  one pid.  On success it returns that slot with its lock held: state \<open>USED\<close>, the pid, cleared
  system-call counters and alarm fields, times and scheduling fields initialised, a context that
  starts in \<open>forkret\<close> on top of the kernel stack, and a page table that maps the trampoline page and
  the new trap frame at their addresses and permissions and nothing else; the pages it took from the
  pool are exactly the trap frame and the pages of that table.  If memory runs out at any point it
  returns no slot, every page is back in the pool and the lock is released; the slot is \<open>UNUSED\<close> and
  the fields that \<open>allocproc\<close> and \<open>freeproc\<close> reset are the only ones of it that differ.  No other
  slot changes.
\<close>

theorem allocproc_atomic:
  assumes "cpu_ok s" "noff (mycpu s) = 0" "kpool s A" "proc_locks_free s" "lock_free L_pid s"
    "find (\<lambda>q. p_state (procs s q) = UNUSED) [0..<NPROC] = Some p" "p_pagetable (procs s p) = 0" "p_sz (procs s p) = 0"
  shows "\<exists>r t. allocproc pol lk s = Ret r t \<and> alloc_result pol lk s A p r t"
proof -
  have "p < NPROC" using assms(6) unfolding find_upt_Some by blast
  then have "lock_free (L_proc p) s" using assms(4) by (simp add: proc_locks_free_def)
  then show ?thesis
    using alloc_rest_ok [OF assms(1-3) _ assms(7,8)] allocproc_found [OF assms(1,2,4-6)] by simp
qed

theorem allocproc_atomic_witness:
  "\<exists>r t. allocproc MLFQ \<lparr>sym_trampoline = 0x80007000, sym_forkret = 0, sym_usertrap = 0,
     sym_uservec = 0, sym_userret = 0, sym_kernelvec = 0\<rparr> kboot = Ret r t \<and> alloc_result MLFQ \<lparr>sym_trampoline = 0x80007000, sym_forkret = 0, sym_usertrap = 0,
     sym_uservec = 0, sym_userret = 0, sym_kernelvec = 0\<rparr> kboot {} 0 r t"
proof (rule allocproc_atomic)
  have pr: "procs kboot = (\<lambda>_. zero_proc)" by (simp add: kboot_def boot_def kproc.defs)
  show "find (\<lambda>q. p_state (procs kboot q) = UNUSED) [0..<NPROC] = Some 0" "p_pagetable (procs kboot 0) = 0" "p_sz (procs kboot 0) = 0"
    unfolding pr find_upt_Some by (simp_all add: zero_proc_def)
  show "kpool kboot {}" using kboot_ok by (simp add: kpool_def kmem_inv_def)
  show "noff (mycpu kboot) = 0" by (simp add: kboot_def boot_def kproc.defs machine_defs)
qed (simp_all add: kboot_ok)

end
