(* ===== verification/Alarmspec.thy ===== *)
theory Alarmspec
  imports Trap Procalloc
begin

text \<open>
  User-level alarms: what a process sees when its alarm goes off and when its handler calls
  \<open>sigreturn\<close>.
\<close>

section \<open>Trap frames\<close>

lemma tf_off_bound: "unat (tf_off f) \<le> 280" "8 dvd unat (tf_off f)"
  by (cases f; simp)+

lemma tf_off_inj: "tf_off f = tf_off g \<Longrightarrow> f = g"
  by (cases f; cases g; simp)

text \<open>The page of the trap frame is in use: no allocation can return it.\<close>

definition tf_ok :: "nat \<Rightarrow> uint64 set \<Rightarrow> 'z kstate_scheme \<Rightarrow> bool" where
  "tf_ok p A s \<longleftrightarrow> page_ok (kend s) (p_trapframe (procs s p)) \<and> p_trapframe (procs s p) \<notin> A"

lemma tf_field:
  assumes "page_ok e a"
  shows "unat (a + tf_off f) = unat a + unat (tf_off f)" "unat a + 4096 \<le> 2 ^ 64"
    "in_range x (a + tf_off f) 8 \<Longrightarrow> in_range x a TF_SIZE"
proof -
  have a: "unat a < unat PHYSTOP" using assms by (simp add: page_ok_def word_less_nat_alt)
  then show b: "unat a + 4096 \<le> 2 ^ 64" by (simp add: PHYSTOP_nat)
  show u: "unat (a + tf_off f) = unat a + unat (tf_off f)"
    using b tf_off_bound(1) [of f] by (intro unat_add_lem [THEN iffD1]) simp
  assume "in_range x (a + tf_off f) 8"
  then have "unat (x - a - tf_off f) < 8" by (simp add: in_range_def algebra_simps)
  moreover have "x - a = (x - a - tf_off f) + tf_off f" by simp
  ultimately have "unat (x - a) \<le> unat (x - a - tf_off f) + unat (tf_off f)"
    by (metis unat_word_ariths(1) mod_less_eq_dividend)
  then show "in_range x a TF_SIZE"
    using \<open>unat (x - a - tf_off f) < 8\<close> tf_off_bound(1) [of f] by (simp add: in_range_def TF_SIZE_def)
qed

lemma tf_fields_disjoint:
  assumes "page_ok e a" "f \<noteq> g"
  shows "disjoint_ranges (a + tf_off f) 8 (a + tf_off g) 8"
proof (rule disjoint_rangesI)
  note u = tf_field(1) [OF assms(1)] tf_field(2) [OF assms(1)] tf_off_bound
  have "tf_off f \<noteq> tf_off g" using tf_off_inj assms(2) by blast
  then have "unat (tf_off f) \<noteq> unat (tf_off g)" by (simp add: word_unat_eq_iff)
  then show "unat (a + tf_off f) + 8 \<le> unat (a + tf_off g) \<or> unat (a + tf_off g) + 8 \<le> unat (a + tf_off f)"
    using u(1) u(4) [of f] u(4) [of g] by (auto elim!: dvdE)
  show "unat (a + tf_off f) + 8 \<le> 2 ^ 64" "unat (a + tf_off g) + 8 \<le> 2 ^ 64"
    using u(1,2) u(3) [of f] u(3) [of g] by simp_all
qed

lemma tf_get_set:
  assumes "page_ok e (p_trapframe (procs s p))"
  shows "tf_get f p (tf_set g v p s) = (if f = g then v else tf_get f p s)"
  using tf_fields_disjoint [OF assms, of g f] by (simp add: tf_get_def tf_set_def load64_store64 load64_store64_other)

lemma tf_get_cong:
  assumes "page_ok e a" "p_trapframe (procs s p) = a" "p_trapframe (procs t p) = a"
    "\<And>x. in_range x a TF_SIZE \<Longrightarrow> mem t x = mem s x"
  shows "tf_get f p t = tf_get f p s"
  unfolding tf_get_def assms(2,3) by (rule load64_cong) (rule assms(4) [OF tf_field(3) [OF assms(1)]])

text \<open>Writing inside a page that is in use keeps the pool.\<close>

lemma kpool_writes:
  assumes "kpool s A" "\<And>a. a \<in> U \<Longrightarrow> page_ok (kend s) a \<and> a \<notin> A" "\<And>x. (\<And>a. a \<in> U \<Longrightarrow> \<not> in_range x a 4096) \<Longrightarrow> m x = mem s x"
  shows "kpool (s\<lparr>mem := m\<rparr>) A"
proof (rule kpool_mem [OF assms(1)])
  fix q
  assume q: "q \<in> A"
  then have "page_ok (kend s) q" using kmem.pool_valid [OF assms(1)] by (simp add: kvalid_def)
  then have "disjoint_ranges q 4096 a 4096" if "a \<in> U" for a
    using assms(2) [OF that] q by (intro pages_disjoint [of "kend s"]) auto
  then show "same_page_bytes (mem s) m q" using assms(3) by (auto simp: same_page_bytes_def disjoint_ranges_def)
qed

lemma kpool_write:
  assumes "kpool s A" "page_ok (kend s) a" "a \<notin> A" "\<And>x. \<not> in_range x a 4096 \<Longrightarrow> m x = mem s x"
  shows "kpool (s\<lparr>mem := m\<rparr>) A"
  by (rule kpool_writes [OF assms(1), of "{a}"]) (use assms(2-4) in simp_all)

lemma in_range_le: "in_range x a n \<Longrightarrow> n \<le> k \<Longrightarrow> in_range x a k"
  by (simp add: in_range_def)

lemma kpool_tf_set:
  assumes "kpool s A" "tf_ok p A s"
  shows "kpool (tf_set f v p s) A"
  unfolding tf_set_def
proof (rule kpool_write [OF assms(1)])
  show "page_ok (kend s) (p_trapframe (procs s p))" "p_trapframe (procs s p) \<notin> A" using assms(2) by (simp_all add: tf_ok_def)
  fix x
  assume "\<not> in_range x (p_trapframe (procs s p)) 4096"
  then have "\<not> in_range x (p_trapframe (procs s p) + tf_off f) 8"
    using tf_field(3) in_range_le [of x _ TF_SIZE 4096] assms(2) unfolding tf_ok_def TF_SIZE_def by fastforce
  then show "store64 (p_trapframe (procs s p) + tf_off f) v (mem s) x = mem s x" by (simp add: store64_eq)
qed

text \<open>The copy of the trap frame to a page of its own.\<close>

lemma copy_page:
  assumes "page_ok e a" "page_ok e b"
  shows "memmove a b TF_SIZE m x = (if in_range x a TF_SIZE then m (b + (x - a)) else m x)"
proof -
  have "unat a + TF_SIZE \<le> 2 ^ 64" "unat b + TF_SIZE \<le> 2 ^ 64"
    using tf_field(2) [OF assms(1)] tf_field(2) [OF assms(2)] by (simp_all add: TF_SIZE_def)
  then show ?thesis by (simp add: memmove_eq)
qed

lemma mycpu_mem: "mycpu (s\<lparr>mem := m\<rparr>) = mycpu s"
  by (simp add: mycpu_def cpuid_def)

section \<open>The alarm goes off\<close>


definition alarm_due :: "proc \<Rightarrow> bool" where
  "alarm_due x \<longleftrightarrow> 0 < p_ticks_of_alarm x \<and> p_alarm_status x = 0 \<and> p_ticks_of_alarm x \<le> wrap32 (p_current_ticks x + 1)"

text \<open>In the handler: the page \<open>a\<close> holds a copy of the trap frame that memory \<open>m\<close> had.\<close>

definition handling :: "nat \<Rightarrow> uint64 \<Rightarrow> mem \<Rightarrow> 'z kstate_scheme \<Rightarrow> bool" where
  "handling p a m s \<longleftrightarrow> p_trapframe_alarm (procs s p) = a \<and> p_alarm_status (procs s p) = 1 \<and>
     (\<forall>x. in_range x a TF_SIZE \<longrightarrow> mem s x = m (p_trapframe (procs s p) + (x - a)))"

lemma alarm_fires:
  assumes "kpool s A" "A \<noteq> {}" "tf_ok p A s" "alarm_due (procs s p)"
  obtains a t where "alarm_tick p s = Ret () t" "a \<in> A" "page_ok (kend s) a" "kpool t (A - {a})" "kend t = kend s" "cpu_proc (mycpu t) = cpu_proc (mycpu s)"
    "procs t = (procs s)(p := (procs s p)\<lparr>p_current_ticks := 0, p_trapframe_alarm := a, p_alarm_status := 1\<rparr>)"
    "handling p a (mem s) t" "\<And>f. tf_get f p t = (if f = TF_epc then p_handling_alarm (procs s p) else tf_get f p s)"
proof -
  let ?b = "p_trapframe (procs s p)"
  let ?s1 = "upd_proc p (\<lambda>x. x\<lparr>p_current_ticks := 0\<rparr>) (upd_proc p (\<lambda>x. x\<lparr>p_current_ticks := wrap32 (p_current_ticks x + 1)\<rparr>) s)"
  have b: "page_ok (kend s) ?b" "?b \<notin> A" using assms(3) by (simp_all add: tf_ok_def)
  have k1: "kpool ?s1 A" using assms(1) by simp
  obtain a s2 where s2: "kalloc ?s1 = Ret a s2" "a \<noteq> 0" "a \<in> A" "kpool s2 (A - {a})"
    "\<And>x. mem s2 x = (if in_range x a 4096 then 5 else mem s x)" "page_ok (kend s) a"
    using k1
  proof (cases rule: kmem.alloc_cases)
    case (some a t)
    then show thesis using that [of a t] by (simp add: kvalid_def)
  qed (use assms(2) in simp)
  have fr: "kframe ?s1 s2" by (rule kframe_of [OF kframe_kalloc s2(1)])
  note f2 = kframe_fields [OF fr] kpool_ready [OF k1]
  have p2: "procs s2 = procs ?s1" "kend s2 = kend s" using f2 by simp_all
  let ?s3 = "upd_proc p (\<lambda>x. x\<lparr>p_trapframe_alarm := a\<rparr>) s2"
  let ?s4 = "?s3\<lparr>mem := memmove a ?b TF_SIZE (mem ?s3)\<rparr>"
  let ?s5 = "tf_set TF_epc (p_handling_alarm (procs s p)) p ?s4"
  let ?t = "upd_proc p (\<lambda>x. x\<lparr>p_alarm_status := 1\<rparr>) ?s5"
  have "alarm_tick p s = Ret () ?t"
    using assms(4) s2(1,2) p2 by (simp add: alarm_tick_def alarm_due_def Let_def)
  moreover have sz: "TF_SIZE \<le> 4096" by (simp add: TF_SIZE_def)
  have out: "\<not> in_range x a TF_SIZE" "\<not> in_range x a 4096" if "in_range x ?b 4096" for x
    using pages_disjoint [OF s2(6) b(1), of 4096 4096] that s2(3) b(2) in_range_le [OF _ sz] by (auto simp: disjoint_ranges_def)
  have "kpool ?s4 (A - {a})"
    by (rule kpool_write) (use s2(4,6) p2 in_range_le [OF _ sz] in \<open>auto simp: copy_page [OF s2(6) b(1)]\<close>)
  then have "kpool ?t (A - {a})" using b p2 by (simp add: kpool_tf_set tf_ok_def)
  moreover have "procs ?t = (procs s)(p := (procs s p)\<lparr>p_current_ticks := 0, p_trapframe_alarm := a, p_alarm_status := 1\<rparr>)"
    using p2 by (simp add: tf_set_def upd_proc_def fun_eq_iff)
  moreover have "kend ?t = kend s" "cpu_proc (mycpu ?t) = cpu_proc (mycpu s)" using p2 f2 by (simp_all add: tf_set_def mycpu_mem)
  moreover have m4: "mem ?s4 x = mem s x" if "in_range x ?b TF_SIZE" for x
    using out in_range_le [OF that sz] s2(5) by (simp add: copy_page [OF s2(6) b(1)])
  have "tf_get f p ?t = (if f = TF_epc then p_handling_alarm (procs s p) else tf_get f p s)" for f
  proof -
    have "tf_get f p ?s4 = tf_get f p s" by (rule tf_get_cong [OF b(1)]) (use p2 m4 in simp_all)
    moreover have "tf_get f p ?t = tf_get f p ?s5" by (simp add: tf_get_def)
    ultimately show ?thesis using tf_get_set [of "kend s" ?s4 p f TF_epc] b(1) p2 by simp
  qed
  moreover have "mem ?t x = mem s (?b + (x - a))" if x: "in_range x a TF_SIZE" for x
  proof -
    have "\<not> in_range x ?b 4096" using out x by blast
    then have "\<not> in_range x (?b + tf_off TF_epc) 8" using tf_field(3) [OF b(1)] in_range_le [OF _ sz] by blast
    then have "mem ?t x = mem ?s4 x" using p2 by (simp add: tf_set_def store64_eq)
    moreover have "in_range (?b + (x - a)) ?b 4096" using in_range_le [OF x sz] by (simp add: in_range_def)
    ultimately show ?thesis using x out s2(5) by (simp add: copy_page [OF s2(6) b(1)])
  qed
  then have "handling p a (mem s) ?t" using p2 by (simp add: handling_def tf_set_def)
  ultimately show thesis by (intro that [of ?t a] s2(3,6)) simp_all
qed

section \<open>Returning from the handler\<close>

lemma kpool_touch: "kpool s A \<Longrightarrow> kpool (touch s) A"
  by (auto simp: kpool_def kmem_inv_def)

lemma sigreturn_restores:
  assumes "kpool s A" "tf_ok p A s" "page_ok (kend s) a" "a \<notin> A" "a \<noteq> p_trapframe (procs s p)" "handling p a m s"
    "cpu_proc (mycpu s) = Some p"
  obtains t where "sys_sigreturn s = Ret 0 t" "kpool t (insert a A)" "kend t = kend s"
    "procs t = (procs s)(p := (procs s p)\<lparr>p_trapframe_alarm := 0, p_alarm_status := 0\<rparr>)"
    "\<And>f. tf_get f p t = load64 m (p_trapframe (procs s p) + tf_off f)"
proof -
  let ?b = "p_trapframe (procs s p)"
  let ?s1 = "(touch s)\<lparr>mem := memmove ?b a TF_SIZE (mem s)\<rparr>"
  have b: "page_ok (kend s) ?b" "?b \<notin> A" using assms(2) by (simp_all add: tf_ok_def)
  have a: "p_trapframe_alarm (procs s p) = a" "a \<noteq> 0" using assms(3,6) by (simp_all add: handling_def page_ok_def)
  have sz: "TF_SIZE \<le> 4096" by (simp add: TF_SIZE_def)
  have k1: "kpool ?s1 A"
    by (rule kpool_write) (use kpool_touch [OF assms(1)] b in_range_le [OF _ sz] in \<open>auto simp: copy_page [OF b(1) assms(3)]\<close>)
  have v: "kvalid ?s1 a" using assms(3) by (simp add: kvalid_def)
  obtain t where t: "kfree a ?s1 = Ret () t" "kpool t (insert a A)" "\<forall>x. \<not> in_range x a 4096 \<longrightarrow> mem t x = mem ?s1 x"
    using kmem.free_page [OF k1 v assms(4)] by auto
  note f = kframe_fields [OF kframe_of [OF kframe_kfree t(1)]] kpool_ready [OF k1]
  have p: "procs t = procs s" "kend t = kend s" using f by simp_all
  let ?t = "upd_proc p (\<lambda>x. x\<lparr>p_trapframe_alarm := 0, p_alarm_status := 0\<rparr>) t"
  have "sys_sigreturn s = Ret 0 ?t"
    using assms(1,7) a t(1) by (simp add: sys_sigreturn_def with_myproc_eq kpool_def Let_def)
  moreover have "tf_get f p ?t = load64 m (?b + tf_off f)" for f
  proof -
    have "mem t x = m x" if x: "in_range x (?b + tf_off f) 8" for x
    proof -
      have x': "in_range x ?b TF_SIZE" by (rule tf_field(3) [OF b(1) x])
      have "in_range (a + (x - ?b)) a TF_SIZE" using x' by (simp add: in_range_def)
      moreover have "\<not> in_range x a 4096"
        using pages_disjoint [OF assms(3) b(1) assms(5), of 4096 4096] in_range_le [OF x' sz] by (auto simp: disjoint_ranges_def)
      ultimately show ?thesis using t(3) x' assms(6) by (simp add: copy_page [OF b(1) assms(3)] handling_def)
    qed
    then have "load64 (mem t) (?b + tf_off f) = load64 m (?b + tf_off f)" by (rule load64_cong)
    then show ?thesis using p by (simp add: tf_get_def)
  qed
  moreover have "procs ?t = (procs s)(p := (procs s p)\<lparr>p_trapframe_alarm := 0, p_alarm_status := 0\<rparr>)"
    using p by (simp add: upd_proc_def fun_eq_iff)
  ultimately show thesis using t(2) p by (intro that [of ?t]) simp_all
qed

text \<open>What a process can do between two traps: change its own registers, that is, the trap frame, and
  the bytes of its own pages \<open>U\<close>.\<close>

definition user_ran :: "nat \<Rightarrow> uint64 set \<Rightarrow> 'z kstate_scheme \<Rightarrow> 'z kstate_scheme \<Rightarrow> bool" where
  "user_ran p U s t \<longleftrightarrow> (\<exists>m. t = s\<lparr>mem := m\<rparr> \<and>
     (\<forall>x. \<not> in_range x (p_trapframe (procs s p)) TF_SIZE \<and> (\<forall>q\<in>U. \<not> in_range x q 4096) \<longrightarrow> m x = mem s x))"

text \<open>The system call \<open>sigreturn\<close> after the handler has run, in a state \<open>t\<close> that the alarm left.\<close>

lemma handler_returns:
  assumes "tf_ok p A s" "\<And>q. q \<in> U \<Longrightarrow> page_ok (kend s) q \<and> q \<notin> A"
    and t: "a \<in> A" "page_ok (kend s) a" "kpool t (A - {a})" "kend t = kend s" "cpu_proc (mycpu t) = Some p"
      "p_trapframe (procs t p) = p_trapframe (procs s p)" "handling p a (mem s) t"
    and ran: "user_ran p U t t'" and a7: "tf_get TF_a7 p t' = 25"
  shows "\<exists>u. syscall pol lk junk t' = Ret () u \<and> kpool u A \<and> p_alarm_status (procs u p) = 0 \<and>
    p_current_ticks (procs u p) = p_current_ticks (procs t p) \<and> (\<forall>f. tf_get f p u = (if f = TF_a0 then 0 else tf_get f p s))"
proof -
  let ?b = "p_trapframe (procs s p)" and ?v = "touch t'"
  have b: "page_ok (kend s) ?b" "?b \<notin> A" using assms(1) by (simp_all add: tf_ok_def)
  obtain m where m: "t' = t\<lparr>mem := m\<rparr>" "\<And>x. \<not> in_range x ?b TF_SIZE \<Longrightarrow> (\<And>q. q \<in> U \<Longrightarrow> \<not> in_range x q 4096) \<Longrightarrow> m x = mem t x"
    using ran t(6) by (auto simp: user_ran_def)
  have sz: "TF_SIZE \<le> 4096" by (simp add: TF_SIZE_def)
  have ne: "a \<noteq> ?b" using t(1) b(2) by blast
  then have out: "\<not> in_range x ?b TF_SIZE" "q \<in> U \<Longrightarrow> \<not> in_range x q 4096" if "in_range x a TF_SIZE" for x q
    using that pages_disjoint [OF t(2) b(1) _ sz sz] pages_disjoint [OF t(2) _ _ sz order_refl, of q] assms(2) [of q] t(1)
    by (auto simp: disjoint_ranges_def)
  have k: "kpool t' (A - {a})" unfolding m(1)
  proof (rule kpool_writes [OF t(3), of "insert ?b U"])
    show "m x = mem t x" if "\<And>q. q \<in> insert ?b U \<Longrightarrow> \<not> in_range x q 4096" for x
      by (rule m(2)) (use that in_range_le [OF _ sz] in blast)+
  qed (use b assms(2) t(4) in auto)
  have h: "handling p a (mem s) ?v" using t(6,7) m out by (simp add: handling_def)
  have cp: "cpu_proc (mycpu t') = Some p" using t(5) m(1) by (simp add: mycpu_mem)
  have ok: "tf_ok p (A - {a}) ?v" "page_ok (kend ?v) a" "a \<notin> A - {a}" "a \<noteq> p_trapframe (procs ?v p)" "cpu_proc (mycpu ?v) = Some p"
    using b t(2,4,6) m(1) ne cp by (simp_all add: tf_ok_def)
  obtain u where u: "sys_sigreturn ?v = Ret 0 u" "kpool u (insert a (A - {a}))" "kend u = kend ?v"
    "procs u = (procs ?v)(p := (procs ?v p)\<lparr>p_trapframe_alarm := 0, p_alarm_status := 0\<rparr>)"
    "\<And>f. tf_get f p u = load64 (mem s) (p_trapframe (procs ?v p) + tf_off f)"
    by (rule sigreturn_restores [OF kpool_touch [OF k] ok(1-4) h ok(5)]) (rule that, assumption+)
  have pu: "kpool u A" "p_trapframe (procs u p) = ?b" "kend u = kend s" "\<And>f. tf_get f p u = tf_get f p s"
    using u(2-5) t(1,4,6) m(1) by (simp_all add: insert_absorb tf_get_def)
  let ?u = "upd_proc p (\<lambda>x. x\<lparr>p_sysCounter := (p_sysCounter x)(25 := p_sysCounter x 25 + 1)\<rparr>) (tf_set TF_a0 0 p u)"
  have "syscall pol lk junk t' = Ret () ?u"
    using k cp a7 u(1)
    by (simp add: syscall_def with_myproc_eq kpool_def Let_def as_int_def NSYSCALLS_def syscalls_def tf_get_def)
  moreover have "kpool ?u A" using kpool_tf_set [OF pu(1)] pu(2,3) b by (simp add: tf_ok_def)
  moreover have "tf_get f p ?u = (if f = TF_a0 then 0 else tf_get f p s)" for f
    using tf_get_set [of "kend s" u p f TF_a0 0] b(1) pu by (simp add: tf_get_def)
  moreover have "p_alarm_status (procs ?u p) = 0" "p_current_ticks (procs ?u p) = p_current_ticks (procs t p)"
    using u(4) m(1) by (simp_all add: tf_set_def)
  ultimately show ?thesis by blast
qed

text \<open>
  C14: an alarm interrupts a process and \<open>sigreturn\<close> resumes it.  When the alarm is due, the timer
  interrupt copies the trap frame to a page of its own and makes the process continue in its
  handler, with all other registers as they were.  Whatever the handler does to its registers and
  to the memory \<open>U\<close> of the process, the system call \<open>sigreturn\<close> puts back all registers of the
  interrupted computation, except \<open>a0\<close>, which is 0 whatever the computation had in it; it gives
  the page back to the allocator and arms the alarm again.
\<close>

theorem alarm_roundtrip:
  assumes "kpool s A" "A \<noteq> {}" "tf_ok p A s" "alarm_due (procs s p)" "cpu_proc (mycpu s) = Some p"
    "\<And>q. q \<in> U \<Longrightarrow> page_ok (kend s) q \<and> q \<notin> A"
  shows "\<exists>t. alarm_tick p s = Ret () t \<and> p_alarm_status (procs t p) = 1 \<and>
    (\<forall>f. tf_get f p t = (if f = TF_epc then p_handling_alarm (procs s p) else tf_get f p s)) \<and>
    (\<forall>t'. user_ran p U t t' \<longrightarrow> tf_get TF_a7 p t' = 25 \<longrightarrow>
      (\<exists>u. syscall pol lk junk t' = Ret () u \<and> kpool u A \<and> p_alarm_status (procs u p) = 0 \<and> p_current_ticks (procs u p) = 0 \<and>
        (\<forall>f. tf_get f p u = (if f = TF_a0 then 0 else tf_get f p s))))"
proof -
  obtain a t where t: "alarm_tick p s = Ret () t" "a \<in> A" "page_ok (kend s) a" "kpool t (A - {a})" "kend t = kend s"
    "cpu_proc (mycpu t) = cpu_proc (mycpu s)"
    "procs t = (procs s)(p := (procs s p)\<lparr>p_current_ticks := 0, p_trapframe_alarm := a, p_alarm_status := 1\<rparr>)"
    "handling p a (mem s) t" "\<And>f. tf_get f p t = (if f = TF_epc then p_handling_alarm (procs s p) else tf_get f p s)"
    by (rule alarm_fires [OF assms(1-4)]) (rule that, assumption+)
  have c: "cpu_proc (mycpu t) = Some p" "p_trapframe (procs t p) = p_trapframe (procs s p)" "p_current_ticks (procs t p) = 0"
    using t(6,7) assms(5) by simp_all
  have "\<exists>u. syscall pol lk junk t' = Ret () u \<and> kpool u A \<and> p_alarm_status (procs u p) = 0 \<and> p_current_ticks (procs u p) = 0 \<and>
        (\<forall>f. tf_get f p u = (if f = TF_a0 then 0 else tf_get f p s))" if "user_ran p U t t'" "tf_get TF_a7 p t' = 25" for t'
    using handler_returns [OF assms(3,6) t(2-5) c(1,2) t(8) that, of pol lk junk] unfolding c(3) by blast
  then show ?thesis using t(1,7,9) by auto
qed

definition alarm_demo :: flstate where
  "alarm_demo = (file_boot (\<lambda>_ _. 0) ())\<lparr>mem := store64 0x80301018 0x1234 (\<lambda>_. 0), freelist := 0x80300000,
     procs := (\<lambda>_. zero_proc\<lparr>p_trapframe := 0x80301000, p_ticks_of_alarm := 2, p_current_ticks := 1, p_alarm_status := 0,
       p_handling_alarm := 0x40\<rparr>)\<rparr>"

lemma alarm_demo_simps: "procs alarm_demo 0 = zero_proc\<lparr>p_trapframe := 0x80301000, p_ticks_of_alarm := 2, p_current_ticks := 1,
    p_alarm_status := 0, p_handling_alarm := 0x40\<rparr>" "kend alarm_demo = 0x80021d60" "mem alarm_demo = store64 0x80301018 0x1234 (\<lambda>_. 0)"
  by (simp_all add: alarm_demo_def)

lemma alarm_demo_calm: "calm 0 alarm_demo"
proof -
  have "mach alarm_demo = mach (file_boot (\<lambda>_ _. 0) ())" by (simp add: alarm_demo_def mach_def)
  from calm_cong [OF this] show ?thesis by (simp add: file_boot_calm)
qed

lemma alarm_demo_pool: "kpool alarm_demo {0x80300000}"
proof -
  have "load64 (mem alarm_demo) 0x80300000 = load64 (\<lambda>_. 0) 0x80300000"
    unfolding alarm_demo_simps by (intro load64_store64_other disjoint_rangesI) simp_all
  also have "\<dots> = 0" by (rule load64_zero)
  finally have "kmem_inv alarm_demo [0x80300000]"
    by (simp add: kmem_inv_def alarm_demo_simps page_ok_def PGSIZE_def PHYSTOP_def KERNBASE_def) (simp add: alarm_demo_def)
  then have "\<exists>ps. kmem_inv alarm_demo ps \<and> set ps = {0x80300000}" by (intro exI [of _ "[0x80300000]"]) simp
  then show ?thesis using calmD [OF alarm_demo_calm] by (simp add: kpool_def)
qed

theorem alarm_roundtrip_witness:
  "\<exists>t. alarm_tick 0 alarm_demo = Ret () t \<and> tf_get TF_epc 0 t = 0x40 \<and>
    (\<exists>u. syscall DEFAULT \<lparr>sym_trampoline = 0, sym_forkret = 0, sym_usertrap = 0, sym_uservec = 0, sym_userret = 0, sym_kernelvec = 0\<rparr>
        (0, 0) (tf_set TF_a7 25 0 t) = Ret () u \<and> tf_get TF_epc 0 u = 0x1234 \<and> tf_get TF_a0 0 u = 0)"
proof -
  let ?lk = "\<lparr>sym_trampoline = 0, sym_forkret = 0, sym_usertrap = 0, sym_uservec = 0, sym_userret = 0, sym_kernelvec = 0\<rparr>"
  have tf: "page_ok (kend alarm_demo) (p_trapframe (procs alarm_demo 0))"
    by (simp add: alarm_demo_simps page_ok_def PGSIZE_def PHYSTOP_def KERNBASE_def)
  then have ok: "tf_ok 0 {0x80300000} alarm_demo" by (simp add: tf_ok_def alarm_demo_simps)
  have own: "page_ok (kend alarm_demo) q \<and> q \<notin> {0x80300000}" if "q \<in> {0x80302000}" for q
    using that by (simp add: alarm_demo_simps page_ok_def PGSIZE_def PHYSTOP_def KERNBASE_def)
  have due: "alarm_due (procs alarm_demo 0)"
 by (simp add: alarm_due_def alarm_demo_simps wrap32_def)
  have epc: "tf_get TF_epc 0 alarm_demo = 0x1234" by (simp add: tf_get_def alarm_demo_simps load64_store64)
  obtain t where t: "alarm_tick 0 alarm_demo = Ret () t"
    "\<forall>f. tf_get f 0 t = (if f = TF_epc then p_handling_alarm (procs alarm_demo 0) else tf_get f 0 alarm_demo)"
    and bk: "\<forall>t'. user_ran 0 {0x80302000} t t' \<longrightarrow> tf_get TF_a7 0 t' = 25 \<longrightarrow>
      (\<exists>u. syscall DEFAULT ?lk (0, 0) t' = Ret () u \<and> kpool u {0x80300000} \<and> p_alarm_status (procs u 0) = 0 \<and>
        p_current_ticks (procs u 0) = 0 \<and> (\<forall>f. tf_get f 0 u = (if f = TF_a0 then 0 else tf_get f 0 alarm_demo)))"
    by (rule exE [OF alarm_roundtrip [OF alarm_demo_pool insert_not_empty ok due calmD(3) [OF alarm_demo_calm],
          of "{0x80302000}" DEFAULT ?lk "(0, 0)"]]) (rule own, assumption, elim conjE, rule that)
  obtain a t0 where "alarm_tick 0 alarm_demo = Ret () t0" "p_trapframe (procs t0 0) = p_trapframe (procs alarm_demo 0)"
    by (rule alarm_fires [OF alarm_demo_pool insert_not_empty ok due]) (simp add: that)

  then have pt: "p_trapframe (procs t 0) = p_trapframe (procs alarm_demo 0)" using t(1) by simp
  have "user_ran 0 {0x80302000} t (tf_set TF_a7 25 0 t)"

    unfolding user_ran_def tf_set_def using tf_field(3) [OF tf, of _ TF_a7] pt
    by (intro exI [of _ "store64 (p_trapframe (procs t 0) + tf_off TF_a7) 25 (mem t)"]) (auto simp: store64_eq)
  moreover have "tf_get TF_a7 0 (tf_set TF_a7 25 0 t) = 25" using tf_get_set [of "kend alarm_demo" t 0] tf pt by simp
  ultimately show ?thesis using t bk epc by (auto simp: alarm_demo_simps)
qed

end
