(* ===== verification/Ulib.thy ===== *)
theory Ulib
  imports Printf Cstring
begin

text \<open>
  The C library of the user programs, \<^verbatim>\<open>user/ulib.c\<close> and \<^verbatim>\<open>user/printf.c\<close>.  The string and
  memory routines work on the byte memory of the process; a loop that runs until it meets a zero
  byte does not return when there is none.  \<open>printf\<close> is the list of bytes it writes, one
  \<^verbatim>\<open>write\<close> per byte.
\<close>

text \<open>The first character of a C string given as the list of its bytes, the terminating zero when it is empty.\<close>

definition at0 :: "byte list \<Rightarrow> byte" where
  "at0 p = (case p of [] \<Rightarrow> 0 | c # _ \<Rightarrow> c)"

lemma at0_simps [simp]: "at0 [] = 0" "at0 (c # p) = c"
  by (simp_all add: at0_def)

section \<open>Strings and memory\<close>

partial_function (option) u_strcpy :: "uint64 \<Rightarrow> uint64 \<Rightarrow> mem \<Rightarrow> mem option" where
  [code]: "u_strcpy s t m =
     (let m' = m(s := m t) in if m t \<noteq> 0 then u_strcpy (s + 1) (t + 1) m' else Some m')"

partial_function (option) u_strcmp :: "uint64 \<Rightarrow> uint64 \<Rightarrow> mem \<Rightarrow> int option" where
  [code]: "u_strcmp p q m =
     (if m p \<noteq> 0 \<and> m p = m q then u_strcmp (p + 1) (q + 1) m else Some (uint (m p) - uint (m q)))"

partial_function (option) u_strlen_from :: "uint64 \<Rightarrow> nat \<Rightarrow> mem \<Rightarrow> nat option" where
  [code]: "u_strlen_from s n m = (if m (s + of_nat n) \<noteq> 0 then u_strlen_from s (n + 1) m else Some n)"

definition u_strlen :: "uint64 \<Rightarrow> mem \<Rightarrow> nat option" where
  "u_strlen s m = u_strlen_from s 0 m"

definition u_memset :: "uint64 \<Rightarrow> byte \<Rightarrow> nat \<Rightarrow> mem \<Rightarrow> mem" where
  "u_memset dst c n m = fold (\<lambda>i m. m(dst + of_nat i := c)) [0..<n] m"

text \<open>The null pointer when the character does not occur.\<close>

partial_function (option) u_strchr :: "uint64 \<Rightarrow> byte \<Rightarrow> mem \<Rightarrow> uint64 option" where
  [code]: "u_strchr s c m = (if m s = 0 then Some 0 else if m s = c then Some s else u_strchr (s + 1) c m)"

partial_function (option) atoi_loop :: "uint64 \<Rightarrow> int \<Rightarrow> mem \<Rightarrow> int option" where
  [code]: "atoi_loop s n m =
     (if ch CHR ''0'' \<le> m s \<and> m s \<le> ch CHR ''9''
      then atoi_loop (s + 1) (wrap32 (n * 10 + uint (m s) - uint (ch CHR ''0''))) m else Some n)"

definition atoi :: "uint64 \<Rightarrow> mem \<Rightarrow> int option" where
  "atoi s m = atoi_loop s 0 m"

definition u_memmove :: "uint64 \<Rightarrow> uint64 \<Rightarrow> int \<Rightarrow> mem \<Rightarrow> mem" where
  "u_memmove dst src n m =
     (if src > dst then copy_up dst src (nat n) m
      else copy_down (dst + of_int n) (src + of_int n) (nat n) m)"

fun u_memcmp :: "uint64 \<Rightarrow> uint64 \<Rightarrow> nat \<Rightarrow> mem \<Rightarrow> int" where
  "u_memcmp p1 p2 0 m = 0"
| "u_memcmp p1 p2 (Suc n) m =
     (if m p1 \<noteq> m p2 then uint (m p1) - uint (m p2) else u_memcmp (p1 + 1) (p2 + 1) n m)"

definition u_memcpy :: "uint64 \<Rightarrow> uint64 \<Rightarrow> uint \<Rightarrow> mem \<Rightarrow> mem" where
  "u_memcpy dst src n m = u_memmove dst src (sint n) m"

text \<open>
  \<open>gets\<close> reads single bytes with \<open>rd\<close>, the system call \<^verbatim>\<open>read(0, &c, 1)\<close>, which yields no byte
  at the end of the input or after an error.  The result is what is stored from \<^verbatim>\<open>buf\<close> on.
\<close>

fun gets_loop :: "('s \<Rightarrow> byte option \<times> 's) \<Rightarrow> nat \<Rightarrow> byte list \<Rightarrow> 's \<Rightarrow> byte list \<times> 's" where
  "gets_loop rd 0 acc s = (acc, s)"
| "gets_loop rd (Suc k) acc s =
     (case rd s of
        (None, s) \<Rightarrow> (acc, s)
      | (Some c, s) \<Rightarrow> if c = 10 \<or> c = 13 then (acc @ [c], s) else gets_loop rd k (acc @ [c]) s)"

definition gets :: "('s \<Rightarrow> byte option \<times> 's) \<Rightarrow> int \<Rightarrow> 's \<Rightarrow> byte list \<times> 's" where
  "gets rd max_len s = (let (bs, s) = gets_loop rd (nat (max_len - 1)) [] s in (bs @ [0], s))"

section \<open>Formatted output\<close>

definition u_digits :: "nat \<Rightarrow> byte" where
  "u_digits k = str ''0123456789ABCDEF'' ! k"

text \<open>The digit loop of \<open>printint\<close>, least significant digit first; the bases are 10 and 16.\<close>

function u_print_digits :: "nat \<Rightarrow> nat \<Rightarrow> byte list" where
  "u_print_digits base x =
     u_digits (x mod base) # (if x div base = 0 \<or> base < 2 then [] else u_print_digits base (x div base))"
  by auto
termination
proof (relation "measure snd")
  fix base x :: nat
  assume "\<not> (x div base = 0 \<or> base < 2)"
  then have "0 < x" "1 < base" by (auto intro: ccontr)
  then show "((base, x div base), (base, x)) \<in> measure snd" by (simp add: div_less_dividend)
qed simp

declare u_print_digits.simps [simp del]

definition u_printint :: "int \<Rightarrow> nat \<Rightarrow> bool \<Rightarrow> byte list" where
  "u_printint xx base sg =
     (let neg = (sg \<and> xx < 0);
          x = (if neg then of_int (- xx) else of_int xx) :: uint;
          buf = u_print_digits base (unat x) @ (if neg then [ch CHR ''-''] else [])
      in rev buf)"

definition u_printptr :: "uint64 \<Rightarrow> byte list" where
  "u_printptr x = str ''0x'' @ map (\<lambda>i. u_digits (unat (drop_bit 60 (push_bit (4 * i) x)))) [0..<16]"

text \<open>
  The variable arguments.  \<^verbatim>\<open>%l\<close> takes a \<^verbatim>\<open>uint64\<close> and passes it to \<open>printint\<close> as an \<^verbatim>\<open>int\<close>.  An
  argument of the wrong type, or a missing one, is undefined behaviour.
\<close>

datatype u_arg = A_int int | A_u64 uint64 | A_str "byte list option" | A_uint uint

fun vprintf :: "byte list \<Rightarrow> bool \<Rightarrow> u_arg list \<Rightarrow> byte list option" where
  "vprintf [] percent ap = Some []"
| "vprintf (c # fmt) percent ap =
     (if c = 0 then Some []
      else if \<not> percent then
        (if c = ch CHR ''%'' then vprintf fmt True ap else map_option ((#) c) (vprintf fmt False ap))
      else if c = ch CHR ''d'' then
        (case ap of A_int v # ap \<Rightarrow> map_option ((@) (u_printint v 10 True)) (vprintf fmt False ap) | _ \<Rightarrow> None)
      else if c = ch CHR ''l'' then
        (case ap of A_u64 v # ap \<Rightarrow>
             map_option ((@) (u_printint (sint (ucast v :: uint)) 10 False)) (vprintf fmt False ap) | _ \<Rightarrow> None)
      else if c = ch CHR ''x'' then
        (case ap of A_int v # ap \<Rightarrow> map_option ((@) (u_printint v 16 False)) (vprintf fmt False ap) | _ \<Rightarrow> None)
      else if c = ch CHR ''p'' then
        (case ap of A_u64 v # ap \<Rightarrow> map_option ((@) (u_printptr v)) (vprintf fmt False ap) | _ \<Rightarrow> None)
      else if c = ch CHR ''s'' then
        (case ap of A_str v # ap \<Rightarrow>
             map_option ((@) (case v of None \<Rightarrow> str ''(null)'' | Some b \<Rightarrow> b)) (vprintf fmt False ap) | _ \<Rightarrow> None)
      else if c = ch CHR ''c'' then
        (case ap of A_uint v # ap \<Rightarrow> map_option ((#) (ucast v)) (vprintf fmt False ap) | _ \<Rightarrow> None)
      else if c = ch CHR ''%'' then map_option ((#) c) (vprintf fmt False ap)
      else map_option ((@) [ch CHR ''%'', c]) (vprintf fmt False ap))"

text \<open>\<open>fprintf\<close> and \<open>printf\<close>: the file descriptor and the bytes written to it.\<close>

definition fprintf :: "int \<Rightarrow> byte list \<Rightarrow> u_arg list \<Rightarrow> (int \<times> byte list) option" where
  "fprintf fd fmt ap = map_option (Pair fd) (vprintf fmt False ap)"

definition u_printf :: "byte list \<Rightarrow> u_arg list \<Rightarrow> (int \<times> byte list) option" where
  "u_printf fmt ap = map_option (Pair 1) (vprintf fmt False ap)"

section \<open>Moving memory\<close>

text \<open>
  The two \<open>memmove\<close> routines, which choose the direction of the copy by different tests, have
  the same effect, also when the ranges overlap.
\<close>

theorem memmove_agrees:
  assumes "unat dst + n \<le> 2 ^ 64" "unat src + n \<le> 2 ^ 64"
  shows "u_memmove dst src (int n) m = memmove dst src n m"
proof
  fix x
  show "u_memmove dst src (int n) m x = memmove dst src n m x"
  proof (cases "dst < src")
    case True
    then show ?thesis using copy_up_eq [OF assms, of m x] memmove_eq [OF assms] by (simp add: u_memmove_def word_less_nat_alt)
  next
    case False
    then show ?thesis using copy_down_eq [OF assms, of m x] memmove_eq [OF assms] by (simp add: u_memmove_def word_less_nat_alt)
  qed
qed

theorem memmove_agrees_witness:
  "u_memmove 0x1002 0x1000 (int 8) (\<lambda>a. ucast a) = memmove 0x1002 0x1000 8 (\<lambda>a. ucast a)"
  by (rule memmove_agrees) simp_all

section \<open>Numbers\<close>

text \<open>The decimal digits of a number, most significant first, and the number they stand for.\<close>

fun decimal :: "nat \<Rightarrow> nat list" where
  "decimal x = (if x < 10 then [x] else decimal (x div 10) @ [x mod 10])"

declare decimal.simps [simp del]

definition number :: "int \<Rightarrow> nat list \<Rightarrow> int" where
  "number = foldl (\<lambda>n d. 10 * n + int d)"

lemma number_simps [simp]: "number n [] = n" "number n (d # ds) = number (10 * n + int d) ds"
  "number n (ds @ [d]) = 10 * number n ds + int d"
  by (simp_all add: number_def)

lemma number_decimal: "number 0 (decimal x) = int x" "set (decimal x) \<subseteq> {..<10}"
proof (induction x rule: decimal.induct)
  case (1 x)
  have d: "10 * int (x div 10) + int (x mod 10) = int x" by (metis of_nat_add of_nat_mult of_nat_numeral mult_div_mod_eq)
  case 1
  show ?case using "1.IH"(1) d by (subst decimal.simps) auto
  case 2
  show ?case using "1.IH"(2) by (subst decimal.simps) auto
qed

lemma number_mono: "0 \<le> n \<Longrightarrow> n \<le> number n ds"
proof (induction ds arbitrary: n)
  case (Cons d ds)
  have "10 * n + int d \<le> number (10 * n + int d) ds" by (rule Cons.IH) (use Cons.prems in simp)
  then show ?case using Cons.prems by simp
qed simp

lemma digit_char:
  assumes "d < 10"
  shows "ch CHR ''0'' \<le> u_digits d \<and> u_digits d \<le> ch CHR ''9''" "uint (u_digits d) - uint (ch CHR ''0'') = int d"
proof -
  have "d \<in> {0, 1, 2, 3, 4, 5, 6, 7, 8, 9}" using assms by auto
  then show "ch CHR ''0'' \<le> u_digits d \<and> u_digits d \<le> ch CHR ''9''" "uint (u_digits d) - uint (ch CHR ''0'') = int d"
    by (auto simp: u_digits_def str_def)
qed

lemma print_decimal: "rev (u_print_digits 10 x) = map u_digits (decimal x)"
proof (induction x rule: decimal.induct)
  case (1 x)
  then show ?case by (subst u_print_digits.simps, subst decimal.simps) auto
qed

lemma atoi_loop_number:
  assumes "\<And>i. i < length ds \<Longrightarrow> m (s + of_nat i) = u_digits (ds ! i)" "set ds \<subseteq> {..<10}"
    "\<not> (ch CHR ''0'' \<le> m (s + of_nat (length ds)) \<and> m (s + of_nat (length ds)) \<le> ch CHR ''9'')"
    "0 \<le> n" "number n ds < 2 ^ 31"
  shows "atoi_loop s n m = Some (number n ds)"
  using assms
proof (induction ds arbitrary: s n)
  case Nil
  then show ?case by (subst atoi_loop.simps) auto
next
  case (Cons d ds)
  have d: "d < 10" "m s = u_digits d" using Cons.prems(1) [of 0] Cons.prems(2) by simp_all
  have e: "n * 10 + uint (m s) - uint (ch CHR ''0'') = 10 * n + int d" using digit_char(2) [OF d(1)] d(2) by simp
  have "10 * n + int d \<le> number (10 * n + int d) ds" using Cons.prems(4) by (intro number_mono) simp
  then have w: "wrap32 (10 * n + int d) = 10 * n + int d" using Cons.prems(4,5) by (intro wrap32_id) (simp add: int32_def)
  have "atoi_loop (s + 1) (10 * n + int d) m = Some (number (10 * n + int d) ds)"
  proof (rule Cons.IH)
    show "m (s + 1 + of_nat i) = u_digits (ds ! i)" if "i < length ds" for i
      using Cons.prems(1) [of "Suc i"] that by (simp add: add.assoc)
  qed (use Cons.prems in \<open>auto simp: add.assoc\<close>)
  moreover have "ch CHR ''0'' \<le> m s \<and> m s \<le> ch CHR ''9''" using d digit_char(1) by simp
  ultimately show ?case unfolding atoi_loop.simps [of s n m] e w by simp
qed

text \<open>
  C40: \<open>atoi\<close> reads back what \<^verbatim>\<open>printf("%d", n)\<close> has written, for every non-negative \<^verbatim>\<open>int\<close>: for a
  memory that holds these bytes at \<open>s\<close>, followed by a byte that is no digit, it returns \<open>n\<close>.
\<close>

theorem atoi_printf:
  assumes "n < 2 ^ 31" "vprintf (str ''%d'') False [A_int (int n)] = Some bs"
    "\<And>i. i < length bs \<Longrightarrow> m (s + of_nat i) = bs ! i"
    "\<not> (ch CHR ''0'' \<le> m (s + of_nat (length bs)) \<and> m (s + of_nat (length bs)) \<le> ch CHR ''9'')"
  shows "atoi s m = Some (int n)"
proof -
  have "unat (word_of_nat n :: uint) = n" using assms(1) by (simp add: unat_of_nat)
  then have "u_printint (int n) 10 True = rev (u_print_digits 10 n)" by (simp add: u_printint_def)
  then have bs: "bs = map u_digits (decimal n)" using assms(2) print_decimal by (simp add: str_def)
  have "atoi_loop s 0 m = Some (number 0 (decimal n))"
    by (rule atoi_loop_number) (use assms(1,3,4) number_decimal [of n] in \<open>auto simp: bs\<close>)
  then show ?thesis by (simp add: atoi_def number_decimal(1))
qed

theorem atoi_printf_witness:
  "vprintf (str ''%d'') False [A_int (int 407)] = Some [52, 48, 55] \<and>
   atoi 0x1000 ((\<lambda>_. 0)(0x1000 := 52, 0x1001 := 48, 0x1002 := 55)) = Some (int 407)"
proof -
  have p: "vprintf (str ''%d'') False [A_int (int 407)] = Some [52, 48, 55]"
    by (simp add: str_def u_printint_def u_print_digits.simps u_digits_def)
  moreover have "atoi 0x1000 ((\<lambda>_. 0)(0x1000 := 52, 0x1001 := 48, 0x1002 := 55)) = Some (int 407)"
    by (rule atoi_printf [OF _ p]) (auto simp: less_Suc_eq)
  ultimately show ?thesis by blast
qed

end
