(* ===== verification/Grep.thy ===== *)
theory Grep
  imports Ulib
begin

text \<open>
  \<^verbatim>\<open>user/grep.c\<close>: the regular-expression matcher and the loop over the lines of a file.  A C string
  is the list of its bytes without the terminating zero.
\<close>

section \<open>The matcher\<close>

function matchhere :: "byte list \<Rightarrow> byte list \<Rightarrow> bool" and matchstar :: "byte \<Rightarrow> byte list \<Rightarrow> byte list \<Rightarrow> bool" where
  "matchhere re text =
     (if at0 re = 0 then True
      else if at0 (tl re) = ch CHR ''*'' then matchstar (at0 re) (tl (tl re)) text
      else if at0 re = ch CHR ''$'' \<and> at0 (tl re) = 0 then at0 text = 0
      else if at0 text \<noteq> 0 \<and> (at0 re = ch CHR ''.'' \<or> at0 re = at0 text) then matchhere (tl re) (tl text)
      else False)"
| "matchstar c re text =
     (if matchhere re text then True
      else if at0 text \<noteq> 0 \<and> (at0 text = c \<or> c = ch CHR ''.'') then matchstar c re (tl text)
      else False)"
  by pat_completeness auto
termination
  by (relation "inv_image (less_than <*lex*> less_than <*lex*> less_than)
      (case_sum (\<lambda>(re, text). (length re, length text, 0)) (\<lambda>(c, re, text). (length re, length text, 1)))")
    (auto simp: at0_def split: list.splits)

declare matchhere.simps [simp del] matchstar.simps [simp del]

lemma at0_shorter [termination_simp]: "at0 p \<noteq> 0 \<Longrightarrow> length p - Suc 0 < length p"
  by (cases p) (simp_all add: at0_def)

fun match_from :: "byte list \<Rightarrow> byte list \<Rightarrow> bool" where
  "match_from re text =
     (if matchhere re text then True else if at0 text \<noteq> 0 then match_from re (tl text) else False)"

declare match_from.simps [simp del]

definition match :: "byte list \<Rightarrow> byte list \<Rightarrow> bool" where
  "match re text = (if at0 re = ch CHR ''^'' then matchhere (tl re) text else match_from re text)"

section \<open>Lines\<close>

text \<open>\<open>strchr(p, '\n')\<close> as an offset: the first newline, if no zero byte comes before it.\<close>

fun newline_at :: "byte list \<Rightarrow> nat option" where
  "newline_at [] = None"
| "newline_at (c # p) = (if c = 0 then None else if c = 10 then Some 0 else map_option Suc (newline_at p))"

lemma newline_at_less: "newline_at p = Some i \<Longrightarrow> i < length p"
  by (induction p arbitrary: i) (auto split: if_splits)

lemma after_newline [termination_simp]: "newline_at p = Some i \<Longrightarrow> length p - Suc i < length p"
  using newline_at_less [of p i] by simp

text \<open>The inner loop of \<open>grep\<close>: what it writes, and the incomplete line it leaves.\<close>

fun grep_lines :: "byte list \<Rightarrow> byte list \<Rightarrow> byte list list \<times> byte list" where
  "grep_lines pattern p =
     (case newline_at p of
        None \<Rightarrow> ([], p)
      | Some q \<Rightarrow>
          let (out, p') = grep_lines pattern (drop (Suc q) p)
          in ((if match pattern (take q p) then take (Suc q) p # out else out), p'))"

declare grep_lines.simps [simp del]

text \<open>
  \<open>grep\<close> with \<open>rd s k\<close> for \<^verbatim>\<open>read(fd, .., k)\<close>: the bytes read, none at the end of the file or after an
  error.  The result is the list of the \<^verbatim>\<open>write\<close>s to the standard output.  The buffer has 1024
  bytes.
\<close>

partial_function (option) grep ::
  "('s \<Rightarrow> nat \<Rightarrow> byte list \<times> 's) \<Rightarrow> byte list \<Rightarrow> byte list \<Rightarrow> 's \<Rightarrow> (byte list list \<times> 's) option" where
  [code]: "grep rd pattern m s =
     (case rd s (1024 - length m - 1) of
        (bs, s) \<Rightarrow>
          if bs = [] then Some ([], s)
          else case grep_lines pattern (m @ bs) of (out, m) \<Rightarrow>
            Option.bind (grep rd pattern m s) (\<lambda>(outs, s). Some (out @ outs, s)))"

section \<open>What the matcher matches\<close>

text \<open>
  The reference: a pattern is a sequence of single characters, repeated characters and at the end
  possibly an end-of-line mark; each stands for a set of strings.
\<close>

datatype atom = Any | Lit byte

datatype item = One atom | Many atom | Eol

definition atom_of :: "byte \<Rightarrow> atom" where
  "atom_of c = (if c = ch CHR ''.'' then Any else Lit c)"

fun items :: "byte list \<Rightarrow> item list" where
  "items [] = []"
| "items [c] = (if c = ch CHR ''$'' then [Eol] else [One (atom_of c)])"
| "items (c # d # re) = (if d = ch CHR ''*'' then Many (atom_of c) # items re else One (atom_of c) # items (d # re))"

fun reads :: "atom \<Rightarrow> byte \<Rightarrow> bool" where
  "reads Any c = True"
| "reads (Lit a) c = (c = a)"

fun lang :: "item list \<Rightarrow> byte list set" where
  "lang [] = {[]}"
| "lang (One a # is) = {c # w | c w. reads a c \<and> w \<in> lang is}"
| "lang (Many a # is) = {u @ w | u w. (\<forall>c \<in> set u. reads a c) \<and> w \<in> lang is}"
| "lang (Eol # is) = lang is"

text \<open>A match at the start of the text, and anywhere in it.\<close>

definition starts :: "item list \<Rightarrow> byte list \<Rightarrow> bool" where
  "starts is text \<longleftrightarrow> (\<exists>u v. text = u @ v \<and> u \<in> lang is \<and> (Eol \<in> set is \<longrightarrow> v = []))"

definition occurs :: "byte list \<Rightarrow> byte list \<Rightarrow> bool" where
  "occurs re text \<longleftrightarrow>
     (if at0 re = ch CHR ''^'' then starts (items (tl re)) text else \<exists>u v. text = u @ v \<and> starts (items re) v)"

lemma starts_simps:
  "starts [] text" "starts [Eol] text \<longleftrightarrow> text = []"
  by (simp_all add: starts_def)

lemma starts_One: "starts (One a # is) text \<longleftrightarrow> (\<exists>c t. text = c # t \<and> reads a c \<and> starts is t)"
proof
  assume "starts (One a # is) text"
  then obtain x v where x: "text = x @ v" "x \<in> lang (One a # is)" "Eol \<in> set is \<longrightarrow> v = []"
    unfolding starts_def by auto
  then obtain c u where "text = c # (u @ v)" "reads a c" "u \<in> lang is" by auto
  note x(3) this
  then show "\<exists>c t. text = c # t \<and> reads a c \<and> starts is t" unfolding starts_def by blast
next
  assume "\<exists>c t. text = c # t \<and> reads a c \<and> starts is t"
  then obtain c u v where "text = (c # u) @ v" "reads a c" "u \<in> lang is" "Eol \<in> set is \<longrightarrow> v = []"
    unfolding starts_def by (metis append_Cons)
  then show "starts (One a # is) text" unfolding starts_def by (intro exI [of _ "c # u"] exI [of _ v]) simp
qed

lemma starts_ManyE:
  assumes "starts (Many a # is) text"
  obtains u w v where "text = u @ w @ v" "\<forall>c \<in> set u. reads a c" "w \<in> lang is" "Eol \<in> set is \<longrightarrow> v = []"
proof -
  obtain x v where x: "text = x @ v" "x \<in> lang (Many a # is)" "Eol \<in> set (Many a # is) \<longrightarrow> v = []"
    using assms unfolding starts_def by blast
  obtain u w where "x = u @ w" "\<forall>c \<in> set u. reads a c" "w \<in> lang is" using x(2) by auto
  then show thesis using that [of u w v] x by simp
qed

lemma starts_ManyI:
  assumes "\<forall>c \<in> set u. reads a c" "w \<in> lang is" "Eol \<in> set is \<longrightarrow> v = []"
  shows "starts (Many a # is) (u @ w @ v)"
proof -
  have "u @ w \<in> lang (Many a # is)" using assms(1,2) by auto
  then show ?thesis unfolding starts_def using assms(3) by (intro exI [of _ "u @ w"] exI [of _ v]) simp
qed

lemma starts_Many: "starts (Many a # is) text \<longleftrightarrow> starts is text \<or> (\<exists>c t. text = c # t \<and> reads a c \<and> starts (Many a # is) t)"
proof
  assume "starts (Many a # is) text"
  then obtain u w v where "text = u @ w @ v" "\<forall>c \<in> set u. reads a c" "w \<in> lang is" "Eol \<in> set is \<longrightarrow> v = []"
    by (rule starts_ManyE)
  note w = this
  show "starts is text \<or> (\<exists>c t. text = c # t \<and> reads a c \<and> starts (Many a # is) t)"
  proof (cases u)
    case Nil
    then have "starts is text" unfolding starts_def using w by (intro exI [of _ w] exI [of _ v]) simp
    then show ?thesis ..
  next
    case (Cons c u')
    then have "starts (Many a # is) (u' @ w @ v)" using w by (intro starts_ManyI) auto
    then show ?thesis using Cons w by auto
  qed

next
  assume "starts is text \<or> (\<exists>c t. text = c # t \<and> reads a c \<and> starts (Many a # is) t)"
  then show "starts (Many a # is) text"
  proof (elim disjE exE conjE)
    assume "starts is text"
    then obtain w v where "text = w @ v" "w \<in> lang is" "Eol \<in> set is \<longrightarrow> v = []" unfolding starts_def by blast
    then show ?thesis using starts_ManyI [of "[]"] by simp
  next
    fix c t
    assume t: "text = c # t" "reads a c" "starts (Many a # is) t"
    obtain u w v where "t = u @ w @ v" "\<forall>c \<in> set u. reads a c" "w \<in> lang is" "Eol \<in> set is \<longrightarrow> v = []"
      by (rule starts_ManyE [OF t(3)])
    then show ?thesis using t(1,2) starts_ManyI [of "c # u"] by simp
  qed
qed

lemma matchhere_starts:
  "0 \<notin> set re \<Longrightarrow> 0 \<notin> set t \<Longrightarrow> matchhere re t = starts (items re) t"
  "0 \<notin> set re \<Longrightarrow> 0 \<notin> set t \<Longrightarrow> matchstar c re t = starts (Many (atom_of c) # items re) t"
proof (induction re t and c re t rule: matchhere_matchstar.induct)
  case (1 re t)
  show ?case
  proof (cases re rule: items.cases)
    case 1
    then show ?thesis by (subst matchhere.simps) (simp add: at0_def starts_simps)
  next
    case (2 c)
    then show ?thesis using 1 by (subst matchhere.simps) (cases t; auto simp: at0_def starts_simps starts_One atom_of_def)
  next
    case (3 c d re')
    then show ?thesis using 1 by (subst matchhere.simps) (cases t; auto simp: at0_def starts_simps starts_One atom_of_def)
  qed

next
  case (2 c re t)
  then show ?case by (subst matchstar.simps, subst starts_Many) (cases t; auto simp: at0_def atom_of_def)
qed

lemma match_from_iff:
  assumes "0 \<notin> set re" "0 \<notin> set t"
  shows "match_from re t \<longleftrightarrow> (\<exists>u v. t = u @ v \<and> starts (items re) v)"
  using assms(2)
proof (induction t)
  case Nil
  then show ?case using assms(1) by (subst match_from.simps) (simp add: at0_def matchhere_starts(1))
next
  case (Cons c t)
  then have "match_from re (c # t) \<longleftrightarrow> starts (items re) (c # t) \<or> (\<exists>u v. t = u @ v \<and> starts (items re) v)"
    using assms(1) by (subst match_from.simps) (auto simp: at0_def matchhere_starts(1))
  also have "\<dots> \<longleftrightarrow> (\<exists>u v. c # t = u @ v \<and> starts (items re) v)" by (auto simp: Cons_eq_append_conv)
  finally show ?case .
qed

lemma match_occurs:
  assumes "0 \<notin> set re" "0 \<notin> set t"
  shows "match re t \<longleftrightarrow> occurs re t"
proof (cases re)
  case (Cons c re')
  then show ?thesis using assms match_from_iff [OF assms] by (simp add: match_def occurs_def at0_def matchhere_starts(1))
qed (use match_from_iff [OF assms] in \<open>simp add: match_def occurs_def at0_def\<close>)

text \<open>
  C36: the matcher of \<open>grep\<close>, which tries the pattern at every position and backtracks over the
  length of every repetition, accepts exactly the texts that contain a string of the language of
  the pattern: anywhere, only at the start after \<open>^\<close>, only at the end before \<open>$\<close>.
\<close>

theorem match_correct:
  assumes "0 \<notin> set re" "0 \<notin> set t"
  shows "match re t = occurs re t"
  using match_occurs [OF assms] .

theorem match_correct_witness:
  "match (str ''ab*c$'') (str ''xabbc'') \<and> occurs (str ''ab*c$'') (str ''xabbc'') \<and>
   \<not> match (str ''^b.'') (str ''abc'') \<and> \<not> occurs (str ''^b.'') (str ''abc'')"
proof -
  have z: "0 \<notin> set (str ''ab*c$'')" "0 \<notin> set (str ''xabbc'')" "0 \<notin> set (str ''^b.'')" "0 \<notin> set (str ''abc'')" by (simp_all add: str_def)
  have "match (str ''ab*c$'') (str ''xabbc'')" "\<not> match (str ''^b.'') (str ''abc'')"
    by (simp_all add: str_def match_def match_from.simps matchhere.simps matchstar.simps at0_def)
  then show ?thesis using match_correct [OF z(1,2)] match_correct [OF z(3,4)] by blast
qed

section \<open>What \<open>grep\<close> prints\<close>

text \<open>The complete lines of a text without their newlines, and what follows the last newline.\<close>

fun split_lines :: "byte list \<Rightarrow> byte list list \<times> byte list" where
  "split_lines [] = ([], [])"
| "split_lines (c # p) =
     (case split_lines p of (ls, r) \<Rightarrow>
        if c = 10 then ([] # ls, r) else case ls of [] \<Rightarrow> ([], c # r) | l # ls \<Rightarrow> ((c # l) # ls, r))"

lemma split_no_newline: "10 \<notin> set m \<Longrightarrow> split_lines m = ([], m)"
  by (induction m) simp_all

lemma split_rest_no_newline: "10 \<notin> set (snd (split_lines p))"
  by (induction p) (auto split: prod.splits list.splits)

lemma split_rest_subset: "set (snd (split_lines p)) \<subseteq> set p"
  by (induction p) (auto split: prod.splits list.splits)

lemma split_append: "split_lines
 (p @ q) =
  (fst (split_lines p) @ fst (split_lines (snd (split_lines p) @ q)), snd (split_lines (snd (split_lines p) @ q)))"
  by (induction p) (auto split: prod.splits list.splits)

lemma split_first: "newline_at p = Some i \<Longrightarrow> split_lines p =
    (take i p # fst (split_lines (drop (Suc i) p)), snd (split_lines (drop (Suc i) p)))"
  by (induction p arbitrary: i) (auto split: if_splits prod.splits)

lemma newline_None: "newline_at p = None \<Longrightarrow> 0 \<notin> set p \<Longrightarrow> 10 \<notin> set p"
  by (induction p) (auto split: if_splits)

lemma split_prepend: "10 \<notin> set m \<Longrightarrow> split_lines (m @ r) =
    (case split_lines r of (ls, r) \<Rightarrow> case ls of [] \<Rightarrow> ([], m @ r) | l # ls \<Rightarrow> ((m @ l) # ls, r))"
  by (induction m) (auto split: prod.splits list.splits)

text \<open>All lines fit into the buffer of \<open>grep\<close>, together with a newline and a zero byte.\<close>

definition short_lines :: "byte list \<Rightarrow> bool" where
  "short_lines p \<longleftrightarrow> (\<forall>l \<in> set (snd (split_lines p) # fst (split_lines p)). length l \<le> 1022)"

lemma short_prefix: "10 \<notin> set m \<Longrightarrow> short_lines (m @ r) \<Longrightarrow> length m \<le> 1022"
  by (auto simp: short_lines_def split_prepend split: prod.splits list.splits)

lemma short_rest: "short_lines (p @ q) \<Longrightarrow> short_lines (snd (split_lines p) @ q)"
  by (auto simp: short_lines_def split_append [of p q])

text \<open>The lines that \<open>grep\<close> prints.\<close>

definition matching :: "byte list \<Rightarrow> byte list list \<Rightarrow> byte list list" where
  "matching pattern ls = map (\<lambda>l. l @ [10]) (filter (occurs pattern) ls)"

lemma matching_simps [simp]: "matching pattern [] = []"
  "matching pattern (l # ls) = (if occurs pattern l then (l @ [10]) # matching pattern ls else matching pattern ls)"
  "matching pattern (ls @ ls') = matching pattern ls @ matching pattern ls'"
  by (simp_all add: matching_def)

lemma newline_at_nth: "newline_at p = Some i \<Longrightarrow> p ! i = 10"
  by (induction p arbitrary: i) (auto split: if_splits)

lemma grep_lines_eq:
  assumes "0 \<notin> set pattern" "0 \<notin> set p"
  shows "grep_lines pattern p = (matching pattern (fst (split_lines p)), snd (split_lines p))"
  using assms
proof (induction pattern p rule: grep_lines.induct)
  case (1 pattern p)
  show ?case
  proof (cases "newline_at p")
    case None
    then show ?thesis using newline_None [OF None] "1.prems"(2) by (subst grep_lines.simps) (simp add: split_no_newline)
  next
    case (Some i)
    have "take (Suc i) p = take i p @ [10]"
      using newline_at_less [OF Some] newline_at_nth [OF Some] by (simp add: take_Suc_conv_app_nth)
    moreover have z: "0 \<notin> set (drop (Suc i) p)" "0 \<notin> set (take i p)" using "1.prems"(2) by (auto dest: in_set_dropD in_set_takeD)
    moreover have "match pattern (take i p) = occurs pattern (take i p)" by (rule match_occurs [OF "1.prems"(1) z(2)])
    ultimately show ?thesis using "1.IH" [OF Some "1.prems"(1)] Some
      by (subst grep_lines.simps) (simp add: split_first [OF Some] Let_def)
  qed
qed

text \<open>The contract of \<^verbatim>\<open>read\<close> on a file: the next bytes of it, at least one if there are any and one was asked for.\<close>

definition reader :: "('s \<Rightarrow> nat \<Rightarrow> byte list \<times> 's) \<Rightarrow> ('s \<Rightarrow> byte list) \<Rightarrow> bool" where
  "reader rd rest \<longleftrightarrow> (\<forall>s k. rest s = fst (rd s k) @ rest (snd (rd s k)) \<and> length (fst (rd s k)) \<le> k \<and>
     (0 < k \<longrightarrow> rest s \<noteq> [] \<longrightarrow> fst (rd s k) \<noteq> []))"

lemma readerD:
  assumes "reader rd rest" "rd s k = (bs, t)"
  shows "rest s = bs @ rest t" "0 < k \<Longrightarrow> rest s \<noteq> [] \<Longrightarrow> bs \<noteq> []"
proof -
  note r = assms(1) [unfolded reader_def, THEN spec, THEN spec, of s k, unfolded assms(2) fst_conv snd_conv]
  show "rest s = bs @ rest t" by (rule conjunct1 [OF r])
  show "bs \<noteq> []" if "0 < k" "rest s \<noteq> []" using conjunct2 [OF conjunct2 [OF r]] that by blast
qed

text \<open>
  C37: whatever pieces
 \<^verbatim>\<open>read\<close> returns a file in, \<open>grep\<close> terminates and writes exactly the lines that
  contain a match of the pattern, whole and in order, provided no line is longer than 1022 bytes.
  Bytes after the last newline are never printed.
\<close>

theorem grep_prints_matches:
  assumes "reader rd rest" "0 \<notin> set pattern" "0 \<notin> set (rest s)" "short_lines (rest s)"
  shows "\<exists>t. grep rd pattern [] s = Some (matching pattern (fst (split_lines (rest s))), t) \<and> rest t = []"
proof -
  have "\<exists>t. grep rd pattern m s = Some (matching pattern (fst (split_lines (m @ rest s))), t) \<and> rest t = []"
    if "10 \<notin> set m" "0 \<notin> set (m @ rest s)" "short_lines (m @ rest s)" for m
    using that
  proof (induction "length (rest s)" arbitrary: s m rule: less_induct)
    case less
    obtain bs t where r: "rd s (1024 - length m - 1) = (bs, t)" by fastforce
    have k: "0 < 1024 - length m - 1" using short_prefix [OF less.prems(1,3)] by simp
    have c: "rest s = bs @ rest t" by (rule readerD(1) [OF assms(1) r])
    show ?case
    proof (cases "bs = []")
      case True
      then have "rest s = []" using readerD(2) [OF assms(1) r k] by blast
      moreover have "rest t = []" using c \<open>rest s = []\<close> by simp
      moreover have "grep rd pattern m s = Some ([], t)" using True r by (subst grep.simps) simp
      ultimately show ?thesis using less.prems(1) by (simp add: split_no_newline)
    next
      case False
      let ?p = "m @ bs"
      have e: "grep_lines pattern ?p = (matching pattern (fst (split_lines ?p)), snd (split_lines ?p))"
        by (rule grep_lines_eq) (use assms(2) less.prems(2) in \<open>simp_all add: c\<close>)
      let ?m = "snd (split_lines ?p)"
      have "set ?m \<subseteq> set ?p" by (rule split_rest_subset)
      then have "0 \<notin> set (?m @ rest t)" using less.prems(2) by (auto simp: c)
      moreover have "short_lines (?m @ rest t)" by (rule short_rest) (use less.prems(3) in \<open>simp add: c\<close>)
      moreover have "length (rest t) < length (rest s)" using False by (simp add: c)
      ultimately have p: "10 \<notin> set ?m" "0 \<notin> set (?m @ rest t)" "short_lines (?m @ rest t)" "length (rest t) < length (rest s)"
        using split_rest_no_newline by blast+
      obtain u where u: "grep rd pattern ?m t = Some (matching pattern (fst (split_lines (?m @ rest t))), u)" "rest u = []"
        using less.hyps [OF p(4,1,2,3)] by blast
      have "split_lines (m @ rest s) = (fst (split_lines ?p) @ fst (split_lines (?m @ rest t)), snd (split_lines (?m @ rest t)))"
        using split_append [of ?p "rest t"] by (simp add: c)

      then show ?thesis using r False e u by (subst grep.simps) simp
    qed
  qed
  from this [of "[]"] show ?thesis using assms(3,4) by simp
qed

theorem grep_prints_matches_witness:
  "\<exists>t. grep (\<lambda>s k. (take (min k 2) s, drop (min k 2) s)) (str ''c.*b'') [] (str ''cat'' @ 10 # str ''cab'' @ 10 # str ''cb'') =
     Some ([str ''cab'' @ [10]], t)"
proof -
  let ?rd = "\<lambda>s k. (take (min k 2) s, drop (min k 2) s) :: byte list \<times> byte list" and ?s = "str ''cat'' @ 10 # str ''cab'' @ 10 # str ''cb''"
  have r: "reader ?rd (\<lambda>s. s)" by (auto simp: reader_def)
  have z: "0 \<notin> set (str ''c.*b'')" "0 \<notin> set ?s" "0 \<notin> set (str ''cat'')" "0 \<notin> set (str ''cab'')" by (simp_all add: str_def)
  have l: "split_lines ?s = ([str ''cat'', str ''cab''], str ''cb'')" by (simp add: str_def)
  then have sh: "short_lines ?s" by (simp add: short_lines_def str_def)
  have "occurs (str ''c.*b'') (str ''cab'')" "\<not> occurs (str ''c.*b'') (str ''cat'')"
    unfolding match_occurs [OF z(1,3), symmetric] match_occurs [OF z(1,4), symmetric]
    by (simp_all add: str_def match_def match_from.simps matchhere.simps matchstar.simps at0_def)
  then have e: "matching (str ''c.*b'') [str ''cat'', str ''cab''] = [str ''cab'' @ [10]]"
    by (simp only: matching_simps if_True if_False)
  obtain t where "grep ?rd (str ''c.*b'') [] ?s = Some (matching (str ''c.*b'') (fst (split_lines ?s)), t)"
    using grep_prints_matches [where rest = "\<lambda>s. s" and s = ?s, OF r z(1,2) sh] by (elim exE conjE) (rule that)
  then show ?thesis unfolding l fst_conv e by (rule exI)

qed

end
