(* ===== verification/Shell.thy ===== *)
theory Shell
  imports Ulib Sysfile
begin

text \<open>
  The shell, \<^verbatim>\<open>user/sh.c\<close>: the parser of command lines and the execution of commands.  The line is
  the list of its bytes; a pointer into it is a position, and \<open>es\<close> is its length.  \<^verbatim>\<open>malloc\<close> is
  taken to succeed.
\<close>

section \<open>Commands\<close>

text \<open>
  The five structures of the C code.  A string is of type \<open>'a\<close>: for the parser a pair of
  positions, its start and its end.

\<close>

datatype 'a cmd =
    ExecCmd "'a list"
  | RedirCmd "'a cmd" 'a uint int
  | PipeCmd "'a cmd" "'a cmd"
  | ListCmd "'a cmd" "'a cmd"
  | BackCmd "'a cmd"

definition MAXARGS :: nat where "MAXARGS = 10"

definition O_RDONLY :: uint where "O_RDONLY = 0"

section \<open>Tokens\<close>


definition whitespace :: "byte list" where
  "whitespace = [32, 9, 13, 10, 11]"

definition symbols :: "byte list" where
  "symbols = str ''<|>&;()''"

text \<open>The byte at a position; the terminating zero at the end.\<close>

definition byte_at :: "byte list \<Rightarrow> nat \<Rightarrow> byte" where
  "byte_at buf s = (if s < length buf then buf ! s else 0)"

function skip_ws :: "byte list \<Rightarrow> nat \<Rightarrow> nat" where
  "skip_ws buf s = (if s < length buf \<and> byte_at buf s \<in> set whitespace then skip_ws buf (s + 1) else s)"
  by auto
termination by (relation "measure (\<lambda>(buf, s). length buf - s)") auto

function skip_word :: "byte list \<Rightarrow> nat \<Rightarrow> nat" where
  "skip_word buf s =
     (if s < length buf \<and> byte_at buf s \<notin> set whitespace \<and> byte_at buf s \<notin> set symbols then skip_word buf (s + 1) else s)"
  by auto
termination by (relation "measure (\<lambda>(buf, s). length buf - s)") auto

declare skip_ws.simps [simp del] skip_word.simps [simp del]

text \<open>The kind of the token, its start and end, and the position after the white space that follows.\<close>

definition gettoken :: "byte list \<Rightarrow> nat \<Rightarrow> byte \<times> nat \<times> nat \<times> nat" where
  "gettoken buf s =
     (let q = skip_ws buf s; c = byte_at buf q;
          (ret, e) =
            (if c = 0 then (0, q)
             else if c \<in> set (str ''|();&<'') then (c, q + 1)
             else if c = ch CHR ''>'' then
               (if byte_at buf (q + 1) = ch CHR ''>'' then (ch CHR ''+'', q + 2) else (c, q + 1))
             else (ch CHR ''a'', skip_word buf q))
      in (ret, q, e, skip_ws buf e))"

definition peek_tok :: "byte list \<Rightarrow> nat \<Rightarrow> byte list \<Rightarrow> bool \<times> nat" where
  "peek_tok buf s toks =
     (let s = skip_ws buf s in (byte_at buf s \<noteq> 0 \<and> byte_at buf s \<in> set toks, s))"

lemma skip_ws_le: "s \<le> skip_ws buf s" "s \<le> length buf \<Longrightarrow> skip_ws buf s \<le> length buf"
  by (induction buf s rule: skip_ws.induct; subst skip_ws.simps; auto)+

lemma skip_word_le: "s \<le> skip_word buf s" "s \<le> length buf \<Longrightarrow> skip_word buf s \<le> length buf"
  by (induction buf s rule: skip_word.induct; subst skip_word.simps; auto)+

lemma skip_ws_stops: "byte_at buf (skip_ws buf s) \<notin> set whitespace"
proof (induction buf s rule: skip_ws.induct)
  case (1 buf s)
  show ?case
  proof (cases "s < length buf \<and> byte_at buf s \<in> set whitespace")
    case True
    then have "skip_ws buf s = skip_ws buf (s + 1)" by (subst skip_ws.simps) simp
    then show ?thesis using 1 True by simp
  next
    case False
    then have "skip_ws buf s = s" by (subst skip_ws.simps) auto
    then show ?thesis using False by (auto simp: byte_at_def whitespace_def split: if_splits)
  qed
qed

lemma peek_tok_pos:
  assumes "peek_tok buf s toks = (b, t)"
  shows "s \<le> t" "s \<le> length buf \<Longrightarrow> t \<le> length buf" "b \<Longrightarrow> t < length buf"
proof -
  have t: "t = skip_ws buf s" "b \<longrightarrow> byte_at buf t \<noteq> 0" using assms by (auto simp: peek_tok_def Let_def)
  show "s \<le> t" "s \<le> length buf \<Longrightarrow> t \<le> length buf" unfolding t(1) by (rule skip_ws_le)+
  show "b \<Longrightarrow> t < length buf" using t(2) by (simp add: byte_at_def split: if_splits)
qed

lemma peek_tok_true:
  assumes "peek_tok buf s toks = (True, t)"
  shows "byte_at buf t \<noteq> 0" "byte_at buf t \<in> set toks" "byte_at buf t \<notin> set whitespace" "skip_ws buf t = t"
proof -
  have t: "t = skip_ws buf s" using assms by (auto simp: peek_tok_def Let_def)
  show "byte_at buf t \<noteq> 0" "byte_at buf t \<in> set toks" using assms by (auto simp: peek_tok_def Let_def)
  show "byte_at buf t \<notin> set whitespace" unfolding t by (rule skip_ws_stops)
  then show "skip_ws buf t = t" by (subst skip_ws.simps) simp
qed

text \<open>A token that is not the end of the line takes at least one byte.\<close>

lemma gettoken_pos:
  assumes "gettoken buf s = (r, q, e, t)"
  shows "s \<le> t" "s \<le> length buf \<Longrightarrow> t \<le> length buf" "r \<noteq> 0 \<Longrightarrow> s < t"
proof -
  let ?q = "skip_ws buf s"
  have q: "s \<le> ?q" "s \<le> length buf \<Longrightarrow> ?q \<le> length buf" by (rule skip_ws_le)+
  have z: "byte_at buf k \<noteq> 0 \<Longrightarrow> k < length buf" for k by (simp add: byte_at_def split: if_splits)
  have word: "?q < skip_word buf ?q" if "byte_at buf ?q \<noteq> 0" "byte_at buf ?q \<notin> set (str ''|();&<'')" "byte_at buf ?q \<noteq> ch CHR ''>''"
  proof -
    have "byte_at buf ?q \<notin> set symbols" using that by (simp add: symbols_def str_def)
    then have "skip_word buf ?q = skip_word buf (?q + 1)" using that(1) skip_ws_stops z by (subst skip_word.simps) auto
    then show ?thesis using skip_word_le(1) [of "?q + 1" buf] by simp
  qed
  have e: "?q \<le> e" "?q \<le> length buf \<Longrightarrow> e \<le> length buf" "r \<noteq> 0 \<Longrightarrow> ?q < e" "t = skip_ws buf e"
    using assms z [of ?q] z [of "?q + 1"] word skip_word_le [of ?q buf]
    by (auto simp: gettoken_def Let_def split: if_splits prod.splits)
  show "s \<le> t" using q(1) e(1) skip_ws_le(1) [of e buf] unfolding e(4) by linarith
  show "s \<le> length buf \<Longrightarrow> t \<le> length buf" using q(2) e(2) skip_ws_le(2) [of e buf] unfolding e(4) by blast
  show "r \<noteq> 0 \<Longrightarrow> s < t" using q(1) e(3) skip_ws_le(1) [of e buf] unfolding e(4) by linarith
qed

lemma gettoken_peeked: "peek_tok buf s toks = (True, t) \<Longrightarrow> fst (gettoken buf t) \<noteq> 0"
  using peek_tok_true [of buf s toks t] by (simp add: gettoken_def Let_def split: prod.splits)

section \<open>The parser\<close>

text \<open>
  The result is \<open>Inl\<close> with the message of a \<open>panic\<close>, or the command and the position after it.
  \<open>add_arg\<close> stores an argument in the \<^verbatim>\<open>execcmd\<close> below the redirections already wrapped around it.
\<close>

type_synonym tok = "nat \<times> nat"
type_synonym 'a parsed = "string + 'a \<times> nat"

fun add_arg :: "'a \<Rightarrow> 'a cmd \<Rightarrow> 'a cmd" where
  "add_arg a (ExecCmd args) = ExecCmd (args @ [a])"
| "add_arg a (RedirCmd c f mode fd) = RedirCmd (add_arg a c) f mode fd"
| "add_arg a c = c"

definition redircmd :: "byte \<Rightarrow> 'a cmd \<Rightarrow> 'a \<Rightarrow> 'a cmd" where
  "redircmd tok c f =
     (if tok = ch CHR ''<'' then RedirCmd c f O_RDONLY 0
      else if tok = ch CHR ''>'' then RedirCmd c f (O_WRONLY OR O_CREATE OR O_TRUNC) 1
      else if tok = ch CHR ''+'' then RedirCmd c f (O_WRONLY OR O_CREATE) 1
      else c)"

function parseredirs :: "byte list \<Rightarrow> tok cmd \<Rightarrow> nat \<Rightarrow> tok cmd parsed" where
  "parseredirs buf c s =
     (case peek_tok buf s (str ''<>'') of (b, s) \<Rightarrow>
        if \<not> b then Inr (c, s)
        else case gettoken buf s of (tok, _, _, s) \<Rightarrow>
          case gettoken buf s of (a, q, e, s) \<Rightarrow>
            if a \<noteq> ch CHR ''a'' then Inl ''missing file for redirection''
            else parseredirs buf (redircmd tok c (q, e)) s)"
  by auto
termination
proof (relation "measure (\<lambda>(buf, c, s). length buf - s)", goal_cases)
  case (2 buf c s b s1 tok r1 y1 r2 y2 s2 a r3 q r4 e s3)
  then have p: "peek_tok buf s (str ''<>'') = (True, s1)" "gettoken buf s1 = (tok, y1, y2, s2)" "gettoken buf s2 = (a, q, e, s3)"
    by auto
  have "tok \<noteq> 0" using gettoken_peeked [OF p(1)] p(2) by simp
  then show ?case using peek_tok_pos [OF p(1)] gettoken_pos [OF p(2)] gettoken_pos [OF p(3)] by simp
qed simp

declare parseredirs.simps [simp del]

text \<open>The loop of \<open>parseexec\<close> over the arguments; \<open>c\<close> is the command built so far.\<close>

function parseargs :: "byte list \<Rightarrow> tok cmd \<Rightarrow> nat \<Rightarrow> nat \<Rightarrow> tok cmd parsed" where
  "parseargs buf c argc s =
     (case peek_tok buf s (str ''|)&;'') of (b, s) \<Rightarrow>
        if b then Inr (c, s)
        else case gettoken buf s of (tok, q, e, s) \<Rightarrow>
          if tok = 0 then Inr (c, s)
          else if tok \<noteq> ch CHR ''a'' then Inl ''syntax''
          else if argc + 1 \<ge> MAXARGS then Inl ''too many args''
          else case parseredirs buf (add_arg (q, e) c) s of
            Inl msg \<Rightarrow> Inl msg
          | Inr (c, s) \<Rightarrow> parseargs buf c (argc + 1) s)"
  by auto
termination by (relation "measure (\<lambda>(buf, c, argc, s). MAXARGS - argc)") auto

declare parseargs.simps [simp del]

text \<open>The loop of \<open>parseline\<close> over \<open>&\<close>.\<close>

function parsebacks :: "byte list \<Rightarrow> tok cmd \<Rightarrow> nat \<Rightarrow> tok cmd \<times> nat" where
  "parsebacks buf c s =
     (case peek_tok buf s (str ''&'') of (b, s) \<Rightarrow>
        if \<not> b then (c, s)
        else case gettoken buf s of (_, _, _, s) \<Rightarrow> parsebacks buf (BackCmd c) s)"
  by auto
termination
proof (relation "measure (\<lambda>(buf, c, s). length buf - s)", goal_cases)
  case (2 buf c s b s1 tok r1 y1 r2 y2 s2)
  then have p: "peek_tok buf s (str ''&'') = (True, s1)" "gettoken buf s1 = (tok, y1, y2, s2)" by auto
  have "tok \<noteq> 0" using gettoken_peeked [OF p(1)] p(2) by simp
  then show ?case using peek_tok_pos [OF p(1)] gettoken_pos [OF p(2)] by simp
qed simp

declare parsebacks.simps [simp del]

text \<open>
  The mutually recursive functions have a bound on the depth of the recursion; \<open>None\<close> means that
  it was reached.
\<close>

definition pbind :: "'a parsed option \<Rightarrow> ('a \<Rightarrow> nat \<Rightarrow> 'b parsed option) \<Rightarrow> 'b parsed option" where
  "pbind m f = (case m of None \<Rightarrow> None | Some (Inl msg) \<Rightarrow> Some (Inl msg) | Some (Inr (c, s)) \<Rightarrow> f c s)"

definition next_tok :: "byte list \<Rightarrow> nat \<Rightarrow> nat" where
  "next_tok buf s = snd (snd (snd (gettoken buf s)))"

fun parseline :: "nat \<Rightarrow> byte list \<Rightarrow> nat \<Rightarrow> tok cmd parsed option"
  and parsepipe :: "nat \<Rightarrow> byte list \<Rightarrow> nat \<Rightarrow> tok cmd parsed option"
  and parseexec :: "nat \<Rightarrow> byte list \<Rightarrow> nat \<Rightarrow> tok cmd parsed option"
  and parseblock :: "nat \<Rightarrow> byte list \<Rightarrow> nat \<Rightarrow> tok cmd parsed option" where
  "parseline 0 buf s = None"
| "parseline (Suc k) buf s =
     pbind (parsepipe k buf s) (\<lambda>c s.
       case parsebacks buf c s of (c, s) \<Rightarrow>
         case peek_tok buf s (str '';'') of (b, s) \<Rightarrow>
           if b then pbind (parseline k buf (next_tok buf s)) (\<lambda>d s. Some (Inr (ListCmd c d, s)))
           else Some (Inr (c, s)))"
| "parsepipe 0 buf s = None"
| "parsepipe (Suc k) buf s =
     pbind (parseexec k buf s) (\<lambda>c s.
       case peek_tok buf s (str ''|'') of (b, s) \<Rightarrow>
         if b then pbind (parsepipe k buf (next_tok buf s)) (\<lambda>d s. Some (Inr (PipeCmd c d, s)))
         else Some (Inr (c, s)))"
| "parseexec 0 buf s = None"
| "parseexec (Suc k) buf s =
     (case peek_tok buf s (str ''('') of (b, s) \<Rightarrow>
        if b then parseblock k buf s
        else case parseredirs buf (ExecCmd []) s of
          Inl msg \<Rightarrow> Some (Inl msg)
        | Inr (c, s) \<Rightarrow> Some (parseargs buf c 0 s))"
| "parseblock 0 buf s = None"
| "parseblock (Suc k) buf s =
     (case peek_tok buf s (str ''('') of (b, s) \<Rightarrow>
        if \<not> b then Some (Inl ''parseblock'')
        else pbind (parseline k buf (next_tok buf s)) (\<lambda>c s.
          case peek_tok buf s (str '')'') of (b, s) \<Rightarrow>
            if \<not> b then Some (Inl ''syntax - missing )'')
            else Some (parseredirs buf c (next_tok buf s))))"

text \<open>\<open>nulterminate\<close> stores a zero at the end of every string, in the memory of the line.\<close>

fun nulterminate :: "tok cmd \<Rightarrow> byte list \<Rightarrow> byte list" where
  "nulterminate (ExecCmd args) m = fold (\<lambda>(q, e) m. m[e := 0]) args m"
| "nulterminate (RedirCmd c (q, e) mode fd) m = (nulterminate c m)[e := 0]"
| "nulterminate (PipeCmd c d) m = nulterminate d (nulterminate c m)"
| "nulterminate (ListCmd c d) m = nulterminate d (nulterminate c m)"
| "nulterminate (BackCmd c) m = nulterminate c m"

text \<open>
  \<open>parsecmd\<close> of the line \<open>buf\<close>: the command and the memory of the line, which is one byte longer,
  after \<open>nulterminate\<close>.  The unparsed rest of the line, which the code prints before it panics with
  \<open>syntax\<close>, is left out.
\<close>

definition parsecmd :: "nat \<Rightarrow> byte list \<Rightarrow> (string + tok cmd \<times> byte list) option" where
  "parsecmd k buf =
     (case parseline k buf 0 of
        None \<Rightarrow> None
      | Some (Inl msg) \<Rightarrow> Some (Inl msg)
      | Some (Inr (c, s)) \<Rightarrow>
          if snd (peek_tok buf s []) \<noteq> length buf then Some (Inl ''syntax'')
          else Some (Inr (c, nulterminate c (buf @ [0]))))"

text \<open>The C string at a position of the memory, and the strings of a command.\<close>

definition cstr_at :: "byte list \<Rightarrow> nat \<Rightarrow> byte list" where
  "cstr_at m q = takeWhile (\<lambda>c. c \<noteq> 0) (drop q m)"

definition strings :: "byte list \<Rightarrow> tok cmd \<Rightarrow> byte list cmd" where
  "strings m c = map_cmd (\<lambda>(q, e). cstr_at m q) c"

section \<open>Running commands\<close>

text \<open>
  What a process asks the kernel to do, as a tree: each node is a system call, and its successors
  are what the process does next, depending on the result.  \<open>Exec\<close> continues only when it fails;
  \<open>Fork\<close> continues in the child with 0 and in the parent with the child's process id, or with -1
  when there is no child.  The characters of one message are one \<open>Write\<close>.
\<close>

datatype syscalls_of =
    Exit int
  | Exec "byte list" "byte list list" syscalls_of
  | Write int "byte list" syscalls_of
  | Close int syscalls_of
  | Open "byte list" uint "int \<Rightarrow> syscalls_of"
  | Dup int syscalls_of
  | Pipe "int \<Rightarrow> int \<Rightarrow> syscalls_of" syscalls_of
  | Fork "int \<Rightarrow> syscalls_of"
  | Wait syscalls_of
  | Chdir "byte list" "int \<Rightarrow> syscalls_of"

definition sh_panic :: "string \<Rightarrow> syscalls_of" where
  "sh_panic msg = Write 2 (str msg @ [10]) (Exit 1)"

definition fork1 :: "(int \<Rightarrow> syscalls_of) \<Rightarrow> syscalls_of" where
  "fork1 k = Fork (\<lambda>pid. if pid = -1 then sh_panic ''fork'' else k pid)"

fun runcmd :: "byte list cmd \<Rightarrow> syscalls_of" where
  "runcmd (ExecCmd []) = Exit 1"
| "runcmd (ExecCmd (a # args)) =
     Exec a (a # args) (Write 2 (str ''exec '' @ a @ str '' failed'' @ [10]) (Exit 0))"
| "runcmd (RedirCmd c f mode fd) =
     Close fd (Open f mode (\<lambda>r.
       if r < 0 then Write 2 (str ''open '' @ f @ str '' failed'' @ [10]) (Exit 1) else runcmd c))"
| "runcmd (ListCmd c d) = fork1 (\<lambda>pid. if pid = 0 then runcmd c else Wait (runcmd d))"
| "runcmd (PipeCmd c d) =
     Pipe (\<lambda>p0 p1.
       fork1 (\<lambda>pid. if pid = 0 then Close 1 (Dup p1 (Close p0 (Close p1 (runcmd c))))
       else fork1 (\<lambda>pid. if pid = 0 then Close 0 (Dup p0 (Close p0 (Close p1 (runcmd d))))
       else Close p0 (Close p1 (Wait (Wait (Exit 0)))))))
     (sh_panic ''pipe'')"
| "runcmd (BackCmd c) = fork1 (\<lambda>pid. if pid = 0 then runcmd c else Exit 0)"

text \<open>
  Reading a line with \<open>gets\<close>, after the prompt, and one round of the loop of \<open>main\<close>; \<open>rest\<close> is what
  follows in the shell itself.  The line is parsed by the child; with a depth \<open>k\<close> of four levels per
  byte the parser returns, and the last branch of \<open>sh_child\<close> is not taken.

\<close>

definition getcmd :: "('s \<Rightarrow> byte option \<times> 's) \<Rightarrow> int \<Rightarrow> 's \<Rightarrow> int \<times> byte list \<times> 's" where
  "getcmd rd nbuf s = (case gets rd nbuf s of (bs, s) \<Rightarrow> (if at0 bs = 0 then -1 else 0, bs, s))"

definition sh_child :: "nat \<Rightarrow> byte list \<Rightarrow> syscalls_of" where
  "sh_child k buf =
     (case parsecmd k buf of
        Some (Inr (c, m)) \<Rightarrow> runcmd (strings m c)
      | Some (Inl msg) \<Rightarrow> sh_panic msg
      | None \<Rightarrow> Exit 1)"

definition sh_line :: "nat \<Rightarrow> byte list \<Rightarrow> syscalls_of \<Rightarrow> syscalls_of" where
  "sh_line k buf rest =
     (if take 3 buf = str ''cd '' then
        let dir = drop 3 (butlast buf)
        in Chdir dir (\<lambda>r. if r < 0 then Write 2 (str ''cannot cd '' @ dir @ [10]) rest else rest)
      else fork1 (\<lambda>pid. if pid = 0 then sh_child k buf else Wait rest))"

section \<open>The parser always returns\<close>

text \<open>Positions only grow, and stay inside the line.\<close>

definition between :: "byte list \<Rightarrow> nat \<Rightarrow> nat \<Rightarrow> bool" where
  "between buf s t \<longleftrightarrow> s \<le> t \<and> (s \<le> length buf \<longrightarrow> t \<le> length buf)"

lemma between_refl [simp]: "between buf s s"
  by (simp add: between_def)

lemma between_trans: "between buf s t \<Longrightarrow> between buf t u \<Longrightarrow> between buf s u"
  by (auto simp: between_def)

lemma between_peek: "peek_tok buf s toks = (b, t) \<Longrightarrow> between buf s t"
  using peek_tok_pos by (auto simp: between_def)

lemma between_token: "gettoken buf s = (r, q, e, t) \<Longrightarrow> between buf s t"
  using gettoken_pos by (auto simp: between_def)

lemma between_next: "between buf s (next_tok buf s)"
  by (cases "gettoken buf s") (auto simp: next_tok_def intro: between_token)

lemma peeked_next:
  assumes "peek_tok buf s toks = (True, t)"
  shows "t < next_tok buf t" "t < length buf"
proof -
  obtain r q e u where g: "gettoken buf t = (r, q, e, u)" by (cases "gettoken buf t")
  then show "t < next_tok buf t" using gettoken_peeked [OF assms] gettoken_pos(3) [OF g] by (simp add: next_tok_def)
  show "t < length buf" using peek_tok_pos(3) [OF assms] by simp
qed

lemma parseredirs_pos: "parseredirs buf c s = Inr (d, t) \<Longrightarrow> between buf s t"
proof (induction buf c s rule: parseredirs.induct)
  case (1 buf c s)
  obtain b s1 where p: "peek_tok buf s (str ''<>'') = (b, s1)" by fastforce
  obtain tok q e s2 where g: "gettoken buf s1 = (tok, q, e, s2)" by (cases "gettoken buf s1")
  obtain a q' e' s3 where h: "gettoken buf s2 = (a, q', e', s3)" by (cases "gettoken buf s2")
  show ?case
  proof (cases b)
    case False
    then show ?thesis using "1.prems" p between_peek [OF p] by (subst (asm) parseredirs.simps) simp
  next
    case True
    then have "parseredirs buf (redircmd tok c (q', e')) s3 = Inr (d, t)" "a = ch CHR ''a''"
      using "1.prems" p g h by (subst (asm) parseredirs.simps, simp split: if_splits)+
    then have "between buf s3 t" using "1.IH" [OF p [symmetric] _ g [symmetric] refl refl h [symmetric]] True by simp
    then show ?thesis using between_peek [OF p] between_token [OF g] between_token [OF h] between_trans by blast
  qed
qed

lemma parseargs_pos: "parseargs buf c argc s = Inr (d, t) \<Longrightarrow> between buf s t"
proof (induction buf c argc s rule: parseargs.induct)
  case (1 buf c argc s)
  obtain b s1 where p: "peek_tok buf s (str ''|)&;'') = (b, s1)" by fastforce
  obtain tok q e s2 where g: "gettoken buf s1 = (tok, q, e, s2)" by (cases "gettoken buf s1")
  have s2: "between buf s s1" "between buf s s2" using between_peek [OF p] between_token [OF g] between_trans by blast+
  show ?case
  proof (cases "b \<or> tok = 0")
    case True
    then show ?thesis using "1.prems" p g s2 by (subst (asm) parseargs.simps) (auto split: if_splits)
  next
    case False
    then obtain c' s3 where r: "parseredirs buf (add_arg (q, e) c) s2 = Inr (c', s3)" "\<not> argc + 1 \<ge> MAXARGS" "tok = ch CHR ''a''"
      "parseargs buf c' (argc + 1) s3 = Inr (d, t)"
      using "1.prems" p g by (subst (asm) parseargs.simps) (auto split: if_splits sum.splits)
    then have "between buf s3 t" using "1.IH" [OF p [symmetric] _ g [symmetric] refl refl _ _ _ r(1) refl] False by simp
    then show ?thesis using s2(2) parseredirs_pos [OF r(1)] between_trans by blast
  qed
qed

lemma parsebacks_pos: "parsebacks buf c s = (d, t) \<Longrightarrow> between buf s t"
proof (induction buf c s rule: parsebacks.induct)
  case (1 buf c s)
  obtain b s1 where p: "peek_tok buf s (str ''&'') = (b, s1)" by fastforce
  obtain tok q e s2 where g: "gettoken buf s1 = (tok, q, e, s2)" by (cases "gettoken buf s1")
  show ?case
  proof (cases b)
    case False
    then show ?thesis using "1.prems" p between_peek [OF p] by (subst (asm) parsebacks.simps) simp
  next
    case True
    then have "parsebacks buf (BackCmd c) s2 = (d, t)" using "1.prems" p g by (subst (asm) parsebacks.simps) simp
    then have "between buf s2 t" using "1.IH" [OF p [symmetric] _ g [symmetric] refl refl] True by simp
    then show ?thesis using between_peek [OF p] between_token [OF g] between_trans by blast
  qed
qed

lemma pbind_Inr: "pbind m f = Some (Inr (d, t)) \<longleftrightarrow> (\<exists>c s. m = Some (Inr (c, s)) \<and> f c s = Some (Inr (d, t)))"
  by (auto simp: pbind_def split: option.splits sum.splits)

lemma pbind_returns: "m \<noteq> None \<Longrightarrow> (\<And>c s. m = Some (Inr (c, s)) \<Longrightarrow> f c s \<noteq> None) \<Longrightarrow> pbind m f \<noteq> None"
  by (auto simp: pbind_def split: option.splits sum.splits)

lemma pbind_cases:
  assumes "pbind m f = Some (Inr (d, t))"
  obtains c s where "m = Some (Inr (c, s))" "f c s = Some (Inr (d, t))"
  using assms unfolding pbind_Inr by blast

lemma parse_pos:
  "parseline k buf s = Some (Inr (d, t)) \<Longrightarrow> between buf s t"
  "parsepipe k buf s = Some (Inr (d, t)) \<Longrightarrow> between buf s t"
  "parseexec k buf s = Some (Inr (d, t)) \<Longrightarrow> between buf s t"
  "parseblock k buf s = Some (Inr (d, t)) \<Longrightarrow> between buf s t"
proof (induction k arbitrary: s d t)
  case (Suc k)
  { case 1
    then obtain c s1 where p: "parsepipe k buf s = Some (Inr (c, s1))" unfolding parseline.simps by (rule pbind_cases)
    obtain c2 s2 where q: "parsebacks buf c s1 = (c2, s2)" by fastforce
    obtain b s3 where r: "peek_tok buf s2 (str '';'') = (b, s3)" by fastforce
    have s3: "between buf s s3" using Suc.IH(2) [OF p] parsebacks_pos [OF q] between_peek [OF r] between_trans by blast
    have e: "(if b then pbind (parseline k buf (next_tok buf s3)) (\<lambda>d s. Some (Inr (ListCmd c2 d, s))) else Some (Inr (c2, s3))) = Some (Inr (d, t))"
      using 1 p q r by (simp add: pbind_def)
    show ?case
    proof (cases b)
      case True
      then obtain d' where "parseline k buf (next_tok buf s3) = Some (Inr (d', t))" using e by (auto simp: pbind_Inr)
      then show ?thesis using s3 Suc.IH(1) between_next between_trans by blast
    qed (use e s3 in simp)
  next
    case 2
    then obtain c s1 where p: "parseexec k buf s = Some (Inr (c, s1))" unfolding parsepipe.simps by (rule pbind_cases)
    obtain b s3 where r: "peek_tok buf s1 (str ''|'') = (b, s3)" by fastforce
    have s3: "between buf s s3" using Suc.IH(3) [OF p] between_peek [OF r] between_trans by blast
    have e: "(if b then pbind (parsepipe k buf (next_tok buf s3)) (\<lambda>d s. Some (Inr (PipeCmd c d, s))) else Some (Inr (c, s3))) = Some (Inr (d, t))"
      using 2 p r by (simp add: pbind_def)
    show ?case
    proof (cases b)
      case True
      then obtain d' where "parsepipe k buf (next_tok buf s3) = Some (Inr (d', t))" using e by (auto simp: pbind_Inr)
      then show ?thesis using s3 Suc.IH(2) between_next between_trans by blast
    qed (use e s3 in simp)
  next
    case 3
    obtain b s1 where p: "peek_tok buf s (str ''('') = (b, s1)" by fastforce
    show ?case
    proof (cases b)
      case True
      then have "between buf s1 t" using 3 p Suc.IH(4) by simp
      then show ?thesis using between_peek [OF p] between_trans by blast
    next
      case False
      then obtain c s2 where r: "parseredirs buf (ExecCmd []) s1 = Inr (c, s2)" "parseargs buf c 0 s2 = Inr (d, t)"
        using 3 p by (auto split: sum.splits)
      show ?thesis by (rule between_trans [OF between_peek [OF p] between_trans [OF parseredirs_pos [OF r(1)] parseargs_pos [OF r(2)]]])
    qed
  next
    case 4
    obtain b s1 where p: "peek_tok buf s (str ''('') = (b, s1)" by fastforce
    then have b: "b" using 4 by (auto split: if_splits)
    then obtain c s2 where q: "parseline k buf (next_tok buf s1) = Some (Inr (c, s2))" using 4 p by (auto elim: pbind_cases)
    obtain b' s3 where r: "peek_tok buf s2 (str '')'') = (b', s3)" by fastforce
    then have u: "parseredirs buf c (next_tok buf s3) = Inr (d, t)" using 4 p b q by (simp add: pbind_def split: if_splits)
    have "between buf s s2" by (rule between_trans [OF between_peek [OF p] between_trans [OF between_next Suc.IH(1) [OF q]]])
    moreover have "between buf s2 t" by (rule between_trans [OF between_peek [OF r] between_trans [OF between_next parseredirs_pos [OF u]]])
    ultimately show ?case by (rule between_trans)
  }
qed simp_all

lemma parse_returns:
  "s \<le> length buf \<Longrightarrow> 4 * (length buf - s) + 4 \<le> k \<Longrightarrow> parseline k buf s \<noteq> None"
  "s \<le> length buf \<Longrightarrow> 4 * (length buf - s) + 3 \<le> k \<Longrightarrow> parsepipe k buf s \<noteq> None"
  "s \<le> length buf \<Longrightarrow> 4 * (length buf - s) + 2 \<le> k \<Longrightarrow> parseexec k buf s \<noteq> None"
  "s \<le> length buf \<Longrightarrow> 4 * (length buf - s) + 1 \<le> k \<Longrightarrow> parseblock k buf s \<noteq> None"
proof (induction k arbitrary: s)
  case (Suc k)
  have next_ok: "next_tok buf t \<le> length buf \<and> 4 * (length buf - next_tok buf t) + 4 \<le> 4 * (length buf - s)"
    if "between buf s t" "peek_tok buf r toks = (True, t)" "s \<le> length buf" for r s t toks
  proof -
    have "between buf t (next_tok buf t)" by (rule between_next)
    then show ?thesis using that(1,3) peeked_next [OF that(2)] by (auto simp: between_def)
  qed
  have more: "pbind m (\<lambda>d s. Some (f d s)) \<noteq> None" if "m \<noteq> None" for m :: "tok cmd parsed option" and f :: "tok cmd \<Rightarrow> nat \<Rightarrow> tok cmd parsed"
    using that by (intro pbind_returns) simp_all
  { case 1
    show ?case unfolding parseline.simps
    proof (rule pbind_returns)
      show "parsepipe k buf s \<noteq> None" using 1 Suc.IH(2) by simp
      fix c s1
      assume c: "parsepipe k buf s = Some (Inr (c, s1))"
      obtain c2 s2 where q: "parsebacks buf c s1 = (c2, s2)" by fastforce
      obtain b s3 where r: "peek_tok buf s2 (str '';'') = (b, s3)" by fastforce
      have "between buf s s3" using parse_pos(2) [OF c] parsebacks_pos [OF q] between_peek [OF r] between_trans by blast
      then have "parseline k buf (next_tok buf s3) \<noteq> None" if b
        using next_ok [of s s3 s2 "str '';''"] r that 1 by (intro Suc.IH(1)) auto
      then show "(case parsebacks buf c s1 of (c, s) \<Rightarrow> case peek_tok buf s (str '';'') of (b, s) \<Rightarrow>
          if b then pbind (parseline k buf (next_tok buf s)) (\<lambda>d s. Some (Inr (ListCmd c d, s))) else Some (Inr (c, s))) \<noteq> None"
        unfolding q r prod.case by (cases b) (simp_all add: more del: not_None_eq)
    qed
  next
    case 2
    show ?case unfolding parsepipe.simps
    proof (rule pbind_returns)
      show "parseexec k buf s \<noteq> None" using 2 Suc.IH(3) by simp
      fix c s1
      assume c: "parseexec k buf s = Some (Inr (c, s1))"
      obtain b s3 where r: "peek_tok buf s1 (str ''|'') = (b, s3)" by fastforce
      have "between buf s s3" using parse_pos(3) [OF c] between_peek [OF r] between_trans by blast
      then have "parsepipe k buf (next_tok buf s3) \<noteq> None" if b
        using next_ok [of s s3 s1 "str ''|''"] r that 2 by (intro Suc.IH(2)) auto
      then show "(case peek_tok buf s1 (str ''|'') of (b, s) \<Rightarrow>
          if b then pbind (parsepipe k buf (next_tok buf s)) (\<lambda>d s. Some (Inr (PipeCmd c d, s))) else Some (Inr (c, s))) \<noteq> None"
        unfolding r prod.case by (cases b) (simp_all add: more del: not_None_eq)
    qed
  next
    case 3
    obtain b s1 where p: "peek_tok buf s (str ''('') = (b, s1)" by fastforce
    have "between buf s s1" by (rule between_peek [OF p])
    then have "parseblock k buf s1 \<noteq> None" using 3 by (intro Suc.IH(4)) (auto simp: between_def)
    then show ?case using p by (auto split: sum.splits)
  next
    case 4
    obtain b s1 where p: "peek_tok buf s (str ''('') = (b, s1)" by fastforce
    have "parseline k buf (next_tok buf s1) \<noteq> None" if b
      using next_ok [OF between_peek [OF p], of s "str ''(''"] p that 4 by (intro Suc.IH(1)) auto
    then show ?case using p by (auto simp: pbind_def split: prod.splits sum.splits)
  }
qed simp_all

text \<open>
  C38: the parser of the shell returns for every command line: a recursion depth of four levels for
  every byte of the line is enough for it to deliver a command or a syntax error.
\<close>

theorem parsecmd_returns: "\<exists>r. parsecmd (4 * length buf + 4) buf = Some r"
proof -
  obtain r where "parseline (4 * length buf + 4) buf 0 = Some r" using parse_returns(1) [of 0 buf "4 * length buf + 4"] by auto
  then show ?thesis by (cases r) (auto simp: parsecmd_def split: prod.splits)
qed

text \<open>More depth than that changes nothing.\<close>

lemma pbind_more:
  assumes "pbind m f = Some r" "\<And>x. m = Some x \<Longrightarrow> m' = Some x" "\<And>c s r. f c s = Some r \<Longrightarrow> g c s = Some r"
  shows "pbind m' g = Some r"
proof -
  obtain x where x: "m = Some x" using assms(1) by (cases m) (auto simp: pbind_def)
  show ?thesis using assms(1,3) assms(2) [OF x] unfolding x by (cases x) (auto simp: pbind_def split: prod.splits)
qed

lemma parse_more:
  "parseline k buf s = Some r \<Longrightarrow> parseline (Suc k) buf s = Some r"
  "parsepipe k buf s = Some r \<Longrightarrow> parsepipe (Suc k) buf s = Some r"
  "parseexec k buf s = Some r \<Longrightarrow> parseexec (Suc k) buf s = Some r"
  "parseblock k buf s = Some r \<Longrightarrow> parseblock (Suc k) buf s = Some r"
proof (induction k arbitrary: s r)
  case (Suc k)
  { case 1
    show ?case using 1 [unfolded parseline.simps(2)] unfolding parseline.simps(2) [of "Suc k"]
      by (rule pbind_more) (auto intro: Suc.IH elim!: pbind_more split: prod.splits if_splits simp del: parseline.simps(2) parsepipe.simps(2) parseexec.simps(2))
  next
    case 2
    show ?case using 2 [unfolded parsepipe.simps(2)] unfolding parsepipe.simps(2) [of "Suc k"]
      by (rule pbind_more) (auto intro: Suc.IH elim!: pbind_more split: prod.splits if_splits simp del: parseline.simps(2) parsepipe.simps(2) parseexec.simps(2))
  next
    case 3
    then show ?case unfolding parseexec.simps(2) [of "Suc k"] parseexec.simps(2) [of k] using Suc.IH(4) by (auto split: prod.splits if_splits simp del: parseblock.simps(2))
  next
    case 4
    then show ?case unfolding parseblock.simps(2) [of "Suc k"] parseblock.simps(2) [of k] using Suc.IH(1) by (auto elim!: pbind_more split: prod.splits if_splits simp del: parseline.simps(2))
  }
qed simp_all

lemma parse_mono:
  assumes "k \<le> k'"
  shows "parseline k buf s = Some r \<Longrightarrow> parseline k' buf s = Some r" "parsepipe k buf s = Some r \<Longrightarrow> parsepipe k' buf s = Some r"
    "parseexec k buf s = Some r \<Longrightarrow> parseexec k' buf s = Some r" "parseblock k buf s = Some r \<Longrightarrow> parseblock k' buf s = Some r"
  using assms by (induction rule: dec_induct) (use parse_more in blast)+

end
