(* ===== verification/Shellspec.thy ===== *)
theory Shellspec
  imports Shell
begin

text \<open>
  The parser of the shell against a printer of commands: every command tree is what the parser
  makes of its text, with every string terminated in place.
\<close>

section \<open>Positions and what follows them\<close>

definition lands :: "byte list \<Rightarrow> nat \<Rightarrow> byte list \<Rightarrow> bool" where
  "lands buf s t \<longleftrightarrow> s \<le> length buf \<and> drop s buf = t"

definition clean :: "byte list \<Rightarrow> bool" where
  "clean t \<longleftrightarrow> at0 t \<notin> set whitespace"

definition wordch :: "byte \<Rightarrow> bool" where
  "wordch c \<longleftrightarrow> c \<noteq> 0 \<and> c \<notin> set whitespace \<and> c \<notin> set symbols"

lemma lands_byte: "lands buf s t \<Longrightarrow> byte_at buf s = at0 t"
  by (cases t) (auto simp: lands_def byte_at_def hd_drop_conv_nth [symmetric])

lemma lands_append:
  assumes "lands buf s (u @ t)"
  shows "lands buf (s + length u) t"
proof -
  have d: "drop s buf = u @ t" "s \<le> length buf" using assms by (simp_all add: lands_def)
  then have "length buf - s = length u + length t" by (metis length_append length_drop)
  moreover have "drop (length u) (drop s buf) = t" using d(1) by simp
  ultimately show ?thesis using d(2) by (simp add: lands_def add.commute)
qed

lemma lands_Cons: "lands buf s (c # t) \<Longrightarrow> lands buf (s + 1) t \<and> s < length buf"
  using lands_append [of buf s "[c]" t] by (auto simp: lands_def)

lemma clean_skip: "lands buf s t \<Longrightarrow> clean t \<Longrightarrow> skip_ws buf s = s"
  using lands_byte [of buf s t] by (subst skip_ws.simps) (simp add: clean_def)

lemma clean_peek: "lands buf s t \<Longrightarrow> clean t \<Longrightarrow> peek_tok buf s toks = (at0 t \<noteq> 0 \<and> at0 t \<in> set toks, s)"
  using lands_byte [of buf s t] by (simp add: peek_tok_def clean_skip)

lemma skip_word_lands:
  assumes "lands buf s (w @ t)" "\<forall>c \<in> set w. wordch c" "at0 t \<in> set whitespace \<union> set symbols"
  shows "skip_word buf s = s + length w"
  using assms
proof (induction w arbitrary: s)
  case Nil
  then show ?case using lands_byte [of buf s t] by (subst skip_word.simps) auto
next
  case (Cons c w)
  then have l: "lands buf (s + 1) (w @ t)" "s < length buf" "byte_at buf s = c"
    using lands_Cons [of buf s c "w @ t"] lands_byte [of buf s "c # w @ t"] by simp_all
  then have "skip_word buf s = skip_word buf (s + 1)" using Cons.prems(2) by (subst skip_word.simps) (simp add: wordch_def)
  then show ?case using Cons.IH [OF l(1)] Cons.prems by simp
qed

text \<open>The tokens of a printed command: a symbol, and a word followed by a space.\<close>

lemma token_symbol:
  assumes "lands buf s (c # t)" "c \<in> set (str ''|();&<'')" "clean t"
  shows "gettoken buf s = (c, s, s + 1, s + 1)" "next_tok buf s = s + 1"
proof -
  have c: "clean (c # t)" "c \<noteq> 0" using assms(2) by (auto simp: clean_def whitespace_def str_def)
  have "skip_ws buf s = s" "skip_ws buf (s + 1) = s + 1" "byte_at buf s = c"
    using clean_skip [OF assms(1) c(1)] clean_skip [OF conjunct1 [OF lands_Cons [OF assms(1)]] assms(3)] lands_byte [OF assms(1)] by simp_all
  then show "gettoken buf s = (c, s, s + 1, s + 1)" using assms(2) c(2) by (simp add: gettoken_def)
  then show "next_tok buf s = s + 1" by (simp add: next_tok_def)
qed

lemma token_word:
  assumes "lands buf s (w @ 32 # t)" "\<forall>c \<in> set w. wordch c" "w \<noteq> []" "clean t"
  shows "gettoken buf s = (ch CHR ''a'', s, s + length w, s + length w + 1)" "lands buf (s + length w + 1) t"
proof -
  obtain c w' where w: "w = c # w'" "wordch c" using assms(2,3) by (cases w) auto
  have b: "byte_at buf s = c" using lands_byte [OF assms(1)] w by simp
  have sk: "skip_ws buf s = s" using clean_skip [OF assms(1)] w by (simp add: clean_def wordch_def)
  have sp: "lands buf (s + length w) (32 # t)" by (rule lands_append [OF assms(1)])
  then show l: "lands buf (s + length w + 1) t" using lands_Cons by blast
  have "skip_ws buf (s + length w) = skip_ws buf (s + length w + 1)"
    using lands_Cons [OF sp] lands_byte [OF sp] by (subst skip_ws.simps) (simp add: whitespace_def)
  then have e: "skip_ws buf (s + length w) = s + length w + 1" using clean_skip [OF l assms(4)] by simp
  have "skip_word buf s = s + length w"
    by (rule skip_word_lands [OF assms(1,2)]) (simp add: whitespace_def)

  moreover have "c \<notin> set (str ''|();&<'')" "c \<noteq> ch CHR ''>''" "c \<noteq> 0" using w(2) by (auto simp: wordch_def symbols_def str_def)
  ultimately show "gettoken buf s = (ch CHR ''a'', s, s + length w, s + length w + 1)"
    using sk b e by (simp add: gettoken_def)
qed

lemma token_gt:
  assumes "lands buf s (ch CHR ''>'' # t)" "clean t" "at0 t \<noteq> ch CHR ''>''"
  shows "gettoken buf s = (ch CHR ''>'', s, s + 1, s + 1)"
proof -
  have l: "lands buf (s + 1) t" using lands_Cons [OF assms(1)] by simp
  have "skip_ws buf s = s" using clean_skip [OF assms(1)] by (simp add: clean_def whitespace_def)
  then show ?thesis using lands_byte [OF assms(1)] lands_byte [OF l] clean_skip [OF l assms(2)] assms(3)
    by (simp add: gettoken_def str_def)
qed

lemma token_gtgt:
  assumes "lands buf s (ch CHR ''>'' # ch CHR ''>'' # t)" "clean t"
  shows "gettoken buf s = (ch CHR ''+'', s, s + 2, s + 2)"
proof -
  have l: "lands buf (s + 1) (ch CHR ''>'' # t)" using lands_Cons [OF assms(1)] by simp
  have m: "lands buf (s + 2) t" using lands_Cons [OF l] by simp
  have "skip_ws buf s = s" using clean_skip [OF assms(1)] by (simp add: clean_def whitespace_def)
  then show ?thesis using lands_byte [OF assms(1)] lands_byte [OF l] clean_skip [OF m assms(2)]
    by (simp add: gettoken_def str_def)
qed

section \<open>Printing\<close>

definition word :: "byte list \<Rightarrow> bool" where
  "word w \<longleftrightarrow> w \<noteq> [] \<and> (\<forall>c \<in> set w. wordch c)"

text \<open>The three redirections: to read, to write and to append.\<close>

definition redir_op :: "uint \<Rightarrow> int \<Rightarrow> byte list" where
  "redir_op mode fd =
     (if fd = 0 then str ''<'' else if mode = (O_WRONLY OR O_CREATE OR O_TRUNC) then str ''>'' else str ''>>'')"

definition redir_ok :: "uint \<Rightarrow> int \<Rightarrow> bool" where
  "redir_ok mode fd \<longleftrightarrow> (mode, fd) \<in> {(O_RDONLY, 0), (O_WRONLY OR O_CREATE OR O_TRUNC, 1), (O_WRONLY OR O_CREATE, 1)}"

definition words :: "byte list list \<Rightarrow> byte list" where
  "words ws = concat (map (\<lambda>w. w @ [32]) ws)"

fun print_cmd :: "byte list cmd \<Rightarrow> byte list" where
  "print_cmd (ExecCmd ws) = words ws"
| "print_cmd (RedirCmd c f mode fd) = [ch CHR ''(''] @ print_cmd c @ [ch CHR '')''] @ redir_op mode fd @ f @ [32]"
| "print_cmd (PipeCmd c d) = [ch CHR ''(''] @ print_cmd c @ str '')|('' @ print_cmd d @ [ch CHR '')'']"
| "print_cmd (ListCmd c d) = [ch CHR ''(''] @ print_cmd c @ str '');('' @ print_cmd d @ [ch CHR '')'']"
| "print_cmd (BackCmd c) = [ch CHR ''(''] @ print_cmd c @ str '')&''"

fun wf_cmd :: "byte list cmd \<Rightarrow> bool" where
  "wf_cmd (ExecCmd ws) \<longleftrightarrow> length ws < MAXARGS \<and> (\<forall>w \<in> set ws. word w)"
| "wf_cmd (RedirCmd c f mode fd) \<longleftrightarrow> wf_cmd c \<and> word f \<and> redir_ok mode fd"
| "wf_cmd (PipeCmd c d) \<longleftrightarrow> wf_cmd c \<and> wf_cmd d"
| "wf_cmd (ListCmd c d) \<longleftrightarrow> wf_cmd c \<and> wf_cmd d"
| "wf_cmd (BackCmd c) \<longleftrightarrow> wf_cmd c"

text \<open>What can follow a command inside a line: nothing or a closing bracket.\<close>

definition closing :: "byte list \<Rightarrow> bool" where
  "closing t \<longleftrightarrow> t = [] \<or> at0 t = ch CHR '')''"

lemma closing_clean: "closing t \<Longrightarrow> clean t"
  by (auto simp: closing_def clean_def whitespace_def)

lemma word_clean: "word w \<Longrightarrow> clean (w @ t)"
  by (cases w) (auto simp: word_def clean_def wordch_def)

lemma words_clean: "\<forall>w \<in> set ws. word w \<Longrightarrow> clean t \<Longrightarrow> clean (words ws @ t)"
  by (cases ws) (auto simp: words_def word_clean)

lemma print_clean: "wf_cmd c \<Longrightarrow> clean t \<Longrightarrow> clean (print_cmd c @ t)"
  by (cases c) (auto simp: words_clean, auto simp: clean_def whitespace_def)

text \<open>The string of a token, and that a zero after it does not damage other tokens.\<close>

definition tok_str :: "byte list \<Rightarrow> tok \<Rightarrow> byte list" where
  "tok_str buf x = take (snd x - fst x) (drop (fst x) buf)"

definition tok_ok :: "byte list \<Rightarrow> tok \<Rightarrow> bool" where
  "tok_ok buf x \<longleftrightarrow> fst x \<le> snd x \<and> snd x \<le> length buf \<and> (\<forall>i. fst x \<le> i \<longrightarrow> i < snd x \<longrightarrow> wordch (buf ! i)) \<and>
     (snd x < length buf \<longrightarrow> \<not> wordch (buf ! snd x))"

definition stands_for :: "byte list \<Rightarrow> tok cmd \<Rightarrow> byte list cmd \<Rightarrow> bool" where
  "stands_for buf p c \<longleftrightarrow> map_cmd (tok_str buf) p = c \<and> (\<forall>x \<in> set_cmd p. tok_ok buf x)"

lemma word_token:
  assumes "lands buf s (w @ 32 # t)" "word w"
  shows "tok_str buf (s, s + length w) = w" "tok_ok buf (s, s + length w)"
proof -
  have d: "drop s buf = w @ 32 # t" "s \<le> length buf" using assms(1) by (simp_all add: lands_def)
  then show "tok_str buf (s, s + length w) = w" by (simp add: tok_str_def)
  have sp: "lands buf (s + length w) (32 # t)" by (rule lands_append [OF assms(1)])
  then have "s + length w < length buf" using lands_Cons by blast
  moreover have "buf ! (s + length w) = 32" using lands_byte [OF sp] calculation by (simp add: byte_at_def)
  moreover have "wordch (buf ! i)" if "s \<le> i" "i < s + length w" for i
  proof -
    have lt: "i - s < length w" using that by linarith
    have "buf ! i = drop s buf ! (i - s)" using that d(2) by simp
    also have "\<dots> = w ! (i - s)" unfolding d(1) using lt by (simp add: nth_append)
    finally show ?thesis using lt assms(2) by (simp add: word_def)
  qed
  ultimately show "tok_ok buf (s, s + length w)" by (simp add: tok_ok_def wordch_def whitespace_def)
qed

section \<open>Parsing what was printed\<close>

lemma no_redirs:
  assumes "lands buf s t" "clean t" "at0 t \<notin> set (str ''<>'')"
  shows "parseredirs buf c s = Inr (c, s)"
  using clean_peek [OF assms(1,2)] assms(3) by (subst parseredirs.simps) simp

lemma word_not_symbol: "word w \<Longrightarrow> at0 (w @ t) \<notin> set symbols \<and> at0 (w @ t) \<noteq> 0"
  by (cases w) (auto simp: word_def wordch_def)

lemma words_next:
  assumes "\<forall>w \<in> set ws. word w" "closing t"
  shows "at0 (words ws @ t) \<notin> set (str ''<>('')"
proof (cases ws)
  case Nil
  then show ?thesis using assms(2) by (auto simp: closing_def words_def str_def)
next
  case (Cons w ws')
  then show ?thesis using word_not_symbol [of w] assms(1) by (auto simp: words_def symbols_def str_def)
qed

lemma parseargs_words:
  assumes "lands buf s (words ws @ t)" "\<forall>w \<in> set ws. word w" "argc + length ws < MAXARGS" "closing t"
  shows "\<exists>toks s'. parseargs buf (ExecCmd as) argc s = Inr (ExecCmd (as @ toks), s') \<and> lands buf s' t \<and>
    map (tok_str buf) toks = ws \<and> (\<forall>x \<in> set toks. tok_ok buf x)"
  using assms
proof (induction ws arbitrary: s argc as)
  case Nil
  then have l: "lands buf s t" "clean t" by (simp_all add: words_def closing_clean)
  show ?case
  proof (cases "t = []")
    case True
    have g: "gettoken buf s = (0, s, s, s)" using lands_byte [OF l(1)] clean_skip [OF l] True by (simp add: gettoken_def)
    have "parseargs buf (ExecCmd as) argc s = Inr (ExecCmd as, s)"
      using clean_peek [OF l] True g by (subst parseargs.simps) simp
    then show ?thesis using l by auto
  next
    case False
    then have "parseargs buf (ExecCmd as) argc s = Inr (ExecCmd as, s)"
      using clean_peek [OF l] Nil.prems(4) by (subst parseargs.simps) (simp add: closing_def str_def)
    then show ?thesis using l by auto
  qed
next
  case (Cons w ws)
  let ?e = "s + length w" and ?t = "words ws @ t"
  have w: "word w" "\<forall>w \<in> set ws. word w" using Cons.prems(2) by simp_all
  have l: "lands buf s (w @ 32 # ?t)" using Cons.prems(1) by (simp add: words_def)
  have c: "clean ?t" using words_clean [OF w(2)] closing_clean [OF Cons.prems(4)] by blast
  have g: "gettoken buf s = (ch CHR ''a'', s, ?e, ?e + 1)" "lands buf (?e + 1) ?t"
    using token_word [OF l _ _ c] w(1) by (simp_all add: word_def)
  have pk: "peek_tok buf s (str ''|)&;'') = (False, s)"
    using clean_peek [OF l word_clean [OF w(1)]] word_not_symbol [OF w(1)] by (auto simp: symbols_def str_def)
  have nr: "parseredirs buf (add_arg (s, ?e) (ExecCmd as)) (?e + 1) = Inr (ExecCmd (as @ [(s, ?e)]), ?e + 1)"
    using no_redirs [OF g(2) c] words_next [OF w(2) Cons.prems(4)] by (simp add: str_def)
  have "parseargs buf (ExecCmd as) argc s = parseargs buf (ExecCmd (as @ [(s, ?e)])) (argc + 1) (?e + 1)"
    using pk g(1) nr Cons.prems(3) by (subst parseargs.simps) simp
  moreover obtain toks s' where "parseargs buf (ExecCmd (as @ [(s, ?e)])) (argc + 1) (?e + 1) = Inr (ExecCmd ((as @ [(s, ?e)]) @ toks), s')"
    "lands buf s' t" "map (tok_str buf) toks = ws" "\<forall>x \<in> set toks. tok_ok buf x"
    using Cons.IH [OF g(2) w(2) _ Cons.prems(4), of "argc + 1" "as @ [(s, ?e)]"] Cons.prems(3) by auto
  ultimately show ?case using word_token [OF l w(1)] by (intro exI [of _ "(s, ?e) # toks"] exI [of _ s']) simp
qed

lemma parse_redir:
  assumes "lands buf s (redir_op mode fd @ f @ 32 # t)" "word f" "redir_ok mode fd" "closing t"
  shows "\<exists>x s'. parseredirs buf c s = Inr (RedirCmd c x mode fd, s') \<and> lands buf s' t \<and> tok_str buf x = f \<and> tok_ok buf x"
proof -
  let ?o = "redir_op mode fd" let ?s1 = "s + length ?o" let ?e = "?s1 + length f"
  have f: "clean (f @ 32 # t)" "at0 (f @ 32 # t) \<noteq> ch CHR ''>''"
    using word_clean [OF assms(2)] word_not_symbol [OF assms(2), of "32 # t"] by (auto simp: symbols_def str_def)
  have l: "lands buf ?s1 (f @ 32 # t)" by (rule lands_append [OF assms(1)])
  have t: "clean t" by (rule closing_clean [OF assms(4)])
  have g2: "gettoken buf ?s1 = (ch CHR ''a'', ?s1, ?e, ?e + 1)" "lands buf (?e + 1) t"
    using token_word [OF l _ _ t] assms(2) by (simp_all add: word_def)
  obtain tok where g1: "gettoken buf s = (tok, s, ?s1, ?s1)" "redircmd tok c (?s1, ?e) = RedirCmd c (?s1, ?e) mode fd" "at0 (?o @ f @ 32 # t) \<in> set (str ''<>'')"
  proof -
    have ne: "(O_WRONLY OR O_CREATE :: uint) \<noteq> O_WRONLY OR O_CREATE OR O_TRUNC" by (simp add: O_WRONLY_def O_CREATE_def O_TRUNC_def)
    consider "mode = O_RDONLY" "fd = 0" | "mode = O_WRONLY OR O_CREATE OR O_TRUNC" "fd = 1" | "mode = O_WRONLY OR O_CREATE" "fd = 1"
      using assms(3) by (auto simp: redir_ok_def)
    then show thesis
    proof cases
      case 1
      then have o: "?o = [ch CHR ''<'']" by (simp add: redir_op_def str_def)
      then show thesis using token_symbol(1) [of buf s "ch CHR ''<''" "f @ 32 # t"] assms(1) f(1) 1
        by (intro that [of "ch CHR ''<''"]) (simp_all add: redircmd_def str_def)
    next
      case 2
      then have o: "?o = [ch CHR ''>'']" by (simp add: redir_op_def str_def)
      then show thesis using token_gt [of buf s "f @ 32 # t"] assms(1) f 2
        by (intro that [of "ch CHR ''>''"]) (simp_all add: redircmd_def str_def)
    next
      case 3
      then have o: "?o = [ch CHR ''>'', ch CHR ''>'']" using ne by (simp add: redir_op_def str_def)
      then show thesis using token_gtgt [of buf s "f @ 32 # t"] assms(1) f(1) 3
        by (intro that [of "ch CHR ''+''"]) (simp_all add: redircmd_def str_def)
    qed
  qed
  have pk: "peek_tok buf s (str ''<>'') = (True, s)"
    using clean_peek [OF assms(1)] g1(3) by (auto simp: clean_def whitespace_def str_def)
  have nr: "parseredirs buf d (?e + 1) = Inr (d, ?e + 1)" for d
    using no_redirs [OF g2(2) t] assms(4) by (auto simp: closing_def str_def)
  have "parseredirs buf c s = Inr (RedirCmd c (?s1, ?e) mode fd, ?e + 1)"
    using pk g1(1,2) g2(1) nr by (subst parseredirs.simps) simp
  then show ?thesis using g2(2) word_token [OF l assms(2)] by blast
qed

text \<open>A command in brackets, and a line that consists of one \<open>parseexec\<close>.\<close>

lemma parse_brackets:
  assumes "lands buf s (ch CHR ''('' # u)" "clean u" "parseline k buf (s + 1) = Some (Inr (p, s2))" "lands buf s2 (ch CHR '')'' # t)" "clean t"
  shows "parseexec (Suc (Suc k)) buf s = Some (parseredirs buf p (s2 + 1)) \<and> lands buf (s2 + 1) t"
proof -
  have o: "peek_tok buf s (str ''('') = (True, s)" "next_tok buf s = s + 1"
    using clean_peek [OF assms(1)] token_symbol(2) [OF assms(1) _ assms(2)] by (simp_all add: clean_def whitespace_def str_def)
  have c: "peek_tok buf s2 (str '')'') = (True, s2)" "next_tok buf s2 = s2 + 1"
    using clean_peek [OF assms(4)] token_symbol(2) [OF assms(4) _ assms(5)] by (simp_all add: clean_def whitespace_def str_def)
  show ?thesis using o c assms(3) lands_Cons [OF assms(4)] by (simp add: pbind_def)
qed

lemma parse_rest:
  assumes "parsepipe k buf s = Some (Inr (p, s2))" "lands buf s2 t" "closing t"
  shows "parseline (Suc k) buf s = Some (Inr (p, s2))"
proof -
  have t: "clean t" by (rule closing_clean [OF assms(3)])
  have "peek_tok buf s2 (str ''&'') = (False, s2)" "peek_tok buf s2 (str '';'') = (False, s2)"
    using clean_peek [OF assms(2) t] assms(3) by (auto simp: closing_def str_def)
  moreover from this have "parsebacks buf p s2 = (p, s2)" by (subst parsebacks.simps) simp
  ultimately show ?thesis using assms(1) by (simp add: pbind_def)
qed

lemma parse_one:
  assumes "parseexec k buf s = Some (Inr (p, s2))" "lands buf s2 t" "clean t" "at0 t \<noteq> ch CHR ''|''"
  shows "parsepipe (Suc k) buf s = Some (Inr (p, s2))"
  using clean_peek [OF assms(2,3)] assms(1,4) by (simp add: pbind_def str_def)

text \<open>A printed command inside brackets.\<close>

definition parses :: "byte list cmd \<Rightarrow> bool" where
  "parses c \<longleftrightarrow> (\<forall>buf s t. lands buf s (print_cmd c @ t) \<longrightarrow> closing t \<longrightarrow>
     (\<exists>k p s'. parseline k buf s = Some (Inr (p, s')) \<and> lands buf s' t \<and> stands_for buf p c))"

lemma parses_brackets:
  assumes "parses c" "wf_cmd c" "lands buf s (ch CHR ''('' # print_cmd c @ ch CHR '')'' # t)" "clean t"
  obtains k p s' where "parseexec k buf s = Some (parseredirs buf p s')" "lands buf s' t" "stands_for buf p c"
proof -
  have cl: "closing (ch CHR '')'' # t)" by (simp add: closing_def)
  have "lands buf (s + 1) (print_cmd c @ ch CHR '')'' # t)" using lands_Cons [OF assms(3)] by simp
  then obtain k p s2 where p: "parseline k buf (s + 1) = Some (Inr (p, s2))" "lands buf s2 (ch CHR '')'' # t)" "stands_for buf p c"
    using assms(1) cl unfolding parses_def by blast
  have "clean (print_cmd c @ ch CHR '')'' # t)" by (rule print_clean [OF assms(2) closing_clean [OF cl]])
  then show thesis using parse_brackets [OF assms(3) _ p(1,2) assms(4)] that p(3) by blast
qed

lemma parses_plain:
  assumes "parses c" "wf_cmd c" "lands buf s (ch CHR ''('' # print_cmd c @ ch CHR '')'' # t)" "clean t" "at0 t \<notin> set (str ''<>'')"
  obtains k p s' where "parseexec k buf s = Some (Inr (p, s'))" "lands buf s' t" "stands_for buf p c"
proof -
  obtain k p s' where p: "parseexec k buf s = Some (parseredirs buf p s')" "lands buf s' t" "stands_for buf p c"
    by (rule parses_brackets [OF assms(1-4)])
  then show thesis using that no_redirs [OF p(2) assms(4,5)] by simp
qed

lemma closing_next: "closing t \<Longrightarrow> at0 t \<notin> set (str ''<>|;&'')"
  by (auto simp: closing_def str_def)

lemma parses_Exec:
  assumes "wf_cmd (ExecCmd ws)"
  shows "parses (ExecCmd ws)"
  unfolding parses_def
proof (intro allI impI)
  fix buf s t
  assume l: "lands buf s (print_cmd (ExecCmd ws) @ t)" and t: "closing t"
  have ws: "\<forall>w \<in> set ws. word w" "0 + length ws < MAXARGS" "lands buf s (words ws @ t)" using assms l by simp_all
  obtain toks s' where a: "parseargs buf (ExecCmd []) 0 s = Inr (ExecCmd toks, s')" "lands buf s' t"
    "map (tok_str buf) toks = ws" "\<forall>x \<in> set toks. tok_ok buf x"
    using parseargs_words [OF ws(3,1,2) t, of "[]"] by auto
  have c: "clean (words ws @ t)" by (rule words_clean [OF ws(1) closing_clean [OF t]])
  have "at0 (words ws @ t) \<noteq> ch CHR ''(''" "at0 (words ws @ t) \<notin> set (str ''<>'')" using words_next [OF ws(1) t] by (auto simp: str_def)
  then have "parseexec (Suc 0) buf s = Some (Inr (ExecCmd toks, s'))"
    using clean_peek [OF ws(3) c] no_redirs [OF ws(3) c] a(1) by (simp add: str_def)
  then have "parsepipe (Suc (Suc 0)) buf s = Some (Inr (ExecCmd toks, s'))"
    by (rule parse_one [OF _ a(2) closing_clean [OF t]]) (use t in \<open>auto simp: closing_def\<close>)
  then have "parseline (Suc (Suc (Suc 0))) buf s = Some (Inr (ExecCmd toks, s'))" by (rule parse_rest [OF _ a(2) t])
  moreover have "stands_for buf (ExecCmd toks) (ExecCmd ws)" using a(3,4) by (simp add: stands_for_def)
  ultimately show "\<exists>k p s'. parseline k buf s = Some (Inr (p, s')) \<and> lands buf s' t \<and> stands_for buf p (ExecCmd ws)" using a(2) by blast
qed

lemma parses_Redir:
  assumes "parses c" "wf_cmd (RedirCmd c f mode fd)"
  shows "parses (RedirCmd c f mode fd)"
  unfolding parses_def
proof (intro allI impI)
  fix buf s t
  assume l: "lands buf s (print_cmd (RedirCmd c f mode fd) @ t)" and t: "closing t"
  let ?t = "redir_op mode fd @ f @ 32 # t"
  have w: "wf_cmd c" "word f" "redir_ok mode fd" using assms(2) by simp_all
  have cl: "clean ?t" by (simp add: redir_op_def clean_def str_def whitespace_def)
  obtain k p s1 where p: "parseexec k buf s = Some (parseredirs buf p s1)" "lands buf s1 ?t" "stands_for buf p c"
    by (rule parses_brackets [OF assms(1) w(1) _ cl]) (use l in simp)
  obtain x s' where x: "parseredirs buf p s1 = Inr (RedirCmd p x mode fd, s')" "lands buf s' t" "tok_str buf x = f" "tok_ok buf x"
    using parse_redir [OF p(2) w(2,3) t] by blast
  have "parsepipe (Suc k) buf s = Some (Inr (RedirCmd p x mode fd, s'))"
    by (rule parse_one [OF _ x(2) closing_clean [OF t]]) (use p(1) x(1) closing_next [OF t] in \<open>simp_all add: str_def\<close>)
  then have "parseline (Suc (Suc k)) buf s = Some (Inr (RedirCmd p x mode fd, s'))" by (rule parse_rest [OF _ x(2) t])
  moreover have "stands_for buf (RedirCmd p x mode fd) (RedirCmd c f mode fd)" using p(3) x(3,4) by (simp add: stands_for_def)
  ultimately show "\<exists>k p s'. parseline k buf s = Some (Inr (p, s')) \<and> lands buf s' t \<and> stands_for buf p (RedirCmd c f mode fd)" using x(2) by blast
qed

text \<open>Two commands in brackets with \<open>|\<close> or \<open>;\<close> in between.\<close>

lemma parses_pair:
  assumes "parses c" "parses d" "wf_cmd c" "wf_cmd d" "y \<in> {ch CHR ''|'', ch CHR '';''}" "closing t"
    and l: "lands buf s (ch CHR ''('' # print_cmd c @ ch CHR '')'' # y # ch CHR ''('' # print_cmd d @ ch CHR '')'' # t)"
  obtains k p q s1 s' where "parseexec k buf s = Some (Inr (p, s1))" "\<And>toks. peek_tok buf s1 toks = (y \<in> set toks, s1)" "next_tok buf s1 = s1 + 1"
    "parseexec k buf (s1 + 1) = Some (Inr (q, s'))" "lands buf s' t" "stands_for buf p c" "stands_for buf q d"
proof -
  let ?d = "ch CHR ''('' # print_cmd d @ ch CHR '')'' # t"
  have cl: "clean (y # ?d)" "clean ?d" "at0 (y # ?d) \<notin> set (str ''<>'')" using assms(5) by (auto simp: clean_def whitespace_def str_def)
  obtain k1 p s1 where p: "parseexec k1 buf s = Some (Inr (p, s1))" "lands buf s1 (y # ?d)" "stands_for buf p c"
    by (rule parses_plain [OF assms(1,3) l cl(1,3)])
  have l1: "lands buf (s1 + 1) ?d" using lands_Cons [OF p(2)] by simp
  obtain k2 q s' where q: "parseexec k2 buf (s1 + 1) = Some (Inr (q, s'))" "lands buf s' t" "stands_for buf q d"
    by (rule parses_plain [OF assms(2,4) l1 closing_clean [OF assms(6)]]) (use closing_next [OF assms(6)] in \<open>auto simp: str_def\<close>)
  have m: "parseexec (max k1 k2) buf s = Some (Inr (p, s1))" "parseexec (max k1 k2) buf (s1 + 1) = Some (Inr (q, s'))"
    using parse_mono(3) [OF max.cobounded1 p(1)] parse_mono(3) [OF max.cobounded2 q(1)] by simp_all
  have "peek_tok buf s1 toks = (y \<in> set toks, s1)" for toks using clean_peek [OF p(2) cl(1)] assms(5) by auto
  moreover have "next_tok buf s1 = s1 + 1" by (rule token_symbol(2) [OF p(2) _ cl(2)]) (use assms(5) in \<open>auto simp: str_def\<close>)
  ultimately show thesis by (intro that [OF m(1) _ _ m(2) q(2) p(3) q(3)])
qed

lemma parses_Pipe:
  assumes "parses c" "parses d" "wf_cmd (PipeCmd c d)"
  shows "parses (PipeCmd c d)"
  unfolding parses_def
proof (intro allI impI)
  fix buf s t
  assume l: "lands buf s (print_cmd (PipeCmd c d) @ t)" and t: "closing t"
  have o: "ch CHR ''|'' \<in> {ch CHR ''|'', ch CHR '';''}" by simp
  have w: "wf_cmd c" "wf_cmd d" using assms(3) by simp_all
  obtain k p q s1 s' where p: "parseexec k buf s = Some (Inr (p, s1))" "\<And>toks. peek_tok buf s1 toks = (ch CHR ''|'' \<in> set toks, s1)"
    "next_tok buf s1 = s1 + 1" "parseexec k buf (s1 + 1) = Some (Inr (q, s'))" "lands buf s' t" "stands_for buf p c" "stands_for buf q d"
    by (rule parses_pair [OF assms(1,2) w o t]) (use l in \<open>simp add: str_def\<close>, rule that, assumption+)

  have "parsepipe (Suc k) buf (s1 + 1) = Some (Inr (q, s'))"
    by (rule parse_one [OF p(4,5) closing_clean [OF t]]) (use closing_next [OF t] in \<open>auto simp: str_def\<close>)
  then have "parsepipe (Suc (Suc k)) buf s = Some (Inr (PipeCmd p q, s'))"
    using parse_more(3) [OF p(1)] p(2,3) by (simp add: pbind_def str_def del: parseexec.simps(2))
  then have "parseline (Suc (Suc (Suc k))) buf s = Some (Inr (PipeCmd p q, s'))" by (rule parse_rest [OF _ p(5) t])
  moreover have "stands_for buf (PipeCmd p q) (PipeCmd c d)" using p(6,7) by (auto simp: stands_for_def)
  ultimately show "\<exists>k p s'. parseline k buf s = Some (Inr (p, s')) \<and> lands buf s' t \<and> stands_for buf p (PipeCmd c d)" using p(5) by blast
qed

lemma parses_List:
  assumes "parses c" "parses d" "wf_cmd (ListCmd c d)"
  shows "parses (ListCmd c d)"
  unfolding parses_def
proof (intro allI impI)
  fix buf s t
  assume l: "lands buf s (print_cmd (ListCmd c d) @ t)" and t: "closing t"
  have o: "ch CHR '';'' \<in> {ch CHR ''|'', ch CHR '';''}" by simp
  have w: "wf_cmd c" "wf_cmd d" using assms(3) by simp_all
  obtain k p q s1 s' where p: "parseexec k buf s = Some (Inr (p, s1))" "\<And>toks. peek_tok buf s1 toks = (ch CHR '';'' \<in> set toks, s1)"
    "next_tok buf s1 = s1 + 1" "parseexec k buf (s1 + 1) = Some (Inr (q, s'))" "lands buf s' t" "stands_for buf p c" "stands_for buf q d"
    by (rule parses_pair [OF assms(1,2) w o t]) (use l in \<open>simp add: str_def\<close>, rule that, assumption+)
  have "parsepipe (Suc k) buf (s1 + 1) = Some (Inr (q, s'))"
    by (rule parse_one [OF p(4,5) closing_clean [OF t]]) (use closing_next [OF t] in \<open>auto simp: str_def\<close>)
  then have r: "parseline (Suc (Suc k)) buf (s1 + 1) = Some (Inr (q, s'))" by (rule parse_rest [OF _ p(5) t])
  have "parsepipe (Suc k) buf s = Some (Inr (p, s1))" using p(1,2) by (simp add: pbind_def str_def)
  then have f: "parsepipe (Suc (Suc k)) buf s = Some (Inr (p, s1))" by (rule parse_more(2))
  have b: "parsebacks buf p s1 = (p, s1)" using p(2) by (subst parsebacks.simps) (simp add: str_def)
  have "parseline (Suc (Suc (Suc k))) buf s = Some (Inr (ListCmd p q, s'))"
    unfolding parseline.simps(2) [of "Suc (Suc k)"] f using b p(2,3) r by (simp add: pbind_def str_def del: parseline.simps(2))
  moreover have "stands_for buf (ListCmd p q) (ListCmd c d)" using p(6,7) by (auto simp: stands_for_def)
  ultimately show "\<exists>k p s'. parseline k buf s = Some (Inr (p, s')) \<and> lands buf s' t \<and> stands_for buf p (ListCmd c d)" using p(5) by blast
qed

lemma parses_Back:
  assumes "parses c" "wf_cmd (BackCmd c)"
  shows "parses (BackCmd c)"
  unfolding parses_def
proof (intro allI impI)
  fix buf s t
  assume l: "lands buf s (print_cmd (BackCmd c) @ t)" and t: "closing t"
  let ?t = "ch CHR ''&'' # t"
  have w: "wf_cmd c" using assms(2) by simp
  have cl: "clean ?t" "at0 ?t \<notin> set (str ''<>'')" "clean t" using closing_clean [OF t] by (simp_all add: clean_def whitespace_def str_def)
  obtain k p s1 where p: "parseexec k buf s = Some (Inr (p, s1))" "lands buf s1 ?t" "stands_for buf p c"
    by (rule parses_plain [OF assms(1) w _ cl(1,2)]) (use l in \<open>simp add: str_def\<close>)
  have l1: "lands buf (s1 + 1) t" using lands_Cons [OF p(2)] by simp
  have pk: "peek_tok buf s1 (str ''&'') = (True, s1)" "peek_tok buf (s1 + 1) (str ''&'') = (False, s1 + 1)" "peek_tok buf (s1 + 1) (str '';'') = (False, s1 + 1)"
    using clean_peek [OF p(2) cl(1)] clean_peek [OF l1 cl(3)] closing_next [OF t] by (auto simp: str_def)
  have g: "gettoken buf s1 = (ch CHR ''&'', s1, s1 + 1, s1 + 1)" by (rule token_symbol(1) [OF p(2) _ cl(3)]) (simp add: str_def)
  have "parsebacks buf (BackCmd p) (s1 + 1) = (BackCmd p, s1 + 1)" using pk(2) by (subst parsebacks.simps) simp
  then have b: "parsebacks buf p s1 = (BackCmd p, s1 + 1)" using pk(1) g by (subst parsebacks.simps) simp
  have "parsepipe (Suc k) buf s = Some (Inr (p, s1))" by (rule parse_one [OF p(1,2) cl(1)]) simp
  then have "parseline (Suc (Suc k)) buf s = Some (Inr (BackCmd p, s1 + 1))"
    unfolding parseline.simps(2) [of "Suc k"] using b pk(3) by (simp add: pbind_def del: parsepipe.simps(2))
  moreover have "stands_for buf (BackCmd p) (BackCmd c)" using p(3) by (simp add: stands_for_def)
  ultimately show "\<exists>k p s'. parseline k buf s = Some (Inr (p, s')) \<and> lands buf s' t \<and> stands_for buf p (BackCmd c)" using l1 by blast
qed

lemma parses_cmd: "wf_cmd c \<Longrightarrow> parses c"
  by (induction c) (simp_all add: parses_Exec parses_Redir parses_Pipe parses_List parses_Back)

section \<open>Terminating the strings\<close>

lemma nulterminate_length [simp]: "length (nulterminate p m) = length m"
proof (induction p m rule: nulterminate.induct)
  case (1 args m)
  show ?case by (induction args arbitrary: m) (auto split: prod.splits)
qed simp_all

lemma fold_zero_nth:
  "i < length m \<Longrightarrow> fold (\<lambda>(q, e) m. m[e := 0]) args m ! i = (if i \<in> snd ` set args then 0 else m ! i)"
  by (induction args arbitrary: m) (auto simp: nth_list_update split: prod.splits)

lemma nulterminate_nth: "i < length m \<Longrightarrow> nulterminate p m ! i = (if i \<in> snd ` set_cmd p then 0 else m ! i)"
proof (induction p m rule: nulterminate.induct)
  case (1 args m)
  then show ?case by (simp add: fold_zero_nth)
next
  case (2 c q e mode fd m)
  then show ?case by (cases "e = i") simp_all
qed (simp_all add: image_Un)

text \<open>The C string at the start of a token is the token.\<close>

lemma cstr_token:
  assumes "x \<in> set_cmd p" "\<forall>x \<in> set_cmd p. tok_ok buf x"
  shows "cstr_at (nulterminate p (buf @ [0])) (fst x) = tok_str buf x"
proof -
  obtain q e where x: "x = (q, e)" by fastforce
  have ok: "q \<le> e" "e \<le> length buf" "\<And>i. q \<le> i \<Longrightarrow> i < e \<Longrightarrow> wordch (buf ! i)" using assms by (auto simp: x tok_ok_def)
  let ?m = "nulterminate p (buf @ [0])"
  have keep: "?m ! i = buf ! i" if i: "q \<le> i" "i < e" for i
  proof -
    have "i \<notin> snd ` set_cmd p"
    proof
      assume "i \<in> snd ` set_cmd p"
      then obtain q' where "(q', i) \<in> set_cmd p" by auto
      then have "\<not> wordch (buf ! i)" using assms(2) i ok(2) by (auto simp: tok_ok_def)
      then show False using ok(3) [OF i] by simp
    qed
    then show ?thesis using i ok(2) by (simp add: nulterminate_nth nth_append)
  qed
  have "?m ! e = 0" using assms(1) x ok(2) by (auto simp: nulterminate_nth image_iff)
  moreover have "e < length ?m" using ok(2) by simp
  ultimately have "drop e ?m = 0 # drop (Suc e) ?m" by (metis Cons_nth_drop_Suc)
  moreover have "take (e - q) (drop q ?m) = take (e - q) (drop q buf)"
    by (rule nth_equalityI) (use ok(1,2) keep in auto)
  moreover have "drop q ?m = take (e - q) (drop q ?m) @ drop e ?m" using ok(1) by (metis append_take_drop_id drop_drop le_add_diff_inverse2)
  moreover have "\<forall>c \<in> set (take (e - q) (drop q buf)). c \<noteq> 0"
    using ok by (auto simp: in_set_conv_nth wordch_def)
  ultimately show ?thesis by (simp add: cstr_at_def tok_str_def x takeWhile_append2)
qed

text \<open>
  C35: every command is what the shell's parser makes of its text.  For a command tree with words
  of ordinary characters and at most nine arguments per command, \<open>parsecmd\<close> of the printed text
  succeeds, and the strings of its result, read from the line after \<open>nulterminate\<close> has written
  the zero bytes, give back the tree: no terminating zero damages another string.
\<close>

theorem parsecmd_print:
  assumes "wf_cmd c" "4 * length (print_cmd c) + 4 \<le> k"
  shows "\<exists>p m. parsecmd k (print_cmd c) = Some (Inr (p, m)) \<and> strings m p = c"
proof -
  let ?buf = "print_cmd c"
  have l: "lands ?buf 0 (print_cmd c @ [])" "closing []" by (simp_all add: lands_def closing_def)
  obtain k' p s' where p: "parseline k' ?buf 0 = Some (Inr (p, s'))" "lands ?buf s' []" "stands_for ?buf p c"
    using parses_cmd [OF assms(1)] l unfolding parses_def by blast
  obtain r where r: "parseline k ?buf 0 = Some r" using parse_returns(1) [of 0 ?buf k] assms(2) by auto
  have "r = Inr (p, s')"
    using parse_mono(1) [OF max.cobounded1 r, of k'] parse_mono(1) [OF max.cobounded2 p(1), of k] by simp
  moreover have s': "s' = length ?buf" using p(2) by (simp add: lands_def)
  have "snd (peek_tok ?buf s' []) = length ?buf"
    unfolding s' by (simp add: peek_tok_def Let_def skip_ws.simps)
  ultimately have e: "parsecmd k ?buf = Some (Inr (p, nulterminate p (?buf @ [0])))" using r by (simp add: parsecmd_def)
  have "strings (nulterminate p (?buf @ [0])) p = map_cmd (tok_str ?buf) p"
    unfolding strings_def by (rule cmd.map_cong0) (use cstr_token p(3) in \<open>auto simp: stands_for_def split: prod.splits\<close>)
  then show ?thesis using e p(3) by (auto simp: stands_for_def)
qed

theorem parsecmd_print_witness:
  "\<exists>p m. parsecmd 92 (str ''(cat a )|((wc )>o )'') = Some (Inr (p, m)) \<and>
     strings m p = PipeCmd (ExecCmd [str ''cat'', str ''a'']) (RedirCmd (ExecCmd [str ''wc'']) (str ''o'') (O_WRONLY OR O_CREATE OR O_TRUNC) 1)"
proof -
  let ?c = "PipeCmd (ExecCmd [str ''cat'', str ''a'']) (RedirCmd (ExecCmd [str ''wc'']) (str ''o'') (O_WRONLY OR O_CREATE OR O_TRUNC) 1)"
  have e: "print_cmd ?c = str ''(cat a )|((wc )>o )''" by (simp add: words_def str_def redir_op_def)
  have "word (str ''cat'')" "word (str ''a'')" "word (str ''wc'')" "word (str ''o'')"
    by (simp_all add: word_def wordch_def str_def whitespace_def symbols_def)
  then have wf: "wf_cmd ?c" by (simp add: MAXARGS_def redir_ok_def)
  have k: "4 * length (print_cmd ?c) + 4 \<le> 92" unfolding e by (simp add: str_def)
  show ?thesis using parsecmd_print [OF wf k] unfolding e .
qed

section \<open>The descriptors of a pipeline\<close>

text \<open>
  What is behind a descriptor: something the shell had open, a file opened by a redirection, or an
  end of the pipe.
\<close>

datatype 'd behind = Old 'd | Opened "byte list" uint | Read_end | Write_end

definition lowest_free :: "(int \<Rightarrow> 'd behind option) \<Rightarrow> int option" where
  "lowest_free t = find (\<lambda>fd. t fd = None) (map int [0..<16])"

text \<open>
  The first \<open>exec\<close> of a process and its descriptors there.  The list says at each \<open>fork\<close> whether
  to follow the child; \<open>p\<close> are the descriptors that \<open>pipe\<close> returns.  \<open>dup\<close> and \<open>open\<close> use the lowest
  free descriptor, as \<^verbatim>\<open>fdalloc\<close> does.
\<close>

primrec first_exec ::
  "syscalls_of \<Rightarrow> bool list \<Rightarrow> int \<times> int \<Rightarrow> (int \<Rightarrow> 'd behind option) \<Rightarrow> (byte list \<times> byte list list \<times> (int \<Rightarrow> 'd behind option)) option" where
  "first_exec (Exit n) = (\<lambda>bs p t. None)"
| "first_exec (Exec a args k) = (\<lambda>bs p t. Some (a, args, t))"
| "first_exec (Write fd m k) = first_exec k"
| "first_exec (Close fd k) = (\<lambda>bs p t. first_exec k bs p (t(fd := None)))"
| "first_exec (Open f mode k) =
     (\<lambda>bs p t. case lowest_free t of None \<Rightarrow> first_exec (k (-1)) bs p t
        | Some fd \<Rightarrow> first_exec (k fd) bs p (t(fd \<mapsto> Opened f mode)))"
| "first_exec (Dup fd k) =
     (\<lambda>bs p t. first_exec k bs p (case lowest_free t of None \<Rightarrow> t | Some n \<Rightarrow> t(n := t fd)))"
| "first_exec (Pipe k e) = (\<lambda>bs p t. first_exec (k (fst p) (snd p)) bs p (t(fst p \<mapsto> Read_end, snd p \<mapsto> Write_end)))"
| "first_exec (Fork k) = (\<lambda>bs p t. case bs of [] \<Rightarrow> None | b # bs \<Rightarrow> first_exec (k (if b then 0 else 1)) bs p t)"
| "first_exec (Wait k) = first_exec k"
| "first_exec (Chdir d k) = first_exec (k 0)"

text \<open>
  C39: in a pipeline the left command runs with the write end of the pipe as its descriptor 1 and
  the right command with the read end as its descriptor 0; all other descriptors are as they were
  in the shell, and neither command holds another descriptor of the pipe, so that the reader sees
  the end of the data when the writer is done.
\<close>

theorem pipeline_descriptors:
  assumes "t 0 = Some x" "t 1 = Some y" "t p0 = None" "t p1 = None" "p0 \<noteq> p1"
  shows "first_exec (runcmd (PipeCmd c d)) (True # bs) (p0, p1) t = first_exec (runcmd c) bs (p0, p1) (t(1 \<mapsto> Write_end)) \<and>
    first_exec (runcmd (PipeCmd c d)) (False # True # bs) (p0, p1) t = first_exec (runcmd d) bs (p0, p1) (t(0 \<mapsto> Read_end))"
proof -
  have ne: "p0 \<noteq> 0" "p0 \<noteq> 1" "p1 \<noteq> 0" "p1 \<noteq> 1" using assms by auto
  have z: "lowest_free u = Some 0" if "u 0 = None" for u :: "int \<Rightarrow> 'a behind option"
    using that by (simp add: lowest_free_def upt_conv_Cons)
  have o: "lowest_free u = Some 1" if "u 0 \<noteq> None" "u 1 = None" for u :: "int \<Rightarrow> 'a behind option"
    using that by (simp add: lowest_free_def upt_conv_Cons)
  have l: "lowest_free (t(p0 \<mapsto> Read_end, p1 \<mapsto> Write_end, 1 := None)) = Some 1"
    "lowest_free (t(p0 \<mapsto> Read_end, p1 \<mapsto> Write_end, 0 := None)) = Some 0"
    using z o assms(1) ne by simp_all
  have "(t(p0 \<mapsto> Read_end, p1 \<mapsto> Write_end, 1 := None, 1 \<mapsto> Write_end, p0 := None, p1 := None)) = t(1 \<mapsto> Write_end)"
    "(t(p0 \<mapsto> Read_end, p1 \<mapsto> Write_end, 0 := None, 0 \<mapsto> Read_end, p0 := None, p1 := None)) = t(0 \<mapsto> Read_end)"
    using assms(3-5) ne by (auto simp: fun_eq_iff)
  then show ?thesis using l ne assms(5) by (simp add: fork1_def)
qed

theorem pipeline_descriptors_witness:
  "first_exec (runcmd (PipeCmd (ExecCmd [str ''ls'']) (ExecCmd [str ''wc'']))) [True] (3, 4) ([0 \<mapsto> Old ''in'', 1 \<mapsto> Old ''out'']) =
     Some (str ''ls'', [str ''ls''], [0 \<mapsto> Old ''in'', 1 \<mapsto> Write_end])"
proof -
  have "first_exec (runcmd (PipeCmd (ExecCmd [str ''ls'']) (ExecCmd [str ''wc'']))) [True] (3, 4) ([0 \<mapsto> Old ''in'', 1 \<mapsto> Old ''out'']) =
    first_exec (runcmd (ExecCmd [str ''ls''])) [] (3, 4) ([0 \<mapsto> Old ''in'', 1 \<mapsto> Old ''out'', 1 \<mapsto> Write_end])"
    by (rule conjunct1 [OF pipeline_descriptors [where t = "[0 \<mapsto> Old ''in'', 1 \<mapsto> Old ''out'']"]]) simp_all
  then show ?thesis by simp
qed

end
