(* ===== verification/Spec2Isabelle.thy ===== *)
theory Spec2Isabelle
  imports Scheduler Mlfq Boot Pipespec Consspec Mkfsspec Virtiospec Alarmspec Grep Shellspec
begin

text \<open>
  \<^bold>\<open>An xv6 kernel with three schedulers, alarms and system-call counting.\<close>

  The program is the teaching kernel xv6 for RISC-V with its user programs, under
  \<^verbatim>\<open>src/initial-xv6/src\<close>: \<^verbatim>\<open>kernel/\<close> (C, with a little assembly), \<^verbatim>\<open>user/\<close> and \<^verbatim>\<open>mkfs/\<close>.  To the
  original kernel the repository adds a lottery scheduler, a multi-level feedback queue, the
  calls \<open>getSysCount\<close>, \<open>sigalarm\<close>, \<open>sigreturn\<close>, \<open>settickets\<close> and \<open>waitx\<close>.  This development
  translates the C functions one by one into executable HOL functions and proves what the parts
  promise each other and the user.

  \<^bold>\<open>How C is represented\<close> (theory \<open>Prelude\<close>).  A kernel function is a function from its
  arguments and the machine state to an \<open>outcome\<close>: \<open>Ret\<close> a value and a new state, \<open>Panic\<close> with
  the message of the call of \<^verbatim>\<open>panic\<close>, \<open>Fault\<close> where the C text has no defined meaning (an access
  outside an array or through a null pointer), \<open>Spin\<close> where the processor waits for ever (a lock
  it holds itself, an endless poll), and \<open>Switch\<close> with the state in which the processor is given
  away.  \<open>bnd\<close> sequences, \<open>for_each\<close>, \<open>for_until\<close> and \<open>for_acc\<close> are the loops over tables.
  \<^verbatim>\<open>int\<close> is \<open>int\<close> with \<open>wrap32\<close> written where the source computes, \<^verbatim>\<open>uint\<close>, \<^verbatim>\<open>uint64\<close>, \<^verbatim>\<open>short\<close>
  and \<^verbatim>\<open>char\<close> are words of their width, and physical memory is a function from 64-bit addresses to
  bytes.  A pointer into a static table is an index into it.

  The state is one record, extended theory by theory in the order in which the code needs it:
  harts and spin locks (\<open>Spinlock\<close>), the process table (\<open>Proc\<close>), bytes of memory and free list
  (\<open>Kalloc\<close>), sleep locks (\<open>Sleeplock\<close>), disk and buffer cache (\<open>Bio\<close>), log (\<open>Log\<close>), UART and
  console (\<open>Uart\<close>), super block and inode table (\<open>Fs\<close>), file table and pipes (\<open>File\<close>), virtio
  queue (\<open>Virtio\<close>), boot registers (\<open>Boot\<close>).  An operation is stated on the record of its own
  layer and so applies to every later one.

  A call that sleeps ends in \<open>Switch\<close>; the code that follows the call of \<open>sched\<close> is a definition
  of its own with the suffix \<open>_resume\<close>, which starts in whatever state the process is woken in.
  The C stack of a sleeping process is not represented, so what a caller of a sleeping function
  does afterwards is not composed with the callee; the theorems about functions that may sleep
  state what holds at the switch and what the resumed code does.

  \<^bold>\<open>The theories.\<close>

  \<^item> \<open>Prelude\<close>, \<open>Memlayout\<close>, \<open>Cstring\<close>: the vocabulary; \<^verbatim>\<open>memlayout.h\<close> and the page macros of
    \<^verbatim>\<open>riscv.h\<close>; \<^verbatim>\<open>string.c\<close> on byte memory, with the overlap behaviour of \<open>memmove\<close>.
  \<^item> \<open>Spinlock\<close>: \<^verbatim>\<open>spinlock.c\<close>.  The sequential functions, and an interleaving semantics
    (\<open>spin_step\<close>, \<open>spin_reachable\<close>), of which \<open>acquire\<close> and \<open>release\<close> are runs, in which two harts
    are never inside the same lock.
  \<^item> \<open>Proc\<close>, \<open>Procs\<close>, \<open>Life\<close>: \<^verbatim>\<open>proc.c\<close> in the order of what it needs: states, sleeping and
    waking, ticks; then memory (\<open>allocproc\<close>, \<open>freeproc\<close>, \<open>wait\<close>, \<open>waitx\<close>, \<open>growproc\<close>); then
    files (\<open>userinit\<close>, \<open>fork\<close>, \<open>exit\<close>).  \<open>Procspec\<close> and \<open>Procalloc\<close> show that \<open>allocproc\<close> is
    all or nothing and that \<open>wait\<close> reaps a zombie completely.
  \<^item> \<open>Scheduler\<close>: the default and the \<^verbatim>\<open>LBS\<close> body of \<open>scheduler\<close>.  One pass of round robin runs
    every runnable process once; the lottery draw determines the process that runs, up to a
    tie-break that only looks at later slots; the draws are shared between the classes of processes
    with equally many tickets in proportion to their tickets; tickets that the 15-bit generator
    cannot reach.
  \<^item> \<open>Mlfq\<close>: the \<^verbatim>\<open>MLFQ\<close> body, the queue routines and the code in \<open>usertrap\<close>.  The array with its
    tail index is a double-ended queue (locale \<open>deque\<close>); strict priority, progress, demotion, and
    two defects: the dead ageing code and the write past a full queue.
  \<^item> \<open>Kalloc\<close>: \<^verbatim>\<open>kalloc.c\<close>.  The free list threaded through the free pages; the locale \<open>page_pool\<close>
    is the contract that the clients use, interpreted as \<open>kmem\<close>.
  \<^item> \<open>Vm\<close>: \<^verbatim>\<open>vm.c\<close>.  \<open>Pagetable\<close> views a page table in memory as a tree and as a map; \<open>Vmspec\<close>
    (\<open>mappages\<close>, \<open>uvmalloc\<close>), \<open>Vmunmap\<close> (\<open>uvmunmap\<close>, \<open>freewalk\<close>, \<open>uvmfree\<close>) and \<open>Vmcopy\<close>
    (\<open>copyin\<close>, \<open>copyout\<close>) relate the code to the map and to the pages it owns.
  \<^item> \<open>Sleeplock\<close>, \<open>Bio\<close>: \<^verbatim>\<open>sleeplock.c\<close> and \<^verbatim>\<open>bio.c\<close>.  \<open>Biospec\<close> states the contract of the cache
    (locale \<open>block_cache\<close>, interpreted as \<open>bio\<close>); \<open>Bcache\<close> shows that the cache with its LRU list
    implements a map from block numbers to contents.
  \<^item> \<open>Log\<close>: \<^verbatim>\<open>log.c\<close>.  \<open>Logspec\<close> and \<open>Logcrash\<close> show that a crash at any disk write of a commit,
    or of a recovery, is repaired to all or nothing in every block outside the log, that is, outside
    the \<open>LOGSIZE\<close> blocks (header and \<open>LOGSIZE - 1\<close> copies) that \<open>mkfs\<close> reserves (\<open>inlog\<close>);
    \<open>Logtxn\<close> gives the contract of a transaction to the file system (locale \<open>transaction\<close>,
    interpreted as \<open>tx\<close>) and shows that the admission test of \<open>begin_op\<close> is too weak by one block.
  \<^item> \<open>Ring\<close>: the law of ring buffers with wrapping indices, a locale interpreted for the pipe, the
    console and the UART.  \<open>Uart\<close>, \<open>Printf\<close>, \<open>Console\<close> (\<^verbatim>\<open>uart.c\<close>, \<^verbatim>\<open>printf.c\<close>, \<^verbatim>\<open>console.c\<close>);
    \<open>Consspec\<close>: the console is a line editor, and UART output keeps its order.
  \<^item> \<open>Fs\<close>, \<open>Dir\<close>: \<^verbatim>\<open>fs.c\<close>, with inodes and directory entries in their byte layout.  \<open>Inodespec\<close>:
    \<open>readi\<close> and \<open>writei\<close> on the contents of a file, through cache and log; for \<open>writei\<close> the blocks
    must be allocated already.
  \<^item> \<open>Mkfs\<close>: \<^verbatim>\<open>mkfs/mkfs.c\<close>, which builds the disk image.  \<open>Mkfsspec\<close>: the image holds the given files in the
    layout that the kernel reads; \<open>kernel_reads_image\<close> below joins the two programs.
  \<^item> \<open>File\<close>, \<open>Sysargs\<close>, \<open>Sysfile\<close>, \<open>Exec\<close>: \<^verbatim>\<open>file.c\<close>, \<^verbatim>\<open>pipe.c\<close>, \<^verbatim>\<open>syscall.c\<close>, \<^verbatim>\<open>sysfile.c\<close>, \<^verbatim>\<open>exec.c\<close>.
    \<open>Pipespec\<close>: a pipe is a queue of bytes.
  \<^item> \<open>Sysproc\<close>, \<open>Trap\<close>, \<open>Virtio\<close>, \<open>Boot\<close>: \<^verbatim>\<open>sysproc.c\<close>, \<^verbatim>\<open>trap.c\<close>, \<^verbatim>\<open>virtio_disk.c\<close>, \<^verbatim>\<open>plic.c\<close>,
    \<^verbatim>\<open>start.c\<close>, \<^verbatim>\<open>main.c\<close>.  \<open>Virtiospec\<close>: the life of a disk request
    from its descriptors to the wake-up.  \<open>Alarmspec\<close>: what a process sees of an alarm and of \<open>sigreturn\<close>.
  \<^item> \<open>Ulib\<close>, \<open>Grep\<close>, \<open>Shell\<close>, \<open>Shellspec\<close>: \<^verbatim>\<open>ulib.c\<close> and \<^verbatim>\<open>printf.c\<close> of the user programs,
    \<^verbatim>\<open>grep.c\<close> and \<^verbatim>\<open>sh.c\<close>.  The matcher accepts the language of its pattern, the parser inverts
    a printer of fully parenthesised commands and always returns, a pipeline connects exactly its
    two ends: the commands that the shell issues are a tree of system calls, and \<open>first_exec\<close>
    follows one branch of it to the first \<open>exec\<close> with an abstract descriptor table.

  \<^bold>\<open>Bounds and fuel.\<close>  Loops over tables recurse on their lists or counters.  \<open>freewalk\<close> recurses
  on the level of the table, at most three.  \<open>free_chain\<close> of \<open>Virtio\<close> takes \<open>Suc VNUM\<close> rounds,
  which always suffice, since freeing a free descriptor panics.  The parser of the shell takes a
  depth; \<open>parsecmd_returns\<close> shows that four levels for each byte of the line and four more
  suffice.  \<open>grep\<close> may read for ever from an endless input and is a \<open>partial_function\<close>; it is
  shown to return.  Polls of a device take its answers from the state.

  \<^bold>\<open>Outside the sources.\<close>  The answers of devices (line status of the UART, virtio registers, the
  claim register of the interrupt controller) are fields of the state.  \<open>virtio_disk_rw\<close> is
  modelled to the point where it waits; for the cache a complete transfer is \<open>disk_transfer\<close>,
  which moves one block between buffer and disk.  In \<open>Grep\<close> the system call \<open>read\<close> is a parameter
  with the contract \<open>reader\<close>: it returns the next bytes of the input, at least one unless the
  input is exhausted.  User code between two traps is the relation \<open>user_ran\<close> of \<open>Alarmspec\<close>: it may
  change the registers of the process and the bytes of its own pages, and nothing else.

  \<^bold>\<open>Not modelled.\<close>
  The assembly files (the model begins and ends at the C functions they call, and
  \<open>swtch\<close> is \<open>Switch\<close>), \<^verbatim>\<open>ramdisk.c\<close> (not built), the generated system-call stubs, prototypes and
  link scripts, the test programs (\<^verbatim>\<open>usertests\<close>, \<^verbatim>\<open>grind\<close>, \<^verbatim>\<open>forktest\<close>, \<^verbatim>\<open>stressfs\<close>, \<^verbatim>\<open>alarmtest\<close>,
  \<^verbatim>\<open>schedulertest\<close>), which exercise the system and are not part of it.  The user allocator \<^verbatim>\<open>umalloc.c\<close>
  is left out; the shell, its only client here, is modelled with \<open>malloc\<close> succeeding.  The small
  programs (\<^verbatim>\<open>cat\<close>, \<^verbatim>\<open>echo\<close>, \<^verbatim>\<open>init\<close>, \<^verbatim>\<open>kill\<close>, \<^verbatim>\<open>ln\<close>, \<^verbatim>\<open>ls\<close>, \<^verbatim>\<open>mkdir\<close>, \<^verbatim>\<open>rm\<close>, \<^verbatim>\<open>wc\<close>, \<^verbatim>\<open>zombie\<close>, \<^verbatim>\<open>syscount\<close>) are
  short loops around system calls and are left out.  True concurrency of several
  harts is modelled for spin locks only; elsewhere a kernel path runs alone between its lock
  operations and switches.
\<close>

section \<open>The image and the kernel\<close>

text \<open>
  C13: The kernel reads from an image built by \<open>mkfs\<close> what was put in: when the blocks of the disk are
  those of the image and an inode in memory has been loaded from slot \<open>i + 2\<close> of the inode area,
  \<open>readi\<close> of the whole file returns the contents of file \<open>i\<close> of the command line of \<open>mkfs\<close>.
\<close>

theorem kernel_reads_image:
  assumes "\<forall>f \<in> set files. usable f" "length files < NINODES" "fits (root_dir files # map mk_content files)"
    and "mkfs_main files = Ret () m" "i < length files"
    and "bc p 1 s (\<lambda>_. None) P (iview m)" "room (\<lambda>_. None) P"
    and "i_dev (itable s ip) = 1" "dinode_of (itable s ip) = dinode_at m (i + 2)"
  shows "\<exists>t. readi ip Local_dst 0 (i_size (itable s ip)) s = Ret (int (length (mk_content (files ! i))), mk_content (files ! i)) t \<and>
    disk t = disk s \<and> itable t = itable s"
proof -
  let ?cs = "root_dir files # map mk_content files" and ?c = "mk_content (files ! i)"
  obtain t As where "mkfs_main files = Ret () t" "data_inv t As ?cs"
    "\<And>i. i < length files \<Longrightarrow> dinode_at t (i + 2) = mk_din (i + 1) (As ! (i + 1)) (length (mk_content (files ! i)))"
    by (rule mkfs_result [OF assms(1-3)]) (rule that, assumption+)
  then have t: "data_inv m As ?cs" "dinode_at m (i + 2) = mk_din (i + 1) (As ! (i + 1)) (length ?c)" using assms(4,5) by simp_all
  then have h: "holds (unat (freeblock m)) (iview m) (As ! (i + 1)) ?c" using assms(5) by (fastforce simp: data_inv_def)
  have c: "length ?c \<le> 274432" using assms(3,5) by (auto simp: fits_def layout_values)
  have ino: "i_addrs (itable s ip) = As ! (i + 1)" "i_size (itable s ip) = of_nat (length ?c)"
    using assms(9) t(2) by (simp_all add: dinode_of_def mk_din_def)
  have u: "unat (of_nat (length ?c) :: uint) = length ?c" using c by (intro unat32_of_nat) simp
  have "sound_file 2 0 (iview m) (As ! (i + 1)) (cblk (length ?c))"
    using h by (intro laid_out_sound) (auto simp: holds_def layout_values)
  then have f: "fmapped (iview m) (As ! (i + 1)) (unat (0 :: uint) div BSIZE) ((unat (0 :: uint) + length ?c + (BSIZE - 1)) div BSIZE)"
    by (rule sound_mapped) (simp add: cblk_def layout_values)
  have pr: "1 = i_dev (itable s ip)" "As ! (i + 1) = i_addrs (itable s ip)" "0 \<le> i_size (itable s ip)"
    "unat (0 :: uint) + unat (of_nat (length ?c) :: uint) < 2 ^ 32"
    "length ?c = min (unat (of_nat (length ?c) :: uint)) (unat (i_size (itable s ip)) - unat (0 :: uint))"
    unfolding ino(2) u using assms(8) ino(1) c by simp_all
  obtain k where "readi ip
 Local_dst 0 (of_nat (length ?c)) s =
      Ret (int (length ?c), map (fbyte (iview m) (As ! (i + 1))) [unat (0 :: uint)..<unat (0 :: uint) + length ?c]) k"
    "bframe p s k" "disk k = disk s"
    by (rule readi_reads [OF assms(6,7) pr f])
  then show ?thesis using holds_contents [OF h] ino(2) bframe_itable by auto
qed

text \<open>A kernel booted from the image of one small file, with its inode loaded into slot 0.\<close>

definition loaded :: "mkfs \<Rightarrow> flstate" where
  "loaded m = upd_ino 0 (\<lambda>_. (let d = dinode_at m 2 in zero_inode\<lparr>i_dev := 1, i_inum := 2, i_ref := 1, i_valid := True,
     i_type := d_type d, i_major := d_major d, i_minor := d_minor d, i_nlink := d_nlink d, i_size := d_size d, i_addrs := d_addrs d\<rparr>))
     (demo_fs (\<lambda>n. img m ! n))"

theorem kernel_reads_image_witness:
  "\<exists>m t. mkfs_main demo_files = Ret () m \<and> readi 0 Local_dst 0 4 (loaded m) = Ret (4, [1, 2, 3, 4]) t"
proof -
  obtain m As where m: "mkfs_main demo_files = Ret () m"
    "\<And>i. i < length demo_files \<Longrightarrow> dinode_at m (i + 2) = mk_din (i + 1) (As ! (i + 1)) (length (mk_content (demo_files ! i)))"
    by (rule mkfs_result [OF demo_files_ok]) (rule that, assumption+)
  have c: "mk_content (demo_files ! 0) = [1, 2, 3, 4]" "0 < length demo_files" by (simp_all add: demo_files_def mk_content_def)
  have b: "bc 0 1 (loaded m) (\<lambda>_. None) (\<lambda>_. 0) (iview m)"
    using demo_fs_bc [of "\<lambda>n. img m ! n"] by (simp add: loaded_def iview_def [abs_def])
  have r: "room (\<lambda>_. None) (\<lambda>_. 0)" by (simp add: room_def used_def NBUF_def MAXOPBLOCKS_def)
  have i: "i_dev (itable (loaded m) 0) = 1" "dinode_of (itable (loaded m) 0) = dinode_at m (0 + 2)"
    by (simp_all add: loaded_def upd_ino_def dinode_of_def Let_def numeral_2_eq_2)
  have "i_size (itable (loaded m) 0) = 4" using m(2) [OF c(2)] c(1) by (simp add: loaded_def upd_ino_def Let_def mk_din_def numeral_2_eq_2)
  then show ?thesis using kernel_reads_image [OF demo_files_ok m(1) c(2) b r i] m(1) unfolding c(1) by auto
qed

end
